(* ===== verification/Prelude.thy ===== *)
theory Prelude
  imports Main "HOL-Library.Word" "HOL-Library.Monad_Syntax"
begin

section \<open>Shared vocabulary of the development\<close>

text \<open>
  The types and the generic facts that every component of the model uses: Go's fixed-width
  integers as words, a Go slice as a list, a runtime panic as \<^const>\<open>None\<close>, little-endian
  integers as \<open>encoding/binary\<close> writes them, and the in-place slice operations
  (\<open>copy\<close>, reslicing) written on lists.
\<close>

unbundle bit_operations_syntax

type_synonym byte = "8 word"
type_synonym u8 = "8 word"
type_synonym u16 = "16 word"
type_synonym u32 = "32 word"
type_synonym u64 = "64 word"
type_synonym bytes = "byte list"

named_theorems wire_simps \<open>length and round-trip facts of the wire formats\<close>
named_theorems frame_simps \<open>fields an operation leaves alone\<close>

subsection \<open>Go integers\<close>

text \<open>An \<open>int32\<close> is an \<^typ>\<open>int\<close>; every operation that can overflow is wrapped by \<open>i32\<close>.\<close>

definition i32 :: "int \<Rightarrow> int" where
  "i32 x = sint (word_of_int x :: u32)"

lemma i32_id: "- (2 ^ 31) \<le> x \<Longrightarrow> x < 2 ^ 31 \<Longrightarrow> i32 x = x"
  unfolding i32_def by (simp add: sint_sbintrunc' signed_take_bit_int_eq_self)

lemma i32_range: "- (2 ^ 31) \<le> i32 x" "i32 x < 2 ^ 31"
  unfolding i32_def
  using sint_ge [of "word_of_int x :: u32"] sint_lt [of "word_of_int x :: u32"] by simp_all

lemma unat_u32_lt: "unat (w :: u32) < 2 ^ 32"
  using unsigned_less [of w] by simp

lemma unat_of_nat_u32: "n < 2 ^ 32 \<Longrightarrow> unat (of_nat n :: u32) = n"
  by (simp add: unat_of_nat)

subsection \<open>Slices\<close>

text \<open>Go's \<open>copy(dst, src)\<close>: the first \<open>min (len dst) (len src)\<close> elements are overwritten.\<close>

definition go_copy :: "'a list \<Rightarrow> 'a list \<Rightarrow> 'a list" where
  "go_copy dst src = take (length dst) src @ drop (length src) dst"

lemma length_go_copy [simp]: "length (go_copy dst src) = length dst"
  by (simp add: go_copy_def)

lemma go_copy_exact: "length src = length dst \<Longrightarrow> go_copy dst src = src"
  by (simp add: go_copy_def)

text \<open>Overwriting the bytes of a buffer from an offset on, where there is room for them.\<close>

definition put_at :: "nat \<Rightarrow> 'a list \<Rightarrow> 'a list \<Rightarrow> 'a list" where
  "put_at i xs b = take i b @ xs @ drop (i + length xs) b"

lemma length_put_at [simp]: "i + length xs \<le> length b \<Longrightarrow> length (put_at i xs b) = length b"
  by (simp add: put_at_def)

subsection \<open>Little-endian integers\<close>

definition put_le16 :: "u16 \<Rightarrow> bytes" where
  "put_le16 w = [ucast w, ucast (drop_bit 8 w)]"

definition put_le32 :: "u32 \<Rightarrow> bytes" where
  "put_le32 w = [ucast w, ucast (drop_bit 8 w), ucast (drop_bit 16 w), ucast (drop_bit 24 w)]"

fun get_le16 :: "bytes \<Rightarrow> u16 option" where
  "get_le16 (a # b # _) = Some (ucast a OR push_bit 8 (ucast b))"
| "get_le16 _ = None"

fun get_le32 :: "bytes \<Rightarrow> u32 option" where
  "get_le32 (a # b # c # d # _) =
     Some (ucast a OR push_bit 8 (ucast b) OR push_bit 16 (ucast c) OR push_bit 24 (ucast d))"
| "get_le32 _ = None"

lemma length_put_le16 [simp, wire_simps]: "length (put_le16 w) = 2"
  by (simp add: put_le16_def)

lemma length_put_le32 [simp, wire_simps]: "length (put_le32 w) = 4"
  by (simp add: put_le32_def)

lemma get_put_le16 [simp, wire_simps]: "get_le16 (put_le16 w @ r) = Some w"
proof -
  have "ucast (ucast w :: byte) OR push_bit 8 (ucast (ucast (drop_bit 8 w) :: byte)) = w"
    by (rule bit_word_eqI) (auto simp: bit_simps)
  then show ?thesis by (simp add: put_le16_def)
qed

lemma get_put_le32 [simp, wire_simps]: "get_le32 (put_le32 w @ r) = Some w"
proof -
  have "ucast (ucast w :: byte) OR push_bit 8 (ucast (ucast (drop_bit 8 w) :: byte))
      OR push_bit 16 (ucast (ucast (drop_bit 16 w) :: byte))
      OR push_bit 24 (ucast (ucast (drop_bit 24 w) :: byte)) = w" (is "?v = w")
  proof (rule bit_word_eqI)
    fix n
    assume "n < LENGTH(32)"
    then show "bit ?v n = bit w n"
      by (cases "n < 8"; cases "n < 16"; cases "n < 24") (auto simp: bit_simps)
  qed
  then show ?thesis by (simp add: put_le32_def)
qed

lemma get_le32_None: "get_le32 b = None \<longleftrightarrow> length b < 4"
  by (induction b rule: get_le32.induct) auto

lemma get_le32_Some: "get_le32 b = Some x \<Longrightarrow> 4 \<le> length b"
  using get_le32_None [of b] by (cases "length b < 4") auto

lemma get_le16_None: "get_le16 b = None \<longleftrightarrow> length b < 2"
  by (induction b rule: get_le16.induct) auto

end
