(* ===== verification/Crypt.thy ===== *)
theory Crypt
  imports Prelude
begin

section \<open>Packet encryption (crypt/crypt.go)\<close>

text \<open>
  The CFB mode every block cipher of the tunnel runs in, unrolled eight times as in the code.
  The ciphers and the XOR routines are libraries: a cipher is a record of its block size and
  its function on one block, the XOR library a record of its three routines, each mapping the
  destination slice before the call and the two sources to the destination slice after it.
  \<open>same\<close> says that \<open>dst\<close> and \<open>src\<close> are the same memory, which the interface allows.
\<close>

record block_cipher =
  BlockSize :: nat
  EncryptBlock :: "bytes \<Rightarrow> bytes"

record xor_lib =
  BytesSrc0 :: "bytes \<Rightarrow> bytes \<Rightarrow> bytes \<Rightarrow> bytes"
  BytesSrc1 :: "bytes \<Rightarrow> bytes \<Rightarrow> bytes \<Rightarrow> bytes"
  XorBytes :: "bytes \<Rightarrow> bytes \<Rightarrow> bytes \<Rightarrow> bytes"

definition initialVector :: bytes where
  "initialVector = [167, 115, 79, 156, 18, 172, 27, 1, 164, 21, 242, 193, 252, 120, 230, 107]"

text \<open>Memory and the two tables: \<open>next\<close> is used by decryption only.\<close>

record cfb =
  c_dst :: bytes
  c_src :: bytes
  c_tbl :: bytes
  c_next :: bytes

definition write_dst :: "bool \<Rightarrow> bytes \<Rightarrow> cfb \<Rightarrow> cfb" where
  "write_dst same d st = (if same then st\<lparr>c_dst := d, c_src := d\<rparr> else st\<lparr>c_dst := d\<rparr>)"

text \<open>The slice \<open>b[i:j]\<close>; \<open>block.Encrypt(dst, src)\<close>, which panics on a short argument.\<close>

definition sl :: "nat \<Rightarrow> nat \<Rightarrow> bytes \<Rightarrow> bytes option" where
  "sl i j b = (if i \<le> j \<and> j \<le> length b then Some (take (j - i) (drop i b)) else None)"

definition block_Encrypt :: "block_cipher \<Rightarrow> bytes \<Rightarrow> bytes \<Rightarrow> bytes option" where
  "block_Encrypt C dst src =
     (if length src < BlockSize C \<or> length dst < BlockSize C then None
      else Some (EncryptBlock C (take (BlockSize C) src) @ drop (BlockSize C) dst))"

text \<open>\<open>xor.BytesSrc1(dst[i:j], src[i:j], t)\<close>, and the same with \<open>BytesSrc0\<close>.\<close>

definition xor_src1 :: "xor_lib \<Rightarrow> bool \<Rightarrow> nat \<Rightarrow> nat \<Rightarrow> bytes \<Rightarrow> cfb \<Rightarrow> cfb option" where
  "xor_src1 X same i j t st = do {
     d \<leftarrow> sl i j (c_dst st);
     s \<leftarrow> sl i j (c_src st);
     Some (write_dst same (put_at i (BytesSrc1 X d s t) (c_dst st)) st)
   }"

definition xor_rest1 :: "xor_lib \<Rightarrow> bool \<Rightarrow> nat \<Rightarrow> bytes \<Rightarrow> cfb \<Rightarrow> cfb option" where
  "xor_rest1 X same base t st = do {
     d \<leftarrow> sl base (length (c_dst st)) (c_dst st);
     s \<leftarrow> sl base (length (c_src st)) (c_src st);
     Some (write_dst same (put_at base (BytesSrc1 X d s t) (c_dst st)) st)
   }"

definition xor_rest0 :: "xor_lib \<Rightarrow> bool \<Rightarrow> nat \<Rightarrow> bytes \<Rightarrow> cfb \<Rightarrow> cfb option" where
  "xor_rest0 X same base t st = do {
     d \<leftarrow> sl base (length (c_dst st)) (c_dst st);
     s \<leftarrow> sl base (length (c_src st)) (c_src st);
     Some (write_dst same (put_at base (BytesSrc0 X d s t) (c_dst st)) st)
   }"

subsection \<open>Encryption\<close>

text \<open>One unrolled step on a fixed slice, and one on the rest of the buffers.\<close>

definition enc_slice :: "xor_lib \<Rightarrow> block_cipher \<Rightarrow> bool \<Rightarrow> nat \<Rightarrow> nat \<Rightarrow> cfb \<Rightarrow> cfb option" where
  "enc_slice X C same i j st = do {
     st \<leftarrow> xor_src1 X same i j (c_tbl st) st;
     d \<leftarrow> sl i j (c_dst st);
     t \<leftarrow> block_Encrypt C (c_tbl st) d;
     Some (st\<lparr>c_tbl := t\<rparr>)
   }"

definition enc_rest :: "xor_lib \<Rightarrow> block_cipher \<Rightarrow> bool \<Rightarrow> nat \<Rightarrow> cfb \<Rightarrow> cfb option" where
  "enc_rest X C same base st = do {
     st \<leftarrow> xor_rest1 X same base (c_tbl st) st;
     d \<leftarrow> sl base (length (c_dst st)) (c_dst st);
     t \<leftarrow> block_Encrypt C (c_tbl st) d;
     Some (st\<lparr>c_tbl := t\<rparr>)
   }"

text \<open>The loop bodies: eight steps, with the offsets of the code.\<close>

definition enc_body8 :: "xor_lib \<Rightarrow> block_cipher \<Rightarrow> bool \<Rightarrow> nat \<Rightarrow> cfb \<Rightarrow> cfb option" where
  "enc_body8 X C same base st = do {
     _ \<leftarrow> sl base (base + 64) (c_src st);
     _ \<leftarrow> sl base (base + 64) (c_dst st);
     st \<leftarrow> enc_slice X C same (base + 0) (base + 8) st;
     st \<leftarrow> enc_slice X C same (base + 8) (base + 16) st;
     st \<leftarrow> enc_slice X C same (base + 16) (base + 24) st;
     st \<leftarrow> enc_slice X C same (base + 24) (base + 32) st;
     st \<leftarrow> enc_slice X C same (base + 32) (base + 40) st;
     st \<leftarrow> enc_slice X C same (base + 40) (base + 48) st;
     st \<leftarrow> enc_slice X C same (base + 48) (base + 56) st;
     enc_slice X C same (base + 56) (base + 64) st
   }"

definition enc_body16 :: "xor_lib \<Rightarrow> block_cipher \<Rightarrow> bool \<Rightarrow> nat \<Rightarrow> cfb \<Rightarrow> cfb option" where
  "enc_body16 X C same base st = do {
     _ \<leftarrow> sl base (base + 128) (c_src st);
     _ \<leftarrow> sl base (base + 128) (c_dst st);
     st \<leftarrow> enc_slice X C same (base + 0) (base + 16) st;
     st \<leftarrow> enc_slice X C same (base + 16) (base + 32) st;
     st \<leftarrow> enc_slice X C same (base + 32) (base + 48) st;
     st \<leftarrow> enc_slice X C same (base + 48) (base + 64) st;
     st \<leftarrow> enc_slice X C same (base + 64) (base + 80) st;
     st \<leftarrow> enc_slice X C same (base + 80) (base + 96) st;
     st \<leftarrow> enc_slice X C same (base + 96) (base + 112) st;
     enc_slice X C same (base + 112) (base + 128) st
   }"

definition enc_bodyVariant :: "xor_lib \<Rightarrow> block_cipher \<Rightarrow> bool \<Rightarrow> nat \<Rightarrow> cfb \<Rightarrow> cfb option" where
  "enc_bodyVariant X C same base st =
     (let blocksize = BlockSize C in do {
       st \<leftarrow> enc_rest X C same base st; let base = base + blocksize;
       st \<leftarrow> enc_rest X C same base st; let base = base + blocksize;
       st \<leftarrow> enc_rest X C same base st; let base = base + blocksize;
       st \<leftarrow> enc_rest X C same base st; let base = base + blocksize;
       st \<leftarrow> enc_rest X C same base st; let base = base + blocksize;
       st \<leftarrow> enc_rest X C same base st; let base = base + blocksize;
       st \<leftarrow> enc_rest X C same base st; let base = base + blocksize;
       enc_rest X C same base st
     })"

text \<open>The loop over \<open>repeat\<close>: \<open>base\<close> advances by eight blocks.\<close>

fun cfb_repeat :: "(nat \<Rightarrow> cfb \<Rightarrow> cfb option) \<Rightarrow> nat \<Rightarrow> nat \<Rightarrow> nat \<Rightarrow> cfb \<Rightarrow> (nat \<times> cfb) option" where
  "cfb_repeat body stride 0 base st = Some (base, st)"
| "cfb_repeat body stride (Suc r) base st = do {
     st \<leftarrow> body base st;
     cfb_repeat body stride r (base + stride) st
   }"

text \<open>
  The \<open>switch\<close> falls through: with \<open>left\<close> blocks left, the cases \<open>left\<close>, \<open>left - 1\<close>, ..., 1 run
  the same step, and case 0 handles the bytes that do not fill a block.
\<close>

definition enc_case :: "xor_lib \<Rightarrow> block_cipher \<Rightarrow> bool \<Rightarrow> nat \<Rightarrow> nat \<Rightarrow> nat \<Rightarrow> nat \<times> cfb \<Rightarrow>
    (nat \<times> cfb) option" where
  "enc_case X C same blocksize left c = (\<lambda>(base, st).
     if c \<le> left then do { st \<leftarrow> enc_rest X C same base st; Some (base + blocksize, st) }
     else Some (base, st))"

definition enc_switch :: "xor_lib \<Rightarrow> block_cipher \<Rightarrow> bool \<Rightarrow> nat \<Rightarrow> nat \<Rightarrow> nat \<times> cfb \<Rightarrow> cfb option" where
  "enc_switch X C same blocksize left bs = do {
     bs \<leftarrow> enc_case X C same blocksize left 7 bs;
     bs \<leftarrow> enc_case X C same blocksize left 6 bs;
     bs \<leftarrow> enc_case X C same blocksize left 5 bs;
     bs \<leftarrow> enc_case X C same blocksize left 4 bs;
     bs \<leftarrow> enc_case X C same blocksize left 3 bs;
     bs \<leftarrow> enc_case X C same blocksize left 2 bs;
     (base, st) \<leftarrow> enc_case X C same blocksize left 1 bs;
     xor_rest0 X same base (c_tbl st) st
   }"

definition encrypt8 :: "xor_lib \<Rightarrow> block_cipher \<Rightarrow> bool \<Rightarrow> bytes \<Rightarrow> bytes \<Rightarrow> bytes \<Rightarrow> bytes option" where
  "encrypt8 X C same dst src buf = do {
     tbl \<leftarrow> sl 0 8 buf;
     tbl \<leftarrow> block_Encrypt C tbl initialVector;
     let n = length src div 8;
     bs \<leftarrow> cfb_repeat (enc_body8 X C same) 64 (n div 8) 0
             \<lparr>c_dst = dst, c_src = src, c_tbl = tbl, c_next = []\<rparr>;
     st \<leftarrow> enc_switch X C same 8 (n mod 8) bs;
     Some (c_dst st)
   }"

definition encrypt16 :: "xor_lib \<Rightarrow> block_cipher \<Rightarrow> bool \<Rightarrow> bytes \<Rightarrow> bytes \<Rightarrow> bytes \<Rightarrow> bytes option" where
  "encrypt16 X C same dst src buf = do {
     tbl \<leftarrow> sl 0 16 buf;
     tbl \<leftarrow> block_Encrypt C tbl initialVector;
     let n = length src div 16;
     bs \<leftarrow> cfb_repeat (enc_body16 X C same) 128 (n div 8) 0
             \<lparr>c_dst = dst, c_src = src, c_tbl = tbl, c_next = []\<rparr>;
     st \<leftarrow> enc_switch X C same 16 (n mod 8) bs;
     Some (c_dst st)
   }"

definition encryptVariant ::
  "xor_lib \<Rightarrow> block_cipher \<Rightarrow> bool \<Rightarrow> bytes \<Rightarrow> bytes \<Rightarrow> bytes \<Rightarrow> bytes option" where
  "encryptVariant X C same dst src buf = do {
     let blocksize = BlockSize C;
     tbl \<leftarrow> sl 0 blocksize buf;
     tbl \<leftarrow> block_Encrypt C tbl initialVector;
     if blocksize = 0 then None else do {
     let n = length src div blocksize;
     bs \<leftarrow> cfb_repeat (enc_bodyVariant X C same) (8 * blocksize) (n div 8) 0
             \<lparr>c_dst = dst, c_src = src, c_tbl = tbl, c_next = []\<rparr>;
     st \<leftarrow> enc_switch X C same blocksize (n mod 8) bs;
     Some (c_dst st)
     }
   }"

definition encrypt :: "xor_lib \<Rightarrow> block_cipher \<Rightarrow> bool \<Rightarrow> bytes \<Rightarrow> bytes \<Rightarrow> bytes \<Rightarrow> bytes option" where
  "encrypt X C same dst src buf =
     (if BlockSize C = 8 then encrypt8 X C same dst src buf
      else if BlockSize C = 16 then encrypt16 X C same dst src buf
      else encryptVariant X C same dst src buf)"

subsection \<open>Decryption\<close>

text \<open>
  The key stream of the next block is computed from the ciphertext before the XOR overwrites
  it, into the table the current block does not use; the two tables alternate.
\<close>

definition dec_sliceA :: "xor_lib \<Rightarrow> block_cipher \<Rightarrow> bool \<Rightarrow> nat \<Rightarrow> nat \<Rightarrow> cfb \<Rightarrow> cfb option" where
  "dec_sliceA X C same i j st = do {
     s \<leftarrow> sl i j (c_src st);
     t \<leftarrow> block_Encrypt C (c_next st) s;
     xor_src1 X same i j (c_tbl st) (st\<lparr>c_next := t\<rparr>)
   }"

definition dec_sliceB :: "xor_lib \<Rightarrow> block_cipher \<Rightarrow> bool \<Rightarrow> nat \<Rightarrow> nat \<Rightarrow> cfb \<Rightarrow> cfb option" where
  "dec_sliceB X C same i j st = do {
     s \<leftarrow> sl i j (c_src st);
     t \<leftarrow> block_Encrypt C (c_tbl st) s;
     xor_src1 X same i j (c_next st) (st\<lparr>c_tbl := t\<rparr>)
   }"

definition dec_restA :: "xor_lib \<Rightarrow> block_cipher \<Rightarrow> bool \<Rightarrow> nat \<Rightarrow> cfb \<Rightarrow> cfb option" where
  "dec_restA X C same base st = do {
     s \<leftarrow> sl base (length (c_src st)) (c_src st);
     t \<leftarrow> block_Encrypt C (c_next st) s;
     xor_rest1 X same base (c_tbl st) (st\<lparr>c_next := t\<rparr>)
   }"

definition dec_restB :: "xor_lib \<Rightarrow> block_cipher \<Rightarrow> bool \<Rightarrow> nat \<Rightarrow> cfb \<Rightarrow> cfb option" where
  "dec_restB X C same base st = do {
     s \<leftarrow> sl base (length (c_src st)) (c_src st);
     t \<leftarrow> block_Encrypt C (c_tbl st) s;
     xor_rest1 X same base (c_next st) (st\<lparr>c_tbl := t\<rparr>)
   }"

definition dec_body8 :: "xor_lib \<Rightarrow> block_cipher \<Rightarrow> bool \<Rightarrow> nat \<Rightarrow> cfb \<Rightarrow> cfb option" where
  "dec_body8 X C same base st = do {
     _ \<leftarrow> sl base (base + 64) (c_src st);
     _ \<leftarrow> sl base (base + 64) (c_dst st);
     st \<leftarrow> dec_sliceA X C same (base + 0) (base + 8) st;
     st \<leftarrow> dec_sliceB X C same (base + 8) (base + 16) st;
     st \<leftarrow> dec_sliceA X C same (base + 16) (base + 24) st;
     st \<leftarrow> dec_sliceB X C same (base + 24) (base + 32) st;
     st \<leftarrow> dec_sliceA X C same (base + 32) (base + 40) st;
     st \<leftarrow> dec_sliceB X C same (base + 40) (base + 48) st;
     st \<leftarrow> dec_sliceA X C same (base + 48) (base + 56) st;
     dec_sliceB X C same (base + 56) (base + 64) st
   }"

definition dec_body16 :: "xor_lib \<Rightarrow> block_cipher \<Rightarrow> bool \<Rightarrow> nat \<Rightarrow> cfb \<Rightarrow> cfb option" where
  "dec_body16 X C same base st = do {
     _ \<leftarrow> sl base (base + 128) (c_src st);
     _ \<leftarrow> sl base (base + 128) (c_dst st);
     st \<leftarrow> dec_sliceA X C same (base + 0) (base + 16) st;
     st \<leftarrow> dec_sliceB X C same (base + 16) (base + 32) st;
     st \<leftarrow> dec_sliceA X C same (base + 32) (base + 48) st;
     st \<leftarrow> dec_sliceB X C same (base + 48) (base + 64) st;
     st \<leftarrow> dec_sliceA X C same (base + 64) (base + 80) st;
     st \<leftarrow> dec_sliceB X C same (base + 80) (base + 96) st;
     st \<leftarrow> dec_sliceA X C same (base + 96) (base + 112) st;
     dec_sliceB X C same (base + 112) (base + 128) st
   }"

definition dec_bodyVariant :: "xor_lib \<Rightarrow> block_cipher \<Rightarrow> bool \<Rightarrow> nat \<Rightarrow> cfb \<Rightarrow> cfb option" where
  "dec_bodyVariant X C same base st =
     (let blocksize = BlockSize C in do {
       st \<leftarrow> dec_restA X C same base st; let base = base + blocksize;
       st \<leftarrow> dec_restB X C same base st; let base = base + blocksize;
       st \<leftarrow> dec_restA X C same base st; let base = base + blocksize;
       st \<leftarrow> dec_restB X C same base st; let base = base + blocksize;
       st \<leftarrow> dec_restA X C same base st; let base = base + blocksize;
       st \<leftarrow> dec_restB X C same base st; let base = base + blocksize;
       st \<leftarrow> dec_restA X C same base st; let base = base + blocksize;
       dec_restB X C same base st
     })"

definition dec_case :: "xor_lib \<Rightarrow> block_cipher \<Rightarrow> bool \<Rightarrow> nat \<Rightarrow> nat \<Rightarrow> nat \<Rightarrow> nat \<times> cfb \<Rightarrow>
    (nat \<times> cfb) option" where
  "dec_case X C same blocksize left c = (\<lambda>(base, st).
     if c \<le> left
     then do { st \<leftarrow> dec_restA X C same base st;
               Some (base + blocksize, st\<lparr>c_tbl := c_next st, c_next := c_tbl st\<rparr>) }
     else Some (base, st))"

definition dec_switch :: "xor_lib \<Rightarrow> block_cipher \<Rightarrow> bool \<Rightarrow> nat \<Rightarrow> nat \<Rightarrow> nat \<times> cfb \<Rightarrow> cfb option" where
  "dec_switch X C same blocksize left bs = do {
     bs \<leftarrow> dec_case X C same blocksize left 7 bs;
     bs \<leftarrow> dec_case X C same blocksize left 6 bs;
     bs \<leftarrow> dec_case X C same blocksize left 5 bs;
     bs \<leftarrow> dec_case X C same blocksize left 4 bs;
     bs \<leftarrow> dec_case X C same blocksize left 3 bs;
     bs \<leftarrow> dec_case X C same blocksize left 2 bs;
     (base, st) \<leftarrow> dec_case X C same blocksize left 1 bs;
     xor_rest0 X same base (c_tbl st) st
   }"

definition decrypt8 :: "xor_lib \<Rightarrow> block_cipher \<Rightarrow> bool \<Rightarrow> bytes \<Rightarrow> bytes \<Rightarrow> bytes \<Rightarrow> bytes option" where
  "decrypt8 X C same dst src buf = do {
     tbl \<leftarrow> sl 0 8 buf;
     nxt \<leftarrow> sl 8 16 buf;
     tbl \<leftarrow> block_Encrypt C tbl initialVector;
     let n = length src div 8;
     bs \<leftarrow> cfb_repeat (dec_body8 X C same) 64 (n div 8) 0
             \<lparr>c_dst = dst, c_src = src, c_tbl = tbl, c_next = nxt\<rparr>;
     st \<leftarrow> dec_switch X C same 8 (n mod 8) bs;
     Some (c_dst st)
   }"

definition decrypt16 :: "xor_lib \<Rightarrow> block_cipher \<Rightarrow> bool \<Rightarrow> bytes \<Rightarrow> bytes \<Rightarrow> bytes \<Rightarrow> bytes option" where
  "decrypt16 X C same dst src buf = do {
     tbl \<leftarrow> sl 0 16 buf;
     nxt \<leftarrow> sl 16 32 buf;
     tbl \<leftarrow> block_Encrypt C tbl initialVector;
     let n = length src div 16;
     bs \<leftarrow> cfb_repeat (dec_body16 X C same) 128 (n div 8) 0
             \<lparr>c_dst = dst, c_src = src, c_tbl = tbl, c_next = nxt\<rparr>;
     st \<leftarrow> dec_switch X C same 16 (n mod 8) bs;
     Some (c_dst st)
   }"

definition decryptVariant ::
  "xor_lib \<Rightarrow> block_cipher \<Rightarrow> bool \<Rightarrow> bytes \<Rightarrow> bytes \<Rightarrow> bytes \<Rightarrow> bytes option" where
  "decryptVariant X C same dst src buf = do {
     let blocksize = BlockSize C;
     tbl \<leftarrow> sl 0 blocksize buf;
     nxt \<leftarrow> sl blocksize (length buf) buf;
     tbl \<leftarrow> block_Encrypt C tbl initialVector;
     if blocksize = 0 then None else do {
     let n = length src div blocksize;
     bs \<leftarrow> cfb_repeat (dec_bodyVariant X C same) (8 * blocksize) (n div 8) 0
             \<lparr>c_dst = dst, c_src = src, c_tbl = tbl, c_next = nxt\<rparr>;
     st \<leftarrow> dec_switch X C same blocksize (n mod 8) bs;
     Some (c_dst st)
     }
   }"

definition decrypt :: "xor_lib \<Rightarrow> block_cipher \<Rightarrow> bool \<Rightarrow> bytes \<Rightarrow> bytes \<Rightarrow> bytes \<Rightarrow> bytes option" where
  "decrypt X C same dst src buf =
     (if BlockSize C = 8 then decrypt8 X C same dst src buf
      else if BlockSize C = 16 then decrypt16 X C same dst src buf
      else decryptVariant X C same dst src buf)"

end
