(* ===== verification/CryptFacts.thy ===== *)
theory CryptFacts
  imports Crypt
begin

section \<open>Cipher feedback mode\<close>

text \<open>
  The unrolled routines compute the textbook CFB mode, also in place, and decryption undoes
  encryption. The hypotheses on the libraries: \<open>xor_ok\<close> says that \<open>BytesSrc1\<close> XORs as many
  bytes as its second source has and \<open>BytesSrc0\<close> as many as its first, into the front of the
  destination; \<open>cipher_ok\<close> that a cipher maps blocks to blocks of its size, which is at most
  that of the initial vector.
\<close>

definition xor_ok :: "xor_lib \<Rightarrow> bool" where
  "xor_ok X \<longleftrightarrow>
     (\<forall>d a c. length c \<le> length a \<and> length c \<le> length d \<longrightarrow>
        BytesSrc1 X d a c = map2 (XOR) a c @ drop (length c) d)
     \<and> (\<forall>d a c. length a \<le> length c \<and> length a \<le> length d \<longrightarrow>
        BytesSrc0 X d a c = map2 (XOR) a c @ drop (length a) d)"

definition cipher_ok :: "block_cipher \<Rightarrow> bool" where
  "cipher_ok C \<longleftrightarrow> 0 < BlockSize C \<and> BlockSize C \<le> 16
     \<and> (\<forall>b. length b = BlockSize C \<longrightarrow> length (EncryptBlock C b) = BlockSize C)"

lemma length_iv [simp]: "length initialVector = 16"
  by (simp add: initialVector_def)

subsection \<open>The reference\<close>

function cfb_enc :: "block_cipher \<Rightarrow> bytes \<Rightarrow> bytes \<Rightarrow> bytes" where
  "cfb_enc C t p =
     (if BlockSize C = 0 \<or> length p < BlockSize C then map2 (XOR) p t
      else let c = map2 (XOR) (take (BlockSize C) p) t
           in c @ cfb_enc C (EncryptBlock C c) (drop (BlockSize C) p))"
  by pat_completeness auto
termination by (relation "measure (\<lambda>(C, t, p). length p)") auto

function cfb_dec :: "block_cipher \<Rightarrow> bytes \<Rightarrow> bytes \<Rightarrow> bytes" where
  "cfb_dec C t c =
     (if BlockSize C = 0 \<or> length c < BlockSize C then map2 (XOR) c t
      else map2 (XOR) (take (BlockSize C) c) t
           @ cfb_dec C (EncryptBlock C (take (BlockSize C) c)) (drop (BlockSize C) c))"
  by pat_completeness auto
termination by (relation "measure (\<lambda>(C, t, p). length p)") auto

declare cfb_enc.simps [simp del] cfb_dec.simps [simp del]

definition iv_table :: "block_cipher \<Rightarrow> bytes" where
  "iv_table C = EncryptBlock C (take (BlockSize C) initialVector)"

lemma length_iv_table: "cipher_ok C \<Longrightarrow> length (iv_table C) = BlockSize C"
  by (simp add: cipher_ok_def iv_table_def)

lemma xor_xor: "length p \<le> length t \<Longrightarrow> map2 (XOR) (map2 (XOR) p t) t = (p :: bytes)"
proof (induction p t rule: list_induct2')
  case (4 x xs y ys)
  then show ?case by (simp add: xor.assoc)
qed auto

lemma map2_take: "map2 f (take (length t) s) t = map2 f s t"
  by (induction s t rule: list_induct2') auto

lemma length_cfb_enc: "cipher_ok C \<Longrightarrow> length t = BlockSize C \<Longrightarrow> length (cfb_enc C t p) = length p"
proof (induction C t p rule: cfb_enc.induct)
  case (1 C t p)
  show ?case
  proof (cases "length p < BlockSize C")
    case True
    with 1 show ?thesis by (simp add: cfb_enc.simps [of C t p])
  next
    case False
    let ?c = "map2 (XOR) (take (BlockSize C) p) t"
    have len: "length ?c = BlockSize C" using False "1.prems"(2) by simp
    then have "length (EncryptBlock C ?c) = BlockSize C"
      using "1.prems"(1) by (simp add: cipher_ok_def)
    with 1 False len show ?thesis
      by (auto simp: cfb_enc.simps [of C t p] Let_def cipher_ok_def)
  qed
qed

lemma length_cfb_dec: "cipher_ok C \<Longrightarrow> length t = BlockSize C \<Longrightarrow> length (cfb_dec C t c) = length c"
proof (induction C t c rule: cfb_dec.induct)
  case (1 C t c)
  show ?case
  proof (cases "length c < BlockSize C")
    case True
    with 1 show ?thesis by (simp add: cfb_dec.simps [of C t c])
  next
    case False
    with 1 show ?thesis by (auto simp: cfb_dec.simps [of C t c] cipher_ok_def)
  qed
qed

lemma cfb_dec_enc:
  "cipher_ok C \<Longrightarrow> length t = BlockSize C \<Longrightarrow> cfb_dec C t (cfb_enc C t p) = p"
proof (induction C t p rule: cfb_enc.induct)
  case (1 C t p)
  note len = length_cfb_enc [OF "1.prems"]
  show ?case
  proof (cases "length p < BlockSize C")
    case True
    then have "cfb_enc C t p = map2 (XOR) p t" by (simp add: cfb_enc.simps)
    with True "1.prems" xor_xor [of p t] show ?thesis by (simp add: cfb_dec.simps)
  next
    case False
    let ?c = "map2 (XOR) (take (BlockSize C) p) t"
    have lc: "length ?c = BlockSize C" using False "1.prems"(2) by simp
    then have t': "length (EncryptBlock C ?c) = BlockSize C"
      using "1.prems"(1) by (simp add: cipher_ok_def)
    have bs: "BlockSize C \<noteq> 0" using "1.prems"(1) by (simp add: cipher_ok_def)
    have enc: "cfb_enc C t p = ?c @ cfb_enc C (EncryptBlock C ?c) (drop (BlockSize C) p)"
      using False bs by (simp add: cfb_enc.simps [of C t p] Let_def)
    have "cfb_dec C (EncryptBlock C ?c) (cfb_enc C (EncryptBlock C ?c) (drop (BlockSize C) p)) =
        drop (BlockSize C) p"
      using False bs "1.prems"(1) t' by (intro "1.IH") auto
    moreover have "map2 (XOR) ?c t = take (BlockSize C) p"
      using "1.prems"(2) by (intro xor_xor) simp
    moreover have "cfb_dec C t (cfb_enc C t p) = map2 (XOR) ?c t
        @ cfb_dec C (EncryptBlock C ?c) (cfb_enc C (EncryptBlock C ?c) (drop (BlockSize C) p))"
      using bs lc unfolding enc by (simp add: cfb_dec.simps [of C t])
    ultimately show ?thesis by simp
  qed
qed

subsection \<open>One step\<close>

lemma sl_eq: "i \<le> j \<Longrightarrow> j \<le> length b \<Longrightarrow> sl i j b = Some (take (j - i) (drop i b))"
  by (simp add: sl_def)

text \<open>The block at \<open>base\<close> XORed with a table, and the memory after it is written.\<close>

definition xblock :: "block_cipher \<Rightarrow> nat \<Rightarrow> bytes \<Rightarrow> cfb \<Rightarrow> bytes" where
  "xblock C base t st = map2 (XOR) (take (BlockSize C) (drop base (c_src st))) t"

definition put_block :: "block_cipher \<Rightarrow> bool \<Rightarrow> nat \<Rightarrow> bytes \<Rightarrow> cfb \<Rightarrow> cfb" where
  "put_block C same base t st =
     write_dst same (take base (c_dst st) @ xblock C base t st @ drop (base + BlockSize C) (c_dst st)) st"

text \<open>Sizes under which no slice expression panics.\<close>

definition sized :: "block_cipher \<Rightarrow> nat \<Rightarrow> nat \<Rightarrow> bool \<Rightarrow> cfb \<Rightarrow> bool" where
  "sized C n m same st \<longleftrightarrow> length (c_src st) = n \<and> length (c_dst st) = m \<and> n \<le> m
     \<and> length (c_tbl st) = BlockSize C \<and> (same \<longrightarrow> c_src st = c_dst st)"

lemma length_xblock: "sized C n m same st \<Longrightarrow> base + BlockSize C \<le> n \<Longrightarrow>
    length t = BlockSize C \<Longrightarrow> length (xblock C base t st) = BlockSize C"
  by (simp add: xblock_def sized_def)

lemma xor_src1_eq:
  assumes "xor_ok X" "sized C n m same st" "base + BlockSize C \<le> n" "length t = BlockSize C"
    "j = base + BlockSize C"
  shows "xor_src1 X same base j t st = Some (put_block C same base t st)"
proof -
  let ?d = "take (BlockSize C) (drop base (c_dst st))" and ?s = "take (BlockSize C) (drop base (c_src st))"
  have len: "length ?d = BlockSize C" "length ?s = BlockSize C"
    using assms(2,3) by (auto simp: sized_def)
  then have "BytesSrc1 X ?d ?s t = xblock C base t st"
    using assms(1,4) by (simp add: xor_ok_def xblock_def)
  moreover have "length (xblock C base t st) = BlockSize C"
    by (rule length_xblock [OF assms(2,3,4)])
  ultimately show ?thesis
    using assms(2,3,5) by (simp add: xor_src1_def sl_eq put_block_def put_at_def sized_def)
qed

lemma xor_rest1_eq:
  assumes "xor_ok X" "sized C n m same st" "base + BlockSize C \<le> n" "length t = BlockSize C"
  shows "xor_rest1 X same base t st = Some (put_block C same base t st)"
proof -
  let ?d = "drop base (c_dst st)" and ?s = "drop base (c_src st)"
  have len: "BlockSize C \<le> length ?d" "BlockSize C \<le> length ?s"
    using assms(2,3) by (auto simp: sized_def)
  have x: "map2 (XOR) ?s t = xblock C base t st"
    unfolding xblock_def using map2_take [where t = t] assms(4) by metis
  have "BytesSrc1 X ?d ?s t = xblock C base t st @ drop (BlockSize C) ?d"
    using assms(1,4) len by (simp add: xor_ok_def x)
  moreover have "length (xblock C base t st) = BlockSize C"
    by (rule length_xblock [OF assms(2,3,4)])
  ultimately show ?thesis
    using assms(2,3) by (simp add: xor_rest1_def sl_eq put_block_def put_at_def sized_def add.commute)
qed

lemma put_block_sized:
  assumes "sized C n m same st" "base + BlockSize C \<le> n" "length t = BlockSize C"
  shows "sized C n m same (put_block C same base t st)"
  using assms length_xblock [OF assms]
  by (auto simp: sized_def put_block_def write_dst_def)

text \<open>After the step: the block just written, and what the step left alone.\<close>

lemma put_block_parts:
  assumes "sized C n m same st" "base + BlockSize C \<le> n" "length t = BlockSize C"
  shows "take (base + BlockSize C) (c_dst (put_block C same base t st)) =
      take base (c_dst st) @ xblock C base t st"
    "take (BlockSize C) (drop base (c_dst (put_block C same base t st))) = xblock C base t st"
    "drop (base + BlockSize C) (c_dst (put_block C same base t st)) = drop (base + BlockSize C) (c_dst st)"
    "drop (base + BlockSize C) (c_src (put_block C same base t st)) = drop (base + BlockSize C) (c_src st)"
    "c_tbl (put_block C same base t st) = c_tbl st" "c_next (put_block C same base t st) = c_next st"
  using assms length_xblock [OF assms]
  by (auto simp: sized_def put_block_def write_dst_def)

subsection \<open>Encryption\<close>

definition enc_next :: "block_cipher \<Rightarrow> bool \<Rightarrow> nat \<Rightarrow> cfb \<Rightarrow> cfb" where
  "enc_next C same base st =
     (put_block C same base (c_tbl st) st)\<lparr>c_tbl := EncryptBlock C (xblock C base (c_tbl st) st)\<rparr>"

lemma block_Encrypt_eq:
  "BlockSize C \<le> length s \<Longrightarrow> length t = BlockSize C \<Longrightarrow>
     block_Encrypt C t s = Some (EncryptBlock C (take (BlockSize C) s))"
  by (simp add: block_Encrypt_def)

lemma enc_step_eq:
  assumes "xor_ok X" "cipher_ok C" "sized C n m same st" "base + BlockSize C \<le> n"
  shows "j = base + BlockSize C \<Longrightarrow> enc_slice X C same base j st = Some (enc_next C same base st)"
    and "enc_rest X C same base st = Some (enc_next C same base st)"
    and "sized C n m same (enc_next C same base st)"
proof -
  have t: "length (c_tbl st) = BlockSize C" using assms(3) by (simp add: sized_def)
  let ?p = "put_block C same base (c_tbl st) st"
  have p: "sized C n m same ?p" by (rule put_block_sized [OF assms(3,4) t])
  then have m: "base + BlockSize C \<le> length (c_dst ?p)" "length (c_dst ?p) = m"
    using assms(4) by (auto simp: sized_def)
  note parts = put_block_parts [OF assms(3,4) t]
  have lx: "length (xblock C base (c_tbl st) st) = BlockSize C"
    by (rule length_xblock [OF assms(3,4) t])
  show "enc_slice X C same base j st = Some (enc_next C same base st)" if j: "j = base + BlockSize C"
    using xor_src1_eq [OF assms(1,3,4) t j] j m parts(2,5) t lx
    by (simp add: enc_slice_def sl_eq enc_next_def block_Encrypt_eq)
  show "enc_rest X C same base st = Some (enc_next C same base st)"
    using xor_rest1_eq [OF assms(1,3,4) t] m parts(2,5) t
    by (simp add: enc_rest_def sl_eq enc_next_def block_Encrypt_eq)
  show "sized C n m same (enc_next C same base st)"
    using p lx assms(2) by (simp add: sized_def enc_next_def cipher_ok_def)
qed

text \<open>
  What the loop maintains: the bytes written so far followed by the encryption of the rest
  under the current table are the encryption of the whole, and the destination behind the
  source is untouched.
\<close>

definition enc_inv :: "block_cipher \<Rightarrow> bool \<Rightarrow> bytes \<Rightarrow> bytes \<Rightarrow> nat \<Rightarrow> cfb \<Rightarrow> bool" where
  "enc_inv C same goal rest base st \<longleftrightarrow>
     take base (c_dst st) @ cfb_enc C (c_tbl st) (drop base (c_src st)) = goal
     \<and> drop (length (c_src st)) (c_dst st) = rest"

lemma drop_length_cong: "drop k a = drop k b \<Longrightarrow> k \<le> n \<Longrightarrow> drop n a = drop n b"
  by (metis drop_drop le_add_diff_inverse2)

lemma enc_next_inv:
  assumes "cipher_ok C" "sized C n m same st" "base + BlockSize C \<le> n" "enc_inv C same goal rest base st"
  shows "enc_inv C same goal rest (base + BlockSize C) (enc_next C same base st)"
proof -
  have t: "length (c_tbl st) = BlockSize C" using assms(2) by (simp add: sized_def)
  note parts = put_block_parts [OF assms(2,3) t]
  let ?x = "xblock C base (c_tbl st) st"
  have lx: "length ?x = BlockSize C" by (rule length_xblock [OF assms(2,3) t])
  have src: "length (c_src st) = n" using assms(2) by (simp add: sized_def)
  have "cfb_enc C (c_tbl st) (drop base (c_src st)) =
      ?x @ cfb_enc C (EncryptBlock C ?x) (drop (base + BlockSize C) (c_src st))"
  proof -
    have "\<not> (BlockSize C = 0 \<or> length (drop base (c_src st)) < BlockSize C)"
      using assms(1,3) src by (auto simp: cipher_ok_def)
    then show ?thesis
      unfolding cfb_enc.simps [of C "c_tbl st" "drop base (c_src st)"]
      by (simp add: xblock_def Let_def add.commute)
  qed
  moreover have "length (c_src (put_block C same base (c_tbl st) st)) = n"
    using put_block_sized [OF assms(2,3) t] by (simp add: sized_def)
  moreover have "drop n (c_dst (put_block C same base (c_tbl st) st)) = drop n (c_dst st)"
    by (rule drop_length_cong [OF parts(3) assms(3)])
  ultimately show ?thesis
    using assms(4) parts(1,4) src by (simp add: enc_inv_def enc_next_def)
qed

text \<open>
  Eight steps with an invariant, and the fall-through cases 7 to 1 of the \<open>switch\<close>, of which
  the first \<open>7 - left\<close> are skipped.
\<close>

lemma eight_steps:
  assumes "\<And>k st. k < 8 \<Longrightarrow> I k st \<Longrightarrow> \<exists>st'. f k st = Some st' \<and> I (Suc k) st'" "I 0 st"
  shows "\<exists>st'. do { a \<leftarrow> f 0 st; a \<leftarrow> f 1 a; a \<leftarrow> f 2 a; a \<leftarrow> f 3 a; a \<leftarrow> f 4 a; a \<leftarrow> f 5 a;
      a \<leftarrow> f 6 a; f 7 a } = Some st' \<and> I 8 st'"
proof -
  obtain s1 where s1: "f 0 st = Some s1" "I 1 s1" using assms(1) [of 0 st] assms(2) by auto
  obtain s2 where s2: "f 1 s1 = Some s2" "I 2 s2" using assms(1) [of 1 s1] s1 by (auto simp: eval_nat_numeral)
  obtain s3 where s3: "f 2 s2 = Some s3" "I 3 s3" using assms(1) [of 2 s2] s2 by (auto simp: eval_nat_numeral)
  obtain s4 where s4: "f 3 s3 = Some s4" "I 4 s4" using assms(1) [of 3 s3] s3 by (auto simp: eval_nat_numeral)
  obtain s5 where s5: "f 4 s4 = Some s5" "I 5 s5" using assms(1) [of 4 s4] s4 by (auto simp: eval_nat_numeral)
  obtain s6 where s6: "f 5 s5 = Some s6" "I 6 s6" using assms(1) [of 5 s5] s5 by (auto simp: eval_nat_numeral)
  obtain s7 where s7: "f 6 s6 = Some s7" "I 7 s7" using assms(1) [of 6 s6] s6 by (auto simp: eval_nat_numeral)
  obtain s8 where s8: "f 7 s7 = Some s8" "I 8 s8" using assms(1) [of 7 s7] s7 by (auto simp: eval_nat_numeral)
  show ?thesis using s1 s2 s3 s4 s5 s6 s7 s8 by simp
qed

fun falls :: "(nat \<Rightarrow> 'a \<Rightarrow> 'a option) \<Rightarrow> nat \<Rightarrow> 'a \<Rightarrow> 'a option" where
  "falls g 0 s = Some s"
| "falls g (Suc k) s = do { s \<leftarrow> g (Suc k) s; falls g k s }"

lemma falls_ok:
  assumes step: "\<And>c base st. I base st \<Longrightarrow> base + B \<le> n \<Longrightarrow> c \<le> left \<Longrightarrow>
      \<exists>st'. g c (base, st) = Some (base + B, st') \<and> I (base + B) st'"
    and skip: "\<And>c s. left < c \<Longrightarrow> g c s = Some s"
  shows "I base st \<Longrightarrow> base + min left k * B \<le> n \<Longrightarrow>
    \<exists>st'. falls g k (base, st) = Some (base + min left k * B, st') \<and> I (base + min left k * B) st'"
proof (induction k arbitrary: base st)
  case 0
  then show ?case by simp
next
  case (Suc k)
  show ?case
  proof (cases "Suc k \<le> left")
    case True
    then have le: "base + B \<le> n" and rest: "base + B + min left k * B \<le> n"
      using Suc.prems(2) min_absorb2 [OF True] min_absorb2 [of k left] by (simp_all add: add.assoc)
    from step [OF Suc.prems(1) le True] obtain st1
      where st1: "g (Suc k) (base, st) = Some (base + B, st1)" "I (base + B) st1" by blast
    from Suc.IH [OF st1(2) rest] True st1(1) show ?thesis by (simp add: min_def add.assoc)
  next
    case False
    with Suc show ?thesis using skip [of "Suc k" "(base, st)"] by (simp add: min_def)
  qed
qed

lemma cfb_repeat_ok:
  assumes body: "\<And>base st. I base st \<Longrightarrow> base + S \<le> n \<Longrightarrow> \<exists>st'. body base st = Some st' \<and> I (base + S) st'"
  shows "I base st \<Longrightarrow> base + r * S \<le> n \<Longrightarrow>
    \<exists>st'. cfb_repeat body S r base st = Some (base + r * S, st') \<and> I (base + r * S) st'"
proof (induction r arbitrary: base st)
  case 0
  then show ?case by simp
next
  case (Suc r)
  then have le: "base + S \<le> n" and rest: "base + S + r * S \<le> n" by simp_all
  from body [OF Suc.prems(1) le] obtain st1 where st1: "body base st = Some st1" "I (base + S) st1"
    by blast
  from Suc.IH [OF st1(2) rest] st1(1) show ?case by (auto simp: add.assoc)
qed

text \<open>\<open>n\<close> blocks are \<open>n div 8\<close> rounds of eight and \<open>n mod 8\<close> cases; less than a block is left.\<close>

lemma blocks_split:
  fixes L B :: nat
  assumes "0 < B"
  shows "L div B div 8 * (8 * B) + L div B mod 8 * B \<le> L"
    and "L - (L div B div 8 * (8 * B) + L div B mod 8 * B) < B"
    and "L div B div 8 * (8 * B) + L div B mod 8 * B = L div B * B"
proof -
  have "L div B div 8 * (8 * B) + L div B mod 8 * B = (L div B div 8 * 8 + L div B mod 8) * B"
    by (simp only: add_mult_distrib mult.assoc)
  then show eq: "L div B div 8 * (8 * B) + L div B mod 8 * B = L div B * B" by simp
  show "L div B div 8 * (8 * B) + L div B mod 8 * B \<le> L"
    unfolding eq by simp
  show "L - (L div B div 8 * (8 * B) + L div B mod 8 * B) < B"
    unfolding eq using assms by (simp add: minus_div_mult_eq_mod)
qed

lemma nat_multiples:
  "b + n + n = b + 2 * n" "b + 2 * n + n = b + 3 * n" "b + 3 * n + n = b + 4 * n"
  "b + 4 * n + n = b + 5 * n" "b + 5 * n + n = b + 6 * n" "b + 6 * n + n = b + 7 * (n :: nat)"
  by simp_all

definition enc_at :: "block_cipher \<Rightarrow> bool \<Rightarrow> nat \<Rightarrow> nat \<Rightarrow> bytes \<Rightarrow> bytes \<Rightarrow> nat \<Rightarrow> cfb \<Rightarrow> bool" where
  "enc_at C same n m goal rest base st \<longleftrightarrow> sized C n m same st \<and> enc_inv C same goal rest base st"

lemma enc_at_step:
  assumes "xor_ok X" "cipher_ok C" "enc_at C same n m goal rest base st" "base + BlockSize C \<le> n"
  shows "j = base + BlockSize C \<Longrightarrow>
      \<exists>st'. enc_slice X C same base j st = Some st' \<and> enc_at C same n m goal rest (base + BlockSize C) st'"
    and "\<exists>st'. enc_rest X C same base st = Some st' \<and> enc_at C same n m goal rest (base + BlockSize C) st'"
  using enc_step_eq [OF assms(1,2) _ assms(4)] enc_next_inv [OF assms(2) _ assms(4)] assms(3)
  by (auto simp: enc_at_def)

lemma block_within: "base + 8 * b \<le> n \<Longrightarrow> k < 8 \<Longrightarrow> base + k * b + b \<le> (n :: nat)"
proof -
  assume le: "base + 8 * b \<le> n" and "k < 8"
  then have "Suc k * b \<le> 8 * b" by (intro mult_le_mono1) simp
  then show ?thesis using le unfolding mult_Suc by linarith
qed

lemma enc_bodies:
  assumes "xor_ok X" "cipher_ok C" "enc_at C same n m goal rest base st" "base + 8 * BlockSize C \<le> n"
  shows "BlockSize C = 8 \<Longrightarrow>
      \<exists>st'. enc_body8 X C same base st = Some st' \<and> enc_at C same n m goal rest (base + 64) st'"
    and "BlockSize C = 16 \<Longrightarrow>
      \<exists>st'. enc_body16 X C same base st = Some st' \<and> enc_at C same n m goal rest (base + 128) st'"
    and "\<exists>st'. enc_bodyVariant X C same base st = Some st'
      \<and> enc_at C same n m goal rest (base + 8 * BlockSize C) st'"
proof -
  let ?B = "BlockSize C"
  let ?I = "\<lambda>k. enc_at C same n m goal rest (base + k * ?B)"
  note le = block_within [OF assms(4)]
  have len: "length (c_src st) = n" "length (c_dst st) = m" "n \<le> m"
    using assms(3) by (simp_all add: enc_at_def sized_def)
  have start: "?I 0 st" using assms(3) by simp
  have slice: "\<exists>st'. enc_slice X C same (base + k * ?B) (base + k * ?B + ?B) s = Some st' \<and> ?I (Suc k) st'"
    if "k < 8" "?I k s" for k s
    using enc_at_step(1) [OF assms(1,2) that(2) le [OF that(1)] refl] by (simp add: ac_simps)
  have rest: "\<exists>st'. enc_rest X C same (base + k * ?B) s = Some st' \<and> ?I (Suc k) st'"
    if "k < 8" "?I k s" for k s
    using enc_at_step(2) [OF assms(1,2) that(2) le [OF that(1)]] by (simp add: ac_simps)
  note slices = eight_steps [where I = ?I and
      f = "\<lambda>k. enc_slice X C same (base + k * ?B) (base + k * ?B + ?B)", OF slice start]
  show "\<exists>st'. enc_body8 X C same base st = Some st' \<and> enc_at C same n m goal rest (base + 64) st'"
    if "?B = 8" using slices assms(4) len by (simp add: enc_body8_def sl_eq that add.commute)
  show "\<exists>st'. enc_body16 X C same base st = Some st' \<and> enc_at C same n m goal rest (base + 128) st'"
    if "?B = 16" using slices assms(4) len by (simp add: enc_body16_def sl_eq that add.commute)
  show "\<exists>st'. enc_bodyVariant X C same base st = Some st'
      \<and> enc_at C same n m goal rest (base + 8 * ?B) st'"
    using eight_steps [where I = ?I and f = "\<lambda>k. enc_rest X C same (base + k * ?B)", OF rest start]
    unfolding enc_bodyVariant_def Let_def nat_multiples by (simp add: add.commute)
qed

text \<open>The last, partial block.\<close>

lemma xor_rest0_eq:
  assumes "xor_ok X" "sized C n m same st" "base \<le> n" "n - base \<le> length t"
  shows "xor_rest0 X same base t st =
    Some (write_dst same (take base (c_dst st) @ map2 (XOR) (drop base (c_src st)) t
            @ drop n (c_dst st)) st)"
proof -
  have sz: "length (c_src st) = n" "length (c_dst st) = m" "n \<le> m"
    using assms(2) by (simp_all add: sized_def)
  let ?d = "drop base (c_dst st)" and ?s = "drop base (c_src st)"
  have "length ?s \<le> length t" "length ?s \<le> length ?d" using sz assms(4) by simp_all
  then have "BytesSrc0 X ?d ?s t = map2 (XOR) ?s t @ drop (length ?s) ?d"
    using assms(1) unfolding xor_ok_def by blast
  then show ?thesis
    using sz assms(3,4) by (simp add: xor_rest0_def sl_eq put_at_def)
qed

lemma c_dst_write [simp]: "c_dst (write_dst same d st) = d"
  by (simp add: write_dst_def)

lemma enc_switch_falls:
  "enc_switch X C same B left bs =
     do { (base, st) \<leftarrow> falls (enc_case X C same B left) 7 bs; xor_rest0 X same base (c_tbl st) st }"
  by (simp add: enc_switch_def eval_nat_numeral)

lemma enc_switch_ok:
  assumes X: "xor_ok X" and C: "cipher_ok C" and at: "enc_at C same n m goal rest base st"
    and left: "base + left * BlockSize C \<le> n" "n - (base + left * BlockSize C) < BlockSize C" "left < 8"
  shows "\<exists>st'. enc_switch X C same (BlockSize C) left (base, st) = Some st' \<and> c_dst st' = goal @ rest"
proof -
  let ?B = "BlockSize C" and ?I = "enc_at C same n m goal rest"
  have step: "\<exists>st'. enc_case X C same ?B left c (b, s) = Some (b + ?B, st') \<and> ?I (b + ?B) st'"
    if "?I b s" "b + ?B \<le> n" "c \<le> left" for c b s
    using enc_at_step(2) [OF X C that(1,2)] that(3) by (auto simp: enc_case_def)
  have "min left 7 = left" using left(3) by simp
  with falls_ok [of ?I ?B n left "enc_case X C same ?B left" base st 7, OF step _ at] left(1)
  obtain st1 where st1: "falls (enc_case X C same ?B left) 7 (base, st) = Some (base + left * ?B, st1)"
    "?I (base + left * ?B) st1"
    by (auto simp: enc_case_def)
  let ?b = "base + left * ?B"
  from st1(2) have sz: "sized C n m same st1" and inv: "enc_inv C same goal rest ?b st1"
    by (simp_all add: enc_at_def)
  have "n - ?b \<le> length (c_tbl st1)" using left(2) sz by (simp add: sized_def)
  note fin = xor_rest0_eq [OF X sz left(1) this]
  have "length (drop ?b (c_src st1)) < ?B" using left(2) sz by (simp add: sized_def)
  then have "cfb_enc C (c_tbl st1) (drop ?b (c_src st1)) = map2 (XOR) (drop ?b (c_src st1)) (c_tbl st1)"
    by (simp add: cfb_enc.simps)
  then have "goal @ rest = take ?b (c_dst st1) @ map2 (XOR) (drop ?b (c_src st1)) (c_tbl st1)
      @ drop n (c_dst st1)"
    using inv sz by (auto simp: enc_inv_def sized_def)
  then show ?thesis using fin st1(1) by (simp add: enc_switch_falls)
qed

lemma encrypt_cfb:
  assumes X: "xor_ok X" and C: "cipher_ok C" and len: "length src \<le> length dst"
    and overlap: "same \<longrightarrow> src = dst" and buf: "length buf = BlockSize C"
  shows "encrypt X C same dst src buf = Some (cfb_enc C (iv_table C) src @ drop (length src) dst)"
proof -
  let ?B = "BlockSize C" and ?n = "length src" and ?m = "length dst"
  let ?goal = "cfb_enc C (iv_table C) src" and ?rest = "drop (length src) dst"
  let ?st = "\<lparr>c_dst = dst, c_src = src, c_tbl = iv_table C, c_next = []\<rparr>"
  let ?I = "enc_at C same ?n ?m ?goal ?rest"
  let ?r = "?n div ?B div 8" and ?l = "?n div ?B mod 8"
  have B: "0 < ?B" "?B \<le> 16" using C by (simp_all add: cipher_ok_def)
  note split = blocks_split [OF B(1), of ?n]
  have at: "?I 0 ?st"
    using len overlap length_iv_table [OF C] by (simp add: enc_at_def sized_def enc_inv_def)
  have whole: "\<exists>st'. do { bs \<leftarrow> cfb_repeat body (8 * ?B) ?r 0 ?st; enc_switch X C same ?B ?l bs } = Some st'
      \<and> c_dst st' = ?goal @ ?rest"
    if body: "\<And>b s. ?I b s \<Longrightarrow> b + 8 * ?B \<le> ?n \<Longrightarrow> \<exists>st'. body b s = Some st' \<and> ?I (b + 8 * ?B) st'" for body
  proof -
    have le: "0 + ?r * (8 * ?B) \<le> ?n" using split(1) by linarith
    from cfb_repeat_ok [where I = ?I and body = body, OF body at le] obtain st1
      where st1: "cfb_repeat body (8 * ?B) ?r 0 ?st = Some (?r * (8 * ?B), st1)" "?I (?r * (8 * ?B)) st1"
      by auto
    from enc_switch_ok [OF X C st1(2), of ?l] split st1(1) show ?thesis by simp
  qed
  have tbl: "sl 0 ?B buf = Some buf" "block_Encrypt C buf initialVector = Some (iv_table C)"
    using buf B by (simp_all add: sl_def block_Encrypt_def iv_table_def)
  note bodies = enc_bodies [OF X C]
  consider "?B = 8" | "?B = 16" | "?B \<noteq> 8" "?B \<noteq> 16" by blast
  then show ?thesis
  proof cases
    case 1
    from whole [of "enc_body8 X C same"] bodies(1) tbl 1 show ?thesis
      by (auto simp: encrypt_def encrypt8_def Let_def bind_eq_Some_conv)
  next
    case 2
    from whole [of "enc_body16 X C same"] bodies(2) tbl 2 show ?thesis
      by (auto simp: encrypt_def encrypt16_def Let_def bind_eq_Some_conv)
  next
    case 3
    from whole [of "enc_bodyVariant X C same"] bodies(3) tbl 3 B show ?thesis
      by (auto simp: encrypt_def encryptVariant_def Let_def bind_eq_Some_conv)
  qed
qed

subsection \<open>Decryption\<close>

text \<open>\<open>cur\<close> says which of the two tables holds the key stream of the block at \<open>base\<close>.\<close>

definition dec_at ::
  "block_cipher \<Rightarrow> bool \<Rightarrow> nat \<Rightarrow> nat \<Rightarrow> bytes \<Rightarrow> bytes \<Rightarrow> bool \<Rightarrow> nat \<Rightarrow> cfb \<Rightarrow> bool" where
  "dec_at C same n m goal rest cur base st \<longleftrightarrow>
     sized C n m same st \<and> length (c_next st) = BlockSize C
     \<and> take base (c_dst st) @ cfb_dec C (if cur then c_tbl st else c_next st) (drop base (c_src st)) = goal
     \<and> drop n (c_dst st) = rest"

lemma sized_update:
  "sized C n m same st \<Longrightarrow> sized C n m same (st\<lparr>c_next := t\<rparr>)"
  "sized C n m same st \<Longrightarrow> length t = BlockSize C \<Longrightarrow> sized C n m same (st\<lparr>c_tbl := t\<rparr>)"
  by (simp_all add: sized_def)

lemma put_block_update [simp]:
  "put_block C same base t (st\<lparr>c_next := u\<rparr>) = (put_block C same base t st)\<lparr>c_next := u\<rparr>"
  "put_block C same base t (st\<lparr>c_tbl := u\<rparr>) = (put_block C same base t st)\<lparr>c_tbl := u\<rparr>"
  by (simp_all add: put_block_def write_dst_def xblock_def)

lemma dec_advance:
  assumes C: "cipher_ok C" and sz: "sized C n m same st" and le: "base + BlockSize C \<le> n"
    and t: "length t = BlockSize C"
    and goal: "take base (c_dst st) @ cfb_dec C t (drop base (c_src st)) = goal"
  shows "take (base + BlockSize C) (c_dst (put_block C same base t st))
      @ cfb_dec C (EncryptBlock C (take (BlockSize C) (drop base (c_src st))))
          (drop (base + BlockSize C) (c_src (put_block C same base t st))) = goal"
    and "drop n (c_dst (put_block C same base t st)) = drop n (c_dst st)"
proof -
  note parts = put_block_parts [OF sz le t]
  have "\<not> (BlockSize C = 0 \<or> length (drop base (c_src st)) < BlockSize C)"
    using C le sz by (auto simp: cipher_ok_def sized_def)
  then have "cfb_dec C t (drop base (c_src st)) = xblock C base t st
      @ cfb_dec C (EncryptBlock C (take (BlockSize C) (drop base (c_src st))))
          (drop (base + BlockSize C) (c_src st))"
    unfolding cfb_dec.simps [of C t "drop base (c_src st)"] by (simp add: xblock_def add.commute)
  then show "take (base + BlockSize C) (c_dst (put_block C same base t st))
      @ cfb_dec C (EncryptBlock C (take (BlockSize C) (drop base (c_src st))))
          (drop (base + BlockSize C) (c_src (put_block C same base t st))) = goal"
    using goal parts(1,4) by simp
  show "drop n (c_dst (put_block C same base t st)) = drop n (c_dst st)"
    by (rule drop_length_cong [OF parts(3) le])
qed

lemma dec_at_stepA:
  assumes X: "xor_ok X" and C: "cipher_ok C" and at: "dec_at C same n m goal rest True base st"
    and le: "base + BlockSize C \<le> n"
  shows "j = base + BlockSize C \<Longrightarrow> \<exists>st'. dec_sliceA X C same base j st = Some st'
      \<and> dec_at C same n m goal rest False (base + BlockSize C) st'"
    and "\<exists>st'. dec_restA X C same base st = Some st'
      \<and> dec_at C same n m goal rest False (base + BlockSize C) st'"
proof -
  let ?B = "BlockSize C" and ?s = "take (BlockSize C) (drop base (c_src st))"
  from at have sz: "sized C n m same st" and nx: "length (c_next st) = ?B" by (simp_all add: dec_at_def)
  then have t: "length (c_tbl st) = ?B" and src: "length (c_src st) = n" by (simp_all add: sized_def)
  have s: "length ?s = ?B" using src le by simp
  then have e: "length (EncryptBlock C ?s) = ?B" using C by (simp add: cipher_ok_def)
  let ?st = "st\<lparr>c_next := EncryptBlock C ?s\<rparr>"
  note enc = block_Encrypt_eq [OF _ nx]
  have sz': "sized C n m same ?st" by (rule sized_update(1) [OF sz])
  let ?st' = "put_block C same base (c_tbl st) ?st"
  have at': "dec_at C same n m goal rest False (base + ?B) ?st'"
    using dec_advance [OF C sz le t] at e sized_update(1) [OF put_block_sized [OF sz le t]]
    by (auto simp: dec_at_def)
  show "\<exists>st'. dec_sliceA X C same base j st = Some st' \<and> dec_at C same n m goal rest False (base + ?B) st'"
    if j: "j = base + ?B"
    using xor_src1_eq [OF X sz' le t j] at' enc [of ?s] s src le j by (simp add: dec_sliceA_def sl_eq)
  show "\<exists>st'. dec_restA X C same base st = Some st' \<and> dec_at C same n m goal rest False (base + ?B) st'"
    using xor_rest1_eq [OF X sz' le t] at' enc [of "drop base (c_src st)"] src le
    by (simp add: dec_restA_def sl_eq)
qed

lemma dec_at_stepB:
  assumes X: "xor_ok X" and C: "cipher_ok C" and at: "dec_at C same n m goal rest False base st"
    and le: "base + BlockSize C \<le> n"
  shows "j = base + BlockSize C \<Longrightarrow> \<exists>st'. dec_sliceB X C same base j st = Some st'
      \<and> dec_at C same n m goal rest True (base + BlockSize C) st'"
    and "\<exists>st'. dec_restB X C same base st = Some st'
      \<and> dec_at C same n m goal rest True (base + BlockSize C) st'"
proof -
  let ?B = "BlockSize C" and ?s = "take (BlockSize C) (drop base (c_src st))"
  from at have sz: "sized C n m same st" and t: "length (c_next st) = ?B" by (simp_all add: dec_at_def)
  then have nx: "length (c_tbl st) = ?B" and src: "length (c_src st) = n" by (simp_all add: sized_def)
  have s: "length ?s = ?B" using src le by simp
  then have e: "length (EncryptBlock C ?s) = ?B" using C by (simp add: cipher_ok_def)
  let ?st = "st\<lparr>c_tbl := EncryptBlock C ?s\<rparr>"
  note enc = block_Encrypt_eq [OF _ nx]
  have sz': "sized C n m same ?st" by (rule sized_update(2) [OF sz e])
  let ?st' = "put_block C same base (c_next st) ?st"
  have at': "dec_at C same n m goal rest True (base + ?B) ?st'"
    using dec_advance [OF C sz le t] at e sized_update(2) [OF put_block_sized [OF sz le t] e]
      put_block_parts(6) [OF sz le t]
    by (auto simp: dec_at_def)
  show "\<exists>st'. dec_sliceB X C same base j st = Some st' \<and> dec_at C same n m goal rest True (base + ?B) st'"
    if j: "j = base + ?B"
    using xor_src1_eq [OF X sz' le t j] at' enc [of ?s] s src le j by (simp add: dec_sliceB_def sl_eq)
  show "\<exists>st'. dec_restB X C same base st = Some st' \<and> dec_at C same n m goal rest True (base + ?B) st'"
    using xor_rest1_eq [OF X sz' le t] at' enc [of "drop base (c_src st)"] src le
    by (simp add: dec_restB_def sl_eq)
qed

lemma dec_bodies:
  assumes "xor_ok X" "cipher_ok C" "dec_at C same n m goal rest True base st" "base + 8 * BlockSize C \<le> n"
  shows "BlockSize C = 8 \<Longrightarrow>
      \<exists>st'. dec_body8 X C same base st = Some st' \<and> dec_at C same n m goal rest True (base + 64) st'"
    and "BlockSize C = 16 \<Longrightarrow>
      \<exists>st'. dec_body16 X C same base st = Some st' \<and> dec_at C same n m goal rest True (base + 128) st'"
    and "\<exists>st'. dec_bodyVariant X C same base st = Some st'
      \<and> dec_at C same n m goal rest True (base + 8 * BlockSize C) st'"
proof -
  let ?B = "BlockSize C"
  let ?I = "\<lambda>k. dec_at C same n m goal rest (even k) (base + k * ?B)"
  note le = block_within [OF assms(4)]
  have len: "length (c_src st) = n" "length (c_dst st) = m" "n \<le> m"
    using assms(3) by (simp_all add: dec_at_def sized_def)
  have start: "?I 0 st" using assms(3) by simp
  let ?fs = "\<lambda>k. (if even k then dec_sliceA else dec_sliceB) X C same (base + k * ?B) (base + k * ?B + ?B)"
  let ?fr = "\<lambda>k. (if even k then dec_restA else dec_restB) X C same (base + k * ?B)"
  have slice: "\<exists>st'. ?fs k s = Some st' \<and> ?I (Suc k) st'" if "k < 8" "?I k s" for k s
    using dec_at_stepA(1) [OF assms(1,2) _ le [OF that(1)] refl]
      dec_at_stepB(1) [OF assms(1,2) _ le [OF that(1)] refl] that(2)
    by (cases "even k") (simp_all add: ac_simps)
  have rest: "\<exists>st'. ?fr k s = Some st' \<and> ?I (Suc k) st'" if "k < 8" "?I k s" for k s
    using dec_at_stepA(2) [OF assms(1,2) _ le [OF that(1)]]
      dec_at_stepB(2) [OF assms(1,2) _ le [OF that(1)]] that(2)
    by (cases "even k") (simp_all add: ac_simps)
  note slices = eight_steps [where I = ?I and f = ?fs, OF slice start]
  show "\<exists>st'. dec_body8 X C same base st = Some st' \<and> dec_at C same n m goal rest True (base + 64) st'"
    if "?B = 8" using slices assms(4) len by (simp add: dec_body8_def sl_eq that add.commute)
  show "\<exists>st'. dec_body16 X C same base st = Some st' \<and> dec_at C same n m goal rest True (base + 128) st'"
    if "?B = 16" using slices assms(4) len by (simp add: dec_body16_def sl_eq that add.commute)
  show "\<exists>st'. dec_bodyVariant X C same base st = Some st'
      \<and> dec_at C same n m goal rest True (base + 8 * ?B) st'"
    using eight_steps [where I = ?I and f = ?fr, OF rest start]
    unfolding dec_bodyVariant_def Let_def nat_multiples by (simp add: add.commute)
qed

lemma dec_switch_falls:
  "dec_switch X C same B left bs =
     do { (base, st) \<leftarrow> falls (dec_case X C same B left) 7 bs; xor_rest0 X same base (c_tbl st) st }"
  by (simp add: dec_switch_def eval_nat_numeral)

lemma dec_at_swap:
  "dec_at C same n m goal rest False base st \<Longrightarrow>
     dec_at C same n m goal rest True base (st\<lparr>c_tbl := c_next st, c_next := c_tbl st\<rparr>)"
  by (simp add: dec_at_def sized_def)

lemma dec_switch_ok:
  assumes X: "xor_ok X" and C: "cipher_ok C" and at: "dec_at C same n m goal rest True base st"
    and left: "base + left * BlockSize C \<le> n" "n - (base + left * BlockSize C) < BlockSize C" "left < 8"
  shows "\<exists>st'. dec_switch X C same (BlockSize C) left (base, st) = Some st' \<and> c_dst st' = goal @ rest"
proof -
  let ?B = "BlockSize C" and ?I = "dec_at C same n m goal rest True"
  have step: "\<exists>st'. dec_case X C same ?B left c (b, s) = Some (b + ?B, st') \<and> ?I (b + ?B) st'"
    if "?I b s" "b + ?B \<le> n" "c \<le> left" for c b s
    using dec_at_stepA(2) [OF X C that(1,2)] that(3) by (auto simp: dec_case_def intro: dec_at_swap)
  have "min left 7 = left" using left(3) by simp
  with falls_ok [of ?I ?B n left "dec_case X C same ?B left" base st 7, OF step _ at] left(1)
  obtain st1 where st1: "falls (dec_case X C same ?B left) 7 (base, st) = Some (base + left * ?B, st1)"
    "?I (base + left * ?B) st1"
    by (auto simp: dec_case_def)
  let ?b = "base + left * ?B"
  from st1(2) have sz: "sized C n m same st1" by (simp add: dec_at_def)
  have "n - ?b \<le> length (c_tbl st1)" using left(2) sz by (simp add: sized_def)
  note fin = xor_rest0_eq [OF X sz left(1) this]
  have "length (drop ?b (c_src st1)) < ?B" using left(2) sz by (simp add: sized_def)
  then have "cfb_dec C (c_tbl st1) (drop ?b (c_src st1)) = map2 (XOR) (drop ?b (c_src st1)) (c_tbl st1)"
    by (simp add: cfb_dec.simps)
  then have "goal @ rest = take ?b (c_dst st1) @ map2 (XOR) (drop ?b (c_src st1)) (c_tbl st1)
      @ drop n (c_dst st1)"
    using st1(2) by (auto simp: dec_at_def)
  then show ?thesis using fin st1(1) by (simp add: dec_switch_falls)
qed

lemma decrypt_cfb:
  assumes X: "xor_ok X" and C: "cipher_ok C" and len: "length src \<le> length dst"
    and overlap: "same \<longrightarrow> src = dst" and buf: "length buf = 2 * BlockSize C"
  shows "decrypt X C same dst src buf = Some (cfb_dec C (iv_table C) src @ drop (length src) dst)"
proof -
  let ?B = "BlockSize C" and ?n = "length src" and ?m = "length dst"
  let ?goal = "cfb_dec C (iv_table C) src" and ?rest = "drop (length src) dst"
  let ?st = "\<lparr>c_dst = dst, c_src = src, c_tbl = iv_table C, c_next = drop ?B buf\<rparr>"
  let ?I = "dec_at C same ?n ?m ?goal ?rest True"
  let ?r = "?n div ?B div 8" and ?l = "?n div ?B mod 8"
  have B: "0 < ?B" "?B \<le> 16" using C by (simp_all add: cipher_ok_def)
  note split = blocks_split [OF B(1), of ?n]
  have at: "?I 0 ?st"
    using len overlap length_iv_table [OF C] buf by (simp add: dec_at_def sized_def)
  have whole: "\<exists>st'. do { bs \<leftarrow> cfb_repeat body (8 * ?B) ?r 0 ?st; dec_switch X C same ?B ?l bs } = Some st'
      \<and> c_dst st' = ?goal @ ?rest"
    if body: "\<And>b s. ?I b s \<Longrightarrow> b + 8 * ?B \<le> ?n \<Longrightarrow> \<exists>st'. body b s = Some st' \<and> ?I (b + 8 * ?B) st'" for body
  proof -
    have le: "0 + ?r * (8 * ?B) \<le> ?n" using split(1) by linarith
    from cfb_repeat_ok [where I = ?I and body = body, OF body at le] obtain st1
      where st1: "cfb_repeat body (8 * ?B) ?r 0 ?st = Some (?r * (8 * ?B), st1)" "?I (?r * (8 * ?B)) st1"
      by auto
    from dec_switch_ok [OF X C st1(2), of ?l] split st1(1) show ?thesis by simp
  qed
  have tbl: "sl 0 ?B buf = Some (take ?B buf)" "sl ?B (2 * ?B) buf = Some (drop ?B buf)"
    "block_Encrypt C (take ?B buf) initialVector = Some (iv_table C)"
    using buf B by (simp_all add: sl_def block_Encrypt_def iv_table_def)
  note bodies = dec_bodies [OF X C]
  consider "?B = 8" | "?B = 16" | "?B \<noteq> 8" "?B \<noteq> 16" by blast
  then show ?thesis
  proof cases
    case 1
    from whole [of "dec_body8 X C same"] bodies(1) tbl 1 show ?thesis
      by (auto simp: decrypt_def decrypt8_def Let_def bind_eq_Some_conv)
  next
    case 2
    from whole [of "dec_body16 X C same"] bodies(2) tbl 2 show ?thesis
      by (auto simp: decrypt_def decrypt16_def Let_def bind_eq_Some_conv)
  next
    case 3
    from whole [of "dec_bodyVariant X C same"] bodies(3) tbl 3 B buf show ?thesis
      by (auto simp: decrypt_def decryptVariant_def Let_def bind_eq_Some_conv)
  qed
qed

subsection \<open>The unrolled routines compute CFB mode\<close>

text \<open>C40. For every cipher and every pair of buffers that are the same memory or disjoint, with
  room for the result, \<open>encrypt\<close> and \<open>decrypt\<close> do not panic and compute textbook CFB mode from
  the initial vector: the eight-block rounds, the fall-through cases and the partial last block
  of all three variants together cover the source exactly once, and nothing behind it is written.\<close>

theorem cfb_mode:
  assumes "xor_ok X" "cipher_ok C" "length src \<le> length dst" "same \<longrightarrow> src = dst"
    and "length ebuf = BlockSize C" "length dbuf = 2 * BlockSize C"
  shows "encrypt X C same dst src ebuf = Some (cfb_enc C (iv_table C) src @ drop (length src) dst)
    \<and> decrypt X C same dst src dbuf = Some (cfb_dec C (iv_table C) src @ drop (length src) dst)"
  using encrypt_cfb [OF assms(1-5)] decrypt_cfb [OF assms(1-4,6)] by simp

definition sample_xor :: xor_lib where
  "sample_xor = \<lparr>BytesSrc0 = \<lambda>d a c. map2 (XOR) a c @ drop (length a) d,
     BytesSrc1 = \<lambda>d a c. map2 (XOR) a c @ drop (length c) d,
     XorBytes = \<lambda>d a c. map2 (XOR) a c @ drop (min (length a) (length c)) d\<rparr>"

definition sample_cipher :: "nat \<Rightarrow> block_cipher" where
  "sample_cipher n = \<lparr>BlockSize = n, EncryptBlock = \<lambda>b. map (\<lambda>x. 3 * x + 1) (rev b)\<rparr>"

lemma sample_ok: "xor_ok sample_xor" "0 < n \<Longrightarrow> n \<le> 16 \<Longrightarrow> cipher_ok (sample_cipher n)"
  "BlockSize (sample_cipher n) = n"
  by (simp_all add: xor_ok_def sample_xor_def cipher_ok_def sample_cipher_def)

theorem cfb_mode_witness:
  "encrypt sample_xor (sample_cipher 8) True (replicate 100 5) (replicate 100 5) (replicate 8 0) =
     Some (cfb_enc (sample_cipher 8) (iv_table (sample_cipher 8)) (replicate 100 5) @ drop 100 (replicate 100 5))
   \<and> decrypt sample_xor (sample_cipher 8) True (replicate 100 5) (replicate 100 5) (replicate 16 0) =
     Some (cfb_dec (sample_cipher 8) (iv_table (sample_cipher 8)) (replicate 100 5) @ drop 100 (replicate 100 5))"
  using cfb_mode [OF sample_ok(1) sample_ok(2) [of 8], of "replicate 100 5" "replicate 100 5" True
      "replicate 8 0" "replicate 16 0"]
  by (simp add: sample_ok(3))

end
