(* ===== verification/BlockCrypt.thy ===== *)
theory BlockCrypt
  imports CryptFacts
begin

section \<open>Block encryption objects (crypt/crypt.go, crypt/entropy.go, udptun/cipher.go)\<close>

text \<open>
  The \<open>BlockCrypt\<close> implementations, their constructors, the nonce generators, and the choice
  of a cipher by name in the programs. The ciphers, \<open>pbkdf2\<close>, the Salsa20 key stream, MD5
  and the XOR routines are libraries: fields of the record \<open>crypt_libs\<close>. The interface the
  tunnel relies on is the locale \<open>block_crypt\<close>; it is interpreted on every implementation.

  The scratch buffers \<open>encbuf\<close> and \<open>decbuf\<close> are rewritten by every call before they are read;
  their contents after a call are not kept.
\<close>

record crypt_libs =
  lib_xor :: xor_lib
  XORKeyStream :: "bytes \<Rightarrow> bytes \<Rightarrow> bytes \<Rightarrow> bytes"
  pbkdf2_Key :: "bytes \<Rightarrow> bytes \<Rightarrow> nat \<Rightarrow> nat \<Rightarrow> bytes"
  sm4_NewCipher :: "bytes \<Rightarrow> block_cipher option"
  twofish_NewCipher :: "bytes \<Rightarrow> block_cipher option"
  des_NewTripleDESCipher :: "bytes \<Rightarrow> block_cipher option"
  cast5_NewCipher :: "bytes \<Rightarrow> block_cipher option"
  blowfish_NewCipher :: "bytes \<Rightarrow> block_cipher option"
  aes_NewCipher :: "bytes \<Rightarrow> block_cipher option"
  tea_NewCipherWithRounds :: "bytes \<Rightarrow> nat \<Rightarrow> block_cipher option"
  xtea_NewCipher :: "bytes \<Rightarrow> block_cipher option"
  md5_Sum :: "bytes \<Rightarrow> bytes"

definition mtuLimit :: nat where
  "mtuLimit = 1500"

definition saltxor :: bytes where
  "saltxor = map of_char ''sH3CIVoF#rWLtJo6''"

subsection \<open>The implementations\<close>

text \<open>The struct shared by the ciphers in CFB mode: the two scratch buffers and the cipher.\<close>

record cfbBlockCrypt =
  encbuf :: bytes
  decbuf :: bytes
  block :: block_cipher

datatype BlockCrypt =
    salsa20BlockCrypt bytes
  | sm4BlockCrypt cfbBlockCrypt
  | twofishBlockCrypt cfbBlockCrypt
  | tripleDESBlockCrypt cfbBlockCrypt
  | cast5BlockCrypt cfbBlockCrypt
  | blowfishBlockCrypt cfbBlockCrypt
  | aesBlockCrypt cfbBlockCrypt
  | teaBlockCrypt cfbBlockCrypt
  | xteaBlockCrypt cfbBlockCrypt
  | simpleXORBlockCrypt bytes
  | noneBlockCrypt

datatype crypt_error = CipherError | UnknownCrypt string

text \<open>\<open>NewCipher\<close> and its error; the arrays of a struct start zeroed, with the sizes of its type.\<close>

definition new_cfb :: "nat \<Rightarrow> block_cipher option \<Rightarrow> crypt_error + cfbBlockCrypt" where
  "new_cfb blocksize r = (case r of
     None \<Rightarrow> Inl CipherError
   | Some b \<Rightarrow> Inr \<lparr>encbuf = replicate blocksize 0, decbuf = replicate (2 * blocksize) 0, block = b\<rparr>)"

definition NewSalsa20BlockCrypt :: "bytes \<Rightarrow> crypt_error + BlockCrypt" where
  "NewSalsa20BlockCrypt key = Inr (salsa20BlockCrypt (go_copy (replicate 32 0) key))"

definition NewSM4BlockCrypt :: "crypt_libs \<Rightarrow> bytes \<Rightarrow> crypt_error + BlockCrypt" where
  "NewSM4BlockCrypt L key = map_sum id sm4BlockCrypt (new_cfb 16 (sm4_NewCipher L key))"

definition NewTwofishBlockCrypt :: "crypt_libs \<Rightarrow> bytes \<Rightarrow> crypt_error + BlockCrypt" where
  "NewTwofishBlockCrypt L key = map_sum id twofishBlockCrypt (new_cfb 16 (twofish_NewCipher L key))"

definition NewTripleDESBlockCrypt :: "crypt_libs \<Rightarrow> bytes \<Rightarrow> crypt_error + BlockCrypt" where
  "NewTripleDESBlockCrypt L key =
     map_sum id tripleDESBlockCrypt (new_cfb 8 (des_NewTripleDESCipher L key))"

definition NewCast5BlockCrypt :: "crypt_libs \<Rightarrow> bytes \<Rightarrow> crypt_error + BlockCrypt" where
  "NewCast5BlockCrypt L key = map_sum id cast5BlockCrypt (new_cfb 8 (cast5_NewCipher L key))"

definition NewBlowfishBlockCrypt :: "crypt_libs \<Rightarrow> bytes \<Rightarrow> crypt_error + BlockCrypt" where
  "NewBlowfishBlockCrypt L key = map_sum id blowfishBlockCrypt (new_cfb 8 (blowfish_NewCipher L key))"

definition NewAESBlockCrypt :: "crypt_libs \<Rightarrow> bytes \<Rightarrow> crypt_error + BlockCrypt" where
  "NewAESBlockCrypt L key = map_sum id aesBlockCrypt (new_cfb 16 (aes_NewCipher L key))"

definition NewTEABlockCrypt :: "crypt_libs \<Rightarrow> bytes \<Rightarrow> crypt_error + BlockCrypt" where
  "NewTEABlockCrypt L key = map_sum id teaBlockCrypt (new_cfb 8 (tea_NewCipherWithRounds L key 16))"

definition NewXTEABlockCrypt :: "crypt_libs \<Rightarrow> bytes \<Rightarrow> crypt_error + BlockCrypt" where
  "NewXTEABlockCrypt L key = map_sum id xteaBlockCrypt (new_cfb 8 (xtea_NewCipher L key))"

definition NewSimpleXORBlockCrypt :: "crypt_libs \<Rightarrow> bytes \<Rightarrow> crypt_error + BlockCrypt" where
  "NewSimpleXORBlockCrypt L key = Inr (simpleXORBlockCrypt (pbkdf2_Key L key saltxor 32 mtuLimit))"

definition NewNoneBlockCrypt :: "bytes \<Rightarrow> crypt_error + BlockCrypt" where
  "NewNoneBlockCrypt key = Inr noneBlockCrypt"

text \<open>
  The two methods. \<open>same\<close>: \<open>dst\<close> and \<open>src\<close> are the same memory. Salsa20 XORs behind the
  first eight bytes, which are the nonce, then copies those.
\<close>

definition salsa20_crypt :: "crypt_libs \<Rightarrow> bytes \<Rightarrow> bool \<Rightarrow> bytes \<Rightarrow> bytes \<Rightarrow> bytes option" where
  "salsa20_crypt L key same dst src = do {
     d \<leftarrow> sl 8 (length dst) dst;
     s \<leftarrow> sl 8 (length src) src;
     nonce \<leftarrow> sl 0 8 src;
     if length d < length s then None
     else let dst = put_at 8 (XORKeyStream L s nonce key) dst;
              src = (if same then dst else src)
          in Some (put_at 0 (go_copy (take 8 dst) (take 8 src)) dst)
   }"

fun Encrypt :: "crypt_libs \<Rightarrow> BlockCrypt \<Rightarrow> bool \<Rightarrow> bytes \<Rightarrow> bytes \<Rightarrow> bytes option" where
  "Encrypt L (salsa20BlockCrypt key) same dst src = salsa20_crypt L key same dst src"
| "Encrypt L (sm4BlockCrypt c) same dst src = encrypt (lib_xor L) (block c) same dst src (encbuf c)"
| "Encrypt L (twofishBlockCrypt c) same dst src = encrypt (lib_xor L) (block c) same dst src (encbuf c)"
| "Encrypt L (tripleDESBlockCrypt c) same dst src = encrypt (lib_xor L) (block c) same dst src (encbuf c)"
| "Encrypt L (cast5BlockCrypt c) same dst src = encrypt (lib_xor L) (block c) same dst src (encbuf c)"
| "Encrypt L (blowfishBlockCrypt c) same dst src = encrypt (lib_xor L) (block c) same dst src (encbuf c)"
| "Encrypt L (aesBlockCrypt c) same dst src = encrypt (lib_xor L) (block c) same dst src (encbuf c)"
| "Encrypt L (teaBlockCrypt c) same dst src = encrypt (lib_xor L) (block c) same dst src (encbuf c)"
| "Encrypt L (xteaBlockCrypt c) same dst src = encrypt (lib_xor L) (block c) same dst src (encbuf c)"
| "Encrypt L (simpleXORBlockCrypt xortbl) same dst src = Some (XorBytes (lib_xor L) dst src xortbl)"
| "Encrypt L noneBlockCrypt same dst src = Some (go_copy dst src)"

fun Decrypt :: "crypt_libs \<Rightarrow> BlockCrypt \<Rightarrow> bool \<Rightarrow> bytes \<Rightarrow> bytes \<Rightarrow> bytes option" where
  "Decrypt L (salsa20BlockCrypt key) same dst src = salsa20_crypt L key same dst src"
| "Decrypt L (sm4BlockCrypt c) same dst src = decrypt (lib_xor L) (block c) same dst src (decbuf c)"
| "Decrypt L (twofishBlockCrypt c) same dst src = decrypt (lib_xor L) (block c) same dst src (decbuf c)"
| "Decrypt L (tripleDESBlockCrypt c) same dst src = decrypt (lib_xor L) (block c) same dst src (decbuf c)"
| "Decrypt L (cast5BlockCrypt c) same dst src = decrypt (lib_xor L) (block c) same dst src (decbuf c)"
| "Decrypt L (blowfishBlockCrypt c) same dst src = decrypt (lib_xor L) (block c) same dst src (decbuf c)"
| "Decrypt L (aesBlockCrypt c) same dst src = decrypt (lib_xor L) (block c) same dst src (decbuf c)"
| "Decrypt L (teaBlockCrypt c) same dst src = decrypt (lib_xor L) (block c) same dst src (decbuf c)"
| "Decrypt L (xteaBlockCrypt c) same dst src = decrypt (lib_xor L) (block c) same dst src (decbuf c)"
| "Decrypt L (simpleXORBlockCrypt xortbl) same dst src = Some (XorBytes (lib_xor L) dst src xortbl)"
| "Decrypt L noneBlockCrypt same dst src = Some (go_copy dst src)"

subsection \<open>Nonces\<close>

text \<open>
  \<open>fresh\<close> is what the random source delivers into the seed, read when the seed starts with 0.
\<close>

record nonceAES128 =
  nonce_seed :: bytes
  nonce_block :: block_cipher

definition nonceMD5_Fill :: "crypt_libs \<Rightarrow> bytes \<Rightarrow> bytes \<Rightarrow> bytes \<Rightarrow> bytes \<times> bytes" where
  "nonceMD5_Fill L fresh seed nonce =
     (let seed = (if take 1 seed = [0] then fresh else seed);
          seed = md5_Sum L seed
      in (seed, go_copy nonce seed))"

definition nonceAES128_Init :: "crypt_libs \<Rightarrow> bytes \<Rightarrow> bytes \<Rightarrow> nonceAES128 option" where
  "nonceAES128_Init L key seed =
     map_option (\<lambda>b. \<lparr>nonce_seed = seed, nonce_block = b\<rparr>) (aes_NewCipher L key)"

definition nonceAES128_Fill :: "bytes \<Rightarrow> nonceAES128 \<Rightarrow> bytes \<Rightarrow> (nonceAES128 \<times> bytes) option" where
  "nonceAES128_Fill fresh n nonce = do {
     let seed = (if take 1 (nonce_seed n) = [0] then fresh else nonce_seed n);
     seed \<leftarrow> block_Encrypt (nonce_block n) seed seed;
     Some (n\<lparr>nonce_seed := seed\<rparr>, go_copy nonce seed)
   }"

subsection \<open>The choice of a cipher by name\<close>

definition NewBlockCrypt :: "crypt_libs \<Rightarrow> string \<Rightarrow> bytes \<Rightarrow> crypt_error + BlockCrypt" where
  "NewBlockCrypt L name pass =
     (let key = pbkdf2_Key L pass (map of_char ''kcp-go'') 4096 32 in
      if name = ''sm4'' then NewSM4BlockCrypt L (take 16 key)
      else if name = ''tea'' then NewTEABlockCrypt L (take 16 key)
      else if name = ''xor'' then NewSimpleXORBlockCrypt L key
      else if name = ''none'' then NewNoneBlockCrypt key
      else if name = ''aes-128'' then NewAESBlockCrypt L (take 16 key)
      else if name = ''aes-192'' then NewAESBlockCrypt L (take 24 key)
      else if name = ''blowfish'' then NewBlowfishBlockCrypt L key
      else if name = ''twofish'' then NewTwofishBlockCrypt L key
      else if name = ''cast5'' then NewCast5BlockCrypt L (take 16 key)
      else if name = ''3des'' then NewTripleDESBlockCrypt L (take 24 key)
      else if name = ''xtea'' then NewXTEABlockCrypt L (take 16 key)
      else if name = ''salsa20'' then NewSalsa20BlockCrypt key
      else if name = ''aes'' then NewAESBlockCrypt L key
      else Inl (UnknownCrypt name))"

text \<open>\<open>block, _ = ...\<close>: the error is dropped and a failed constructor leaves \<open>block\<close> nil.\<close>

definition drop_error :: "crypt_error + BlockCrypt \<Rightarrow> BlockCrypt option" where
  "drop_error r = (case r of Inl _ \<Rightarrow> None | Inr b \<Rightarrow> Some b)"

text \<open>The switch of the client and of the server program: the name used, and the block.\<close>

definition client_block :: "crypt_libs \<Rightarrow> string \<Rightarrow> bytes \<Rightarrow> string \<times> BlockCrypt option" where
  "client_block L name key =
     (let pass = pbkdf2_Key L key (map of_char ''kcp-go'') 4096 32 in
      if name = ''sm4'' then (name, drop_error (NewSM4BlockCrypt L (take 16 pass)))
      else if name = ''tea'' then (name, drop_error (NewTEABlockCrypt L (take 16 pass)))
      else if name = ''xor'' then (name, drop_error (NewSimpleXORBlockCrypt L pass))
      else if name = ''none'' then (name, drop_error (NewNoneBlockCrypt pass))
      else if name = ''aes-128'' then (name, drop_error (NewAESBlockCrypt L (take 16 pass)))
      else if name = ''aes-192'' then (name, drop_error (NewAESBlockCrypt L (take 24 pass)))
      else if name = ''blowfish'' then (name, drop_error (NewBlowfishBlockCrypt L pass))
      else if name = ''twofish'' then (name, drop_error (NewTwofishBlockCrypt L pass))
      else if name = ''cast5'' then (name, drop_error (NewCast5BlockCrypt L (take 16 pass)))
      else if name = ''3des'' then (name, drop_error (NewTripleDESBlockCrypt L (take 24 pass)))
      else if name = ''xtea'' then (name, drop_error (NewXTEABlockCrypt L (take 16 pass)))
      else if name = ''salsa20'' then (name, drop_error (NewSalsa20BlockCrypt pass))
      else (''aes'', drop_error (NewAESBlockCrypt L pass)))"

definition server_block :: "crypt_libs \<Rightarrow> string \<Rightarrow> bytes \<Rightarrow> string \<times> BlockCrypt option" where
  "server_block L name key =
     (let pass = pbkdf2_Key L key (map of_char ''kcp-go'') 4096 32 in
      if name = ''sm4'' then (name, drop_error (NewSM4BlockCrypt L (take 16 pass)))
      else if name = ''tea'' then (name, drop_error (NewTEABlockCrypt L (take 16 pass)))
      else if name = ''xor'' then (name, drop_error (NewSimpleXORBlockCrypt L pass))
      else if name = ''none'' then (name, drop_error (NewNoneBlockCrypt pass))
      else if name = ''aes-128'' then (name, drop_error (NewAESBlockCrypt L (take 16 pass)))
      else if name = ''aes-192'' then (name, drop_error (NewAESBlockCrypt L (take 24 pass)))
      else if name = ''blowfish'' then (name, drop_error (NewBlowfishBlockCrypt L pass))
      else if name = ''twofish'' then (name, drop_error (NewTwofishBlockCrypt L pass))
      else if name = ''cast5'' then (name, drop_error (NewCast5BlockCrypt L (take 16 pass)))
      else if name = ''3des'' then (name, drop_error (NewTripleDESBlockCrypt L (take 24 pass)))
      else if name = ''xtea'' then (name, drop_error (NewXTEABlockCrypt L (take 16 pass)))
      else if name = ''salsa20'' then (name, drop_error (NewSalsa20BlockCrypt pass))
      else (''aes'', drop_error (NewAESBlockCrypt L pass)))"

subsection \<open>The interface the tunnel relies on\<close>

text \<open>In place: what \<open>enc\<close> makes of an acceptable packet has its length, and \<open>dec\<close> undoes it.\<close>

locale block_crypt =
  fixes enc dec :: "bytes \<Rightarrow> bytes option" and ok :: "bytes \<Rightarrow> bool"
  assumes enc_total: "ok p \<Longrightarrow> \<exists>c. enc p = Some c \<and> length c = length p"
    and dec_enc: "ok p \<Longrightarrow> enc p = Some c \<Longrightarrow> dec c = Some p"
begin

lemma through: "ok p \<Longrightarrow> Option.bind (enc p) dec = Some p"
  using enc_total dec_enc by fastforce

lemma enc_injective: "ok p \<Longrightarrow> ok q \<Longrightarrow> enc p = enc q \<Longrightarrow> p = q"
  by (metis through option.inject)

lemma enc_length: "ok p \<Longrightarrow> enc p = Some c \<Longrightarrow> length c = length p"
  using enc_total by fastforce

end

definition enc_here :: "crypt_libs \<Rightarrow> BlockCrypt \<Rightarrow> bytes \<Rightarrow> bytes option" where
  "enc_here L c p = Encrypt L c True p p"

definition dec_here :: "crypt_libs \<Rightarrow> BlockCrypt \<Rightarrow> bytes \<Rightarrow> bytes option" where
  "dec_here L c p = Decrypt L c True p p"

text \<open>
  What is assumed of the libraries: the XOR routines; Salsa20 XORs a key stream that depends
  on nonce and key only; a cipher maps blocks to blocks of the size its buffers have.
\<close>

definition libs_ok :: "crypt_libs \<Rightarrow> bool" where
  "libs_ok L \<longleftrightarrow> xor_ok (lib_xor L)
     \<and> (\<forall>d a c. length d = length a \<longrightarrow>
          XorBytes (lib_xor L) d a c = map2 (XOR) a c @ drop (min (length a) (length c)) d)
     \<and> (\<exists>ks. \<forall>p n k. XORKeyStream L p n k = map2 (XOR) p (map (ks n k) [0..<length p]))"

definition cfb_ok :: "nat \<Rightarrow> cfbBlockCrypt \<Rightarrow> bool" where
  "cfb_ok n c \<longleftrightarrow> cipher_ok (block c) \<and> BlockSize (block c) = n
     \<and> length (encbuf c) = n \<and> length (decbuf c) = 2 * n"

fun crypt_ok :: "BlockCrypt \<Rightarrow> bool" where
  "crypt_ok (sm4BlockCrypt c) = cfb_ok 16 c"
| "crypt_ok (twofishBlockCrypt c) = cfb_ok 16 c"
| "crypt_ok (tripleDESBlockCrypt c) = cfb_ok 8 c"
| "crypt_ok (cast5BlockCrypt c) = cfb_ok 8 c"
| "crypt_ok (blowfishBlockCrypt c) = cfb_ok 8 c"
| "crypt_ok (aesBlockCrypt c) = cfb_ok 16 c"
| "crypt_ok (teaBlockCrypt c) = cfb_ok 8 c"
| "crypt_ok (xteaBlockCrypt c) = cfb_ok 8 c"
| "crypt_ok _ = True"

lemma cfb_in_place:
  assumes "xor_ok X" "cfb_ok n c"
  shows "encrypt X (block c) True p p (encbuf c) = Some (cfb_enc (block c) (iv_table (block c)) p)"
    and "decrypt X (block c) True p p (decbuf c) = Some (cfb_dec (block c) (iv_table (block c)) p)"
    and "length (cfb_enc (block c) (iv_table (block c)) p) = length p"
    and "cfb_dec (block c) (iv_table (block c)) (cfb_enc (block c) (iv_table (block c)) p) = p"
  using assms(2) encrypt_cfb [OF assms(1), of "block c" p p True "encbuf c"]
    decrypt_cfb [OF assms(1), of "block c" p p True "decbuf c"]
  by (auto simp: cfb_ok_def length_iv_table intro!: length_cfb_enc cfb_dec_enc)

lemma xor_table_twice:
  fixes p c :: bytes
  defines "q \<equiv> map2 (XOR) p c @ drop (min (length p) (length c)) p"
  shows "length q = length p" "map2 (XOR) q c @ drop (min (length q) (length c)) q = p"
proof -
  show "length q = length p" unfolding q_def by simp
  show "map2 (XOR) q c @ drop (min (length q) (length c)) q = p"
    unfolding q_def
  proof (induction p c rule: list_induct2')
    case (4 x xs y ys)
    then show ?case by (simp add: xor.assoc)
  qed auto
qed

lemma salsa20_crypt_eq:
  assumes "\<And>p n k. XORKeyStream L p n k = map2 (XOR) p (map (ks n k) [0..<length p])" "8 \<le> length p"
  shows "salsa20_crypt L key True p p =
    Some (take 8 p @ map2 (XOR) (drop 8 p) (map (ks (take 8 p) key) [0..<length p - 8]))"
proof -
  let ?x = "map2 (XOR) (drop 8 p) (map (ks (take 8 p) key) [0..<length p - 8])"
  have "length ?x = length p - 8" by simp
  then show ?thesis
    using assms(2) by (simp add: salsa20_crypt_def sl_eq assms(1) put_at_def go_copy_def Let_def)
qed

lemma crypt_in_place:
  assumes L: "libs_ok L" and c: "crypt_ok c" and p: "8 \<le> length p"
  shows "\<exists>q. Encrypt L c True p p = Some q \<and> length q = length p \<and> Decrypt L c True q q = Some p"
proof -
  have X: "xor_ok (lib_xor L)" using L by (simp add: libs_ok_def)
  note cfb = cfb_in_place [OF X]
  obtain ks where ks: "\<And>p n k. XORKeyStream L p n k = map2 (XOR) p (map (ks n k) [0..<length p])"
    using L by (auto simp: libs_ok_def)
  have tbl: "XorBytes (lib_xor L) q q t = map2 (XOR) q t @ drop (min (length q) (length t)) q" for q t
    using L by (simp add: libs_ok_def)
  show ?thesis
  proof (cases c)
    case (salsa20BlockCrypt key)
    let ?s = "map (ks (take 8 p) key) [0..<length p - 8]"
    let ?q = "take 8 p @ map2 (XOR) (drop 8 p) ?s"
    have "length ?q = length p" using p by simp
    moreover have "map2 (XOR) (map2 (XOR) (drop 8 p) ?s) ?s = drop 8 p" by (rule xor_xor) simp
    ultimately show ?thesis
      using salsa20_crypt_eq [OF ks p, of key] salsa20_crypt_eq [OF ks, of ?q key] p salsa20BlockCrypt
      by simp
  next
    case (simpleXORBlockCrypt t)
    then show ?thesis using xor_table_twice [of p t] tbl by simp
  next
    case noneBlockCrypt
    then show ?thesis by (simp add: go_copy_def)
  qed (use c cfb in auto)
qed

text \<open>Decryption accepts anything of eight bytes and keeps the length.\<close>

lemma Decrypt_total:
  assumes L: "libs_ok L" and c: "crypt_ok c" and p: "8 \<le> length p"
  shows "\<exists>q. Decrypt L c True p p = Some q \<and> length q = length p"
proof -
  have X: "xor_ok (lib_xor L)" using L by (simp add: libs_ok_def)
  have cfb: "\<exists>q. decrypt (lib_xor L) (block b) True p p (decbuf b) = Some q \<and> length q = length p"
    if "cfb_ok n b" for b n
    using cfb_in_place(2) [OF X that] that by (auto simp: cfb_ok_def length_iv_table length_cfb_dec)
  obtain ks where ks: "\<And>p n k. XORKeyStream L p n k = map2 (XOR) p (map (ks n k) [0..<length p])"
    using L by (auto simp: libs_ok_def)
  have tbl: "XorBytes (lib_xor L) q q t = map2 (XOR) q t @ drop (min (length q) (length t)) q" for q t
    using L by (simp add: libs_ok_def)
  show ?thesis
  proof (cases c)
    case (salsa20BlockCrypt key)
    then show ?thesis using salsa20_crypt_eq [OF ks p, of key] p by simp
  qed (use c cfb tbl xor_table_twice(1) in \<open>auto simp: go_copy_def\<close>)
qed

subsection \<open>Stream ciphers\<close>

text \<open>Salsa20, the XOR table and no cipher at all XOR with a mask that the first eight bytes decide.\<close>

fun is_stream :: "BlockCrypt \<Rightarrow> bool" where
  "is_stream (salsa20BlockCrypt _) = True"
| "is_stream (simpleXORBlockCrypt _) = True"
| "is_stream noneBlockCrypt = True"
| "is_stream _ = False"

lemma zip_take_map2:
  "map2 f (take (min (length p) (length t)) q) (take (min (length p) (length t)) t) = map2 f q t"
  if "length q = length p"
  using that by (simp add: take_zip [symmetric] take_map)

lemma map2_xor_zeros: "map2 (XOR) p (replicate (length p) 0) = (p :: bytes)"
  by (induction p) auto

lemma stream_mask:
  assumes L: "libs_ok L" and c: "is_stream c" and p: "8 \<le> length p"
  shows "\<exists>mask. length mask = length p \<and>
    (\<forall>q. length q = length p \<longrightarrow> take 8 q = take 8 p \<longrightarrow> Decrypt L c True q q = Some (map2 (XOR) q mask))"
proof -
  obtain ks where ks: "\<And>p n k. XORKeyStream L p n k = map2 (XOR) p (map (ks n k) [0..<length p])"
    using L by (auto simp: libs_ok_def)
  have tbl: "XorBytes (lib_xor L) q q t = map2 (XOR) q t @ drop (min (length q) (length t)) q" for q t
    using L by (simp add: libs_ok_def)
  show ?thesis
  proof (cases c)
    case (salsa20BlockCrypt key)
    let ?mask = "replicate 8 0 @ map (ks (take 8 p) key) [0..<length p - 8]"
    have "Decrypt L c True q q = Some (map2 (XOR) q ?mask)"
      if len: "length q = length p" and tk: "take 8 q = take 8 p" for q
    proof -
      have e: "map2 (XOR) (take 8 q @ drop 8 q) ?mask =
          map2 (XOR) (take 8 q) (replicate 8 0) @ map2 (XOR) (drop 8 q) (map (ks (take 8 p) key) [0..<length p - 8])"
        using len p by (subst zip_append) simp_all
      have "map2 (XOR) (take 8 q) (replicate 8 0) = take 8 q"
        using map2_xor_zeros [of "take 8 q"] len p by simp
      with e have "map2 (XOR) q ?mask =
          take 8 q @ map2 (XOR) (drop 8 q) (map (ks (take 8 p) key) [0..<length p - 8])" by simp
      then show ?thesis
        using salsa20_crypt_eq [OF ks, of q key] len tk p salsa20BlockCrypt by simp
    qed
    then show ?thesis using p by (intro exI [of _ ?mask]) auto
  next
    case (simpleXORBlockCrypt t)
    let ?n = "min (length p) (length t)"
    let ?mask = "take ?n t @ replicate (length p - ?n) 0"
    have "Decrypt L c True q q = Some (map2 (XOR) q ?mask)" if len: "length q = length p" for q
    proof -
      have "map2 (XOR) (take ?n q @ drop ?n q) ?mask =
          map2 (XOR) (take ?n q) (take ?n t) @ map2 (XOR) (drop ?n q) (replicate (length p - ?n) 0)"
        using len by (subst zip_append) simp_all
      also have "map2 (XOR) (drop ?n q) (replicate (length p - ?n) 0) = drop ?n q"
        using map2_xor_zeros [of "drop ?n q"] len by simp
      also have "map2 (XOR) (take ?n q) (take ?n t) = map2 (XOR) q t"
        using len by (simp add: zip_take_map2)
      finally show ?thesis using len simpleXORBlockCrypt tbl [of q t] by simp
    qed
    then show ?thesis by (intro exI [of _ ?mask]) auto
  next
    case noneBlockCrypt
    have "Decrypt L c True q q = Some (map2 (XOR) q (replicate (length p) 0))" if "length q = length p" for q
      using map2_xor_zeros [of q] that noneBlockCrypt by (simp add: go_copy_def)
    then show ?thesis by (intro exI [of _ "replicate (length p) 0"]) auto
  qed (use c in auto)
qed

interpretation bc: block_crypt "enc_here L c" "dec_here L c" "\<lambda>p. libs_ok L \<and> crypt_ok c \<and> 8 \<le> length p"
  for L c
proof
  fix p q :: bytes
  assume ok: "libs_ok L \<and> crypt_ok c \<and> 8 \<le> length p"
  then show "\<exists>q. enc_here L c p = Some q \<and> length q = length p"
    using crypt_in_place [of L c p] by (auto simp: enc_here_def)
  show "dec_here L c q = Some p" if "enc_here L c p = Some q" for q
    using crypt_in_place [of L c p] ok that by (auto simp: enc_here_def dec_here_def)
qed

subsection \<open>Constructors\<close>

text \<open>The ciphers a library constructor returns have the block size of their package.\<close>

definition ciphers_ok :: "crypt_libs \<Rightarrow> bool" where
  "ciphers_ok L \<longleftrightarrow>
     (\<forall>k b. (sm4_NewCipher L k = Some b \<or> twofish_NewCipher L k = Some b \<or> aes_NewCipher L k = Some b) \<longrightarrow>
        cipher_ok b \<and> BlockSize b = 16)
     \<and> (\<forall>k b. (des_NewTripleDESCipher L k = Some b \<or> cast5_NewCipher L k = Some b
          \<or> blowfish_NewCipher L k = Some b \<or> tea_NewCipherWithRounds L k 16 = Some b
          \<or> xtea_NewCipher L k = Some b) \<longrightarrow> cipher_ok b \<and> BlockSize b = 8)"

lemma new_cfb_ok:
  "new_cfb n r = Inr c \<Longrightarrow> (\<And>b. r = Some b \<Longrightarrow> cipher_ok b \<and> BlockSize b = n) \<Longrightarrow> cfb_ok n c"
  by (auto simp: new_cfb_def cfb_ok_def split: option.splits)

lemma map_sum_Inr: "map_sum id f s = Inr y \<longleftrightarrow> (\<exists>x. s = Inr x \<and> y = f x)"
  by (cases s) auto

lemmas new_defs = NewSalsa20BlockCrypt_def NewSM4BlockCrypt_def NewTwofishBlockCrypt_def
  NewTripleDESBlockCrypt_def NewCast5BlockCrypt_def NewBlowfishBlockCrypt_def NewAESBlockCrypt_def
  NewTEABlockCrypt_def NewXTEABlockCrypt_def NewSimpleXORBlockCrypt_def NewNoneBlockCrypt_def

text \<open>A constructor fails with the error of its cipher only.\<close>

definition agrees :: "string \<Rightarrow> crypt_error + BlockCrypt \<Rightarrow> string \<times> BlockCrypt option \<Rightarrow> bool" where
  "agrees name r used \<longleftrightarrow> (case r of
       Inr c \<Rightarrow> used = (name, Some c)
     | Inl CipherError \<Rightarrow> used = (name, None)
     | Inl (UnknownCrypt n) \<Rightarrow> False)"

lemma agrees_new:
  "agrees name (NewSalsa20BlockCrypt k) (name, drop_error (NewSalsa20BlockCrypt k))"
  "agrees name (NewSM4BlockCrypt L k) (name, drop_error (NewSM4BlockCrypt L k))"
  "agrees name (NewTwofishBlockCrypt L k) (name, drop_error (NewTwofishBlockCrypt L k))"
  "agrees name (NewTripleDESBlockCrypt L k) (name, drop_error (NewTripleDESBlockCrypt L k))"
  "agrees name (NewCast5BlockCrypt L k) (name, drop_error (NewCast5BlockCrypt L k))"
  "agrees name (NewBlowfishBlockCrypt L k) (name, drop_error (NewBlowfishBlockCrypt L k))"
  "agrees name (NewAESBlockCrypt L k) (name, drop_error (NewAESBlockCrypt L k))"
  "agrees name (NewTEABlockCrypt L k) (name, drop_error (NewTEABlockCrypt L k))"
  "agrees name (NewXTEABlockCrypt L k) (name, drop_error (NewXTEABlockCrypt L k))"
  "agrees name (NewSimpleXORBlockCrypt L k) (name, drop_error (NewSimpleXORBlockCrypt L k))"
  "agrees name (NewNoneBlockCrypt k) (name, drop_error (NewNoneBlockCrypt k))"
  by (simp_all add: agrees_def drop_error_def new_defs new_cfb_def split: option.split)

definition crypt_names :: "string list" where
  "crypt_names = [''sm4'', ''tea'', ''xor'', ''none'', ''aes-128'', ''aes-192'', ''blowfish'', ''twofish'',
     ''cast5'', ''3des'', ''xtea'', ''salsa20'', ''aes'']"

lemma known_name:
  assumes "name \<in> set crypt_names"
  shows "agrees name (NewBlockCrypt L name pass) (client_block L name pass)"
    "agrees name (NewBlockCrypt L name pass) (server_block L name pass)"
  using assms by (auto simp: crypt_names_def NewBlockCrypt_def client_block_def server_block_def Let_def agrees_new)

lemma unknown_name:
  assumes "name \<notin> set crypt_names"
  shows "NewBlockCrypt L name pass = Inl (UnknownCrypt name)"
    "client_block L name pass = (''aes'', drop_error (NewBlockCrypt L ''aes'' pass))"
    "server_block L name pass = (''aes'', drop_error (NewBlockCrypt L ''aes'' pass))"
  using assms by (simp_all add: crypt_names_def NewBlockCrypt_def client_block_def server_block_def Let_def)

lemma NewBlockCrypt_ok: "ciphers_ok L \<Longrightarrow> NewBlockCrypt L name pass = Inr c \<Longrightarrow> crypt_ok c"
  unfolding NewBlockCrypt_def Let_def
  by (auto simp: new_defs map_sum_Inr ciphers_ok_def split: if_splits intro!: new_cfb_ok)

subsection \<open>What the packets rely on\<close>

text \<open>C39. Every cipher the programs can select decrypts in place what it encrypted in place: for a
  block obtained by name and any packet of at least eight bytes, encryption returns a packet of the
  same length and decryption restores the original, whatever the mode (CFB with blocks of 8 or 16
  bytes, key stream, XOR table, none).\<close>

theorem crypt_roundtrip:
  assumes "libs_ok L" "ciphers_ok L" "NewBlockCrypt L name pass = Inr c" "8 \<le> length p"
  shows "\<exists>q. Encrypt L c True p p = Some q \<and> length q = length p \<and> Decrypt L c True q q = Some p"
  using crypt_in_place [OF assms(1) NewBlockCrypt_ok [OF assms(2,3)] assms(4)] .

definition sample_libs :: crypt_libs where
  "sample_libs = \<lparr>lib_xor = sample_xor,
     XORKeyStream = \<lambda>p n k. map2 (XOR) p (map (\<lambda>i. of_nat i) [0..<length p]),
     pbkdf2_Key = \<lambda>pass salt iter n. replicate n 7,
     sm4_NewCipher = \<lambda>k. Some (sample_cipher 16), twofish_NewCipher = \<lambda>k. Some (sample_cipher 16),
     des_NewTripleDESCipher = \<lambda>k. Some (sample_cipher 8), cast5_NewCipher = \<lambda>k. Some (sample_cipher 8),
     blowfish_NewCipher = \<lambda>k. Some (sample_cipher 8), aes_NewCipher = \<lambda>k. Some (sample_cipher 16),
     tea_NewCipherWithRounds = \<lambda>k r. Some (sample_cipher 8), xtea_NewCipher = \<lambda>k. Some (sample_cipher 8),
     md5_Sum = \<lambda>b. take 16 (b @ replicate 16 0)\<rparr>"

lemma sample_libs_ok: "libs_ok sample_libs" "ciphers_ok sample_libs"
proof -
  have "\<exists>ks. \<forall>p n k. XORKeyStream sample_libs p n k = map2 (XOR) p (map (ks n k) [0..<length p])"
    by (rule exI [of _ "\<lambda>n k i. of_nat i"]) (simp add: sample_libs_def)
  then show "libs_ok sample_libs"
    using sample_ok(1) by (simp add: libs_ok_def sample_libs_def sample_xor_def)
  show "ciphers_ok sample_libs"
    using sample_ok(2) [of 8] sample_ok(2) [of 16] by (auto simp: ciphers_ok_def sample_libs_def sample_ok(3))
qed

theorem crypt_roundtrip_witness:
  "\<exists>c q. NewBlockCrypt sample_libs ''aes-128'' [1, 2, 3] = Inr c
     \<and> Encrypt sample_libs c True (replicate 50 9) (replicate 50 9) = Some q
     \<and> Decrypt sample_libs c True q q = Some (replicate 50 9)"
proof -
  have c: "NewBlockCrypt sample_libs ''aes-128'' [1, 2, 3] = Inr (aesBlockCrypt
      \<lparr>encbuf = replicate 16 0, decbuf = replicate 32 0, block = sample_cipher 16\<rparr>)"
    by (simp add: NewBlockCrypt_def NewAESBlockCrypt_def new_cfb_def sample_libs_def)
  show ?thesis
    using crypt_roundtrip [OF sample_libs_ok c, of "replicate 50 9"] c by auto
qed

text \<open>The three programs mean the same by a cipher name: a name that \<open>udptun\<close> accepts gives
  the kcptun client and server the same object under the same key, so both ends of a tunnel agree;
  a name it rejects as unknown makes both of them fall back to AES, under that name.\<close>

theorem same_choice:
  "(case NewBlockCrypt L name pass of
      Inr c \<Rightarrow> client_block L name pass = (name, Some c) \<and> server_block L name pass = (name, Some c)
    | Inl CipherError \<Rightarrow> client_block L name pass = (name, None) \<and> server_block L name pass = (name, None)
    | Inl (UnknownCrypt n) \<Rightarrow> n = name
        \<and> client_block L name pass = (''aes'', drop_error (NewBlockCrypt L ''aes'' pass))
        \<and> server_block L name pass = (''aes'', drop_error (NewBlockCrypt L ''aes'' pass)))"
proof (cases "name \<in> set crypt_names")
  case True
  from known_name [OF this, of L pass] show ?thesis
    by (auto simp: agrees_def split: sum.splits crypt_error.splits)
next
  case False
  from unknown_name [OF this, of L pass] show ?thesis by simp
qed

end
