(* ===== verification/Crc32.thy ===== *)
theory Crc32
  imports Prelude
begin

section \<open>CRC-32 (hash/crc32, ChecksumIEEE)\<close>

text \<open>
  The checksum of the packets: the reflected polynomial of IEEE 802.3, bit by bit. Besides its
  value the packets rely on what it detects: two messages of the same length that differ in
  one byte have different checksums.
\<close>

definition crc_shift :: "u32 \<Rightarrow> u32" where
  "crc_shift x = (if bit x 0 then drop_bit 1 x XOR 0xEDB88320 else drop_bit 1 x)"

definition crc_byte :: "u32 \<Rightarrow> byte \<Rightarrow> u32" where
  "crc_byte s b = (crc_shift ^^ 8) (s XOR ucast b)"

definition crc_run :: "u32 \<Rightarrow> bytes \<Rightarrow> u32" where
  "crc_run = foldl crc_byte"

definition ChecksumIEEE :: "bytes \<Rightarrow> u32" where
  "ChecksumIEEE p = NOT (crc_run (NOT 0) p)"

subsection \<open>Single-byte errors\<close>

lemma xor_cancel: "a XOR c = b XOR c \<Longrightarrow> a = (b :: 'a::len word)"
  by (metis xor.assoc xor_self_eq xor.right_neutral)

text \<open>The top bit of the polynomial is set, so a shift can be undone.\<close>

lemma crc_shift_top: "bit (crc_shift x) 31 = bit x 0"
  by (auto simp: crc_shift_def bit_simps dest: bit_imp_le_length)

lemma crc_shift_inj: "inj crc_shift"
proof (rule injI)
  fix x y
  assume eq: "crc_shift x = crc_shift y"
  then have b0: "bit x 0 = bit y 0" using crc_shift_top by metis
  then have d: "drop_bit 1 x = drop_bit 1 y"
    using eq by (auto simp: crc_shift_def dest: xor_cancel split: if_splits)
  show "x = y"
  proof (rule bit_word_eqI)
    fix n
    show "bit x n = bit y n"
    proof (cases n)
      case 0
      then show ?thesis using b0 by simp
    next
      case (Suc k)
      then show ?thesis using arg_cong [OF d, of "\<lambda>w. bit w k"] by (simp add: bit_simps)
    qed
  qed
qed

lemma crc_byte_inj_state: "crc_byte s b = crc_byte t b \<Longrightarrow> s = t"
  using inj_fn [OF crc_shift_inj, of 8] by (auto simp: crc_byte_def dest!: injD dest: xor_cancel)

lemma crc_byte_inj_byte: "crc_byte s b = crc_byte s c \<Longrightarrow> b = c"
proof -
  assume "crc_byte s b = crc_byte s c"
  then have "s XOR ucast b = s XOR ucast c"
    using inj_fn [OF crc_shift_inj, of 8] by (auto simp: crc_byte_def dest!: injD)
  then have "(ucast b :: u32) = ucast c" by (auto simp: xor.commute [of s] dest: xor_cancel)
  note eq = this
  show "b = c"
  proof (rule bit_word_eqI)
    fix n
    assume "n < LENGTH(8)"
    then show "bit b n = bit c n" using arg_cong [OF eq, of "\<lambda>w. bit w n"] by (simp add: bit_simps)
  qed
qed

lemma crc_run_inj: "crc_run s p = crc_run t p \<Longrightarrow> s = t"
  by (induction p arbitrary: s t) (auto simp: crc_run_def dest: crc_byte_inj_state)

lemma crc_run_append: "crc_run s (p @ q) = crc_run (crc_run s p) q"
  by (simp add: crc_run_def)

lemma crc_detects_byte: "b \<noteq> c \<Longrightarrow> ChecksumIEEE (p @ b # q) \<noteq> ChecksumIEEE (p @ c # q)"
proof
  assume neq: "b \<noteq> c" and eq: "ChecksumIEEE (p @ b # q) = ChecksumIEEE (p @ c # q)"
  let ?s = "crc_run (NOT 0) p"
  have "crc_run (crc_byte ?s b) q = crc_run (crc_byte ?s c) q"
    using eq by (simp add: ChecksumIEEE_def crc_run_append) (simp add: crc_run_def)
  then have "crc_byte ?s b = crc_byte ?s c" by (rule crc_run_inj)
  with neq show False using crc_byte_inj_byte by blast
qed

lemma crc_detects_update:
  assumes "i < length p" "b \<noteq> p ! i"
  shows "ChecksumIEEE (p[i := b]) \<noteq> ChecksumIEEE p"
proof -
  have "p[i := b] = take i p @ b # drop (Suc i) p" "p = take i p @ p ! i # drop (Suc i) p"
    using assms(1) by (simp_all add: upd_conv_take_nth_drop id_take_nth_drop [symmetric])
  then show ?thesis using crc_detects_byte [OF assms(2)] by metis
qed

end
