(* ===== verification/Packet.thy ===== *)
theory Packet
  imports BlockCrypt Crc32
begin

section \<open>Datagrams on the wire (udptun/packet.go)\<close>

text \<open>
  The codec of the UDP tunnel: \<open>nonce[16] | crc32[4] | flowID[4] | payload\<close>, encrypted as a
  whole. \<open>Seal\<close> writes into the buffer \<open>dst\<close>, given with its whole capacity; \<open>Open\<close> works in
  place. A panic of the cipher is \<^const>\<open>None\<close>, a returned error an \<open>Inl\<close>.
\<close>

definition nonceSize :: nat where "nonceSize = 16"
definition crcSize :: nat where "crcSize = 4"
definition flowIDSize :: nat where "flowIDSize = 4"
definition HeaderSize :: nat where "HeaderSize = nonceSize + crcSize + flowIDSize"
definition KeepAliveFlow :: u32 where "KeepAliveFlow = 0"

datatype packet_error = errShortPacket | errChecksum | errBufTooSmall | errEntropy

lemmas packet_sizes = HeaderSize_def nonceSize_def crcSize_def flowIDSize_def

subsection \<open>Socket options\<close>

text \<open>
  The options the transport is asked to set, in order. Which of them it offers is a property
  of the connection; an error is logged and ignored.
\<close>

record transport_caps =
  has_SetReadBuffer :: bool
  has_SetWriteBuffer :: bool
  has_SetDSCP :: bool
  is_net_Conn :: bool

datatype sockopt = SetReadBuffer int | SetWriteBuffer int | SetDSCP int | SetTOS int

definition applySockBuf :: "transport_caps \<Rightarrow> int \<Rightarrow> sockopt list" where
  "applySockBuf conn bufsize =
     (if bufsize \<le> 0 then []
      else (if has_SetReadBuffer conn then [SetReadBuffer bufsize] else [])
           @ (if has_SetWriteBuffer conn then [SetWriteBuffer bufsize] else []))"

definition applyDSCP :: "transport_caps \<Rightarrow> int \<Rightarrow> sockopt list" where
  "applyDSCP conn dscp =
     (if dscp = 0 then []
      else if has_SetDSCP conn then [SetDSCP dscp]
      else if is_net_Conn conn then [SetTOS (push_bit 2 dscp)]
      else [])"

subsection \<open>Nonces\<close>

record nonceGen =
  gen_seed :: bytes
  gen_block :: block_cipher

text \<open>The two reads of the random source, each of 16 bytes or failed; then the cipher.\<close>

definition newNonceGen :: "crypt_libs \<Rightarrow> bytes option \<Rightarrow> bytes option \<Rightarrow> packet_error + nonceGen" where
  "newNonceGen L key seed = (case key of
       None \<Rightarrow> Inl errEntropy
     | Some key \<Rightarrow> (case seed of
         None \<Rightarrow> Inl errEntropy
       | Some seed \<Rightarrow> (case aes_NewCipher L key of
           None \<Rightarrow> Inl errEntropy
         | Some b \<Rightarrow> Inr \<lparr>gen_seed = seed, gen_block = b\<rparr>)))"

definition nonce_fill :: "nonceGen \<Rightarrow> bytes \<Rightarrow> (nonceGen \<times> bytes) option" where
  "nonce_fill n dst = do {
     s \<leftarrow> block_Encrypt (gen_block n) (gen_seed n) (gen_seed n);
     Some (n\<lparr>gen_seed := s\<rparr>, go_copy dst s)
   }"

subsection \<open>Seal and Open\<close>

record Codec =
  codec_block :: BlockCrypt
  codec_nonce :: nonceGen

definition NewCodec :: "crypt_libs \<Rightarrow> BlockCrypt \<Rightarrow> bytes option \<Rightarrow> bytes option \<Rightarrow> packet_error + Codec" where
  "NewCodec L b key seed =
     map_sum id (\<lambda>n. \<lparr>codec_block = b, codec_nonce = n\<rparr>) (newNonceGen L key seed)"

definition Seal :: "crypt_libs \<Rightarrow> Codec \<Rightarrow> bytes \<Rightarrow> u32 \<Rightarrow> bytes \<Rightarrow> (Codec \<times> (packet_error + bytes)) option" where
  "Seal L c dst flowID payload =
     (let total = HeaderSize + length payload in
      if length dst < total then Some (c, Inl errBufTooSmall)
      else
        let buf = take total dst;
            buf = put_at (nonceSize + crcSize) (put_le32 flowID) buf;
            buf = put_at HeaderSize (go_copy (drop HeaderSize buf) payload) buf;
            buf = put_at nonceSize (put_le32 (ChecksumIEEE (drop (nonceSize + crcSize) buf))) buf
        in do {
          (n, head) \<leftarrow> nonce_fill (codec_nonce c) (take nonceSize buf);
          let buf = put_at 0 head buf;
          buf \<leftarrow> Encrypt L (codec_block c) True buf buf;
          Some (c\<lparr>codec_nonce := n\<rparr>, Inr buf)
        })"

definition Open :: "crypt_libs \<Rightarrow> Codec \<Rightarrow> bytes \<Rightarrow> (packet_error + (u32 \<times> bytes)) option" where
  "Open L c buf =
     (if length buf < HeaderSize then Some (Inl errShortPacket)
      else do {
        buf \<leftarrow> Decrypt L (codec_block c) True buf buf;
        body \<leftarrow> sl nonceSize (length buf) buf;
        checked \<leftarrow> sl crcSize (length body) body;
        crc \<leftarrow> get_le32 body;
        if ChecksumIEEE checked \<noteq> crc then Some (Inl errChecksum)
        else do {
          flowID \<leftarrow> get_le32 checked;
          payload \<leftarrow> sl flowIDSize (length checked) checked;
          Some (Inr (flowID, payload))
        }
      })"

subsection \<open>What Seal puts on the wire\<close>

definition datagram :: "bytes \<Rightarrow> u32 \<Rightarrow> bytes \<Rightarrow> bytes" where
  "datagram nonce flowID payload =
     nonce @ put_le32 (ChecksumIEEE (put_le32 flowID @ payload)) @ put_le32 flowID @ payload"

definition nonce_ok :: "nonceGen \<Rightarrow> bool" where
  "nonce_ok n \<longleftrightarrow> cipher_ok (gen_block n) \<and> BlockSize (gen_block n) = 16 \<and> length (gen_seed n) = 16"

definition codec_ok :: "Codec \<Rightarrow> bool" where
  "codec_ok c \<longleftrightarrow> crypt_ok (codec_block c) \<and> nonce_ok (codec_nonce c)"

lemma length_datagram [simp]: "length nonce = 16 \<Longrightarrow> length (datagram nonce flowID p) = HeaderSize + length p"
  by (simp add: datagram_def packet_sizes)

lemma nonce_fill_eq:
  assumes "nonce_ok n" "length dst = 16"
  shows "\<exists>s. nonce_fill n dst = Some (n\<lparr>gen_seed := s\<rparr>, s) \<and> length s = 16 \<and> nonce_ok (n\<lparr>gen_seed := s\<rparr>)"
  using assms by (simp add: nonce_fill_def nonce_ok_def block_Encrypt_def cipher_ok_def go_copy_exact)

text \<open>The four writes of \<open>Seal\<close> fill the buffer, whatever it held.\<close>

lemma seal_layout:
  fixes buf :: bytes and flowID :: u32
  assumes "length buf = HeaderSize + length payload" "length s = 16"
  defines "b1 \<equiv> put_at (nonceSize + crcSize) (put_le32 flowID) buf"
  defines "b2 \<equiv> put_at HeaderSize (go_copy (drop HeaderSize b1) payload) b1"
  defines "b3 \<equiv> put_at nonceSize (put_le32 (ChecksumIEEE (drop (nonceSize + crcSize) b2))) b2"
  shows "put_at 0 s b3 = datagram s flowID payload" "length (take nonceSize b3) = 16"
proof -
  have b1: "b1 = take 20 buf @ put_le32 flowID @ drop 24 buf"
    by (simp add: b1_def put_at_def packet_sizes)
  have l1: "length b1 = HeaderSize + length payload"
    using assms(1) by (simp add: b1 packet_sizes)
  have "go_copy (drop HeaderSize b1) payload = payload"
    using l1 by (intro go_copy_exact) simp
  then have b2: "b2 = take 20 buf @ put_le32 flowID @ payload"
    using assms(1) l1 unfolding b2_def by (simp add: put_at_def b1 packet_sizes)
  have d2: "drop (nonceSize + crcSize) b2 = put_le32 flowID @ payload"
    using assms(1) by (simp add: b2 packet_sizes)
  have b3: "b3 = take 16 buf @ put_le32 (ChecksumIEEE (put_le32 flowID @ payload)) @ put_le32 flowID @ payload"
    using assms(1) unfolding b3_def d2 by (simp add: b2 put_at_def packet_sizes)
  show "put_at 0 s b3 = datagram s flowID payload"
    using assms(1,2) by (simp add: b3 put_at_def datagram_def packet_sizes)
  show "length (take nonceSize b3) = 16"
    using assms(1) by (simp add: b3 packet_sizes)
qed

lemma Seal_eq:
  assumes L: "libs_ok L" and c: "codec_ok c" and room: "HeaderSize + length payload \<le> length dst"
  shows "\<exists>c' nonce pkt. Seal L c dst flowID payload = Some (c', Inr pkt) \<and> length nonce = 16
    \<and> enc_here L (codec_block c) (datagram nonce flowID payload) = Some pkt
    \<and> length pkt = HeaderSize + length payload
    \<and> codec_ok c' \<and> codec_block c' = codec_block c"
proof -
  let ?total = "HeaderSize + length payload"
  have len: "length (take ?total dst) = ?total" using room by simp
  define b where "b = put_at nonceSize (put_le32 (ChecksumIEEE (drop (nonceSize + crcSize)
      (put_at HeaderSize (go_copy (drop HeaderSize (put_at (nonceSize + crcSize) (put_le32 flowID) (take ?total dst))) payload)
        (put_at (nonceSize + crcSize) (put_le32 flowID) (take ?total dst))))))
      (put_at HeaderSize (go_copy (drop HeaderSize (put_at (nonceSize + crcSize) (put_le32 flowID) (take ?total dst))) payload)
        (put_at (nonceSize + crcSize) (put_le32 flowID) (take ?total dst)))"
  have n: "nonce_ok (codec_nonce c)" using c by (simp add: codec_ok_def)
  have l16: "length (take nonceSize b) = 16"
    unfolding b_def by (rule seal_layout(2) [OF len, of "replicate 16 0"]) simp
  from nonce_fill_eq [OF n l16] obtain s where s:
    "nonce_fill (codec_nonce c) (take nonceSize b) = Some ((codec_nonce c)\<lparr>gen_seed := s\<rparr>, s)"
    "length s = 16" "nonce_ok ((codec_nonce c)\<lparr>gen_seed := s\<rparr>)" by blast
  have d: "put_at 0 s b = datagram s flowID payload"
    unfolding b_def by (rule seal_layout(1) [OF len s(2)])
  have "8 \<le> length (datagram s flowID payload)" using s(2) by (simp add: packet_sizes)
  with crypt_in_place [OF L, of "codec_block c"] c obtain pkt
    where pkt: "Encrypt L (codec_block c) True (datagram s flowID payload) (datagram s flowID payload) = Some pkt"
      "length pkt = length (datagram s flowID payload)"
    by (auto simp: codec_ok_def)
  have "Seal L c dst flowID payload = Some (c\<lparr>codec_nonce := (codec_nonce c)\<lparr>gen_seed := s\<rparr>\<rparr>, Inr pkt)"
    using room s(1) pkt(1) d by (simp add: Seal_def Let_def b_def [symmetric])
  then show ?thesis
    using pkt s c by (auto simp: codec_ok_def enc_here_def)
qed

subsection \<open>What Open makes of a datagram\<close>

definition opened :: "bytes \<Rightarrow> packet_error + (u32 \<times> bytes)" where
  "opened p =
     (if Some (ChecksumIEEE (drop 20 p)) \<noteq> get_le32 (drop 16 p) then Inl errChecksum
      else Inr (the (get_le32 (drop 20 p)), drop 24 p))"

lemma get_le32_some: "4 \<le> length b \<Longrightarrow> \<exists>w. get_le32 b = Some w"
  using get_le32_None [of b] by (cases "get_le32 b") auto

lemma Open_eq:
  assumes "libs_ok L" "crypt_ok (codec_block c)" "HeaderSize \<le> length buf"
  shows "\<exists>p. dec_here L (codec_block c) buf = Some p \<and> length p = length buf \<and> Open L c buf = Some (opened p)"
proof -
  have l24: "24 \<le> length buf" using assms(3) by (simp add: packet_sizes)
  then obtain p where p: "Decrypt L (codec_block c) True buf buf = Some p" "length p = length buf"
    using Decrypt_total [OF assms(1,2), of buf] by auto
  have room: "4 \<le> length (drop 16 p)" "4 \<le> length (drop 20 p)" using p(2) l24 by simp_all
  obtain crc where crc: "get_le32 (drop 16 p) = Some crc" using get_le32_some [OF room(1)] by blast
  obtain flow where flow: "get_le32 (drop 20 p) = Some flow" using get_le32_some [OF room(2)] by blast
  have "Open L c buf = Some (opened p)"
    using p l24 room crc flow assms(3) by (simp add: Open_def sl_def packet_sizes opened_def)
  with p show ?thesis by (simp add: dec_here_def)
qed

lemma opened_datagram [simp]: "length nonce = 16 \<Longrightarrow> opened (datagram nonce flowID payload) = Inr (flowID, payload)"
  by (simp add: opened_def datagram_def)

text \<open>The interface of the tunnel ends: what one codec seals, any codec of the same cipher opens.\<close>

lemma seal_open:
  assumes "libs_ok L" "codec_ok c" "HeaderSize + length payload \<le> length dst" "codec_block c2 = codec_block c"
  shows "\<exists>c' pkt. Seal L c dst flowID payload = Some (c', Inr pkt) \<and> length pkt = HeaderSize + length payload
    \<and> codec_ok c' \<and> codec_block c' = codec_block c \<and> Open L c2 pkt = Some (Inr (flowID, payload))"
proof -
  from Seal_eq [OF assms(1-3), of flowID] obtain c' nonce pkt where s:
    "Seal L c dst flowID payload = Some (c', Inr pkt)" "length nonce = 16"
    "enc_here L (codec_block c) (datagram nonce flowID payload) = Some pkt"
    "length pkt = HeaderSize + length payload" "codec_ok c'" "codec_block c' = codec_block c" by blast
  have c: "crypt_ok (codec_block c)" using assms(2) by (simp add: codec_ok_def)
  have "8 \<le> length (datagram nonce flowID payload)" using s(2) by (simp add: packet_sizes)
  then have d: "dec_here L (codec_block c) pkt = Some (datagram nonce flowID payload)"
    using bc.dec_enc s(3) assms(1) c by blast
  have "HeaderSize \<le> length pkt" using s(4) by simp
  from Open_eq [OF assms(1) _ this, of c2] c d assms(4) s(2) have "Open L c2 pkt = Some (Inr (flowID, payload))"
    by auto
  with s show ?thesis by blast
qed

subsection \<open>Corruption\<close>

text \<open>A word is determined by its four bytes, so changing one of them changes the word.\<close>

lemma put_get_le32:
  fixes b :: bytes
  assumes "length b = 4" "get_le32 b = Some w"
  shows "put_le32 w = b"
proof -
  obtain x0 x1 x2 x3 where b: "b = [x0, x1, x2, x3]"
    using assms(1) by (auto simp: length_Suc_conv eval_nat_numeral)
  have w: "w = ucast x0 OR push_bit 8 (ucast x1) OR push_bit 16 (ucast x2) OR push_bit 24 (ucast x3)"
    using assms(2) by (simp add: b)
  have "ucast w = x0" "ucast (drop_bit 8 w) = x1" "ucast (drop_bit 16 w) = x2" "ucast (drop_bit 24 w) = x3"
    unfolding w by (rule bit_word_eqI; auto simp: bit_simps dest: bit_imp_le_length)+
  then show ?thesis by (simp add: put_le32_def b)
qed

lemma get_le32_update:
  assumes "i < 4" "4 \<le> length b" "x \<noteq> b ! i"
  shows "get_le32 (b[i := x]) \<noteq> get_le32 b"
proof
  assume eq: "get_le32 (b[i := x]) = get_le32 b"
  have t: "get_le32 (take 4 l) = get_le32 l" if "4 \<le> length l" for l
    using that get_put_le32 [of _ "drop 4 l"] by (cases l rule: get_le32.cases) auto
  obtain w where w: "get_le32 (take 4 b) = Some w" using get_le32_some [of "take 4 b"] assms(2) by auto
  then have w': "get_le32 ((take 4 b)[i := x]) = Some w"
    using eq t [of b] t [of "b[i := x]"] assms(2) by (simp add: take_update_swap)
  have "(take 4 b)[i := x] = take 4 b"
    using put_get_le32 [OF _ w] put_get_le32 [OF _ w'] assms(2) by simp
  then have "(take 4 b)[i := x] ! i = take 4 b ! i" by simp
  with assms show False by simp
qed

lemma opened_corrupted:
  assumes "length nonce = 16" "16 \<le> i" "i < length (datagram nonce flowID payload)"
    "x \<noteq> datagram nonce flowID payload ! i"
  shows "opened ((datagram nonce flowID payload)[i := x]) = Inl errChecksum"
proof -
  let ?d = "datagram nonce flowID payload"
  have ok: "get_le32 (drop 16 ?d) = Some (ChecksumIEEE (drop 20 ?d))"
    using assms(1) by (simp add: datagram_def)
  show ?thesis
  proof (cases "i < 20")
    case True
    then have "drop 20 (?d[i := x]) = drop 20 ?d" by simp
    moreover have "get_le32 ((drop 16 ?d)[i - 16 := x]) \<noteq> get_le32 (drop 16 ?d)"
      using True assms by (intro get_le32_update) (auto simp: packet_sizes)
    moreover have "drop 16 (?d[i := x]) = (drop 16 ?d)[i - 16 := x]"
      using assms(2) by (simp add: drop_update_swap)
    ultimately show ?thesis using ok by (simp add: opened_def)
  next
    case False
    have "ChecksumIEEE ((drop 20 ?d)[i - 20 := x]) \<noteq> ChecksumIEEE (drop 20 ?d)"
      using False assms by (intro crc_detects_update) auto
    moreover have "drop 20 (?d[i := x]) = (drop 20 ?d)[i - 20 := x]"
      using False by (simp add: drop_update_swap)
    moreover have "get_le32 (drop 16 (?d[i := x])) = get_le32 (drop 16 ?d)"
    proof -
      have "drop 16 (?d[i := x]) = (drop 16 ?d)[i - 16 := x]" using assms(2) by (simp add: drop_update_swap)
      moreover have "get_le32 (l[k := x]) = get_le32 l" if "4 \<le> k" for l and k
        using that by (cases l rule: get_le32.cases) (auto simp: list_update.simps split: nat.splits)
      ultimately show ?thesis using False by simp
    qed
    ultimately show ?thesis using ok by (simp add: opened_def)
  qed
qed

lemma stream_corrupted:
  assumes L: "libs_ok L" and c: "is_stream (codec_block c)"
    and p: "dec_here L (codec_block c) pkt = Some p" and i: "8 \<le> i" "i < length pkt" "x \<noteq> pkt ! i"
    and len: "HeaderSize \<le> length pkt"
  shows "\<exists>y. y \<noteq> p ! i \<and> length p = length pkt \<and> Open L c (pkt[i := x]) = Some (opened (p[i := y]))"
proof -
  have "8 \<le> length pkt" using i by simp
  from stream_mask [OF L c this] obtain m where m: "length m = length pkt"
    "\<And>q. length q = length pkt \<Longrightarrow> take 8 q = take 8 pkt \<Longrightarrow>
      Decrypt L (codec_block c) True q q = Some (map2 (XOR) q m)" by blast
  have pm: "p = map2 (XOR) pkt m" using m(2) [of pkt] p by (simp add: dec_here_def)
  have cok: "crypt_ok (codec_block c)" using c by (cases "codec_block c") auto
  let ?y = "x XOR m ! i"
  have "map2 (XOR) (pkt[i := x]) m = p[i := ?y]"
    unfolding pm using i m(1) by (intro nth_equalityI) (auto simp: nth_list_update)
  moreover have "Decrypt L (codec_block c) True (pkt[i := x]) (pkt[i := x]) = Some (map2 (XOR) (pkt[i := x]) m)"
    using i(1) by (intro m(2)) simp_all
  moreover have "?y \<noteq> p ! i"
    using i m(1) xor_cancel [of x "m ! i" "pkt ! i"] unfolding pm by auto
  ultimately show ?thesis
    using Open_eq [OF L cok, of "pkt[i := x]"] len pm m(1) by (auto simp: dec_here_def)
qed

subsection \<open>What the tunnel relies on\<close>

definition sample_codec :: "BlockCrypt \<Rightarrow> Codec" where
  "sample_codec b = \<lparr>codec_block = b, codec_nonce = \<lparr>gen_seed = replicate 16 1, gen_block = sample_cipher 16\<rparr>\<rparr>"

lemma sample_codec_ok: "crypt_ok b \<Longrightarrow> codec_ok (sample_codec b)" "codec_block (sample_codec b) = b"
  using sample_ok(2) [of 16] by (simp_all add: codec_ok_def sample_codec_def nonce_ok_def sample_ok(3))

text \<open>C24. What one end of the UDP tunnel seals, the other end opens: with room in the destination
  \<open>Seal\<close> succeeds for every flow and payload, adds exactly the header, keeps its own codec in
  order, and \<open>Open\<close> by any codec with the same cipher returns the flow and the payload, whatever
  the destination buffer held before and whatever the two nonce generators do.\<close>

theorem codec_roundtrip:
  assumes "libs_ok L" "codec_ok c" "HeaderSize + length payload \<le> length dst" "codec_block peer = codec_block c"
  shows "\<exists>c' pkt. Seal L c dst flowID payload = Some (c', Inr pkt) \<and> length pkt = HeaderSize + length payload
    \<and> codec_ok c' \<and> codec_block c' = codec_block c \<and> Open L peer pkt = Some (Inr (flowID, payload))"
  by (rule seal_open [OF assms])

theorem codec_roundtrip_witness:
  "\<exists>c' pkt. Seal sample_libs (sample_codec (simpleXORBlockCrypt [1, 2, 3])) (replicate 1350 0) 7 [104, 105] = Some (c', Inr pkt)
     \<and> length pkt = 26 \<and> Open sample_libs c' pkt = Some (Inr (7, [104, 105]))"
proof -
  let ?c = "sample_codec (simpleXORBlockCrypt [1, 2, 3])"
  have ok: "codec_ok ?c" by (simp add: sample_codec_ok)
  from codec_roundtrip [OF sample_libs_ok(1) ok, of "[104, 105]" "replicate 1350 0" ?c 7]
  obtain c' pkt where s: "Seal sample_libs ?c (replicate 1350 0) 7 [104, 105] = Some (c', Inr pkt)"
    "length pkt = 26" "codec_block c' = codec_block ?c"
    by (auto simp: packet_sizes)
  from codec_roundtrip [OF sample_libs_ok(1) ok _ s(3), of "[104, 105]" "replicate 1350 0" 7] s
  show ?thesis by (auto simp: packet_sizes)
qed

text \<open>\<open>Open\<close> is safe on anything the network delivers: it never panics, a datagram shorter than
  the header is refused as short and nothing else is, and a datagram it accepts yields a payload
  of exactly the bytes behind the header.\<close>

theorem Open_safe:
  assumes "libs_ok L" "crypt_ok (codec_block c)"
  shows "\<exists>r. Open L c buf = Some r \<and> (r = Inl errShortPacket \<longleftrightarrow> length buf < HeaderSize)
    \<and> (case r of Inl e \<Rightarrow> e = errShortPacket \<or> e = errChecksum
       | Inr (flowID, payload) \<Rightarrow> HeaderSize + length payload = length buf)"
proof (cases "length buf < HeaderSize")
  case True
  then show ?thesis by (simp add: Open_def)
next
  case False
  then obtain p where "length p = length buf" "Open L c buf = Some (opened p)"
    using Open_eq [OF assms, of buf] by auto
  with False show ?thesis by (auto simp: opened_def packet_sizes)
qed

theorem Open_safe_witness:
  "\<exists>r. Open sample_libs (sample_codec (salsa20BlockCrypt [])) (replicate 40 3) = Some r
     \<and> r \<noteq> Inl errShortPacket"
proof -
  let ?c = "sample_codec (salsa20BlockCrypt [])"
  have "crypt_ok (codec_block ?c)" by (simp add: sample_codec_def)
  from Open_safe [OF sample_libs_ok(1) this, of "replicate 40 3"] show ?thesis
    by (auto simp: packet_sizes)
qed

text \<open>C25. Under a stream cipher (Salsa20, the XOR table, none) a corrupted datagram is not
  delivered: if any one byte of a sealed datagram behind the nonce is changed, be it in the
  checksum, the flow id or the payload, \<open>Open\<close> reports a checksum mismatch.\<close>

theorem Open_detects_corruption:
  assumes "libs_ok L" "codec_ok c" "is_stream (codec_block c)" "codec_block peer = codec_block c"
    "Seal L c dst flowID payload = Some (c', Inr pkt)"
    "nonceSize \<le> i" "i < length pkt" "x \<noteq> pkt ! i"
  shows "Open L peer (pkt[i := x]) = Some (Inl errChecksum)"
proof -
  have "HeaderSize + length payload \<le> length dst"
    using assms(5) by (auto simp: Seal_def Let_def split: if_splits)
  from Seal_eq [OF assms(1,2) this, of flowID] assms(5) obtain nonce where
    s: "length nonce = 16" "enc_here L (codec_block c) (datagram nonce flowID payload) = Some pkt"
      "length pkt = HeaderSize + length payload" by auto
  have cok: "crypt_ok (codec_block c)" using assms(2) by (simp add: codec_ok_def)
  have "8 \<le> length (datagram nonce flowID payload)" using s(1) by (simp add: packet_sizes)
  then have d: "dec_here L (codec_block peer) pkt = Some (datagram nonce flowID payload)"
    using bc.dec_enc s(2) assms(1,4) cok by metis
  have i: "16 \<le> i" "8 \<le> i" using assms(6) by (simp_all add: packet_sizes)
  have len: "HeaderSize \<le> length pkt" using s(3) by simp
  from stream_corrupted [OF assms(1) _ d i(2) assms(7,8) len] assms(3,4) obtain y
    where y: "y \<noteq> datagram nonce flowID payload ! i"
      "Open L peer (pkt[i := x]) = Some (opened ((datagram nonce flowID payload)[i := y]))" by auto
  have "i < length (datagram nonce flowID payload)" using assms(7) s(1,3) by simp
  from opened_corrupted [OF s(1) i(1) this y(1)] y(2) show ?thesis by simp
qed

theorem Open_detects_corruption_witness:
  "\<exists>c' pkt. Seal sample_libs (sample_codec noneBlockCrypt) (replicate 1350 0) 7 [104, 105] = Some (c', Inr pkt)
     \<and> Open sample_libs (sample_codec noneBlockCrypt) (pkt[25 := pkt ! 25 + 1]) = Some (Inl errChecksum)"
proof -
  let ?c = "sample_codec noneBlockCrypt"
  have ok: "codec_ok ?c" by (simp add: sample_codec_ok)
  from Seal_eq [OF sample_libs_ok(1) ok, of "[104, 105]" "replicate 1350 0" 7] obtain c' pkt
    where s: "Seal sample_libs ?c (replicate 1350 0) 7 [104, 105] = Some (c', Inr pkt)" "length pkt = 26"
    by (auto simp: packet_sizes)
  have "Open sample_libs ?c (pkt[25 := pkt ! 25 + 1]) = Some (Inl errChecksum)"
    by (rule Open_detects_corruption [OF sample_libs_ok(1) ok _ refl s(1)])
      (simp_all add: sample_codec_def packet_sizes s(2))
  with s(1) show ?thesis by blast
qed

end
