(* ===== verification/TunClient.thy ===== *)
theory TunClient
  imports Packet "HOL-Library.AList"
begin

section \<open>The client end of the UDP tunnel (udptun/client.go)\<close>

text \<open>
  The state of \<open>RunClient\<close> and what each of its goroutines does with one event: a datagram on
  the local socket, one from the transport, a tick of \<open>maintain\<close>, of the watchdog, and the
  supervisor replacing the transport. Every handler is one critical section of the code or a
  sequence of them that no other goroutine can distinguish.

  An address is represented by its \<open>String()\<close>, a time by its nanoseconds, a pointer to a
  \<open>clientFlow\<close> by its index in \<open>cl_heap\<close>: both tables hold the same pointers, so that \<open>touch\<close>
  through one is seen through the other. A Go map is an association list with distinct keys.
\<close>

type_synonym addr = string

record ClientConfig =
  cc_LocalAddr :: addr
  cc_MaxPacket :: int
  cc_SockBuf :: int
  cc_DSCP :: int
  cc_Idle :: int
  cc_KeepAlive :: int
  cc_Quiet :: bool

record clientFlow =
  cf_id :: u32
  cf_addr :: addr
  cf_lastActive :: int

text \<open>
  \<open>cl_out\<close> and \<open>cl_ping\<close> are the buffers \<open>localLoop\<close> and \<open>maintain\<close> seal into;
  \<open>cl_conn\<close> the transport and its remote address, \<open>None\<close> for nil; \<open>cl_lastPing\<close> is \<open>None\<close>
  for the zero time.
\<close>

record client =
  cl_cfg :: ClientConfig
  cl_codec :: Codec
  cl_conn :: "(nat \<times> addr) option"
  cl_lastRecv :: int
  cl_heap :: "clientFlow list"
  cl_byAddr :: "(addr \<times> nat) list"
  cl_byID :: "(u32 \<times> nat) list"
  cl_nextID :: u32
  cl_oversize :: u64
  cl_sendErr :: int
  cl_replyErr :: int
  cl_lastPing :: "int option"
  cl_out :: bytes
  cl_ping :: bytes

datatype client_effect =
    ToServer nat bytes addr
  | ToLocal bytes addr
  | CloseTransport nat
  | SetOption nat sockopt
  | Warning string

definition second :: int where
  "second = 1000000000"

subsection \<open>Flows\<close>

definition clientFlow_idle :: "int \<Rightarrow> clientFlow \<Rightarrow> int" where
  "clientFlow_idle now f = now - cf_lastActive f"

definition clientFlow_touch :: "nat \<Rightarrow> int \<Rightarrow> client \<Rightarrow> client" where
  "clientFlow_touch p now c = c\<lparr>cl_heap := (cl_heap c)[p := (cl_heap c ! p)\<lparr>cf_lastActive := now\<rparr>]\<rparr>"

text \<open>The search of \<open>flowFor\<close> for an id: not the keepalive flow, not live. It may not end.\<close>

partial_function (option) next_id :: "(u32 \<times> nat) list \<Rightarrow> u32 \<Rightarrow> u32 option" where
  "next_id byID n =
     (let n = n + 1 in
      if n \<noteq> KeepAliveFlow \<and> map_of byID n = None then Some n else next_id byID n)"

definition client_flowFor :: "addr \<Rightarrow> int \<Rightarrow> client \<Rightarrow> (nat \<times> client) option" where
  "client_flowFor a now c = (case map_of (cl_byAddr c) a of
     Some p \<Rightarrow> Some (p, c)
   | None \<Rightarrow> do {
       i \<leftarrow> next_id (cl_byID c) (cl_nextID c);
       let p = length (cl_heap c);
       let f = \<lparr>cf_id = i, cf_addr = a, cf_lastActive = now\<rparr>;
       Some (p, c\<lparr>cl_nextID := i, cl_heap := cl_heap c @ [f],
                  cl_byAddr := AList.update a p (cl_byAddr c),
                  cl_byID := AList.update i p (cl_byID c)\<rparr>)
     })"

definition client_lookup :: "u32 \<Rightarrow> client \<Rightarrow> nat option" where
  "client_lookup i c = map_of (cl_byID c) i"

text \<open>\<open>warn\<close>: at most one line a second; the new time of the last one, and whether it is logged.\<close>

definition client_warn :: "int \<Rightarrow> int \<Rightarrow> int \<times> bool" where
  "client_warn now prev = (if now - prev < second then (prev, False) else (now, True))"

definition warning :: "bool \<Rightarrow> string \<Rightarrow> client_effect list" where
  "warning b s = (if b then [Warning s] else [])"

subsection \<open>The loops\<close>

text \<open>
  One round of \<open>localLoop\<close>: \<open>sent\<close> says whether \<open>WriteTo\<close> succeeded; the first oversize
  datagram is logged. A reap that falls between finding the flow and sending comes after the round here.
\<close>

definition client_local ::
  "crypt_libs \<Rightarrow> addr \<Rightarrow> bytes \<Rightarrow> int \<Rightarrow> bool \<Rightarrow> client \<Rightarrow> (client \<times> client_effect list) option" where
  "client_local L a data now sent c =
     (if int (HeaderSize + length data) > cc_MaxPacket (cl_cfg c) then
        let n = cl_oversize c + 1
        in Some (c\<lparr>cl_oversize := n\<rparr>, warning (n = 1) ''dropping datagram'')
      else do {
        (p, c) \<leftarrow> client_flowFor a now c;
        let c = clientFlow_touch p now c;
        (codec, r) \<leftarrow> Seal L (cl_codec c) (cl_out c) (cf_id (cl_heap c ! p)) data;
        let c = c\<lparr>cl_codec := codec\<rparr>;
        case r of
          Inl _ \<Rightarrow> Some (c, [])
        | Inr pkt \<Rightarrow>
            let c = c\<lparr>cl_out := put_at 0 pkt (cl_out c)\<rparr> in
            (case cl_conn c of
               None \<Rightarrow> Some (c, [])
             | Some (conn, remote) \<Rightarrow>
                 if sent then Some (c, [ToServer conn pkt remote])
                 else let (t, logged) = client_warn now (cl_sendErr c)
                      in Some (c\<lparr>cl_sendErr := t\<rparr>, warning logged ''transport write failed''))
      })"

text \<open>One round of \<open>transportLoop\<close>: \<open>sent\<close> for the write to the local socket.\<close>

definition client_transport ::
  "crypt_libs \<Rightarrow> bytes \<Rightarrow> int \<Rightarrow> bool \<Rightarrow> client \<Rightarrow> (client \<times> client_effect list) option" where
  "client_transport L buf now sent c = do {
     let c = c\<lparr>cl_lastRecv := now\<rparr>;
     r \<leftarrow> Open L (cl_codec c) buf;
     case r of
       Inl _ \<Rightarrow> Some (c, [])
     | Inr (flowID, payload) \<Rightarrow>
         if flowID = KeepAliveFlow then Some (c, [])
         else (case client_lookup flowID c of
             None \<Rightarrow> Some (c, [])
           | Some p \<Rightarrow>
               let c = clientFlow_touch p now c in
               if sent then Some (c, [ToLocal payload (cf_addr (cl_heap c ! p))])
               else let (t, logged) = client_warn now (cl_replyErr c)
                    in Some (c\<lparr>cl_replyErr := t\<rparr>, warning logged ''reply failed''))
   }"

text \<open>
  \<open>maintain\<close>: idle flows are forgotten, \<open>at\<close> giving the time at which a flow is looked at, in
  the order of the table; then a keepalive is sent when it is due.
\<close>

definition reap_flow :: "(addr \<Rightarrow> int) \<Rightarrow> addr \<times> nat \<Rightarrow> client \<Rightarrow> client" where
  "reap_flow at = (\<lambda>(key, p) c.
     let f = cl_heap c ! p in
     if clientFlow_idle (at key) f > cc_Idle (cl_cfg c) * second
     then c\<lparr>cl_byAddr := AList.delete key (cl_byAddr c), cl_byID := AList.delete (cf_id f) (cl_byID c)\<rparr>
     else c)"

definition client_reap :: "(addr \<Rightarrow> int) \<Rightarrow> client \<Rightarrow> client" where
  "client_reap at c = fold (reap_flow at) (cl_byAddr c) c"

definition ping_due :: "int \<Rightarrow> client \<Rightarrow> bool" where
  "ping_due now c \<longleftrightarrow> 0 < cc_KeepAlive (cl_cfg c) \<and> (case cl_lastPing c of
       None \<Rightarrow> True
     | Some t \<Rightarrow> cc_KeepAlive (cl_cfg c) * second \<le> now - t)"

definition client_ping :: "crypt_libs \<Rightarrow> int \<Rightarrow> client \<Rightarrow> (client \<times> client_effect list) option" where
  "client_ping L now c =
     (if \<not> ping_due now c then Some (c, [])
      else do {
        let c = c\<lparr>cl_lastPing := Some now\<rparr>;
        (codec, r) \<leftarrow> Seal L (cl_codec c) (cl_ping c) KeepAliveFlow [];
        let c = c\<lparr>cl_codec := codec\<rparr>;
        case r of
          Inl _ \<Rightarrow> Some (c, [])
        | Inr pkt \<Rightarrow>
            let c = c\<lparr>cl_ping := put_at 0 pkt (cl_ping c)\<rparr> in
            Some (c, case cl_conn c of None \<Rightarrow> [] | Some (conn, remote) \<Rightarrow> [ToServer conn pkt remote])
      })"

definition client_maintain ::
  "crypt_libs \<Rightarrow> (addr \<Rightarrow> int) \<Rightarrow> int \<Rightarrow> client \<Rightarrow> (client \<times> client_effect list) option" where
  "client_maintain L at now c = client_ping L now (client_reap at c)"

text \<open>\<open>supervise\<close>: a transport dialed and put in place, and one that was lost.\<close>

definition client_dialed :: "transport_caps \<Rightarrow> nat \<Rightarrow> addr \<Rightarrow> int \<Rightarrow> client \<Rightarrow> client \<times> client_effect list" where
  "client_dialed caps conn remote now c =
     (c\<lparr>cl_conn := Some (conn, remote), cl_lastRecv := now\<rparr>,
      map (SetOption conn) (applySockBuf caps (cc_SockBuf (cl_cfg c)) @ applyDSCP caps (cc_DSCP (cl_cfg c))))"

definition client_lost :: "nat \<Rightarrow> client \<Rightarrow> client \<times> client_effect list" where
  "client_lost conn c = (c\<lparr>cl_conn := None\<rparr>, [CloseTransport conn])"

text \<open>A tick of the watchdog of \<open>conn\<close>; the flag says whether it goes on watching.\<close>

definition client_watchdog :: "nat \<Rightarrow> int \<Rightarrow> client \<Rightarrow> bool \<times> client_effect list" where
  "client_watchdog conn now c =
     (if cc_KeepAlive (cl_cfg c) \<le> 0 then (False, [])
      else if map_option fst (cl_conn c) \<noteq> Some conn then (False, [])
      else if now - cl_lastRecv c > 3 * cc_KeepAlive (cl_cfg c) * second then (False, [CloseTransport conn])
      else (True, []))"

text \<open>
  The state \<open>RunClient\<close> starts with once the local address is resolved and its socket open; the buffer for a
  negative \<open>MaxPacket\<close> cannot be made.
\<close>

definition RunClient :: "crypt_libs \<Rightarrow> ClientConfig \<Rightarrow> BlockCrypt \<Rightarrow> bytes option \<Rightarrow> bytes option \<Rightarrow>
    (packet_error + client) option" where
  "RunClient L cfg b key seed = (case NewCodec L b key seed of
     Inl e \<Rightarrow> Some (Inl e)
   | Inr codec \<Rightarrow>
       if cc_MaxPacket cfg < 0 then None
       else Some (Inr \<lparr>cl_cfg = cfg, cl_codec = codec, cl_conn = None, cl_lastRecv = 0, cl_heap = [],
         cl_byAddr = [], cl_byID = [], cl_nextID = 0, cl_oversize = 0, cl_sendErr = 0, cl_replyErr = 0,
         cl_lastPing = None, cl_out = replicate (nat (cc_MaxPacket cfg)) 0,
         cl_ping = replicate HeaderSize 0\<rparr>))"

subsection \<open>Events\<close>

datatype client_event =
    Local addr bytes int bool
  | FromTransport bytes int bool
  | Maintain "addr \<Rightarrow> int" int
  | Dialed transport_caps nat addr int
  | Lost nat
  | Watch nat int

fun client_do :: "crypt_libs \<Rightarrow> client_event \<Rightarrow> client \<Rightarrow> (client \<times> client_effect list) option" where
  "client_do L (Local a data now sent) c = client_local L a data now sent c"
| "client_do L (FromTransport buf now sent) c = client_transport L buf now sent c"
| "client_do L (Maintain at now) c = client_maintain L at now c"
| "client_do L (Dialed caps conn remote now) c = Some (client_dialed caps conn remote now c)"
| "client_do L (Lost conn) c = Some (client_lost conn c)"
| "client_do L (Watch conn now) c = Some (c, snd (client_watchdog conn now c))"

end
