(* ===== verification/TunServer.thy ===== *)
theory TunServer
  imports TunClient
begin

section \<open>The server end of the UDP tunnel (udptun/server.go)\<close>

text \<open>
  The state of \<open>RunServer\<close> and its goroutines: the receive loop, one \<open>pump\<close> per flow and
  \<open>reap\<close>. As for the client, a pointer to a \<open>serverFlow\<close> is its index in \<open>sv_heap\<close>, and an
  address its \<open>String()\<close>. A socket toward the target is a number; \<open>sf_out\<close> is the buffer the
  flow's pump seals into.
\<close>

record ServerConfig =
  sc_Target :: addr
  sc_MaxPacket :: int
  sc_SockBuf :: int
  sc_DSCP :: int
  sc_Idle :: int
  sc_Quiet :: bool

record serverFlow =
  sf_conn :: nat
  sf_client :: addr
  sf_id :: u32
  sf_key :: string
  sf_lastActive :: int
  sf_out :: bytes

record server =
  sv_cfg :: ServerConfig
  sv_codec :: Codec
  sv_heap :: "serverFlow list"
  sv_flows :: "(string \<times> nat) list"
  sv_out :: bytes

datatype server_effect =
    ToClient bytes addr
  | ToTarget nat bytes
  | CloseConn nat

subsection \<open>Keys\<close>

text \<open>\<open>strconv.FormatUint(id, 10)\<close>.\<close>

fun format_uint :: "nat \<Rightarrow> string" where
  "format_uint n = (if n < 10 then [char_of (48 + n)] else format_uint (n div 10) @ [char_of (48 + n mod 10)])"

declare format_uint.simps [simp del]

definition flowKey :: "addr \<Rightarrow> u32 \<Rightarrow> string" where
  "flowKey a i = a @ ''|'' @ format_uint (unat i)"

subsection \<open>Flows\<close>

definition serverFlow_idle :: "int \<Rightarrow> serverFlow \<Rightarrow> int" where
  "serverFlow_idle now f = now - sf_lastActive f"

definition serverFlow_touch :: "nat \<Rightarrow> int \<Rightarrow> server \<Rightarrow> server" where
  "serverFlow_touch p now s = s\<lparr>sv_heap := (sv_heap s)[p := (sv_heap s ! p)\<lparr>sf_lastActive := now\<rparr>]\<rparr>"

text \<open>
  \<open>flowFor\<close> dials between its two critical sections, so it looks the key up again before it
  inserts; the loser of a race closes its socket and uses the winner's flow.
\<close>

definition server_commit :: "addr \<Rightarrow> u32 \<Rightarrow> nat \<Rightarrow> int \<Rightarrow> server \<Rightarrow> nat \<times> server \<times> server_effect list" where
  "server_commit a i conn now s =
     (let key = flowKey a i in
      case map_of (sv_flows s) key of
        Some existing \<Rightarrow> (existing, s, [CloseConn conn])
      | None \<Rightarrow>
          let p = length (sv_heap s);
              f = \<lparr>sf_conn = conn, sf_client = a, sf_id = i, sf_key = key, sf_lastActive = now,
                   sf_out = replicate (nat (sc_MaxPacket (sv_cfg s))) 0\<rparr>
          in (p, s\<lparr>sv_heap := sv_heap s @ [f], sv_flows := AList.update key p (sv_flows s)\<rparr>, []))"

definition server_flowFor ::
  "addr \<Rightarrow> u32 \<Rightarrow> nat option \<Rightarrow> int \<Rightarrow> server \<Rightarrow> (nat \<times> server \<times> server_effect list) option" where
  "server_flowFor a i dialed now s = (case map_of (sv_flows s) (flowKey a i) of
     Some p \<Rightarrow> Some (p, s, [])
   | None \<Rightarrow> (case dialed of
       None \<Rightarrow> None
     | Some conn \<Rightarrow> Some (server_commit a i conn now s)))"

definition server_closeFlow :: "nat \<Rightarrow> server \<Rightarrow> server \<times> server_effect list" where
  "server_closeFlow p s =
     (let f = sv_heap s ! p in
      if map_of (sv_flows s) (sf_key f) = Some p
      then (s\<lparr>sv_flows := AList.delete (sf_key f) (sv_flows s)\<rparr>, [CloseConn (sf_conn f)])
      else (s, []))"

subsection \<open>The loops\<close>

text \<open>
  One round of the receive loop of \<open>RunServer\<close>: \<open>dialed\<close> is the outcome of \<open>DialUDP\<close> if it is
  called, \<open>written\<close> that of the write to the target. The buffer has room for a keepalive only. With
  a negative \<open>MaxPacket\<close> the pump started for the first flow panics making its buffer.
\<close>

definition server_recv :: "crypt_libs \<Rightarrow> addr \<Rightarrow> bytes \<Rightarrow> nat option \<Rightarrow> int \<Rightarrow> bool \<Rightarrow> server \<Rightarrow>
    (server \<times> server_effect list) option" where
  "server_recv L from_addr buf dialed now written s = do {
     r \<leftarrow> Open L (sv_codec s) buf;
     case r of
       Inl _ \<Rightarrow> Some (s, [])
     | Inr (flowID, payload) \<Rightarrow>
         if flowID = KeepAliveFlow then do {
           (codec, k) \<leftarrow> Seal L (sv_codec s) (sv_out s) KeepAliveFlow [];
           let s = s\<lparr>sv_codec := codec\<rparr>;
           case k of
             Inl _ \<Rightarrow> Some (s, [])
           | Inr pkt \<Rightarrow> Some (s\<lparr>sv_out := put_at 0 pkt (sv_out s)\<rparr>, [ToClient pkt from_addr])
         }
         else (case server_flowFor from_addr flowID dialed now s of
             None \<Rightarrow> Some (s, [])
           | Some (p, s, es) \<Rightarrow>
               let s = serverFlow_touch p now s in
               if sc_MaxPacket (sv_cfg s) < 0 then None
               else if written then Some (s, es @ [ToTarget (sf_conn (sv_heap s ! p)) payload])
               else let (s, es') = server_closeFlow p s in Some (s, es @ es'))
   }"

text \<open>One round of a flow's \<open>pump\<close>: a datagram read from the target, or \<^const>\<open>None\<close> on an error.\<close>

definition server_pump ::
  "crypt_libs \<Rightarrow> nat \<Rightarrow> bytes option \<Rightarrow> int \<Rightarrow> bool \<Rightarrow> server \<Rightarrow> (server \<times> server_effect list) option" where
  "server_pump L p received now sent s = (case received of
     None \<Rightarrow> Some (server_closeFlow p s)
   | Some data \<Rightarrow>
       if int (HeaderSize + length data) > sc_MaxPacket (sv_cfg s) then Some (s, [])
       else do {
         let s = serverFlow_touch p now s;
         (codec, r) \<leftarrow> Seal L (sv_codec s) (sf_out (sv_heap s ! p)) (sf_id (sv_heap s ! p)) data;
         let s = s\<lparr>sv_codec := codec\<rparr>;
         case r of
           Inl _ \<Rightarrow> Some (s, [])
         | Inr pkt \<Rightarrow>
             let f = sv_heap s ! p;
                 s = s\<lparr>sv_heap := (sv_heap s)[p := f\<lparr>sf_out := put_at 0 pkt (sf_out f)\<rparr>]\<rparr>
             in if sent then Some (s, [ToClient pkt (sf_client f)])
                else Some (server_closeFlow p s)
       })"

text \<open>\<open>reap\<close>: the idle flows are collected first and closed after that.\<close>

definition server_stale :: "(string \<Rightarrow> int) \<Rightarrow> server \<Rightarrow> nat list" where
  "server_stale at s =
     map snd (filter (\<lambda>(key, p). serverFlow_idle (at key) (sv_heap s ! p) > sc_Idle (sv_cfg s) * second) (sv_flows s))"

fun server_closeAll :: "nat list \<Rightarrow> server \<Rightarrow> server \<times> server_effect list" where
  "server_closeAll [] s = (s, [])"
| "server_closeAll (p # ps) s =
     (let (s1, e1) = server_closeFlow p s; (s2, e2) = server_closeAll ps s1 in (s2, e1 @ e2))"

definition server_reap :: "(string \<Rightarrow> int) \<Rightarrow> server \<Rightarrow> server \<times> server_effect list" where
  "server_reap at s = server_closeAll (server_stale at s) s"

definition RunServer :: "crypt_libs \<Rightarrow> ServerConfig \<Rightarrow> BlockCrypt \<Rightarrow> transport_caps \<Rightarrow> bytes option \<Rightarrow> bytes option \<Rightarrow>
    packet_error + (server \<times> sockopt list)" where
  "RunServer L cfg b caps key seed = (case NewCodec L b key seed of
     Inl e \<Rightarrow> Inl e
   | Inr codec \<Rightarrow> Inr (\<lparr>sv_cfg = cfg, sv_codec = codec, sv_heap = [], sv_flows = [],
         sv_out = replicate HeaderSize 0\<rparr>,
       applySockBuf caps (sc_SockBuf cfg) @ applyDSCP caps (sc_DSCP cfg)))"

subsection \<open>Events\<close>

text \<open>\<open>Raced\<close>: a concurrent \<open>flowFor\<close> commits a flow between the two critical sections of another.\<close>

datatype server_event =
    Received addr bytes "nat option" int bool
  | Pumped nat "bytes option" int bool
  | Reaped "string \<Rightarrow> int"
  | Raced addr u32 nat int

fun server_do :: "crypt_libs \<Rightarrow> server_event \<Rightarrow> server \<Rightarrow> (server \<times> server_effect list) option" where
  "server_do L (Received a buf dialed now written) s = server_recv L a buf dialed now written s"
| "server_do L (Pumped p received now sent) s = server_pump L p received now sent s"
| "server_do L (Reaped at) s = Some (server_reap at s)"
| "server_do L (Raced a i conn now) s = Some (snd (server_commit a i conn now s))"

end
