(* ===== verification/TunClientFacts.thy ===== *)
theory TunClientFacts
  imports TunClient
begin

section \<open>The client end keeps its tables\<close>

text \<open>
  The invariant of the client, what it promises abstractly (a table from local addresses to
  distinct flow ids), and that every handler keeps the one and implements the other.
\<close>

subsection \<open>Flow ids\<close>

lemma next_id_step:
  "next_id byID n =
     (if n + 1 \<noteq> KeepAliveFlow \<and> map_of byID (n + 1) = None then Some (n + 1) else next_id byID (n + 1))"
  by (subst next_id.simps) (simp add: Let_def)

lemma next_id_found:
  assumes "k \<noteq> KeepAliveFlow" "map_of byID k = None"
  shows "\<exists>i. next_id byID n = Some i \<and> i \<noteq> KeepAliveFlow \<and> map_of byID i = None"
proof (induction "unat (k - (n + 1))" arbitrary: n)
  case 0
  then have "k = n + 1" by (simp add: unat_eq_zero)
  then show ?case using assms by (subst next_id_step) simp
next
  case (Suc d)
  have neq: "k - (n + 1) \<noteq> 0" using Suc.hyps(2) by (intro notI) simp
  have "d = unat (k - (n + 1) - 1)" using Suc.hyps(2) unat_minus_one [OF neq] by simp
  then have "d = unat (k - (n + 1 + 1))" by (simp add: algebra_simps)
  from Suc.hyps(1) [OF this] show ?case by (subst next_id_step) auto
qed

lemma next_id_free: "next_id byID n = Some i \<Longrightarrow> i \<noteq> KeepAliveFlow \<and> map_of byID i = None"
  by (erule next_id.raw_induct [rotated]) (auto simp: Let_def split: if_splits)

lemma free_id_exists:
  fixes byID :: "(u32 \<times> nat) list"
  assumes "length byID < 2 ^ 32 - 1"
  shows "\<exists>k. k \<noteq> KeepAliveFlow \<and> map_of byID k = None"
proof (rule ccontr)
  assume "\<not> ?thesis"
  then have "UNIV - {KeepAliveFlow} \<subseteq> fst ` set byID"
    by (auto simp: map_of_eq_None_iff)
  then have "card (UNIV - {KeepAliveFlow :: u32}) \<le> card (fst ` set byID)"
    by (intro card_mono) simp_all
  also have "\<dots> \<le> length byID" by (meson card_image_le card_length finite_set le_trans)
  finally show False using assms by (simp add: card_Diff_singleton_if card_word)
qed

subsection \<open>The invariant\<close>

definition flows_ok :: "client \<Rightarrow> bool" where
  "flows_ok c \<longleftrightarrow> distinct (map fst (cl_byAddr c)) \<and> distinct (map fst (cl_byID c))
     \<and> (\<forall>a p. map_of (cl_byAddr c) a = Some p \<longrightarrow>
          p < length (cl_heap c) \<and> cf_addr (cl_heap c ! p) = a
          \<and> map_of (cl_byID c) (cf_id (cl_heap c ! p)) = Some p)
     \<and> (\<forall>i p. map_of (cl_byID c) i = Some p \<longrightarrow>
          p < length (cl_heap c) \<and> cf_id (cl_heap c ! p) = i \<and> i \<noteq> KeepAliveFlow
          \<and> map_of (cl_byAddr c) (cf_addr (cl_heap c ! p)) = Some p)"

definition client_ok :: "client \<Rightarrow> bool" where
  "client_ok c \<longleftrightarrow> codec_ok (cl_codec c) \<and> flows_ok c
     \<and> int (length (cl_out c)) = cc_MaxPacket (cl_cfg c) \<and> length (cl_ping c) = HeaderSize"

lemma flows_okD:
  assumes "flows_ok c"
  shows "map_of (cl_byAddr c) a = Some p \<Longrightarrow> p < length (cl_heap c)"
    "map_of (cl_byAddr c) a = Some p \<Longrightarrow> cf_addr (cl_heap c ! p) = a"
    "map_of (cl_byAddr c) a = Some p \<Longrightarrow> map_of (cl_byID c) (cf_id (cl_heap c ! p)) = Some p"
    "map_of (cl_byID c) i = Some p \<Longrightarrow> p < length (cl_heap c)"
    "map_of (cl_byID c) i = Some p \<Longrightarrow> cf_id (cl_heap c ! p) = i"
    "map_of (cl_byID c) i = Some p \<Longrightarrow> i \<noteq> KeepAliveFlow"
    "map_of (cl_byID c) i = Some p \<Longrightarrow> map_of (cl_byAddr c) (cf_addr (cl_heap c ! p)) = Some p"
    "distinct (map fst (cl_byAddr c))" "distinct (map fst (cl_byID c))"
  using assms by (auto simp: flows_ok_def)

lemma flows_ok_cong:
  assumes "cl_byAddr c' = cl_byAddr c" "cl_byID c' = cl_byID c" "length (cl_heap c') = length (cl_heap c)"
    "\<And>p. cf_id (cl_heap c' ! p) = cf_id (cl_heap c ! p)" "\<And>p. cf_addr (cl_heap c' ! p) = cf_addr (cl_heap c ! p)"
  shows "flows_ok c' = flows_ok c"
  unfolding flows_ok_def assms ..

lemma nth_update_same:
  assumes "\<And>x. f (g x) = f x"
  shows "f (xs[p := g (xs ! p)] ! q) = f (xs ! q)"
proof (cases "q = p \<and> p < length xs")
  case True
  then show ?thesis using assms by simp
next
  case False
  then have "xs[p := g (xs ! p)] ! q = xs ! q" using list_update_beyond [of xs p "g (xs ! p)"]
    by (cases "q = p") auto
  then show ?thesis by simp
qed

lemma touch_nth:
  "cf_id (xs[p := (xs ! p)\<lparr>cf_lastActive := t\<rparr>] ! q) = cf_id (xs ! q)"
  "cf_addr (xs[p := (xs ! p)\<lparr>cf_lastActive := t\<rparr>] ! q) = cf_addr (xs ! q)"
  by (rule nth_update_same [where g = "\<lambda>x. x\<lparr>cf_lastActive := t\<rparr>"], simp)+

lemma touch_fields [simp]:
  "cl_cfg (clientFlow_touch p now c) = cl_cfg c" "cl_codec (clientFlow_touch p now c) = cl_codec c"
  "cl_conn (clientFlow_touch p now c) = cl_conn c" "cl_byAddr (clientFlow_touch p now c) = cl_byAddr c"
  "cl_byID (clientFlow_touch p now c) = cl_byID c" "cl_out (clientFlow_touch p now c) = cl_out c"
  "cl_ping (clientFlow_touch p now c) = cl_ping c" "cl_sendErr (clientFlow_touch p now c) = cl_sendErr c"
  "length (cl_heap (clientFlow_touch p now c)) = length (cl_heap c)"
  "cf_id (cl_heap (clientFlow_touch p now c) ! q) = cf_id (cl_heap c ! q)"
  "cf_addr (cl_heap (clientFlow_touch p now c) ! q) = cf_addr (cl_heap c ! q)"
  by (simp_all add: clientFlow_touch_def touch_nth)

lemma flows_ok_touch [simp]: "flows_ok (clientFlow_touch p now c) = flows_ok c"
  by (rule flows_ok_cong) simp_all

subsection \<open>The abstract table\<close>

text \<open>Which local address holds which flow id.\<close>

definition nat_table :: "client \<Rightarrow> addr \<rightharpoonup> u32" where
  "nat_table c a = map_option (\<lambda>p. cf_id (cl_heap c ! p)) (map_of (cl_byAddr c) a)"

lemma nat_table_touch [simp]: "nat_table (clientFlow_touch p now c) = nat_table c"
  by (simp add: nat_table_def fun_eq_iff)

lemma nat_table_Some:
  "nat_table c a = Some i \<longleftrightarrow> (\<exists>p. map_of (cl_byAddr c) a = Some p \<and> cf_id (cl_heap c ! p) = i)"
  by (auto simp: nat_table_def)

lemma nat_table_lookup:
  assumes "flows_ok c"
  shows "nat_table c a = Some i \<longleftrightarrow> (\<exists>p. client_lookup i c = Some p \<and> cf_addr (cl_heap c ! p) = a)"
proof
  assume "nat_table c a = Some i"
  then obtain p where "map_of (cl_byAddr c) a = Some p" "cf_id (cl_heap c ! p) = i"
    unfolding nat_table_Some by blast
  then show "\<exists>p. client_lookup i c = Some p \<and> cf_addr (cl_heap c ! p) = a"
    using flows_okD(2,3) [OF assms] unfolding client_lookup_def by blast
next
  assume "\<exists>p. client_lookup i c = Some p \<and> cf_addr (cl_heap c ! p) = a"
  then show "nat_table c a = Some i"
    using flows_okD(5,7) [OF assms] unfolding client_lookup_def nat_table_Some by blast
qed

lemma nat_table_inj:
  assumes "flows_ok c" "nat_table c a = Some i" "nat_table c b = Some i"
  shows "a = b"
proof -
  obtain p q where "client_lookup i c = Some p" "cf_addr (cl_heap c ! p) = a"
    "client_lookup i c = Some q" "cf_addr (cl_heap c ! q) = b"
    using assms(2,3) unfolding nat_table_lookup [OF assms(1)] by blast
  then show ?thesis by simp
qed

lemma nat_table_live:
  assumes "flows_ok c" "nat_table c a = Some i"
  shows "i \<noteq> KeepAliveFlow" "map_of (cl_byID c) i \<noteq> None"
proof -
  obtain p where "map_of (cl_byID c) i = Some p"
    using assms(2) unfolding nat_table_lookup [OF assms(1)] client_lookup_def by blast
  then show "i \<noteq> KeepAliveFlow" "map_of (cl_byID c) i \<noteq> None" using flows_okD(6) [OF assms(1)] by auto
qed

lemma nat_table_ran:
  assumes "flows_ok c" "map_of (cl_byID c) i = None"
  shows "i \<notin> ran (nat_table c)"
  using nat_table_live(2) [OF assms(1), of _ i] assms(2) by (auto simp: ran_def)

subsection \<open>flowFor\<close>

lemma flowFor_found:
  "map_of (cl_byAddr c) a = Some p \<Longrightarrow> client_flowFor a now c = Some (p, c)"
  by (simp add: client_flowFor_def)

definition with_flow :: "addr \<Rightarrow> u32 \<Rightarrow> int \<Rightarrow> client \<Rightarrow> client" where
  "with_flow a i now c = c\<lparr>cl_nextID := i, cl_heap := cl_heap c @ [\<lparr>cf_id = i, cf_addr = a, cf_lastActive = now\<rparr>],
     cl_byAddr := AList.update a (length (cl_heap c)) (cl_byAddr c),
     cl_byID := AList.update i (length (cl_heap c)) (cl_byID c)\<rparr>"

lemma with_flow_maps:
  "map_of (cl_byAddr (with_flow a i now c)) = (map_of (cl_byAddr c))(a \<mapsto> length (cl_heap c))"
  "map_of (cl_byID (with_flow a i now c)) = (map_of (cl_byID c))(i \<mapsto> length (cl_heap c))"
  "cl_heap (with_flow a i now c) = cl_heap c @ [\<lparr>cf_id = i, cf_addr = a, cf_lastActive = now\<rparr>]"
  by (simp_all add: with_flow_def update_conv')

lemma with_flow_ok:
  assumes ok: "flows_ok c" and a: "map_of (cl_byAddr c) a = None" and i: "map_of (cl_byID c) i = None" "i \<noteq> KeepAliveFlow"
  shows "flows_ok (with_flow a i now c)" "nat_table (with_flow a i now c) = (nat_table c)(a \<mapsto> i)"
proof -
  note D = flows_okD [OF ok]
  let ?c = "with_flow a i now c"
  have old: "cl_heap ?c ! p = cl_heap c ! p" if "p < length (cl_heap c)" for p
    using that by (simp add: with_flow_maps nth_append)
  have new: "cl_heap ?c ! length (cl_heap c) = \<lparr>cf_id = i, cf_addr = a, cf_lastActive = now\<rparr>"
    by (simp add: with_flow_maps)
  have len: "length (cl_heap ?c) = Suc (length (cl_heap c))" by (simp add: with_flow_maps)
  have "p < length (cl_heap ?c) \<and> cf_addr (cl_heap ?c ! p) = b
      \<and> map_of (cl_byID ?c) (cf_id (cl_heap ?c ! p)) = Some p" if "map_of (cl_byAddr ?c) b = Some p" for b p
  proof (cases "b = a")
    case True
    then show ?thesis using that new len by (simp add: with_flow_maps)
  next
    case False
    then have p: "map_of (cl_byAddr c) b = Some p" using that by (simp add: with_flow_maps)
    then have "cf_id (cl_heap c ! p) \<noteq> i" using D(3) i(1) by force
    then show ?thesis using D(1,2,3) [OF p] old [of p] len by (simp add: with_flow_maps)
  qed
  moreover have "p < length (cl_heap ?c) \<and> cf_id (cl_heap ?c ! p) = j \<and> j \<noteq> KeepAliveFlow
      \<and> map_of (cl_byAddr ?c) (cf_addr (cl_heap ?c ! p)) = Some p" if "map_of (cl_byID ?c) j = Some p" for j p
  proof (cases "j = i")
    case True
    then show ?thesis using that new len i(2) by (simp add: with_flow_maps)
  next
    case False
    then have p: "map_of (cl_byID c) j = Some p" using that by (simp add: with_flow_maps)
    then have "cf_addr (cl_heap c ! p) \<noteq> a" using D(7) a by force
    then show ?thesis using D(4,5,6,7) [OF p] old [of p] len by (simp add: with_flow_maps)
  qed
  moreover have "distinct (map fst (cl_byAddr ?c))" "distinct (map fst (cl_byID ?c))"
    using D(8,9) by (simp_all add: with_flow_def distinct_update)
  ultimately show "flows_ok ?c" unfolding flows_ok_def by blast
  show "nat_table ?c = (nat_table c)(a \<mapsto> i)"
  proof
    fix b
    show "nat_table ?c b = ((nat_table c)(a \<mapsto> i)) b"
      using D(1) [of b] old new by (cases "map_of (cl_byAddr c) b") (auto simp: nat_table_def with_flow_maps(1,2))
  qed
qed

lemma length_alist_update: "length (AList.update k v al) \<le> Suc (length al)"
  by (induction al) auto

lemma flowFor_new:
  assumes "map_of (cl_byAddr c) a = None" "next_id (cl_byID c) (cl_nextID c) = Some i"
  shows "client_flowFor a now c = Some (length (cl_heap c), with_flow a i now c)"
  using assms by (simp add: client_flowFor_def with_flow_def Let_def)

text \<open>\<open>flowFor\<close> on both branches: the flow of a known address, or a fresh id for a new one.\<close>

lemma flowFor_ok:
  assumes ok: "flows_ok c" and r: "client_flowFor a now c = Some (p, c')"
  shows "flows_ok c'" "map_of (cl_byAddr c') a = Some p"
    "nat_table c' = nat_table c \<and> nat_table c a \<noteq> None
     \<or> (\<exists>i. i \<noteq> KeepAliveFlow \<and> i \<notin> ran (nat_table c) \<and> nat_table c a = None \<and> nat_table c' = (nat_table c)(a \<mapsto> i))"
    "cl_cfg c' = cl_cfg c" "cl_codec c' = cl_codec c" "cl_conn c' = cl_conn c" "cl_out c' = cl_out c"
    "cl_ping c' = cl_ping c" "length (cl_byID c') \<le> Suc (length (cl_byID c))"
proof -
  have "(flows_ok c' \<and> map_of (cl_byAddr c') a = Some p \<and> (nat_table c' = nat_table c \<and> nat_table c a \<noteq> None
     \<or> (\<exists>i. i \<noteq> KeepAliveFlow \<and> i \<notin> ran (nat_table c) \<and> nat_table c a = None \<and> nat_table c' = (nat_table c)(a \<mapsto> i))))
    \<and> cl_cfg c' = cl_cfg c \<and> cl_codec c' = cl_codec c \<and> cl_conn c' = cl_conn c \<and> cl_out c' = cl_out c
    \<and> cl_ping c' = cl_ping c \<and> length (cl_byID c') \<le> Suc (length (cl_byID c))"
  proof (cases "map_of (cl_byAddr c) a")
    case None
    with r obtain i where i: "next_id (cl_byID c) (cl_nextID c) = Some i"
      by (cases "next_id (cl_byID c) (cl_nextID c)") (auto simp: client_flowFor_def)
    from next_id_free [OF i] have i': "i \<noteq> KeepAliveFlow" "map_of (cl_byID c) i = None" by simp_all
    have c': "c' = with_flow a i now c" "p = length (cl_heap c)"
      using r flowFor_new [OF None i] by simp_all
    have "nat_table c a = None" using None by (simp add: nat_table_def)
    then show ?thesis
      using with_flow_ok [OF ok None i'(2,1)] i'(1) nat_table_ran [OF ok i'(2)]
      by (auto simp: c' with_flow_maps(1)) (auto simp: with_flow_def length_alist_update)
  next
    case (Some q)
    then show ?thesis using r ok by (simp add: client_flowFor_def nat_table_def)
  qed
  then show "flows_ok c'" "map_of (cl_byAddr c') a = Some p"
    "nat_table c' = nat_table c \<and> nat_table c a \<noteq> None
     \<or> (\<exists>i. i \<noteq> KeepAliveFlow \<and> i \<notin> ran (nat_table c) \<and> nat_table c a = None \<and> nat_table c' = (nat_table c)(a \<mapsto> i))"
    "cl_cfg c' = cl_cfg c" "cl_codec c' = cl_codec c" "cl_conn c' = cl_conn c" "cl_out c' = cl_out c"
    "cl_ping c' = cl_ping c" "length (cl_byID c') \<le> Suc (length (cl_byID c))"
    by blast+
qed

lemma flowFor_total:
  assumes "length (cl_byID c) < 2 ^ 32 - 1"
  shows "\<exists>p c'. client_flowFor a now c = Some (p, c')"
proof (cases "map_of (cl_byAddr c) a")
  case None
  obtain k where "k \<noteq> KeepAliveFlow" "map_of (cl_byID c) k = None" using free_id_exists [OF assms] by blast
  from next_id_found [OF this] obtain i where "next_id (cl_byID c) (cl_nextID c) = Some i" by blast
  from flowFor_new [OF None this] show ?thesis by blast
next
  case (Some p)
  then show ?thesis by (simp add: flowFor_found)
qed

subsection \<open>Reaping\<close>

definition idle_flow :: "(addr \<Rightarrow> int) \<Rightarrow> client \<Rightarrow> addr \<Rightarrow> bool" where
  "idle_flow at c a \<longleftrightarrow> (case map_of (cl_byAddr c) a of
     None \<Rightarrow> False
   | Some p \<Rightarrow> clientFlow_idle (at a) (cl_heap c ! p) > cc_Idle (cl_cfg c) * second)"

text \<open>What no reaping touches.\<close>

definition same_rest :: "client \<Rightarrow> client \<Rightarrow> bool" where
  "same_rest c c' \<longleftrightarrow> cl_cfg c' = cl_cfg c \<and> cl_codec c' = cl_codec c \<and> cl_conn c' = cl_conn c
     \<and> cl_heap c' = cl_heap c \<and> cl_out c' = cl_out c \<and> cl_ping c' = cl_ping c \<and> cl_lastPing c' = cl_lastPing c"

lemma same_rest_trans: "same_rest a b \<Longrightarrow> same_rest b c \<Longrightarrow> same_rest a c"
  by (simp add: same_rest_def)

lemma reap_flow_cases:
  "reap_flow at (key, p) c =
     (if clientFlow_idle (at key) (cl_heap c ! p) > cc_Idle (cl_cfg c) * second
      then c\<lparr>cl_byAddr := AList.delete key (cl_byAddr c),
             cl_byID := AList.delete (cf_id (cl_heap c ! p)) (cl_byID c)\<rparr>
      else c)"
  by (simp add: reap_flow_def Let_def)

lemma length_alist_delete: "length (AList.delete k al) \<le> length al"
  by (simp add: AList.delete_eq)

lemma reap_flow_ok:
  assumes ok: "flows_ok c" and p: "map_of (cl_byAddr c) key = Some p"
  shows "flows_ok (reap_flow at (key, p) c)" "same_rest c (reap_flow at (key, p) c)"
    "map_of (cl_byAddr (reap_flow at (key, p) c)) a =
       (if a = key \<and> idle_flow at c key then None else map_of (cl_byAddr c) a)"
    "length (cl_byID (reap_flow at (key, p) c)) \<le> length (cl_byID c)"
proof -
  note D = flows_okD [OF ok]
  show "flows_ok (reap_flow at (key, p) c)"
  proof (cases "clientFlow_idle (at key) (cl_heap c ! p) > cc_Idle (cl_cfg c) * second")
    case True
    let ?i = "cf_id (cl_heap c ! p)"
    let ?c = "c\<lparr>cl_byAddr := AList.delete key (cl_byAddr c), cl_byID := AList.delete ?i (cl_byID c)\<rparr>"
    have "q < length (cl_heap ?c) \<and> cf_addr (cl_heap ?c ! q) = b
      \<and> map_of (cl_byID ?c) (cf_id (cl_heap ?c ! q)) = Some q" if q: "map_of (cl_byAddr ?c) b = Some q" for b q
    proof -
      have b: "b \<noteq> key" "map_of (cl_byAddr c) b = Some q" using q by (auto simp: delete_conv' split: if_splits)
      have "cf_id (cl_heap c ! q) \<noteq> ?i"
      proof
        assume "cf_id (cl_heap c ! q) = ?i"
        then have "q = p" using D(3) [OF b(2)] D(3) [OF p] by (metis option.inject)
        then show False using D(2) [OF b(2)] D(2) [OF p] b(1) by metis
      qed
      then show ?thesis using D(1,2,3) [OF b(2)] by (simp add: delete_conv')
    qed
    moreover have "q < length (cl_heap ?c) \<and> cf_id (cl_heap ?c ! q) = j \<and> j \<noteq> KeepAliveFlow
      \<and> map_of (cl_byAddr ?c) (cf_addr (cl_heap ?c ! q)) = Some q" if q: "map_of (cl_byID ?c) j = Some q" for j q
    proof -
      have j: "j \<noteq> ?i" "map_of (cl_byID c) j = Some q" using q by (auto simp: delete_conv' split: if_splits)
      have "cf_addr (cl_heap c ! q) \<noteq> key"
      proof
        assume "cf_addr (cl_heap c ! q) = key"
        then have "q = p" using D(7) [OF j(2)] p by (metis option.inject)
        then show False using D(5) [OF j(2)] j(1) by metis
      qed
      then show ?thesis using D(4,5,6,7) [OF j(2)] by (simp add: delete_conv')
    qed
    moreover have "distinct (map fst (cl_byAddr ?c))" "distinct (map fst (cl_byID ?c))"
      using D(8,9) by (simp_all add: distinct_delete)
    ultimately have "flows_ok ?c" unfolding flows_ok_def by blast
    then show ?thesis using True by (simp add: reap_flow_cases)
  qed (use ok in \<open>simp add: reap_flow_cases\<close>)
  show "same_rest c (reap_flow at (key, p) c)"
    by (simp add: reap_flow_cases same_rest_def)
  show "map_of (cl_byAddr (reap_flow at (key, p) c)) a =
       (if a = key \<and> idle_flow at c key then None else map_of (cl_byAddr c) a)"
    using p by (simp add: reap_flow_cases idle_flow_def delete_conv')
  show "length (cl_byID (reap_flow at (key, p) c)) \<le> length (cl_byID c)"
    by (simp add: reap_flow_cases length_alist_delete)
qed

lemma reap_fold:
  assumes "flows_ok c" "distinct (map fst xs)" "\<And>key p. (key, p) \<in> set xs \<Longrightarrow> map_of (cl_byAddr c) key = Some p"
  shows "flows_ok (fold (reap_flow at) xs c) \<and> same_rest c (fold (reap_flow at) xs c)
    \<and> (\<forall>a. map_of (cl_byAddr (fold (reap_flow at) xs c)) a =
         (if a \<in> fst ` set xs \<and> idle_flow at c a then None else map_of (cl_byAddr c) a))
    \<and> length (cl_byID (fold (reap_flow at) xs c)) \<le> length (cl_byID c)"
  using assms
proof (induction xs arbitrary: c)
  case Nil
  then show ?case by (simp add: same_rest_def)
next
  case (Cons x xs)
  obtain key p where x: "x = (key, p)" by (cases x)
  have p: "map_of (cl_byAddr c) key = Some p" using Cons.prems(3) x by simp
  let ?c = "reap_flow at (key, p) c"
  note r = reap_flow_ok [OF Cons.prems(1) p, of at]
  have key: "key \<notin> fst ` set xs" using Cons.prems(2) x by simp
  have rest: "map_of (cl_byAddr ?c) k = Some q" if "(k, q) \<in> set xs" for k q
  proof -
    have "k \<noteq> key" using key that by force
    then show ?thesis using Cons.prems(3) that r(3) [of k] by simp
  qed
  have idle: "idle_flow at ?c a = idle_flow at c a" if "a \<noteq> key" for a
    using r(2) r(3) [of a] that by (auto simp: idle_flow_def same_rest_def split: option.split)
  have dist: "distinct (map fst xs)" using Cons.prems(2) by simp
  have ih: "flows_ok (fold (reap_flow at) xs ?c)" "same_rest ?c (fold (reap_flow at) xs ?c)"
    "\<And>a. map_of (cl_byAddr (fold (reap_flow at) xs ?c)) a =
         (if a \<in> fst ` set xs \<and> idle_flow at ?c a then None else map_of (cl_byAddr ?c) a)"
    "length (cl_byID (fold (reap_flow at) xs ?c)) \<le> length (cl_byID ?c)"
    using Cons.IH [OF r(1) dist rest] by blast+
  have "map_of (cl_byAddr (fold (reap_flow at) xs ?c)) a =
      (if a \<in> insert key (fst ` set xs) \<and> idle_flow at c a then None else map_of (cl_byAddr c) a)" for a
    using ih(3) [of a] r(3) [of a] idle [of a] key by auto
  then show ?case
    using ih(1,4) r(4) same_rest_trans [OF r(2) ih(2)] by (simp add: x)
qed

text \<open>Exactly the idle flows are forgotten, from both tables, whatever the order of the map.\<close>

lemma client_reap_ok:
  assumes ok: "flows_ok c"
  shows "flows_ok (client_reap at c)" "same_rest c (client_reap at c)"
    "nat_table (client_reap at c) = nat_table c |` {a. \<not> idle_flow at c a}"
    "length (cl_byID (client_reap at c)) \<le> length (cl_byID c)"
proof -
  note D = flows_okD [OF ok]
  have all: "map_of (cl_byAddr c) key = Some p" if "(key, p) \<in> set (cl_byAddr c)" for key p
    using that D(8) by simp
  note r = reap_fold [OF ok D(8) all, of at]
  have dom: "a \<in> fst ` set (cl_byAddr c)" if "idle_flow at c a" for a
    using that by (auto simp: idle_flow_def split: option.splits dest!: map_of_SomeD intro!: rev_image_eqI)
  show "flows_ok (client_reap at c)" "same_rest c (client_reap at c)"
    "length (cl_byID (client_reap at c)) \<le> length (cl_byID c)"
    using r by (auto simp: client_reap_def)
  then have heap: "cl_heap (client_reap at c) = cl_heap c" by (simp add: same_rest_def)
  show "nat_table (client_reap at c) = nat_table c |` {a. \<not> idle_flow at c a}"
  proof
    fix a
    have "map_of (cl_byAddr (client_reap at c)) a = (if idle_flow at c a then None else map_of (cl_byAddr c) a)"
      using r dom [of a] unfolding client_reap_def by auto
    then show "nat_table (client_reap at c) a = (nat_table c |` {a. \<not> idle_flow at c a}) a"
      using heap by (simp add: nat_table_def restrict_map_def)
  qed
qed

subsection \<open>The handlers\<close>

lemma client_ok_cong:
  assumes "client_ok c" "flows_ok c'" "codec_ok (cl_codec c')" "cl_cfg c' = cl_cfg c"
    "length (cl_out c') = length (cl_out c)" "length (cl_ping c') = length (cl_ping c)"
  shows "client_ok c'"
  using assms by (simp add: client_ok_def)

lemma flows_ok_update [simp]:
  "flows_ok (c\<lparr>cl_codec := k\<rparr>) = flows_ok c" "flows_ok (c\<lparr>cl_out := b\<rparr>) = flows_ok c"
  "flows_ok (c\<lparr>cl_ping := b\<rparr>) = flows_ok c" "flows_ok (c\<lparr>cl_sendErr := t\<rparr>) = flows_ok c"
  "flows_ok (c\<lparr>cl_replyErr := t\<rparr>) = flows_ok c" "flows_ok (c\<lparr>cl_oversize := n\<rparr>) = flows_ok c"
  "flows_ok (c\<lparr>cl_lastRecv := t\<rparr>) = flows_ok c" "flows_ok (c\<lparr>cl_lastPing := l\<rparr>) = flows_ok c"
  "flows_ok (c\<lparr>cl_conn := r\<rparr>) = flows_ok c"
  by (simp_all add: flows_ok_def)

lemma nat_table_update [simp]:
  "nat_table (c\<lparr>cl_codec := k\<rparr>) = nat_table c" "nat_table (c\<lparr>cl_out := b\<rparr>) = nat_table c"
  "nat_table (c\<lparr>cl_ping := b\<rparr>) = nat_table c" "nat_table (c\<lparr>cl_sendErr := t\<rparr>) = nat_table c"
  "nat_table (c\<lparr>cl_replyErr := t\<rparr>) = nat_table c" "nat_table (c\<lparr>cl_oversize := n\<rparr>) = nat_table c"
  "nat_table (c\<lparr>cl_lastRecv := t\<rparr>) = nat_table c" "nat_table (c\<lparr>cl_lastPing := l\<rparr>) = nat_table c"
  "nat_table (c\<lparr>cl_conn := r\<rparr>) = nat_table c"
  by (simp_all add: nat_table_def fun_eq_iff)

text \<open>The abstract table: an address in use gets an id no other has, idle ones are forgotten.\<close>

datatype nat_action = NatUse addr | NatForget "addr set" | NatKeep

inductive nat_step :: "nat_action \<Rightarrow> (addr \<rightharpoonup> u32) \<Rightarrow> (addr \<rightharpoonup> u32) \<Rightarrow> bool" where
  known: "m a \<noteq> None \<Longrightarrow> nat_step (NatUse a) m m"
| fresh: "m a = None \<Longrightarrow> i \<noteq> KeepAliveFlow \<Longrightarrow> i \<notin> ran m \<Longrightarrow> nat_step (NatUse a) m (m(a \<mapsto> i))"
| forget: "nat_step (NatForget S) m (m |` (- S))"
| keep: "nat_step NatKeep m m"

inductive_cases nat_step_UseE: "nat_step (NatUse a) m m'"

definition oversized :: "client \<Rightarrow> bytes \<Rightarrow> bool" where
  "oversized c data \<longleftrightarrow> int (HeaderSize + length data) > cc_MaxPacket (cl_cfg c)"

lemma client_local_ok:
  assumes L: "libs_ok L" and ok: "client_ok c" and room: "length (cl_byID c) < 2 ^ 32 - 1"
    and small: "\<not> oversized c data"
  shows "\<exists>c' pkt i. client_local L a data now sent c = Some (c',
        (case cl_conn c of None \<Rightarrow> [] | Some (conn, remote) \<Rightarrow>
           if sent then [ToServer conn pkt remote]
           else warning (snd (client_warn now (cl_sendErr c))) ''transport write failed''))
    \<and> client_ok c' \<and> length (cl_byID c') \<le> Suc (length (cl_byID c)) \<and> codec_block (cl_codec c') = codec_block (cl_codec c)
    \<and> nat_step (NatUse a) (nat_table c) (nat_table c') \<and> nat_table c' a = Some i
    \<and> (\<forall>peer. codec_block peer = codec_block (cl_codec c) \<longrightarrow> Open L peer pkt = Some (Inr (i, data)))"
proof -
  have f: "flows_ok c" and codec: "codec_ok (cl_codec c)" and out: "int (length (cl_out c)) = cc_MaxPacket (cl_cfg c)"
    using ok by (simp_all add: client_ok_def)
  obtain p c1 where c1: "client_flowFor a now c = Some (p, c1)" using flowFor_total [OF room] by blast
  note F = flowFor_ok [OF f c1]
  let ?c2 = "clientFlow_touch p now c1" and ?i = "cf_id (cl_heap c1 ! p)"
  have dst: "HeaderSize + length data \<le> length (cl_out c)"
    using small out by (simp add: oversized_def)
  obtain codec' pkt where s: "Seal L (cl_codec c) (cl_out c) ?i data = Some (codec', Inr pkt)"
    "length pkt = HeaderSize + length data" "codec_ok codec'" "codec_block codec' = codec_block (cl_codec c)"
    using seal_open [OF L codec dst refl, of ?i] by blast
  have opens: "Open L peer pkt = Some (Inr (?i, data))" if "codec_block peer = codec_block (cl_codec c)" for peer
    using seal_open [OF L codec dst that, of ?i] s(1) by auto
  have tbl: "nat_table c1 a = Some ?i" using F(2) by (simp add: nat_table_def)
  have step: "nat_step (NatUse a) (nat_table c) (nat_table c1)"
    using F(3) nat_step.known [of "nat_table c" a] nat_step.fresh [of "nat_table c" a] by auto
  let ?c3 = "?c2\<lparr>cl_codec := codec', cl_out := put_at 0 pkt (cl_out c)\<rparr>"
  have ok3: "client_ok ?c3"
    using ok F(1,4,8) s(2,3) dst by (intro client_ok_cong [OF ok]) simp_all
  let ?c4 = "case cl_conn c of None \<Rightarrow> ?c3 | Some _ \<Rightarrow>
      if sent then ?c3 else ?c3\<lparr>cl_sendErr := fst (client_warn now (cl_sendErr c1))\<rparr>"
  have se: "cl_sendErr c1 = cl_sendErr c"
    using c1 by (auto simp: client_flowFor_def Let_def bind_eq_Some_conv split: option.splits)
  have "client_local L a data now sent c = Some (?c4, (case cl_conn c of None \<Rightarrow> [] | Some (conn, remote) \<Rightarrow>
           if sent then [ToServer conn pkt remote]
           else warning (snd (client_warn now (cl_sendErr c))) ''transport write failed''))"
    using small c1 s(1) F(5,6,7) se
    by (auto simp: client_local_def oversized_def Let_def split: option.split prod.split)
  moreover have "client_ok ?c4"
    using ok3 client_ok_cong [OF ok3] ok3 by (auto simp: client_ok_def split: option.split)
  moreover have "nat_table ?c4 = nat_table c1" "codec_block (cl_codec ?c4) = codec_block (cl_codec c)"
    "length (cl_byID ?c4) \<le> Suc (length (cl_byID c))"
    using s(4) F(9) by (auto split: option.split)
  ultimately show ?thesis using opens tbl step by fastforce
qed

lemma client_transport_ok:
  assumes L: "libs_ok L" and ok: "client_ok c"
  shows "\<exists>c' r. Open L (cl_codec c) buf = Some r
    \<and> client_transport L buf now sent c = Some (c', (case r of Inl _ \<Rightarrow> [] | Inr (i, payload) \<Rightarrow>
        (case client_lookup i c of
           None \<Rightarrow> []
         | Some p \<Rightarrow> if sent then [ToLocal payload (cf_addr (cl_heap c ! p))]
             else warning (snd (client_warn now (cl_replyErr c))) ''reply failed'')))
    \<and> client_ok c' \<and> cl_byID c' = cl_byID c \<and> nat_table c' = nat_table c \<and> cl_codec c' = cl_codec c
    \<and> cl_lastRecv c' = now"
proof -
  have f: "flows_ok c" and codec: "codec_ok (cl_codec c)" using ok by (simp_all add: client_ok_def)
  have cok: "crypt_ok (codec_block (cl_codec c))" using codec by (simp add: codec_ok_def)
  obtain r where r: "Open L (cl_codec c) buf = Some r"
  proof (cases "length buf < HeaderSize")
    case True
    then show ?thesis using that by (simp add: Open_def)
  next
    case False
    then show ?thesis using that Open_eq [OF L cok, of buf] by auto
  qed
  have zero: "client_lookup KeepAliveFlow c = None"
    using flows_okD(6) [OF f] by (cases "client_lookup KeepAliveFlow c") (auto simp: client_lookup_def)
  have cl: "client_lookup i (c\<lparr>cl_lastRecv := now\<rparr>) = client_lookup i c" for i
    by (simp add: client_lookup_def)
  have up: "client_ok c'" if "flows_ok c'" "cl_codec c' = cl_codec c" "cl_cfg c' = cl_cfg c"
    "cl_out c' = cl_out c" "cl_ping c' = cl_ping c" for c'
    using client_ok_cong [OF ok] that codec by simp
  have lr: "cl_lastRecv (clientFlow_touch p now c) = cl_lastRecv c" "cl_replyErr (clientFlow_touch p now c) = cl_replyErr c" for p c
    by (simp_all add: clientFlow_touch_def)
  show ?thesis
  proof (cases r)
    case (Inl e)
    then show ?thesis using r f by (auto simp: client_transport_def Let_def intro!: up)
  next
    case (Inr x)
    obtain i payload where x: "x = (i, payload)" by (cases x)
    show ?thesis
    proof (cases "client_lookup i c")
      case None
      then show ?thesis
        using r Inr x f cl by (auto simp: client_transport_def Let_def intro!: up)
    next
      case (Some p)
      then have "i \<noteq> KeepAliveFlow" using zero by auto
      then show ?thesis
        using r Inr x f cl Some lr by (auto simp: client_transport_def Let_def split: prod.split intro!: up)
    qed
  qed
qed

lemma client_ping_ok:
  assumes L: "libs_ok L" and ok: "client_ok c"
  shows "\<exists>c' pkt. client_ping L now c = Some (c',
        (if ping_due now c then (case cl_conn c of None \<Rightarrow> [] | Some (conn, remote) \<Rightarrow> [ToServer conn pkt remote]) else []))
    \<and> client_ok c' \<and> cl_byID c' = cl_byID c \<and> nat_table c' = nat_table c
    \<and> codec_block (cl_codec c') = codec_block (cl_codec c) \<and> cl_lastRecv c' = cl_lastRecv c
    \<and> (\<forall>peer. codec_block peer = codec_block (cl_codec c) \<longrightarrow> Open L peer pkt = Some (Inr (KeepAliveFlow, [])))"
proof (cases "ping_due now c")
  case True
  have f: "flows_ok c" and codec: "codec_ok (cl_codec c)" and dst: "HeaderSize + length [] \<le> length (cl_ping c)"
    using ok by (simp_all add: client_ok_def)
  obtain codec' pkt where s: "Seal L (cl_codec c) (cl_ping c) KeepAliveFlow [] = Some (codec', Inr pkt)"
    "length pkt = HeaderSize" "codec_ok codec'" "codec_block codec' = codec_block (cl_codec c)"
    using seal_open [OF L codec dst refl, of KeepAliveFlow] by auto
  have opens: "Open L peer pkt = Some (Inr (KeepAliveFlow, []))" if "codec_block peer = codec_block (cl_codec c)" for peer
    using seal_open [OF L codec dst that, of KeepAliveFlow] s(1) by auto
  let ?c = "c\<lparr>cl_lastPing := Some now, cl_codec := codec', cl_ping := put_at 0 pkt (cl_ping c)\<rparr>"
  have "client_ping L now c = Some (?c, case cl_conn c of None \<Rightarrow> [] | Some (conn, remote) \<Rightarrow> [ToServer conn pkt remote])"
    using True s(1) by (simp add: client_ping_def Let_def)
  moreover have "client_ok ?c"
    using ok f s(2,3) dst by (intro client_ok_cong [OF ok]) simp_all
  ultimately show ?thesis using True opens s(4) by (intro exI [of _ ?c] exI [of _ pkt]) auto
next
  case False
  have codec: "codec_ok (cl_codec c)" using ok by (simp add: client_ok_def)
  have "HeaderSize + length [] \<le> length (replicate HeaderSize (0 :: byte))" by simp
  note so = seal_open [OF L codec this]
  obtain k pkt where s: "Seal L (cl_codec c) (replicate HeaderSize 0) KeepAliveFlow [] = Some (k, Inr pkt)"
    using so [OF refl, of KeepAliveFlow] by blast
  have "Open L peer pkt = Some (Inr (KeepAliveFlow, []))" if "codec_block peer = codec_block (cl_codec c)" for peer
    using so [OF that, of KeepAliveFlow] s by auto
  then show ?thesis using False ok by (auto simp: client_ping_def)
qed

lemma client_maintain_ok:
  assumes L: "libs_ok L" and ok: "client_ok c"
  shows "\<exists>c' pkt. client_maintain L at now c = Some (c',
        (if ping_due now c then (case cl_conn c of None \<Rightarrow> [] | Some (conn, remote) \<Rightarrow> [ToServer conn pkt remote]) else []))
    \<and> client_ok c' \<and> length (cl_byID c') \<le> length (cl_byID c)
    \<and> nat_table c' = nat_table c |` {a. \<not> idle_flow at c a}
    \<and> codec_block (cl_codec c') = codec_block (cl_codec c)
    \<and> (\<forall>peer. codec_block peer = codec_block (cl_codec c) \<longrightarrow> Open L peer pkt = Some (Inr (KeepAliveFlow, [])))"
proof -
  have f: "flows_ok c" using ok by (simp add: client_ok_def)
  note R = client_reap_ok [OF f, of at]
  let ?c = "client_reap at c"
  have same: "cl_cfg ?c = cl_cfg c" "cl_codec ?c = cl_codec c" "cl_conn ?c = cl_conn c" "cl_out ?c = cl_out c"
    "cl_ping ?c = cl_ping c" "cl_lastPing ?c = cl_lastPing c"
    using R(2) by (simp_all add: same_rest_def)
  have "codec_ok (cl_codec c)" using ok by (simp add: client_ok_def)
  then have okr: "client_ok ?c" using same by (intro client_ok_cong [OF ok R(1)]) simp_all
  have due: "ping_due now ?c = ping_due now c" using same by (auto simp: ping_due_def split: option.split)
  from client_ping_ok [OF L okr, of now] obtain c' pkt where p: "client_ping L now ?c = Some (c',
        (if ping_due now c then (case cl_conn c of None \<Rightarrow> [] | Some (conn, remote) \<Rightarrow> [ToServer conn pkt remote]) else []))"
    "client_ok c'" "cl_byID c' = cl_byID ?c" "nat_table c' = nat_table ?c"
    "codec_block (cl_codec c') = codec_block (cl_codec c)"
    "\<forall>peer. codec_block peer = codec_block (cl_codec c) \<longrightarrow> Open L peer pkt = Some (Inr (KeepAliveFlow, []))"
    unfolding due same by blast
  show ?thesis
    unfolding client_maintain_def using p R(3,4) by (intro exI [of _ c'] exI [of _ pkt]) simp
qed

text \<open>One event on the whole client, as the abstract table sees it.\<close>

fun nat_action_of :: "client \<Rightarrow> client_event \<Rightarrow> nat_action" where
  "nat_action_of c (Local a data now sent) = (if oversized c data then NatKeep else NatUse a)"
| "nat_action_of c (Maintain at now) = NatForget {a. idle_flow at c a}"
| "nat_action_of c _ = NatKeep"

lemma client_do_ok:
  assumes L: "libs_ok L" and ok: "client_ok c" and room: "length (cl_byID c) < 2 ^ 32 - 1"
  shows "\<exists>c' es. client_do L ev c = Some (c', es) \<and> client_ok c' \<and> length (cl_byID c') \<le> Suc (length (cl_byID c))
    \<and> codec_block (cl_codec c') = codec_block (cl_codec c)
    \<and> nat_step (nat_action_of c ev) (nat_table c) (nat_table c')"
proof (cases ev)
  case (Local a data now sent)
  show ?thesis
  proof (cases "oversized c data")
    case True
    then have "client_local L a data now sent c = Some (c\<lparr>cl_oversize := cl_oversize c + 1\<rparr>,
        warning (cl_oversize c + 1 = 1) ''dropping datagram'')"
      by (simp add: client_local_def oversized_def Let_def)
    then show ?thesis using True Local ok nat_step.keep by (simp add: client_ok_def)
  next
    case False
    from client_local_ok [OF L ok room False, of a now sent] False Local show ?thesis by auto
  qed
next
  case (FromTransport buf now sent)
  from client_transport_ok [OF L ok, of buf now sent] FromTransport show ?thesis
    by (auto intro: nat_step.keep)
next
  case (Maintain at now)
  have "- {a. idle_flow at c a} = {a. \<not> idle_flow at c a}" by blast
  with client_maintain_ok [OF L ok, of at now] Maintain nat_step.forget [of "{a. idle_flow at c a}" "nat_table c"]
  show ?thesis by (auto simp: le_SucI)
next
  case (Dialed caps conn remote now)
  then show ?thesis using ok nat_step.keep by (simp add: client_dialed_def client_ok_def)
next
  case (Lost conn)
  then show ?thesis using ok nat_step.keep by (simp add: client_lost_def client_ok_def)
next
  case (Watch conn now)
  then show ?thesis using ok nat_step.keep by simp
qed

lemma RunClient_ok:
  assumes "RunClient L cfg b key seed = Some (Inr c)" "crypt_ok b" "ciphers_ok L" "\<And>s. seed = Some s \<Longrightarrow> length s = 16"
  shows "client_ok c" "nat_table c = Map.empty" "cl_cfg c = cfg" "codec_block (cl_codec c) = b" "cl_byID c = []"
proof -
  have "codec_ok k" if "NewCodec L b key seed = Inr k" for k
    using that assms(2-4)
    by (auto simp: NewCodec_def newNonceGen_def codec_ok_def nonce_ok_def ciphers_ok_def map_sum_Inr split: option.splits)
  then show "client_ok c"
    using assms(1) by (auto simp: RunClient_def client_ok_def flows_ok_def split: sum.splits if_splits)
  show "nat_table c = Map.empty" "cl_cfg c = cfg" "cl_byID c = []"
    using assms(1) by (auto simp: RunClient_def nat_table_def fun_eq_iff split: sum.splits if_splits)
  show "codec_block (cl_codec c) = b"
    using assms(1) by (auto simp: RunClient_def NewCodec_def map_sum_Inr split: sum.splits if_splits)
qed

text \<open>Runs: a finite sequence of events, as long as ids are free.\<close>

inductive client_runs :: "crypt_libs \<Rightarrow> client \<Rightarrow> client_event list \<Rightarrow> client \<Rightarrow> bool" for L where
  client_start: "client_runs L c [] c"
| client_more: "client_runs L c evs c1 \<Longrightarrow> client_do L ev c1 = Some (c2, es) \<Longrightarrow> client_runs L c (evs @ [ev]) c2"

lemma nat_step_range:
  "nat_step act m m' \<Longrightarrow> inj_on m (dom m) \<Longrightarrow> KeepAliveFlow \<notin> ran m \<Longrightarrow> inj_on m' (dom m') \<and> KeepAliveFlow \<notin> ran m'"
proof (induction rule: nat_step.induct)
  case (fresh m a i)
  have "x = y" if "(m(a \<mapsto> i)) x = Some k" "(m(a \<mapsto> i)) y = Some k" for x y k
    using that fresh by (auto simp: inj_on_def ran_def domIff split: if_splits)
  then have "inj_on (m(a \<mapsto> i)) (dom (m(a \<mapsto> i)))"
    by (intro inj_onI) (metis domD)
  moreover have "KeepAliveFlow \<notin> ran (m(a \<mapsto> i))" using fresh by (simp add: ran_map_upd)
  ultimately show ?case ..
next
  case (forget S m)
  then show ?case by (auto simp: inj_on_def ran_def restrict_map_def dom_def split: if_splits)
qed auto

lemma client_runs_ok:
  assumes "client_runs L c evs c'" "libs_ok L" "client_ok c" "inj_on (nat_table c) (dom (nat_table c))"
    "KeepAliveFlow \<notin> ran (nat_table c)" "length (cl_byID c) + length evs \<le> 2 ^ 32 - 2"
  shows "client_ok c' \<and> length (cl_byID c') \<le> length (cl_byID c) + length evs
    \<and> inj_on (nat_table c') (dom (nat_table c')) \<and> KeepAliveFlow \<notin> ran (nat_table c')"
  using assms
proof (induction rule: client_runs.induct)
  case (client_start c)
  then show ?case by simp
next
  case (client_more c evs c1 ev c2 es)
  then have ih: "client_ok c1" "length (cl_byID c1) \<le> length (cl_byID c) + length evs"
    "inj_on (nat_table c1) (dom (nat_table c1))" "KeepAliveFlow \<notin> ran (nat_table c1)" by simp_all
  have "length (cl_byID c1) < 2 ^ 32 - 1" using ih(2) client_more.prems by simp
  from client_do_ok [OF client_more.prems(1) ih(1) this, of ev] client_more.hyps(2)
  have "client_ok c2" "length (cl_byID c2) \<le> Suc (length (cl_byID c1))"
    "nat_step (nat_action_of c1 ev) (nat_table c1) (nat_table c2)" by auto
  then show ?case using nat_step_range ih by fastforce
qed

subsection \<open>What the client promises\<close>

definition sample_config :: ClientConfig where
  "sample_config = \<lparr>cc_LocalAddr = '':12948'', cc_MaxPacket = 1350, cc_SockBuf = 4194304, cc_DSCP = 0,
     cc_Idle = 60, cc_KeepAlive = 10, cc_Quiet = False\<rparr>"

definition sample_client :: client where
  "sample_client = \<lparr>cl_cfg = sample_config, cl_codec = sample_codec (simpleXORBlockCrypt [1, 2, 3]),
     cl_conn = Some (0, ''vps:29900''), cl_lastRecv = 0, cl_heap = [\<lparr>cf_id = 1, cf_addr = ''a:1'', cf_lastActive = 0\<rparr>],
     cl_byAddr = [(''a:1'', 0)], cl_byID = [(1, 0)], cl_nextID = 1, cl_oversize = 0, cl_sendErr = 0, cl_replyErr = 0,
     cl_lastPing = None, cl_out = replicate 1350 0, cl_ping = replicate HeaderSize 0\<rparr>"

lemma sample_client_ok: "client_ok sample_client" "length (cl_byID sample_client) < 2 ^ 32 - 1"
  "codec_block (cl_codec sample_client) = simpleXORBlockCrypt [1, 2, 3]" "nat_table sample_client = [''a:1'' \<mapsto> 1]"
  by (auto simp: client_ok_def sample_client_def sample_config_def sample_codec_ok flows_ok_def KeepAliveFlow_def
      nat_table_def fun_eq_iff)

text \<open>C34. The id search of \<open>flowFor\<close> ends exactly when some id other than the keepalive one is not
  live, and then returns such an id; with every id live it does not return.\<close>

theorem next_id_terminates:
  "(next_id byID n \<noteq> None \<longleftrightarrow> (\<exists>k. k \<noteq> KeepAliveFlow \<and> map_of byID k = None))
   \<and> (case next_id byID n of None \<Rightarrow> True | Some i \<Rightarrow> i \<noteq> KeepAliveFlow \<and> map_of byID i = None)"
  using next_id_free [of byID n] next_id_found [of _ byID n] by (cases "next_id byID n") auto

text \<open>C5. Every event of the client, a local datagram, any bytes from the transport, a tick, a new or
  lost transport, succeeds without a panic while ids are free, keeps the invariant of the two flow
  tables, and implements one step of the abstract table from addresses to ids: a datagram that is
  not oversized gives its address the id it has or a fresh one, a tick forgets exactly the idle
  flows, and nothing else changes the table.\<close>

theorem client_refines_table:
  assumes "libs_ok L" "client_ok c" "length (cl_byID c) < 2 ^ 32 - 1"
  shows "\<exists>c' es. client_do L ev c = Some (c', es) \<and> client_ok c' \<and> length (cl_byID c') \<le> Suc (length (cl_byID c))
    \<and> codec_block (cl_codec c') = codec_block (cl_codec c)
    \<and> nat_step (nat_action_of c ev) (nat_table c) (nat_table c')"
  by (rule client_do_ok [OF assms])

theorem client_refines_table_witness:
  "\<exists>c' es. client_do sample_libs (Local ''b:2'' [7, 7] 5 True) sample_client = Some (c', es) \<and> client_ok c'
     \<and> nat_step (NatUse ''b:2'') [''a:1'' \<mapsto> 1] (nat_table c')"
  using client_refines_table [OF sample_libs_ok(1) sample_client_ok(1,2), of "Local ''b:2'' [7, 7] 5 True"]
  by (auto simp: oversized_def sample_client_ok(4)) (simp add: sample_client_def sample_config_def packet_sizes)

text \<open>From start to any reachable state the flow table stays a bijection: two local addresses never
  share an id, the keepalive id is never given to a flow, and the next event, whatever it is, is
  handled without a panic (for runs short enough that ids cannot run out).\<close>

theorem client_ids_unique:
  assumes "RunClient L cfg b key seed = Some (Inr c0)" "crypt_ok b" "ciphers_ok L" "libs_ok L"
    "\<And>s. seed = Some s \<Longrightarrow> length s = 16" "client_runs L c0 evs c" "length evs \<le> 2 ^ 32 - 2"
  shows "(\<forall>x y i. nat_table c x = Some i \<and> nat_table c y = Some i \<longrightarrow> x = y \<and> i \<noteq> KeepAliveFlow)
    \<and> client_do L ev c \<noteq> None"
proof -
  note R = RunClient_ok [OF assms(1-3,5)]
  have ok: "client_ok c" "length (cl_byID c) \<le> length evs" "inj_on (nat_table c) (dom (nat_table c))"
    "KeepAliveFlow \<notin> ran (nat_table c)"
    using client_runs_ok [OF assms(6,4) R(1)] R(2,5) assms(7) by auto
  have "client_do L ev c \<noteq> None"
    using client_do_ok [OF assms(4) ok(1), of ev] ok(2) assms(7) by fastforce
  moreover have "x = y \<and> i \<noteq> KeepAliveFlow" if "nat_table c x = Some i \<and> nat_table c y = Some i" for x y i
    using that ok(3,4) by (metis domI inj_onD ranI)
  ultimately show ?thesis by blast
qed

theorem client_ids_unique_witness:
  "\<exists>c0 c. RunClient sample_libs sample_config (salsa20BlockCrypt []) (Some [1]) (Some (replicate 16 1)) = Some (Inr c0)
     \<and> client_runs sample_libs c0 [Local ''a:1'' [7] 5 True, Local ''b:2'' [8] 6 True] c
     \<and> (\<forall>x y i. nat_table c x = Some i \<and> nat_table c y = Some i \<longrightarrow> x = y \<and> i \<noteq> KeepAliveFlow)"
proof -
  obtain c0 where c0: "RunClient sample_libs sample_config (salsa20BlockCrypt []) (Some [1]) (Some (replicate 16 1)) = Some (Inr c0)"
    by (simp add: RunClient_def NewCodec_def newNonceGen_def sample_libs_def sample_config_def)
  note R = RunClient_ok [OF c0 _ sample_libs_ok(2)]
  have ok: "client_ok c0" "length (cl_byID c0) = 0" using R by auto
  obtain c1 e1 where c1: "client_do sample_libs (Local ''a:1'' [7] 5 True) c0 = Some (c1, e1)"
    "client_ok c1" "length (cl_byID c1) \<le> 1"
    using client_do_ok [OF sample_libs_ok(1) ok(1), of "Local ''a:1'' [7] 5 True"] ok(2) by auto
  obtain c2 e2 where c2: "client_do sample_libs (Local ''b:2'' [8] 6 True) c1 = Some (c2, e2)"
    using client_do_ok [OF sample_libs_ok(1) c1(2), of "Local ''b:2'' [8] 6 True"] c1(3) by auto
  have run: "client_runs sample_libs c0 [Local ''a:1'' [7] 5 True, Local ''b:2'' [8] 6 True] c2"
    using client_more [OF client_more [OF client_start c1(1)] c2] by simp
  have "(\<forall>x y i. nat_table c2 x = Some i \<and> nat_table c2 y = Some i \<longrightarrow> x = y \<and> i \<noteq> KeepAliveFlow)
    \<and> client_do sample_libs (Lost 0) c2 \<noteq> None"
    by (rule client_ids_unique [OF c0 _ sample_libs_ok(2,1) _ run]) auto
  with c0 run show ?thesis by blast
qed

text \<open>The client sends a local datagram on unchanged: unless it is oversized (then nothing is sent
  and the tables stay), exactly one packet goes to the current transport, which the far end opens
  to the payload and the id this address holds from now on; with no transport nothing is sent.\<close>

theorem client_sends_on:
  assumes "libs_ok L" "client_ok c" "length (cl_byID c) < 2 ^ 32 - 1" "codec_block peer = codec_block (cl_codec c)"
  shows "\<exists>c' es. client_do L (Local a data now True) c = Some (c', es) \<and>
    (if oversized c data then nat_table c' = nat_table c \<and> (\<forall>conn pkt r. ToServer conn pkt r \<notin> set es)
     else case cl_conn c of
       None \<Rightarrow> es = []
     | Some (conn, remote) \<Rightarrow> \<exists>pkt i. es = [ToServer conn pkt remote] \<and> nat_table c' a = Some i
         \<and> Open L peer pkt = Some (Inr (i, data)))"
proof (cases "oversized c data")
  case True
  then show ?thesis by (auto simp: client_local_def oversized_def Let_def warning_def nat_table_def)
next
  case False
  from client_local_ok [OF assms(1-3) False, of a now True] assms(4) False show ?thesis
    by (cases "cl_conn c") (auto simp: split_beta)
qed

theorem client_sends_on_witness:
  "\<exists>c' es pkt i. client_do sample_libs (Local ''b:2'' [7, 7] 5 True) sample_client = Some (c', es)
     \<and> es = [ToServer 0 pkt ''vps:29900''] \<and> nat_table c' ''b:2'' = Some i
     \<and> Open sample_libs (cl_codec sample_client) pkt = Some (Inr (i, [7, 7]))"
  using client_sends_on [OF sample_libs_ok(1) sample_client_ok(1,2) refl, of "''b:2''" "[7, 7]" 5]
  by (simp add: oversized_def sample_client_def sample_config_def packet_sizes)

text \<open>Replies reach the socket that asked and no other: when the far end seals a reply for flow
  \<open>i\<close>, the client hands its payload to an address exactly if that address holds \<open>i\<close>, hands over
  nothing else, and a reply to a forgotten flow or a keepalive is dropped.\<close>

theorem client_replies_to_owner:
  assumes "libs_ok L" "client_ok c" "codec_ok k" "codec_block (cl_codec c) = codec_block k"
    "Seal L k dst i payload = Some (k', Inr pkt)"
  shows "\<exists>c' es. client_do L (FromTransport pkt now True) c = Some (c', es) \<and> client_ok c'
    \<and> cl_lastRecv c' = now
    \<and> (es = [] \<and> i \<notin> ran (nat_table c) \<or> (\<exists>a. nat_table c a = Some i \<and> es = [ToLocal payload a]))"
proof -
  have f: "flows_ok c" using assms(2) by (simp add: client_ok_def)
  have "HeaderSize + length payload \<le> length dst"
    using assms(5) by (auto simp: Seal_def Let_def split: if_splits)
  from seal_open [OF assms(1,3) this assms(4), of i] assms(5)
  have o: "Open L (cl_codec c) pkt = Some (Inr (i, payload))" by auto
  from client_transport_ok [OF assms(1,2), of pkt now True] o obtain c' where c':
    "client_transport L pkt now True c = Some (c', case client_lookup i c of None \<Rightarrow> []
       | Some p \<Rightarrow> [ToLocal payload (cf_addr (cl_heap c ! p))])" "client_ok c'" "cl_lastRecv c' = now"
    by (cases "client_lookup i c") auto
  show ?thesis
  proof (cases "client_lookup i c")
    case None
    then have "i \<notin> ran (nat_table c)" using nat_table_lookup [OF f, of _ i] by (auto simp: ran_def)
    then show ?thesis using c' None by auto
  next
    case (Some p)
    then have "nat_table c (cf_addr (cl_heap c ! p)) = Some i"
      using nat_table_lookup [OF f] by auto
    then show ?thesis using c' Some by auto
  qed
qed

theorem client_replies_to_owner_witness:
  "\<exists>k' pkt c' es. Seal sample_libs (cl_codec sample_client) (replicate 100 0) 1 [9, 9] = Some (k', Inr pkt)
     \<and> client_do sample_libs (FromTransport pkt 5 True) sample_client = Some (c', es) \<and> es = [ToLocal [9, 9] ''a:1'']"
proof -
  have k: "codec_ok (cl_codec sample_client)" using sample_client_ok(1) by (simp add: client_ok_def)
  obtain k' pkt where s: "Seal sample_libs (cl_codec sample_client) (replicate 100 0) 1 [9, 9] = Some (k', Inr pkt)"
    using seal_open [OF sample_libs_ok(1) k _ refl, of "[9, 9]" "replicate 100 0" 1] by (auto simp: packet_sizes)
  from client_replies_to_owner [OF sample_libs_ok(1) sample_client_ok(1) k refl s, of 5] s
  show ?thesis by (auto simp: sample_client_ok(4) split: if_splits)
qed

text \<open>A tick of \<open>maintain\<close> forgets exactly the flows idle for longer than the configured time, in
  both tables and whatever order the map is walked in, and sends a keepalive exactly when one is
  due and a transport is there.\<close>

theorem client_maintain_spec:
  assumes "libs_ok L" "client_ok c" "codec_block peer = codec_block (cl_codec c)"
  shows "\<exists>c' es. client_do L (Maintain at now) c = Some (c', es) \<and> client_ok c'
    \<and> nat_table c' = nat_table c |` {a. \<not> idle_flow at c a}
    \<and> (case cl_conn c of None \<Rightarrow> es = []
       | Some (conn, remote) \<Rightarrow>
           if ping_due now c then \<exists>pkt. es = [ToServer conn pkt remote] \<and> Open L peer pkt = Some (Inr (KeepAliveFlow, []))
           else es = [])"
proof -
  from client_maintain_ok [OF assms(1,2), of at now] obtain c' pkt where m:
    "client_maintain L at now c = Some (c',
        (if ping_due now c then (case cl_conn c of None \<Rightarrow> [] | Some (conn, remote) \<Rightarrow> [ToServer conn pkt remote]) else []))"
    "client_ok c'" "nat_table c' = nat_table c |` {a. \<not> idle_flow at c a}"
    "Open L peer pkt = Some (Inr (KeepAliveFlow, []))"
    using assms(3) by blast
  then show ?thesis by (auto split: option.split)
qed

theorem client_maintain_spec_witness:
  "\<exists>c' es. client_do sample_libs (Maintain (\<lambda>_. 61 * second) (61 * second)) sample_client = Some (c', es)
     \<and> nat_table c' ''a:1'' = None"
proof -
  have "idle_flow (\<lambda>_. 61 * second) sample_client ''a:1''"
    by (simp add: idle_flow_def sample_client_def sample_config_def clientFlow_idle_def second_def)
  then show ?thesis
    using client_maintain_spec [OF sample_libs_ok(1) sample_client_ok(1) refl, of "\<lambda>_. 61 * second" "61 * second"]
    by auto
qed

text \<open>Only silence makes the watchdog give a transport up: it closes the connection it watches exactly
  if keepalives are on, the connection is still the current one, and more than three keepalive
  intervals have passed since anything was received; otherwise it stops watching exactly if
  keepalives are off or the connection was replaced. Right after a datagram arrives it does not close.\<close>

theorem watchdog_closes_on_silence:
  "client_watchdog conn now c =
     (if 0 < cc_KeepAlive (cl_cfg c) \<and> (\<exists>remote. cl_conn c = Some (conn, remote))
      then if cl_lastRecv c + 3 * cc_KeepAlive (cl_cfg c) * second < now then (False, [CloseTransport conn]) else (True, [])
      else (False, []))
   \<and> (case client_do L (FromTransport buf t sent) c of
        None \<Rightarrow> True
      | Some (c', es) \<Rightarrow> cl_lastRecv c' = t \<and> CloseTransport conn \<notin> set (snd (client_watchdog conn t c')))"
proof -
  have recv: "cl_lastRecv c' = t" if "client_do L (FromTransport buf t sent) c = Some (c', es)" for L buf t sent c' es
  proof -
    from that obtain r where r: "Open L (cl_codec c) buf = Some r"
      by (cases "Open L (cl_codec c) buf") (auto simp: client_transport_def)
    show ?thesis
    proof (cases r)
      case (Inl e)
      then show ?thesis using that r by (auto simp: client_transport_def)
    next
      case (Inr x)
      obtain i payload where "x = (i, payload)" by (cases x)
      then show ?thesis
        using that r Inr
        by (cases "client_lookup i (c\<lparr>cl_lastRecv := t\<rparr>)")
          (auto simp: client_transport_def clientFlow_touch_def Let_def split: if_splits prod.splits)
    qed
  qed
  have "CloseTransport conn \<notin> set (snd (client_watchdog conn (cl_lastRecv c') c'))" for c'
    by (auto simp: client_watchdog_def second_def)
  then have "case client_do L (FromTransport buf t sent) c of
        None \<Rightarrow> True
      | Some (c', es) \<Rightarrow> cl_lastRecv c' = t \<and> CloseTransport conn \<notin> set (snd (client_watchdog conn t c'))"
    using recv [of L buf t sent] by (auto split: option.split)
  moreover have "client_watchdog conn now c =
     (if 0 < cc_KeepAlive (cl_cfg c) \<and> (\<exists>remote. cl_conn c = Some (conn, remote))
      then if cl_lastRecv c + 3 * cc_KeepAlive (cl_cfg c) * second < now then (False, [CloseTransport conn]) else (True, [])
      else (False, []))"
    by (cases "cl_conn c") (auto simp: client_watchdog_def)
  ultimately show ?thesis by blast
qed

end
