(* ===== verification/TunServerFacts.thy ===== *)
theory TunServerFacts
  imports TunServer TunClientFacts
begin

section \<open>The server end implements a table of flows\<close>

text \<open>
  Keys are injective, so that the string-keyed map of the server is a map from client and id to
  the socket of the flow; each event of the server is one operation of that abstract map.
\<close>

subsection \<open>Keys\<close>

definition parse_uint :: "string \<Rightarrow> nat" where
  "parse_uint = foldl (\<lambda>v c. 10 * v + (of_char c - 48)) 0"

lemma of_char_digit: "d < 10 \<Longrightarrow> (of_char (char_of (48 + d)) :: nat) = 48 + d"
  by simp

lemma parse_format_uint: "parse_uint (format_uint n) = n"
proof (induction n rule: format_uint.induct)
  case (1 n)
  show ?case
  proof (cases "n < 10")
    case True
    then show ?thesis by (simp add: format_uint.simps [of n] parse_uint_def)
  next
    case False
    then have "foldl (\<lambda>v c. 10 * v + (of_char c - 48)) 0 (format_uint (n div 10)) = n div 10"
      using 1 by (simp add: parse_uint_def)
    then show ?thesis using False by (simp add: format_uint.simps [of n] parse_uint_def)
  qed
qed

lemma char_of_digit_bar: "d < 10 \<Longrightarrow> char_of (48 + d :: nat) \<noteq> CHR ''|''"
proof
  assume d: "d < 10" and eq: "char_of (48 + d) = CHR ''|''"
  have "(of_char (char_of (48 + d)) :: nat) = of_char CHR ''|''" unfolding eq ..
  with d show False by simp
qed

lemma format_uint_bar: "CHR ''|'' \<notin> set (format_uint n)"
proof (induction n rule: format_uint.induct)
  case (1 n)
  have "CHR ''|'' \<noteq> char_of (48 + n)" if "n < 10" using char_of_digit_bar [OF that] by simp
  moreover have "CHR ''|'' \<noteq> char_of (48 + n mod 10)" using char_of_digit_bar [of "n mod 10"] by simp
  ultimately show ?case using 1 by (cases "n < 10") (simp_all add: format_uint.simps [of n])
qed

text \<open>The last separator splits a key.\<close>

lemma split_at_last:
  assumes "x \<notin> set b" "x \<notin> set d" "a @ x # b = c @ x # d"
  shows "a = c \<and> b = d"
proof -
  have "takeWhile (\<lambda>y. y \<noteq> x) (rev (a @ x # b)) = rev b"
    using assms(1) by (auto simp: takeWhile_append takeWhile_eq_all_conv)
  moreover have "takeWhile (\<lambda>y. y \<noteq> x) (rev (c @ x # d)) = rev d"
    using assms(2) by (auto simp: takeWhile_append takeWhile_eq_all_conv)
  ultimately have "b = d" using assms(3) by simp
  with assms(3) show ?thesis by simp
qed

lemma flowKey_eq_iff: "flowKey a i = flowKey b j \<longleftrightarrow> a = b \<and> i = j"
proof
  assume eq: "flowKey a i = flowKey b j"
  have "a @ CHR ''|'' # format_uint (unat i) = b @ CHR ''|'' # format_uint (unat j)"
    using eq by (simp add: flowKey_def)
  from split_at_last [OF format_uint_bar format_uint_bar this]
  have "a = b" "format_uint (unat i) = format_uint (unat j)" by simp_all
  moreover have "unat i = unat j"
    using arg_cong [OF calculation(2), of parse_uint] by (simp only: parse_format_uint)
  ultimately show "a = b \<and> i = j" by (simp add: word_unat_eq_iff)
qed simp

subsection \<open>The invariant\<close>

definition sflow_ok :: "int \<Rightarrow> serverFlow \<Rightarrow> bool" where
  "sflow_ok limit f \<longleftrightarrow> sf_key f = flowKey (sf_client f) (sf_id f) \<and> sf_id f \<noteq> KeepAliveFlow
     \<and> int (length (sf_out f)) = limit"

definition server_ok :: "server \<Rightarrow> bool" where
  "server_ok s \<longleftrightarrow> codec_ok (sv_codec s) \<and> length (sv_out s) = HeaderSize \<and> 0 \<le> sc_MaxPacket (sv_cfg s)
     \<and> distinct (map fst (sv_flows s)) \<and> (\<forall>f \<in> set (sv_heap s). sflow_ok (sc_MaxPacket (sv_cfg s)) f)
     \<and> (\<forall>key p. map_of (sv_flows s) key = Some p \<longrightarrow> p < length (sv_heap s) \<and> sf_key (sv_heap s ! p) = key)"

lemma server_okD:
  assumes "server_ok s"
  shows "codec_ok (sv_codec s)" "length (sv_out s) = HeaderSize" "0 \<le> sc_MaxPacket (sv_cfg s)"
    "distinct (map fst (sv_flows s))"
    "p < length (sv_heap s) \<Longrightarrow> sflow_ok (sc_MaxPacket (sv_cfg s)) (sv_heap s ! p)"
    "map_of (sv_flows s) key = Some p \<Longrightarrow> p < length (sv_heap s)"
    "map_of (sv_flows s) key = Some p \<Longrightarrow> sf_key (sv_heap s ! p) = key"
    "\<forall>f \<in> set (sv_heap s). sflow_ok (sc_MaxPacket (sv_cfg s)) f"
  using assms by (auto simp: server_ok_def)

text \<open>The abstract table: the socket of the flow of a client and an id.\<close>

definition server_table :: "server \<Rightarrow> addr \<times> u32 \<Rightarrow> nat option" where
  "server_table s = (\<lambda>(a, i). map_option (\<lambda>p. sf_conn (sv_heap s ! p)) (map_of (sv_flows s) (flowKey a i)))"

definition flow_of :: "server \<Rightarrow> nat \<Rightarrow> addr \<times> u32" where
  "flow_of s p = (sf_client (sv_heap s ! p), sf_id (sv_heap s ! p))"

definition live :: "nat \<Rightarrow> server \<Rightarrow> bool" where
  "live p s \<longleftrightarrow> map_of (sv_flows s) (sf_key (sv_heap s ! p)) = Some p"

lemma flow_of_key:
  assumes "server_ok s" "map_of (sv_flows s) (flowKey a i) = Some p"
  shows "flow_of s p = (a, i)" "live p s"
proof -
  have "sf_key (sv_heap s ! p) = flowKey a i" "p < length (sv_heap s)"
    using server_okD(6,7) [OF assms(1)] assms(2) by blast+
  then show "flow_of s p = (a, i)" "live p s"
    using server_okD(5) [OF assms(1)] assms(2) by (auto simp: flow_of_def live_def sflow_ok_def flowKey_eq_iff)
qed

text \<open>What does not touch the tables: a new codec, a time stamp, a buffer refilled.\<close>

lemma server_ok_cong:
  assumes ok: "server_ok s" and "codec_ok (sv_codec s')" "sv_cfg s' = sv_cfg s" "length (sv_out s') = length (sv_out s)"
    "sv_flows s' = sv_flows s"
    "sv_heap s' = sv_heap s \<or> (\<exists>p f. sv_heap s' = (sv_heap s)[p := f] \<and> sf_key f = sf_key (sv_heap s ! p)
       \<and> sf_client f = sf_client (sv_heap s ! p) \<and> sf_id f = sf_id (sv_heap s ! p) \<and> sf_conn f = sf_conn (sv_heap s ! p)
       \<and> length (sf_out f) = length (sf_out (sv_heap s ! p)))"
  shows "server_ok s'" "server_table s' = server_table s" "live p s' = live p s" "flow_of s' p = flow_of s p"
    "length (sv_heap s') = length (sv_heap s)" "sf_conn (sv_heap s' ! p) = sf_conn (sv_heap s ! p)"
    "sf_client (sv_heap s' ! p) = sf_client (sv_heap s ! p)" "sf_id (sv_heap s' ! p) = sf_id (sv_heap s ! p)"
proof -
  have same: "sf_key (sv_heap s' ! q) = sf_key (sv_heap s ! q) \<and> sf_client (sv_heap s' ! q) = sf_client (sv_heap s ! q)
      \<and> sf_id (sv_heap s' ! q) = sf_id (sv_heap s ! q) \<and> sf_conn (sv_heap s' ! q) = sf_conn (sv_heap s ! q)
      \<and> length (sf_out (sv_heap s' ! q)) = length (sf_out (sv_heap s ! q))" for q
    using assms(6)
  proof
    assume "\<exists>p f. sv_heap s' = (sv_heap s)[p := f] \<and> sf_key f = sf_key (sv_heap s ! p)
       \<and> sf_client f = sf_client (sv_heap s ! p) \<and> sf_id f = sf_id (sv_heap s ! p) \<and> sf_conn f = sf_conn (sv_heap s ! p)
       \<and> length (sf_out f) = length (sf_out (sv_heap s ! p))"
    then obtain r f where r: "sv_heap s' = (sv_heap s)[r := f]" "sf_key f = sf_key (sv_heap s ! r)"
       "sf_client f = sf_client (sv_heap s ! r)" "sf_id f = sf_id (sv_heap s ! r)" "sf_conn f = sf_conn (sv_heap s ! r)"
       "length (sf_out f) = length (sf_out (sv_heap s ! r))" by blast
    show ?thesis
    proof (cases "q = r \<and> r < length (sv_heap s)")
      case True
      then show ?thesis using r by simp
    next
      case False
      then have "(sv_heap s)[r := f] ! q = sv_heap s ! q"
        using list_update_beyond [of "sv_heap s" r f] by (cases "q = r") auto
      then show ?thesis using r(1) by simp
    qed
  qed simp
  show len: "length (sv_heap s') = length (sv_heap s)" using assms(6) by auto
  have heap: "\<forall>f \<in> set (sv_heap s'). sflow_ok (sc_MaxPacket (sv_cfg s')) f"
  proof
    fix f
    assume "f \<in> set (sv_heap s')"
    then obtain q where "q < length (sv_heap s')" "f = sv_heap s' ! q" by (auto simp: in_set_conv_nth)
    then show "sflow_ok (sc_MaxPacket (sv_cfg s')) f"
      using server_okD(5) [OF ok, of q] same [of q] len assms(3) by (simp add: sflow_ok_def)
  qed
  show "server_ok s'"
    using heap len same assms(2-5) server_okD [OF ok] unfolding server_ok_def by auto
  show "server_table s' = server_table s"
    using same assms(5) by (simp add: server_table_def fun_eq_iff)
  show "live p s' = live p s" "flow_of s' p = flow_of s p"
    "sf_conn (sv_heap s' ! p) = sf_conn (sv_heap s ! p)"
    "sf_client (sv_heap s' ! p) = sf_client (sv_heap s ! p)" "sf_id (sv_heap s' ! p) = sf_id (sv_heap s ! p)"
    using same [of p] assms(5) by (simp_all add: live_def flow_of_def)
qed

lemma server_touch_ok:
  assumes "server_ok s"
  shows "server_ok (serverFlow_touch p now s)" "server_table (serverFlow_touch p now s) = server_table s"
    "live q (serverFlow_touch p now s) = live q s" "flow_of (serverFlow_touch p now s) q = flow_of s q"
    "length (sv_heap (serverFlow_touch p now s)) = length (sv_heap s)"
    "sf_conn (sv_heap (serverFlow_touch p now s) ! q) = sf_conn (sv_heap s ! q)"
    "sf_client (sv_heap (serverFlow_touch p now s) ! q) = sf_client (sv_heap s ! q)"
    "sf_id (sv_heap (serverFlow_touch p now s) ! q) = sf_id (sv_heap s ! q)"
proof -
  have "\<exists>r f. sv_heap (serverFlow_touch p now s) = (sv_heap s)[r := f] \<and> sf_key f = sf_key (sv_heap s ! r)
       \<and> sf_client f = sf_client (sv_heap s ! r) \<and> sf_id f = sf_id (sv_heap s ! r) \<and> sf_conn f = sf_conn (sv_heap s ! r)
       \<and> length (sf_out f) = length (sf_out (sv_heap s ! r))"
    by (rule exI [of _ p], rule exI [of _ "(sv_heap s ! p)\<lparr>sf_lastActive := now\<rparr>"]) (simp add: serverFlow_touch_def)
  note C = server_ok_cong [OF assms _ _ _ _ disjI2 [OF this]]
  show "server_ok (serverFlow_touch p now s)" "server_table (serverFlow_touch p now s) = server_table s"
    "live q (serverFlow_touch p now s) = live q s" "flow_of (serverFlow_touch p now s) q = flow_of s q"
    "length (sv_heap (serverFlow_touch p now s)) = length (sv_heap s)"
    "sf_conn (sv_heap (serverFlow_touch p now s) ! q) = sf_conn (sv_heap s ! q)"
    "sf_client (sv_heap (serverFlow_touch p now s) ! q) = sf_client (sv_heap s ! q)"
    "sf_id (sv_heap (serverFlow_touch p now s) ! q) = sf_id (sv_heap s ! q)"
    using server_okD(1) [OF assms] by (rule_tac [!] C) (simp_all add: serverFlow_touch_def)
qed

lemma server_touch_fields [simp]:
  "sv_cfg (serverFlow_touch p now s) = sv_cfg s" "sv_codec (serverFlow_touch p now s) = sv_codec s"
  "sv_out (serverFlow_touch p now s) = sv_out s" "sv_flows (serverFlow_touch p now s) = sv_flows s"
  by (simp_all add: serverFlow_touch_def)

subsection \<open>Opening and closing flows\<close>

lemma server_commit_ok:
  assumes ok: "server_ok s" and i: "i \<noteq> KeepAliveFlow" and r: "server_commit a i conn now s = (p, s', es)"
  shows "server_ok s'" "p < length (sv_heap s')" "flow_of s' p = (a, i)" "live p s'"
    "server_table s' = (case server_table s (a, i) of None \<Rightarrow> (server_table s)((a, i) \<mapsto> conn) | Some _ \<Rightarrow> server_table s)"
    "sv_cfg s' = sv_cfg s" "sv_codec s' = sv_codec s" "sv_out s' = sv_out s"
    "length (sv_heap s) \<le> length (sv_heap s')"
    "es = (case server_table s (a, i) of None \<Rightarrow> [] | Some _ \<Rightarrow> [CloseConn conn])"
proof -
  have all: "(server_ok s' \<and> p < length (sv_heap s') \<and> flow_of s' p = (a, i) \<and> live p s' \<and>
    server_table s' = (case server_table s (a, i) of None \<Rightarrow> (server_table s)((a, i) \<mapsto> conn) | Some _ \<Rightarrow> server_table s))
    \<and> sv_cfg s' = sv_cfg s \<and> sv_codec s' = sv_codec s \<and> sv_out s' = sv_out s \<and> length (sv_heap s) \<le> length (sv_heap s')
    \<and> es = (case server_table s (a, i) of None \<Rightarrow> [] | Some _ \<Rightarrow> [CloseConn conn])"
  proof (cases "map_of (sv_flows s) (flowKey a i)")
    case (Some q)
    then have "server_table s (a, i) \<noteq> None" by (simp add: server_table_def)
    then show ?thesis
      using r Some flow_of_key [OF ok Some] server_okD(6) [OF ok Some] ok
      by (auto simp: server_commit_def split: option.splits)
  next
    case None
    let ?f = "\<lparr>sf_conn = conn, sf_client = a, sf_id = i, sf_key = flowKey a i, sf_lastActive = now,
                   sf_out = replicate (nat (sc_MaxPacket (sv_cfg s))) 0\<rparr>"
    have s': "s' = s\<lparr>sv_heap := sv_heap s @ [?f], sv_flows := AList.update (flowKey a i) (length (sv_heap s)) (sv_flows s)\<rparr>"
      "p = length (sv_heap s)" "es = []"
      using r None by (auto simp: server_commit_def Let_def)
    have f: "sflow_ok (sc_MaxPacket (sv_cfg s)) ?f" using i server_okD(3) [OF ok] by (simp add: sflow_ok_def)
    have m: "map_of (sv_flows s') = (map_of (sv_flows s))(flowKey a i \<mapsto> length (sv_heap s))"
      by (simp add: s' update_conv')
    have "q < length (sv_heap s') \<and> sf_key (sv_heap s' ! q) = key" if "map_of (sv_flows s') key = Some q" for key q
    proof (cases "key = flowKey a i")
      case True
      then show ?thesis using that by (simp add: m) (auto simp: s'(1))
    next
      case False
      then have "map_of (sv_flows s) key = Some q" using that by (simp add: m)
      then show ?thesis using server_okD(6,7) [OF ok] by (fastforce simp: s' nth_append)
    qed
    moreover have "\<forall>f \<in> set (sv_heap s'). sflow_ok (sc_MaxPacket (sv_cfg s')) f"
      using f ok by (simp add: s' server_ok_def)
    moreover have "distinct (map fst (sv_flows s'))"
      using server_okD(4) [OF ok] by (simp add: s' distinct_update)
    ultimately have ok': "server_ok s'" using server_okD(1,2,3) [OF ok] unfolding server_ok_def by (simp add: s')
    have "map_of (sv_flows s') (flowKey a i) = Some p" by (simp add: m s'(2))
    note F = flow_of_key [OF ok' this]
    have "server_table s' = (server_table s)((a, i) \<mapsto> conn)"
    proof
      fix x :: "addr \<times> u32"
      obtain b j where x: "x = (b, j)" by (cases x)
      have eq: "flowKey b j = flowKey a i \<longleftrightarrow> (b, j) = (a, i)" using flowKey_eq_iff by simp
      show "server_table s' x = ((server_table s)((a, i) \<mapsto> conn)) x"
      proof (cases "(b, j) = (a, i)")
        case True
        then show ?thesis by (simp add: x server_table_def m) (simp add: s')
      next
        case False
        then show ?thesis
          using eq server_okD(6) [OF ok, of "flowKey b j"]
          by (cases "map_of (sv_flows s) (flowKey b j)") (auto simp: x server_table_def m, auto simp: s' nth_append)
      qed
    qed
    moreover have "server_table s (a, i) = None" using None by (simp add: server_table_def)
    ultimately show ?thesis using ok' F s' by simp
  qed
  then show "server_ok s'" "p < length (sv_heap s')" "flow_of s' p = (a, i)" "live p s'"
    "server_table s' = (case server_table s (a, i) of None \<Rightarrow> (server_table s)((a, i) \<mapsto> conn) | Some _ \<Rightarrow> server_table s)"
    "sv_cfg s' = sv_cfg s" "sv_codec s' = sv_codec s" "sv_out s' = sv_out s"
    "length (sv_heap s) \<le> length (sv_heap s')"
    "es = (case server_table s (a, i) of None \<Rightarrow> [] | Some _ \<Rightarrow> [CloseConn conn])"
    by blast+
qed

lemma server_closeFlow_ok:
  assumes ok: "server_ok s" and p: "p < length (sv_heap s)"
  shows "server_ok (fst (server_closeFlow p s))"
    "server_table (fst (server_closeFlow p s)) =
       (if live p s then (server_table s)(flow_of s p := None) else server_table s)"
    "sv_heap (fst (server_closeFlow p s)) = sv_heap s"
    "sv_cfg (fst (server_closeFlow p s)) = sv_cfg s"
    "snd (server_closeFlow p s) = (if live p s then [CloseConn (sf_conn (sv_heap s ! p))] else [])"
    "live q (fst (server_closeFlow p s)) \<longleftrightarrow> live q s \<and> q \<noteq> p"
proof -
  let ?key = "sf_key (sv_heap s ! p)"
  have key: "?key = flowKey (sf_client (sv_heap s ! p)) (sf_id (sv_heap s ! p))"
    using server_okD(5) [OF ok p] by (simp add: sflow_ok_def)
  have q: "live q s \<longleftrightarrow> map_of (sv_flows s) (sf_key (sv_heap s ! q)) = Some q" for q by (simp add: live_def)
  have eq: "server_closeFlow p s =
      (if live p s then (s\<lparr>sv_flows := AList.delete ?key (sv_flows s)\<rparr>, [CloseConn (sf_conn (sv_heap s ! p))]) else (s, []))"
    by (simp add: server_closeFlow_def Let_def live_def)
  show "server_ok (fst (server_closeFlow p s))"
  proof (cases "live p s")
    case True
    let ?s = "s\<lparr>sv_flows := AList.delete ?key (sv_flows s)\<rparr>"
    have "q < length (sv_heap ?s) \<and> sf_key (sv_heap ?s ! q) = k" if "map_of (sv_flows ?s) k = Some q" for k q
      using that server_okD(6,7) [OF ok, of k q] by (auto simp: delete_conv' split: if_splits)
    moreover have "distinct (map fst (sv_flows ?s))" using server_okD(4) [OF ok] by (simp add: distinct_delete)
    moreover have "codec_ok (sv_codec ?s)" "length (sv_out ?s) = HeaderSize" "0 \<le> sc_MaxPacket (sv_cfg ?s)"
      "\<forall>f \<in> set (sv_heap ?s). sflow_ok (sc_MaxPacket (sv_cfg ?s)) f"
      using server_okD(1,2,3,8) [OF ok] by simp_all
    ultimately have "server_ok ?s" unfolding server_ok_def by blast
    then show ?thesis using True eq by simp
  qed (use ok eq in simp)
  show "sv_heap (fst (server_closeFlow p s)) = sv_heap s" "sv_cfg (fst (server_closeFlow p s)) = sv_cfg s"
    "snd (server_closeFlow p s) = (if live p s then [CloseConn (sf_conn (sv_heap s ! p))] else [])"
    by (simp_all add: eq)
  show "live q (fst (server_closeFlow p s)) \<longleftrightarrow> live q s \<and> q \<noteq> p"
  proof (cases "live p s")
    case True
    have m: "map_of (sv_flows (fst (server_closeFlow p s))) (sf_key (sv_heap (fst (server_closeFlow p s)) ! q)) =
        (if sf_key (sv_heap s ! q) = ?key then None else map_of (sv_flows s) (sf_key (sv_heap s ! q)))"
      using True by (simp add: eq delete_conv')
    have lp: "map_of (sv_flows s) ?key = Some p" using True by (simp only: live_def)
    show ?thesis unfolding live_def m using lp by (metis option.distinct(1) option.inject)
  next
    case False
    then show ?thesis by (auto simp: eq)
  qed
  show "server_table (fst (server_closeFlow p s)) =
       (if live p s then (server_table s)(flow_of s p := None) else server_table s)"
  proof
    fix x :: "addr \<times> u32"
    obtain a i where x: "x = (a, i)" by (cases x)
    have "flowKey a i = ?key \<longleftrightarrow> (a, i) = flow_of s p"
      using flowKey_eq_iff key by (simp add: flow_of_def)
    then show "server_table (fst (server_closeFlow p s)) x =
        (if live p s then (server_table s)(flow_of s p := None) else server_table s) x"
      by (auto simp: x eq server_table_def delete_conv')
  qed
qed

lemma server_closeAll_ok:
  assumes "server_ok s" "\<forall>p \<in> set ps. p < length (sv_heap s)"
  shows "server_ok (fst (server_closeAll ps s)) \<and> sv_heap (fst (server_closeAll ps s)) = sv_heap s
    \<and> sv_cfg (fst (server_closeAll ps s)) = sv_cfg s \<and> sv_codec (fst (server_closeAll ps s)) = sv_codec s
    \<and> server_table (fst (server_closeAll ps s)) = server_table s |` (- {flow_of s p | p. p \<in> set ps \<and> live p s})"
  using assms
proof (induction ps arbitrary: s)
  case Nil
  then show ?case by simp
next
  case (Cons p ps)
  let ?s1 = "fst (server_closeFlow p s)"
  have p: "p < length (sv_heap s)" using Cons.prems(2) by simp
  note C = server_closeFlow_ok [OF Cons.prems(1) p]
  have codec: "sv_codec ?s1 = sv_codec s" by (simp add: server_closeFlow_def Let_def)
  have fl: "flow_of ?s1 q = flow_of s q" for q using C(3) by (simp add: flow_of_def)
  have ih: "server_ok (fst (server_closeAll ps ?s1))" "sv_heap (fst (server_closeAll ps ?s1)) = sv_heap s"
    "sv_cfg (fst (server_closeAll ps ?s1)) = sv_cfg s" "sv_codec (fst (server_closeAll ps ?s1)) = sv_codec s"
    "server_table (fst (server_closeAll ps ?s1)) = server_table ?s1 |` (- {flow_of s q | q. q \<in> set ps \<and> live q s \<and> q \<noteq> p})"
    using Cons.IH [OF C(1)] Cons.prems(2) C(3,4) codec by (auto simp: fl C(6))
  have eq: "fst (server_closeAll (p # ps) s) = fst (server_closeAll ps ?s1)"
    by (simp add: split_beta Let_def)
  have "server_table ?s1 |` (- {flow_of s q | q. q \<in> set ps \<and> live q s \<and> q \<noteq> p}) =
      server_table s |` (- {flow_of s q | q. q \<in> set (p # ps) \<and> live q s})"
    unfolding C(2) by (auto simp: fun_eq_iff restrict_map_def)
  then show ?case using ih unfolding eq by simp
qed

definition idle_sflow :: "(string \<Rightarrow> int) \<Rightarrow> server \<Rightarrow> addr \<times> u32 \<Rightarrow> bool" where
  "idle_sflow at s = (\<lambda>(a, i). case map_of (sv_flows s) (flowKey a i) of
     None \<Rightarrow> False
   | Some p \<Rightarrow> serverFlow_idle (at (flowKey a i)) (sv_heap s ! p) > sc_Idle (sv_cfg s) * second)"

lemma server_reap_ok:
  assumes ok: "server_ok s"
  shows "server_ok (fst (server_reap at s))" "sv_heap (fst (server_reap at s)) = sv_heap s"
    "sv_codec (fst (server_reap at s)) = sv_codec s"
    "server_table (fst (server_reap at s)) = server_table s |` {k. \<not> idle_sflow at s k}"
proof -
  have stale: "p \<in> set (server_stale at s) \<longleftrightarrow>
      (\<exists>key. map_of (sv_flows s) key = Some p \<and> serverFlow_idle (at key) (sv_heap s ! p) > sc_Idle (sv_cfg s) * second)" for p
    using server_okD(4) [OF ok] by (force simp: server_stale_def)
  have bound: "\<forall>p \<in> set (server_stale at s). p < length (sv_heap s)"
    using stale server_okD(6) [OF ok] by blast
  note C = server_closeAll_ok [OF ok bound]
  show "server_ok (fst (server_reap at s))" "sv_heap (fst (server_reap at s)) = sv_heap s"
    "sv_codec (fst (server_reap at s)) = sv_codec s"
    using C by (simp_all add: server_reap_def)
  have key: "k \<in> {flow_of s p | p. p \<in> set (server_stale at s) \<and> live p s} \<longleftrightarrow> idle_sflow at s k" for k
  proof
    assume "k \<in> {flow_of s p | p. p \<in> set (server_stale at s) \<and> live p s}"
    then obtain p key where p: "k = flow_of s p" "map_of (sv_flows s) key = Some p"
      "serverFlow_idle (at key) (sv_heap s ! p) > sc_Idle (sv_cfg s) * second"
      using stale by blast
    have "key = flowKey (sf_client (sv_heap s ! p)) (sf_id (sv_heap s ! p))"
      using server_okD(5) [OF ok server_okD(6) [OF ok p(2)]] server_okD(7) [OF ok p(2)] by (simp add: sflow_ok_def)
    then show "idle_sflow at s k" using p by (simp add: idle_sflow_def flow_of_def)
  next
    assume i: "idle_sflow at s k"
    obtain a j where k: "k = (a, j)" by (cases k)
    with i obtain p where p: "map_of (sv_flows s) (flowKey a j) = Some p"
      "serverFlow_idle (at (flowKey a j)) (sv_heap s ! p) > sc_Idle (sv_cfg s) * second"
      by (auto simp: idle_sflow_def split: option.splits)
    then have "p \<in> set (server_stale at s)" using stale by blast
    with flow_of_key [OF ok p(1)] k show "k \<in> {flow_of s p | p. p \<in> set (server_stale at s) \<and> live p s}" by force
  qed
  have "- {flow_of s p | p. p \<in> set (server_stale at s) \<and> live p s} = {k. \<not> idle_sflow at s k}"
    using key by blast
  then show "server_table (fst (server_reap at s)) = server_table s |` {k. \<not> idle_sflow at s k}"
    using C by (simp add: server_reap_def)
qed

subsection \<open>The receive loop\<close>

text \<open>What a datagram does to the abstract table, and to whom its payload goes.\<close>

fun table_use :: "addr \<times> u32 \<Rightarrow> nat option \<Rightarrow> bool \<Rightarrow> (addr \<times> u32 \<Rightarrow> nat option) \<Rightarrow> (addr \<times> u32 \<Rightarrow> nat option)" where
  "table_use k dialed written m = (case m k of
     Some c \<Rightarrow> if written then m else m(k := None)
   | None \<Rightarrow> (case dialed of None \<Rightarrow> m | Some c \<Rightarrow> if written then m(k \<mapsto> c) else m))"

definition use_effect :: "addr \<times> u32 \<Rightarrow> nat option \<Rightarrow> bool \<Rightarrow> (addr \<times> u32 \<Rightarrow> nat option) \<Rightarrow> bytes \<Rightarrow> server_effect list" where
  "use_effect k dialed written m payload =
     (case (case m k of Some c \<Rightarrow> Some c | None \<Rightarrow> dialed) of
        None \<Rightarrow> []
      | Some c \<Rightarrow> if written then [ToTarget c payload] else [CloseConn c])"

lemma server_flowFor_ok:
  assumes ok: "server_ok s" and i: "i \<noteq> KeepAliveFlow" and r: "server_flowFor a i dialed now s = Some (p, s', es)"
  shows "server_ok s'" "p < length (sv_heap s')" "flow_of s' p = (a, i)" "live p s'" "es = []"
    "server_table s' (a, i) = (case server_table s (a, i) of Some c \<Rightarrow> Some c | None \<Rightarrow> dialed)"
    "server_table s' = (server_table s)((a, i) := server_table s' (a, i))"
    "sv_cfg s' = sv_cfg s" "sv_codec s' = sv_codec s" "sv_out s' = sv_out s" "length (sv_heap s) \<le> length (sv_heap s')"
proof -
  have "(server_ok s' \<and> p < length (sv_heap s') \<and> flow_of s' p = (a, i) \<and> live p s' \<and> es = [])
    \<and> (server_table s' (a, i) = (case server_table s (a, i) of Some c \<Rightarrow> Some c | None \<Rightarrow> dialed)
    \<and> server_table s' = (server_table s)((a, i) := server_table s' (a, i)))
    \<and> sv_cfg s' = sv_cfg s \<and> sv_codec s' = sv_codec s \<and> sv_out s' = sv_out s \<and> length (sv_heap s) \<le> length (sv_heap s')"
  proof (cases "map_of (sv_flows s) (flowKey a i)")
    case (Some q)
    then have "server_table s (a, i) \<noteq> None" by (simp add: server_table_def)
    then show ?thesis
      using r Some flow_of_key [OF ok Some] server_okD(6) [OF ok Some] ok
      by (auto simp: server_flowFor_def)
  next
    case None
    then have t: "server_table s (a, i) = None" by (simp add: server_table_def)
    from r None obtain c where c: "dialed = Some c" "server_commit a i c now s = (p, s', es)"
      by (auto simp: server_flowFor_def split: option.splits)
    from server_commit_ok [OF ok i c(2)] t c(1) show ?thesis by simp
  qed
  then show "server_ok s'" "p < length (sv_heap s')" "flow_of s' p = (a, i)" "live p s'" "es = []"
    "server_table s' (a, i) = (case server_table s (a, i) of Some c \<Rightarrow> Some c | None \<Rightarrow> dialed)"
    "server_table s' = (server_table s)((a, i) := server_table s' (a, i))"
    "sv_cfg s' = sv_cfg s" "sv_codec s' = sv_codec s" "sv_out s' = sv_out s" "length (sv_heap s) \<le> length (sv_heap s')"
    by blast+
qed

lemma flow_of_table:
  assumes "server_ok s" "live p s" "flow_of s p = (a, i)" "p < length (sv_heap s)"
  shows "server_table s (a, i) = Some (sf_conn (sv_heap s ! p))"
proof -
  have "sf_key (sv_heap s ! p) = flowKey a i"
    using server_okD(5) [OF assms(1,4)] assms(3) by (simp add: sflow_ok_def flow_of_def)
  then show ?thesis using assms(2) by (simp add: live_def server_table_def)
qed

lemma server_recv_flow:
  assumes L: "libs_ok L" and ok: "server_ok s" and o: "Open L (sv_codec s) buf = Some (Inr (i, payload))"
    and i: "i \<noteq> KeepAliveFlow"
  shows "\<exists>s'. server_recv L a buf dialed now written s =
      Some (s', use_effect (a, i) dialed written (server_table s) payload)
    \<and> server_ok s' \<and> sv_codec s' = sv_codec s \<and> length (sv_heap s) \<le> length (sv_heap s')
    \<and> sv_cfg s' = sv_cfg s \<and> server_table s' = table_use (a, i) dialed written (server_table s)"
proof (cases "server_flowFor a i dialed now s")
  case None
  then have "server_table s (a, i) = None" "dialed = None"
    by (auto simp: server_flowFor_def server_table_def split: option.splits)
  then show ?thesis using o i None ok by (simp add: server_recv_def use_effect_def)
next
  case (Some x)
  obtain p s1 es where x: "x = (p, s1, es)" by (cases x)
  note F = server_flowFor_ok [OF ok i Some [unfolded x]]
  let ?s2 = "serverFlow_touch p now s1"
  note T = server_touch_ok [OF F(1), where p = p and now = now]
  have p2: "p < length (sv_heap ?s2)" using F(2) T(5) by simp
  have room: "\<not> sc_MaxPacket (sv_cfg ?s2) < 0" using server_okD(3) [OF T(1)] by simp
  have fl: "flow_of ?s2 p = (a, i)" "live p ?s2" using F(3,4) T(3,4) by simp_all
  have tbl: "server_table s1 (a, i) = Some (sf_conn (sv_heap ?s2 ! p))"
    using flow_of_table [OF T(1) fl(2,1) p2] T(2) by simp
  define c where "c = sf_conn (sv_heap ?s2 ! p)"
  have found: "(case server_table s (a, i) of Some c \<Rightarrow> Some c | None \<Rightarrow> dialed) = Some c"
    using F(6) tbl by (simp add: c_def)
  have use: "table_use (a, i) dialed written (server_table s) =
      (if written then (server_table s)((a, i) \<mapsto> c) else (server_table s)((a, i) := None))"
    using found by (auto simp: fun_eq_iff split: option.splits)
  have eff: "use_effect (a, i) dialed written (server_table s) payload = (if written then [ToTarget c payload] else [CloseConn c])"
    using found by (simp add: use_effect_def)
  show ?thesis
  proof (cases written)
    case True
    then have "server_recv L a buf dialed now written s = Some (?s2, [ToTarget c payload])"
      using o i Some x F(5) room by (simp add: server_recv_def c_def Let_def)
    moreover have "server_table ?s2 = (server_table s)((a, i) \<mapsto> c)"
      using F(7) tbl T(2) by (simp add: c_def)
    ultimately show ?thesis
      using T(1,5) F(8,9,11) unfolding use eff by (intro exI [of _ ?s2]) (simp add: True)
  next
    case False
    note C = server_closeFlow_ok [OF T(1) p2]
    let ?s3 = "fst (server_closeFlow p ?s2)"
    have "server_recv L a buf dialed now written s = Some (?s3, [CloseConn c])"
      using o i Some x F(5) False C(5) fl(2) room by (simp add: server_recv_def c_def split_beta Let_def)
    moreover have "server_table ?s3 = (server_table s1)((a, i) := None)"
      using C(2) fl T(2) by simp
    moreover have "\<dots> = (server_table s)((a, i) := None)"
      by (subst F(7)) (rule fun_upd_upd)
    moreover have "sv_codec ?s3 = sv_codec s" "length (sv_heap s) \<le> length (sv_heap ?s3)" "sv_cfg ?s3 = sv_cfg s"
      using F(8,9,11) C(3) T(5) by (simp_all add: server_closeFlow_def Let_def)
    ultimately show ?thesis
      using C(1) unfolding use eff by (intro exI [of _ ?s3]) (simp add: False)
  qed
qed

lemma server_recv_keepalive:
  assumes L: "libs_ok L" and ok: "server_ok s" and o: "Open L (sv_codec s) buf = Some (Inr (KeepAliveFlow, payload))"
  shows "\<exists>s' pkt. server_recv L a buf dialed now written s = Some (s', [ToClient pkt a])
    \<and> server_ok s' \<and> sv_heap s' = sv_heap s \<and> server_table s' = server_table s
    \<and> codec_block (sv_codec s') = codec_block (sv_codec s)
    \<and> (\<forall>peer. codec_block peer = codec_block (sv_codec s) \<longrightarrow> Open L peer pkt = Some (Inr (KeepAliveFlow, [])))"
proof -
  have codec: "codec_ok (sv_codec s)" and dst: "HeaderSize + length [] \<le> length (sv_out s)"
    using server_okD(1,2) [OF ok] by simp_all
  note so = seal_open [OF L codec dst]
  obtain k pkt where k: "Seal L (sv_codec s) (sv_out s) KeepAliveFlow [] = Some (k, Inr pkt)"
    "length pkt = HeaderSize" "codec_ok k" "codec_block k = codec_block (sv_codec s)"
    using so [OF refl, of KeepAliveFlow] by auto
  have opens: "Open L peer pkt = Some (Inr (KeepAliveFlow, []))" if "codec_block peer = codec_block (sv_codec s)" for peer
    using so [OF that, of KeepAliveFlow] k(1) by auto
  let ?s = "s\<lparr>sv_codec := k, sv_out := put_at 0 pkt (sv_out s)\<rparr>"
  have "server_recv L a buf dialed now written s = Some (?s, [ToClient pkt a])"
    using o k(1) by (simp add: server_recv_def)
  moreover have "server_ok ?s" "server_table ?s = server_table s"
    using dst k(2,3) by (rule_tac [!] server_ok_cong [OF ok]) simp_all
  ultimately show ?thesis using opens k(4) by (intro exI [of _ ?s] exI [of _ pkt]) simp
qed

lemma server_recv_ok:
  assumes L: "libs_ok L" and ok: "server_ok s"
  shows "\<exists>s' es. server_recv L a buf dialed now written s = Some (s', es) \<and> server_ok s'
    \<and> codec_block (sv_codec s') = codec_block (sv_codec s) \<and> length (sv_heap s) \<le> length (sv_heap s')"
proof -
  have cok: "crypt_ok (codec_block (sv_codec s))" using server_okD(1) [OF ok] by (simp add: codec_ok_def)
  obtain r where r: "Open L (sv_codec s) buf = Some r"
  proof (cases "length buf < HeaderSize")
    case True
    then show ?thesis using that by (simp add: Open_def)
  next
    case False
    then show ?thesis using that Open_eq [OF L cok, of buf] by auto
  qed
  show ?thesis
  proof (cases r)
    case (Inl e)
    then show ?thesis using r ok by (simp add: server_recv_def)
  next
    case (Inr x)
    obtain i payload where x: "x = (i, payload)" by (cases x)
    show ?thesis
    proof (cases "i = KeepAliveFlow")
      case True
      then have "Open L (sv_codec s) buf = Some (Inr (KeepAliveFlow, payload))" using r Inr x by simp
      from server_recv_keepalive [OF L ok this, of a dialed now written] show ?thesis by (auto simp del: One_nat_def)
    next
      case False
      from server_recv_flow [OF L ok _ False, of buf payload a dialed now written] r Inr x show ?thesis by auto
    qed
  qed
qed

subsection \<open>The pump\<close>

lemma server_pump_sends:
  assumes L: "libs_ok L" and ok: "server_ok s" and p: "p < length (sv_heap s)"
    and small: "int (HeaderSize + length data) \<le> sc_MaxPacket (sv_cfg s)"
  shows "\<exists>s' pkt. server_pump L p (Some data) now sent s = Some (s',
        if sent then [ToClient pkt (sf_client (sv_heap s ! p))]
        else if live p s then [CloseConn (sf_conn (sv_heap s ! p))] else [])
    \<and> server_ok s' \<and> length (sv_heap s') = length (sv_heap s)
    \<and> server_table s' = (if \<not> sent \<and> live p s then (server_table s)(flow_of s p := None) else server_table s)
    \<and> codec_block (sv_codec s') = codec_block (sv_codec s)
    \<and> (\<forall>peer. codec_block peer = codec_block (sv_codec s) \<longrightarrow>
         Open L peer pkt = Some (Inr (sf_id (sv_heap s ! p), data)))"
proof -
  let ?s1 = "serverFlow_touch p now s"
  note T = server_touch_ok [OF ok, where p = p and now = now]
  have p1: "p < length (sv_heap ?s1)" using p T(5) by simp
  let ?f = "sv_heap ?s1 ! p"
  have out: "int (length (sf_out ?f)) = sc_MaxPacket (sv_cfg s)"
    using server_okD(5) [OF T(1) p1] by (simp add: sflow_ok_def)
  have codec: "codec_ok (sv_codec s)" using server_okD(1) [OF ok] .
  have dst: "HeaderSize + length data \<le> length (sf_out ?f)" using small out by simp
  note so = seal_open [OF L codec dst]
  obtain k pkt where k: "Seal L (sv_codec s) (sf_out ?f) (sf_id ?f) data = Some (k, Inr pkt)"
    "length pkt = HeaderSize + length data" "codec_ok k" "codec_block k = codec_block (sv_codec s)"
    using so [OF refl, of "sf_id ?f"] by auto
  have opens: "Open L peer pkt = Some (Inr (sf_id (sv_heap s ! p), data))"
    if "codec_block peer = codec_block (sv_codec s)" for peer
    using so [OF that, of "sf_id ?f"] k(1) T(8) by auto
  let ?g = "?f\<lparr>sf_out := put_at 0 pkt (sf_out ?f)\<rparr>"
  let ?s2 = "?s1\<lparr>sv_codec := k, sv_heap := (sv_heap ?s1)[p := ?g]\<rparr>"
  have "\<exists>r f. sv_heap ?s2 = (sv_heap ?s1)[r := f] \<and> sf_key f = sf_key (sv_heap ?s1 ! r)
       \<and> sf_client f = sf_client (sv_heap ?s1 ! r) \<and> sf_id f = sf_id (sv_heap ?s1 ! r) \<and> sf_conn f = sf_conn (sv_heap ?s1 ! r)
       \<and> length (sf_out f) = length (sf_out (sv_heap ?s1 ! r))"
    using dst k(2) by (intro exI [of _ p] exI [of _ ?g]) simp
  note C = server_ok_cong [OF T(1) _ _ _ _ disjI2 [OF this]]
  have C1: "server_ok ?s2" "server_table ?s2 = server_table ?s1" "live p ?s2 = live p ?s1" "flow_of ?s2 p = flow_of ?s1 p"
    "length (sv_heap ?s2) = length (sv_heap ?s1)" "sf_conn (sv_heap ?s2 ! p) = sf_conn (sv_heap ?s1 ! p)"
    by (rule_tac [!] C) (simp_all add: k(3))
  have p2: "p < length (sv_heap ?s2)" using p1 C1(5) by simp
  note X = server_closeFlow_ok [OF C1(1) p2]
  let ?s3 = "fst (server_closeFlow p ?s2)"
  have codec3: "sv_codec ?s3 = k" by (simp add: server_closeFlow_def Let_def)
  have run: "server_pump L p (Some data) now sent s = Some (if sent then ?s2 else ?s3,
      if sent then [ToClient pkt (sf_client ?f)] else snd (server_closeFlow p ?s2))"
    using small k(1) by (simp add: server_pump_def Let_def)
  show ?thesis
  proof (cases sent)
    case True
    then show ?thesis
      using run C1 T opens k(4) by (intro exI [of _ ?s2] exI [of _ pkt]) simp
  next
    case False
    have "server_table ?s3 = (if live p s then (server_table s)(flow_of s p := None) else server_table s)"
      using X(2) C1(2,3,4) T(2,3,4) by simp
    moreover have "snd (server_closeFlow p ?s2) = (if live p s then [CloseConn (sf_conn (sv_heap s ! p))] else [])"
      using X(5) C1(3,6) T(3,6) by simp
    moreover have "length (sv_heap ?s3) = length (sv_heap s)"
      using X(3) C1(5) T(5) by simp
    ultimately show ?thesis
      using run False X(1) opens k(4) codec3 by (intro exI [of _ ?s3] exI [of _ pkt]) simp
  qed
qed

text \<open>Every event as an operation of the abstract table.\<close>

definition pump_fails :: "server \<Rightarrow> bytes option \<Rightarrow> bool \<Rightarrow> bool" where
  "pump_fails s received sent \<longleftrightarrow> (case received of
     None \<Rightarrow> True
   | Some data \<Rightarrow> int (HeaderSize + length data) \<le> sc_MaxPacket (sv_cfg s) \<and> \<not> sent)"

fun server_apply :: "crypt_libs \<Rightarrow> server \<Rightarrow> server_event \<Rightarrow> (addr \<times> u32 \<Rightarrow> nat option) \<Rightarrow> (addr \<times> u32 \<Rightarrow> nat option)" where
  "server_apply L s (Received a buf dialed now written) m = (case Open L (sv_codec s) buf of
     Some (Inr (i, payload)) \<Rightarrow> if i = KeepAliveFlow then m else table_use (a, i) dialed written m
   | _ \<Rightarrow> m)"
| "server_apply L s (Pumped p received now sent) m =
     (if pump_fails s received sent \<and> live p s then m(flow_of s p := None) else m)"
| "server_apply L s (Reaped at) m = m |` {k. \<not> idle_sflow at s k}"
| "server_apply L s (Raced a i conn now) m = (case m (a, i) of None \<Rightarrow> m((a, i) \<mapsto> conn) | Some _ \<Rightarrow> m)"

text \<open>A pump belongs to a flow that was opened; the keepalive id never reaches \<open>flowFor\<close>.\<close>

fun event_ok :: "server \<Rightarrow> server_event \<Rightarrow> bool" where
  "event_ok s (Pumped p received now sent) = (p < length (sv_heap s))"
| "event_ok s (Raced a i conn now) = (i \<noteq> KeepAliveFlow)"
| "event_ok s _ = True"

lemma server_do_ok:
  assumes L: "libs_ok L" and ok: "server_ok s" and ev: "event_ok s ev"
  shows "\<exists>s' es. server_do L ev s = Some (s', es) \<and> server_ok s'
    \<and> codec_block (sv_codec s') = codec_block (sv_codec s)
    \<and> server_table s' = server_apply L s ev (server_table s)"
proof (cases ev)
  case (Received a buf dialed now written)
  from server_recv_ok [OF L ok, of a buf dialed now written] obtain s' es where r:
    "server_recv L a buf dialed now written s = Some (s', es)" "server_ok s'"
    "codec_block (sv_codec s') = codec_block (sv_codec s)" by blast
  moreover have "server_table s' = server_apply L s ev (server_table s)"
  proof (cases "Open L (sv_codec s) buf")
    case None
    with r(1) show ?thesis by (simp add: server_recv_def)
  next
    case (Some res)
    show ?thesis
    proof (cases res)
      case (Inl e)
      then show ?thesis using r(1) Some Received by (simp add: server_recv_def)
    next
      case (Inr x)
      obtain i payload where x: "x = (i, payload)" by (cases x)
      show ?thesis
      proof (cases "i = KeepAliveFlow")
        case True
        then have "Open L (sv_codec s) buf = Some (Inr (KeepAliveFlow, payload))" using Some Inr x by simp
        from server_recv_keepalive [OF L ok this, of a dialed now written] r(1) this
        show ?thesis using Received by auto
      next
        case False
        have o: "Open L (sv_codec s) buf = Some (Inr (i, payload))" using Some Inr x by simp
        from server_recv_flow [OF L ok o False, of a dialed now written] r(1) o False
        show ?thesis using Received by auto
      qed
    qed
  qed
  ultimately show ?thesis using Received by simp
next
  case (Pumped p received now sent)
  then have p: "p < length (sv_heap s)" using ev by simp
  note X = server_closeFlow_ok [OF ok p]
  have codec: "sv_codec (fst (server_closeFlow p s)) = sv_codec s" by (simp add: server_closeFlow_def Let_def)
  show ?thesis
  proof (cases received)
    case None
    then have "server_do L ev s = Some (server_closeFlow p s)" using Pumped by (simp add: server_pump_def)
    then show ?thesis
      using X(1,2) codec Pumped None
      by (intro exI [of _ "fst (server_closeFlow p s)"] exI [of _ "snd (server_closeFlow p s)"])
        (simp add: pump_fails_def)
  next
    case (Some data)
    show ?thesis
    proof (cases "int (HeaderSize + length data) \<le> sc_MaxPacket (sv_cfg s)")
      case True
      from server_pump_sends [OF L ok p True, of now sent] Some Pumped True show ?thesis
        by (auto simp: pump_fails_def)
    next
      case False
      then show ?thesis using Some Pumped ok by (simp add: server_pump_def pump_fails_def)
    qed
  qed
next
  case (Reaped at)
  then show ?thesis using server_reap_ok [OF ok, of at]
    by (intro exI [of _ "fst (server_reap at s)"] exI [of _ "snd (server_reap at s)"]) simp
next
  case (Raced a i conn now)
  then have i: "i \<noteq> KeepAliveFlow" using ev by simp
  obtain p s' es where c: "server_commit a i conn now s = (p, s', es)" by (cases "server_commit a i conn now s")
  from server_commit_ok [OF ok i c] c Raced show ?thesis by simp
qed

subsection \<open>What the server promises\<close>

lemma live_of_table:
  assumes "server_ok s" "server_table s (a, i) = Some k"
  shows "\<exists>p. p < length (sv_heap s) \<and> live p s \<and> flow_of s p = (a, i) \<and> sf_conn (sv_heap s ! p) = k"
proof -
  obtain p where p: "map_of (sv_flows s) (flowKey a i) = Some p" "sf_conn (sv_heap s ! p) = k"
    using assms(2) by (auto simp: server_table_def)
  show ?thesis using flow_of_key [OF assms(1) p(1)] server_okD(6) [OF assms(1) p(1)] p(2) by blast
qed

definition sample_server :: server where
  "sample_server = \<lparr>sv_cfg = \<lparr>sc_Target = ''127.0.0.1:12948'', sc_MaxPacket = 1350, sc_SockBuf = 0, sc_DSCP = 0,
       sc_Idle = 60, sc_Quiet = True\<rparr>, sv_codec = sample_codec (simpleXORBlockCrypt [1, 2, 3]),
     sv_heap = [], sv_flows = [], sv_out = replicate HeaderSize 0\<rparr>"

lemma sample_server_ok: "server_ok sample_server" "codec_block (sv_codec sample_server) = simpleXORBlockCrypt [1, 2, 3]"
  "server_table sample_server = Map.empty"
  by (auto simp: server_ok_def sample_server_def sample_codec_ok server_table_def fun_eq_iff)

text \<open>The string key of a flow determines the client and the id: no client's flow is mistaken for
  another's, whatever the address contains.\<close>

theorem flowKey_injective: "flowKey a i = flowKey b j \<longleftrightarrow> a = b \<and> i = j"
  by (rule flowKey_eq_iff)

text \<open>C20. The server's tables refine a map from client and id to a socket: every event, any bytes from any
  peer, a pump's datagram or error, a reaping, a flow committed in a race, succeeds without a panic,
  keeps the invariant, and acts on the abstract map as the event's operation: a datagram binds its
  flow to the dialed socket or uses the bound one, a failed write or a dead pump unbinds its flow only
  while it is current, reaping unbinds exactly the idle flows.\<close>

theorem server_refines_table:
  assumes "libs_ok L" "server_ok s" "event_ok s ev"
  shows "\<exists>s' es. server_do L ev s = Some (s', es) \<and> server_ok s'
    \<and> codec_block (sv_codec s') = codec_block (sv_codec s)
    \<and> server_table s' = server_apply L s ev (server_table s)"
  by (rule server_do_ok [OF assms])

theorem server_refines_table_witness:
  "\<exists>s' es. server_do sample_libs (Raced ''c:1'' 5 42 7) sample_server = Some (s', es) \<and> server_ok s'
     \<and> server_table s' = [(''c:1'', 5) \<mapsto> 42]"
  using server_refines_table [OF sample_libs_ok(1) sample_server_ok(1), of "Raced ''c:1'' 5 42 7"]
  by (auto simp: sample_server_ok(3) KeepAliveFlow_def)

text \<open>A sealed datagram reaches the target unchanged on the socket of its flow, which is the bound
  one or the freshly dialed; when neither exists nothing is sent, when the write fails the flow is
  closed; a keepalive is answered to its sender with a keepalive and touches no flow.\<close>

theorem server_forwards:
  assumes "libs_ok L" "server_ok s" "codec_ok k" "codec_block (sv_codec s) = codec_block k"
    "Seal L k dst i payload = Some (k', Inr pkt)"
  shows "\<exists>s' es. server_do L (Received a pkt dialed now written) s = Some (s', es) \<and> server_ok s' \<and>
    (if i = KeepAliveFlow
     then server_table s' = server_table s \<and> (\<exists>pong. es = [ToClient pong a] \<and> Open L k pong = Some (Inr (KeepAliveFlow, [])))
     else server_table s' = table_use (a, i) dialed written (server_table s)
       \<and> es = use_effect (a, i) dialed written (server_table s) payload)"
proof -
  have "HeaderSize + length payload \<le> length dst"
    using assms(5) by (auto simp: Seal_def Let_def split: if_splits)
  from seal_open [OF assms(1,3) this assms(4), of i] assms(5)
  have o: "Open L (sv_codec s) pkt = Some (Inr (i, payload))" by auto
  show ?thesis
  proof (cases "i = KeepAliveFlow")
    case True
    with o have o': "Open L (sv_codec s) pkt = Some (Inr (KeepAliveFlow, payload))" by simp
    from server_recv_keepalive [OF assms(1,2) o', of a dialed now written] obtain s' pong where r:
      "server_recv L a pkt dialed now written s = Some (s', [ToClient pong a])" "server_ok s'"
      "server_table s' = server_table s"
      "\<forall>peer. codec_block peer = codec_block (sv_codec s) \<longrightarrow> Open L peer pong = Some (Inr (KeepAliveFlow, []))" by blast
    then show ?thesis using True assms(4) by simp
  next
    case False
    from server_recv_flow [OF assms(1,2) o False, of a dialed now written] False show ?thesis by auto
  qed
qed

theorem server_forwards_witness:
  "\<exists>k' pkt s' es. Seal sample_libs (sv_codec sample_server) (replicate 100 0) 5 [9, 9] = Some (k', Inr pkt)
     \<and> server_do sample_libs (Received ''c:1'' pkt (Some 42) 7 True) sample_server = Some (s', es)
     \<and> server_table s' = [(''c:1'', 5) \<mapsto> 42] \<and> es = [ToTarget 42 [9, 9]]"
proof -
  have k: "codec_ok (sv_codec sample_server)" using server_okD(1) [OF sample_server_ok(1)] .
  obtain k' pkt where s: "Seal sample_libs (sv_codec sample_server) (replicate 100 0) 5 [9, 9] = Some (k', Inr pkt)"
    using seal_open [OF sample_libs_ok(1) k _ refl, of "[9, 9]" "replicate 100 0" 5] by (auto simp: packet_sizes)
  from server_forwards [OF sample_libs_ok(1) sample_server_ok(1) k refl s, of "''c:1''" "Some 42" 7 True] s
  show ?thesis by (auto simp: sample_server_ok(3) KeepAliveFlow_def use_effect_def)
qed

text \<open>A pump answers the client it was opened for: a datagram read from the target is sealed for the
  id of the flow and sent to the flow's client, unless it would exceed the packet limit, in which
  case it is dropped and nothing changes.\<close>

theorem server_pump_replies:
  assumes "libs_ok L" "server_ok s" "p < length (sv_heap s)" "codec_block peer = codec_block (sv_codec s)"
  shows "\<exists>s' es. server_do L (Pumped p (Some data) now True) s = Some (s', es) \<and> server_ok s'
    \<and> server_table s' = server_table s
    \<and> (if int (HeaderSize + length data) > sc_MaxPacket (sv_cfg s) then es = [] \<and> s' = s
       else \<exists>pkt. es = [ToClient pkt (fst (flow_of s p))] \<and> Open L peer pkt = Some (Inr (snd (flow_of s p), data)))"
proof (cases "int (HeaderSize + length data) > sc_MaxPacket (sv_cfg s)")
  case True
  then show ?thesis using assms(2) by (simp add: server_pump_def)
next
  case False
  then have "int (HeaderSize + length data) \<le> sc_MaxPacket (sv_cfg s)" by simp
  from server_pump_sends [OF assms(1-3) this, of now True] False assms(4) show ?thesis
    by (auto simp: flow_of_def)
qed

definition busy_server :: server where
  "busy_server = fst (snd (server_commit ''c:1'' 5 42 7 sample_server))"

lemma busy_server_ok: "server_ok busy_server" "length (sv_heap busy_server) = 1" "flow_of busy_server 0 = (''c:1'', 5)"
  "sc_MaxPacket (sv_cfg busy_server) = 1350" "sv_codec busy_server = sv_codec sample_server"
  using server_commit_ok(1) [OF sample_server_ok(1), of 5 "''c:1''" 42 7]
  by (simp_all add: busy_server_def KeepAliveFlow_def)
    (simp_all add: server_commit_def sample_server_def flow_of_def Let_def)

theorem server_pump_replies_witness:
  "\<exists>s' es pkt. server_do sample_libs (Pumped 0 (Some [8]) 9 True) busy_server = Some (s', es)
     \<and> es = [ToClient pkt ''c:1''] \<and> Open sample_libs (sv_codec busy_server) pkt = Some (Inr (5, [8]))"
  using server_pump_replies [OF sample_libs_ok(1) busy_server_ok(1) _ refl, of 0 "[8]" 9]
  by (auto simp: busy_server_ok packet_sizes)

end
