(* ===== verification/Relay.thy ===== *)
theory Relay
  imports TunServerFacts
begin

section \<open>Client and server together\<close>

text \<open>One exchange through both ends of the UDP tunnel.\<close>

text \<open>C2. The relay is transparent: a datagram a local application sends arrives unchanged at the target,
  and the target's reply, read on the socket the server used for it, arrives unchanged at the
  application that asked, whatever else the two tables hold, for any cipher, as long as both
  datagrams fit the packet limits.\<close>

theorem relay_transparent:
  assumes L: "libs_ok L" and c: "client_ok c" and s: "server_ok s"
    and same: "codec_block (sv_codec s) = codec_block (cl_codec c)"
    and ids: "length (cl_byID c) < 2 ^ 32 - 1" and conn: "cl_conn c = Some (t, remote)"
    and fits: "\<not> oversized c data" "int (HeaderSize + length reply) \<le> sc_MaxPacket (sv_cfg s)"
  shows "\<exists>c1 pkt i s1 k p s2 pkt2 c2.
    client_do L (Local a data t1 True) c = Some (c1, [ToServer t pkt remote])
    \<and> server_do L (Received from_addr pkt (Some fresh) t2 True) s = Some (s1, [ToTarget k data])
    \<and> p < length (sv_heap s1) \<and> sf_conn (sv_heap s1 ! p) = k \<and> flow_of s1 p = (from_addr, i)
    \<and> server_do L (Pumped p (Some reply) t3 True) s1 = Some (s2, [ToClient pkt2 from_addr])
    \<and> client_do L (FromTransport pkt2 t4 True) c1 = Some (c2, [ToLocal reply a])
    \<and> client_ok c2 \<and> server_ok s2"
proof -
  from client_local_ok [OF L c ids fits(1), of a t1 True] conn obtain c1 pkt i where c1:
    "client_local L a data t1 True c = Some (c1, [ToServer t pkt remote])" "client_ok c1"
    "codec_block (cl_codec c1) = codec_block (cl_codec c)" "nat_table c1 a = Some i"
    "Open L (sv_codec s) pkt = Some (Inr (i, data))"
    using same by auto
  have f1: "flows_ok c1" using c1(2) by (simp add: client_ok_def)
  have i: "i \<noteq> KeepAliveFlow" using nat_table_live(1) [OF f1 c1(4)] .
  from server_recv_flow [OF L s c1(5) i, of from_addr "Some fresh" t2 True] obtain s1 where s1:
    "server_recv L from_addr pkt (Some fresh) t2 True s = Some (s1, use_effect (from_addr, i) (Some fresh) True (server_table s) data)"
    "server_ok s1" "sv_codec s1 = sv_codec s" "sv_cfg s1 = sv_cfg s" "server_table s1 = table_use (from_addr, i) (Some fresh) True (server_table s)"
    by blast
  have "\<exists>k. use_effect (from_addr, i) (Some fresh) True (server_table s) data = [ToTarget k data]
      \<and> server_table s1 (from_addr, i) = Some k"
    unfolding s1(5) by (auto simp: use_effect_def split: option.split)
  then obtain k where k: "use_effect (from_addr, i) (Some fresh) True (server_table s) data = [ToTarget k data]"
    "server_table s1 (from_addr, i) = Some k" by blast
  from live_of_table [OF s1(2) k(2)] obtain p where p: "p < length (sv_heap s1)" "flow_of s1 p = (from_addr, i)"
    "sf_conn (sv_heap s1 ! p) = k" by blast
  from server_pump_sends [OF L s1(2) p(1), of reply t3 True] fits(2) s1(4) obtain s2 pkt2 where s2:
    "server_pump L p (Some reply) t3 True s1 = Some (s2, [ToClient pkt2 (sf_client (sv_heap s1 ! p))])" "server_ok s2"
    "Open L (cl_codec c1) pkt2 = Some (Inr (sf_id (sv_heap s1 ! p), reply))"
    using same c1(3) s1(3) by auto
  have who: "sf_client (sv_heap s1 ! p) = from_addr" "sf_id (sv_heap s1 ! p) = i"
    using p(2) by (simp_all add: flow_of_def)
  obtain q where q: "client_lookup i c1 = Some q" "cf_addr (cl_heap c1 ! q) = a"
    using c1(4) unfolding nat_table_lookup [OF f1] by blast
  from client_transport_ok [OF L c1(2), of pkt2 t4 True] s2(3) who q obtain c2 where c2:
    "client_transport L pkt2 t4 True c1 = Some (c2, [ToLocal reply a])" "client_ok c2"
    by auto
  show ?thesis
    by (rule exI [of _ c1], rule exI [of _ pkt], rule exI [of _ i], rule exI [of _ s1], rule exI [of _ k],
        rule exI [of _ p], rule exI [of _ s2], rule exI [of _ pkt2], rule exI [of _ c2])
      (use c1 s1 k p s2 who c2 in simp)
qed

theorem relay_transparent_witness:
  "\<exists>c1 pkt s1 k p s2 pkt2 c2.
    client_do sample_libs (Local ''b:2'' [1, 2] 5 True) sample_client = Some (c1, [ToServer 0 pkt ''vps:29900''])
    \<and> server_do sample_libs (Received ''c:1'' pkt (Some 42) 6 True) sample_server = Some (s1, [ToTarget k [1, 2]])
    \<and> server_do sample_libs (Pumped p (Some [3]) 7 True) s1 = Some (s2, [ToClient pkt2 ''c:1''])
    \<and> client_do sample_libs (FromTransport pkt2 8 True) c1 = Some (c2, [ToLocal [3] ''b:2''])"
proof -
  have "\<exists>c1 pkt i s1 k p s2 pkt2 c2.
    client_do sample_libs (Local ''b:2'' [1, 2] 5 True) sample_client = Some (c1, [ToServer 0 pkt ''vps:29900''])
    \<and> server_do sample_libs (Received ''c:1'' pkt (Some 42) 6 True) sample_server = Some (s1, [ToTarget k [1, 2]])
    \<and> p < length (sv_heap s1) \<and> sf_conn (sv_heap s1 ! p) = k \<and> flow_of s1 p = (''c:1'', i)
    \<and> server_do sample_libs (Pumped p (Some [3]) 7 True) s1 = Some (s2, [ToClient pkt2 ''c:1''])
    \<and> client_do sample_libs (FromTransport pkt2 8 True) c1 = Some (c2, [ToLocal [3] ''b:2''])
    \<and> client_ok c2 \<and> server_ok s2"
    by (rule relay_transparent [OF sample_libs_ok(1) sample_client_ok(1) sample_server_ok(1) _ sample_client_ok(2)])
      (simp_all add: sample_client_ok(3) sample_server_ok(2),
       simp_all add: sample_client_def sample_config_def oversized_def sample_server_def packet_sizes)
  then show ?thesis by blast
qed

end
