(* ===== verification/Flags.thy ===== *)
theory Flags
  imports Prelude
begin

section \<open>Command lines and configuration files\<close>

text \<open>
  What the four programs share: command-line flags with a default and perhaps an environment
  variable, read through a context of the command-line library, and a JSON object decoded into a
  configuration record by field tag. The library that parses the command line is a parameter, the
  context; what the programs rely on, that a flag has the value given, else the value of its
  environment variable, else its default, is the hypothesis \<open>serves\<close>.
\<close>

subsection \<open>Flags\<close>

datatype flag_value = VString string | VInt int | VBool bool

record cli_flag =
  flag_Name :: string
  flag_Value :: flag_value
  flag_EnvVar :: "string option"

record cli_context =
  ctx_String :: "string \<Rightarrow> string"
  ctx_Int :: "string \<Rightarrow> int"
  ctx_Bool :: "string \<Rightarrow> bool"

text \<open>A flag may have several names, separated by commas; the programs ask for the first.\<close>

definition flag_key :: "cli_flag \<Rightarrow> string" where
  "flag_key f = takeWhile (\<lambda>c. c \<noteq> CHR '','') (flag_Name f)"

fun same_type :: "flag_value \<Rightarrow> flag_value \<Rightarrow> bool" where
  "same_type (VString _) (VString _) = True"
| "same_type (VInt _) (VInt _) = True"
| "same_type (VBool _) (VBool _) = True"
| "same_type _ _ = False"

definition context_value :: "cli_context \<Rightarrow> cli_flag \<Rightarrow> flag_value" where
  "context_value ctx f = (case flag_Value f of
     VString _ \<Rightarrow> VString (ctx_String ctx (flag_key f))
   | VInt _ \<Rightarrow> VInt (ctx_Int ctx (flag_key f))
   | VBool _ \<Rightarrow> VBool (ctx_Bool ctx (flag_key f)))"

definition flag_or_default :: "(string \<Rightarrow> flag_value option) \<Rightarrow> (string \<Rightarrow> string option) \<Rightarrow> cli_flag \<Rightarrow> flag_value" where
  "flag_or_default given env f = (case given (flag_key f) of
     Some v \<Rightarrow> v
   | None \<Rightarrow> (case Option.bind (flag_EnvVar f) env of Some s \<Rightarrow> VString s | None \<Rightarrow> flag_Value f))"

definition serves ::
  "cli_flag list \<Rightarrow> (string \<Rightarrow> flag_value option) \<Rightarrow> (string \<Rightarrow> string option) \<Rightarrow> cli_context \<Rightarrow> bool" where
  "serves flags given env ctx \<longleftrightarrow> (\<forall>f \<in> set flags. context_value ctx f = flag_or_default given env f)"

text \<open>A context of the kind the library builds, to show that the hypothesis can hold.\<close>

definition find_flag :: "cli_flag list \<Rightarrow> string \<Rightarrow> cli_flag option" where
  "find_flag flags n = find (\<lambda>f. flag_key f = n) flags"

definition context_of ::
  "cli_flag list \<Rightarrow> (string \<Rightarrow> flag_value option) \<Rightarrow> (string \<Rightarrow> string option) \<Rightarrow> cli_context" where
  "context_of flags given env =
     (let value = \<lambda>n. map_option (flag_or_default given env) (find_flag flags n) in
      \<lparr>ctx_String = (\<lambda>n. case value n of Some (VString s) \<Rightarrow> s | _ \<Rightarrow> []),
       ctx_Int = (\<lambda>n. case value n of Some (VInt i) \<Rightarrow> i | _ \<Rightarrow> 0),
       ctx_Bool = (\<lambda>n. case value n of Some (VBool b) \<Rightarrow> b | _ \<Rightarrow> False)\<rparr>)"

definition well_typed :: "cli_flag list \<Rightarrow> (string \<Rightarrow> flag_value option) \<Rightarrow> bool" where
  "well_typed flags given \<longleftrightarrow> distinct (map flag_key flags)
     \<and> (\<forall>f \<in> set flags. (case given (flag_key f) of None \<Rightarrow> True | Some v \<Rightarrow> same_type v (flag_Value f))
         \<and> (case flag_EnvVar f of None \<Rightarrow> True | Some _ \<Rightarrow> same_type (VString []) (flag_Value f)))"

lemma find_flag_self:
  assumes "distinct (map flag_key flags)" "f \<in> set flags"
  shows "find_flag flags (flag_key f) = Some f"
  using assms by (induction flags) (auto simp: find_flag_def)

lemma serves_context_of:
  assumes "well_typed flags given"
  shows "serves flags given env (context_of flags given env)"
  unfolding serves_def
proof
  fix f assume f: "f \<in> set flags"
  have look: "find_flag flags (flag_key f) = Some f"
    using assms f by (simp add: well_typed_def find_flag_self)
  have ty: "case given (flag_key f) of None \<Rightarrow> True | Some v \<Rightarrow> same_type v (flag_Value f)"
      "case flag_EnvVar f of None \<Rightarrow> True | Some _ \<Rightarrow> same_type (VString []) (flag_Value f)"
    using assms f unfolding well_typed_def by blast+
  show "context_value (context_of flags given env) f = flag_or_default given env f"
    using ty look
    by (cases "flag_Value f"; cases "flag_or_default given env f")
      (auto simp: context_value_def context_of_def flag_or_default_def Let_def bind_eq_None_conv
        split: option.splits)
qed

subsection \<open>JSON\<close>

text \<open>
  A parsed document is an object, a list of members in order, or something else. \<open>JOther\<close> is any
  value no field of a configuration takes: a fraction, an array, an object, an integer that does
  not fit in 64 bits.
\<close>

datatype json_value = JNull | JString string | JInt int | JBool bool | JOther

type_synonym json_object = "(string \<times> json_value) list"

datatype json_file = Unreadable | Malformed | JsonNull | JsonObject json_object

definition set_string :: "(string \<Rightarrow> 'c \<Rightarrow> 'c) \<Rightarrow> json_value \<Rightarrow> 'c \<Rightarrow> 'c option" where
  "set_string f j c = (case j of JNull \<Rightarrow> Some c | JString s \<Rightarrow> Some (f s c) | _ \<Rightarrow> None)"

definition set_int :: "(int \<Rightarrow> 'c \<Rightarrow> 'c) \<Rightarrow> json_value \<Rightarrow> 'c \<Rightarrow> 'c option" where
  "set_int f j c = (case j of JNull \<Rightarrow> Some c | JInt i \<Rightarrow> Some (f i c) | _ \<Rightarrow> None)"

definition set_bool :: "(bool \<Rightarrow> 'c \<Rightarrow> 'c) \<Rightarrow> json_value \<Rightarrow> 'c \<Rightarrow> 'c option" where
  "set_bool f j c = (case j of JNull \<Rightarrow> Some c | JBool b \<Rightarrow> Some (f b c) | _ \<Rightarrow> None)"

text \<open>
  Tags match without regard to case; the long s and the Kelvin sign, as they are in UTF-8, count as the
  letters they fold to.
\<close>

definition lower :: "char \<Rightarrow> char" where
  "lower c = (let n = of_char c :: nat in if 65 \<le> n \<and> n \<le> 90 then char_of (n + 32) else c)"

fun fold_key :: "string \<Rightarrow> string" where
  "fold_key [] = []"
| "fold_key (c # k) =
     (if c = CHR 0xC5 \<and> take 1 k = [CHR 0xBF] then CHR ''s'' # fold_key (drop 1 k)
      else if c = CHR 0xE2 \<and> take 2 k = [CHR 0x84, CHR 0xAA] then CHR ''k'' # fold_key (drop 2 k)
      else lower c # fold_key k)"

type_synonym 'c json_fields = "(string \<times> (json_value \<Rightarrow> 'c \<Rightarrow> 'c option)) list"

text \<open>
  \<open>Decode\<close> into a record: members without a field are skipped; a member of the wrong type leaves
  its field alone, and the error is returned when the rest has been decoded.
\<close>

fun decode_object :: "'c json_fields \<Rightarrow> json_object \<Rightarrow> 'c \<Rightarrow> 'c \<times> bool" where
  "decode_object tags [] c = (c, True)"
| "decode_object tags ((k, j) # js) c = (case map_of tags (fold_key k) of
     None \<Rightarrow> decode_object tags js c
   | Some set_field \<Rightarrow> (case set_field j c of
       None \<Rightarrow> (fst (decode_object tags js c), False)
     | Some c \<Rightarrow> decode_object tags js c))"

definition parseJSONConfig :: "'c json_fields \<Rightarrow> json_file \<Rightarrow> 'c \<Rightarrow> 'c \<times> bool" where
  "parseJSONConfig tags file c = (case file of
     Unreadable \<Rightarrow> (c, False)
   | Malformed \<Rightarrow> (c, False)
   | JsonNull \<Rightarrow> (c, True)
   | JsonObject js \<Rightarrow> decode_object tags js c)"

fun json_flag :: "json_value \<Rightarrow> flag_value option" where
  "json_flag (JString s) = Some (VString s)"
| "json_flag (JInt i) = Some (VInt i)"
| "json_flag (JBool b) = Some (VBool b)"
| "json_flag _ = None"

definition fits_field :: "json_value \<Rightarrow> flag_value \<Rightarrow> bool" where
  "fits_field j v \<longleftrightarrow> j = JNull \<or> (case json_flag j of None \<Rightarrow> False | Some w \<Rightarrow> same_type w v)"

text \<open>The value a document gives to a field: that of the last member for it that is not null.\<close>

fun json_gives :: "json_object \<Rightarrow> string \<Rightarrow> flag_value option" where
  "json_gives [] n = None"
| "json_gives ((k, j) # js) n = (case json_gives js n of
     Some v \<Rightarrow> Some v
   | None \<Rightarrow> if fold_key k = n then json_flag j else None)"

fun file_gives :: "json_file \<Rightarrow> string \<Rightarrow> flag_value option" where
  "file_gives (JsonObject js) n = json_gives js n"
| "file_gives _ n = None"

text \<open>How a \<open>main\<close> ends, or what it leaves running.\<close>

datatype 'a main_result = Version | Exit | Panics | Running 'a

text \<open>
  The interface of a configuration: its fields as a table of values, and its setters. A setter
  changes its own field only, and refuses exactly the values of another type.
\<close>

locale config_table =
  fixes view :: "'c \<Rightarrow> (string \<times> flag_value) list" and tags :: "'c json_fields"
  assumes same_keys: "map fst (view c) = map fst tags"
    and set_view: "map_of tags k = Some s \<Longrightarrow> s j c = Some c' \<Longrightarrow>
      map_of (view c') n = (if n = k \<and> json_flag j \<noteq> None then json_flag j else map_of (view c) n)"
    and set_fits: "map_of tags k = Some s \<Longrightarrow> s j c \<noteq> None \<longleftrightarrow> fits_field j (the (map_of (view c) k))"
begin

lemma no_field: "map_of tags n = None \<longleftrightarrow> map_of (view c) n = None"
  using same_keys [of c] by (simp add: map_of_eq_None_iff flip: set_map)

lemma decode_view:
  assumes "decode_object tags js c = (c', True)"
  shows "map_of (view c') n = (case json_gives js n of
      Some v \<Rightarrow> if map_of (view c) n = None then None else Some v | None \<Rightarrow> map_of (view c) n)"
  using assms
proof (induction js arbitrary: c)
  case (Cons x js)
  obtain k j where x: "x = (k, j)" by (cases x)
  show ?case
  proof (cases "map_of tags (fold_key k)")
    case None
    then have "map_of (view c) (fold_key k) = None" using no_field by blast
    then show ?thesis
      using Cons None by (auto simp: x split: option.splits)
  next
    case (Some s)
    then obtain c1 where c1: "s j c = Some c1" "decode_object tags js c1 = (c', True)"
      using Cons.prems by (auto simp: x split: option.splits)
    have have_field: "map_of (view c) (fold_key k) \<noteq> None"
      using Some no_field [of "fold_key k" c] by simp
    then show ?thesis
      using Cons.IH [OF c1(2)] set_view [OF Some c1(1), of n] by (auto simp: x split: option.splits)
  qed
qed simp

lemma set_keeps_type:
  assumes "map_of tags k = Some s" "s j c = Some c'"
  shows "fits_field i (the (map_of (view c') n)) = fits_field i (the (map_of (view c) n))"
proof (cases "n = k \<and> json_flag j \<noteq> None")
  case True
  then obtain w where w: "json_flag j = Some w" by blast
  have "fits_field j (the (map_of (view c) k))" using set_fits [OF assms(1), of j c] assms(2) by simp
  then have "same_type w (the (map_of (view c) k))"
    using w by (auto simp: fits_field_def)
  moreover have "same_type a w \<longleftrightarrow> same_type a v" if "same_type w v" for a v
    using that by (cases a; cases w; cases v) simp_all
  ultimately show ?thesis
    using True w set_view [OF assms, of n] by (auto simp: fits_field_def split: option.split)
next
  case False
  then show ?thesis using set_view [OF assms, of n] by auto
qed

lemma decode_ok:
  "snd (decode_object tags js c) \<longleftrightarrow>
     (\<forall>(k, j) \<in> set js. map_of tags (fold_key k) \<noteq> None \<longrightarrow> fits_field j (the (map_of (view c) (fold_key k))))"
proof (induction js arbitrary: c)
  case (Cons x js)
  obtain k j where x: "x = (k, j)" by (cases x)
  show ?case
  proof (cases "map_of tags (fold_key k)")
    case None
    then show ?thesis using Cons by (simp add: x)
  next
    case (Some s)
    show ?thesis
    proof (cases "s j c")
      case None
      then show ?thesis using set_fits [OF Some, of j c] Some by (simp add: x)
    next
      case 2: (Some c1)
      have "fits_field j (the (map_of (view c) (fold_key k)))"
        using set_fits [OF Some, of j c] 2 by simp
      then show ?thesis
        using Cons.IH [of c1] set_keeps_type [OF Some 2] by (simp add: x Some 2)
    qed
  qed
qed simp

lemma parse_view:
  assumes "parseJSONConfig tags file c = (c', True)"
  shows "map_of (view c') n = (case file_gives file n of
      Some v \<Rightarrow> if map_of (view c) n = None then None else Some v | None \<Rightarrow> map_of (view c) n)"
  using assms decode_view by (cases "file") (auto simp: parseJSONConfig_def)

end

end
