(* ===== verification/StreamConfig.thy ===== *)
theory StreamConfig
  imports Flags
begin

section \<open>Configuration of the stream tunnel (client/config.go, server/config.go)\<close>

text \<open>
  The configuration records of client and server with the tags their JSON decoder uses, the flags
  of the two command lines, the tuning profiles, and how \<open>main\<close> puts a configuration together.
\<close>

definition DefaultMark :: int where "DefaultMark = 0x6b6370"

definition default_key :: string where "default_key = ''it's a secrect''"

subsection \<open>Client\<close>

record client_Config =
  kc_LocalAddr :: string
  kc_RemoteAddr :: string
  kc_Key :: string
  kc_Crypt :: string
  kc_Mode :: string
  kc_Conn :: int
  kc_AutoExpire :: int
  kc_ScavengeTTL :: int
  kc_MTU :: int
  kc_SndWnd :: int
  kc_RcvWnd :: int
  kc_DataShard :: int
  kc_ParityShard :: int
  kc_DSCP :: int
  kc_NoComp :: bool
  kc_AckNodelay :: bool
  kc_NoDelay :: int
  kc_Interval :: int
  kc_Resend :: int
  kc_NoCongestion :: int
  kc_SockBuf :: int
  kc_SmuxBuf :: int
  kc_KeepAlive :: int
  kc_Log :: string
  kc_SnmpLog :: string
  kc_SnmpPeriod :: int
  kc_Quiet :: bool
  kc_TCP :: bool
  kc_TCPMark :: int

definition client_Config_flags :: "cli_flag list" where
  "client_Config_flags =
     [\<lparr>flag_Name = ''localaddr,l'', flag_Value = VString '':12948'', flag_EnvVar = None\<rparr>,
      \<lparr>flag_Name = ''remoteaddr, r'', flag_Value = VString ''vps:29900'', flag_EnvVar = None\<rparr>,
      \<lparr>flag_Name = ''key'', flag_Value = VString default_key, flag_EnvVar = Some ''KCPTUN_KEY''\<rparr>,
      \<lparr>flag_Name = ''crypt'', flag_Value = VString ''aes'', flag_EnvVar = None\<rparr>,
      \<lparr>flag_Name = ''mode'', flag_Value = VString ''fast'', flag_EnvVar = None\<rparr>,
      \<lparr>flag_Name = ''conn'', flag_Value = VInt 1, flag_EnvVar = None\<rparr>,
      \<lparr>flag_Name = ''autoexpire'', flag_Value = VInt 0, flag_EnvVar = None\<rparr>,
      \<lparr>flag_Name = ''scavengettl'', flag_Value = VInt 600, flag_EnvVar = None\<rparr>,
      \<lparr>flag_Name = ''mtu'', flag_Value = VInt 1350, flag_EnvVar = None\<rparr>,
      \<lparr>flag_Name = ''sndwnd'', flag_Value = VInt 128, flag_EnvVar = None\<rparr>,
      \<lparr>flag_Name = ''rcvwnd'', flag_Value = VInt 512, flag_EnvVar = None\<rparr>,
      \<lparr>flag_Name = ''datashard,ds'', flag_Value = VInt 10, flag_EnvVar = None\<rparr>,
      \<lparr>flag_Name = ''parityshard,ps'', flag_Value = VInt 3, flag_EnvVar = None\<rparr>,
      \<lparr>flag_Name = ''dscp'', flag_Value = VInt 0, flag_EnvVar = None\<rparr>,
      \<lparr>flag_Name = ''nocomp'', flag_Value = VBool False, flag_EnvVar = None\<rparr>,
      \<lparr>flag_Name = ''acknodelay'', flag_Value = VBool False, flag_EnvVar = None\<rparr>,
      \<lparr>flag_Name = ''nodelay'', flag_Value = VInt 0, flag_EnvVar = None\<rparr>,
      \<lparr>flag_Name = ''interval'', flag_Value = VInt 50, flag_EnvVar = None\<rparr>,
      \<lparr>flag_Name = ''resend'', flag_Value = VInt 0, flag_EnvVar = None\<rparr>,
      \<lparr>flag_Name = ''nc'', flag_Value = VInt 0, flag_EnvVar = None\<rparr>,
      \<lparr>flag_Name = ''sockbuf'', flag_Value = VInt 4194304, flag_EnvVar = None\<rparr>,
      \<lparr>flag_Name = ''smuxbuf'', flag_Value = VInt 4194304, flag_EnvVar = None\<rparr>,
      \<lparr>flag_Name = ''keepalive'', flag_Value = VInt 10, flag_EnvVar = None\<rparr>,
      \<lparr>flag_Name = ''snmplog'', flag_Value = VString '''', flag_EnvVar = None\<rparr>,
      \<lparr>flag_Name = ''snmpperiod'', flag_Value = VInt 60, flag_EnvVar = None\<rparr>,
      \<lparr>flag_Name = ''log'', flag_Value = VString '''', flag_EnvVar = None\<rparr>,
      \<lparr>flag_Name = ''quiet'', flag_Value = VBool False, flag_EnvVar = None\<rparr>,
      \<lparr>flag_Name = ''tcp'', flag_Value = VBool False, flag_EnvVar = None\<rparr>,
      \<lparr>flag_Name = ''tcpmark'', flag_Value = VInt DefaultMark, flag_EnvVar = None\<rparr>,
      \<lparr>flag_Name = ''c'', flag_Value = VString '''', flag_EnvVar = None\<rparr>]"

definition client_Config_of_flags :: "cli_context \<Rightarrow> client_Config" where
  "client_Config_of_flags c =
     \<lparr>kc_LocalAddr = ctx_String c ''localaddr'',
      kc_RemoteAddr = ctx_String c ''remoteaddr'',
      kc_Key = ctx_String c ''key'',
      kc_Crypt = ctx_String c ''crypt'',
      kc_Mode = ctx_String c ''mode'',
      kc_Conn = ctx_Int c ''conn'',
      kc_AutoExpire = ctx_Int c ''autoexpire'',
      kc_ScavengeTTL = ctx_Int c ''scavengettl'',
      kc_MTU = ctx_Int c ''mtu'',
      kc_SndWnd = ctx_Int c ''sndwnd'',
      kc_RcvWnd = ctx_Int c ''rcvwnd'',
      kc_DataShard = ctx_Int c ''datashard'',
      kc_ParityShard = ctx_Int c ''parityshard'',
      kc_DSCP = ctx_Int c ''dscp'',
      kc_NoComp = ctx_Bool c ''nocomp'',
      kc_AckNodelay = ctx_Bool c ''acknodelay'',
      kc_NoDelay = ctx_Int c ''nodelay'',
      kc_Interval = ctx_Int c ''interval'',
      kc_Resend = ctx_Int c ''resend'',
      kc_NoCongestion = ctx_Int c ''nc'',
      kc_SockBuf = ctx_Int c ''sockbuf'',
      kc_SmuxBuf = ctx_Int c ''smuxbuf'',
      kc_KeepAlive = ctx_Int c ''keepalive'',
      kc_Log = ctx_String c ''log'',
      kc_SnmpLog = ctx_String c ''snmplog'',
      kc_SnmpPeriod = ctx_Int c ''snmpperiod'',
      kc_Quiet = ctx_Bool c ''quiet'',
      kc_TCP = ctx_Bool c ''tcp'',
      kc_TCPMark = ctx_Int c ''tcpmark''\<rparr>"

definition client_Config_tags :: "client_Config json_fields" where
  "client_Config_tags =
     [(''localaddr'', set_string (\<lambda>v c. c\<lparr>kc_LocalAddr := v\<rparr>)),
      (''remoteaddr'', set_string (\<lambda>v c. c\<lparr>kc_RemoteAddr := v\<rparr>)),
      (''key'', set_string (\<lambda>v c. c\<lparr>kc_Key := v\<rparr>)),
      (''crypt'', set_string (\<lambda>v c. c\<lparr>kc_Crypt := v\<rparr>)),
      (''mode'', set_string (\<lambda>v c. c\<lparr>kc_Mode := v\<rparr>)),
      (''conn'', set_int (\<lambda>v c. c\<lparr>kc_Conn := v\<rparr>)),
      (''autoexpire'', set_int (\<lambda>v c. c\<lparr>kc_AutoExpire := v\<rparr>)),
      (''scavengettl'', set_int (\<lambda>v c. c\<lparr>kc_ScavengeTTL := v\<rparr>)),
      (''mtu'', set_int (\<lambda>v c. c\<lparr>kc_MTU := v\<rparr>)),
      (''sndwnd'', set_int (\<lambda>v c. c\<lparr>kc_SndWnd := v\<rparr>)),
      (''rcvwnd'', set_int (\<lambda>v c. c\<lparr>kc_RcvWnd := v\<rparr>)),
      (''datashard'', set_int (\<lambda>v c. c\<lparr>kc_DataShard := v\<rparr>)),
      (''parityshard'', set_int (\<lambda>v c. c\<lparr>kc_ParityShard := v\<rparr>)),
      (''dscp'', set_int (\<lambda>v c. c\<lparr>kc_DSCP := v\<rparr>)),
      (''nocomp'', set_bool (\<lambda>v c. c\<lparr>kc_NoComp := v\<rparr>)),
      (''acknodelay'', set_bool (\<lambda>v c. c\<lparr>kc_AckNodelay := v\<rparr>)),
      (''nodelay'', set_int (\<lambda>v c. c\<lparr>kc_NoDelay := v\<rparr>)),
      (''interval'', set_int (\<lambda>v c. c\<lparr>kc_Interval := v\<rparr>)),
      (''resend'', set_int (\<lambda>v c. c\<lparr>kc_Resend := v\<rparr>)),
      (''nc'', set_int (\<lambda>v c. c\<lparr>kc_NoCongestion := v\<rparr>)),
      (''sockbuf'', set_int (\<lambda>v c. c\<lparr>kc_SockBuf := v\<rparr>)),
      (''smuxbuf'', set_int (\<lambda>v c. c\<lparr>kc_SmuxBuf := v\<rparr>)),
      (''keepalive'', set_int (\<lambda>v c. c\<lparr>kc_KeepAlive := v\<rparr>)),
      (''log'', set_string (\<lambda>v c. c\<lparr>kc_Log := v\<rparr>)),
      (''snmplog'', set_string (\<lambda>v c. c\<lparr>kc_SnmpLog := v\<rparr>)),
      (''snmpperiod'', set_int (\<lambda>v c. c\<lparr>kc_SnmpPeriod := v\<rparr>)),
      (''quiet'', set_bool (\<lambda>v c. c\<lparr>kc_Quiet := v\<rparr>)),
      (''tcp'', set_bool (\<lambda>v c. c\<lparr>kc_TCP := v\<rparr>)),
      (''tcpmark'', set_int (\<lambda>v c. c\<lparr>kc_TCPMark := v\<rparr>))]"

text \<open>The fields by tag, for statements about all of them.\<close>

definition client_Config_view :: "client_Config \<Rightarrow> (string \<times> flag_value) list" where
  "client_Config_view c =
     [(''localaddr'', VString (kc_LocalAddr c)),
      (''remoteaddr'', VString (kc_RemoteAddr c)),
      (''key'', VString (kc_Key c)),
      (''crypt'', VString (kc_Crypt c)),
      (''mode'', VString (kc_Mode c)),
      (''conn'', VInt (kc_Conn c)),
      (''autoexpire'', VInt (kc_AutoExpire c)),
      (''scavengettl'', VInt (kc_ScavengeTTL c)),
      (''mtu'', VInt (kc_MTU c)),
      (''sndwnd'', VInt (kc_SndWnd c)),
      (''rcvwnd'', VInt (kc_RcvWnd c)),
      (''datashard'', VInt (kc_DataShard c)),
      (''parityshard'', VInt (kc_ParityShard c)),
      (''dscp'', VInt (kc_DSCP c)),
      (''nocomp'', VBool (kc_NoComp c)),
      (''acknodelay'', VBool (kc_AckNodelay c)),
      (''nodelay'', VInt (kc_NoDelay c)),
      (''interval'', VInt (kc_Interval c)),
      (''resend'', VInt (kc_Resend c)),
      (''nc'', VInt (kc_NoCongestion c)),
      (''sockbuf'', VInt (kc_SockBuf c)),
      (''smuxbuf'', VInt (kc_SmuxBuf c)),
      (''keepalive'', VInt (kc_KeepAlive c)),
      (''log'', VString (kc_Log c)),
      (''snmplog'', VString (kc_SnmpLog c)),
      (''snmpperiod'', VInt (kc_SnmpPeriod c)),
      (''quiet'', VBool (kc_Quiet c)),
      (''tcp'', VBool (kc_TCP c)),
      (''tcpmark'', VInt (kc_TCPMark c))]"

text \<open>The tuning profiles; any other mode leaves the four parameters as they are.\<close>

definition client_mode :: "client_Config \<Rightarrow> client_Config" where
  "client_mode config =
     (if kc_Mode config = ''normal'' then config\<lparr>kc_NoDelay := 0, kc_Interval := 40, kc_Resend := 2, kc_NoCongestion := 1\<rparr>
      else if kc_Mode config = ''fast'' then config\<lparr>kc_NoDelay := 0, kc_Interval := 30, kc_Resend := 2, kc_NoCongestion := 1\<rparr>
      else if kc_Mode config = ''fast2'' then config\<lparr>kc_NoDelay := 1, kc_Interval := 20, kc_Resend := 2, kc_NoCongestion := 1\<rparr>
      else if kc_Mode config = ''fast3'' then config\<lparr>kc_NoDelay := 1, kc_Interval := 10, kc_Resend := 2, kc_NoCongestion := 1\<rparr>
      else config)"

text \<open>The configuration \<open>main\<close> runs with, or the exit of the program (\<^const>\<open>None\<close>).\<close>

definition client_load :: "cli_context \<Rightarrow> json_file \<Rightarrow> bool \<Rightarrow> client_Config option" where
  "client_load c conf log_opens =
     (let config = client_Config_of_flags c;
          (config, ok) = (if ctx_String c ''c'' \<noteq> [] then parseJSONConfig client_Config_tags conf config else (config, True))
      in if \<not> ok then None
         else if kc_Log config \<noteq> [] \<and> \<not> log_opens then None
         else Some (client_mode config))"

subsection \<open>Server\<close>

record server_Config =
  ks_Listen :: string
  ks_Target :: string
  ks_Key :: string
  ks_Crypt :: string
  ks_Mode :: string
  ks_MTU :: int
  ks_SndWnd :: int
  ks_RcvWnd :: int
  ks_DataShard :: int
  ks_ParityShard :: int
  ks_DSCP :: int
  ks_NoComp :: bool
  ks_AckNodelay :: bool
  ks_NoDelay :: int
  ks_Interval :: int
  ks_Resend :: int
  ks_NoCongestion :: int
  ks_SockBuf :: int
  ks_SmuxBuf :: int
  ks_KeepAlive :: int
  ks_Log :: string
  ks_SnmpLog :: string
  ks_SnmpPeriod :: int
  ks_Pprof :: bool
  ks_Quiet :: bool
  ks_TCP :: bool
  ks_TCPMark :: int

definition server_Config_flags :: "cli_flag list" where
  "server_Config_flags =
     [\<lparr>flag_Name = ''listen,l'', flag_Value = VString '':29900'', flag_EnvVar = None\<rparr>,
      \<lparr>flag_Name = ''target, t'', flag_Value = VString ''127.0.0.1:12948'', flag_EnvVar = None\<rparr>,
      \<lparr>flag_Name = ''key'', flag_Value = VString default_key, flag_EnvVar = Some ''KCPTUN_KEY''\<rparr>,
      \<lparr>flag_Name = ''crypt'', flag_Value = VString ''aes'', flag_EnvVar = None\<rparr>,
      \<lparr>flag_Name = ''mode'', flag_Value = VString ''fast'', flag_EnvVar = None\<rparr>,
      \<lparr>flag_Name = ''mtu'', flag_Value = VInt 1350, flag_EnvVar = None\<rparr>,
      \<lparr>flag_Name = ''sndwnd'', flag_Value = VInt 1024, flag_EnvVar = None\<rparr>,
      \<lparr>flag_Name = ''rcvwnd'', flag_Value = VInt 1024, flag_EnvVar = None\<rparr>,
      \<lparr>flag_Name = ''datashard,ds'', flag_Value = VInt 10, flag_EnvVar = None\<rparr>,
      \<lparr>flag_Name = ''parityshard,ps'', flag_Value = VInt 3, flag_EnvVar = None\<rparr>,
      \<lparr>flag_Name = ''dscp'', flag_Value = VInt 0, flag_EnvVar = None\<rparr>,
      \<lparr>flag_Name = ''nocomp'', flag_Value = VBool False, flag_EnvVar = None\<rparr>,
      \<lparr>flag_Name = ''acknodelay'', flag_Value = VBool False, flag_EnvVar = None\<rparr>,
      \<lparr>flag_Name = ''nodelay'', flag_Value = VInt 0, flag_EnvVar = None\<rparr>,
      \<lparr>flag_Name = ''interval'', flag_Value = VInt 50, flag_EnvVar = None\<rparr>,
      \<lparr>flag_Name = ''resend'', flag_Value = VInt 0, flag_EnvVar = None\<rparr>,
      \<lparr>flag_Name = ''nc'', flag_Value = VInt 0, flag_EnvVar = None\<rparr>,
      \<lparr>flag_Name = ''sockbuf'', flag_Value = VInt 4194304, flag_EnvVar = None\<rparr>,
      \<lparr>flag_Name = ''smuxbuf'', flag_Value = VInt 4194304, flag_EnvVar = None\<rparr>,
      \<lparr>flag_Name = ''keepalive'', flag_Value = VInt 10, flag_EnvVar = None\<rparr>,
      \<lparr>flag_Name = ''snmplog'', flag_Value = VString '''', flag_EnvVar = None\<rparr>,
      \<lparr>flag_Name = ''snmpperiod'', flag_Value = VInt 60, flag_EnvVar = None\<rparr>,
      \<lparr>flag_Name = ''pprof'', flag_Value = VBool False, flag_EnvVar = None\<rparr>,
      \<lparr>flag_Name = ''log'', flag_Value = VString '''', flag_EnvVar = None\<rparr>,
      \<lparr>flag_Name = ''quiet'', flag_Value = VBool False, flag_EnvVar = None\<rparr>,
      \<lparr>flag_Name = ''tcp'', flag_Value = VBool False, flag_EnvVar = None\<rparr>,
      \<lparr>flag_Name = ''tcpmark'', flag_Value = VInt DefaultMark, flag_EnvVar = None\<rparr>,
      \<lparr>flag_Name = ''c'', flag_Value = VString '''', flag_EnvVar = None\<rparr>]"

definition server_Config_of_flags :: "cli_context \<Rightarrow> server_Config" where
  "server_Config_of_flags c =
     \<lparr>ks_Listen = ctx_String c ''listen'',
      ks_Target = ctx_String c ''target'',
      ks_Key = ctx_String c ''key'',
      ks_Crypt = ctx_String c ''crypt'',
      ks_Mode = ctx_String c ''mode'',
      ks_MTU = ctx_Int c ''mtu'',
      ks_SndWnd = ctx_Int c ''sndwnd'',
      ks_RcvWnd = ctx_Int c ''rcvwnd'',
      ks_DataShard = ctx_Int c ''datashard'',
      ks_ParityShard = ctx_Int c ''parityshard'',
      ks_DSCP = ctx_Int c ''dscp'',
      ks_NoComp = ctx_Bool c ''nocomp'',
      ks_AckNodelay = ctx_Bool c ''acknodelay'',
      ks_NoDelay = ctx_Int c ''nodelay'',
      ks_Interval = ctx_Int c ''interval'',
      ks_Resend = ctx_Int c ''resend'',
      ks_NoCongestion = ctx_Int c ''nc'',
      ks_SockBuf = ctx_Int c ''sockbuf'',
      ks_SmuxBuf = ctx_Int c ''smuxbuf'',
      ks_KeepAlive = ctx_Int c ''keepalive'',
      ks_Log = ctx_String c ''log'',
      ks_SnmpLog = ctx_String c ''snmplog'',
      ks_SnmpPeriod = ctx_Int c ''snmpperiod'',
      ks_Pprof = ctx_Bool c ''pprof'',
      ks_Quiet = ctx_Bool c ''quiet'',
      ks_TCP = ctx_Bool c ''tcp'',
      ks_TCPMark = ctx_Int c ''tcpmark''\<rparr>"

definition server_Config_tags :: "server_Config json_fields" where
  "server_Config_tags =
     [(''listen'', set_string (\<lambda>v c. c\<lparr>ks_Listen := v\<rparr>)),
      (''target'', set_string (\<lambda>v c. c\<lparr>ks_Target := v\<rparr>)),
      (''key'', set_string (\<lambda>v c. c\<lparr>ks_Key := v\<rparr>)),
      (''crypt'', set_string (\<lambda>v c. c\<lparr>ks_Crypt := v\<rparr>)),
      (''mode'', set_string (\<lambda>v c. c\<lparr>ks_Mode := v\<rparr>)),
      (''mtu'', set_int (\<lambda>v c. c\<lparr>ks_MTU := v\<rparr>)),
      (''sndwnd'', set_int (\<lambda>v c. c\<lparr>ks_SndWnd := v\<rparr>)),
      (''rcvwnd'', set_int (\<lambda>v c. c\<lparr>ks_RcvWnd := v\<rparr>)),
      (''datashard'', set_int (\<lambda>v c. c\<lparr>ks_DataShard := v\<rparr>)),
      (''parityshard'', set_int (\<lambda>v c. c\<lparr>ks_ParityShard := v\<rparr>)),
      (''dscp'', set_int (\<lambda>v c. c\<lparr>ks_DSCP := v\<rparr>)),
      (''nocomp'', set_bool (\<lambda>v c. c\<lparr>ks_NoComp := v\<rparr>)),
      (''acknodelay'', set_bool (\<lambda>v c. c\<lparr>ks_AckNodelay := v\<rparr>)),
      (''nodelay'', set_int (\<lambda>v c. c\<lparr>ks_NoDelay := v\<rparr>)),
      (''interval'', set_int (\<lambda>v c. c\<lparr>ks_Interval := v\<rparr>)),
      (''resend'', set_int (\<lambda>v c. c\<lparr>ks_Resend := v\<rparr>)),
      (''nc'', set_int (\<lambda>v c. c\<lparr>ks_NoCongestion := v\<rparr>)),
      (''sockbuf'', set_int (\<lambda>v c. c\<lparr>ks_SockBuf := v\<rparr>)),
      (''smuxbuf'', set_int (\<lambda>v c. c\<lparr>ks_SmuxBuf := v\<rparr>)),
      (''keepalive'', set_int (\<lambda>v c. c\<lparr>ks_KeepAlive := v\<rparr>)),
      (''log'', set_string (\<lambda>v c. c\<lparr>ks_Log := v\<rparr>)),
      (''snmplog'', set_string (\<lambda>v c. c\<lparr>ks_SnmpLog := v\<rparr>)),
      (''snmpperiod'', set_int (\<lambda>v c. c\<lparr>ks_SnmpPeriod := v\<rparr>)),
      (''pprof'', set_bool (\<lambda>v c. c\<lparr>ks_Pprof := v\<rparr>)),
      (''quiet'', set_bool (\<lambda>v c. c\<lparr>ks_Quiet := v\<rparr>)),
      (''tcp'', set_bool (\<lambda>v c. c\<lparr>ks_TCP := v\<rparr>)),
      (''tcpmark'', set_int (\<lambda>v c. c\<lparr>ks_TCPMark := v\<rparr>))]"

text \<open>The fields by tag, for statements about all of them.\<close>

definition server_Config_view :: "server_Config \<Rightarrow> (string \<times> flag_value) list" where
  "server_Config_view c =
     [(''listen'', VString (ks_Listen c)),
      (''target'', VString (ks_Target c)),
      (''key'', VString (ks_Key c)),
      (''crypt'', VString (ks_Crypt c)),
      (''mode'', VString (ks_Mode c)),
      (''mtu'', VInt (ks_MTU c)),
      (''sndwnd'', VInt (ks_SndWnd c)),
      (''rcvwnd'', VInt (ks_RcvWnd c)),
      (''datashard'', VInt (ks_DataShard c)),
      (''parityshard'', VInt (ks_ParityShard c)),
      (''dscp'', VInt (ks_DSCP c)),
      (''nocomp'', VBool (ks_NoComp c)),
      (''acknodelay'', VBool (ks_AckNodelay c)),
      (''nodelay'', VInt (ks_NoDelay c)),
      (''interval'', VInt (ks_Interval c)),
      (''resend'', VInt (ks_Resend c)),
      (''nc'', VInt (ks_NoCongestion c)),
      (''sockbuf'', VInt (ks_SockBuf c)),
      (''smuxbuf'', VInt (ks_SmuxBuf c)),
      (''keepalive'', VInt (ks_KeepAlive c)),
      (''log'', VString (ks_Log c)),
      (''snmplog'', VString (ks_SnmpLog c)),
      (''snmpperiod'', VInt (ks_SnmpPeriod c)),
      (''pprof'', VBool (ks_Pprof c)),
      (''quiet'', VBool (ks_Quiet c)),
      (''tcp'', VBool (ks_TCP c)),
      (''tcpmark'', VInt (ks_TCPMark c))]"

text \<open>The tuning profiles; any other mode leaves the four parameters as they are.\<close>

definition server_mode :: "server_Config \<Rightarrow> server_Config" where
  "server_mode config =
     (if ks_Mode config = ''normal'' then config\<lparr>ks_NoDelay := 0, ks_Interval := 40, ks_Resend := 2, ks_NoCongestion := 1\<rparr>
      else if ks_Mode config = ''fast'' then config\<lparr>ks_NoDelay := 0, ks_Interval := 30, ks_Resend := 2, ks_NoCongestion := 1\<rparr>
      else if ks_Mode config = ''fast2'' then config\<lparr>ks_NoDelay := 1, ks_Interval := 20, ks_Resend := 2, ks_NoCongestion := 1\<rparr>
      else if ks_Mode config = ''fast3'' then config\<lparr>ks_NoDelay := 1, ks_Interval := 10, ks_Resend := 2, ks_NoCongestion := 1\<rparr>
      else config)"

text \<open>The configuration \<open>main\<close> runs with, or the exit of the program (\<^const>\<open>None\<close>).\<close>

definition server_load :: "cli_context \<Rightarrow> json_file \<Rightarrow> bool \<Rightarrow> server_Config option" where
  "server_load c conf log_opens =
     (let config = server_Config_of_flags c;
          (config, ok) = (if ctx_String c ''c'' \<noteq> [] then parseJSONConfig server_Config_tags conf config else (config, True))
      in if \<not> ok then None
         else if ks_Log config \<noteq> [] \<and> \<not> log_opens then None
         else Some (server_mode config))"

end
