(* ===== verification/RawTcp.thy ===== *)
theory RawTcp
  imports TunServer
begin

section \<open>Packets disguised as TCP (rawtcp/conn_linux.go)\<close>

text \<open>
  A \<open>Conn\<close> with its flow table, and its operations: capturing a segment, \<open>ReadFrom\<close>,
  \<open>WriteTo\<close>, the cleaner, \<open>Close\<close>, \<open>Dial\<close>, \<open>Listen\<close> and its accept loop, and \<open>Cleanup\<close>.
  Decoding and serialising segments is the work of a library: a decoded segment is the record
  \<open>segment_tcp\<close>, and the library's serialiser a function that may fail. Sockets and raw
  handles are numbers; an address is its \<open>String()\<close>, and an IP its textual form. What the
  operations ask of the system is a list of effects; what the system answers is an argument.
\<close>

subsection \<open>Segments\<close>

datatype tcp_option = OptNop | OptTimestamps bytes | OptOther nat bytes

record segment_tcp =
  tcp_SrcPort :: u16
  tcp_DstPort :: u16
  tcp_Seq :: u32
  tcp_Ack :: u32
  tcp_SYN :: bool
  tcp_FIN :: bool
  tcp_PSH :: bool
  tcp_ACK :: bool
  tcp_Window :: u16
  tcp_Options :: "tcp_option list"
  tcp_Payload :: bytes

text \<open>Big-endian integers of the timestamp option.\<close>

definition put_be32 :: "u32 \<Rightarrow> bytes" where
  "put_be32 w = [ucast (drop_bit 24 w), ucast (drop_bit 16 w), ucast (drop_bit 8 w), ucast w]"

fun get_be32 :: "bytes \<Rightarrow> u32" where
  "get_be32 (a # b # c # d # _) =
     push_bit 24 (ucast a) OR push_bit 16 (ucast b) OR push_bit 8 (ucast c) OR ucast d"
| "get_be32 _ = 0"

definition fingerprint_window :: u16 where "fingerprint_window = 65535"
definition fingerprint_ttl :: int where "fingerprint_ttl = 64"
definition flowExpire :: int where "flowExpire = 60 * second"
definition orphanExpire :: int where "orphanExpire = 5 * second"

subsection \<open>State\<close>

record flow =
  fl_conn :: "nat option"
  fl_handle :: "nat option"
  fl_seq :: u32
  fl_ack :: u32
  fl_tsEcr :: u32
  fl_ts :: int

text \<open>
  \<open>rc_tcpconn\<close> is set on the dialing side, \<open>rc_listener\<close> on the listening side, each with its
  local port. A zero deadline is \<^const>\<open>None\<close>. \<open>rc_elem\<close> says whether the connection is in the
  list of live connections, that is whether \<open>elem\<close> is not nil.
\<close>

record raw_conn =
  rc_elem :: bool
  rc_die :: bool
  rc_tcpconn :: "(nat \<times> nat) option"
  rc_listener :: "(nat \<times> nat) option"
  rc_handles :: "nat list"
  rc_flows :: "(addr \<times> flow) list"
  rc_readDeadline :: "int option"
  rc_writeDeadline :: "int option"

datatype level = IPPROTO_IP | IPPROTO_IPV6 | SOL_SOCKET
datatype optname = IP_TTL | IPV6_UNICAST_HOPS | IP_TOS | IPV6_TCLASS | SO_MARK

datatype raw_effect =
    Setsockopt nat level optname int
  | CloseTCP nat
  | CloseHandle nat
  | CloseListener nat
  | SendRaw nat "string option" segment_tcp
  | Deliver bytes addr
  | Unregister

datatype raw_error = ErrTimeout | ErrEOF | ErrSystem | ErrNoInterface

subsection \<open>Flows\<close>

definition new_flow :: "int \<Rightarrow> flow" where
  "new_flow now = \<lparr>fl_conn = None, fl_handle = None, fl_seq = 0, fl_ack = 0, fl_tsEcr = 0, fl_ts = now\<rparr>"

text \<open>\<open>lockflow\<close>: the flow of an address, or a new one, is passed to \<open>f\<close> and stored again.\<close>

definition get_flow :: "addr \<Rightarrow> int \<Rightarrow> raw_conn \<Rightarrow> flow" where
  "get_flow a now c = (case map_of (rc_flows c) a of Some e \<Rightarrow> e | None \<Rightarrow> new_flow now)"

definition lockflow :: "addr \<Rightarrow> int \<Rightarrow> (flow \<Rightarrow> flow \<times> 'r) \<Rightarrow> raw_conn \<Rightarrow> raw_conn \<times> 'r" where
  "lockflow a now f c =
     (let (e, r) = f (get_flow a now c) in (c\<lparr>rc_flows := AList.update a e (rc_flows c)\<rparr>, r))"

text \<open>\<open>setTTL\<close>, \<open>setMark\<close> and \<open>setDSCP\<close>; \<open>is4\<close> says whether the local address is IPv4.\<close>

definition setTTL :: "(nat \<Rightarrow> bool) \<Rightarrow> nat \<Rightarrow> int \<Rightarrow> raw_effect" where
  "setTTL is4 c ttl = (if \<not> is4 c then Setsockopt c IPPROTO_IPV6 IPV6_UNICAST_HOPS ttl
                       else Setsockopt c IPPROTO_IP IP_TTL ttl)"

definition setMark :: "nat \<Rightarrow> int \<Rightarrow> raw_effect" where
  "setMark c mark = Setsockopt c SOL_SOCKET SO_MARK mark"

definition setDSCP :: "(nat \<Rightarrow> bool) \<Rightarrow> nat \<Rightarrow> int \<Rightarrow> raw_effect" where
  "setDSCP is4 c dscp = (if \<not> is4 c then Setsockopt c IPPROTO_IPV6 IPV6_TCLASS dscp
                         else Setsockopt c IPPROTO_IP IP_TOS (push_bit 2 dscp))"

text \<open>One tick of \<open>cleaner\<close>.\<close>

definition flow_ttl :: "flow \<Rightarrow> int" where
  "flow_ttl e = (if fl_conn e = None then orphanExpire else flowExpire)"

definition flow_expired :: "int \<Rightarrow> flow \<Rightarrow> bool" where
  "flow_expired now e \<longleftrightarrow> now - fl_ts e > flow_ttl e"

definition close_flow :: "(nat \<Rightarrow> bool) \<Rightarrow> flow \<Rightarrow> raw_effect list" where
  "close_flow is4 e = (case fl_conn e of None \<Rightarrow> [] | Some t \<Rightarrow> [setTTL is4 t fingerprint_ttl, CloseTCP t])"

definition clean :: "(nat \<Rightarrow> bool) \<Rightarrow> int \<Rightarrow> raw_conn \<Rightarrow> raw_conn \<times> raw_effect list" where
  "clean is4 now c =
     (c\<lparr>rc_flows := filter (\<lambda>(k, v). \<not> flow_expired now v) (rc_flows c)\<rparr>,
      concat (map (\<lambda>(k, v). if flow_expired now v then close_flow is4 v else []) (rc_flows c)))"

subsection \<open>Receiving\<close>

text \<open>\<open>net.JoinHostPort\<close>, the string form of a TCP address.\<close>

definition tcp_addr :: "string \<Rightarrow> nat \<Rightarrow> addr" where
  "tcp_addr ip port =
     (if CHR '':'' \<in> set ip then ''['' @ ip @ '']:'' @ format_uint port else ip @ '':'' @ format_uint port)"

text \<open>The first well-formed timestamp option, and the sequence number after a segment.\<close>

fun find_ts :: "tcp_option list \<Rightarrow> bytes option" where
  "find_ts [] = None"
| "find_ts (OptTimestamps d # os) = (if length d = 8 then Some d else find_ts os)"
| "find_ts (_ # os) = find_ts os"

definition next_seq :: "segment_tcp \<Rightarrow> u32" where
  "next_seq tcp = tcp_Seq tcp + of_nat (length (tcp_Payload tcp))
     + (if tcp_SYN tcp then 1 else 0) + (if tcp_FIN tcp then 1 else 0)"

definition track :: "nat \<Rightarrow> segment_tcp \<Rightarrow> int \<Rightarrow> flow \<Rightarrow> flow" where
  "track handle tcp now e =
     (let e = e\<lparr>fl_ts := now\<rparr>;
          e = (if tcp_ACK tcp then e\<lparr>fl_seq := tcp_Ack tcp\<rparr> else e);
          e = (case find_ts (tcp_Options tcp) of None \<Rightarrow> e | Some d \<Rightarrow> e\<lparr>fl_tsEcr := get_be32 (take 4 d)\<rparr>);
          n = next_seq tcp;
          e = (if n \<noteq> tcp_Seq tcp \<and> (fl_ack e = 0 \<or> fl_ack e = tcp_Seq tcp) then e\<lparr>fl_ack := n\<rparr> else e)
      in e\<lparr>fl_handle := Some handle\<rparr>)"

text \<open>
  One round of \<open>captureFlow\<close>: \<open>decoded\<close> is what the library makes of the bytes read from \<open>ip\<close>.
  The message is handed to \<open>ReadFrom\<close> unless the connection dies first, and the loop goes on
  unless it did: the flag is false when the loop ends.
\<close>

definition captureFlow :: "nat \<Rightarrow> nat \<Rightarrow> string \<Rightarrow> segment_tcp option \<Rightarrow> int \<Rightarrow> raw_conn \<Rightarrow> raw_conn \<times> raw_effect list \<times> bool" where
  "captureFlow handle port ip decoded now c = (case decoded of
     None \<Rightarrow> (c, [], True)
   | Some tcp \<Rightarrow>
       if unat (tcp_DstPort tcp) \<noteq> port then (c, [], True)
       else
         let src = tcp_addr ip (unat (tcp_SrcPort tcp));
             (c, orphan) = lockflow src now (\<lambda>e. (track handle tcp now e, fl_conn e = None)) c
         in if \<not> orphan \<and> tcp_PSH tcp \<and> 0 < length (tcp_Payload tcp)
            then if rc_die c then (c, [], False) else (c, [Deliver (tcp_Payload tcp) src], True)
            else (c, [], True))"

text \<open>
  \<open>ReadFrom\<close> of a buffer of \<open>n\<close> bytes: \<open>select\<close> takes one of the ready cases; \<open>choice\<close> says
  which, among the deadline, the death of the connection and a waiting message.
\<close>

datatype ready = Deadline | Died | Message bytes addr

definition ready_ok :: "raw_conn \<Rightarrow> int \<Rightarrow> ready \<Rightarrow> bool" where
  "ready_ok c now r \<longleftrightarrow> (case r of
       Deadline \<Rightarrow> (case rc_readDeadline c of None \<Rightarrow> False | Some d \<Rightarrow> d \<le> now)
     | Died \<Rightarrow> rc_die c
     | Message m a \<Rightarrow> True)"

definition ReadFrom :: "nat \<Rightarrow> ready \<Rightarrow> raw_error + (bytes \<times> addr)" where
  "ReadFrom n choice = (case choice of
     Deadline \<Rightarrow> Inl ErrTimeout
   | Died \<Rightarrow> Inl ErrEOF
   | Message m a \<Rightarrow> Inr (take n m, a))"

subsection \<open>Sending\<close>

text \<open>
  \<open>resolved\<close> is the address \<open>ResolveTCPAddr\<close> finds; \<open>fired\<close> whether the write deadline's timer
  has fired, \<open>pick\<close> the choice of \<open>select\<close> if the connection is dead as well; \<open>serialized\<close> and
  \<open>written\<close> whether the serialiser and the raw socket succeed.
\<close>

definition local_port :: "raw_conn \<Rightarrow> nat option" where
  "local_port c = (case rc_tcpconn c of
     Some (_, p) \<Rightarrow> Some p
   | None \<Rightarrow> (case rc_listener c of Some (_, p) \<Rightarrow> Some p | None \<Rightarrow> None))"

definition make_segment :: "nat \<Rightarrow> nat \<Rightarrow> int \<Rightarrow> bytes \<Rightarrow> flow \<Rightarrow> segment_tcp" where
  "make_segment lport rport now p e =
     \<lparr>tcp_SrcPort = of_nat lport, tcp_DstPort = of_nat rport, tcp_Seq = fl_seq e, tcp_Ack = fl_ack e,
      tcp_SYN = False, tcp_FIN = False, tcp_PSH = True, tcp_ACK = True, tcp_Window = fingerprint_window,
      tcp_Options = [OptNop, OptNop,
        OptTimestamps (put_be32 (word_of_int (now div 1000000)) @ put_be32 (fl_tsEcr e))],
      tcp_Payload = p\<rparr>"

definition write_flow :: "bool \<Rightarrow> nat \<Rightarrow> string \<Rightarrow> nat \<Rightarrow> int \<Rightarrow> bytes \<Rightarrow> bool \<Rightarrow> bool \<Rightarrow> flow \<Rightarrow>
    flow \<times> (nat \<times> raw_error option) \<times> raw_effect list" where
  "write_flow dialed lport ip rport now p serialized written e = (case fl_handle e of
     None \<Rightarrow> (e, (length p, None), [])
   | Some h \<Rightarrow>
       if \<not> serialized then (e, (0, Some ErrSystem), [])
       else (e\<lparr>fl_seq := fl_seq e + of_nat (length p)\<rparr>,
             (length p, if written then None else Some ErrSystem),
             [SendRaw h (if dialed then None else Some ip) (make_segment lport rport now p e)]))"

definition WriteTo :: "bytes \<Rightarrow> addr \<Rightarrow> (string \<times> nat) option \<Rightarrow> int \<Rightarrow> bool \<Rightarrow> bool \<Rightarrow> bool \<Rightarrow> bool \<Rightarrow>
    raw_conn \<Rightarrow> (raw_conn \<times> (nat \<times> raw_error option) \<times> raw_effect list) option" where
  "WriteTo p a resolved now fired pick serialized written c =
     (if fired \<and> (\<not> rc_die c \<or> pick) then Some (c, (0, Some ErrTimeout), [])
      else if rc_die c then Some (c, (0, Some ErrEOF), [])
      else (case resolved of
        None \<Rightarrow> Some (c, (0, Some ErrSystem), [])
      | Some (ip, rport) \<Rightarrow> do {
          lport \<leftarrow> local_port c;
          let (c, r) = lockflow a now (write_flow (rc_tcpconn c \<noteq> None) lport ip rport now p serialized written) c;
          Some (c, r)
        }))"

subsection \<open>Settings\<close>

definition SetReadDeadline :: "int option \<Rightarrow> raw_conn \<Rightarrow> raw_conn" where
  "SetReadDeadline t c = c\<lparr>rc_readDeadline := t\<rparr>"

definition SetWriteDeadline :: "int option \<Rightarrow> raw_conn \<Rightarrow> raw_conn" where
  "SetWriteDeadline t c = c\<lparr>rc_writeDeadline := t\<rparr>"

definition SetDeadline :: "int option \<Rightarrow> raw_conn \<Rightarrow> raw_conn" where
  "SetDeadline t c = SetWriteDeadline t (SetReadDeadline t c)"

text \<open>
  \<open>SetDSCP\<close>, \<open>SetReadBuffer\<close>, \<open>SetWriteBuffer\<close>: each handle in turn until one fails; the handles
  set, and the error.
\<close>

fun each_handle :: "(nat \<Rightarrow> bool) \<Rightarrow> nat list \<Rightarrow> nat list \<times> raw_error option" where
  "each_handle ok [] = ([], None)"
| "each_handle ok (h # hs) =
     (if ok h then let (done_hs, e) = each_handle ok hs in (h # done_hs, e) else ([], Some ErrSystem))"

definition raw_SetDSCP :: "(nat \<Rightarrow> bool) \<Rightarrow> (nat \<Rightarrow> bool) \<Rightarrow> int \<Rightarrow> raw_conn \<Rightarrow> raw_effect list \<times> raw_error option" where
  "raw_SetDSCP is4 ok dscp c =
     (let (hs, e) = each_handle ok (rc_handles c) in (map (\<lambda>h. setDSCP is4 h dscp) hs, e))"

definition raw_SetReadBuffer :: "(nat \<Rightarrow> bool) \<Rightarrow> raw_conn \<Rightarrow> nat list \<times> raw_error option" where
  "raw_SetReadBuffer ok c = each_handle ok (rc_handles c)"

definition raw_SetWriteBuffer :: "(nat \<Rightarrow> bool) \<Rightarrow> raw_conn \<Rightarrow> nat list \<times> raw_error option" where
  "raw_SetWriteBuffer ok c = each_handle ok (rc_handles c)"

text \<open>\<open>LocalAddr\<close>: the socket whose address it is.\<close>

definition LocalAddr :: "raw_conn \<Rightarrow> nat option" where
  "LocalAddr c = (case rc_tcpconn c of
     Some (t, _) \<Rightarrow> Some t
   | None \<Rightarrow> map_option fst (rc_listener c))"

subsection \<open>Life of a connection\<close>

text \<open>
  \<open>Close\<close>: the first call does the work, \<open>dieOnce\<close> makes later ones do nothing. Removing a nil
  element from the list of live connections panics.
\<close>

definition raw_Close :: "(nat \<Rightarrow> bool) \<Rightarrow> raw_conn \<Rightarrow> (raw_conn \<times> raw_effect list) option" where
  "raw_Close is4 c =
     (if rc_die c then Some (c, [])
      else
        let c = c\<lparr>rc_die := True\<rparr>;
            (c, es) = (case rc_tcpconn c of
                Some (t, _) \<Rightarrow> (c, [setTTL is4 t fingerprint_ttl, CloseTCP t])
              | None \<Rightarrow> (case rc_listener c of
                  Some (l, _) \<Rightarrow> (c\<lparr>rc_flows := []\<rparr>,
                      CloseListener l # concat (map (\<lambda>(k, v). close_flow is4 v) (rc_flows c)))
                | None \<Rightarrow> (c, [])))
        in if \<not> rc_elem c then None
           else Some (c, es @ map CloseHandle (rc_handles c) @ [Unregister]))"

text \<open>
  \<open>Dial\<close>: what the system answers is the address resolved, the raw handle, the TCP connection
  with its local port and the string of its remote address, and whether \<open>setTTL\<close> succeeds.
\<close>

record dial_env =
  de_resolved :: bool
  de_handle :: "nat option"
  de_tcp :: "(nat \<times> nat \<times> addr) option"
  de_ttl :: bool

definition new_conn :: raw_conn where
  "new_conn = \<lparr>rc_elem = False, rc_die = False, rc_tcpconn = None, rc_listener = None, rc_handles = [], rc_flows = [],
     rc_readDeadline = None, rc_writeDeadline = None\<rparr>"

definition raw_Dial ::
  "(nat \<Rightarrow> bool) \<Rightarrow> dial_env \<Rightarrow> int \<Rightarrow> int \<Rightarrow> ((raw_error + raw_conn) \<times> raw_effect list) option" where
  "raw_Dial is4 env mark now =
     (if \<not> de_resolved env then Some (Inl ErrSystem, [])
      else case de_handle env of
        None \<Rightarrow> Some (Inl ErrSystem, [])
      | Some h \<Rightarrow> (case de_tcp env of
          None \<Rightarrow> Some (Inl ErrSystem, [CloseHandle h])
        | Some (t, lport, raddr) \<Rightarrow>
            let c = new_conn\<lparr>rc_tcpconn := Some (t, lport), rc_handles := [h]\<rparr>;
                (c, _) = lockflow raddr now (\<lambda>e. (e\<lparr>fl_conn := Some t\<rparr>, ())) c
            in if \<not> de_ttl env then map_option (\<lambda>(_, es). (Inl ErrSystem, es)) (raw_Close is4 c)
               else Some (Inr (c\<lparr>rc_elem := True\<rparr>),
                 setTTL is4 t 1 # (if mark \<noteq> 0 then [setMark t mark] else []))))"

text \<open>
  \<open>Listen\<close>: for an unspecified address every interface address is tried, \<open>addrs\<close> giving the
  handle or the failure for each; otherwise one handle. At least one handle is needed.
\<close>

record listen_env =
  le_resolved :: bool
  le_interfaces :: bool
  le_unspecified :: bool
  le_addrs :: "nat option list"
  le_handle :: "nat option"
  le_listener :: "(nat \<times> nat) option"

definition listen_handles :: "listen_env \<Rightarrow> raw_error + nat list" where
  "listen_handles env =
     (if le_unspecified env then
        let hs = concat (map (\<lambda>r. case r of None \<Rightarrow> [] | Some h \<Rightarrow> [h]) (le_addrs env)) in
        if hs = [] then Inl (if None \<in> set (le_addrs env) then ErrSystem else ErrNoInterface) else Inr hs
      else case le_handle env of None \<Rightarrow> Inl ErrSystem | Some h \<Rightarrow> Inr [h])"

definition raw_Listen :: "listen_env \<Rightarrow> (raw_error + raw_conn) \<times> raw_effect list" where
  "raw_Listen env =
     (if \<not> le_resolved env \<or> \<not> le_interfaces env then (Inl ErrSystem, [])
      else case listen_handles env of
        Inl e \<Rightarrow> (Inl e, [])
      | Inr hs \<Rightarrow> (case le_listener env of
          None \<Rightarrow> (Inl ErrSystem, map CloseHandle hs)
        | Some l \<Rightarrow> (Inr (new_conn\<lparr>rc_listener := Some l, rc_handles := hs, rc_elem := True\<rparr>), [])))"

text \<open>One connection accepted from \<open>raddr\<close>; \<open>ttl\<close> says whether \<open>setTTL\<close> succeeds.\<close>

definition accept :: "(nat \<Rightarrow> bool) \<Rightarrow> nat \<Rightarrow> addr \<Rightarrow> bool \<Rightarrow> int \<Rightarrow> int \<Rightarrow> raw_conn \<Rightarrow> raw_conn \<times> raw_effect list" where
  "accept is4 t raddr ttl mark now c =
     (if \<not> ttl then (c, [CloseTCP t])
      else
        let (c, _) = lockflow raddr now (\<lambda>e. (e\<lparr>fl_conn := Some t\<rparr>, ())) c
        in (c, setTTL is4 t 1 # (if mark \<noteq> 0 then [setMark t mark] else [])))"

text \<open>\<open>Cleanup\<close> closes every live connection of the list.\<close>

fun Cleanup :: "(nat \<Rightarrow> bool) \<Rightarrow> raw_conn list \<Rightarrow> (raw_conn list \<times> raw_effect list) option" where
  "Cleanup is4 [] = Some ([], [])"
| "Cleanup is4 (c # cs) = do {
     (c', e) \<leftarrow> raw_Close is4 c;
     (cs', es) \<leftarrow> Cleanup is4 cs;
     Some (c' # cs', e @ es)
   }"

end
