(* ===== verification/UdpCommands.thy ===== *)
theory UdpCommands
  imports StreamConfig TunServer RawTcp
begin

section \<open>The commands of the UDP tunnel (udpclient/, udpserver/)\<close>

text \<open>
  Flags, environment and file make the configuration; the cipher is built, and the tunnel's client
  or server started on the transport the configuration asks for.
\<close>

subsection \<open>Client: configuration\<close>

record udpclient_config =
  uc_LocalAddr :: string
  uc_RemoteAddr :: string
  uc_Key :: string
  uc_Crypt :: string
  uc_MTU :: int
  uc_SockBuf :: int
  uc_DSCP :: int
  uc_KeepAlive :: int
  uc_Idle :: int
  uc_TCP :: bool
  uc_TCPMark :: int
  uc_Log :: string
  uc_Quiet :: bool

definition udpclient_config_flags :: "cli_flag list" where
  "udpclient_config_flags =
     [\<lparr>flag_Name = ''l'', flag_Value = VString '':12948'', flag_EnvVar = None\<rparr>,
      \<lparr>flag_Name = ''r'', flag_Value = VString ''vps:29900'', flag_EnvVar = None\<rparr>,
      \<lparr>flag_Name = ''key'', flag_Value = VString default_key, flag_EnvVar = None\<rparr>,
      \<lparr>flag_Name = ''crypt'', flag_Value = VString ''aes'', flag_EnvVar = None\<rparr>,
      \<lparr>flag_Name = ''mtu'', flag_Value = VInt 1350, flag_EnvVar = None\<rparr>,
      \<lparr>flag_Name = ''sockbuf'', flag_Value = VInt 4194304, flag_EnvVar = None\<rparr>,
      \<lparr>flag_Name = ''dscp'', flag_Value = VInt 0, flag_EnvVar = None\<rparr>,
      \<lparr>flag_Name = ''keepalive'', flag_Value = VInt 10, flag_EnvVar = None\<rparr>,
      \<lparr>flag_Name = ''idle'', flag_Value = VInt 60, flag_EnvVar = None\<rparr>,
      \<lparr>flag_Name = ''tcp'', flag_Value = VBool False, flag_EnvVar = None\<rparr>,
      \<lparr>flag_Name = ''tcpmark'', flag_Value = VInt DefaultMark, flag_EnvVar = None\<rparr>,
      \<lparr>flag_Name = ''log'', flag_Value = VString [], flag_EnvVar = None\<rparr>,
      \<lparr>flag_Name = ''quiet'', flag_Value = VBool False, flag_EnvVar = None\<rparr>,
      \<lparr>flag_Name = ''c'', flag_Value = VString [], flag_EnvVar = None\<rparr>,
      \<lparr>flag_Name = ''v'', flag_Value = VBool False, flag_EnvVar = None\<rparr>]"

definition udpclient_config_of_flags :: "cli_context \<Rightarrow> udpclient_config" where
  "udpclient_config_of_flags c =
     \<lparr>uc_LocalAddr = ctx_String c ''l'',
      uc_RemoteAddr = ctx_String c ''r'',
      uc_Key = ctx_String c ''key'',
      uc_Crypt = ctx_String c ''crypt'',
      uc_MTU = ctx_Int c ''mtu'',
      uc_SockBuf = ctx_Int c ''sockbuf'',
      uc_DSCP = ctx_Int c ''dscp'',
      uc_KeepAlive = ctx_Int c ''keepalive'',
      uc_Idle = ctx_Int c ''idle'',
      uc_TCP = ctx_Bool c ''tcp'',
      uc_TCPMark = ctx_Int c ''tcpmark'',
      uc_Log = ctx_String c ''log'',
      uc_Quiet = ctx_Bool c ''quiet''\<rparr>"

definition udpclient_config_tags :: "udpclient_config json_fields" where
  "udpclient_config_tags =
     [(''localaddr'', set_string (\<lambda>v c. c\<lparr>uc_LocalAddr := v\<rparr>)),
      (''remoteaddr'', set_string (\<lambda>v c. c\<lparr>uc_RemoteAddr := v\<rparr>)),
      (''key'', set_string (\<lambda>v c. c\<lparr>uc_Key := v\<rparr>)),
      (''crypt'', set_string (\<lambda>v c. c\<lparr>uc_Crypt := v\<rparr>)),
      (''mtu'', set_int (\<lambda>v c. c\<lparr>uc_MTU := v\<rparr>)),
      (''sockbuf'', set_int (\<lambda>v c. c\<lparr>uc_SockBuf := v\<rparr>)),
      (''dscp'', set_int (\<lambda>v c. c\<lparr>uc_DSCP := v\<rparr>)),
      (''keepalive'', set_int (\<lambda>v c. c\<lparr>uc_KeepAlive := v\<rparr>)),
      (''idle'', set_int (\<lambda>v c. c\<lparr>uc_Idle := v\<rparr>)),
      (''tcp'', set_bool (\<lambda>v c. c\<lparr>uc_TCP := v\<rparr>)),
      (''tcpmark'', set_int (\<lambda>v c. c\<lparr>uc_TCPMark := v\<rparr>)),
      (''log'', set_string (\<lambda>v c. c\<lparr>uc_Log := v\<rparr>)),
      (''quiet'', set_bool (\<lambda>v c. c\<lparr>uc_Quiet := v\<rparr>))]"

text \<open>The fields by tag, for statements about all of them.\<close>

definition udpclient_config_view :: "udpclient_config \<Rightarrow> (string \<times> flag_value) list" where
  "udpclient_config_view c =
     [(''localaddr'', VString (uc_LocalAddr c)),
      (''remoteaddr'', VString (uc_RemoteAddr c)),
      (''key'', VString (uc_Key c)),
      (''crypt'', VString (uc_Crypt c)),
      (''mtu'', VInt (uc_MTU c)),
      (''sockbuf'', VInt (uc_SockBuf c)),
      (''dscp'', VInt (uc_DSCP c)),
      (''keepalive'', VInt (uc_KeepAlive c)),
      (''idle'', VInt (uc_Idle c)),
      (''tcp'', VBool (uc_TCP c)),
      (''tcpmark'', VInt (uc_TCPMark c)),
      (''log'', VString (uc_Log c)),
      (''quiet'', VBool (uc_Quiet c))]"

text \<open>
  The configuration in force: the flags, a key from the environment in place of the default one,
  the file; \<^const>\<open>None\<close> is the exit of the program. \<open>getenv\<close> gives the empty string for a
  variable that is not set.
\<close>

definition udpclient_load :: "cli_context \<Rightarrow> (string \<Rightarrow> string) \<Rightarrow> json_file \<Rightarrow> bool \<Rightarrow> udpclient_config option" where
  "udpclient_load ctx getenv conf log_opens =
     (let c = udpclient_config_of_flags ctx;
          e = getenv ''KCPTUN_KEY'';
          c = (if e \<noteq> [] \<and> uc_Key c = default_key then c\<lparr>uc_Key := e\<rparr> else c);
          (c, ok) = (if ctx_String ctx ''c'' \<noteq> [] then parseJSONConfig udpclient_config_tags conf c else (c, True))
      in if \<not> ok then None
         else if uc_Log c \<noteq> [] \<and> \<not> log_opens then None
         else Some c)"

subsection \<open>Client: transport (udpclient/dial.go)\<close>

text \<open>
  Over the disguise, the address is resolved again for the form flows are known by
  (\<open>tcp_addr\<close>); failing that, the connection is closed. Over UDP, \<open>udp_addr\<close> is the address
  resolved and whether it is IPv4. \<^const>\<open>None\<close> is a panic.
\<close>

datatype packet_transport = PlainUDP string | Disguised raw_conn

definition udpclient_dial ::
  "(nat \<Rightarrow> bool) \<Rightarrow> udpclient_config \<Rightarrow> dial_env \<Rightarrow> int \<Rightarrow> addr option \<Rightarrow> (addr \<times> bool) option \<Rightarrow> bool \<Rightarrow>
    ((raw_error + (packet_transport \<times> addr)) \<times> raw_effect list) option" where
  "udpclient_dial is4 c env now tcp_raddr udp_raddr listens =
     (if uc_TCP c then do {
        (r, es) \<leftarrow> raw_Dial is4 env (uc_TCPMark c) now;
        case r of
          Inl e \<Rightarrow> Some (Inl e, es)
        | Inr conn \<Rightarrow> (case tcp_raddr of
            None \<Rightarrow> map_option (\<lambda>(_, es'). (Inl ErrSystem, es @ es')) (raw_Close is4 conn)
          | Some raddr \<Rightarrow> Some (Inr (Disguised conn, raddr), es))
      }
      else Some (case udp_raddr of
          None \<Rightarrow> Inl ErrSystem
        | Some (raddr, v4) \<Rightarrow>
            if listens then Inr (PlainUDP (if \<not> v4 then ''udp'' else ''udp4''), raddr) else Inl ErrSystem, []))"

subsection \<open>Client: main\<close>

definition udpclient_ClientConfig :: "udpclient_config \<Rightarrow> ClientConfig" where
  "udpclient_ClientConfig c =
     \<lparr>cc_LocalAddr = uc_LocalAddr c, cc_MaxPacket = uc_MTU c, cc_SockBuf = uc_SockBuf c, cc_DSCP = uc_DSCP c,
      cc_Idle = uc_Idle c, cc_KeepAlive = uc_KeepAlive c, cc_Quiet = uc_Quiet c\<rparr>"

definition udpclient_main :: "crypt_libs \<Rightarrow> cli_context \<Rightarrow> (string \<Rightarrow> string) \<Rightarrow> json_file \<Rightarrow> bool \<Rightarrow>
    bytes option \<Rightarrow> bytes option \<Rightarrow> client main_result" where
  "udpclient_main L ctx getenv conf log_opens key seed =
     (if ctx_Bool ctx ''v'' then Version
      else case udpclient_load ctx getenv conf log_opens of
        None \<Rightarrow> Exit
      | Some c \<Rightarrow> (case NewBlockCrypt L (uc_Crypt c) (map of_char (uc_Key c)) of
          Inl _ \<Rightarrow> Exit
        | Inr blk \<Rightarrow> (case RunClient L (udpclient_ClientConfig c) blk key seed of
            None \<Rightarrow> Panics
          | Some (Inl _) \<Rightarrow> Exit
          | Some (Inr cl) \<Rightarrow> Running cl)))"

subsection \<open>Server: configuration\<close>

record udpserver_config =
  ud_Listen :: string
  ud_Target :: string
  ud_Key :: string
  ud_Crypt :: string
  ud_MTU :: int
  ud_SockBuf :: int
  ud_DSCP :: int
  ud_Idle :: int
  ud_TCP :: bool
  ud_TCPMark :: int
  ud_Log :: string
  ud_Quiet :: bool

definition udpserver_config_flags :: "cli_flag list" where
  "udpserver_config_flags =
     [\<lparr>flag_Name = ''l'', flag_Value = VString '':29900'', flag_EnvVar = None\<rparr>,
      \<lparr>flag_Name = ''t'', flag_Value = VString ''127.0.0.1:12948'', flag_EnvVar = None\<rparr>,
      \<lparr>flag_Name = ''key'', flag_Value = VString default_key, flag_EnvVar = None\<rparr>,
      \<lparr>flag_Name = ''crypt'', flag_Value = VString ''aes'', flag_EnvVar = None\<rparr>,
      \<lparr>flag_Name = ''mtu'', flag_Value = VInt 1350, flag_EnvVar = None\<rparr>,
      \<lparr>flag_Name = ''sockbuf'', flag_Value = VInt 4194304, flag_EnvVar = None\<rparr>,
      \<lparr>flag_Name = ''dscp'', flag_Value = VInt 0, flag_EnvVar = None\<rparr>,
      \<lparr>flag_Name = ''idle'', flag_Value = VInt 60, flag_EnvVar = None\<rparr>,
      \<lparr>flag_Name = ''tcp'', flag_Value = VBool False, flag_EnvVar = None\<rparr>,
      \<lparr>flag_Name = ''tcpmark'', flag_Value = VInt DefaultMark, flag_EnvVar = None\<rparr>,
      \<lparr>flag_Name = ''log'', flag_Value = VString [], flag_EnvVar = None\<rparr>,
      \<lparr>flag_Name = ''quiet'', flag_Value = VBool False, flag_EnvVar = None\<rparr>,
      \<lparr>flag_Name = ''c'', flag_Value = VString [], flag_EnvVar = None\<rparr>,
      \<lparr>flag_Name = ''v'', flag_Value = VBool False, flag_EnvVar = None\<rparr>]"

definition udpserver_config_of_flags :: "cli_context \<Rightarrow> udpserver_config" where
  "udpserver_config_of_flags c =
     \<lparr>ud_Listen = ctx_String c ''l'',
      ud_Target = ctx_String c ''t'',
      ud_Key = ctx_String c ''key'',
      ud_Crypt = ctx_String c ''crypt'',
      ud_MTU = ctx_Int c ''mtu'',
      ud_SockBuf = ctx_Int c ''sockbuf'',
      ud_DSCP = ctx_Int c ''dscp'',
      ud_Idle = ctx_Int c ''idle'',
      ud_TCP = ctx_Bool c ''tcp'',
      ud_TCPMark = ctx_Int c ''tcpmark'',
      ud_Log = ctx_String c ''log'',
      ud_Quiet = ctx_Bool c ''quiet''\<rparr>"

definition udpserver_config_tags :: "udpserver_config json_fields" where
  "udpserver_config_tags =
     [(''listen'', set_string (\<lambda>v c. c\<lparr>ud_Listen := v\<rparr>)),
      (''target'', set_string (\<lambda>v c. c\<lparr>ud_Target := v\<rparr>)),
      (''key'', set_string (\<lambda>v c. c\<lparr>ud_Key := v\<rparr>)),
      (''crypt'', set_string (\<lambda>v c. c\<lparr>ud_Crypt := v\<rparr>)),
      (''mtu'', set_int (\<lambda>v c. c\<lparr>ud_MTU := v\<rparr>)),
      (''sockbuf'', set_int (\<lambda>v c. c\<lparr>ud_SockBuf := v\<rparr>)),
      (''dscp'', set_int (\<lambda>v c. c\<lparr>ud_DSCP := v\<rparr>)),
      (''idle'', set_int (\<lambda>v c. c\<lparr>ud_Idle := v\<rparr>)),
      (''tcp'', set_bool (\<lambda>v c. c\<lparr>ud_TCP := v\<rparr>)),
      (''tcpmark'', set_int (\<lambda>v c. c\<lparr>ud_TCPMark := v\<rparr>)),
      (''log'', set_string (\<lambda>v c. c\<lparr>ud_Log := v\<rparr>)),
      (''quiet'', set_bool (\<lambda>v c. c\<lparr>ud_Quiet := v\<rparr>))]"

text \<open>The fields by tag, for statements about all of them.\<close>

definition udpserver_config_view :: "udpserver_config \<Rightarrow> (string \<times> flag_value) list" where
  "udpserver_config_view c =
     [(''listen'', VString (ud_Listen c)),
      (''target'', VString (ud_Target c)),
      (''key'', VString (ud_Key c)),
      (''crypt'', VString (ud_Crypt c)),
      (''mtu'', VInt (ud_MTU c)),
      (''sockbuf'', VInt (ud_SockBuf c)),
      (''dscp'', VInt (ud_DSCP c)),
      (''idle'', VInt (ud_Idle c)),
      (''tcp'', VBool (ud_TCP c)),
      (''tcpmark'', VInt (ud_TCPMark c)),
      (''log'', VString (ud_Log c)),
      (''quiet'', VBool (ud_Quiet c))]"

text \<open>
  The configuration in force: the flags, a key from the environment in place of the default one,
  the file; \<^const>\<open>None\<close> is the exit of the program. \<open>getenv\<close> gives the empty string for a
  variable that is not set.
\<close>

definition udpserver_load :: "cli_context \<Rightarrow> (string \<Rightarrow> string) \<Rightarrow> json_file \<Rightarrow> bool \<Rightarrow> udpserver_config option" where
  "udpserver_load ctx getenv conf log_opens =
     (let c = udpserver_config_of_flags ctx;
          e = getenv ''KCPTUN_KEY'';
          c = (if e \<noteq> [] \<and> ud_Key c = default_key then c\<lparr>ud_Key := e\<rparr> else c);
          (c, ok) = (if ctx_String ctx ''c'' \<noteq> [] then parseJSONConfig udpserver_config_tags conf c else (c, True))
      in if \<not> ok then None
         else if ud_Log c \<noteq> [] \<and> \<not> log_opens then None
         else Some c)"

subsection \<open>Server: main\<close>

definition udpserver_ServerConfig :: "udpserver_config \<Rightarrow> ServerConfig" where
  "udpserver_ServerConfig c =
     \<lparr>sc_Target = ud_Target c, sc_MaxPacket = ud_MTU c, sc_SockBuf = ud_SockBuf c, sc_DSCP = ud_DSCP c,
      sc_Idle = ud_Idle c, sc_Quiet = ud_Quiet c\<rparr>"

text \<open>
  \<open>serve\<close> on each transport: the UDP socket, without which the program exits, and the disguise,
  whose failure is only logged. A transport is given with its socket options, and with the random
  bytes its server draws. The servers that did start are listed.
\<close>

definition serve :: "crypt_libs \<Rightarrow> udpserver_config \<Rightarrow> BlockCrypt \<Rightarrow> transport_caps \<times> bytes option \<times> bytes option \<Rightarrow>
    (server \<times> sockopt list) list" where
  "serve L c blk = (\<lambda>(caps, key, seed). case RunServer L (udpserver_ServerConfig c) blk caps key seed of
     Inl _ \<Rightarrow> [] | Inr s \<Rightarrow> [s])"

definition udpserver_main :: "crypt_libs \<Rightarrow> cli_context \<Rightarrow> (string \<Rightarrow> string) \<Rightarrow> json_file \<Rightarrow> bool \<Rightarrow>
    (transport_caps \<times> bytes option \<times> bytes option) option \<Rightarrow> listen_env \<Rightarrow> transport_caps \<times> bytes option \<times> bytes option \<Rightarrow>
    (server \<times> sockopt list) list main_result" where
  "udpserver_main L ctx getenv conf log_opens udp env tcp =
     (if ctx_Bool ctx ''v'' then Version
      else case udpserver_load ctx getenv conf log_opens of
        None \<Rightarrow> Exit
      | Some c \<Rightarrow> (case NewBlockCrypt L (ud_Crypt c) (map of_char (ud_Key c)) of
          Inl _ \<Rightarrow> Exit
        | Inr blk \<Rightarrow> (case udp of
            None \<Rightarrow> Exit
          | Some u \<Rightarrow> Running (serve L c blk u
              @ (if ud_TCP c then (case fst (raw_Listen env) of Inl _ \<Rightarrow> [] | Inr _ \<Rightarrow> serve L c blk tcp) else [])))))"

end
