(* ===== verification/StreamConfigFacts.thy ===== *)
theory StreamConfigFacts
  imports StreamConfig
begin

section \<open>Where every setting comes from\<close>

text \<open>
  The interface of configuration tables holds of both records, so one lemma says where the value of
  every field comes from.
\<close>

text \<open>
  A table of values in which one field is replaced; a setter law is checked field by field.
\<close>

definition put :: "string \<Rightarrow> flag_value \<Rightarrow> (string \<times> flag_value) list \<Rightarrow> (string \<times> flag_value) list" where
  "put k v xs = map (\<lambda>(n, u). (n, if n = k then v else u)) xs"

definition sets :: "('c \<Rightarrow> (string \<times> flag_value) list) \<Rightarrow> string \<Rightarrow> (json_value \<Rightarrow> 'c \<Rightarrow> 'c option) \<Rightarrow> bool" where
  "sets view k s \<longleftrightarrow> (\<forall>j c c'. s j c = Some c' \<longrightarrow>
     view c' = (case json_flag j of None \<Rightarrow> view c | Some v \<Rightarrow> put k v (view c)))"

definition admits :: "('c \<Rightarrow> (string \<times> flag_value) list) \<Rightarrow> string \<Rightarrow> (json_value \<Rightarrow> 'c \<Rightarrow> 'c option) \<Rightarrow> bool" where
  "admits view k s \<longleftrightarrow> (\<forall>j c. (s j c \<noteq> None) = fits_field j (the (map_of (view c) k)))"

lemma sets_eqs:
  "sets view k (set_string f) \<longleftrightarrow> (\<forall>v c. view (f v c) = put k (VString v) (view c))"
  "sets view k (set_int g) \<longleftrightarrow> (\<forall>v c. view (g v c) = put k (VInt v) (view c))"
  "sets view k (set_bool h) \<longleftrightarrow> (\<forall>v c. view (h v c) = put k (VBool v) (view c))"
  by (force simp: sets_def set_string_def set_int_def set_bool_def split: json_value.splits)+

lemma admits_eqs:
  "(\<forall>c. \<exists>x. map_of (view c) k = Some (VString x)) \<Longrightarrow> admits view k (set_string f)"
  "(\<forall>c. \<exists>x. map_of (view c) k = Some (VInt x)) \<Longrightarrow> admits view k (set_int g)"
  "(\<forall>c. \<exists>x. map_of (view c) k = Some (VBool x)) \<Longrightarrow> admits view k (set_bool h)"
  unfolding admits_def
  by (intro allI, rename_tac j c, erule_tac x = c in allE, case_tac j;
      force simp: set_string_def set_int_def set_bool_def fits_field_def)+

lemma map_of_put:
  assumes "map_of xs k \<noteq> None"
  shows "map_of (put k v xs) n = (if n = k then Some v else map_of xs n)"
proof -
  have "map_of (put k v xs) n = map_option (\<lambda>u. if n = k then v else u) (map_of xs n)"
    by (induction xs) (auto simp: put_def)
  then show ?thesis using assms by (cases "map_of xs n") auto
qed

lemma config_tableI:
  assumes keys: "\<And>c. map fst (view c) = map fst tags"
    and laws: "list_all (\<lambda>(k, s). sets view k s \<and> admits view k s) tags"
  shows "config_table view tags"
proof
  show "map fst (view c) = map fst tags" for c by (rule keys)
next
  fix k :: string and s j n c c'
  assume s: "map_of tags k = Some s" "s j c = Some c'"
  have "sets view k s" using laws s(1) by (auto simp: list_all_iff dest: map_of_SomeD)
  then have "view c' = (case json_flag j of None \<Rightarrow> view c | Some v \<Rightarrow> put k v (view c))"
    using s(2) unfolding sets_def by blast
  moreover have "k \<in> set (map fst (view c))"
    unfolding keys using s(1) by (auto dest: map_of_SomeD intro: rev_image_eqI)
  then have "map_of (view c) k \<noteq> None" by (simp add: map_of_eq_None_iff)
  ultimately show "map_of (view c') n =
      (if n = k \<and> json_flag j \<noteq> None then json_flag j else map_of (view c) n)"
    by (auto simp: map_of_put split: option.split)
next
  fix k :: string and s j c
  assume "map_of tags k = Some s"
  then have "admits view k s" using laws by (auto simp: list_all_iff dest: map_of_SomeD)
  then show "(s j c \<noteq> None) = fits_field j (the (map_of (view c) k))"
    unfolding admits_def by blast
qed

interpretation client_table: config_table client_Config_view client_Config_tags
proof (rule config_tableI)
  show "map fst (client_Config_view c) = map fst client_Config_tags" for c
    by (simp add: client_Config_view_def client_Config_tags_def)
  show "list_all (\<lambda>(k, s). sets client_Config_view k s \<and> admits client_Config_view k s) client_Config_tags"
    by (simp add: client_Config_tags_def sets_eqs admits_eqs client_Config_view_def put_def)
qed

interpretation server_table: config_table server_Config_view server_Config_tags
proof (rule config_tableI)
  show "map fst (server_Config_view c) = map fst server_Config_tags" for c
    by (simp add: server_Config_view_def server_Config_tags_def)
  show "list_all (\<lambda>(k, s). sets server_Config_view k s \<and> admits server_Config_view k s) server_Config_tags"
    by (simp add: server_Config_tags_def sets_eqs admits_eqs server_Config_view_def put_def)
qed

subsection \<open>Precedence\<close>

text \<open>The profiles as the manual tables them: nodelay, interval, resend, nc.\<close>

definition profiles :: "(string \<times> int \<times> int \<times> int \<times> int) list" where
  "profiles = [(''normal'', 0, 40, 2, 1), (''fast'', 0, 30, 2, 1), (''fast2'', 1, 20, 2, 1), (''fast3'', 1, 10, 2, 1)]"

definition profile_gives :: "string \<Rightarrow> string \<Rightarrow> flag_value option" where
  "profile_gives mode n = (case map_of profiles mode of
     None \<Rightarrow> None
   | Some (nd, itv, rs, nc) \<Rightarrow>
       map_of [(''nodelay'', VInt nd), (''interval'', VInt itv), (''resend'', VInt rs), (''nc'', VInt nc)] n)"

text \<open>The value of a flag: profile, then file, then command line, environment, default.\<close>

definition setting :: "string \<Rightarrow> json_file \<Rightarrow> (string \<Rightarrow> flag_value option) \<Rightarrow> (string \<Rightarrow> string option) \<Rightarrow> cli_flag \<Rightarrow> flag_value" where
  "setting mode conf given env f = (case profile_gives mode (flag_key f) of
     Some v \<Rightarrow> v
   | None \<Rightarrow> (case file_gives conf (flag_key f) of Some v \<Rightarrow> v | None \<Rightarrow> flag_or_default given env f))"

definition used_file :: "cli_context \<Rightarrow> json_file \<Rightarrow> json_file" where
  "used_file ctx conf = (if ctx_String ctx ''c'' = [] then JsonNull else conf)"

text \<open>What a record with the fields of a profile looks like after one is applied.\<close>

lemma profile_view:
  assumes "map_of (v c) ''nodelay'' \<noteq> None" "map_of (v c) ''interval'' \<noteq> None"
    "map_of (v c) ''resend'' \<noteq> None" "map_of (v c) ''nc'' \<noteq> None"
    and "v c' = (case map_of profiles mode of None \<Rightarrow> v c
      | Some (nd, itv, rs, nc) \<Rightarrow> put ''nc'' (VInt nc) (put ''resend'' (VInt rs) (put ''interval'' (VInt itv) (put ''nodelay'' (VInt nd) (v c)))))"
  shows "map_of (v c') n = (case profile_gives mode n of Some x \<Rightarrow> Some x | None \<Rightarrow> map_of (v c) n)"
  using assms by (simp add: profile_gives_def map_of_put split: option.split prod.split)

lemma client_mode_view:
  "map_of (client_Config_view (client_mode c)) n =
     (case profile_gives (kc_Mode c) n of Some v \<Rightarrow> Some v | None \<Rightarrow> map_of (client_Config_view c) n)"
  by (rule profile_view [where mode = "kc_Mode c"])
    (simp_all add: client_Config_view_def put_def client_mode_def profiles_def)

lemma server_mode_view:
  "map_of (server_Config_view (server_mode c)) n =
     (case profile_gives (ks_Mode c) n of Some v \<Rightarrow> Some v | None \<Rightarrow> map_of (server_Config_view c) n)"
  by (rule profile_view [where mode = "ks_Mode c"])
    (simp_all add: server_Config_view_def put_def server_mode_def profiles_def)

lemma flag_view:
  assumes "serves flags given env ctx" "f \<in> set flags"
    and "list_all (\<lambda>f. flag_key f = ''c'' \<or> map_of v (flag_key f) = Some (context_value ctx f)) flags"
    and "flag_key f \<noteq> ''c''"
  shows "map_of v (flag_key f) = Some (flag_or_default given env f)"
proof -
  have "context_value ctx f = flag_or_default given env f"
    using assms(1,2) unfolding serves_def by blast
  then show ?thesis using assms(2-4) by (auto simp: list_all_iff)
qed

lemma client_flags_read:
  "list_all (\<lambda>f. flag_key f = ''c'' \<or> map_of (client_Config_view (client_Config_of_flags ctx)) (flag_key f) = Some (context_value ctx f))
     client_Config_flags"
  by (simp add: client_Config_flags_def flag_key_def client_Config_view_def client_Config_of_flags_def context_value_def default_key_def)

lemma server_flags_read:
  "list_all (\<lambda>f. flag_key f = ''c'' \<or> map_of (server_Config_view (server_Config_of_flags ctx)) (flag_key f) = Some (context_value ctx f))
     server_Config_flags"
  by (simp add: server_Config_flags_def flag_key_def server_Config_view_def server_Config_of_flags_def context_value_def default_key_def)

lemma client_load_cases:
  assumes "client_load ctx conf log_opens = Some cfg"
  obtains c1 where "parseJSONConfig client_Config_tags (used_file ctx conf) (client_Config_of_flags ctx) = (c1, True)"
    "cfg = client_mode c1" "kc_Log c1 = [] \<or> log_opens"
  using assms that
  by (auto simp: client_load_def used_file_def parseJSONConfig_def[of _ JsonNull] Let_def split: if_splits prod.splits)

lemma client_mode_simps [simp]: "kc_Mode (client_mode c) = kc_Mode c" "kc_Log (client_mode c) = kc_Log c"
  by (simp_all add: client_mode_def)

lemma client_setting:
  assumes serves: "serves client_Config_flags given env ctx" and load: "client_load ctx conf log_opens = Some cfg"
    and f: "f \<in> set client_Config_flags" "flag_key f \<noteq> ''c''"
  shows "map_of (client_Config_view cfg) (flag_key f) = Some (setting (kc_Mode cfg) (used_file ctx conf) given env f)"
proof -
  obtain c1 where c1: "parseJSONConfig client_Config_tags (used_file ctx conf) (client_Config_of_flags ctx) = (c1, True)"
      "cfg = client_mode c1"
    using client_load_cases [OF load] by blast
  have flag: "map_of (client_Config_view (client_Config_of_flags ctx)) (flag_key f) = Some (flag_or_default given env f)"
    by (rule flag_view [OF serves f(1) client_flags_read f(2)])
  show ?thesis
    using client_table.parse_view [OF c1(1), of "flag_key f"] flag
    by (simp add: c1(2) client_mode_view setting_def split: option.split)
qed

lemma server_load_cases:
  assumes "server_load ctx conf log_opens = Some cfg"
  obtains c1 where "parseJSONConfig server_Config_tags (used_file ctx conf) (server_Config_of_flags ctx) = (c1, True)"
    "cfg = server_mode c1" "ks_Log c1 = [] \<or> log_opens"
  using assms that
  by (auto simp: server_load_def used_file_def parseJSONConfig_def[of _ JsonNull] Let_def split: if_splits prod.splits)

lemma server_mode_simps [simp]: "ks_Mode (server_mode c) = ks_Mode c" "ks_Log (server_mode c) = ks_Log c"
  by (simp_all add: server_mode_def)

lemma server_setting:
  assumes serves: "serves server_Config_flags given env ctx" and load: "server_load ctx conf log_opens = Some cfg"
    and f: "f \<in> set server_Config_flags" "flag_key f \<noteq> ''c''"
  shows "map_of (server_Config_view cfg) (flag_key f) = Some (setting (ks_Mode cfg) (used_file ctx conf) given env f)"
proof -
  obtain c1 where c1: "parseJSONConfig server_Config_tags (used_file ctx conf) (server_Config_of_flags ctx) = (c1, True)"
      "cfg = server_mode c1"
    using server_load_cases [OF load] by blast
  have flag: "map_of (server_Config_view (server_Config_of_flags ctx)) (flag_key f) = Some (flag_or_default given env f)"
    by (rule flag_view [OF serves f(1) server_flags_read f(2)])
  show ?thesis
    using server_table.parse_view [OF c1(1), of "flag_key f"] flag
    by (simp add: c1(2) server_mode_view setting_def split: option.split)
qed

text \<open>C26. Every setting the client and the server run with comes from the first of these that gives it
  a value: the profile named by the mode in force (for the four tuning parameters), the
  configuration file, the command line, the flag's environment variable, and its default.
\<close>

theorem settings_precedence:
  assumes "serves client_Config_flags given env ctx" "client_load ctx conf log_opens = Some cfg"
    and "serves server_Config_flags given' env' ctx'" "server_load ctx' conf' log_opens' = Some cfg'"
    and "f \<in> set client_Config_flags" "flag_key f \<noteq> ''c''" "f' \<in> set server_Config_flags" "flag_key f' \<noteq> ''c''"
  shows "map_of (client_Config_view cfg) (flag_key f) = Some (setting (kc_Mode cfg) (used_file ctx conf) given env f)
    \<and> map_of (server_Config_view cfg') (flag_key f') = Some (setting (ks_Mode cfg') (used_file ctx' conf') given' env' f')"
  using client_setting [OF assms(1,2,5,6)] server_setting [OF assms(3,4,7,8)] by blast

definition sample_given :: "string \<Rightarrow> flag_value option" where
  "sample_given = map_of [(''mtu'', VInt 1200), (''c'', VString ''conf.json'')]"

definition sample_file :: json_file where
  "sample_file = JsonObject [(''MTU'', JInt 1400), (''mode'', JString ''fast3''), (''comment'', JOther)]"

lemma lower_samples:
  "lower (CHR ''M'') = CHR ''m''" "lower (CHR ''T'') = CHR ''t''" "lower (CHR ''U'') = CHR ''u''"
  "lower (CHR ''m'') = CHR ''m''" "lower (CHR ''o'') = CHR ''o''" "lower (CHR ''d'') = CHR ''d''"
  "lower (CHR ''e'') = CHR ''e''" "lower (CHR ''c'') = CHR ''c''" "lower (CHR ''n'') = CHR ''n''" "lower (CHR ''t'') = CHR ''t''"
  "lower (CHR ''u'') = CHR ''u''"
  by code_simp+

theorem settings_precedence_witness:
  "\<exists>cfg cfg'.
     client_load (context_of client_Config_flags sample_given (\<lambda>_. None)) sample_file True = Some cfg
     \<and> server_load (context_of server_Config_flags sample_given (\<lambda>_. None)) sample_file True = Some cfg'
     \<and> map_of (client_Config_view cfg) ''mtu'' = Some (VInt 1400)
     \<and> map_of (server_Config_view cfg') ''sndwnd'' = Some (VInt 1024)"
proof -
  let ?mtu = "\<lparr>flag_Name = ''mtu'', flag_Value = VInt 1350, flag_EnvVar = None\<rparr>"
  let ?wnd = "\<lparr>flag_Name = ''sndwnd'', flag_Value = VInt 1024, flag_EnvVar = None\<rparr>"
  let ?ctx = "context_of client_Config_flags sample_given (\<lambda>_. None)"
  let ?ctx' = "context_of server_Config_flags sample_given (\<lambda>_. None)"
  have "well_typed client_Config_flags sample_given" "well_typed server_Config_flags sample_given"
    by (simp_all add: well_typed_def client_Config_flags_def server_Config_flags_def flag_key_def sample_given_def default_key_def)
  then have s: "serves client_Config_flags sample_given (\<lambda>_. None) ?ctx" "serves server_Config_flags sample_given (\<lambda>_. None) ?ctx'"
    by (simp_all add: serves_context_of)
  have c: "ctx_String ?ctx ''c'' = ''conf.json''" "ctx_String ?ctx' ''c'' = ''conf.json''"
    by (simp_all add: context_of_def find_flag_def client_Config_flags_def server_Config_flags_def flag_key_def
        flag_or_default_def sample_given_def default_key_def)
  have "\<exists>cfg. client_load ?ctx sample_file True = Some cfg" "\<exists>cfg. server_load ?ctx' sample_file True = Some cfg"
    by (simp_all add: client_load_def server_load_def c sample_file_def parseJSONConfig_def client_Config_tags_def
        server_Config_tags_def lower_samples set_int_def set_string_def)
  then obtain cfg cfg' where l: "client_load ?ctx sample_file True = Some cfg" "server_load ?ctx' sample_file True = Some cfg'"
    by blast
  have f: "?mtu \<in> set client_Config_flags" "?wnd \<in> set server_Config_flags"
    by (simp_all add: client_Config_flags_def server_Config_flags_def)
  have "profile_gives m ''mtu'' = None" "profile_gives m ''sndwnd'' = None" for m
    by (simp_all add: profile_gives_def split: option.split)
  then have v: "setting m (used_file ?ctx sample_file) sample_given (\<lambda>_. None) ?mtu = VInt 1400"
    "setting m (used_file ?ctx' sample_file) sample_given (\<lambda>_. None) ?wnd = VInt 1024" for m
    by (simp_all add: setting_def flag_key_def used_file_def c)
      (simp_all add: sample_file_def lower_samples flag_or_default_def sample_given_def flag_key_def)
  from settings_precedence [OF s(1) l(1) s(2) l(2) f(1) _ f(2)] l show ?thesis
    unfolding v by (simp add: flag_key_def)
qed

subsection \<open>Failures\<close>

definition file_fits :: "(string \<times> flag_value) list \<Rightarrow> json_file \<Rightarrow> bool" where
  "file_fits v conf \<longleftrightarrow> (case conf of
     JsonNull \<Rightarrow> True
   | JsonObject js \<Rightarrow> (\<forall>(k, j) \<in> set js. case map_of v (fold_key k) of None \<Rightarrow> True | Some u \<Rightarrow> fits_field j u)
   | _ \<Rightarrow> False)"

lemma parse_ok:
  assumes "config_table view tags"
  shows "snd (parseJSONConfig tags conf c) = file_fits (view c) conf"
proof (cases "conf")
  case (JsonObject js)
  have "map_of tags n = None \<longleftrightarrow> map_of (view c) n = None" for n
    by (rule config_table.no_field [OF assms])
  then show ?thesis
    using config_table.decode_ok [OF assms, of js c]
    by (auto simp: JsonObject parseJSONConfig_def file_fits_def split: option.splits)
qed (simp_all add: parseJSONConfig_def file_fits_def)

text \<open>The client exits before it listens exactly when the configuration file cannot be opened or
  parsed or has a member for one of its fields that is not null and not of the field's type, or
  when the log file named by the setting in force cannot be opened; unknown members do no harm.
\<close>

theorem client_load_fails_iff:
  assumes "serves client_Config_flags given env ctx"
  shows "client_load ctx conf log_opens = None \<longleftrightarrow>
    \<not> file_fits (client_Config_view (client_Config_of_flags ctx)) (used_file ctx conf)
    \<or> (\<not> log_opens \<and> setting [] (used_file ctx conf) given env \<lparr>flag_Name = ''log'', flag_Value = VString [], flag_EnvVar = None\<rparr> \<noteq> VString [])"
proof -
  let ?f = "\<lparr>flag_Name = ''log'', flag_Value = VString [], flag_EnvVar = None\<rparr>"
  obtain c1 ok where p: "parseJSONConfig client_Config_tags (used_file ctx conf) (client_Config_of_flags ctx) = (c1, ok)"
    by (cases "parseJSONConfig client_Config_tags (used_file ctx conf) (client_Config_of_flags ctx)")
  have fits: "ok = file_fits (client_Config_view (client_Config_of_flags ctx)) (used_file ctx conf)"
    using parse_ok [OF client_table.config_table_axioms, of "used_file ctx conf" "client_Config_of_flags ctx"] p by simp
  have load: "client_load ctx conf log_opens =
      (if \<not> ok then None else if kc_Log c1 \<noteq> [] \<and> \<not> log_opens then None else Some (client_mode c1))"
    using p by (auto simp: client_load_def used_file_def parseJSONConfig_def [of _ JsonNull] Let_def split: if_splits)
  have "(kc_Log c1 = []) = (setting [] (used_file ctx conf) given env ?f = VString [])" if ok
  proof -
    have f: "?f \<in> set client_Config_flags" by (simp add: client_Config_flags_def)
    have "client_load ctx conf True = Some (client_mode c1)"
      using p that by (auto simp: client_load_def used_file_def parseJSONConfig_def [of _ JsonNull] Let_def split: if_splits)
    from client_setting [OF assms this f] have "VString (kc_Log c1) = setting (kc_Mode c1) (used_file ctx conf) given env ?f"
      by (simp add: flag_key_def client_Config_view_def)
    moreover have "profile_gives m ''log'' = None" for m
      by (simp add: profile_gives_def split: option.split)
    ultimately show ?thesis by (simp add: setting_def flag_key_def) (metis flag_value.inject(1))
  qed
  then show ?thesis using load fits by auto
qed

theorem client_load_fails_iff_witness:
  "client_load (context_of client_Config_flags sample_given (\<lambda>_. None)) (JsonObject [(''mtu'', JString ''x'')]) True = None"
proof -
  have "well_typed client_Config_flags sample_given"
    by (simp add: well_typed_def client_Config_flags_def flag_key_def sample_given_def default_key_def)
  moreover have "ctx_String (context_of client_Config_flags sample_given (\<lambda>_. None)) ''c'' = ''conf.json''"
    by (simp add: context_of_def find_flag_def client_Config_flags_def flag_key_def flag_or_default_def sample_given_def default_key_def)
  ultimately show ?thesis
    by (simp add: client_load_fails_iff [OF serves_context_of] used_file_def file_fits_def lower_samples fits_field_def client_Config_view_def)
qed

end
