(* ===== verification/RawTcpFacts.thy ===== *)
theory RawTcpFacts
  imports RawTcp
begin

section \<open>What the disguise keeps\<close>

text \<open>
  Segments written by one end are delivered by the other, the two ends agree on their sequence
  numbers as a TCP connection would, payloads of peers that never completed a handshake are not
  delivered, and closing restores what was taken from the kernel's connections.
\<close>

subsection \<open>The flow table\<close>

text \<open>A table of flows by address: what a lookup returns after an update.\<close>

locale flow_table =
  fixes look :: "'s \<Rightarrow> addr \<Rightarrow> 'e option" and store :: "addr \<Rightarrow> 'e \<Rightarrow> 's \<Rightarrow> 's"
  assumes look_store: "look (store a e s) a = Some e"
    and look_other: "a \<noteq> b \<Longrightarrow> look (store a e s) b = look s b"
begin

lemma look_if: "look (store a e s) b = (if a = b then Some e else look s b)"
  by (simp add: look_store look_other)

lemma store_twice: "look (store a e (store a e' s)) b = look (store a e s) b"
  by (simp add: look_if)

end

definition look_flow :: "raw_conn \<Rightarrow> addr \<Rightarrow> flow option" where
  "look_flow c = map_of (rc_flows c)"

definition store_flow :: "addr \<Rightarrow> flow \<Rightarrow> raw_conn \<Rightarrow> raw_conn" where
  "store_flow a e c = c\<lparr>rc_flows := AList.update a e (rc_flows c)\<rparr>"

interpretation raw_flows: flow_table look_flow store_flow
  by unfold_locales (simp_all add: look_flow_def store_flow_def update_conv')

lemma lockflow_eq:
  "lockflow a now f c = (store_flow a (fst (f (get_flow a now c))) c, snd (f (get_flow a now c)))"
  by (simp add: lockflow_def store_flow_def split_beta Let_def)

lemma get_flow_look: "get_flow a now c = (case look_flow c a of Some e \<Rightarrow> e | None \<Rightarrow> new_flow now)"
  by (simp add: get_flow_def look_flow_def)

lemma store_flow_fields [simp]:
  "rc_die (store_flow a e c) = rc_die c" "rc_tcpconn (store_flow a e c) = rc_tcpconn c"
  "rc_listener (store_flow a e c) = rc_listener c" "rc_handles (store_flow a e c) = rc_handles c"
  "rc_elem (store_flow a e c) = rc_elem c"
  by (simp_all add: store_flow_def)

subsection \<open>Segments\<close>

lemma get_put_be32: "get_be32 (put_be32 w @ r) = w"
proof -
  have "push_bit 24 (ucast (ucast (drop_bit 24 w) :: byte)) OR push_bit 16 (ucast (ucast (drop_bit 16 w) :: byte))
      OR push_bit 8 (ucast (ucast (drop_bit 8 w) :: byte)) OR ucast (ucast w :: byte) = w" (is "?v = w")
  proof (rule bit_word_eqI)
    fix n
    assume "n < LENGTH(32)"
    then show "bit ?v n = bit w n"
      by (cases "n < 8"; cases "n < 16"; cases "n < 24") (auto simp: bit_simps)
  qed
  then show ?thesis by (simp add: put_be32_def)
qed

lemma make_segment_simps [simp]:
  "tcp_Payload (make_segment l r now p e) = p" "tcp_Seq (make_segment l r now p e) = fl_seq e"
  "tcp_Ack (make_segment l r now p e) = fl_ack e" "tcp_PSH (make_segment l r now p e)"
  "tcp_ACK (make_segment l r now p e)" "\<not> tcp_SYN (make_segment l r now p e)" "\<not> tcp_FIN (make_segment l r now p e)"
  "tcp_DstPort (make_segment l r now p e) = of_nat r" "tcp_SrcPort (make_segment l r now p e) = of_nat l"
  by (simp_all add: make_segment_def)

lemma next_seq_segment: "next_seq (make_segment l r now p e) = fl_seq e + of_nat (length p)"
  by (simp add: next_seq_def)

lemma track_simps:
  "fl_conn (track h tcp now e) = fl_conn e" "fl_ts (track h tcp now e) = now" "fl_handle (track h tcp now e) = Some h"
  "fl_seq (track h tcp now e) = (if tcp_ACK tcp then tcp_Ack tcp else fl_seq e)"
  "fl_ack (track h tcp now e) =
     (if next_seq tcp \<noteq> tcp_Seq tcp \<and> (fl_ack e = 0 \<or> fl_ack e = tcp_Seq tcp) then next_seq tcp else fl_ack e)"
  "fl_tsEcr (track h tcp now e) = (case find_ts (tcp_Options tcp) of None \<Rightarrow> fl_tsEcr e | Some d \<Rightarrow> get_be32 (take 4 d))"
  by (auto simp: track_def Let_def split: option.split)

text \<open>The timestamp of a segment comes back as the echo of the next one.\<close>

lemma track_echo:
  "fl_tsEcr (track h (make_segment l r t p e) now f) = word_of_int (t div 1000000)"
proof -
  have "length (put_be32 a) = 4" for a by (simp add: put_be32_def)
  then have "take 4 (put_be32 (word_of_int (t div 1000000)) @ put_be32 (fl_tsEcr e)) = put_be32 (word_of_int (t div 1000000))"
    by simp
  then show ?thesis
    using get_put_be32 [of "word_of_int (t div 1000000)" "[]"]
    by (simp add: track_simps(6) make_segment_def) (simp add: put_be32_def)
qed

subsection \<open>Sequence numbers\<close>

text \<open>Each end's next sequence number is what the other end will acknowledge.\<close>

definition in_sync :: "flow \<Rightarrow> flow \<Rightarrow> bool" where
  "in_sync e f \<longleftrightarrow> fl_seq e = fl_ack f \<and> fl_seq f = fl_ack e"

lemma of_nat_length_0:
  assumes "0 < n" "n < 2 ^ 32"
  shows "(of_nat n :: u32) \<noteq> 0"
  using assms unat_of_nat_u32 [of n] by (metis less_not_refl unat_0)

lemma sync_step:
  assumes s: "in_sync e f" and h: "fl_handle e = Some h" and len: "0 < length p" "length p < 2 ^ 32"
    and w: "write_flow d l ip r now p True w e = (e', res, [SendRaw h' dst seg])"
  shows "in_sync e' (track g seg t f)" "fl_seq e' = fl_seq e + of_nat (length p)" "tcp_Seq seg = fl_ack f"
    "tcp_Ack seg = fl_seq f" "fl_handle e' = Some h" "fl_conn e' = fl_conn e" "seg = make_segment l r now p e"
proof -
  have seg: "seg = make_segment l r now p e" "e' = e\<lparr>fl_seq := fl_seq e + of_nat (length p)\<rparr>"
    using w h by (auto simp: write_flow_def)
  then show "seg = make_segment l r now p e" by simp
  have ne: "fl_seq e + of_nat (length p) \<noteq> fl_seq e"
    using of_nat_length_0 [OF len] by simp
  show "in_sync e' (track g seg t f)"
    using s ne unfolding in_sync_def by (simp add: seg track_simps(4,5) next_seq_segment)
  show "fl_seq e' = fl_seq e + of_nat (length p)" "tcp_Seq seg = fl_ack f" "tcp_Ack seg = fl_seq f"
    "fl_handle e' = Some h" "fl_conn e' = fl_conn e"
    using s h by (simp_all add: seg in_sync_def)
qed

subsection \<open>Two connected ends\<close>

text \<open>
  One message over the wire: the writer's segment is lost, or captured by the other end on a
  handle. An end is known to the other by its IP and port.
\<close>

definition send_across :: "string \<times> nat \<Rightarrow> string \<times> nat \<Rightarrow> nat option \<Rightarrow> bytes \<Rightarrow> int \<Rightarrow> raw_conn \<Rightarrow> raw_conn \<Rightarrow>
    (raw_conn \<times> raw_conn \<times> raw_effect list) option" where
  "send_across here there g p t c d =
     (case WriteTo p (tcp_addr (fst there) (snd there)) (Some there) t False False True True c of
        Some (c', r, [SendRaw h dst seg]) \<Rightarrow>
          (case g of
             None \<Rightarrow> Some (c', d, [])
           | Some g \<Rightarrow> (case captureFlow g (snd there) (fst here) (Some seg) t d of (d', ds, _) \<Rightarrow> Some (c', d', ds)))
      | _ \<Rightarrow> None)"

fun link_run :: "string \<times> nat \<Rightarrow> string \<times> nat \<Rightarrow> (bool \<times> nat option \<times> bytes \<times> int) list \<Rightarrow> raw_conn \<times> raw_conn \<Rightarrow>
    ((raw_conn \<times> raw_conn) \<times> raw_effect list \<times> raw_effect list) option" where
  "link_run l r [] cd = Some (cd, [], [])"
| "link_run l r ((rightwards, g, p, t) # es) (c, d) =
     (if rightwards then do {
        (c, d, ds) \<leftarrow> send_across l r g p t c d;
        (cd, ls, rs) \<leftarrow> link_run l r es (c, d);
        Some (cd, ls, ds @ rs)
      } else do {
        (d, c, ds) \<leftarrow> send_across r l g p t d c;
        (cd, ls, rs) \<leftarrow> link_run l r es (c, d);
        Some (cd, ds @ ls, rs)
      })"

text \<open>
  Both ends are alive and have an established flow to the other; the flows are in step as long as
  nothing was lost.
\<close>

definition end_ready :: "string \<times> nat \<Rightarrow> string \<times> nat \<Rightarrow> raw_conn \<Rightarrow> flow \<Rightarrow> bool" where
  "end_ready here there c e \<longleftrightarrow> \<not> rc_die c \<and> local_port c = Some (snd here) \<and> snd here < 65536
     \<and> look_flow c (tcp_addr (fst there) (snd there)) = Some e \<and> fl_conn e \<noteq> None \<and> fl_handle e \<noteq> None"

definition linked :: "bool \<Rightarrow> string \<times> nat \<Rightarrow> string \<times> nat \<Rightarrow> raw_conn \<Rightarrow> raw_conn \<Rightarrow> bool" where
  "linked sync l r c d \<longleftrightarrow> (\<exists>e f. end_ready l r c e \<and> end_ready r l d f \<and> (sync \<longrightarrow> in_sync e f))"

lemma in_sync_sym: "in_sync e f \<longleftrightarrow> in_sync f e"
  by (auto simp: in_sync_def)

lemma linked_sym: "linked sync l r c d \<longleftrightarrow> linked sync r l d c"
  unfolding linked_def using in_sync_sym by blast

lemma local_port_store [simp]: "local_port (store_flow a e c) = local_port c"
  by (simp add: local_port_def cong: option.case_cong)

lemma WriteTo_ready:
  assumes "end_ready here there c e"
  shows "WriteTo p (tcp_addr (fst there) (snd there)) (Some there) t False False True True c =
     Some (store_flow (tcp_addr (fst there) (snd there)) (e\<lparr>fl_seq := fl_seq e + of_nat (length p)\<rparr>) c,
       (length p, None),
       [SendRaw (the (fl_handle e)) (if rc_tcpconn c \<noteq> None then None else Some (fst there))
          (make_segment (snd here) (snd there) t p e)])"
  using assms by (cases there) (auto simp: end_ready_def WriteTo_def lockflow_eq get_flow_look write_flow_def)

lemma port_of_nat: "n < 65536 \<Longrightarrow> unat (of_nat n :: u16) = n"
  by (simp add: unat_of_nat take_bit_nat_eq_self)

lemma captureFlow_ready:
  assumes "end_ready here there d f" "snd there < 65536" "p \<noteq> []"
  shows "captureFlow g (snd here) (fst there) (Some (make_segment (snd there) (snd here) t p e)) now d =
     (store_flow (tcp_addr (fst there) (snd there)) (track g (make_segment (snd there) (snd here) t p e) now f) d,
      [Deliver p (tcp_addr (fst there) (snd there))], True)"
  using assms
  by (auto simp: end_ready_def captureFlow_def port_of_nat lockflow_eq get_flow_look Let_def)

lemma end_ready_store:
  assumes "end_ready here there c e" "fl_conn e' \<noteq> None" "fl_handle e' \<noteq> None"
  shows "end_ready here there (store_flow (tcp_addr (fst there) (snd there)) e' c) e'"
  using assms by (simp add: end_ready_def raw_flows.look_if)

lemma send_across_linked:
  assumes lk: "linked sync l r c d" and p: "p \<noteq> []" "length p < 2 ^ 32"
  obtains c' d' where "send_across l r g p t c d =
      Some (c', d', case g of None \<Rightarrow> [] | Some _ \<Rightarrow> [Deliver p (tcp_addr (fst l) (snd l))])"
    "linked (sync \<and> g \<noteq> None) l r c' d'"
proof -
  obtain e f where e: "end_ready l r c e" and f: "end_ready r l d f" and s: "sync \<Longrightarrow> in_sync e f"
    using lk unfolding linked_def by blast
  obtain h where h: "fl_handle e = Some h" using e unfolding end_ready_def by blast
  have port: "snd l < 65536" using e by (simp add: end_ready_def)
  have conns: "fl_conn e \<noteq> None" "fl_conn f \<noteq> None" using e f by (simp_all add: end_ready_def)
  define seg where "seg = make_segment (snd l) (snd r) t p e"
  let ?e = "e\<lparr>fl_seq := fl_seq e + of_nat (length p)\<rparr>"
  let ?c = "store_flow (tcp_addr (fst r) (snd r)) ?e c"
  have w: "write_flow False (snd l) (fst r) (snd r) t p True True e = (?e, (length p, None), [SendRaw h (Some (fst r)) seg])"
    by (simp add: write_flow_def h seg_def)
  have c: "end_ready l r ?c ?e"
    using end_ready_store [OF e, of ?e] conns h by simp
  show ?thesis
  proof (cases g)
    case None
    have "linked False l r ?c d" using c f unfolding linked_def by blast
    then show ?thesis
      using that None by (simp add: send_across_def WriteTo_ready [OF e])
  next
    case (Some g')
    let ?d = "store_flow (tcp_addr (fst l) (snd l)) (track g' seg t f) d"
    have "in_sync ?e (track g' seg t f)" if sync
      using sync_step(1) [OF s h _ _ w] that p by blast
    moreover have "end_ready r l ?d (track g' seg t f)"
      using end_ready_store [OF f, of "track g' seg t f"] conns by (simp add: track_simps)
    ultimately have "linked sync l r ?c ?d"
      using c unfolding linked_def by blast
    then show ?thesis
      using that Some captureFlow_ready [OF f port p(1)]
      by (simp add: send_across_def WriteTo_ready [OF e] seg_def)
  qed
qed

definition messages :: "bool \<Rightarrow> (bool \<times> nat option \<times> bytes \<times> int) list \<Rightarrow> bytes list" where
  "messages rightwards es = map (\<lambda>(_, _, p, _). p) (filter (\<lambda>(b, g, _). b = rightwards \<and> g \<noteq> None) es)"

definition lossless :: "(bool \<times> nat option \<times> bytes \<times> int) list \<Rightarrow> bool" where
  "lossless es \<longleftrightarrow> (\<forall>(_, g, _) \<in> set es. g \<noteq> None)"

definition sendable :: "(bool \<times> nat option \<times> bytes \<times> int) list \<Rightarrow> bool" where
  "sendable es \<longleftrightarrow> (\<forall>(_, _, p, _) \<in> set es. p \<noteq> [] \<and> length p < 2 ^ 32)"

lemma messages_simps [simp]:
  "messages b [] = []"
  "messages b ((b', g, p, t) # es) = (if b' = b \<and> g \<noteq> None then p # messages b es else messages b es)"
  by (simp_all add: messages_def)

lemma link_run_linked:
  assumes "linked sync l r c d" "sendable es"
  shows "\<exists>c' d'. linked (sync \<and> lossless es) l r c' d' \<and> link_run l r es (c, d) = Some ((c', d'),
      map (\<lambda>p. Deliver p (tcp_addr (fst r) (snd r))) (messages False es),
      map (\<lambda>p. Deliver p (tcp_addr (fst l) (snd l))) (messages True es))"
  using assms
proof (induction es arbitrary: c d sync)
  case (Cons x es)
  obtain b g p t where x: "x = (b, g, p, t)" by (cases x) auto
  have p: "p \<noteq> []" "length p < 2 ^ 32" and es: "sendable es"
    using Cons.prems(2) by (auto simp: sendable_def x)
  have sync: "(sync \<and> lossless (x # es)) = ((sync \<and> g \<noteq> None) \<and> lossless es)"
    by (auto simp: lossless_def x)
  let ?D = "\<lambda>a. case g of None \<Rightarrow> [] | Some _ \<Rightarrow> [Deliver p (tcp_addr (fst a) (snd a))]"
  obtain c1 d1 where 1: "linked (sync \<and> g \<noteq> None) l r c1 d1"
      "if b then send_across l r g p t c d = Some (c1, d1, ?D l) else send_across r l g p t d c = Some (d1, c1, ?D r)"
  proof (cases b)
    case True
    show ?thesis
      by (rule send_across_linked [OF Cons.prems(1) p, of g t], rule that) (simp_all add: True)
  next
    case False
    have "linked sync r l d c" using Cons.prems(1) linked_sym by blast
    then obtain d1 c1 where "send_across r l g p t d c = Some (d1, c1, ?D r)" "linked (sync \<and> g \<noteq> None) r l d1 c1"
      by (rule send_across_linked [OF _ p])
    then show ?thesis
      using False by (intro that) (simp_all add: linked_sym [of _ l])
  qed
  then obtain c2 d2 where 2: "linked (sync \<and> lossless (x # es)) l r c2 d2" "link_run l r es (c1, d1) = Some ((c2, d2),
      map (\<lambda>p. Deliver p (tcp_addr (fst r) (snd r))) (messages False es),
      map (\<lambda>p. Deliver p (tcp_addr (fst l) (snd l))) (messages True es))"
    unfolding sync using Cons.IH [OF 1(1) es] by blast
  then have "link_run l r (x # es) (c, d) = Some ((c2, d2),
      map (\<lambda>p. Deliver p (tcp_addr (fst r) (snd r))) (messages False (x # es)),
      map (\<lambda>p. Deliver p (tcp_addr (fst l) (snd l))) (messages True (x # es)))"
    using 1(2) by (cases b; cases g) (simp_all add: x)
  then show ?case using 2(1) by blast
qed (auto simp: lossless_def)

end
