(* ===== verification/RawTcpLife.thy ===== *)
theory RawTcpLife
  imports RawTcpFacts "HOL-Library.Sublist"
begin

section \<open>From handshake to close\<close>

text \<open>
  The handshake that \<open>Dial\<close> and the accept loop make in the kernel, as seen by the raw sockets,
  links the two ends; then whatever is written at one end and not lost is read at the other. Also
  here: the events of a connection as a step function with its invariant, the cleaner and \<open>Close\<close>.
\<close>

subsection \<open>The handshake\<close>

definition control_segment :: "nat \<Rightarrow> nat \<Rightarrow> u32 \<Rightarrow> u32 \<Rightarrow> bool \<Rightarrow> bool \<Rightarrow> segment_tcp" where
  "control_segment sport dport sq ak syn ack =
     \<lparr>tcp_SrcPort = of_nat sport, tcp_DstPort = of_nat dport, tcp_Seq = sq, tcp_Ack = ak, tcp_SYN = syn,
      tcp_FIN = False, tcp_PSH = False, tcp_ACK = ack, tcp_Window = fingerprint_window, tcp_Options = [],
      tcp_Payload = []\<rparr>"

text \<open>
  What the listening side sees of a handshake, in the order its goroutines get to run: the SYN and
  the last ACK on a raw handle, and the connection out of \<open>AcceptTCP\<close>. \<open>x\<close> and \<open>y\<close> are the
  initial sequence numbers of the two kernels.
\<close>

datatype shake = SawSyn | SawAck | Accepted

fun listen_shake :: "(nat \<Rightarrow> bool) \<Rightarrow> string \<times> nat \<Rightarrow> nat \<Rightarrow> nat \<Rightarrow> nat \<Rightarrow> u32 \<Rightarrow> u32 \<Rightarrow> int \<Rightarrow> int \<Rightarrow> shake \<Rightarrow> raw_conn \<Rightarrow> raw_conn" where
  "listen_shake is4 l rport g t x y mark now SawSyn d =
     fst (captureFlow g rport (fst l) (Some (control_segment (snd l) rport x 0 True False)) now d)"
| "listen_shake is4 l rport g t x y mark now SawAck d =
     fst (captureFlow g rport (fst l) (Some (control_segment (snd l) rport (x + 1) (y + 1) False True)) now d)"
| "listen_shake is4 l rport g t x y mark now Accepted d =
     fst (accept is4 t (tcp_addr (fst l) (snd l)) True mark now d)"

definition shake_orders :: "shake list set" where
  "shake_orders = {[SawSyn, SawAck, Accepted], [SawSyn, Accepted, SawAck], [Accepted, SawSyn, SawAck]}"

lemma control_simps [simp]:
  "tcp_Payload (control_segment s d q a syn ack) = []" "tcp_Seq (control_segment s d q a syn ack) = q"
  "tcp_Ack (control_segment s d q a syn ack) = a" "tcp_SYN (control_segment s d q a syn ack) = syn"
  "tcp_FIN (control_segment s d q a syn ack) = False" "tcp_ACK (control_segment s d q a syn ack) = ack"
  "tcp_PSH (control_segment s d q a syn ack) = False"
  "tcp_SrcPort (control_segment s d q a syn ack) = of_nat s" "tcp_DstPort (control_segment s d q a syn ack) = of_nat d"
  by (simp_all add: control_segment_def)

lemma next_control: "next_seq (control_segment s d q a syn ack) = q + (if syn then 1 else 0)"
  by (simp add: next_seq_def)

lemma capture_control:
  assumes "sport < 65536" "dport < 65536"
  shows "captureFlow g dport ip (Some (control_segment sport dport q a syn ack)) now d =
     (store_flow (tcp_addr ip sport) (track g (control_segment sport dport q a syn ack) now (get_flow (tcp_addr ip sport) now d)) d, [], True)"
  using assms by (simp add: captureFlow_def port_of_nat lockflow_eq Let_def)

lemma accept_eq:
  "fst (accept is4 t a True mark now d) = store_flow a ((get_flow a now d)\<lparr>fl_conn := Some t\<rparr>) d"
  by (simp add: accept_def lockflow_eq Let_def)

lemma get_flow_store [simp]:
  "get_flow a now (store_flow a e c) = e"
  by (simp add: get_flow_look raw_flows.look_store)

lemma store_store: "store_flow a e (store_flow a e' c) = store_flow a e c"
proof -
  have "AList.update a e (AList.update a e' xs) = AList.update a e xs" for xs :: "(addr \<times> flow) list"
    by (induction xs) auto
  then show ?thesis by (simp add: store_flow_def)
qed

lemma look_flow_new [simp]: "rc_flows c = [] \<Longrightarrow> look_flow c a = None"
  by (simp add: look_flow_def)

lemma dial_side:
  assumes "raw_Dial is4 env mark t0 = Some (Inr c, es)" "de_tcp env = Some (s, lport, tcp_addr rip rport)"
    and ports: "lport < 65536" "rport < 65536"
  obtains e where "end_ready (lip, lport) (rip, rport)
       (fst (captureFlow h lport rip (Some (control_segment rport lport y (x + 1) True True)) t1 c)) e"
    "fl_seq e = x + 1" "fl_ack e = y + 1"
proof -
  have c: "c = (store_flow (tcp_addr rip rport) ((new_flow t0)\<lparr>fl_conn := Some s\<rparr>)
      (new_conn\<lparr>rc_tcpconn := Some (s, lport), rc_handles := [the (de_handle env)]\<rparr>))\<lparr>rc_elem := True\<rparr>"
    using assms(1,2)
    by (auto simp: raw_Dial_def lockflow_eq get_flow_look new_conn_def Let_def split: if_splits option.splits)
  have flow: "get_flow (tcp_addr rip rport) t1 c = (new_flow t0)\<lparr>fl_conn := Some s\<rparr>"
    by (simp add: c get_flow_def store_flow_def update_conv')
  let ?e = "track h (control_segment rport lport y (x + 1) True True) t1 ((new_flow t0)\<lparr>fl_conn := Some s\<rparr>)"
  have "end_ready (lip, lport) (rip, rport)
       (fst (captureFlow h lport rip (Some (control_segment rport lport y (x + 1) True True)) t1 c)) ?e"
    using ports by (simp add: capture_control flow end_ready_def raw_flows.look_if track_simps)
      (simp add: c new_conn_def local_port_def store_flow_def)
  moreover have "fl_seq ?e = x + 1" "fl_ack ?e = y + 1"
    by (simp_all add: track_simps next_control new_flow_def)
  ultimately show ?thesis by (rule that)
qed

lemma listen_side:
  assumes "raw_Listen env = (Inr d, es)" "le_listener env = Some (lst, rport)" "order \<in> shake_orders"
    and ports: "lport < 65536" "rport < 65536"
  obtains f where "end_ready (rip, rport) (lip, lport)
       (fold (listen_shake is4 (lip, lport) rport g t x y mark now) order d) f"
    "fl_seq f = y + 1" "fl_ack f = x + 1"
proof -
  obtain hs where d: "d = new_conn\<lparr>rc_listener := Some (lst, rport), rc_handles := hs, rc_elem := True\<rparr>"
    using assms(1,2) by (auto simp: raw_Listen_def split: if_splits sum.splits)
  have d': "\<not> rc_die d" "local_port d = Some rport" "get_flow a now d = new_flow now" for a
    by (simp_all add: d new_conn_def local_port_def get_flow_def)
  let ?a = "tcp_addr lip lport"
  have "\<exists>f. fold (listen_shake is4 (lip, lport) rport g t x y mark now) order d = store_flow ?a f d
     \<and> fl_seq f = y + 1 \<and> fl_ack f = x + 1 \<and> fl_conn f = Some t \<and> fl_handle f = Some g"
    using assms(3) ports unfolding shake_orders_def
    by (elim insertE emptyE) (auto simp: capture_control accept_eq d' track_simps next_control store_store new_flow_def
        intro!: exI conjI)
  then obtain f where f: "fold (listen_shake is4 (lip, lport) rport g t x y mark now) order d = store_flow ?a f d"
      "fl_seq f = y + 1" "fl_ack f = x + 1" "fl_conn f = Some t" "fl_handle f = Some g"
    by blast
  have "end_ready (rip, rport) (lip, lport) (store_flow ?a f d) f"
    using f ports d' by (simp add: end_ready_def raw_flows.look_if)
  then show ?thesis using that f by simp
qed

text \<open>C4. Once \<open>Dial\<close> and \<open>Listen\<close> have returned and the raw sockets have seen the three segments of
  the handshake, in whatever order the accept loop and the capturing goroutine of the listening
  side get to run, every message written with \<open>WriteTo\<close> at either end and not lost on the wire is
  handed to \<open>ReadFrom\<close> at the other end, unchanged and in order, under the address of its writer;
  if nothing was lost, each end's sequence number is still what the other acknowledges, as in a
  genuine TCP connection.
\<close>

theorem dial_listen_exchange:
  assumes dial: "raw_Dial is4 env mark t0 = Some (Inr c, es)" "de_tcp env = Some (s, lport, tcp_addr rip rport)"
    and listen: "raw_Listen lenv = (Inr d, es')" "le_listener lenv = Some (lst, rport)"
    and ports: "lport < 65536" "rport < 65536" and order: "order \<in> shake_orders" and msgs: "sendable msgs"
  shows "\<exists>c' d'. linked (lossless msgs) (lip, lport) (rip, rport) c' d'
     \<and> link_run (lip, lport) (rip, rport) msgs
         (fst (captureFlow h lport rip (Some (control_segment rport lport y (x + 1) True True)) t1 c),
          fold (listen_shake is4 (lip, lport) rport g t x y mark now) order d)
       = Some ((c', d'), map (\<lambda>p. Deliver p (tcp_addr rip rport)) (messages False msgs),
           map (\<lambda>p. Deliver p (tcp_addr lip lport)) (messages True msgs))"
proof -
  obtain e where e: "end_ready (lip, lport) (rip, rport)
       (fst (captureFlow h lport rip (Some (control_segment rport lport y (x + 1) True True)) t1 c)) e"
      "fl_seq e = x + 1" "fl_ack e = y + 1"
    by (rule dial_side [OF dial ports])
  obtain f where f: "end_ready (rip, rport) (lip, lport)
       (fold (listen_shake is4 (lip, lport) rport g t x y mark now) order d) f"
      "fl_seq f = y + 1" "fl_ack f = x + 1"
    by (rule listen_side [OF listen order ports])
  have "in_sync e f" using e f by (simp add: in_sync_def)
  then have "linked True (lip, lport) (rip, rport)
       (fst (captureFlow h lport rip (Some (control_segment rport lport y (x + 1) True True)) t1 c))
       (fold (listen_shake is4 (lip, lport) rport g t x y mark now) order d)"
    using e(1) f(1) unfolding linked_def by blast
  from link_run_linked [OF this msgs] show ?thesis by simp
qed

definition sample_dial :: dial_env where
  "sample_dial = \<lparr>de_resolved = True, de_handle = Some 1, de_tcp = Some (2, 40000, tcp_addr ''10.0.0.2'' 29900), de_ttl = True\<rparr>"

definition sample_listen :: listen_env where
  "sample_listen = \<lparr>le_resolved = True, le_interfaces = True, le_unspecified = False, le_addrs = [],
     le_handle = Some 3, le_listener = Some (4, 29900)\<rparr>"

definition sample_dialed :: raw_conn where
  "sample_dialed = (store_flow (tcp_addr ''10.0.0.2'' 29900) ((new_flow 0)\<lparr>fl_conn := Some 2\<rparr>)
     (new_conn\<lparr>rc_tcpconn := Some (2, 40000), rc_handles := [1]\<rparr>))\<lparr>rc_elem := True\<rparr>"

definition sample_listening :: raw_conn where
  "sample_listening = new_conn\<lparr>rc_listener := Some (4, 29900), rc_handles := [3], rc_elem := True\<rparr>"

lemma sample_connect:
  "raw_Dial (\<lambda>_. True) sample_dial 7 0 = Some (Inr sample_dialed, [Setsockopt 2 IPPROTO_IP IP_TTL 1, Setsockopt 2 SOL_SOCKET SO_MARK 7])"
  "raw_Listen sample_listen = (Inr sample_listening, [])"
  by (simp_all add: raw_Dial_def raw_Listen_def sample_dial_def sample_listen_def sample_dialed_def sample_listening_def
      lockflow_eq get_flow_look new_conn_def setTTL_def setMark_def listen_handles_def)

theorem dial_listen_exchange_witness:
  "\<exists>c' d'. linked True (''10.0.0.1'', 40000) (''10.0.0.2'', 29900) c' d'
     \<and> link_run (''10.0.0.1'', 40000) (''10.0.0.2'', 29900) [(True, Some 3, [1, 2], 5), (False, Some 1, [9], 6)]
         (fst (captureFlow 1 40000 ''10.0.0.2'' (Some (control_segment 29900 40000 200 101 True True)) 1 sample_dialed),
          fold (listen_shake (\<lambda>_. True) (''10.0.0.1'', 40000) 29900 3 5 100 200 7 1) [SawSyn, Accepted, SawAck] sample_listening)
       = Some ((c', d'), [Deliver [9] (tcp_addr ''10.0.0.2'' 29900)], [Deliver [1, 2] (tcp_addr ''10.0.0.1'' 40000)])"
  using dial_listen_exchange [OF sample_connect(1) _ sample_connect(2), where lport = 40000 and rport = 29900
      and rip = "''10.0.0.2''" and lip = "''10.0.0.1''" and msgs = "[(True, Some 3, [1, 2], 5), (False, Some 1, [9], 6)]"
      and order = "[SawSyn, Accepted, SawAck]" and x = 100 and y = 200 and h = 1 and g = 3 and t = 5 and ?t1.0 = 1 and now = 1 and s = 2 and lst = 4]
  by (simp add: sample_dial_def sample_listen_def shake_orders_def sendable_def lossless_def)

subsection \<open>The events of a connection\<close>

datatype raw_event =
    Captured nat nat string "segment_tcp option" int
  | Written bytes addr "(string \<times> nat) option" int bool bool bool bool
  | Cleaned int
  | AcceptedTCP nat addr bool int int
  | Closed
  | DeadlinesSet "int option" "int option"

fun raw_do :: "(nat \<Rightarrow> bool) \<Rightarrow> raw_event \<Rightarrow> raw_conn \<Rightarrow> (raw_conn \<times> raw_effect list) option" where
  "raw_do is4 (Captured h port ip seg now) c = (case captureFlow h port ip seg now c of (c, es, _) \<Rightarrow> Some (c, es))"
| "raw_do is4 (Written p a res now fired pick ser w) c =
     map_option (\<lambda>(c, _, es). (c, es)) (WriteTo p a res now fired pick ser w c)"
| "raw_do is4 (Cleaned now) c = Some (clean is4 now c)"
| "raw_do is4 (AcceptedTCP t a ttl mark now) c = Some (accept is4 t a ttl mark now c)"
| "raw_do is4 Closed c = raw_Close is4 c"
| "raw_do is4 (DeadlinesSet r w) c = Some (SetWriteDeadline w (SetReadDeadline r c), [])"

fun raw_run :: "(nat \<Rightarrow> bool) \<Rightarrow> raw_event list \<Rightarrow> raw_conn \<Rightarrow> (raw_conn \<times> raw_effect list) option" where
  "raw_run is4 [] c = Some (c, [])"
| "raw_run is4 (x # xs) c = do {
     (c, es) \<leftarrow> raw_do is4 x c;
     (c, es') \<leftarrow> raw_run is4 xs c;
     Some (c, es @ es')
   }"

text \<open>
  The invariant: the connection is registered, one of its sockets gives the local port, and no
  address has two flows.
\<close>

definition raw_ok :: "raw_conn \<Rightarrow> bool" where
  "raw_ok c \<longleftrightarrow> rc_elem c \<and> local_port c \<noteq> None \<and> distinct (map fst (rc_flows c))"

lemma raw_ok_store [simp]: "raw_ok c \<Longrightarrow> raw_ok (store_flow a e c)"
  by (simp add: raw_ok_def) (simp add: store_flow_def distinct_update)

lemma local_port_updates [simp]:
  "local_port (c\<lparr>rc_flows := fs\<rparr>) = local_port c" "local_port (c\<lparr>rc_die := b\<rparr>) = local_port c"
  "local_port (c\<lparr>rc_readDeadline := t\<rparr>) = local_port c" "local_port (c\<lparr>rc_writeDeadline := t\<rparr>) = local_port c"
  "local_port (c\<lparr>rc_elem := b\<rparr>) = local_port c"
  by (simp_all add: local_port_def cong: option.case_cong)

lemma captureFlow_cases:
  assumes "captureFlow h port ip seg now c = (c', es, go)"
  obtains "c' = c" "es = []"
  | tcp where "seg = Some tcp" "unat (tcp_DstPort tcp) = port"
      "c' = store_flow (tcp_addr ip (unat (tcp_SrcPort tcp)))
         (track h tcp now (get_flow (tcp_addr ip (unat (tcp_SrcPort tcp))) now c)) c"
      "es = [] \<or> es = [Deliver (tcp_Payload tcp) (tcp_addr ip (unat (tcp_SrcPort tcp)))]
         \<and> fl_conn (get_flow (tcp_addr ip (unat (tcp_SrcPort tcp))) now c) \<noteq> None"
  using assms by (cases seg) (auto simp: captureFlow_def lockflow_eq Let_def split: if_splits)

lemma WriteTo_some:
  assumes "local_port c \<noteq> None"
  shows "WriteTo p a r now fired pick ser w c \<noteq> None"
  using assms by (auto simp: WriteTo_def lockflow_eq Let_def split: option.splits) (metis surj_pair)

lemma write_flow_shape:
  "fl_conn (fst (write_flow d l ip rport now p ser w e)) = fl_conn e"
  "fl_handle (fst (write_flow d l ip rport now p ser w e)) = fl_handle e"
  "snd (snd (write_flow d l ip rport now p ser w e)) = []
     \<or> (\<exists>h dst seg. snd (snd (write_flow d l ip rport now p ser w e)) = [SendRaw h dst seg])"
  by (auto simp: write_flow_def split: option.splits)

lemma WriteTo_cases:
  assumes "WriteTo p a r now fired pick ser w c = Some (c', res, es)"
  obtains "c' = c" "es = []"
  | e where "c' = store_flow a e c" "fl_conn e = fl_conn (get_flow a now c)" "fl_handle e = fl_handle (get_flow a now c)"
      "es = [] \<or> (\<exists>h dst seg. es = [SendRaw h dst seg])"
proof -
  note that' = that
  show ?thesis
  proof (cases "(\<not> fired \<or> rc_die c \<and> \<not> pick) \<and> \<not> rc_die c \<and> r \<noteq> None")
    case False
    then show ?thesis using assms that'(1) by (auto simp: WriteTo_def split: if_splits option.splits)
  next
    case True
    then obtain ip rport lport where eqs: "r = Some (ip, rport)" "local_port c = Some lport"
        "(c', res, es) = (store_flow a (fst (write_flow (rc_tcpconn c \<noteq> None) lport ip rport now p ser w (get_flow a now c))) c,
          snd (write_flow (rc_tcpconn c \<noteq> None) lport ip rport now p ser w (get_flow a now c)))"
      using assms by (cases "local_port c") (auto simp: WriteTo_def lockflow_eq Let_def)
    show ?thesis
      by (rule that'(2) [of "fst (write_flow (rc_tcpconn c \<noteq> None) lport ip rport now p ser w (get_flow a now c))"])
        (use eqs(3) write_flow_shape in \<open>auto simp: prod_eq_iff\<close>)
  qed
qed

text \<open>One lemma for all the events: the invariant is kept, and nothing panics.\<close>

lemma raw_do_ok:
  assumes "raw_ok c"
  shows "\<exists>c' es. raw_do is4 x c = Some (c', es) \<and> raw_ok c'"
proof (cases x)
  case (Captured h port ip seg now)
  obtain c' es go where r: "captureFlow h port ip seg now c = (c', es, go)" by (metis surj_pair)
  from r have "raw_ok c'" by (rule captureFlow_cases) (use assms in auto)
  then show ?thesis by (simp add: Captured r)
next
  case (Written p a res now fired pick ser w)
  obtain c' r es where r: "WriteTo p a res now fired pick ser w c = Some (c', r, es)"
    using WriteTo_some assms unfolding raw_ok_def by (metis not_None_eq surj_pair)
  from r have "raw_ok c'" by (rule WriteTo_cases) (use assms in auto)
  then show ?thesis by (simp add: Written r)
next
  case (Cleaned now)
  then show ?thesis
    using assms by (simp add: clean_def raw_ok_def distinct_map_filter)
next
  case (AcceptedTCP t a ttl mark now)
  then show ?thesis
    using assms by (simp add: accept_def lockflow_eq Let_def)
next
  case Closed
  then show ?thesis
    using assms by (auto simp: raw_Close_def raw_ok_def Let_def split: option.split)
next
  case (DeadlinesSet r w)
  then show ?thesis
    using assms by (simp add: SetWriteDeadline_def SetReadDeadline_def raw_ok_def)
qed

lemma raw_run_ok:
  assumes "raw_ok c"
  shows "\<exists>c' es. raw_run is4 xs c = Some (c', es) \<and> raw_ok c'"
  using assms
proof (induction xs arbitrary: c)
  case (Cons x xs)
  obtain c1 e1 where 1: "raw_do is4 x c = Some (c1, e1)" "raw_ok c1"
    using raw_do_ok [OF Cons.prems] by blast
  obtain c2 e2 where "raw_run is4 xs c1 = Some (c2, e2)" "raw_ok c2"
    using Cons.IH [OF 1(2)] by blast
  then show ?case by (simp add: 1(1))
qed simp

lemma Dial_ok:
  assumes "raw_Dial is4 env mark now = Some (Inr c, es)"
  shows "raw_ok c"
  using assms
  by (auto simp: raw_Dial_def raw_ok_def lockflow_eq Let_def new_conn_def local_port_def store_flow_def
      split: if_splits option.splits)

lemma Listen_ok:
  assumes "raw_Listen env = (Inr c, es)"
  shows "raw_ok c"
  using assms
  by (auto simp: raw_Listen_def raw_ok_def new_conn_def local_port_def split: if_splits sum.splits option.splits)

text \<open>C28. A connection returned by \<open>Dial\<close> or \<open>Listen\<close> never panics, whatever its goroutines and its
  user do to it and in whatever order, closing it any number of times included; and the flow table
  never has two flows for an address.
\<close>

theorem raw_never_panics:
  assumes "(\<exists>env mark now es. raw_Dial is4 env mark now = Some (Inr c, es)) \<or> (\<exists>env es. raw_Listen env = (Inr c, es))"
  shows "\<exists>c' es. raw_run is4 xs c = Some (c', es) \<and> distinct (map fst (rc_flows c'))"
proof -
  have "raw_ok c" using assms Dial_ok Listen_ok by blast
  from raw_run_ok [OF this] show ?thesis unfolding raw_ok_def by blast
qed

theorem raw_never_panics_witness:
  "\<exists>c' es. raw_run (\<lambda>_. True) [Closed, Written [1] ''1.1.1.1:1'' None 0 False False True True, Closed, Cleaned 9] sample_dialed
     = Some (c', es) \<and> distinct (map fst (rc_flows c'))"
  by (rule raw_never_panics) (use sample_connect(1) in blast)

text \<open>C29. \<open>Dial\<close> returns a connection, an error, or panics; it panics exactly when everything but
  setting the TTL succeeded: \<open>Close\<close> then removes the connection from the list of live
  connections, which it has not yet entered.
\<close>

theorem dial_panics_iff:
  "raw_Dial is4 env mark now = None
     \<longleftrightarrow> de_resolved env \<and> de_handle env \<noteq> None \<and> de_tcp env \<noteq> None \<and> \<not> de_ttl env"
  by (auto simp: raw_Dial_def lockflow_eq Let_def new_conn_def raw_Close_def split: option.splits)

subsection \<open>Peers without a connection\<close>

text \<open>An address is an orphan when no accepted connection stands behind its flow.\<close>

definition orphan_at :: "addr \<Rightarrow> raw_conn \<Rightarrow> bool" where
  "orphan_at a c \<longleftrightarrow> (case look_flow c a of None \<Rightarrow> True | Some e \<Rightarrow> fl_conn e = None)"

definition delivered_from :: "addr \<Rightarrow> raw_effect list \<Rightarrow> bytes list" where
  "delivered_from a es = concat (map (\<lambda>e. case e of Deliver p b \<Rightarrow> if b = a then [p] else [] | _ \<Rightarrow> []) es)"

definition accepts :: "addr \<Rightarrow> raw_event list \<Rightarrow> bool" where
  "accepts a xs \<longleftrightarrow> (\<exists>t ttl mark now. AcceptedTCP t a ttl mark now \<in> set xs)"

lemma delivered_from_simps [simp]:
  "delivered_from a [] = []" "delivered_from a (es @ es') = delivered_from a es @ delivered_from a es'"
  "delivered_from a (Deliver p b # es) = (if b = a then [p] else []) @ delivered_from a es"
  "delivered_from a (Setsockopt t l q v # es) = delivered_from a es"
  "delivered_from a (CloseTCP t # es) = delivered_from a es" "delivered_from a (CloseHandle h # es) = delivered_from a es"
  "delivered_from a (CloseListener t # es) = delivered_from a es" "delivered_from a (Unregister # es) = delivered_from a es"
  "delivered_from a (SendRaw h d seg # es) = delivered_from a es"
  by (simp_all add: delivered_from_def)

lemma delivered_none:
  "\<forall>e \<in> set es. \<forall>p b. e \<noteq> Deliver p b \<Longrightarrow> delivered_from a es = []"
  by (auto simp: delivered_from_def split: raw_effect.splits)

lemma orphan_get: "orphan_at a c \<longleftrightarrow> fl_conn (get_flow a now c) = None"
  by (simp add: orphan_at_def get_flow_look new_flow_def split: option.split)

lemma orphan_store [simp]:
  "orphan_at a (store_flow b e c) \<longleftrightarrow> (if a = b then fl_conn e = None else orphan_at a c)"
  by (simp add: orphan_at_def raw_flows.look_if)

lemma close_flow_effects: "e \<in> set (close_flow is4 f) \<Longrightarrow> e \<noteq> Deliver p b"
  by (auto simp: close_flow_def setTTL_def split: option.splits if_splits)

lemma look_filter:
  assumes "distinct (map fst xs)"
  shows "map_of (filter (\<lambda>(k, v). P v) xs) a = (case map_of xs a of None \<Rightarrow> None | Some v \<Rightarrow> if P v then Some v else None)"
  using assms
proof (induction xs)
  case (Cons x xs)
  obtain k v where x: "x = (k, v)" by (cases x)
  have "k \<notin> fst ` set xs" "distinct (map fst xs)" using Cons.prems by (simp_all add: x)
  moreover from this(1) have "map_of xs k = None" by (simp add: map_of_eq_None_iff)
  ultimately show ?case using Cons.IH by (auto simp: x)
qed simp

lemma look_clean:
  assumes "raw_ok c"
  shows "look_flow (fst (clean is4 now c)) a =
     (case look_flow c a of None \<Rightarrow> None | Some e \<Rightarrow> if flow_expired now e then None else Some e)"
  using assms look_filter [of "rc_flows c" "\<lambda>e. \<not> flow_expired now e" a]
  by (auto simp: look_flow_def clean_def raw_ok_def split: option.split)

lemma clean_effects: "e \<in> set (snd (clean is4 now c)) \<Longrightarrow> e \<noteq> Deliver p b"
  using close_flow_effects by (fastforce simp: clean_def split: if_splits)

lemma raw_Close_cases:
  assumes "raw_Close is4 c = Some (c', es)"
  shows "\<forall>a. look_flow c' a = look_flow c a \<or> look_flow c' a = None" "\<forall>e \<in> set es. \<forall>p b. e \<noteq> Deliver p b"
  using assms close_flow_effects
  by (fastforce simp: raw_Close_def Let_def look_flow_def setTTL_def split: if_splits option.splits)+

lemma raw_do_orphan:
  assumes "raw_ok c" "orphan_at a c" "\<not> accepts a [x]" and r: "raw_do is4 x c = Some (c', es)"
  shows "orphan_at a c' \<and> delivered_from a es = []"
proof (cases x)
  case (Captured h port ip seg now)
  obtain go where "captureFlow h port ip seg now c = (c', es, go)"
    using r by (auto simp: Captured split: prod.splits)
  then show ?thesis
    by (rule captureFlow_cases) (use assms(2) orphan_get [of _ c now] in \<open>auto simp: track_simps\<close>)
next
  case (Written p b res now fired pick ser w)
  obtain q where "WriteTo p b res now fired pick ser w c = Some (c', q, es)"
    using r by (auto simp: Written)
  then show ?thesis
    by (rule WriteTo_cases) (use assms(2) orphan_get [of _ c now] in auto)
next
  case (Cleaned now)
  then have "orphan_at a c'" "\<forall>e \<in> set es. \<forall>p b. e \<noteq> Deliver p b"
    using r assms(2) look_clean [OF assms(1), of is4 now a] clean_effects [of _ is4 now c]
    by (auto simp: orphan_at_def split: option.splits if_splits)
  then show ?thesis using delivered_none by blast
next
  case (AcceptedTCP t b ttl mark now)
  then have "b \<noteq> a" using assms(3) by (auto simp: accepts_def)
  then show ?thesis
    using r assms(2) by (auto simp: AcceptedTCP accept_def lockflow_eq Let_def setTTL_def setMark_def split: if_splits)
next
  case Closed
  then show ?thesis
    using raw_Close_cases [of is4 c c' es] r assms(2) delivered_none [of es a] unfolding orphan_at_def
    by (metis option.simps(4) raw_do.simps(5))
next
  case (DeadlinesSet rd w)
  then show ?thesis
    using r assms(2) by (auto simp: SetWriteDeadline_def SetReadDeadline_def orphan_at_def look_flow_def)
qed

lemma raw_run_orphan:
  assumes "raw_ok c" "orphan_at a c" "\<not> accepts a xs" "raw_run is4 xs c = Some (c', es)"
  shows "orphan_at a c' \<and> delivered_from a es = []"
  using assms
proof (induction xs arbitrary: c es)
  case (Cons x xs)
  have na: "\<not> accepts a [x]" "\<not> accepts a xs" using Cons.prems(3) by (auto simp: accepts_def)
  obtain c1 e1 where 1: "raw_do is4 x c = Some (c1, e1)" "raw_ok c1"
    using raw_do_ok [OF Cons.prems(1)] by blast
  obtain e2 where 2: "raw_run is4 xs c1 = Some (c', e2)" "es = e1 @ e2"
    using Cons.prems(4) 1(1) by (auto simp: bind_eq_Some_conv)
  show ?case
    using raw_do_orphan [OF Cons.prems(1,2) na(1) 1(1)] Cons.IH [OF 1(2) _ na(2) 2(1)] 2(2) by simp
qed simp

text \<open>C22. Nothing that comes from an address without a TCP connection behind it is ever handed to
  \<open>ReadFrom\<close>: however many well-formed segments a peer that never completed a handshake injects,
  and whatever else happens to the connection, no payload of it is delivered until \<open>AcceptTCP\<close>
  returns a connection from that address.
\<close>

theorem orphan_never_delivered:
  assumes "raw_Listen env = (Inr c, es0)" "raw_run is4 xs c = Some (c', es)" "\<not> accepts a xs"
  shows "delivered_from a es = []"
proof -
  have "rc_flows c = []"
    using assms(1) by (auto simp: raw_Listen_def new_conn_def split: if_splits sum.splits option.splits)
  then have "orphan_at a c" by (simp add: orphan_at_def)
  from raw_run_orphan [OF Listen_ok [OF assms(1)] this assms(3,2)] show ?thesis by simp
qed

theorem orphan_never_delivered_witness:
  "\<exists>c' es. raw_run (\<lambda>_. True) [Captured 3 29900 ''9.9.9.9'' (Some (control_segment 1 29900 0 0 False True)) 4, Cleaned 9]
       sample_listening = Some (c', es) \<and> delivered_from ''9.9.9.9:1'' es = []"
proof -
  obtain c' es where r: "raw_run (\<lambda>_. True) [Captured 3 29900 ''9.9.9.9'' (Some (control_segment 1 29900 0 0 False True)) 4, Cleaned 9]
       sample_listening = Some (c', es)"
    using raw_run_ok [OF Listen_ok [OF sample_connect(2)]] by blast
  from orphan_never_delivered [OF sample_connect(2) this, of "''9.9.9.9:1''"] r show ?thesis
    by (auto simp: accepts_def)
qed

subsection \<open>Eviction and close\<close>

text \<open>Letting a kernel connection go: its TTL is put back, then it is closed.\<close>

definition released :: "(nat \<Rightarrow> bool) \<Rightarrow> nat \<Rightarrow> raw_effect list \<Rightarrow> bool" where
  "released is4 t es \<longleftrightarrow> sublist [setTTL is4 t fingerprint_ttl, CloseTCP t] es"

lemma released_appendI: "released is4 t es \<Longrightarrow> released is4 t (us @ es @ vs)"
  unfolding released_def sublist_def by (metis append_assoc)

lemma released_concat: "es \<in> set ess \<Longrightarrow> released is4 t es \<Longrightarrow> released is4 t (concat ess)"
  by (metis concat.simps(2) concat_append released_appendI split_list)

lemma released_close_flow: "fl_conn e = Some t \<Longrightarrow> released is4 t (close_flow is4 e)"
  by (simp add: released_def close_flow_def)

lemma closes_flow: "CloseTCP t \<in> set (close_flow is4 e) \<longleftrightarrow> fl_conn e = Some t"
  by (auto simp: close_flow_def setTTL_def split: option.split)

lemma clean_closes:
  "CloseTCP t \<in> set (snd (clean is4 now c))
     \<longleftrightarrow> (\<exists>b e. (b, e) \<in> set (rc_flows c) \<and> flow_expired now e \<and> fl_conn e = Some t)"
proof -
  have "CloseTCP t \<in> set (snd (clean is4 now c))
     \<longleftrightarrow> (\<exists>x \<in> set (rc_flows c). CloseTCP t \<in> set (if flow_expired now (snd x) then close_flow is4 (snd x) else []))"
    by (auto simp: clean_def split_def)
  also have "\<dots> \<longleftrightarrow> (\<exists>x \<in> set (rc_flows c). flow_expired now (snd x) \<and> fl_conn (snd x) = Some t)"
    by (intro bex_cong refl) (simp add: closes_flow)
  finally show ?thesis by fastforce
qed

text \<open>One tick of the cleaner removes exactly the flows silent for longer than a minute, five
  seconds if no connection stands behind them, leaves every other flow as it is, and closes exactly
  the connections of the flows removed, each with its TTL put back first.
\<close>

theorem clean_evicts_expired:
  assumes "raw_ok c"
  shows "look_flow (fst (clean is4 now c)) a =
      (case look_flow c a of None \<Rightarrow> None
       | Some e \<Rightarrow> if now - fl_ts e > (if fl_conn e = None then 5 * second else 60 * second) then None else Some e)
    \<and> (CloseTCP t \<in> set (snd (clean is4 now c))
        \<longleftrightarrow> (\<exists>b e. look_flow c b = Some e \<and> fl_conn e = Some t \<and> now - fl_ts e > 60 * second))
    \<and> (CloseTCP t \<in> set (snd (clean is4 now c)) \<longrightarrow> released is4 t (snd (clean is4 now c)))"
proof (intro conjI impI)
  show "look_flow (fst (clean is4 now c)) a =
      (case look_flow c a of None \<Rightarrow> None
       | Some e \<Rightarrow> if now - fl_ts e > (if fl_conn e = None then 5 * second else 60 * second) then None else Some e)"
    unfolding look_clean [OF assms] by (simp add: flow_expired_def flow_ttl_def orphanExpire_def flowExpire_def split: option.split)
  have look: "look_flow c b = Some e \<longleftrightarrow> (b, e) \<in> set (rc_flows c)" for b e
    using assms by (simp add: look_flow_def raw_ok_def)
  show iff: "CloseTCP t \<in> set (snd (clean is4 now c))
        \<longleftrightarrow> (\<exists>b e. look_flow c b = Some e \<and> fl_conn e = Some t \<and> now - fl_ts e > 60 * second)"
    unfolding look clean_closes by (auto simp: flow_expired_def flow_ttl_def flowExpire_def)
  assume "CloseTCP t \<in> set (snd (clean is4 now c))"
  then obtain b e where e: "(b, e) \<in> set (rc_flows c)" "fl_conn e = Some t" "now - fl_ts e > 60 * second"
    using iff look by blast
  then have "close_flow is4 e \<in> set (map (\<lambda>(k, v). if flow_expired now v then close_flow is4 v else []) (rc_flows c))"
    by (force simp: flow_expired_def flow_ttl_def flowExpire_def)
  from released_concat [OF this released_close_flow [OF e(2)]]
  show "released is4 t (snd (clean is4 now c))" by (simp add: clean_def)
qed

theorem clean_evicts_expired_witness:
  "look_flow (fst (clean (\<lambda>_. True) (61 * second) sample_dialed)) (tcp_addr ''10.0.0.2'' 29900) = None
    \<and> released (\<lambda>_. True) 2 (snd (clean (\<lambda>_. True) (61 * second) sample_dialed))"
  using clean_evicts_expired [of sample_dialed "\<lambda>_. True" "61 * second" "tcp_addr ''10.0.0.2'' 29900" 2]
    Dial_ok [OF sample_connect(1)]
  by (simp add: sample_dialed_def raw_flows.look_if new_flow_def second_def look_flow_def store_flow_def update_conv'
      clean_def new_conn_def flow_expired_def flow_ttl_def flowExpire_def close_flow_def)

text \<open>A segment from \<open>a\<close> for this connection is captured.\<close>

definition heard :: "addr \<Rightarrow> raw_event \<Rightarrow> bool" where
  "heard a x \<longleftrightarrow> (case x of Captured h port ip (Some seg) now \<Rightarrow>
     unat (tcp_DstPort seg) = port \<and> tcp_addr ip (unat (tcp_SrcPort seg)) = a | _ \<Rightarrow> False)"

definition heard_in :: "addr \<Rightarrow> raw_event list \<Rightarrow> bool" where
  "heard_in a xs \<longleftrightarrow> list_ex (heard a) xs"

text \<open>Nothing has been captured from \<open>a\<close> on its flow, if it has one.\<close>

definition unheard_at :: "addr \<Rightarrow> raw_conn \<Rightarrow> bool" where
  "unheard_at a c \<longleftrightarrow> (case look_flow c a of None \<Rightarrow> True | Some e \<Rightarrow> fl_handle e = None)"

lemma unheard_get: "unheard_at a c \<longleftrightarrow> fl_handle (get_flow a now c) = None"
  by (simp add: unheard_at_def get_flow_look new_flow_def split: option.split)

lemma unheard_store [simp]:
  "unheard_at a (store_flow b e c) \<longleftrightarrow> (if a = b then fl_handle e = None else unheard_at a c)"
  by (simp add: unheard_at_def raw_flows.look_if)

lemma raw_do_unheard:
  assumes "raw_ok c" "unheard_at a c" "\<not> accepts a [x]" "\<not> heard a x" and r: "raw_do is4 x c = Some (c', es)"
  shows "unheard_at a c'"
proof (cases x)
  case (Captured h port ip seg now)
  obtain go where "captureFlow h port ip seg now c = (c', es, go)"
    using r by (auto simp: Captured split: prod.splits)
  then show ?thesis using assms(2,4)
    by (auto simp: Captured heard_def captureFlow_def lockflow_eq Let_def split: option.splits if_splits prod.splits)
next
  case (Written p b res now fired pick ser w)
  obtain q where "WriteTo p b res now fired pick ser w c = Some (c', q, es)"
    using r by (auto simp: Written)
  then show ?thesis
    by (rule WriteTo_cases) (use assms(2) unheard_get [of _ c now] in auto)
next
  case (Cleaned now)
  then show ?thesis
    using r assms(2) look_clean [OF assms(1), of is4 now a]
    by (auto simp: unheard_at_def split: option.splits if_splits)
next
  case (AcceptedTCP t b ttl mark now)
  then have "b \<noteq> a" using assms(3) by (auto simp: accepts_def)
  then show ?thesis using r assms(2) by (auto simp: AcceptedTCP accept_def lockflow_eq Let_def split: prod.splits if_splits)
next
  case Closed
  then show ?thesis using r assms(2)
    by (auto simp: raw_Close_def unheard_at_def look_flow_def Let_def split: option.splits if_splits)
next
  case (DeadlinesSet rd wd)
  then show ?thesis using r assms(2) by (auto simp: unheard_at_def look_flow_def SetReadDeadline_def SetWriteDeadline_def)
qed

lemma raw_run_unheard:
  assumes "raw_ok c" "unheard_at a c" "\<not> accepts a xs" "\<not> heard_in a xs" "raw_run is4 xs c = Some (c', es)"
  shows "raw_ok c' \<and> unheard_at a c'"
  using assms
proof (induction xs arbitrary: c es)
  case (Cons x xs)
  have na: "\<not> accepts a [x]" "\<not> accepts a xs" "\<not> heard a x" "\<not> heard_in a xs"
    using Cons.prems(3,4) by (auto simp: accepts_def heard_in_def)
  obtain c1 e1 where 1: "raw_do is4 x c = Some (c1, e1)" "raw_ok c1"
    using raw_do_ok [OF Cons.prems(1)] by blast
  obtain e2 where "raw_run is4 xs c1 = Some (c', e2)"
    using Cons.prems(5) 1(1) by (auto simp: bind_eq_Some_conv)
  then show ?case using raw_do_unheard [OF Cons.prems(1,2) na(1,3) 1(1)] Cons.IH [OF 1(2) _ na(2,4)] by blast
qed simp

text \<open>A write sends a segment exactly if something was captured from the peer.\<close>

lemma write_unheard:
  assumes "raw_ok c" "\<not> rc_die c"
  shows "unheard_at a c \<Longrightarrow> map_option snd (WriteTo p a (Some r) now False pick True True c) = Some ((length p, None), [])"
    "\<not> unheard_at a c \<Longrightarrow> \<exists>h dst seg. map_option snd (WriteTo p a (Some r) now False pick True True c)
       = Some ((length p, None), [SendRaw h dst seg])"
proof -
  obtain lport where "local_port c = Some lport" using assms(1) unfolding raw_ok_def by blast
  then show "unheard_at a c \<Longrightarrow> map_option snd (WriteTo p a (Some r) now False pick True True c) = Some ((length p, None), [])"
    "\<not> unheard_at a c \<Longrightarrow> \<exists>h dst seg. map_option snd (WriteTo p a (Some r) now False pick True True c)
       = Some ((length p, None), [SendRaw h dst seg])"
    using assms(2) unfolding unheard_get [of a c now]
    by (cases r; auto simp: WriteTo_def lockflow_eq write_flow_def)+
qed

lemma captured_heard:
  assumes "captureFlow h port ip (Some seg) now c = (c', es, go)" "heard a (Captured h port ip (Some seg) now)"
  shows "\<not> unheard_at a c'"
  using assms by (auto simp: captureFlow_def heard_def lockflow_eq track_simps Let_def split: if_splits)

text \<open>C33. A connection that heard nothing from its peer for a minute loses it: the cleaner closes the TCP connection
  and drops its flow, although the connection is neither closed nor in error, and then, whatever happens
  except that \<open>AcceptTCP\<close> returns a connection from the peer (a dialled connection accepts none), nothing
  the peer sends is ever delivered. Writes to it
  report the whole message as written: they send nothing as long as no segment from the peer arrives, and
  once one has arrived, a segment, for a TCP connection that is closed.
\<close>

theorem idle_peer_is_lost:
  assumes "raw_ok c" "\<not> rc_die c" "look_flow c a = Some e" "fl_conn e = Some t" "now - fl_ts e > 60 * second"
    and "\<not> accepts a xs" "raw_run is4 xs (fst (clean is4 now c)) = Some (c', es)"
  shows "CloseTCP t \<in> set (snd (clean is4 now c)) \<and> \<not> rc_die (fst (clean is4 now c))
    \<and> delivered_from a es = []
    \<and> (\<not> rc_die c' \<and> \<not> heard_in a xs
        \<longrightarrow> map_option snd (WriteTo p a (Some r) now' False False True True c') = Some ((length p, None), []))
    \<and> (\<not> rc_die c' \<and> heard a (Captured h port ip (Some seg) at)
        \<longrightarrow> (\<exists>h' dst seg'. map_option snd (WriteTo p a (Some r) now' False False True True
               (fst (captureFlow h port ip (Some seg) at c'))) = Some ((length p, None), [SendRaw h' dst seg'])))"
proof (intro conjI impI)
  let ?c = "fst (clean is4 now c)"
  have gone: "look_flow ?c a = None"
    using assms(3-5) by (simp add: look_clean [OF assms(1)] flow_expired_def flow_ttl_def flowExpire_def)
  then have o: "orphan_at a ?c" "unheard_at a ?c" by (simp_all add: orphan_at_def unheard_at_def)
  have ok: "raw_ok ?c" using raw_do_ok [OF assms(1), of is4 "Cleaned now"] by auto
  then have ok': "raw_ok c'" using raw_run_ok [OF ok, of is4 xs] assms(7) by auto
  show "delivered_from a es = []" using raw_run_orphan [OF ok o(1) assms(6,7)] by simp
  show "\<not> rc_die ?c" using assms(2) by (simp add: clean_def)
  show "CloseTCP t \<in> set (snd (clean is4 now c))"
    unfolding clean_closes using assms(3-5)
    by (auto simp: look_flow_def flow_expired_def flow_ttl_def flowExpire_def dest!: map_of_SomeD)
  assume alive: "\<not> rc_die c' \<and> \<not> heard_in a xs"
  then have "raw_ok c'" "unheard_at a c'" using raw_run_unheard [OF ok o(2) assms(6) _ assms(7)] by simp_all
  then show "map_option snd (WriteTo p a (Some r) now' False False True True c') = Some ((length p, None), [])"
    using write_unheard(1) alive by blast
next
  assume go: "\<not> rc_die c' \<and> heard a (Captured h port ip (Some seg) at)"
  have "raw_ok (fst (clean is4 now c))" using raw_do_ok [OF assms(1), of is4 "Cleaned now"] by auto
  then have "raw_ok c'" using raw_run_ok [of _ is4 xs] assms(7) by force
  then have "raw_ok (fst (captureFlow h port ip (Some seg) at c'))"
    using raw_do_ok [of c' is4 "Captured h port ip (Some seg) at"] by (auto split: prod.splits)
  moreover have "\<not> rc_die (fst (captureFlow h port ip (Some seg) at c'))"
    using go by (auto simp: captureFlow_def lockflow_eq Let_def)
  moreover have "\<not> unheard_at a (fst (captureFlow h port ip (Some seg) at c'))"
    using captured_heard [of h port ip seg at c'] go by (metis prod_cases3 fst_conv)
  ultimately show "\<exists>h' dst seg'. map_option snd (WriteTo p a (Some r) now' False False True True
               (fst (captureFlow h port ip (Some seg) at c'))) = Some ((length p, None), [SendRaw h' dst seg'])"
    using write_unheard(2) by blast
qed

text \<open>The connection of \<^const>\<open>sample_dialed\<close> loses its peer, which then sends once more.\<close>

theorem idle_peer_is_lost_witness:
  "\<exists>c es. raw_run (\<lambda>_. True) [Written [9] ''10.0.0.9:7'' (Some (''10.0.0.9'', 7)) 0 False False True True, Cleaned (70 * second)]
        (fst (clean (\<lambda>_. True) (61 * second) sample_dialed)) = Some (c, es)
     \<and> map_option snd (WriteTo [1, 2, 3] (tcp_addr ''10.0.0.2'' 29900) (Some (''10.0.0.2'', 29900)) (72 * second)
         False False True True c) = Some ((3, None), [])
     \<and> (\<exists>h' dst seg'. map_option snd (WriteTo [1, 2, 3] (tcp_addr ''10.0.0.2'' 29900) (Some (''10.0.0.2'', 29900)) (72 * second)
         False False True True (fst (captureFlow 1 40000 ''10.0.0.2'' (Some (control_segment 29900 40000 0 0 False True)) (71 * second) c)))
         = Some ((3, None), [SendRaw h' dst seg']))"
proof -
  let ?xs = "[Written [9] ''10.0.0.9:7'' (Some (''10.0.0.9'', 7)) 0 False False True True, Cleaned (70 * second)]"
  let ?a = "tcp_addr ''10.0.0.2'' 29900"
  have ok: "raw_ok sample_dialed" by (rule Dial_ok [OF sample_connect(1)])
  have flow: "look_flow sample_dialed ?a = Some ((new_flow 0)\<lparr>fl_conn := Some 2\<rparr>)" "\<not> rc_die sample_dialed"
    by (simp_all add: sample_dialed_def look_flow_def store_flow_def update_conv' new_conn_def)
  obtain c es where r: "raw_run (\<lambda>_. True) ?xs (fst (clean (\<lambda>_. True) (61 * second) sample_dialed)) = Some (c, es)"
    using raw_run_ok [of "fst (clean (\<lambda>_. True) (61 * second) sample_dialed)"]
      raw_do_ok [OF ok, of "\<lambda>_. True" "Cleaned (61 * second)"] by fastforce
  then have alive: "\<not> rc_die c" using flow(2)
    by (auto simp: clean_def WriteTo_def lockflow_eq bind_eq_Some_conv Let_def split: if_splits)
  have h: "\<not> accepts ?a ?xs" "\<not> heard_in ?a ?xs"
    "heard ?a (Captured 1 40000 ''10.0.0.2'' (Some (control_segment 29900 40000 0 0 False True)) (71 * second))"
    by (simp_all add: accepts_def heard_in_def heard_def control_segment_def)
  have old: "61 * second - fl_ts ((new_flow 0)\<lparr>fl_conn := Some 2\<rparr>) > 60 * second" by (simp add: new_flow_def second_def)
  have conn: "fl_conn ((new_flow 0)\<lparr>fl_conn := Some 2\<rparr>) = Some 2" by simp
  from idle_peer_is_lost [OF ok flow(2,1) conn old h(1) r, of "[1, 2, 3]" "(''10.0.0.2'', 29900)" "72 * second" 1 40000 "''10.0.0.2''"
      "control_segment 29900 40000 0 0 False True" "71 * second"] alive h(2,3) r
  show ?thesis by (simp add: numeral_3_eq_3)
qed

text \<open>\<open>Close\<close> of a live connection closes every raw handle and takes the connection off the list;
  the dialling side releases its TCP connection, the listening side its listener and the
  connection of every flow, with the TTL put back before each close. Closing again does nothing,
  and writing reports the end of the connection.
\<close>

theorem close_releases_all:
  assumes "raw_ok c" "\<not> rc_die c"
  shows "\<exists>c' es. raw_Close is4 c = Some (c', es) \<and> rc_die c' \<and> raw_Close is4 c' = Some (c', [])
    \<and> set (rc_handles c) \<subseteq> {h. CloseHandle h \<in> set es} \<and> Unregister \<in> set es
    \<and> (case rc_tcpconn c of Some (t, _) \<Rightarrow> released is4 t es
       | None \<Rightarrow> rc_flows c' = [] \<and> {t. \<exists>a e. look_flow c a = Some e \<and> fl_conn e = Some t} \<subseteq> {t. released is4 t es})
    \<and> WriteTo p a r now False pick ser w c' = Some (c', (0, Some ErrEOF), [])"
proof -
  obtain c' es where r: "raw_Close is4 c = Some (c', es)"
    using raw_do_ok [OF assms(1), of is4 Closed] by auto
  have elem: "rc_elem c" and port: "local_port c \<noteq> None" using assms(1) by (simp_all add: raw_ok_def)
  have c': "rc_die c'" "set (rc_handles c) \<subseteq> {h. CloseHandle h \<in> set es}" "Unregister \<in> set es"
    using r assms(2) elem by (auto simp: raw_Close_def Let_def split: option.splits if_splits)
  have rel: "case rc_tcpconn c of Some (t, _) \<Rightarrow> released is4 t es
     | None \<Rightarrow> rc_flows c' = [] \<and> {t. \<exists>a e. look_flow c a = Some e \<and> fl_conn e = Some t} \<subseteq> {t. released is4 t es}"
  proof (cases "rc_tcpconn c")
    case None
    then obtain l lp where l: "rc_listener c = Some (l, lp)"
      using port by (auto simp: local_port_def split: option.splits)
    have es: "es = CloseListener l # concat (map (\<lambda>(k, v). close_flow is4 v) (rc_flows c)) @ map CloseHandle (rc_handles c) @ [Unregister]"
      "rc_flows c' = []"
      using r assms(2) elem by (auto simp: raw_Close_def Let_def None l)
    have "released is4 t es" if "look_flow c a = Some e" "fl_conn e = Some t" for a e t
    proof -
      have "(a, e) \<in> set (rc_flows c)" using that(1) by (auto simp: look_flow_def dest: map_of_SomeD)
      then have "close_flow is4 e \<in> set (map (\<lambda>(k, v). close_flow is4 v) (rc_flows c))" by force
      from released_appendI [OF released_concat [OF this released_close_flow [OF that(2)]], of "[CloseListener l]"]
      show ?thesis by (simp add: es)
    qed
    then show ?thesis using es(2) by (auto simp: None)
  next
    case (Some tp)
    obtain t lp where tp: "tp = (t, lp)" by (cases tp)
    have "es = [] @ [setTTL is4 t fingerprint_ttl, CloseTCP t] @ map CloseHandle (rc_handles c) @ [Unregister]"
      using r assms(2) elem by (auto simp: raw_Close_def Let_def Some tp)
    then show ?thesis
      using released_appendI [of is4 t "[setTTL is4 t fingerprint_ttl, CloseTCP t]" "[]"] by (simp add: Some tp released_def)
  qed
  have "raw_Close is4 c' = Some (c', [])" "WriteTo p a r now False pick ser w c' = Some (c', (0, Some ErrEOF), [])"
    using c'(1) by (simp_all add: raw_Close_def WriteTo_def)
  then show ?thesis using r c' rel by blast
qed

theorem close_releases_all_witness:
  "\<exists>c' es. raw_Close (\<lambda>_. True) sample_dialed = Some (c', es) \<and> released (\<lambda>_. True) 2 es \<and> CloseHandle 1 \<in> set es"
proof -
  have "\<not> rc_die sample_dialed" "rc_tcpconn sample_dialed = Some (2, 40000)" "rc_handles sample_dialed = [1]"
    by (simp_all add: sample_dialed_def store_flow_def new_conn_def)
  with close_releases_all [OF Dial_ok [OF sample_connect(1)], of "\<lambda>_. True" "[]" "[]" None 0 False True True]
  show ?thesis by fastforce
qed

lemma raw_Close_live:
  assumes "raw_ok c"
  shows "\<exists>c' es. raw_Close is4 c = Some (c', es) \<and> rc_die c' \<and> raw_ok c'
     \<and> (\<not> rc_die c \<longrightarrow> set (rc_handles c) \<subseteq> {h. CloseHandle h \<in> set es})"
  using assms by (auto simp: raw_Close_def raw_ok_def Let_def split: option.split)

text \<open>\<open>Cleanup\<close>, run when the process is told to stop, closes every live connection: each is dead
  afterwards, and every raw handle of those that were open has been closed; no connection of the
  list makes it panic.
\<close>

theorem cleanup_closes_all:
  assumes "list_all raw_ok cs"
  shows "\<exists>cs' es. Cleanup is4 cs = Some (cs', es) \<and> length cs' = length cs \<and> list_all rc_die cs'
     \<and> concat (map rc_handles (filter (\<lambda>c. \<not> rc_die c) cs)) \<in> lists {h. CloseHandle h \<in> set es}"
  using assms
proof (induction cs)
  case (Cons c cs)
  obtain cs' es where cs: "Cleanup is4 cs = Some (cs', es)" "length cs' = length cs" "list_all rc_die cs'"
      "concat (map rc_handles (filter (\<lambda>c. \<not> rc_die c) cs)) \<in> lists {h. CloseHandle h \<in> set es}"
    using Cons by auto
  obtain c' e where c: "raw_Close is4 c = Some (c', e)" "rc_die c'"
      "\<not> rc_die c \<longrightarrow> set (rc_handles c) \<subseteq> {h. CloseHandle h \<in> set e}"
    using raw_Close_live [of c is4] Cons.prems by auto
  have "Cleanup is4 (c # cs) = Some (c' # cs', e @ es)" by (simp add: c(1) cs(1))
  then show ?case
    using c(2,3) cs(2-4) by (intro exI [of _ "c' # cs'"] exI [of _ "e @ es"]) (auto simp: lists_eq_set)
qed simp

theorem cleanup_closes_all_witness:
  "\<exists>cs' es. Cleanup (\<lambda>_. True) [sample_dialed, sample_listening] = Some (cs', es) \<and> list_all rc_die cs'"
proof -
  have "list_all raw_ok [sample_dialed, sample_listening]"
    using Dial_ok [OF sample_connect(1)] Listen_ok [OF sample_connect(2)] by simp
  from cleanup_closes_all [OF this] show ?thesis by blast
qed

end
