(* ===== verification/UdpCommandsFacts.thy ===== *)
theory UdpCommandsFacts
  imports UdpCommands StreamConfigFacts TunServerFacts RawTcpLife
begin

section \<open>The commands of the UDP tunnel, put together\<close>

text \<open>
  Where the settings of the two commands come from, and that a client and a server started with the
  same cipher and key understand each other from the first datagram.
\<close>

interpretation udpclient_table: config_table udpclient_config_view udpclient_config_tags
proof (rule config_tableI)
  show "map fst (udpclient_config_view c) = map fst udpclient_config_tags" for c
    by (simp add: udpclient_config_view_def udpclient_config_tags_def)
  show "list_all (\<lambda>(k, s). sets udpclient_config_view k s \<and> admits udpclient_config_view k s) udpclient_config_tags"
    by (simp add: udpclient_config_tags_def sets_eqs admits_eqs udpclient_config_view_def put_def)
qed

interpretation udpserver_table: config_table udpserver_config_view udpserver_config_tags
proof (rule config_tableI)
  show "map fst (udpserver_config_view c) = map fst udpserver_config_tags" for c
    by (simp add: udpserver_config_view_def udpserver_config_tags_def)
  show "list_all (\<lambda>(k, s). sets udpserver_config_view k s \<and> admits udpserver_config_view k s) udpserver_config_tags"
    by (simp add: udpserver_config_tags_def sets_eqs admits_eqs udpserver_config_view_def put_def)
qed

text \<open>The table before the file: the flags, with the key of the environment for the default key.\<close>

definition with_env :: "(string \<Rightarrow> string) \<Rightarrow> (string \<times> flag_value) list \<Rightarrow> (string \<times> flag_value) list" where
  "with_env getenv v =
     (if getenv ''KCPTUN_KEY'' \<noteq> [] \<and> map_of v ''key'' = Some (VString default_key)
      then put ''key'' (VString (getenv ''KCPTUN_KEY'')) v else v)"

lemma udpclient_env:
  "udpclient_config_view (if getenv ''KCPTUN_KEY'' \<noteq> [] \<and> uc_Key c = default_key then c\<lparr>uc_Key := getenv ''KCPTUN_KEY''\<rparr> else c)
     = with_env getenv (udpclient_config_view c)"
  by (simp add: with_env_def udpclient_config_view_def put_def)

lemma udpserver_env:
  "udpserver_config_view (if getenv ''KCPTUN_KEY'' \<noteq> [] \<and> ud_Key c = default_key then c\<lparr>ud_Key := getenv ''KCPTUN_KEY''\<rparr> else c)
     = with_env getenv (udpserver_config_view c)"
  by (simp add: with_env_def udpserver_config_view_def put_def)

lemma with_env_dom: "map_of (with_env getenv v) n = None \<longleftrightarrow> map_of v n = None"
  by (auto simp: with_env_def map_of_put)

text \<open>Every setting of the two commands of the UDP tunnel is the one of the configuration file if
  that has it, and else the one of the command line or its default, except that a key left at its
  default is replaced by a non-empty \<open>KCPTUN_KEY\<close>.
\<close>

theorem udp_settings_precedence:
  assumes "udpclient_load ctx getenv conf log_opens = Some c" "udpserver_load ctx' getenv' conf' log_opens' = Some d"
    and "map_of (udpclient_config_view c) n \<noteq> None" "map_of (udpserver_config_view d) n' \<noteq> None"
  shows "map_of (udpclient_config_view c) n = (case file_gives (used_file ctx conf) n of Some v \<Rightarrow> Some v
      | None \<Rightarrow> map_of (with_env getenv (udpclient_config_view (udpclient_config_of_flags ctx))) n)
    \<and> map_of (udpserver_config_view d) n' = (case file_gives (used_file ctx' conf') n' of Some v \<Rightarrow> Some v
      | None \<Rightarrow> map_of (with_env getenv' (udpserver_config_view (udpserver_config_of_flags ctx'))) n')"
proof
  let ?c = "udpclient_config_of_flags ctx" and ?d = "udpserver_config_of_flags ctx'"
  let ?c1 = "if getenv ''KCPTUN_KEY'' \<noteq> [] \<and> uc_Key ?c = default_key then ?c\<lparr>uc_Key := getenv ''KCPTUN_KEY''\<rparr> else ?c"
  let ?d1 = "if getenv' ''KCPTUN_KEY'' \<noteq> [] \<and> ud_Key ?d = default_key then ?d\<lparr>ud_Key := getenv' ''KCPTUN_KEY''\<rparr> else ?d"
  have c: "parseJSONConfig udpclient_config_tags (used_file ctx conf) ?c1 = (c, True)"
    using assms(1) by (auto simp: udpclient_load_def used_file_def parseJSONConfig_def [of _ JsonNull] Let_def split: if_splits prod.splits)
  have d: "parseJSONConfig udpserver_config_tags (used_file ctx' conf') ?d1 = (d, True)"
    using assms(2) by (auto simp: udpserver_load_def used_file_def parseJSONConfig_def [of _ JsonNull] Let_def split: if_splits prod.splits)
  show "map_of (udpclient_config_view c) n = (case file_gives (used_file ctx conf) n of Some v \<Rightarrow> Some v
      | None \<Rightarrow> map_of (with_env getenv (udpclient_config_view ?c)) n)"
    using udpclient_table.parse_view [OF c, of n] assms(3) unfolding udpclient_env by (auto split: option.splits if_splits)
  show "map_of (udpserver_config_view d) n' = (case file_gives (used_file ctx' conf') n' of Some v \<Rightarrow> Some v
      | None \<Rightarrow> map_of (with_env getenv' (udpserver_config_view ?d)) n')"
    using udpserver_table.parse_view [OF d, of n'] assms(4) unfolding udpserver_env by (auto split: option.splits if_splits)
qed

definition udp_given :: "string \<Rightarrow> flag_value option" where
  "udp_given = map_of [(''mtu'', VInt 1200), (''c'', VString ''conf.json'')]"

definition udp_file :: json_file where
  "udp_file = JsonObject [(''DSCP'', JInt 46), (''comment'', JOther)]"

definition udp_env :: "string \<Rightarrow> string" where
  "udp_env n = (if n = ''KCPTUN_KEY'' then ''s3'' else [])"

abbreviation "udpclient_ctx \<equiv> context_of udpclient_config_flags udp_given (\<lambda>_. None)"
abbreviation "udpserver_ctx \<equiv> context_of udpserver_config_flags udp_given (\<lambda>_. None)"

lemma lower_dscp:
  "lower (CHR ''D'') = CHR ''d''" "lower (CHR ''S'') = CHR ''s''" "lower (CHR ''C'') = CHR ''c''" "lower (CHR ''P'') = CHR ''p''"
  by code_simp+

lemma udp_contexts:
  "ctx_String udpclient_ctx ''c'' = ''conf.json''" "ctx_String udpserver_ctx ''c'' = ''conf.json''"
  "ctx_Bool udpclient_ctx ''v'' = False" "ctx_Bool udpserver_ctx ''v'' = False"
  "udpclient_config_of_flags udpclient_ctx =
     \<lparr>uc_LocalAddr = '':12948'', uc_RemoteAddr = ''vps:29900'', uc_Key = default_key, uc_Crypt = ''aes'', uc_MTU = 1200,
      uc_SockBuf = 4194304, uc_DSCP = 0, uc_KeepAlive = 10, uc_Idle = 60, uc_TCP = False, uc_TCPMark = DefaultMark,
      uc_Log = [], uc_Quiet = False\<rparr>"
  "udpserver_config_of_flags udpserver_ctx =
     \<lparr>ud_Listen = '':29900'', ud_Target = ''127.0.0.1:12948'', ud_Key = default_key, ud_Crypt = ''aes'', ud_MTU = 1200,
      ud_SockBuf = 4194304, ud_DSCP = 0, ud_Idle = 60, ud_TCP = False, ud_TCPMark = DefaultMark, ud_Log = [], ud_Quiet = False\<rparr>"
  by (simp_all add: context_of_def find_flag_def udpclient_config_flags_def udpserver_config_flags_def flag_key_def
      flag_or_default_def udp_given_def udpclient_config_of_flags_def udpserver_config_of_flags_def)

lemma udp_loads:
  "udpclient_load udpclient_ctx udp_env udp_file True = Some
     \<lparr>uc_LocalAddr = '':12948'', uc_RemoteAddr = ''vps:29900'', uc_Key = ''s3'', uc_Crypt = ''aes'', uc_MTU = 1200,
      uc_SockBuf = 4194304, uc_DSCP = 46, uc_KeepAlive = 10, uc_Idle = 60, uc_TCP = False, uc_TCPMark = DefaultMark,
      uc_Log = [], uc_Quiet = False\<rparr>"
  "udpserver_load udpserver_ctx udp_env udp_file True = Some
     \<lparr>ud_Listen = '':29900'', ud_Target = ''127.0.0.1:12948'', ud_Key = ''s3'', ud_Crypt = ''aes'', ud_MTU = 1200,
      ud_SockBuf = 4194304, ud_DSCP = 46, ud_Idle = 60, ud_TCP = False, ud_TCPMark = DefaultMark, ud_Log = [], ud_Quiet = False\<rparr>"
  by (simp_all add: udpclient_load_def udpserver_load_def udp_contexts udp_env_def udp_file_def parseJSONConfig_def
      udpclient_config_tags_def udpserver_config_tags_def lower_dscp lower_samples set_int_def)

theorem udp_settings_precedence_witness:
  "\<exists>c d. udpclient_load udpclient_ctx udp_env udp_file True = Some c \<and> udpserver_load udpserver_ctx udp_env udp_file True = Some d
     \<and> map_of (udpclient_config_view c) ''dscp'' = Some (VInt 46) \<and> map_of (udpserver_config_view d) ''mtu'' = Some (VInt 1200)"
  using udp_settings_precedence [OF udp_loads, of "''dscp''" "''mtu''"]
  by (simp add: udp_loads) (simp add: udpclient_config_view_def udpserver_config_view_def)

subsection \<open>Client and server\<close>

lemma RunServer_ok:
  assumes "RunServer L cfg b caps key seed = Inr (s, os)" "crypt_ok b" "ciphers_ok L" "\<And>x. seed = Some x \<Longrightarrow> length x = 16"
    and "0 \<le> sc_MaxPacket cfg"
  shows "server_ok s" "codec_block (sv_codec s) = b" "sv_cfg s = cfg" "server_table s = Map.empty"
proof -
  have "codec_ok k" if "NewCodec L b key seed = Inr k" for k
    using that assms(2-4)
    by (auto simp: NewCodec_def newNonceGen_def codec_ok_def nonce_ok_def ciphers_ok_def map_sum_Inr split: option.splits)
  then show "server_ok s"
    using assms(1,5) by (auto simp: RunServer_def server_ok_def split: sum.splits)
  show "codec_block (sv_codec s) = b" "sv_cfg s = cfg" "server_table s = Map.empty"
    using assms(1) by (auto simp: RunServer_def NewCodec_def map_sum_Inr server_table_def fun_eq_iff split: sum.splits)
qed

text \<open>C3. Two commands started with the same cipher name and key work together: when
  \<open>udptun_client\<close> and a server of \<open>udptun_server\<close>, on either transport, are running, the first
  datagram a local application sends once a transport is dialled, and that fits, goes out as one
  packet from which the server takes exactly that datagram to the target; client and server are
  then in the state their other properties speak of.
\<close>

theorem udp_commands_interoperate:
  assumes L: "libs_ok L" "ciphers_ok L"
    and c: "udpclient_main L ctx getenv conf log_opens key seed = Running c"
    and d: "udpserver_main L ctx' getenv' conf' log_opens' (Some (caps1, key', seed')) env (caps2, key'', seed'') = Running ss" "(s, os) \<in> set ss"
    and seeds: "\<And>x. Some x \<in> {seed, seed', seed''} \<Longrightarrow> length x = 16"
    and loads: "udpclient_load ctx getenv conf log_opens = Some cc" "udpserver_load ctx' getenv' conf' log_opens' = Some cd"
    and same: "uc_Crypt cc = ud_Crypt cd" "uc_Key cc = ud_Key cd" and mtu: "0 \<le> ud_MTU cd"
    and fits: "int (HeaderSize + length data) \<le> uc_MTU cc"
  shows "\<exists>c1 pkt s1 i. client_do L (Local a data t True) (fst (client_dialed caps' conn remote t0 c)) = Some (c1, [ToServer conn pkt remote])
    \<and> client_ok c1 \<and> nat_table c1 a = Some i
    \<and> server_do L (Received peer pkt (Some k) t' True) s = Some (s1, [ToTarget k data])
    \<and> server_ok s1 \<and> server_table s1 (peer, i) = Some k"
proof -
  obtain b where b: "NewBlockCrypt L (uc_Crypt cc) (map of_char (uc_Key cc)) = Inr b"
      "RunClient L (udpclient_ClientConfig cc) b key seed = Some (Inr c)"
    using c loads(1) by (auto simp: udpclient_main_def split: if_splits sum.splits option.splits)
  have b_ok: "crypt_ok b" using NewBlockCrypt_ok [OF L(2) b(1)] .
  have seed: "\<And>x. seed = Some x \<Longrightarrow> length x = 16" using seeds by blast
  note C = RunClient_ok [OF b(2) b_ok L(2) seed]
  obtain cp ky sd where ks: "RunServer L (udpserver_ServerConfig cd) b cp ky sd = Inr (s, os)" "sd \<in> {seed', seed''}"
    using d loads(2) b(1) same
    by (auto simp: udpserver_main_def serve_def split: if_splits sum.splits option.splits)
  have sd: "\<And>x. sd = Some x \<Longrightarrow> length x = 16" using seeds ks(2) by blast
  have "0 \<le> sc_MaxPacket (udpserver_ServerConfig cd)" using mtu by (simp add: udpserver_ServerConfig_def)
  note S = RunServer_ok [OF ks(1) b_ok L(2) sd this]
  define c0 where "c0 = fst (client_dialed caps' conn remote t0 c)"
  have c0: "client_ok c0" "cl_conn c0 = Some (conn, remote)" "length (cl_byID c0) < 2 ^ 32 - 1"
      "codec_block (cl_codec c0) = codec_block (sv_codec s)" "\<not> oversized c0 data"
    using C S fits
    by (simp_all add: c0_def client_dialed_def client_ok_def oversized_def udpclient_ClientConfig_def)
  from client_local_ok [OF L(1) c0(1,3,5), of a t True] c0(2,4) obtain c1 pkt i where c1:
    "client_local L a data t True c0 = Some (c1, [ToServer conn pkt remote])" "client_ok c1" "nat_table c1 a = Some i"
    "Open L (sv_codec s) pkt = Some (Inr (i, data))"
    by auto
  have "flows_ok c1" using c1(2) by (simp add: client_ok_def)
  then have "i \<noteq> KeepAliveFlow" using nat_table_live(1) c1(3) by blast
  from server_recv_flow [OF L(1) S(1) c1(4) this, of peer "Some k" t' True] S(4) obtain s1 where
    "server_recv L peer pkt (Some k) t' True s = Some (s1, [ToTarget k data])" "server_ok s1"
    "server_table s1 = table_use (peer, i) (Some k) True Map.empty"
    by (auto simp: use_effect_def)
  then show ?thesis
    using c1 unfolding c0_def [symmetric]
    by (intro exI [of _ c1] exI [of _ pkt] exI [of _ s1] exI [of _ i]) simp
qed

definition sample_caps :: transport_caps where
  "sample_caps = \<lparr>has_SetReadBuffer = True, has_SetWriteBuffer = True, has_SetDSCP = False, is_net_Conn = True\<rparr>"

theorem udp_commands_interoperate_witness:
  "\<exists>c ss s os c1 pkt s1.
     udpclient_main sample_libs udpclient_ctx udp_env udp_file True (Some [1]) (Some (replicate 16 1)) = Running c
     \<and> udpserver_main sample_libs udpserver_ctx udp_env udp_file True (Some (sample_caps, Some [2], Some (replicate 16 2)))
         sample_listen (sample_caps, None, None) = Running ss \<and> (s, os) \<in> set ss
     \<and> client_do sample_libs (Local ''a:1'' [1, 2] 5 True) (fst (client_dialed sample_caps 7 ''vps:29900'' 4 c)) = Some (c1, [ToServer 7 pkt ''vps:29900''])
     \<and> server_do sample_libs (Received ''c:9'' pkt (Some 42) 6 True) s = Some (s1, [ToTarget 42 [1, 2]])"
proof -
  have blk: "\<exists>b. NewBlockCrypt sample_libs ''aes'' p = Inr b" for p
    by (simp add: NewBlockCrypt_def NewAESBlockCrypt_def new_cfb_def sample_libs_def)
  have gen: "\<exists>g. newNonceGen sample_libs (Some k) (Some s) = Inr g" for k s
    by (simp add: newNonceGen_def sample_libs_def)
  obtain c where c: "udpclient_main sample_libs udpclient_ctx udp_env udp_file True (Some [1]) (Some (replicate 16 1)) = Running c"
    using blk [of "map of_char ''s3''"] gen [of "[1]" "replicate 16 1"]
    by (auto simp: udpclient_main_def udp_contexts udp_loads RunClient_def NewCodec_def udpclient_ClientConfig_def)
  obtain s os where d: "udpserver_main sample_libs udpserver_ctx udp_env udp_file True (Some (sample_caps, Some [2], Some (replicate 16 2)))
         sample_listen (sample_caps, None, None) = Running [(s, os)]"
    using blk [of "map of_char ''s3''"] gen [of "[2]" "replicate 16 2"]
    by (auto simp: udpserver_main_def udp_contexts udp_loads serve_def RunServer_def NewCodec_def)
  have seeds: "Some x \<in> {Some (replicate 16 1), Some (replicate 16 2), None} \<Longrightarrow> length x = 16" for x :: bytes
    by auto
  from udp_commands_interoperate [OF sample_libs_ok c d, of s os, OF _ seeds udp_loads, of "[1, 2]" "''a:1''" 5 sample_caps 7 "''vps:29900''" 4 "''c:9''" 42 6]
  obtain c1 pkt s1 where
    "client_do sample_libs (Local ''a:1'' [1, 2] 5 True) (fst (client_dialed sample_caps 7 ''vps:29900'' 4 c)) = Some (c1, [ToServer 7 pkt ''vps:29900''])"
    "server_do sample_libs (Received ''c:9'' pkt (Some 42) 6 True) s = Some (s1, [ToTarget 42 [1, 2]])"
    by (auto simp: packet_sizes)
  then show ?thesis
    using c d by (intro exI [of _ c] exI [of _ "[(s, os)]"] exI [of _ s] exI [of _ os] exI [of _ c1] exI [of _ pkt] exI [of _ s1]) simp
qed

end
