(* ===== verification/GoHeap.thy ===== *)
theory GoHeap
  imports Prelude
begin

section \<open>Go's container/heap\<close>

text \<open>
  The functions of the standard library that the update scheduler calls, over the operations
  \<open>Len\<close>, \<open>Less\<close>, \<open>Swap\<close>, \<open>Push\<close> and \<open>Pop\<close> its interface asks of a client, and, in a locale
  whose laws say that \<open>Less\<close> compares keys and \<open>Swap\<close> exchanges them, the heap order they keep.
  In \<open>up\<close> Go's \<open>(0-1)/2\<close> is 0, as it is on \<^typ>\<open>nat\<close>.
\<close>

function heap_up :: "(nat \<Rightarrow> nat \<Rightarrow> 'h \<Rightarrow> bool) \<Rightarrow> (nat \<Rightarrow> nat \<Rightarrow> 'h \<Rightarrow> 'h) \<Rightarrow> nat \<Rightarrow> 'h \<Rightarrow> 'h" where
  "heap_up lt sw j h =
     (let i = (j - 1) div 2
      in if i = j \<or> \<not> lt j i h then h else heap_up lt sw i (sw i j h))"
  by auto
termination by (relation "measure (\<lambda>(_, _, j, _). j)") auto

declare heap_up.simps [simp del]

lemma heap_up_stop: "(j - 1) div 2 = j \<or> \<not> lt j ((j - 1) div 2) h \<Longrightarrow> heap_up lt sw j h = h"
  by (subst heap_up.simps) (auto simp: Let_def)

text \<open>The child \<open>down\<close> compares an element with: the right one when it is the smaller.\<close>

definition heap_child :: "(nat \<Rightarrow> nat \<Rightarrow> 'h \<Rightarrow> bool) \<Rightarrow> nat \<Rightarrow> nat \<Rightarrow> 'h \<Rightarrow> nat" where
  "heap_child lt i n h =
     (let j1 = 2 * i + 1; j2 = j1 + 1 in if j2 < n \<and> lt j2 j1 h then j2 else j1)"

lemma heap_child_gt [simp]: "i < heap_child lt i n h"
  by (simp add: heap_child_def Let_def)

lemma heap_child_lt [simp]: "\<not> n \<le> Suc (2 * i) \<Longrightarrow> heap_child lt i n h < n"
  by (simp add: heap_child_def Let_def)

lemma heap_child_closer [simp]: "i < n \<Longrightarrow> n - heap_child lt i n h < n - i"
  by (simp add: diff_less_mono2)

function heap_down :: "(nat \<Rightarrow> nat \<Rightarrow> 'h \<Rightarrow> bool) \<Rightarrow> (nat \<Rightarrow> nat \<Rightarrow> 'h \<Rightarrow> 'h) \<Rightarrow> nat \<Rightarrow> nat \<Rightarrow> 'h \<Rightarrow> nat \<times> 'h" where
  "heap_down lt sw i n h =
     (let j1 = 2 * i + 1
      in if j1 \<ge> n then (i, h)
         else let j = heap_child lt i n h
              in if \<not> lt j i h then (i, h) else heap_down lt sw j n (sw i j h))"
  by auto
termination by (relation "measure (\<lambda>(_, _, i, n, _). n - i)") (auto intro: diff_less_mono2)

declare heap_down.simps [simp del]

text \<open>\<open>if !down(h, i, n) { up(h, i) }\<close>, as \<open>Fix\<close> and \<open>Remove\<close> do; \<open>down\<close> reports whether it moved.\<close>

definition heap_settle :: "(nat \<Rightarrow> nat \<Rightarrow> 'h \<Rightarrow> bool) \<Rightarrow> (nat \<Rightarrow> nat \<Rightarrow> 'h \<Rightarrow> 'h) \<Rightarrow> nat \<Rightarrow> nat \<Rightarrow> 'h \<Rightarrow> 'h" where
  "heap_settle lt sw i n h =
     (let (i', h') = heap_down lt sw i n h in if i' > i then h' else heap_up lt sw i h')"

lemma parent_less [simp]: "0 < k \<Longrightarrow> (k - 1) div 2 < (k :: nat)" "0 < k \<Longrightarrow> (k - Suc 0) div 2 < (k :: nat)"
  by linarith+

locale heap_interface =
  fixes Len :: "'h \<Rightarrow> nat"
    and Less :: "nat \<Rightarrow> nat \<Rightarrow> 'h \<Rightarrow> bool"
    and Swap :: "nat \<Rightarrow> nat \<Rightarrow> 'h \<Rightarrow> 'h"
    and key :: "'h \<Rightarrow> nat \<Rightarrow> int"
  assumes Less_key: "i < Len h \<Longrightarrow> j < Len h \<Longrightarrow> Less i j h \<longleftrightarrow> key h i < key h j"
    and Len_Swap: "Len (Swap i j h) = Len h"
    and key_Swap: "i < Len h \<Longrightarrow> j < Len h \<Longrightarrow> k < Len h \<Longrightarrow>
      key (Swap i j h) k = (if k = i then key h j else if k = j then key h i else key h k)"
begin

text \<open>The first \<open>n\<close> elements are in heap order; and the two ways one element may break it.\<close>

definition heap_on :: "nat \<Rightarrow> 'h \<Rightarrow> bool" where
  "heap_on n h \<longleftrightarrow> (\<forall>k. 0 < k \<and> k < n \<longrightarrow> key h ((k - 1) div 2) \<le> key h k)"

definition bridged :: "nat \<Rightarrow> nat \<Rightarrow> 'h \<Rightarrow> bool" where
  "bridged i n h \<longleftrightarrow>
     (\<forall>k. 0 < i \<and> 0 < k \<and> k < n \<and> (k - 1) div 2 = i \<longrightarrow> key h ((i - 1) div 2) \<le> key h k)"

definition except_up :: "nat \<Rightarrow> nat \<Rightarrow> 'h \<Rightarrow> bool" where
  "except_up i n h \<longleftrightarrow>
     (\<forall>k. 0 < k \<and> k < n \<and> k \<noteq> i \<longrightarrow> key h ((k - 1) div 2) \<le> key h k) \<and> bridged i n h"

definition except_down :: "nat \<Rightarrow> nat \<Rightarrow> 'h \<Rightarrow> bool" where
  "except_down i n h \<longleftrightarrow>
     (\<forall>k. 0 < k \<and> k < n \<and> (k - 1) div 2 \<noteq> i \<longrightarrow> key h ((k - 1) div 2) \<le> key h k) \<and> bridged i n h"

definition except_at :: "nat \<Rightarrow> nat \<Rightarrow> 'h \<Rightarrow> bool" where
  "except_at i n h \<longleftrightarrow>
     (\<forall>k. 0 < k \<and> k < n \<and> k \<noteq> i \<and> (k - 1) div 2 \<noteq> i \<longrightarrow> key h ((k - 1) div 2) \<le> key h k)
     \<and> bridged i n h"

lemma heap_on_except_up: "heap_on n h \<Longrightarrow> except_up i n h"
  unfolding heap_on_def except_up_def bridged_def
  by (metis bot_nat_0.not_eq_extremum diff_less div_le_dividend less_one less_trans not_less order.trans
      order_le_less_trans)

lemma except_at_cases:
  assumes "except_at i n h" "i < n"
  shows "except_down i n h \<or> 0 < i \<and> key h i < key h ((i - 1) div 2)"
  using assms unfolding except_at_def except_down_def by (metis not_less)

text \<open>Sifting up.\<close>

lemma swap_up:
  assumes "except_up j n h" "j < n" "n \<le> Len h" "0 < j" "key h j < key h ((j - 1) div 2)"
  shows "except_up ((j - 1) div 2) n (Swap ((j - 1) div 2) j h)"
proof -
  define p where "p = (j - 1) div 2"
  let ?h = "Swap p j h"
  have p: "p < j" using assms(4) by (simp add: p_def)
  note assms = assms [folded p_def]
  have key: "key ?h k = (if k = p then key h j else if k = j then key h p else key h k)" if "k < n" for k
    using that assms(2,3) p by (subst key_Swap) auto
  have "key ?h ((k - 1) div 2) \<le> key ?h k" if k: "0 < k" "k < n" "k \<noteq> p" for k
  proof -
    have le: "(k - 1) div 2 < n" using k by linarith
    show ?thesis
    proof (cases "k = j")
      case True
      moreover have "(j - 1) div 2 = p" by (simp add: p_def)
      ultimately show ?thesis using assms(5) key [OF k(2)] key [OF le] p by simp
    next
      case False
      have old: "key h ((k - 1) div 2) \<le> key h k" using assms(1) k False by (simp add: except_up_def)
      show ?thesis
      proof (cases "(k - 1) div 2 = j")
        case True
        then have "key h p \<le> key h k" using assms(1,4) k by (simp add: except_up_def bridged_def p_def)
        with True show ?thesis using key [OF k(2)] key [OF le] p False k(3) by simp
      next
        case F: False
        show ?thesis using old assms(5) key [OF k(2)] key [OF le] F False k(3) by auto
      qed
    qed
  qed
  moreover have "bridged p n ?h"
    unfolding bridged_def
  proof (intro allI impI, elim conjE)
    fix k
    assume k: "0 < p" "0 < k" "k < n" "(k - 1) div 2 = p"
    define g where "g = (p - 1) div 2"
    have g: "g < p" using k(1) by (simp add: g_def)
    then have gn: "g < n" "p < n" using p assms(2) by simp_all
    have gp: "key h g \<le> key h p" using assms(1) k(1) gn(2) p by (auto simp: except_up_def g_def)
    have kg: "key ?h g = key h g" using key [OF gn(1)] g p by simp
    have "key ?h g \<le> key ?h k"
    proof (cases "k = j")
      case True
      then show ?thesis using gp kg key [OF k(3)] p by simp
    next
      case False
      have "k \<noteq> p" using parent_less(1) [OF k(2)] k(4) by simp
      moreover have "key h ((k - 1) div 2) \<le> key h k" using assms(1) k(2,3) False by (simp add: except_up_def)
      then have "key h p \<le> key h k" unfolding k(4) .
      ultimately show ?thesis using gp kg key [OF k(3)] False by simp
    qed
    then show "key ?h ((p - 1) div 2) \<le> key ?h k" by (simp only: g_def)
  qed
  ultimately show ?thesis unfolding p_def [symmetric] by (simp add: except_up_def)
qed

lemma up_heap:
  "except_up j n h \<Longrightarrow> j < n \<Longrightarrow> n \<le> Len h \<Longrightarrow> heap_on n (heap_up Less Swap j h)"
proof (induction j arbitrary: h rule: less_induct)
  case (less j)
  let ?p = "(j - 1) div 2"
  have in_range: "j < Len h" "?p < Len h" using less.prems by auto
  show ?case
  proof (cases "?p = j \<or> \<not> Less j ?p h")
    case True
    then have "j = 0 \<or> key h ?p \<le> key h j" using Less_key in_range by fastforce
    then have "heap_on n h" using less.prems(1) by (auto simp: heap_on_def except_up_def)
    with True show ?thesis by (subst heap_up.simps) (simp add: Let_def)
  next
    case False
    then have j: "0 < j" "key h j < key h ?p" using Less_key in_range by (cases j; simp)+
    have "heap_on n (heap_up Less Swap ?p (Swap ?p j h))"
      using j less.prems by (intro less.IH swap_up) (auto simp: Len_Swap)
    with False show ?thesis by (subst heap_up.simps) (simp add: Let_def)
  qed
qed

text \<open>What every exchange among the first \<open>n\<close> elements keeps, sifting keeps.\<close>

lemma up_keeps:
  "j < n \<Longrightarrow> P h \<Longrightarrow> (\<And>h i j. P h \<Longrightarrow> i < n \<Longrightarrow> j < n \<Longrightarrow> i \<noteq> j \<Longrightarrow> P (Swap i j h)) \<Longrightarrow>
     P (heap_up Less Swap j h)"
proof (induction j arbitrary: h rule: less_induct)
  case (less j)
  show ?case
    by (subst heap_up.simps) (use less.prems in \<open>auto simp: Let_def intro!: less.IH less.prems\<close>)
qed

lemma down_keeps:
  "i < n \<Longrightarrow> P h \<Longrightarrow> (\<And>h i j. P h \<Longrightarrow> i < n \<Longrightarrow> j < n \<Longrightarrow> i \<noteq> j \<Longrightarrow> P (Swap i j h)) \<Longrightarrow>
     P (snd (heap_down Less Swap i n h))"
proof (induction "n - i" arbitrary: i h rule: less_induct)
  case less
  let ?j = "heap_child Less i n h"
  have "P (snd (heap_down Less Swap ?j n (Swap i ?j h)))" if "\<not> n \<le> Suc (2 * i)"
    using less.prems that less_imp_neq [OF heap_child_gt [of i Less n h]]
    by (intro less.hyps) simp_all
  with less.prems(2) show ?case
    by (subst heap_down.simps) (simp add: Let_def)
qed

lemma settle_keeps:
  assumes "i < n" "P h" "\<And>h i j. P h \<Longrightarrow> i < n \<Longrightarrow> j < n \<Longrightarrow> i \<noteq> j \<Longrightarrow> P (Swap i j h)"
  shows "P (heap_settle Less Swap i n h)"
proof -
  obtain i' h' where r: "heap_down Less Swap i n h = (i', h')" by fastforce
  with down_keeps [of i n P h, OF assms] have P: "P h'" by simp
  have "P (heap_up Less Swap i h')" by (rule up_keeps [of i n P h', OF assms(1) P assms(3)])
  with P show ?thesis using r by (simp add: heap_settle_def)
qed

lemma down_Len: "heap_down Less Swap i n h = (i', h') \<Longrightarrow> i < n \<Longrightarrow> Len h' = Len h"
  using down_keeps [of i n "\<lambda>g. Len g = Len h" h] by (simp add: Len_Swap)

text \<open>Sifting down.\<close>

lemma swap_down:
  assumes "except_down i n h" "i < n" "n \<le> Len h" "j < n" "0 < j" "(j - 1) div 2 = i"
    "key h j < key h i" "\<And>k. 0 < k \<Longrightarrow> k < n \<Longrightarrow> (k - 1) div 2 = i \<Longrightarrow> key h j \<le> key h k"
  shows "except_down j n (Swap i j h)"
proof -
  let ?h = "Swap i j h"
  have ij: "i < j" using parent_less(1) [OF assms(5)] assms(6) by simp
  have key: "key ?h k = (if k = i then key h j else if k = j then key h i else key h k)" if "k < n" for k
    using that assms(2-4) by (subst key_Swap) auto
  have "key ?h ((k - 1) div 2) \<le> key ?h k" if k: "0 < k" "k < n" "(k - 1) div 2 \<noteq> j" for k
  proof -
    have le: "(k - 1) div 2 < n" using k by linarith
    show ?thesis
    proof (cases "(k - 1) div 2 = i")
      case True
      moreover have "k \<noteq> i" using parent_less(1) [OF k(1)] True by simp
      ultimately show ?thesis
        using key [OF k(2)] key [OF le] assms(7) assms(8) [OF k(1,2)] by simp
    next
      case F: False
      then have old: "key h ((k - 1) div 2) \<le> key h k" using assms(1) k by (simp add: except_down_def)
      show ?thesis
      proof (cases "k = i")
        case True
        then have "key h ((i - 1) div 2) \<le> key h j"
          using assms(1,4-6) k(1) by (auto simp: except_down_def bridged_def)
        then show ?thesis using True F k(3) key [OF k(2)] key [OF le] by simp
      next
        case False
        moreover have "k \<noteq> j" using F assms(6) by auto
        ultimately show ?thesis using old F k(3) key [OF k(2)] key [OF le] by simp
      qed
    qed
  qed
  moreover have "bridged j n ?h"
    unfolding bridged_def
  proof (intro allI impI, elim conjE)
    fix k
    assume k: "0 < j" "0 < k" "k < n" "(k - 1) div 2 = j"
    have kj: "j < k" using parent_less(1) [OF k(2)] k(4) by simp
    have "key h j \<le> key h k" using assms(1) k ij unfolding except_down_def by (metis less_irrefl)
    then show "key ?h ((j - 1) div 2) \<le> key ?h k"
      using key [OF assms(2)] key [OF k(3)] ij kj assms(6) by simp
  qed
  ultimately show ?thesis by (simp add: except_down_def)
qed

text \<open>The child \<open>down\<close> compares with is a smallest one.\<close>

lemma smallest_child:
  assumes "2 * i + 1 < n" "n \<le> Len h"
    "j = heap_child Less i n h"
  shows "j < n" "0 < j" "(j - 1) div 2 = i"
    "0 < k \<Longrightarrow> k < n \<Longrightarrow> (k - 1) div 2 = i \<Longrightarrow> key h j \<le> key h k"
proof -
  show j: "j < n" "0 < j" "(j - 1) div 2 = i" using assms(1,3) by (auto simp: heap_child_def Let_def)
  assume k: "0 < k" "k < n" "(k - 1) div 2 = i"
  then have "k = 2 * i + 1 \<or> k = 2 * i + 2" by linarith
  then show "key h j \<le> key h k"
    using assms k(2) Less_key [of "2 * i + 2" h "2 * i + 1"] by (auto simp: heap_child_def Let_def)
qed

lemma down_heap:
  "except_down i n h \<Longrightarrow> i < n \<Longrightarrow> n \<le> Len h \<Longrightarrow> heap_on n (snd (heap_down Less Swap i n h))"
proof (induction "n - i" arbitrary: i h rule: less_induct)
  case less
  let ?j = "heap_child Less i n h"
  show ?case
  proof (cases "2 * i + 1 < n")
    case False
    then have "heap_on n h" using less.prems(1) by (fastforce simp: heap_on_def except_down_def)
    with False show ?thesis by (subst heap_down.simps) (simp add: Let_def)
  next
    case True
    note c = smallest_child [OF True less.prems(3) refl]
    have cmp: "Less ?j i h \<longleftrightarrow> key h ?j < key h i"
      using c(1) less.prems by (intro Less_key) auto
    show ?thesis
    proof (cases "Less ?j i h")
      case F: False
      have "key h ((k - 1) div 2) \<le> key h k" if "0 < k" "k < n" for k
        using c(4) [OF that] less.prems(1) that F cmp by (cases "(k - 1) div 2 = i") (auto simp: except_down_def)
      then have "heap_on n h" by (simp add: heap_on_def)
      with True F show ?thesis by (subst heap_down.simps) (simp add: Let_def)
    next
      case T: True
      have ji: "i < ?j" by simp
      have "heap_on n (snd (heap_down Less Swap ?j n (Swap i ?j h)))"
        using swap_down [OF less.prems c(1-3) _ c(4)] T cmp ji c(1) less.prems
        by (intro less.hyps) (auto simp: Len_Swap)
      with True T show ?thesis by (subst heap_down.simps) (simp add: Let_def)
    qed
  qed
qed

lemma down_index: "i \<le> fst (heap_down Less Swap i n h)"
proof (induction "n - i" arbitrary: i h rule: less_induct)
  case less
  show ?case
    by (subst heap_down.simps)
      (auto simp: Let_def intro!: order_trans [OF less_imp_le [OF heap_child_gt] less.hyps])
qed

lemma down_stays:
  assumes "i < n" "n \<le> Len h" "\<And>k. 0 < k \<Longrightarrow> k < n \<Longrightarrow> (k - 1) div 2 = i \<Longrightarrow> key h i \<le> key h k"
  shows "heap_down Less Swap i n h = (i, h)"
proof (cases "2 * i + 1 < n")
  case False
  then show ?thesis by (subst heap_down.simps) (simp add: Let_def)
next
  case True
  let ?j = "heap_child Less i n h"
  note c = smallest_child [OF True assms(2) refl]
  have "\<not> Less ?j i h" using assms(3) [OF c(2,1,3)] c(1) assms(1,2) by (subst Less_key) auto
  with True show ?thesis by (subst heap_down.simps) (simp add: Let_def)
qed

text \<open>\<open>Fix\<close> and \<open>Remove\<close>: one element of any key is put in its place.\<close>

lemma settle_heap:
  assumes "except_at i n h" "i < n" "n \<le> Len h"
  shows "heap_on n (heap_settle Less Swap i n h)"
  using except_at_cases [OF assms(1,2)]
proof
  assume d: "except_down i n h"
  obtain i' h' where r: "heap_down Less Swap i n h = (i', h')" by fastforce
  have hp: "heap_on n h'" using down_heap [OF d assms(2,3)] r by simp
  have "Len h' = Len h" using down_Len [OF r assms(2)] .
  then have "heap_on n (heap_up Less Swap i h')"
    using up_heap [OF heap_on_except_up [OF hp] assms(2)] assms(3) by simp
  with hp r show ?thesis by (simp add: heap_settle_def)
next
  assume u: "0 < i \<and> key h i < key h ((i - 1) div 2)"
  have lo: "key h i \<le> key h k" if "0 < k" "k < n" "(k - 1) div 2 = i" for k
    using assms(1) u that by (force simp: except_at_def bridged_def)
  have "heap_down Less Swap i n h = (i, h)" using lo by (intro down_stays assms) auto
  moreover have "except_up i n h" using assms(1) lo by (auto simp: except_at_def except_up_def)
  ultimately show ?thesis using up_heap assms(2,3) by (simp add: heap_settle_def)
qed

end

end
