(* ===== verification/Updater.thy ===== *)
theory Updater
  imports GoHeap
begin

section \<open>The update scheduler (updater.go)\<close>

text \<open>
  One goroutine flushes every session: a heap holds each session with the time of its next
  update, and a session's \<open>updaterIdx\<close> is its place in the heap, \<open>-1\<close> once removed. A session is
  a number; \<open>up_idx\<close> is its \<open>updaterIdx\<close> field; \<open>chWakeUp\<close>, a channel of capacity 1, is whether it
  holds a token. The heap's mutex makes each operation atomic. Times are nanoseconds;
  \<open>clk t\<close> is the \<open>t\<close>-th reading of the clock. Go panics on an index out of range: the library's
  calls stay in range, and \<open>removeSession\<close> is \<^const>\<open>None\<close> where it does not.
\<close>

record heap_entry =
  e_ts :: int
  e_s :: nat

record update_heap =
  entries :: "heap_entry list"
  up_idx :: "nat \<Rightarrow> int"
  chWakeUp :: bool

definition uh_Len :: "update_heap \<Rightarrow> nat" where
  "uh_Len h = length (entries h)"

definition uh_Less :: "nat \<Rightarrow> nat \<Rightarrow> update_heap \<Rightarrow> bool" where
  "uh_Less i j h = (e_ts (entries h ! i) < e_ts (entries h ! j))"

definition uh_Swap :: "nat \<Rightarrow> nat \<Rightarrow> update_heap \<Rightarrow> update_heap" where
  "uh_Swap i j h =
     (let h = h\<lparr>entries := (entries h)[i := entries h ! j, j := entries h ! i]\<rparr>;
          h = h\<lparr>up_idx := (up_idx h)(e_s (entries h ! i) := int i)\<rparr>
      in h\<lparr>up_idx := (up_idx h)(e_s (entries h ! j) := int j)\<rparr>)"

definition uh_Push :: "heap_entry \<Rightarrow> update_heap \<Rightarrow> update_heap" where
  "uh_Push x h =
     (let h = h\<lparr>entries := entries h @ [x]\<rparr>; n = length (entries h)
      in h\<lparr>up_idx := (up_idx h)(e_s (entries h ! (n - 1)) := int (n - 1))\<rparr>)"

definition uh_Pop :: "update_heap \<Rightarrow> heap_entry \<times> update_heap" where
  "uh_Pop h =
     (let n = length (entries h); x = entries h ! (n - 1);
          h = h\<lparr>up_idx := (up_idx h)(e_s (entries h ! (n - 1)) := -1)\<rparr>
      in (x, h\<lparr>entries := take (n - 1) (entries h)\<rparr>))"

text \<open>The library's \<open>Push\<close>, \<open>Remove\<close> and \<open>Fix\<close> on this heap.\<close>

definition heap_Push :: "heap_entry \<Rightarrow> update_heap \<Rightarrow> update_heap" where
  "heap_Push x h = (let h = uh_Push x h in heap_up uh_Less uh_Swap (uh_Len h - 1) h)"

definition heap_Remove :: "nat \<Rightarrow> update_heap \<Rightarrow> heap_entry \<times> update_heap" where
  "heap_Remove i h =
     (let n = uh_Len h - 1;
          h = (if n \<noteq> i then heap_settle uh_Less uh_Swap i n (uh_Swap i n h) else h)
      in uh_Pop h)"

definition heap_Fix :: "nat \<Rightarrow> update_heap \<Rightarrow> update_heap" where
  "heap_Fix i h = heap_settle uh_Less uh_Swap i (uh_Len h) h"

definition wakeup :: "update_heap \<Rightarrow> update_heap" where
  "wakeup h = (if \<not> chWakeUp h then h\<lparr>chWakeUp := True\<rparr> else h)"

text \<open>The wake-up follows the critical section of the push; both are one step here.\<close>

definition addSession :: "int \<Rightarrow> nat \<Rightarrow> update_heap \<Rightarrow> update_heap" where
  "addSession now s h = wakeup (heap_Push \<lparr>e_ts = now, e_s = s\<rparr> h)"

definition removeSession :: "nat \<Rightarrow> update_heap \<Rightarrow> update_heap option" where
  "removeSession s h =
     (if up_idx h s \<noteq> -1
      then if 0 \<le> up_idx h s \<and> nat (up_idx h s) < uh_Len h
           then Some (snd (heap_Remove (nat (up_idx h s)) h)) else None
      else Some h)"

text \<open>
  The rounds of \<open>updateTask\<close>: \<open>upd s w\<close> is \<open>s.update()\<close> in the environment \<open>w\<close>, returning the
  interval to the next update. The result of a round also tells what the timer is reset to.
\<close>

fun update_loop :: "(nat \<Rightarrow> int) \<Rightarrow> (nat \<Rightarrow> 'w \<Rightarrow> int \<times> 'w) \<Rightarrow> nat \<Rightarrow> update_heap \<Rightarrow> nat \<Rightarrow> 'w \<Rightarrow>
    update_heap \<times> nat \<times> 'w" where
  "update_loop clk upd 0 h t w = (h, t, w)"
| "update_loop clk upd (Suc i) h t w =
     (let e = entries h ! 0 in
      if \<not> clk t < e_ts e
      then let (itv, w) = upd (e_s e) w;
               h = h\<lparr>entries := (entries h)[0 := e\<lparr>e_ts := clk (t + 1) + itv\<rparr>]\<rparr>
           in update_loop clk upd i (heap_Fix 0 h) (t + 2) w
      else (h, t + 1, w))"

definition update_round :: "(nat \<Rightarrow> int) \<Rightarrow> (nat \<Rightarrow> 'w \<Rightarrow> int \<times> 'w) \<Rightarrow> update_heap \<Rightarrow> nat \<Rightarrow> 'w \<Rightarrow>
    update_heap \<times> int option \<times> nat \<times> 'w" where
  "update_round clk upd h t w =
     (let hlen = uh_Len h; (h, t, w) = update_loop clk upd hlen h t w
      in if hlen > 0 then (h, Some (e_ts (entries h ! 0) - clk t), t + 1, w) else (h, None, t, w))"

subsection \<open>The heap's interface\<close>

definition heap_ordered :: "update_heap \<Rightarrow> bool" where
  "heap_ordered h \<longleftrightarrow>
     (\<forall>k < uh_Len h. 0 < k \<longrightarrow> e_ts (entries h ! ((k - 1) div 2)) \<le> e_ts (entries h ! k))"

definition idx_ok :: "update_heap \<Rightarrow> bool" where
  "idx_ok h \<longleftrightarrow> distinct (map e_s (entries h))
     \<and> (\<forall>i < uh_Len h. up_idx h (e_s (entries h ! i)) = int i)"

definition uh_ok :: "update_heap \<Rightarrow> bool" where
  "uh_ok h \<longleftrightarrow> heap_ordered h \<and> idx_ok h"

lemma uh_Swap_sel [simp]:
  "entries (uh_Swap i j h) = (entries h)[i := entries h ! j, j := entries h ! i]"
  "chWakeUp (uh_Swap i j h) = chWakeUp h" "uh_Len (uh_Swap i j h) = uh_Len h"
  by (simp_all add: uh_Swap_def uh_Len_def Let_def)

lemma uh_Swap_idx:
  "i < uh_Len h \<Longrightarrow> j < uh_Len h \<Longrightarrow>
     up_idx (uh_Swap i j h) = (up_idx h)(e_s (entries h ! j) := int i, e_s (entries h ! i) := int j)"
  by (cases "i = j") (simp_all add: uh_Swap_def uh_Len_def Let_def nth_list_update)

interpretation uh: heap_interface uh_Len uh_Less uh_Swap "\<lambda>h i. e_ts (entries h ! i)"
  by unfold_locales (auto simp: uh_Less_def uh_Len_def nth_list_update)

lemma heap_ordered_on: "heap_ordered h = uh.heap_on (uh_Len h) h"
  by (auto simp: heap_ordered_def uh.heap_on_def)

text \<open>What a swap keeps: the entries as a set, the indices, and the indices of other sessions.\<close>

definition same_entries :: "update_heap \<Rightarrow> update_heap \<Rightarrow> bool" where
  "same_entries h g \<longleftrightarrow> idx_ok g \<and> uh_Len g = uh_Len h \<and> set (entries g) = set (entries h)
     \<and> chWakeUp g = chWakeUp h \<and> (\<forall>s. s \<notin> e_s ` set (entries h) \<longrightarrow> up_idx g s = up_idx h s)"

lemma same_entries_refl: "idx_ok h \<Longrightarrow> same_entries h h"
  by (simp add: same_entries_def)

lemma idx_ok_Swap:
  assumes "idx_ok h" "i < uh_Len h" "j < uh_Len h"
  shows "idx_ok (uh_Swap i j h)"
proof -
  have dist: "distinct (map e_s (entries h))" and idx: "\<forall>k < uh_Len h. up_idx h (e_s (entries h ! k)) = int k"
    using assms(1) by (simp_all add: idx_ok_def)
  have inj: "e_s (entries h ! a) = e_s (entries h ! b) \<longleftrightarrow> a = b" if "a < uh_Len h" "b < uh_Len h" for a b
    using nth_eq_iff_index_eq [OF dist, of a b] that by (simp add: uh_Len_def)
  have "map e_s (entries (uh_Swap i j h)) =
      (map e_s (entries h))[i := map e_s (entries h) ! j, j := map e_s (entries h) ! i]"
    using assms by (simp add: map_update uh_Len_def)
  then have "distinct (map e_s (entries (uh_Swap i j h)))"
    using dist assms distinct_swap [of i "map e_s (entries h)" j] by (simp only: uh_Len_def length_map)
  moreover have "up_idx (uh_Swap i j h) (e_s (entries (uh_Swap i j h) ! k)) = int k" if "k < uh_Len h" for k
    using that assms idx inj unfolding uh_Swap_idx [OF assms(2,3)]
    by (auto simp: uh_Len_def nth_list_update)
  ultimately show ?thesis by (simp add: idx_ok_def)
qed

lemma same_entries_Swap:
  assumes "same_entries h g" "i < uh_Len h" "j < uh_Len h"
  shows "same_entries h (uh_Swap i j g)"
proof -
  have len: "i < uh_Len g" "j < uh_Len g" using assms by (simp_all add: same_entries_def)
  then have sets: "set (entries (uh_Swap i j g)) = set (entries g)"
    by (simp add: uh_Len_def set_swap)
  have "entries g ! i \<in> set (entries h)" "entries g ! j \<in> set (entries h)"
    using assms(1) len by (auto simp: same_entries_def uh_Len_def)
  then have "up_idx (uh_Swap i j g) s = up_idx g s" if "s \<notin> e_s ` set (entries h)" for s
    using that by (auto simp: uh_Swap_idx [OF len])
  then show ?thesis
    using assms(1) idx_ok_Swap [OF _ len] sets by (simp add: same_entries_def)
qed

end
