(* ===== verification/UpdaterFacts.thy ===== *)
theory UpdaterFacts
  imports Updater
begin

section \<open>The scheduler implements a table of deadlines\<close>

text \<open>
  The heap refines a map from sessions to the times of their next updates, of which the first
  entry is a least one; a round serves every session that is due; and no session that is
  registered is ever without a pending wake-up or a timer set in time.
\<close>

definition deadline :: "update_heap \<Rightarrow> nat \<rightharpoonup> int" where
  "deadline h = map_of (map (\<lambda>e. (e_s e, e_ts e)) (entries h))"

lemma entry_eta [simp]: "\<lparr>e_ts = e_ts x, e_s = e_s x\<rparr> = x"
  by (cases x) simp

lemma entry_eq_iff [simp]: "\<lparr>e_ts = t, e_s = s\<rparr> = x \<longleftrightarrow> e_ts x = t \<and> e_s x = s"
  by (cases x) auto

lemma entry_session: "\<lparr>e_ts = t, e_s = s\<rparr> \<in> A \<Longrightarrow> s \<in> e_s ` A"
  by (metis heap_entry.select_convs(2) imageI)

lemma dom_deadline: "dom (deadline h) = e_s ` set (entries h)"
  by (simp add: deadline_def dom_map_of_conv_image_fst image_image)

lemma deadline_Some:
  assumes "idx_ok h"
  shows "deadline h s = Some t \<longleftrightarrow> \<lparr>e_ts = t, e_s = s\<rparr> \<in> set (entries h)"
proof -
  have "distinct (map fst (map (\<lambda>e. (e_s e, e_ts e)) (entries h)))"
    using assms by (simp add: idx_ok_def comp_def)
  then have "deadline h s = Some t \<longleftrightarrow> (s, t) \<in> set (map (\<lambda>e. (e_s e, e_ts e)) (entries h))"
    unfolding deadline_def by (rule map_of_eq_Some_iff)
  also have "\<dots> \<longleftrightarrow> \<lparr>e_ts = t, e_s = s\<rparr> \<in> set (entries h)"
    by (auto simp: image_iff intro: bexI [where x = "\<lparr>e_ts = t, e_s = s\<rparr>"])
  finally show ?thesis .
qed

lemma deadline_eqI:
  assumes "idx_ok h'" "\<And>s t. \<lparr>e_ts = t, e_s = s\<rparr> \<in> set (entries h') \<longleftrightarrow> m s = Some t"
  shows "deadline h' = m"
proof
  fix s
  have "deadline h' s = Some t \<longleftrightarrow> m s = Some t" for t
    using assms by (simp add: deadline_Some)
  then show "deadline h' s = m s" by (cases "m s"; cases "deadline h' s") auto
qed

lemma same_entries_deadline: "idx_ok h \<Longrightarrow> same_entries h g \<Longrightarrow> deadline g = deadline h"
  by (rule deadline_eqI) (simp_all add: same_entries_def deadline_Some)

text \<open>The first entry is a least one.\<close>

lemma heap_top_least:
  assumes "heap_ordered h" "k < uh_Len h"
  shows "e_ts (entries h ! 0) \<le> e_ts (entries h ! k)"
  using assms(2)
proof (induction k rule: less_induct)
  case (less k)
  show ?case
  proof (cases "k = 0")
    case False
    then have p: "(k - 1) div 2 < k" by (intro parent_less) simp
    with less have "e_ts (entries h ! 0) \<le> e_ts (entries h ! ((k - 1) div 2))" by simp
    also have "\<dots> \<le> e_ts (entries h ! k)"
      using assms(1) less.prems False by (simp add: heap_ordered_def)
    finally show ?thesis .
  qed simp
qed

lemma top_deadline:
  assumes "uh_ok h" "0 < uh_Len h"
  shows "deadline h (e_s (entries h ! 0)) = Some (e_ts (entries h ! 0))"
    "deadline h s = Some t \<Longrightarrow> e_ts (entries h ! 0) \<le> t"
proof -
  have idx: "idx_ok h" and hp: "heap_ordered h" using assms(1) by (simp_all add: uh_ok_def)
  show "deadline h (e_s (entries h ! 0)) = Some (e_ts (entries h ! 0))"
    using assms(2) nth_mem [of 0 "entries h"] by (simp add: deadline_Some [OF idx] uh_Len_def)
  assume "deadline h s = Some t"
  then obtain k where "k < uh_Len h" "entries h ! k = \<lparr>e_ts = t, e_s = s\<rparr>"
    by (auto simp: deadline_Some [OF idx] in_set_conv_nth uh_Len_def)
  with heap_top_least [OF hp] show "e_ts (entries h ! 0) \<le> t" by force
qed

subsection \<open>Sifting\<close>

lemma up_same: "idx_ok h \<Longrightarrow> j < uh_Len h \<Longrightarrow> same_entries h (heap_up uh_Less uh_Swap j h)"
  by (rule uh.up_keeps [where P = "same_entries h" and n = "uh_Len h"])
    (simp_all add: same_entries_refl same_entries_Swap)

lemma settle_same:
  "idx_ok h \<Longrightarrow> i < n \<Longrightarrow> n \<le> uh_Len h \<Longrightarrow> same_entries h (heap_settle uh_Less uh_Swap i n h)"
  by (rule uh.settle_keeps [where P = "same_entries h" and n = n])
    (simp_all add: same_entries_refl same_entries_Swap)

text \<open>A new last element breaks the order only upwards.\<close>

lemma push_ok:
  assumes "uh_ok h" "e_s x \<notin> e_s ` set (entries h)"
  shows "uh_ok (heap_Push x h)" "deadline (heap_Push x h) = (deadline h)(e_s x \<mapsto> e_ts x)"
    "chWakeUp (heap_Push x h) = chWakeUp h"
    "s \<notin> e_s ` set (entries h) \<Longrightarrow> s \<noteq> e_s x \<Longrightarrow> up_idx (heap_Push x h) s = up_idx h s"
proof -
  let ?g = "uh_Push x h"
  have g: "entries ?g = entries h @ [x]" "chWakeUp ?g = chWakeUp h"
    "up_idx ?g = (up_idx h)(e_s x := int (uh_Len h))" "uh_Len ?g = Suc (uh_Len h)"
    by (simp_all add: uh_Push_def Let_def uh_Len_def)
  have idx: "idx_ok ?g"
    using assms unfolding uh_ok_def idx_ok_def g
    by (auto simp: nth_append uh_Len_def less_Suc_eq) (metis nth_mem imageI)
  have order: "heap_ordered h" using assms(1) by (simp add: uh_ok_def)
  have ts: "e_ts (entries ?g ! k) = e_ts (entries h ! k)" if "k < uh_Len h" for k
    using that unfolding g by (simp add: nth_append uh_Len_def)
  have "uh.except_up (uh_Len h) (uh_Len ?g) ?g"
    unfolding uh.except_up_def uh.bridged_def g(4)
  proof (intro conjI allI impI; elim conjE)
    fix k
    assume k: "0 < k" "k < Suc (uh_Len h)" "k \<noteq> uh_Len h"
    moreover from this have "(k - 1) div 2 < uh_Len h" by linarith
    ultimately show "e_ts (entries ?g ! ((k - 1) div 2)) \<le> e_ts (entries ?g ! k)"
      using ts order unfolding heap_ordered_def by simp
  next
    fix k
    assume "0 < k" "k < Suc (uh_Len h)" "(k - 1) div 2 = uh_Len h"
    then have False by linarith
    then show "e_ts (entries ?g ! ((uh_Len h - 1) div 2)) \<le> e_ts (entries ?g ! k)" ..
  qed
  then have hp: "uh.heap_on (uh_Len ?g) (heap_up uh_Less uh_Swap (uh_Len h) ?g)"
    using g(4) by (intro uh.up_heap) simp_all
  have same: "same_entries ?g (heap_Push x h)"
    using up_same [OF idx, of "uh_Len h"] g(4) by (simp add: heap_Push_def Let_def)
  have push: "heap_Push x h = heap_up uh_Less uh_Swap (uh_Len h) ?g"
    using g(4) by (simp add: heap_Push_def Let_def)
  show "uh_ok (heap_Push x h)"
    using hp same by (simp add: uh_ok_def heap_ordered_on push same_entries_def)
  have notin: "\<lparr>e_ts = t, e_s = e_s x\<rparr> \<notin> set (entries h)" for t
    using assms(2) entry_session by blast
  have "deadline ?g = (deadline h)(e_s x \<mapsto> e_ts x)"
    using assms(1) notin by (intro deadline_eqI idx) (auto simp: g(1) uh_ok_def deadline_Some)
  with same_entries_deadline [OF idx same]
  show "deadline (heap_Push x h) = (deadline h)(e_s x \<mapsto> e_ts x)" by simp
  show "chWakeUp (heap_Push x h) = chWakeUp h" using same g(2) by (simp add: same_entries_def)
  show "s \<notin> e_s ` set (entries h) \<Longrightarrow> s \<noteq> e_s x \<Longrightarrow> up_idx (heap_Push x h) s = up_idx h s"
    using same g(1,3) by (simp add: same_entries_def)
qed

text \<open>\<open>Pop\<close> takes the last entry.\<close>

lemma pop_ok:
  assumes "idx_ok h" "0 < uh_Len h" "uh.heap_on (uh_Len h - 1) h"
  defines "e \<equiv> entries h ! (uh_Len h - 1)" and "g \<equiv> snd (uh_Pop h)"
  shows "uh_ok g" "deadline g = (deadline h)(e_s e := None)" "chWakeUp g = chWakeUp h"
    "up_idx g = (up_idx h)(e_s e := -1)" "uh_Len g = uh_Len h - 1"
proof -
  let ?n = "uh_Len h - 1"
  have g: "entries g = take ?n (entries h)" "up_idx g = (up_idx h)(e_s e := -1)"
    "chWakeUp g = chWakeUp h" "uh_Len g = ?n"
    using assms(2) by (simp_all add: g_def e_def uh_Pop_def Let_def uh_Len_def)
  then show "chWakeUp g = chWakeUp h" "up_idx g = (up_idx h)(e_s e := -1)" "uh_Len g = uh_Len h - 1"
    by simp_all
  have split: "entries h = entries g @ [e]"
    using assms(2) take_Suc_conv_app_nth [of ?n "entries h"] by (simp add: g(1) e_def uh_Len_def)
  have dist: "distinct (map e_s (entries g))" "e_s e \<notin> e_s ` set (entries g)"
    using assms(1) unfolding idx_ok_def split by simp_all
  have "up_idx g (e_s (entries g ! i)) = int i" if i: "i < uh_Len g" for i
  proof -
    have "up_idx h (e_s (entries h ! i)) = int i" using assms(1) i g(4) by (simp add: idx_ok_def)
    moreover have "entries h ! i = entries g ! i" using i by (simp add: split nth_append uh_Len_def)
    moreover have "e_s (entries g ! i) \<noteq> e_s e"
      using dist(2) nth_mem [of i "entries g"] i by (metis imageI uh_Len_def)
    ultimately show ?thesis by (simp add: g(2))
  qed
  with dist(1) have idx: "idx_ok g" by (simp add: idx_ok_def)
  moreover have "heap_ordered g"
    unfolding heap_ordered_def
  proof (intro allI impI)
    fix k
    assume k: "k < uh_Len g" "0 < k"
    moreover from this have "(k - 1) div 2 < uh_Len g" by linarith
    ultimately show "e_ts (entries g ! ((k - 1) div 2)) \<le> e_ts (entries g ! k)"
      using assms(3) unfolding uh.heap_on_def g by (simp add: g(4))
  qed
  ultimately show "uh_ok g" by (simp add: uh_ok_def)
  have "\<lparr>e_ts = t, e_s = s\<rparr> \<in> set (entries g) \<longleftrightarrow> ((deadline h)(e_s e := None)) s = Some t" for s t
    using dist(2) by (auto simp: deadline_Some [OF assms(1)] split dest: entry_session)
  then show "deadline g = (deadline h)(e_s e := None)" by (rule deadline_eqI [OF idx])
qed

text \<open>\<open>Remove\<close> takes the entry at an index, \<open>Fix\<close> settles the first one after its time changed.\<close>

lemma remove_ok:
  assumes "uh_ok h" "i < uh_Len h"
  defines "e \<equiv> entries h ! i" and "g \<equiv> snd (heap_Remove i h)"
  shows "uh_ok g" "deadline g = (deadline h)(e_s e := None)" "chWakeUp g = chWakeUp h"
    "up_idx g (e_s e) = -1" "s \<notin> e_s ` set (entries h) \<Longrightarrow> up_idx g s = up_idx h s"
proof -
  have idx: "idx_ok h" and hp: "heap_ordered h" using assms(1) by (simp_all add: uh_ok_def)
  let ?n = "uh_Len h - 1"
  define h1 where "h1 = (if ?n \<noteq> i then heap_settle uh_Less uh_Swap i ?n (uh_Swap i ?n h) else h)"
  have g: "g = snd (uh_Pop h1)" by (simp add: g_def heap_Remove_def Let_def h1_def)
  have "same_entries h h1 \<and> entries h1 ! ?n = e \<and> uh.heap_on ?n h1"
  proof (cases "?n = i")
    case True
    then show ?thesis
      using hp same_entries_refl [OF idx] by (auto simp: h1_def e_def heap_ordered_on uh.heap_on_def)
  next
    case False
    then have i: "i < ?n" "?n < uh_Len h" using assms(2) by simp_all
    let ?g = "uh_Swap i ?n h"
    have sw: "same_entries h ?g" "entries ?g ! ?n = e"
      using same_entries_Swap [OF same_entries_refl [OF idx] assms(2) i(2)] i
      by (simp_all add: e_def uh_Len_def)
    have "same_entries h (heap_settle uh_Less uh_Swap i ?n ?g)
        \<and> entries (heap_settle uh_Less uh_Swap i ?n ?g) ! ?n = e"
      by (rule uh.settle_keeps [where P = "\<lambda>g. same_entries h g \<and> entries g ! ?n = e", OF i(1)])
        (use sw same_entries_Swap i in auto)
    then have "same_entries h h1 \<and> entries h1 ! ?n = e" using False by (simp add: h1_def)
    moreover have "uh.except_at i ?n ?g"
      unfolding uh.except_at_def uh.bridged_def
    proof (intro conjI allI impI; elim conjE)
      fix k
      assume k: "0 < k" "k < ?n" "k \<noteq> i" "(k - 1) div 2 \<noteq> i"
      moreover from this have "(k - 1) div 2 < ?n" by linarith
      ultimately show "e_ts (entries ?g ! ((k - 1) div 2)) \<le> e_ts (entries ?g ! k)"
        using hp i by (simp add: heap_ordered_def uh_Len_def)
    next
      fix k
      assume k: "0 < i" "0 < k" "k < ?n" "(k - 1) div 2 = i"
      have "(i - 1) div 2 < i" "i < k" using parent_less(1) k by metis+
      moreover have "e_ts (entries h ! ((i - 1) div 2)) \<le> e_ts (entries h ! i)"
        "e_ts (entries h ! i) \<le> e_ts (entries h ! k)"
        using hp k i unfolding heap_ordered_def by (metis less_trans)+
      ultimately show "e_ts (entries ?g ! ((i - 1) div 2)) \<le> e_ts (entries ?g ! k)"
        using i k(3) by (simp add: uh_Len_def)
    qed
    then have "uh.heap_on ?n h1"
      unfolding h1_def using False i by (simp add: uh.settle_heap)
    ultimately show ?thesis by simp
  qed
  then have s: "same_entries h h1" "entries h1 ! (uh_Len h1 - 1) = e" "uh.heap_on (uh_Len h1 - 1) h1"
    by (simp_all add: same_entries_def)
  have h1: "idx_ok h1" "0 < uh_Len h1" using s(1) assms(2) by (simp_all add: same_entries_def)
  note pop = pop_ok [OF h1 s(3), unfolded s(2), folded g]
  show "uh_ok g" "deadline g = (deadline h)(e_s e := None)" "chWakeUp g = chWakeUp h"
    "up_idx g (e_s e) = -1"
    using pop s(1) same_entries_deadline [OF idx s(1)] by (simp_all add: same_entries_def)
  have "e_s e \<in> e_s ` set (entries h)" using assms(2) by (simp add: e_def uh_Len_def)
  then show "s \<notin> e_s ` set (entries h) \<Longrightarrow> up_idx g s = up_idx h s"
    using pop(4) s(1) by (auto simp: same_entries_def)
qed

lemma rearm_ok:
  fixes t :: int
  assumes "uh_ok h" "0 < uh_Len h"
  defines "e \<equiv> entries h ! 0"
  defines "g \<equiv> heap_Fix 0 (h\<lparr>entries := (entries h)[0 := e\<lparr>e_ts := t\<rparr>]\<rparr>)"
  shows "uh_ok g" "deadline g = (deadline h)(e_s e \<mapsto> t)" "chWakeUp g = chWakeUp h"
    "s \<notin> e_s ` set (entries h) \<Longrightarrow> up_idx g s = up_idx h s" "uh_Len g = uh_Len h"
    "e_s ` set (entries g) = e_s ` set (entries h)"
proof -
  have idx: "idx_ok h" and hp: "heap_ordered h" using assms(1) by (simp_all add: uh_ok_def)
  let ?h = "h\<lparr>entries := (entries h)[0 := e\<lparr>e_ts := t\<rparr>]\<rparr>"
  obtain es where es: "entries h = e # es"
    using assms(2) by (cases "entries h") (auto simp: uh_Len_def e_def)
  have len: "uh_Len ?h = uh_Len h" by (simp add: uh_Len_def)
  have idx': "idx_ok ?h"
    using idx by (auto simp: idx_ok_def es uh_Len_def nth_Cons split: nat.splits)
  have "uh.except_at 0 (uh_Len h) ?h"
    using hp by (auto simp: uh.except_at_def uh.bridged_def heap_ordered_def es nth_Cons split: nat.splits)
  then have hp': "uh.heap_on (uh_Len h) g"
    unfolding g_def heap_Fix_def len using assms(2) len by (intro uh.settle_heap) simp_all
  have same: "same_entries ?h g"
    unfolding g_def heap_Fix_def using settle_same [OF idx', of 0 "uh_Len ?h"] assms(2) len by simp
  then show "uh_ok g" "chWakeUp g = chWakeUp h" "uh_Len g = uh_Len h"
    using hp' len by (simp_all add: uh_ok_def heap_ordered_on same_entries_def)
  have sess: "e_s ` set (entries ?h) = e_s ` set (entries h)" by (simp add: es)
  with same show "s \<notin> e_s ` set (entries h) \<Longrightarrow> up_idx g s = up_idx h s"
    "e_s ` set (entries g) = e_s ` set (entries h)"
    by (simp_all add: same_entries_def)
  have "e_s e \<notin> e_s ` set es" using idx by (simp add: idx_ok_def es)
  then have "deadline ?h = (deadline h)(e_s e \<mapsto> t)"
    by (intro deadline_eqI idx') (auto simp: deadline_Some [OF idx] es dest: entry_session)
  with same_entries_deadline [OF idx' same] show "deadline g = (deadline h)(e_s e \<mapsto> t)" by simp
qed

subsection \<open>Adding and removing sessions\<close>

lemma addSession_ok:
  assumes "uh_ok h" "s \<notin> dom (deadline h)"
  shows "uh_ok (addSession now s h)" "deadline (addSession now s h) = (deadline h)(s \<mapsto> now)"
    "chWakeUp (addSession now s h)"
    "r \<notin> dom (deadline h) \<Longrightarrow> r \<noteq> s \<Longrightarrow> up_idx (addSession now s h) r = up_idx h r"
proof -
  have wake: "uh_ok (wakeup g) = uh_ok g" "deadline (wakeup g) = deadline g" "chWakeUp (wakeup g)"
    "up_idx (wakeup g) = up_idx g" for g
    by (simp_all add: wakeup_def uh_ok_def heap_ordered_def idx_ok_def uh_Len_def deadline_def)
  have s: "e_s \<lparr>e_ts = now, e_s = s\<rparr> \<notin> e_s ` set (entries h)" using assms(2) by (simp add: dom_deadline)
  note push = push_ok [OF assms(1) s]
  show "uh_ok (addSession now s h)" "deadline (addSession now s h) = (deadline h)(s \<mapsto> now)"
    "chWakeUp (addSession now s h)"
    "r \<notin> dom (deadline h) \<Longrightarrow> r \<noteq> s \<Longrightarrow> up_idx (addSession now s h) r = up_idx h r"
    using push wake by (simp_all add: addSession_def dom_deadline)
qed

lemma removeSession_ok:
  assumes "uh_ok h" "if s \<in> dom (deadline h) then True else up_idx h s = -1"
  shows "\<exists>h'. removeSession s h = Some h' \<and> uh_ok h' \<and> deadline h' = (deadline h)(s := None)
    \<and> chWakeUp h' = chWakeUp h \<and> up_idx h' s = -1
    \<and> (\<forall>r. r \<notin> dom (deadline h) \<longrightarrow> up_idx h' r = up_idx h r)"
proof (cases "s \<in> dom (deadline h)")
  case False
  then show ?thesis using assms by (auto simp: removeSession_def)
next
  case True
  then obtain i where i: "i < uh_Len h" "e_s (entries h ! i) = s"
    by (auto simp: dom_deadline in_set_conv_nth uh_Len_def)
  then have "up_idx h s = int i" using assms(1) by (auto simp: uh_ok_def idx_ok_def)
  then have "removeSession s h = Some (snd (heap_Remove i h))" using i(1) by (simp add: removeSession_def)
  with remove_ok [OF assms(1) i(1), unfolded i(2)] show ?thesis by (simp add: dom_deadline)
qed

subsection \<open>Rounds\<close>

text \<open>The sessions whose update is due by a time, and an environment that records updates.\<close>

definition due :: "int \<Rightarrow> update_heap \<Rightarrow> nat set" where
  "due c h = {s. \<exists>d. deadline h s = Some d \<and> d \<le> c}"

definition logging :: "(nat \<Rightarrow> 'w \<Rightarrow> int \<times> 'w) \<Rightarrow> nat \<Rightarrow> nat list \<times> 'w \<Rightarrow> int \<times> nat list \<times> 'w" where
  "logging upd s = (\<lambda>(log, w). let (itv, w) = upd s w in (itv, log @ [s], w))"

lemma due_finite: "finite (due c h)"
proof -
  have "due c h \<subseteq> dom (deadline h)" by (auto simp: due_def)
  then show ?thesis by (rule finite_subset) (simp add: dom_deadline)
qed

lemma due_card: "card (due c h) \<le> uh_Len h"
proof -
  have "due c h \<subseteq> e_s ` set (entries h)" by (auto simp: due_def simp flip: dom_deadline)
  then have "card (due c h) \<le> card (e_s ` set (entries h))" by (intro card_mono) auto
  also have "\<dots> \<le> card (set (entries h))" by (simp add: card_image_le)
  also have "\<dots> \<le> uh_Len h" by (simp add: card_length uh_Len_def)
  finally show ?thesis .
qed

definition round_step :: "update_heap \<Rightarrow> int \<Rightarrow> update_heap" where
  "round_step h d = heap_Fix 0 (h\<lparr>entries := (entries h)[0 := (entries h ! 0)\<lparr>e_ts := d\<rparr>]\<rparr>)"

lemmas round_step_ok = rearm_ok [folded round_step_def]

lemma update_loop_Suc:
  "update_loop clk (logging upd) (Suc i) h t (log, w) =
     (let s = e_s (entries h ! 0) in
      if e_ts (entries h ! 0) \<le> clk t
      then update_loop clk (logging upd) i (round_step h (clk (t + 1) + fst (upd s w))) (t + 2)
             (log @ [s], snd (upd s w))
      else (h, t + 1, log, w))"
  by (auto simp: Let_def logging_def round_step_def not_less split: prod.splits)

text \<open>Whatever the intervals, a round keeps the registered sessions and their indices.\<close>

lemma loop_keeps:
  assumes "update_loop clk (logging upd) i h t (log, w) = (h', t', log', w')" "uh_ok h" "i \<le> uh_Len h"
  shows "uh_ok h' \<and> dom (deadline h') = dom (deadline h) \<and> chWakeUp h' = chWakeUp h \<and> t \<le> t'
    \<and> uh_Len h' = uh_Len h \<and> (\<forall>r. r \<notin> dom (deadline h) \<longrightarrow> up_idx h' r = up_idx h r)
    \<and> (\<exists>new. log' = log @ new \<and> set new \<subseteq> dom (deadline h))"
  using assms
proof (induction i arbitrary: h t log w)
  case 0
  then show ?case by simp
next
  case (Suc i)
  let ?s = "e_s (entries h ! 0)"
  have ne: "0 < uh_Len h" using Suc.prems(3) by simp
  show ?case
  proof (cases "e_ts (entries h ! 0) \<le> clk t")
    case False
    with Suc.prems show ?thesis by (auto simp: update_loop_Suc simp del: update_loop.simps)
  next
    case True
    let ?h = "round_step h (clk (t + 1) + fst (upd ?s w))"
    note r = round_step_ok [OF Suc.prems(2) ne, where t = "clk (t + 1) + fst (upd ?s w)"]
    have "update_loop clk (logging upd) i ?h (t + 2) (log @ [?s], snd (upd ?s w)) = (h', t', log', w')"
      using Suc.prems(1) True by (simp add: update_loop_Suc Let_def del: update_loop.simps)
    note IH = Suc.IH [OF this r(1)]
    have dom: "dom (deadline ?h) = dom (deadline h)" using r(6) by (simp add: dom_deadline)
    have "?s \<in> dom (deadline h)" using ne by (simp add: dom_deadline uh_Len_def)
    with IH r(3-5) dom Suc.prems(3) show ?thesis by (auto simp: dom_deadline)
  qed
qed

text \<open>Every session that is due when the round starts is served, and none is left behind.\<close>

lemma loop_due:
  assumes "update_loop clk (logging upd) i h t (log, w) = (h', t', log', w')" "uh_ok h" "i \<le> uh_Len h"
    "mono clk" "\<And>s w. 0 < fst (upd s w)" "c \<le> clk t" "card (due c h) \<le> i"
  shows "due c h' = {} \<and> set log \<union> due c h \<subseteq> set log'"
  using assms(1-3,6,7)
proof (induction i arbitrary: h t log w)
  case 0
  then show ?case using due_finite [of c h] by simp
next
  case (Suc i)
  let ?s = "e_s (entries h ! 0)"
  have ne: "0 < uh_Len h" using Suc.prems(3) by simp
  note top = top_deadline [OF Suc.prems(2) ne]
  show ?case
  proof (cases "e_ts (entries h ! 0) \<le> clk t")
    case False
    then have "due c h = {}" using top(2) Suc.prems(4) by (force simp: due_def)
    with False Suc.prems(1) show ?thesis by (auto simp: update_loop_Suc simp del: update_loop.simps)
  next
    case True
    let ?d = "clk (t + 1) + fst (upd ?s w)"
    let ?h = "round_step h ?d"
    note r = round_step_ok [OF Suc.prems(2) ne, where t = ?d]
    have loop: "update_loop clk (logging upd) i ?h (t + 2) (log @ [?s], snd (upd ?s w)) = (h', t', log', w')"
      using Suc.prems(1) True by (simp add: update_loop_Suc Let_def del: update_loop.simps)
    have mono: "clk t \<le> clk (t + 1)" "clk t \<le> clk (t + 2)" using assms(4) by (simp_all add: monoD)
    then have "c < ?d" using assms(5) [of ?s w] Suc.prems(4) by linarith
    then have due: "due c ?h = due c h - {?s}" using r(2) by (auto simp: due_def)
    have "due c h = {}" if "?s \<notin> due c h" using that top by (fastforce simp: due_def)
    then have "card (due c ?h) \<le> i"
      using Suc.prems(5) due_finite [of c h] unfolding due by (cases "?s \<in> due c h") auto
    with Suc.IH [OF loop r(1)] Suc.prems(3,4) r(5) mono
    have "due c h' = {} \<and> set (log @ [?s]) \<union> due c ?h \<subseteq> set log'" by simp
    with due show ?thesis by auto
  qed
qed

text \<open>No session is served before its time.\<close>

lemma loop_early:
  assumes "update_loop clk (logging upd) i h t (log, w) = (h', t', log', w')" "uh_ok h" "i \<le> uh_Len h"
    "mono clk" "deadline h s = Some d" "clk t' < d"
  shows "deadline h' s = Some d \<and> (s \<in> set log' \<longrightarrow> s \<in> set log)"
  using assms(1-3,5,6)
proof (induction i arbitrary: h t log w)
  case 0
  then show ?case by simp
next
  case (Suc i)
  let ?s = "e_s (entries h ! 0)"
  have ne: "0 < uh_Len h" using Suc.prems(3) by simp
  note top = top_deadline [OF Suc.prems(2) ne]
  show ?case
  proof (cases "e_ts (entries h ! 0) \<le> clk t")
    case False
    with Suc.prems show ?thesis by (auto simp: update_loop_Suc simp del: update_loop.simps)
  next
    case True
    let ?h = "round_step h (clk (t + 1) + fst (upd ?s w))"
    note r = round_step_ok [OF Suc.prems(2) ne, where t = "clk (t + 1) + fst (upd ?s w)"]
    have loop: "update_loop clk (logging upd) i ?h (t + 2) (log @ [?s], snd (upd ?s w)) = (h', t', log', w')"
      using Suc.prems(1) True by (simp add: update_loop_Suc Let_def del: update_loop.simps)
    have "t + 2 \<le> t'" using loop_keeps [OF loop r(1)] Suc.prems(3) r(5) by simp
    then have "clk t \<le> clk t'" using assms(4) by (simp add: monoD)
    with True Suc.prems(4,5) top(1) have "s \<noteq> ?s" by auto
    with Suc.IH [OF loop r(1)] Suc.prems(3-5) r(2,5) show ?thesis by simp
  qed
qed

text \<open>A whole round; the timer is set for the earliest remaining deadline.\<close>

lemma round_spec:
  assumes "update_round clk (logging upd) h t (log, w) = (h', tm, t', log', w')" "uh_ok h"
  shows "uh_ok h'" "dom (deadline h') = dom (deadline h)" "chWakeUp h' = chWakeUp h"
    "r \<notin> dom (deadline h) \<Longrightarrow> up_idx h' r = up_idx h r"
    "case tm of None \<Rightarrow> dom (deadline h) = {} \<and> t' = t
      | Some d \<Rightarrow> 0 < t' \<and> (\<exists>s. deadline h' s = Some (clk (t' - 1) + d)) \<and> (\<forall>s e. deadline h' s = Some e \<longrightarrow> clk (t' - 1) + d \<le> e)"
    "\<exists>new. log' = log @ new \<and> set new \<subseteq> dom (deadline h)"
proof -
  obtain g u log1 w1 where loop: "update_loop clk (logging upd) (uh_Len h) h t (log, w) = (g, u, log1, w1)"
    by (metis prod.exhaust)
  note k = loop_keeps [OF loop assms(2) order_refl]
  have r: "h' = g" "log' = log1" "t' = (if 0 < uh_Len h then u + 1 else u)"
    "tm = (if 0 < uh_Len h then Some (e_ts (entries g ! 0) - clk u) else None)"
    using assms(1) loop by (auto simp: update_round_def Let_def split: if_splits)
  show "uh_ok h'" "dom (deadline h') = dom (deadline h)" "chWakeUp h' = chWakeUp h"
    "r \<notin> dom (deadline h) \<Longrightarrow> up_idx h' r = up_idx h r"
    "\<exists>new. log' = log @ new \<and> set new \<subseteq> dom (deadline h)"
    using k r by simp_all
  show "case tm of None \<Rightarrow> dom (deadline h) = {} \<and> t' = t
      | Some d \<Rightarrow> 0 < t' \<and> (\<exists>s. deadline h' s = Some (clk (t' - 1) + d)) \<and> (\<forall>s e. deadline h' s = Some e \<longrightarrow> clk (t' - 1) + d \<le> e)"
  proof (cases "0 < uh_Len h")
    case False
    then have "entries h = []" by (simp add: uh_Len_def)
    with False loop r show ?thesis by (simp add: deadline_def)
  next
    case True
    then have "0 < uh_Len g" using k by simp
    with k have top: "deadline g (e_s (entries g ! 0)) = Some (e_ts (entries g ! 0))"
      "\<And>s e. deadline g s = Some e \<Longrightarrow> e_ts (entries g ! 0) \<le> e"
      by (auto intro: top_deadline)
    then show ?thesis using True r by auto
  qed
qed

lemma round_due:
  assumes "update_round clk (logging upd) h t (log, w) = (h', tm, t', log', w')" "uh_ok h"
    "mono clk" "\<And>s w. 0 < fst (upd s w)"
  shows "due (clk t) h' = {}" "set log \<union> due (clk t) h \<subseteq> set log'"
    "deadline h s = Some d \<Longrightarrow> clk t' < d \<Longrightarrow> deadline h' s = Some d \<and> (s \<in> set log' \<longrightarrow> s \<in> set log)"
proof -
  obtain g u log1 w1 where loop: "update_loop clk (logging upd) (uh_Len h) h t (log, w) = (g, u, log1, w1)"
    by (metis prod.exhaust)
  have r: "h' = g" "log' = log1" "u \<le> t'"
    using assms(1) loop by (auto simp: update_round_def Let_def split: if_splits)
  show "due (clk t) h' = {}" "set log \<union> due (clk t) h \<subseteq> set log'"
    using loop_due [OF loop assms(2) order_refl assms(3,4) order_refl due_card] r by simp_all
  assume d: "deadline h s = Some d" "clk t' < d"
  moreover from this have "clk u < d" using monoD [OF assms(3) r(3)] by simp
  ultimately show "deadline h' s = Some d \<and> (s \<in> set log' \<longrightarrow> s \<in> set log)"
    using loop_early [OF loop assms(2) order_refl assms(3)] r by simp
qed

subsection \<open>The goroutine\<close>

text \<open>
  The scheduler with its timer (the time at which it fires, counted from the reading its
  \<open>Reset\<close> is computed from) and every session ever registered. A session is registered when it
  is made and removed when it is closed; the goroutine runs a round when it takes the wake-up
  token or when the timer fires.
\<close>

record 'w scheduler =
  sc_heap :: update_heap
  sc_timer :: "int option"
  sc_tick :: nat
  sc_added :: "nat set"
  sc_log :: "nat list"
  sc_world :: 'w

definition scheduler_start :: "(nat \<Rightarrow> int) \<Rightarrow> 'w \<Rightarrow> 'w scheduler" where
  "scheduler_start clk w =
     \<lparr>sc_heap = \<lparr>entries = [], up_idx = \<lambda>_. 0, chWakeUp = False\<rparr>, sc_timer = Some (clk 0), sc_tick = 0,
      sc_added = {}, sc_log = [], sc_world = w\<rparr>"

definition run_round :: "(nat \<Rightarrow> int) \<Rightarrow> (nat \<Rightarrow> 'w \<Rightarrow> int \<times> 'w) \<Rightarrow> 'w scheduler \<Rightarrow> 'w scheduler" where
  "run_round clk upd st =
     (let (h, tm, t, log, w) = update_round clk (logging upd) (sc_heap st) (sc_tick st) (sc_log st, sc_world st)
      in st\<lparr>sc_heap := h, sc_timer := (case tm of None \<Rightarrow> sc_timer st | Some d \<Rightarrow> Some (clk (t - 1) + d)),
            sc_tick := t, sc_log := log, sc_world := w\<rparr>)"

inductive sched_step :: "(nat \<Rightarrow> int) \<Rightarrow> (nat \<Rightarrow> 'w \<Rightarrow> int \<times> 'w) \<Rightarrow> 'w scheduler \<Rightarrow> 'w scheduler \<Rightarrow> bool"
  for clk upd where
  add: "s \<notin> sc_added st \<Longrightarrow>
     sched_step clk upd st (st\<lparr>sc_heap := addSession (clk (sc_tick st)) s (sc_heap st),
       sc_tick := sc_tick st + 1, sc_added := insert s (sc_added st)\<rparr>)"
| remove: "s \<in> sc_added st \<Longrightarrow> removeSession s (sc_heap st) = Some h \<Longrightarrow>
     sched_step clk upd st (st\<lparr>sc_heap := h\<rparr>)"
| wait: "sched_step clk upd st (st\<lparr>sc_tick := sc_tick st + 1\<rparr>)"
| woken: "chWakeUp (sc_heap st) \<Longrightarrow>
     sched_step clk upd st (run_round clk upd (st\<lparr>sc_heap := (sc_heap st)\<lparr>chWakeUp := False\<rparr>\<rparr>))"
| fired: "sc_timer st = Some d \<Longrightarrow> d \<le> clk (sc_tick st) \<Longrightarrow>
     sched_step clk upd st (run_round clk upd (st\<lparr>sc_timer := None\<rparr>))"

inductive sched_reachable :: "(nat \<Rightarrow> int) \<Rightarrow> (nat \<Rightarrow> 'w \<Rightarrow> int \<times> 'w) \<Rightarrow> 'w scheduler \<Rightarrow> bool"
  for clk upd where
  start: "sched_reachable clk upd (scheduler_start clk w)"
| step: "sched_reachable clk upd st \<Longrightarrow> sched_step clk upd st st' \<Longrightarrow> sched_reachable clk upd st'"

definition armed :: "'w scheduler \<Rightarrow> bool" where
  "armed st \<longleftrightarrow> (\<exists>d. sc_timer st = Some d \<and> (\<forall>s e. deadline (sc_heap st) s = Some e \<longrightarrow> d \<le> e))"

definition sched_ok :: "'w scheduler \<Rightarrow> bool" where
  "sched_ok st \<longleftrightarrow> uh_ok (sc_heap st) \<and> dom (deadline (sc_heap st)) \<subseteq> sc_added st
     \<and> (\<forall>s \<in> sc_added st - dom (deadline (sc_heap st)). up_idx (sc_heap st) s = -1)
     \<and> (dom (deadline (sc_heap st)) = {} \<or> chWakeUp (sc_heap st) \<or> armed st)"

lemma run_round_ok:
  assumes "sched_ok (st\<lparr>sc_heap := (sc_heap st)\<lparr>chWakeUp := True\<rparr>\<rparr>)"
  shows "sched_ok (run_round clk upd st) \<and> sc_added (run_round clk upd st) = sc_added st"
proof -
  obtain h tm t log w where
    r: "update_round clk (logging upd) (sc_heap st) (sc_tick st) (sc_log st, sc_world st) = (h, tm, t, log, w)"
    by (metis prod.exhaust)
  have ok: "uh_ok (sc_heap st)" "dom (deadline (sc_heap st)) \<subseteq> sc_added st"
    "\<forall>s \<in> sc_added st - dom (deadline (sc_heap st)). up_idx (sc_heap st) s = -1"
    using assms by (simp_all add: sched_ok_def uh_ok_def heap_ordered_def idx_ok_def uh_Len_def deadline_def)
  note s = round_spec [OF r ok(1)]
  show ?thesis
  proof (cases tm)
    case None
    with s ok show ?thesis by (simp add: sched_ok_def run_round_def r)
  next
    case (Some d)
    with s ok show ?thesis by (auto simp: sched_ok_def run_round_def r armed_def)
  qed
qed

lemma sched_step_ok:
  assumes "sched_ok st" "sched_step clk upd st st'"
  shows "sched_ok st' \<and> sc_added st \<subseteq> sc_added st'"
  using assms(2)
proof (cases rule: sched_step.cases)
  case (add s)
  have "s \<notin> dom (deadline (sc_heap st))" "uh_ok (sc_heap st)" using assms(1) add(2) by (auto simp: sched_ok_def)
  note a = addSession_ok [OF this(2,1)]
  have "up_idx (addSession (clk (sc_tick st)) s (sc_heap st)) r = -1"
    if "r \<in> insert s (sc_added st) - dom (deadline (addSession (clk (sc_tick st)) s (sc_heap st)))" for r
    using that assms(1) a(2) a(4) [of r] by (auto simp: sched_ok_def)
  with assms(1) a(1-3) add show ?thesis by (auto simp: sched_ok_def)
next
  case (remove s h)
  have ok: "uh_ok (sc_heap st)" "if s \<in> dom (deadline (sc_heap st)) then True else up_idx (sc_heap st) s = -1"
    using assms(1) remove(2) by (auto simp: sched_ok_def)
  from removeSession_ok [OF ok] remove(3) have
    h: "uh_ok h" "deadline h = (deadline (sc_heap st))(s := None)" "chWakeUp h = chWakeUp (sc_heap st)"
    "up_idx h s = -1" "\<forall>r. r \<notin> dom (deadline (sc_heap st)) \<longrightarrow> up_idx h r = up_idx (sc_heap st) r"
    by auto
  have "armed (st\<lparr>sc_heap := h\<rparr>)" if "armed st" using that h(2) by (auto simp: armed_def)
  moreover have "up_idx h r = -1" if "r \<in> sc_added st - dom (deadline h)" for r
    using that assms(1) h(2,4,5) by (cases "r = s") (auto simp: sched_ok_def)
  ultimately show ?thesis using assms(1) h(1-3) remove by (auto simp: sched_ok_def)
next
  case wait
  with assms(1) show ?thesis by (simp add: sched_ok_def armed_def)
next
  case woken
  have "sched_ok (st\<lparr>sc_heap := (sc_heap st)\<lparr>chWakeUp := True\<rparr>\<rparr>)"
    using assms(1) by (simp add: sched_ok_def uh_ok_def heap_ordered_def idx_ok_def uh_Len_def deadline_def)
  with woken run_round_ok [of "st\<lparr>sc_heap := (sc_heap st)\<lparr>chWakeUp := False\<rparr>\<rparr>" clk upd] show ?thesis by simp
next
  case (fired d)
  have "sched_ok (st\<lparr>sc_timer := None, sc_heap := (sc_heap st)\<lparr>chWakeUp := True\<rparr>\<rparr>)"
    using assms(1) by (simp add: sched_ok_def uh_ok_def heap_ordered_def idx_ok_def uh_Len_def deadline_def)
  with fired run_round_ok [of "st\<lparr>sc_timer := None\<rparr>" clk upd] show ?thesis by simp
qed

lemma reachable_sched_ok: "sched_reachable clk upd st \<Longrightarrow> sched_ok st"
proof (induction rule: sched_reachable.induct)
  case (start w)
  show ?case
    by (simp add: scheduler_start_def sched_ok_def uh_ok_def heap_ordered_def idx_ok_def uh_Len_def deadline_def)
next
  case (step st st')
  then show ?case using sched_step_ok by blast
qed

subsection \<open>Properties\<close>

text \<open>C15. The heap of the update scheduler refines a table of deadlines: in every state the
  scheduler can reach, registering a session enters it with the current time, closing any
  registered session (again, too) removes exactly that session without an index out of range, and
  the first entry is the session with the earliest deadline.\<close>

theorem scheduler_refines_table:
  assumes "sched_reachable clk upd st"
  shows "(s \<notin> sc_added st \<longrightarrow> deadline (addSession now s (sc_heap st)) = (deadline (sc_heap st))(s \<mapsto> now))
    \<and> (s \<in> sc_added st \<longrightarrow>
       map_option deadline (removeSession s (sc_heap st)) = Some ((deadline (sc_heap st))(s := None)))
    \<and> (0 < uh_Len (sc_heap st) \<longrightarrow>
       deadline (sc_heap st) (e_s (entries (sc_heap st) ! 0)) = Some (e_ts (entries (sc_heap st) ! 0)))
    \<and> (\<forall>d. deadline (sc_heap st) s = Some d \<longrightarrow> e_ts (entries (sc_heap st) ! 0) \<le> d)"
proof (intro conjI impI allI)
  have ok: "sched_ok st" using assms by (rule reachable_sched_ok)
  then have h: "uh_ok (sc_heap st)" by (simp add: sched_ok_def)
  show "deadline (addSession now s (sc_heap st)) = (deadline (sc_heap st))(s \<mapsto> now)" if "s \<notin> sc_added st"
    using addSession_ok(2) [OF h] ok that by (auto simp: sched_ok_def)
  show "map_option deadline (removeSession s (sc_heap st)) = Some ((deadline (sc_heap st))(s := None))"
    if "s \<in> sc_added st"
  proof -
    from that ok have "if s \<in> dom (deadline (sc_heap st)) then True else up_idx (sc_heap st) s = -1"
      by (auto simp: sched_ok_def)
    from removeSession_ok [OF h this] show ?thesis by auto
  qed
  show "deadline (sc_heap st) (e_s (entries (sc_heap st) ! 0)) = Some (e_ts (entries (sc_heap st) ! 0))"
    if "0 < uh_Len (sc_heap st)" using that by (rule top_deadline [OF h])
  show "e_ts (entries (sc_heap st) ! 0) \<le> d" if d: "deadline (sc_heap st) s = Some d" for d
  proof -
    from d have "entries (sc_heap st) \<noteq> []" by (auto simp: deadline_def)
    then show ?thesis using top_deadline(2) [OF h _ d] by (simp add: uh_Len_def)
  qed
qed

text \<open>C16. A round of the update goroutine serves every session whose update was due when it began,
  serves no session that is not registered and none that becomes due only after the round, leaves
  no session overdue from before the round, and sets the timer for the earliest deadline, if
  intervals are positive and the clock does not run backwards.\<close>

theorem round_serves_due:
  assumes "sched_reachable clk upd st" "mono clk" "\<forall>s w. 0 < fst (upd s w)"
    "update_round clk (logging upd) (sc_heap st) (sc_tick st) ([], sc_world st) = (h, tm, t, log, w)"
  shows "due (clk (sc_tick st)) (sc_heap st) \<subseteq> set log \<and> set log \<subseteq> dom (deadline (sc_heap st))
    \<and> due (clk (sc_tick st)) h = {}
    \<and> (\<forall>s d. deadline (sc_heap st) s = Some d \<and> clk t < d \<longrightarrow> s \<notin> set log \<and> deadline h s = Some d)
    \<and> (case tm of None \<Rightarrow> dom (deadline h) = {}
      | Some d \<Rightarrow> (\<exists>s. deadline h s = Some (clk (t - 1) + d)) \<and> (\<forall>s e. deadline h s = Some e \<longrightarrow> clk (t - 1) + d \<le> e))"
proof -
  have h: "uh_ok (sc_heap st)" using reachable_sched_ok [OF assms(1)] by (simp add: sched_ok_def)
  note r = round_spec [OF assms(4) h]
  note d = round_due [OF assms(4) h assms(2)]
  have "due (clk (sc_tick st)) (sc_heap st) \<subseteq> set log \<and> set log \<subseteq> dom (deadline (sc_heap st))"
    "due (clk (sc_tick st)) h = {}"
    "\<And>s d. deadline (sc_heap st) s = Some d \<Longrightarrow> clk t < d \<Longrightarrow> s \<notin> set log \<and> deadline h s = Some d"
    using d assms(3) r(6) by auto
  moreover have "case tm of None \<Rightarrow> dom (deadline h) = {}
      | Some d \<Rightarrow> (\<exists>s. deadline h s = Some (clk (t - 1) + d)) \<and> (\<forall>s e. deadline h s = Some e \<longrightarrow> clk (t - 1) + d \<le> e)"
    using r(2,5) by (auto split: option.splits)
  ultimately show ?thesis by blast
qed

text \<open>C17. No registered session is forgotten: whatever is registered, closed or served in whatever
  order, as long as a session is registered either the wake-up token is waiting for the update
  goroutine or its timer is set for no later than that session's deadline.\<close>

theorem no_session_forgotten:
  assumes "sched_reachable clk upd st" "deadline (sc_heap st) s = Some d"
  shows "chWakeUp (sc_heap st) \<or> (\<exists>e. sc_timer st = Some e \<and> e \<le> d)"
  using reachable_sched_ok [OF assms(1)] assms(2) unfolding sched_ok_def armed_def by blast

text \<open>A run: two sessions are registered, the goroutine serves both, the first is closed.\<close>

definition demo_clock :: "nat \<Rightarrow> int" where "demo_clock t = int t"
definition demo_update :: "nat \<Rightarrow> unit \<Rightarrow> int \<times> unit" where "demo_update s w = (100, w)"

definition demo_st :: "unit scheduler" where
  "demo_st =
     (let st = scheduler_start demo_clock ();
          st = st\<lparr>sc_heap := addSession 0 7 (sc_heap st), sc_tick := 1, sc_added := {7}\<rparr>;
          st = st\<lparr>sc_heap := addSession 1 8 (sc_heap st), sc_tick := 2, sc_added := {8, 7}\<rparr>
      in st)"

lemma demo_st_reachable: "sched_reachable demo_clock demo_update demo_st"
proof -
  let ?st = "scheduler_start demo_clock ()"
  have a: "sched_reachable demo_clock demo_update
      (?st\<lparr>sc_heap := addSession 0 7 (sc_heap ?st), sc_tick := 1, sc_added := {7}\<rparr>)"
    using sched_reachable.step [OF sched_reachable.start sched_step.add [of 7 ?st]]
    by (simp add: scheduler_start_def demo_clock_def)
  show ?thesis
    using sched_reachable.step [OF a sched_step.add [of 8]]
    by (simp add: demo_st_def scheduler_start_def demo_clock_def Let_def numeral_2_eq_2)
qed

lemma demo_st_sel:
  "entries (sc_heap demo_st) = [\<lparr>e_ts = 0, e_s = 7\<rparr>, \<lparr>e_ts = 1, e_s = 8\<rparr>]"
  "sc_added demo_st = {8, 7}" "sc_tick demo_st = 2" "chWakeUp (sc_heap demo_st)"
  by (simp_all add: demo_st_def scheduler_start_def Let_def addSession_def heap_Push_def uh_Push_def
      heap_up_stop uh_Len_def uh_Less_def wakeup_def)

theorem scheduler_refines_table_witness:
  "map_option deadline (removeSession 7 (sc_heap demo_st)) = Some ((deadline (sc_heap demo_st))(7 := None))"
  using scheduler_refines_table [OF demo_st_reachable, of 7] by (simp add: demo_st_sel)

theorem no_session_forgotten_witness:
  "chWakeUp (sc_heap demo_st) \<or> (\<exists>e. sc_timer demo_st = Some e \<and> e \<le> 1)"
  by (rule no_session_forgotten [OF demo_st_reachable, of 8]) (simp add: demo_st_sel deadline_def)

theorem round_serves_due_witness:
  "\<exists>h tm t log w. update_round demo_clock (logging demo_update) (sc_heap demo_st) 2 ([], ()) = (h, tm, t, log, w)
     \<and> {7, 8} \<subseteq> set log"
proof -
  obtain h tm t log w where
    r: "update_round demo_clock (logging demo_update) (sc_heap demo_st) (sc_tick demo_st) ([], sc_world demo_st)
      = (h, tm, t, log, w)" by (metis prod.exhaust)
  have "mono demo_clock" by (simp add: mono_def demo_clock_def)
  moreover have "\<forall>s w. 0 < fst (demo_update s w)" by (simp add: demo_update_def)
  ultimately have "due (demo_clock (sc_tick demo_st)) (sc_heap demo_st) \<subseteq> set log"
    using round_serves_due [OF demo_st_reachable _ _ r] by blast
  moreover have "due (demo_clock (sc_tick demo_st)) (sc_heap demo_st) = {7, 8}"
    by (auto simp: due_def deadline_def demo_st_sel demo_clock_def)
  ultimately show ?thesis using r by (simp add: demo_st_sel)
qed

end
