(* ===== verification/Serial.thy ===== *)
theory Serial
  imports Prelude
begin

section \<open>Serial-number arithmetic\<close>

text \<open>
  \<open>_imin_\<close>, \<open>_imax_\<close>, \<open>_ibound_\<close> and \<open>_itimediff\<close> of kcp.go, and the facts the protocol
  rests on: sequence numbers wrap at \<open>2 ^ 32\<close> and are compared by the sign of their
  difference, which is a linear order on every half of the circle. The offset of a number
  from a base, \<open>unat (a - r)\<close>, linearises it.

  The second half is the interface of a queue ordered by serial number: kcp.go's receive
  buffer and fec.go's receive queue both scan such a queue from its end for the slot of a new
  element, refuse a duplicate and shift the rest right. The laws are stated once, in a locale,
  and each component interprets it on its own scan and its own insertion.
\<close>

definition imin :: "u32 \<Rightarrow> u32 \<Rightarrow> u32" where
  "imin a b = (if a \<le> b then a else b)"

definition imax :: "u32 \<Rightarrow> u32 \<Rightarrow> u32" where
  "imax a b = (if a \<ge> b then a else b)"

definition ibound :: "u32 \<Rightarrow> u32 \<Rightarrow> u32 \<Rightarrow> u32" where
  "ibound lower middle upper = imin (imax lower middle) upper"

definition itimediff :: "u32 \<Rightarrow> u32 \<Rightarrow> int" where
  "itimediff later earlier = sint (later - earlier)"

lemma imin_le: "imin a b \<le> a" "imin a b \<le> b"
  by (auto simp: imin_def)

lemma ibound_le_upper: "ibound lo m hi \<le> hi"
  by (simp add: ibound_def imin_le)

lemma ibound_ge_lower: "lo \<le> hi \<Longrightarrow> lo \<le> ibound lo m hi"
  by (auto simp: ibound_def imin_def imax_def)

lemma itimediff_self [simp]: "itimediff a a = 0"
  by (simp add: itimediff_def)

lemma itimediff_range: "- (2 ^ 31) \<le> itimediff a b" "itimediff a b < 2 ^ 31"
  unfolding itimediff_def using sint_ge [of "a - b"] sint_lt [of "a - b"] by simp_all

subsection \<open>Offsets from a base\<close>

lemma itimediff_offsets:
  assumes "unat (a - r) < 2 ^ 31" "unat (b - r) < 2 ^ 31"
  shows "itimediff a b = int (unat (a - r)) - int (unat (b - r))"
proof -
  have "a - b = word_of_int (int (unat (a - r)) - int (unat (b - r)))"
    by simp
  then have "itimediff a b = i32 (int (unat (a - r)) - int (unat (b - r)))"
    by (simp add: itimediff_def i32_def)
  also have "\<dots> = int (unat (a - r)) - int (unat (b - r))"
    using assms by (intro i32_id) (simp_all del: of_nat_unat)
  finally show ?thesis .
qed

lemma itimediff_add:
  assumes "d < 2 ^ 31"
  shows "itimediff (b + of_nat d) b = int d"
proof -
  have "unat (of_nat d :: u32) = d"
    using assms by (intro unat_of_nat_u32) simp
  with assms show ?thesis
    using itimediff_offsets [of "b + of_nat d" b b] by (simp del: of_nat_unat)
qed

lemma itimediff_cases:
  "itimediff a b =
     (if unat (a - b) < 2 ^ 31 then int (unat (a - b)) else int (unat (a - b)) - 2 ^ 32)"
proof -
  have zero: "(4294967296 :: u32) = 0"
    by simp
  have "itimediff a b = i32 (int (unat (a - b)))"
    unfolding itimediff_def i32_def by simp
  moreover have "itimediff a b = i32 (int (unat (a - b)) - 2 ^ 32)"
    unfolding itimediff_def i32_def by (simp add: zero)
  moreover have "int (unat (a - b)) < 2 ^ 32"
    using unat_u32_lt [of "a - b"] by (simp del: of_nat_unat)
  ultimately show ?thesis
    by (auto simp: i32_id simp del: of_nat_unat)
qed

lemma itimediff_nonneg_iff: "0 \<le> itimediff a b \<longleftrightarrow> unat (a - b) < 2 ^ 31"
  using unat_u32_lt [of "a - b"] by (auto simp: itimediff_cases simp del: of_nat_unat)

lemma itimediff_neg_iff: "itimediff a b < 0 \<longleftrightarrow> 2 ^ 31 \<le> unat (a - b)"
  using itimediff_nonneg_iff [of a b] by linarith

lemma unat_offset_step:
  fixes s r :: u32
  assumes "k \<le> unat (s - r)"
  shows "unat (s - (r + of_nat k)) = unat (s - r) - k"
proof -
  have "k < 2 ^ 32"
    using assms unat_u32_lt [of "s - r"] by simp
  then have k: "unat (of_nat k :: u32) = k"
    by (rule unat_of_nat_u32)
  have "s - (r + of_nat k) = (s - r) - of_nat k"
    by simp
  also have "unat \<dots> = unat (s - r) - unat (of_nat k :: u32)"
    using assms k by (intro unat_sub) (simp add: word_le_nat_alt)
  finally show ?thesis using k by simp
qed

lemma unat_offset_of_nat:
  "d < 2 ^ 32 \<Longrightarrow> unat ((r + of_nat d :: u32) - r) = d"
  using unat_of_nat_u32 [of d] by simp

lemma offset_eq_iff: "unat (a - r) = unat (b - r) \<longleftrightarrow> a = (b :: u32)"
  by (metis diff_add_cancel unsigned_word_eqI)

text \<open>A run of consecutive numbers, and the base it leads to.\<close>

definition seqs :: "u32 \<Rightarrow> nat \<Rightarrow> u32 list" where
  "seqs r n = map (\<lambda>i. r + of_nat i) [0..<n]"

lemma seqs_0 [simp]: "seqs r 0 = []"
  by (simp add: seqs_def)

lemma seqs_Suc: "seqs r (Suc n) = r # seqs (r + 1) n"
  by (simp add: seqs_def upt_conv_Cons map_Suc_upt [symmetric] add_ac del: upt_Suc)

lemma seqs_snoc: "seqs r (Suc n) = seqs r n @ [r + of_nat n]"
  by (simp add: seqs_def)

lemma length_seqs [simp]: "length (seqs r n) = n"
  by (simp add: seqs_def)

lemma nth_seqs [simp]: "i < n \<Longrightarrow> seqs r n ! i = r + of_nat i"
  by (simp add: seqs_def)

lemma seqs_append: "seqs r (m + n) = seqs r m @ seqs (r + of_nat m) n"
proof (induction n)
  case 0
  show ?case by simp
next
  case (Suc n)
  then show ?case by (simp add: seqs_snoc add_ac)
qed

lemma seqs_take: "m \<le> n \<Longrightarrow> take m (seqs r n) = seqs r m"
  by (simp add: seqs_def take_map)

lemma seqs_drop: "drop m (seqs r n) = seqs (r + of_nat m) (n - m)"
proof (cases "m \<le> n")
  case True
  then have "seqs r n = seqs r m @ seqs (r + of_nat m) (n - m)"
    by (metis le_add_diff_inverse seqs_append)
  then show ?thesis by simp
next
  case False
  then show ?thesis by simp
qed

lemma seqs_offset:
  assumes "n \<le> 2 ^ 32" "s \<in> set (seqs r n)"
  shows "unat (s - r) < n"
  using assms by (auto simp: seqs_def unat_of_nat)

subsection \<open>Queues ordered by serial number\<close>

text \<open>
  \<open>seq_ordered key r q\<close>: read from the base \<open>r\<close>, the keys of \<open>q\<close> are strictly increasing and
  lie within half of the circle.
\<close>

definition seq_ordered :: "('a \<Rightarrow> u32) \<Rightarrow> u32 \<Rightarrow> 'a list \<Rightarrow> bool" where
  "seq_ordered key r q \<longleftrightarrow>
     sorted_wrt (\<lambda>a b. unat (key a - r) < unat (key b - r)) q
     \<and> (\<forall>x \<in> set q. unat (key x - r) < 2 ^ 31)"

lemma seq_ordered_Nil [simp]: "seq_ordered key r []"
  by (simp add: seq_ordered_def)

lemma seq_ordered_append:
  "seq_ordered key r (xs @ ys) \<longleftrightarrow> seq_ordered key r xs \<and> seq_ordered key r ys
     \<and> (\<forall>x \<in> set xs. \<forall>y \<in> set ys. unat (key x - r) < unat (key y - r))"
  by (auto simp: seq_ordered_def sorted_wrt_append)

lemma seq_ordered_Cons:
  "seq_ordered key r (x # xs) \<longleftrightarrow> unat (key x - r) < 2 ^ 31 \<and> seq_ordered key r xs
     \<and> (\<forall>y \<in> set xs. unat (key x - r) < unat (key y - r))"
  by (auto simp: seq_ordered_def)

lemma seq_ordered_drop: "seq_ordered key r q \<Longrightarrow> seq_ordered key r (drop n q)"
  by (metis append_take_drop_id seq_ordered_append)

lemma seq_ordered_take: "seq_ordered key r q \<Longrightarrow> seq_ordered key r (take n q)"
  by (metis append_take_drop_id seq_ordered_append)

lemma seq_ordered_distinct: "seq_ordered key r q \<Longrightarrow> distinct (map key q)"
  by (induction q) (auto simp: seq_ordered_Cons)

text \<open>Moving the base forward, past keys that are no longer in the queue.\<close>

lemma seq_ordered_shift:
  assumes "seq_ordered key r q" "\<forall>x \<in> set q. k \<le> unat (key x - r)"
  shows "seq_ordered key (r + of_nat k) q"
  using assms
proof (induction q)
  case Nil
  show ?case by simp
next
  case (Cons x q)
  have off: "unat (key y - (r + of_nat k)) = unat (key y - r) - k" if "y \<in> set (x # q)" for y
    using Cons.prems(2) that by (intro unat_offset_step) auto
  have "unat (key x - (r + of_nat k)) < unat (key y - (r + of_nat k))" if "y \<in> set q" for y
    using Cons.prems that off [of x] off [of y] by (fastforce simp: seq_ordered_Cons)
  moreover have "unat (key x - (r + of_nat k)) < 2 ^ 31"
    using Cons.prems off [of x] by (auto simp: seq_ordered_Cons)
  moreover have "seq_ordered key (r + of_nat k) q"
    using Cons by (simp add: seq_ordered_Cons)
  ultimately show ?case by (simp add: seq_ordered_Cons)
qed

locale seq_queue =
  fixes key :: "'a \<Rightarrow> u32"
    and scan :: "u32 \<Rightarrow> 'a list \<Rightarrow> nat option"
    and ins :: "nat \<Rightarrow> 'a \<Rightarrow> 'a list \<Rightarrow> 'a list"
  assumes scan_None: "seq_ordered key r q \<Longrightarrow> unat (s - r) < 2 ^ 31 \<Longrightarrow>
      scan s q = None \<Longrightarrow> s \<in> key ` set q"
    and scan_Some: "seq_ordered key r q \<Longrightarrow> unat (s - r) < 2 ^ 31 \<Longrightarrow> scan s q = Some i \<Longrightarrow>
      i \<le> length q
      \<and> (\<forall>x \<in> set (take i q). unat (key x - r) < unat (s - r))
      \<and> (\<forall>x \<in> set (drop i q). unat (s - r) < unat (key x - r))"
    and ins_eq: "i \<le> length q \<Longrightarrow> ins i x q = take i q @ x # drop i q"
begin

lemma scan_fresh:
  assumes "seq_ordered key r q" "unat (s - r) < 2 ^ 31" "scan s q = Some i"
  shows "s \<notin> key ` set q"
proof
  assume "s \<in> key ` set q"
  then obtain x where x: "x \<in> set q" "s = key x" by auto
  have "x \<in> set (take i q) \<or> x \<in> set (drop i q)"
    using x(1) by (metis Un_iff append_take_drop_id set_append)
  with scan_Some [OF assms] x(2) show False by auto
qed

lemma insert_ordered:
  assumes "seq_ordered key r q" "unat (key x - r) < 2 ^ 31" "scan (key x) q = Some i"
  shows "seq_ordered key r (ins i x q)"
proof -
  have i: "i \<le> length q"
    and lo: "\<forall>y \<in> set (take i q). unat (key y - r) < unat (key x - r)"
    and hi: "\<forall>y \<in> set (drop i q). unat (key x - r) < unat (key y - r)"
    using scan_Some [OF assms] by auto
  have "seq_ordered key r (take i q @ drop i q)" using assms(1) by simp
  with lo hi assms(2) show ?thesis
    unfolding ins_eq [OF i] seq_ordered_append seq_ordered_Cons by auto
qed

lemma insert_set:
  assumes "seq_ordered key r q" "unat (s - r) < 2 ^ 31" "scan s q = Some i"
  shows "set (ins i x q) = insert x (set q)"
proof -
  have i: "i \<le> length q" using scan_Some [OF assms] by simp
  have "set q = set (take i q) \<union> set (drop i q)"
    by (metis append_take_drop_id set_append)
  then show ?thesis by (simp add: ins_eq [OF i])
qed

lemma insert_length:
  assumes "seq_ordered key r q" "unat (s - r) < 2 ^ 31" "scan s q = Some i"
  shows "length (ins i x q) = Suc (length q)"
proof -
  have i: "i \<le> length q" using scan_Some [OF assms] by simp
  then show ?thesis by (simp add: ins_eq [OF i])
qed

end

text \<open>
  The scan both components run: from the last element down, stop at an equal key (a
  duplicate, \<^const>\<open>None\<close>) or behind the first smaller one. The second argument counts the
  elements still to look at.
\<close>

fun seq_scan :: "('a \<Rightarrow> u32) \<Rightarrow> u32 \<Rightarrow> 'a list \<Rightarrow> nat \<Rightarrow> nat option" where
  "seq_scan key s q 0 = Some 0"
| "seq_scan key s q (Suc i) =
     (if key (q ! i) = s then None
      else if itimediff s (key (q ! i)) > 0 then Some (Suc i)
      else seq_scan key s q i)"

lemma seq_scan_None:
  "seq_scan key s q n = None \<Longrightarrow> n \<le> length q \<Longrightarrow> s \<in> key ` set q"
  by (induction n) (auto split: if_splits simp: Suc_le_eq intro: rev_image_eqI nth_mem)

lemma seq_scan_Some:
  assumes "seq_ordered key r q" "unat (s - r) < 2 ^ 31"
    "seq_scan key s q n = Some i" "n \<le> length q"
    "\<forall>x \<in> set (drop n q). unat (s - r) < unat (key x - r)"
  shows "i \<le> length q
      \<and> (\<forall>x \<in> set (take i q). unat (key x - r) < unat (s - r))
      \<and> (\<forall>x \<in> set (drop i q). unat (s - r) < unat (key x - r))"
  using assms(3,4,5)
proof (induction n)
  case 0
  then show ?case by simp
next
  case (Suc n)
  have n: "n < length q" using Suc.prems(2) by simp
  then have q: "q = take n q @ q ! n # drop (Suc n) q" by (rule id_take_nth_drop)
  then have ord: "seq_ordered key r (take n q @ q ! n # drop (Suc n) q)"
    using assms(1) by simp
  have off: "unat (key (q ! n) - r) < 2 ^ 31"
    using assms(1) n by (simp add: seq_ordered_def)
  have diff: "itimediff s (key (q ! n)) = int (unat (s - r)) - int (unat (key (q ! n) - r))"
    using assms(2) off by (rule itimediff_offsets)
  show ?case
  proof (cases "key (q ! n) = s")
    case True
    with Suc.prems(1) show ?thesis by simp
  next
    case ne: False
    show ?thesis
    proof (cases "itimediff s (key (q ! n)) > 0")
      case True
      with ne Suc.prems(1) have i: "i = Suc n" by simp
      from True diff have lt: "unat (key (q ! n) - r) < unat (s - r)" by linarith
      have "unat (key x - r) < unat (s - r)" if "x \<in> set (take (Suc n) q)" for x
      proof -
        from that n have "x = q ! n \<or> x \<in> set (take n q)"
          by (simp add: take_Suc_conv_app_nth)
        with lt ord show ?thesis by (auto simp: seq_ordered_append seq_ordered_Cons)
      qed
      with i Suc.prems(2,3) show ?thesis by simp
    next
      case False
      have "unat (key (q ! n) - r) \<noteq> unat (s - r)"
        using ne by (simp add: offset_eq_iff)
      with False diff have "unat (s - r) < unat (key (q ! n) - r)" by linarith
      moreover have "drop n q = q ! n # drop (Suc n) q"
        using n by (simp add: Cons_nth_drop_Suc)
      ultimately have "\<forall>x \<in> set (drop n q). unat (s - r) < unat (key x - r)"
        using Suc.prems(3) by simp
      moreover have "seq_scan key s q n = Some i"
        using Suc.prems(1) ne False by simp
      ultimately show ?thesis using Suc.IH n by simp
    qed
  qed
qed

text \<open>The insertion both components run: append, or append a hole, shift right and store.\<close>

definition seq_insert :: "'a \<Rightarrow> nat \<Rightarrow> 'a \<Rightarrow> 'a list \<Rightarrow> 'a list" where
  "seq_insert hole i x q =
     (if i = length q then q @ [x]
      else let b = q @ [hole];
               b' = take (i + 1) b @ go_copy (drop (i + 1) b) (drop i b)
           in b'[i := x])"

lemma seq_insert_eq: "i \<le> length q \<Longrightarrow> seq_insert hole i x q = take i q @ x # drop i q"
proof -
  assume i: "i \<le> length q"
  show ?thesis
  proof (cases "i = length q")
    case True
    then show ?thesis by (simp add: seq_insert_def)
  next
    case False
    with i have lt: "i < length q" by simp
    have "go_copy (drop (i + 1) (q @ [hole])) (drop i (q @ [hole])) = drop i q"
      using lt by (simp add: go_copy_def)
    moreover have "take (i + 1) (q @ [hole]) = take i q @ [q ! i]"
      using lt by (simp add: take_Suc_conv_app_nth)
    ultimately show ?thesis
      using lt False by (simp add: seq_insert_def Let_def list_update_append)
  qed
qed

end
