(* ===== verification/Snmp.thy ===== *)
theory Snmp
  imports Prelude
begin

section \<open>Statistics counters (snmp.go)\<close>

text \<open>
  The global counter block \<open>DefaultSnmp\<close>: its record, its column names, its snapshot, its
  printed form and its reset, and the part of the environment the protocol code touches
  besides its own state: the counters, the packets handed to the output callback, and the
  number of times the monotonic clock has been read.
\<close>

record Snmp =
  BytesSent :: u64
  BytesReceived :: u64
  MaxConn :: u64
  ActiveOpens :: u64
  PassiveOpens :: u64
  CurrEstab :: u64
  InErrs :: u64
  InCsumErrors :: u64
  KCPInErrors :: u64
  InPkts :: u64
  OutPkts :: u64
  InSegs :: u64
  OutSegs :: u64
  InBytes :: u64
  OutBytes :: u64
  RetransSegs :: u64
  FastRetransSegs :: u64
  EarlyRetransSegs :: u64
  LostSegs :: u64
  RepeatSegs :: u64
  FECRecovered :: u64
  FECErrs :: u64
  FECParityShards :: u64
  FECShortShards :: u64

definition newSnmp :: Snmp where
  "newSnmp =
     \<lparr>BytesSent = 0, BytesReceived = 0, MaxConn = 0, ActiveOpens = 0, PassiveOpens = 0,
     CurrEstab = 0, InErrs = 0, InCsumErrors = 0, KCPInErrors = 0, InPkts = 0, OutPkts = 0,
     InSegs = 0, OutSegs = 0, InBytes = 0, OutBytes = 0, RetransSegs = 0, FastRetransSegs = 0,
     EarlyRetransSegs = 0, LostSegs = 0, RepeatSegs = 0, FECRecovered = 0, FECErrs = 0,
     FECParityShards = 0, FECShortShards = 0\<rparr>"

definition Header :: "string list" where
  "Header =
     [''BytesSent'', ''BytesReceived'', ''MaxConn'', ''ActiveOpens'', ''PassiveOpens'',
     ''CurrEstab'', ''InErrs'', ''InCsumErrors'', ''KCPInErrors'', ''InPkts'', ''OutPkts'',
     ''InSegs'', ''OutSegs'', ''InBytes'', ''OutBytes'', ''RetransSegs'', ''FastRetransSegs'',
     ''EarlyRetransSegs'', ''LostSegs'', ''RepeatSegs'', ''FECParityShards'', ''FECErrs'',
     ''FECRecovered'', ''FECShortShards'']"

definition Copy :: "Snmp \<Rightarrow> Snmp" where
  "Copy s = newSnmp
     \<lparr>BytesSent := BytesSent s, BytesReceived := BytesReceived s, MaxConn := MaxConn s,
     ActiveOpens := ActiveOpens s, PassiveOpens := PassiveOpens s, CurrEstab := CurrEstab s,
     InErrs := InErrs s, InCsumErrors := InCsumErrors s, KCPInErrors := KCPInErrors s, InPkts
     := InPkts s, OutPkts := OutPkts s, InSegs := InSegs s, OutSegs := OutSegs s, InBytes :=
     InBytes s, OutBytes := OutBytes s, RetransSegs := RetransSegs s, FastRetransSegs :=
     FastRetransSegs s, EarlyRetransSegs := EarlyRetransSegs s, LostSegs := LostSegs s,
     RepeatSegs := RepeatSegs s, FECRecovered := FECRecovered s, FECErrs := FECErrs s,
     FECParityShards := FECParityShards s, FECShortShards := FECShortShards s\<rparr>"

text \<open>\<open>fmt.Sprint\<close> of an unsigned integer: its decimal digits.\<close>

fun decimal :: "nat \<Rightarrow> string" where
  "decimal n =
     (if n < 10 then [char_of (48 + n)] else decimal (n div 10) @ [char_of (48 + n mod 10)])"

declare decimal.simps [simp del]

definition ToSlice :: "Snmp \<Rightarrow> string list" where
  "ToSlice s =
     (let snmp = Copy s in
      [decimal (unat (BytesSent snmp)), decimal (unat (BytesReceived snmp)), decimal (unat
      (MaxConn snmp)), decimal (unat (ActiveOpens snmp)), decimal (unat (PassiveOpens snmp)),
      decimal (unat (CurrEstab snmp)), decimal (unat (InErrs snmp)), decimal (unat
      (InCsumErrors snmp)), decimal (unat (KCPInErrors snmp)), decimal (unat (InPkts snmp)),
      decimal (unat (OutPkts snmp)), decimal (unat (InSegs snmp)), decimal (unat (OutSegs
      snmp)), decimal (unat (InBytes snmp)), decimal (unat (OutBytes snmp)), decimal (unat
      (RetransSegs snmp)), decimal (unat (FastRetransSegs snmp)), decimal (unat
      (EarlyRetransSegs snmp)), decimal (unat (LostSegs snmp)), decimal (unat (RepeatSegs
      snmp)), decimal (unat (FECParityShards snmp)), decimal (unat (FECErrs snmp)), decimal
      (unat (FECRecovered snmp)), decimal (unat (FECShortShards snmp))])"

definition Reset :: "Snmp \<Rightarrow> Snmp" where
  "Reset s = s
     \<lparr>BytesSent := 0, BytesReceived := 0, MaxConn := 0, ActiveOpens := 0, PassiveOpens
     := 0, CurrEstab := 0, InErrs := 0, InCsumErrors := 0, KCPInErrors := 0, InPkts := 0,
     OutPkts := 0, InSegs := 0, OutSegs := 0, InBytes := 0, OutBytes := 0, RetransSegs := 0,
     FastRetransSegs := 0, EarlyRetransSegs := 0, LostSegs := 0, RepeatSegs := 0, FECRecovered
     := 0, FECErrs := 0, FECParityShards := 0, FECShortShards := 0\<rparr>"

lemma Copy_id: "Copy s = s"
  by (simp add: Copy_def)

lemma Reset_new: "Reset s = newSnmp"
  by (simp add: Reset_def newSnmp_def)

text \<open>The counter a column name stands for.\<close>

definition snmp_columns :: "(string \<times> (Snmp \<Rightarrow> u64)) list" where
  "snmp_columns =
     [(''BytesSent'', BytesSent), (''BytesReceived'', BytesReceived), (''MaxConn'', MaxConn),
     (''ActiveOpens'', ActiveOpens), (''PassiveOpens'', PassiveOpens), (''CurrEstab'',
     CurrEstab), (''InErrs'', InErrs), (''InCsumErrors'', InCsumErrors), (''KCPInErrors'',
     KCPInErrors), (''InPkts'', InPkts), (''OutPkts'', OutPkts), (''InSegs'', InSegs),
     (''OutSegs'', OutSegs), (''InBytes'', InBytes), (''OutBytes'', OutBytes),
     (''RetransSegs'', RetransSegs), (''FastRetransSegs'', FastRetransSegs),
     (''EarlyRetransSegs'', EarlyRetransSegs), (''LostSegs'', LostSegs), (''RepeatSegs'',
     RepeatSegs), (''FECRecovered'', FECRecovered), (''FECErrs'', FECErrs),
     (''FECParityShards'', FECParityShards), (''FECShortShards'', FECShortShards)]"

subsection \<open>The environment of the protocol code\<close>

text \<open>
  \<open>tick\<close> counts readings of \<open>currentMs\<close>: the clock is a parameter \<open>clk\<close> of every operation
  that reads it, and its \<open>n\<close>-th reading is \<open>clk n\<close>, so that two readings in one operation may
  differ. \<open>outs\<close> lists the packets given to \<open>kcp.output\<close>, without the reserved prefix.
\<close>

record world =
  tick :: nat
  outs :: "bytes list"
  snmp :: Snmp

definition world0 :: world where
  "world0 = \<lparr>tick = 0, outs = [], snmp = newSnmp\<rparr>"

definition currentMs :: "(nat \<Rightarrow> u32) \<Rightarrow> world \<Rightarrow> u32 \<times> world" where
  "currentMs clk w = (clk (tick w), w\<lparr>tick := tick w + 1\<rparr>)"

definition count :: "(Snmp \<Rightarrow> Snmp) \<Rightarrow> world \<Rightarrow> world" where
  "count f w = w\<lparr>snmp := f (snmp w)\<rparr>"

lemma count_sel [simp]: "tick (count f w) = tick w" "outs (count f w) = outs w"
  "snmp (count f w) = f (snmp w)"
  by (simp_all add: count_def)

lemma currentMs_sel [simp]: "outs (snd (currentMs clk w)) = outs w"
  "snmp (snd (currentMs clk w)) = snmp w"
  by (simp_all add: currentMs_def)

end
