(* ===== verification/KcpWire.thy ===== *)
theory KcpWire
  imports Serial Snmp
begin

section \<open>KCP segments on the wire (kcp.go, lines 9 to 122)\<close>

text \<open>
  The protocol constants, the segment structure and its 24-byte little-endian header. A
  slice being filled is a cursor: the bytes written so far and the room left behind it; a
  write past the room is Go's runtime panic, \<^const>\<open>None\<close>. A slice being read is the list of
  its bytes. A \<open>nil\<close> payload is the empty list: the code reads only its length and contents.
\<close>

abbreviation (input) "IKCP_RTO_NDL \<equiv> 30"
abbreviation (input) "IKCP_RTO_MIN \<equiv> 100"
abbreviation (input) "IKCP_RTO_DEF \<equiv> 200"
abbreviation (input) "IKCP_RTO_MAX \<equiv> 60000"
abbreviation (input) "IKCP_CMD_PUSH \<equiv> 81"
abbreviation (input) "IKCP_CMD_ACK \<equiv> 82"
abbreviation (input) "IKCP_CMD_WASK \<equiv> 83"
abbreviation (input) "IKCP_CMD_WINS \<equiv> 84"
abbreviation (input) "IKCP_ASK_SEND \<equiv> 1"
abbreviation (input) "IKCP_ASK_TELL \<equiv> 2"
abbreviation (input) "IKCP_WND_SND \<equiv> 32"
abbreviation (input) "IKCP_WND_RCV \<equiv> 32"
abbreviation (input) "IKCP_MTU_DEF \<equiv> 1400"
abbreviation (input) "IKCP_INTERVAL \<equiv> 100"
abbreviation (input) "IKCP_OVERHEAD \<equiv> 24"
abbreviation (input) "IKCP_DEADLINK \<equiv> 20"
abbreviation (input) "IKCP_THRESH_INIT \<equiv> 2"
abbreviation (input) "IKCP_THRESH_MIN \<equiv> 2"
abbreviation (input) "IKCP_PROBE_INIT \<equiv> 7000"
abbreviation (input) "IKCP_PROBE_LIMIT \<equiv> 120000"
abbreviation (input) "mtuLimit \<equiv> 1500"

type_synonym cursor = "bytes \<times> nat"

definition ikcp_encode8u :: "u8 \<Rightarrow> cursor \<Rightarrow> cursor option" where
  "ikcp_encode8u c p = (if snd p < 1 then None else Some (fst p @ [c], snd p - 1))"

definition ikcp_encode16u :: "u16 \<Rightarrow> cursor \<Rightarrow> cursor option" where
  "ikcp_encode16u w p = (if snd p < 2 then None else Some (fst p @ put_le16 w, snd p - 2))"

definition ikcp_encode32u :: "u32 \<Rightarrow> cursor \<Rightarrow> cursor option" where
  "ikcp_encode32u l p = (if snd p < 4 then None else Some (fst p @ put_le32 l, snd p - 4))"

definition ikcp_decode8u :: "bytes \<Rightarrow> (u8 \<times> bytes) option" where
  "ikcp_decode8u p = (case p of [] \<Rightarrow> None | c # r \<Rightarrow> Some (c, r))"

definition ikcp_decode16u :: "bytes \<Rightarrow> (u16 \<times> bytes) option" where
  "ikcp_decode16u p = map_option (\<lambda>w. (w, drop 2 p)) (get_le16 p)"

definition ikcp_decode32u :: "bytes \<Rightarrow> (u32 \<times> bytes) option" where
  "ikcp_decode32u p = map_option (\<lambda>l. (l, drop 4 p)) (get_le32 p)"

record segment =
  seg_conv :: u32
  seg_cmd :: u8
  seg_frg :: u8
  seg_wnd :: u16
  seg_ts :: u32
  seg_sn :: u32
  seg_una :: u32
  seg_rto :: u32
  seg_xmit :: u32
  seg_resendts :: u32
  seg_fastack :: u32
  seg_acked :: u32
  seg_data :: bytes

definition segment0 :: segment where
  "segment0 = \<lparr>seg_conv = 0, seg_cmd = 0, seg_frg = 0, seg_wnd = 0, seg_ts = 0, seg_sn = 0,
     seg_una = 0, seg_rto = 0, seg_xmit = 0, seg_resendts = 0, seg_fastack = 0, seg_acked = 0,
     seg_data = []\<rparr>"

definition segment_encode :: "segment \<Rightarrow> cursor \<times> world \<Rightarrow> (cursor \<times> world) option" where
  "segment_encode seg = (\<lambda>(ptr, w). do {
     ptr \<leftarrow> ikcp_encode32u (seg_conv seg) ptr;
     ptr \<leftarrow> ikcp_encode8u (seg_cmd seg) ptr;
     ptr \<leftarrow> ikcp_encode8u (seg_frg seg) ptr;
     ptr \<leftarrow> ikcp_encode16u (seg_wnd seg) ptr;
     ptr \<leftarrow> ikcp_encode32u (seg_ts seg) ptr;
     ptr \<leftarrow> ikcp_encode32u (seg_sn seg) ptr;
     ptr \<leftarrow> ikcp_encode32u (seg_una seg) ptr;
     ptr \<leftarrow> ikcp_encode32u (of_nat (length (seg_data seg))) ptr;
     Some (ptr, count (\<lambda>s. s\<lparr>OutSegs := OutSegs s + 1\<rparr>) w)
   })"

text \<open>The header bytes \<open>segment_encode\<close> writes.\<close>

definition header_bytes :: "segment \<Rightarrow> bytes" where
  "header_bytes seg = put_le32 (seg_conv seg) @ [seg_cmd seg] @ [seg_frg seg]
     @ put_le16 (seg_wnd seg) @ put_le32 (seg_ts seg) @ put_le32 (seg_sn seg)
     @ put_le32 (seg_una seg) @ put_le32 (of_nat (length (seg_data seg)))"

definition wire_bytes :: "segment \<Rightarrow> bytes" where
  "wire_bytes seg = header_bytes seg @ seg_data seg"

lemma length_header_bytes [simp, wire_simps]: "length (header_bytes seg) = IKCP_OVERHEAD"
  by (simp add: header_bytes_def)

lemma length_wire_bytes [simp, wire_simps]:
  "length (wire_bytes seg) = IKCP_OVERHEAD + length (seg_data seg)"
  by (simp add: wire_bytes_def)

lemma segment_encode_eq:
  "segment_encode seg (ptr, w) =
     (if snd ptr < IKCP_OVERHEAD then None
      else Some ((fst ptr @ header_bytes seg, snd ptr - IKCP_OVERHEAD),
                 count (\<lambda>s. s\<lparr>OutSegs := OutSegs s + 1\<rparr>) w))"
  by (simp add: segment_encode_def ikcp_encode32u_def ikcp_encode16u_def ikcp_encode8u_def
      header_bytes_def) arith

subsection \<open>Reading fields back\<close>

lemma ikcp_decode8u_Cons [simp]: "ikcp_decode8u (c # r) = Some (c, r)"
  by (simp add: ikcp_decode8u_def)

lemma ikcp_decode16u_put [simp]: "ikcp_decode16u (put_le16 w @ r) = Some (w, r)"
  by (simp add: ikcp_decode16u_def)

lemma ikcp_decode32u_put [simp]: "ikcp_decode32u (put_le32 l @ r) = Some (l, r)"
  by (simp add: ikcp_decode32u_def)

text \<open>
  The interface of a fixed-width field: what a reader of the wire format relies on. A field
  written is read back and the rest of the slice is left, and a slice shorter than the field
  makes both directions panic.
\<close>

locale field_codec =
  fixes width :: nat
    and enc :: "'v \<Rightarrow> cursor \<Rightarrow> cursor option"
    and dec :: "bytes \<Rightarrow> ('v \<times> bytes) option"
    and repr :: "'v \<Rightarrow> bytes"
  assumes enc_room: "width \<le> snd p \<Longrightarrow> enc v p = Some (fst p @ repr v, snd p - width)"
    and enc_panic: "snd p < width \<Longrightarrow> enc v p = None"
    and dec_repr: "dec (repr v @ r) = Some (v, r)"
    and dec_panic: "length b < width \<Longrightarrow> dec b = None"
    and repr_length: "length (repr v) = width"
begin

lemma enc_dec:
  assumes "enc v ([], n) = Some p"
  shows "dec (fst p @ r) = Some (v, r)"
  using assms enc_room [of "([], n)" v] enc_panic [of "([], n)" v]
  by (cases "width \<le> n") (auto simp: dec_repr)

lemma enc_length:
  assumes "enc v p = Some q"
  shows "length (fst q) + snd q = length (fst p) + snd p"
  using assms enc_room [of p v] enc_panic [of p v]
  by (cases "width \<le> snd p") (auto simp: repr_length)

end

interpretation codec8: field_codec 1 ikcp_encode8u ikcp_decode8u "\<lambda>c. [c]"
  by unfold_locales (auto simp: ikcp_encode8u_def ikcp_decode8u_def)

interpretation codec16: field_codec 2 ikcp_encode16u ikcp_decode16u put_le16
  by unfold_locales (auto simp: ikcp_encode16u_def ikcp_decode16u_def get_le16_None)

interpretation codec32: field_codec 4 ikcp_encode32u ikcp_decode32u put_le32
  by unfold_locales (auto simp: ikcp_encode32u_def ikcp_decode32u_def get_le32_None)

end
