(* ===== verification/Fec.thy ===== *)
theory Fec
  imports KcpWire
begin

section \<open>Forward error correction (fec.go)\<close>

text \<open>
  Every \<open>dataShards\<close> packets a session sends form a group to which the encoder adds
  \<open>parityShards\<close> parity packets; the decoder rebuilds the data packets a group lost from
  whatever packets of it arrived. The Reed-Solomon code is a library: \<open>rs_Encode\<close> gives the
  parity shards of equally long data shards, \<open>rs_ReconstructData\<close> the shards with the missing
  (empty) data ones filled in, and \<^const>\<open>None\<close> is an error. \<open>reedsolomon.New\<close> is a parameter of
  the two constructors.
\<close>

record rs_codec =
  rs_Encode :: "bytes list \<Rightarrow> bytes list option"
  rs_ReconstructData :: "bytes list \<Rightarrow> bytes list option"

definition fecHeaderSize :: nat where "fecHeaderSize = 6"
definition typeData :: u16 where "typeData = 0xf1"
definition typeParity :: u16 where "typeParity = 0xf2"

text \<open>
  The fields of a packet \<open>| seqid (4) | type (2) | data |\<close>. The code panics on a packet too
  short for them; \<open>decode\<close> below is only called with packets longer than a header.
\<close>

definition fec_seqid :: "bytes \<Rightarrow> u32" where
  "fec_seqid bts = (case get_le32 bts of Some s \<Rightarrow> s | None \<Rightarrow> 0)"

definition fec_flag :: "bytes \<Rightarrow> u16" where
  "fec_flag bts = (case get_le16 (drop 4 bts) of Some t \<Rightarrow> t | None \<Rightarrow> 0)"

definition fec_data :: "bytes \<Rightarrow> bytes" where
  "fec_data bts = drop 6 bts"

subsection \<open>Encoder\<close>

text \<open>
  \<open>fe_shardCache\<close> holds, for each data shard of the group, its bytes from \<open>payloadOffset\<close> on, the
  only part of the cached slices that is read before it is overwritten.
\<close>

record fec_encoder =
  fe_dataShards :: nat
  fe_parityShards :: nat
  fe_shardSize :: nat
  fe_paws :: u32
  fe_next :: u32
  fe_shardCount :: nat
  fe_maxSize :: nat
  fe_headerOffset :: nat
  fe_payloadOffset :: nat
  fe_shardCache :: "bytes list"
  fe_codec :: rs_codec

definition newFECEncoder :: "(int \<Rightarrow> int \<Rightarrow> rs_codec option) \<Rightarrow> int \<Rightarrow> int \<Rightarrow> nat \<Rightarrow> fec_encoder option" where
  "newFECEncoder New dataShards parityShards offset =
     (if dataShards \<le> 0 \<or> parityShards \<le> 0 then None
      else let shardSize = dataShards + parityShards in
        case New dataShards parityShards of
          None \<Rightarrow> None
        | Some codec \<Rightarrow> Some
            \<lparr>fe_dataShards = nat dataShards, fe_parityShards = nat parityShards, fe_shardSize = nat shardSize,
             fe_paws = (0xffffffff div word_of_int shardSize - 1) * word_of_int shardSize,
             fe_next = 0, fe_shardCount = 0, fe_maxSize = 0, fe_headerOffset = offset,
             fe_payloadOffset = offset + fecHeaderSize,
             fe_shardCache = replicate (nat dataShards) [], fe_codec = codec\<rparr>)"

definition markData :: "bytes \<Rightarrow> fec_encoder \<Rightarrow> bytes \<times> fec_encoder" where
  "markData b enc =
     (let b = put_at 0 (put_le32 (fe_next enc)) b; b = put_at 4 (put_le16 typeData) b
      in (b, enc\<lparr>fe_next := fe_next enc + 1\<rparr>))"

definition markParity :: "bytes \<Rightarrow> fec_encoder \<Rightarrow> bytes \<times> fec_encoder" where
  "markParity b enc =
     (let b = put_at 0 (put_le32 (fe_next enc)) b; b = put_at 4 (put_le16 typeParity) b
      in (b, enc\<lparr>fe_next := (fe_next enc + 1) mod fe_paws enc\<rparr>))"

fun mark_all :: "bytes list \<Rightarrow> fec_encoder \<Rightarrow> bytes list \<times> fec_encoder" where
  "mark_all [] enc = ([], enc)"
| "mark_all (p # ps) enc =
     (let (p, enc) = markParity p enc; (ps, enc) = mark_all ps enc in (p # ps, enc))"

text \<open>\<open>encode\<close> marks and caches the packet, then generates the parity of a full group.\<close>

definition fec_collect :: "bytes \<Rightarrow> fec_encoder \<Rightarrow> bytes \<times> fec_encoder" where
  "fec_collect b enc =
     (let (m, enc) = markData (drop (fe_headerOffset enc) b) enc;
          b = take (fe_headerOffset enc) b @ m;
          po = fe_payloadOffset enc;
          b = put_at po (put_le16 (of_nat (length b - po))) b;
          sz = length b;
          enc = enc\<lparr>fe_shardCache := (fe_shardCache enc)[fe_shardCount enc := drop po b]\<rparr>;
          enc = enc\<lparr>fe_shardCount := fe_shardCount enc + 1\<rparr>
      in (b, if sz > fe_maxSize enc then enc\<lparr>fe_maxSize := sz\<rparr> else enc))"

definition fec_parity :: "fec_encoder \<Rightarrow> bytes list \<times> fec_encoder" where
  "fec_parity enc =
     (let width = fe_maxSize enc - fe_payloadOffset enc;
          cache = map (\<lambda>shard. shard @ replicate (width - length shard) 0) (fe_shardCache enc)
      in case rs_Encode (fe_codec enc) cache of
           Some parity \<Rightarrow> mark_all (map (\<lambda>p. replicate fecHeaderSize 0 @ p) parity) enc
         | None \<Rightarrow> ([], enc))"

text \<open>
  The packet with its header written, the parity packets, and the encoder. A parity packet is
  given from \<open>headerOffset\<close> on: what stands before is left over from earlier packets and
  overwritten by the caller. \<^const>\<open>None\<close> is a panic: the packet has no room for the header, or is
  larger than the buffers.
\<close>

definition fec_encode :: "bytes \<Rightarrow> fec_encoder \<Rightarrow> (bytes \<times> bytes list \<times> fec_encoder) option" where
  "fec_encode b enc =
     (if length b < fe_payloadOffset enc + 2 \<or> mtuLimit < length b
         \<or> fe_shardSize enc \<le> fe_shardCount enc then None
      else
        let (b, enc) = fec_collect b enc
        in if fe_shardCount enc = fe_dataShards enc
           then let (ps, enc) = fec_parity enc
                in Some (b, ps, enc\<lparr>fe_shardCount := 0, fe_maxSize := 0\<rparr>)
           else Some (b, [], enc))"

subsection \<open>Decoder\<close>

record fec_decoder =
  fd_rxlimit :: nat
  fd_dataShards :: nat
  fd_parityShards :: nat
  fd_shardSize :: nat
  fd_rx :: "bytes list"
  fd_codec :: rs_codec

definition newFECDecoder :: "(int \<Rightarrow> int \<Rightarrow> rs_codec option) \<Rightarrow> int \<Rightarrow> int \<Rightarrow> int \<Rightarrow> fec_decoder option" where
  "newFECDecoder New rxlimit dataShards parityShards =
     (if dataShards \<le> 0 \<or> parityShards \<le> 0 then None
      else if rxlimit < dataShards + parityShards then None
      else case New dataShards parityShards of
          None \<Rightarrow> None
        | Some codec \<Rightarrow> Some
            \<lparr>fd_rxlimit = nat rxlimit, fd_dataShards = nat dataShards, fd_parityShards = nat parityShards,
             fd_shardSize = nat (dataShards + parityShards), fd_rx = [], fd_codec = codec\<rparr>)"

text \<open>
  Where a packet is inserted, from the end (\<^const>\<open>None\<close> if it is a duplicate), and the insertion:
  append, or append a hole, shift right and store.
\<close>

definition fec_scan :: "u32 \<Rightarrow> bytes list \<Rightarrow> nat option" where
  "fec_scan sid rx = seq_scan fec_seqid sid rx (length rx)"

definition fec_insert :: "nat \<Rightarrow> bytes \<Rightarrow> bytes list \<Rightarrow> bytes list" where
  "fec_insert = seq_insert []"

text \<open>\<open>freeRange\<close> recycles \<open>q[first..first+n-1]\<close> and closes the gap; an index out of range panics.\<close>

definition freeRange :: "nat \<Rightarrow> nat \<Rightarrow> bytes list \<Rightarrow> bytes list option" where
  "freeRange first n q =
     (if length q < first + n then None
      else if first = 0 \<and> n < length q div 2 then Some (drop n q)
      else let q' = take first q @ go_copy (drop first q) (drop (first + n) q)
           in Some (take (length q - n) q'))"

text \<open>
  The shards of the packet's group found in the queue. A shard is \<^const>\<open>None\<close> while its place in
  \<open>decodeCache\<close> is nil, which is when its \<open>flagCache\<close> entry is false.
\<close>

record assembly =
  as_shards :: "bytes option list"
  as_numshard :: nat
  as_numDataShard :: nat
  as_first :: nat
  as_maxlen :: nat

fun assemble :: "nat \<Rightarrow> u32 \<Rightarrow> u32 \<Rightarrow> bytes list \<Rightarrow> nat list \<Rightarrow> assembly \<Rightarrow> assembly" where
  "assemble shardSize shardBegin shardEnd rx [] st = st"
| "assemble shardSize shardBegin shardEnd rx (i # is) st =
     (let seqid = fec_seqid (rx ! i) in
      if itimediff seqid shardEnd > 0 then st
      else if itimediff seqid shardBegin \<ge> 0 then
        let st = st\<lparr>as_shards := (as_shards st)[unat (seqid mod of_nat shardSize) := Some (fec_data (rx ! i))]\<rparr>;
            st = st\<lparr>as_numshard := as_numshard st + 1\<rparr>;
            st = (if fec_flag (rx ! i) = typeData
                  then st\<lparr>as_numDataShard := as_numDataShard st + 1\<rparr> else st);
            st = (if as_numshard st = 1 then st\<lparr>as_first := i\<rparr> else st);
            st = (if length (fec_data (rx ! i)) > as_maxlen st
                  then st\<lparr>as_maxlen := length (fec_data (rx ! i))\<rparr> else st)
        in assemble shardSize shardBegin shardEnd rx is st
      else assemble shardSize shardBegin shardEnd rx is st)"

definition assembly0 :: "nat \<Rightarrow> assembly" where
  "assembly0 shardSize = \<lparr>as_shards = replicate shardSize None, as_numshard = 0, as_numDataShard = 0,
     as_first = 0, as_maxlen = 0\<rparr>"

text \<open>Recovering the missing data shards: the present ones are padded to the longest.\<close>

definition fec_recover :: "rs_codec \<Rightarrow> nat \<Rightarrow> assembly \<Rightarrow> bytes list" where
  "fec_recover codec dataShards st =
     (let shards = map (\<lambda>s. case s of Some d \<Rightarrow> d @ replicate (as_maxlen st - length d) 0 | None \<Rightarrow> [])
                     (as_shards st)
      in case rs_ReconstructData codec shards of
           Some out \<Rightarrow> map (\<lambda>k. out ! k) (filter (\<lambda>k. as_shards st ! k = None) [0..<dataShards])
         | None \<Rightarrow> [])"

text \<open>The queue is cut to its limit; the flag tells that \<open>FECShortShards\<close> is counted.\<close>

definition keep_rxlimit :: "fec_decoder \<Rightarrow> (fec_decoder \<times> bool) option" where
  "keep_rxlimit dec =
     (if length (fd_rx dec) > fd_rxlimit dec
      then do {
        rx \<leftarrow> freeRange 0 1 (fd_rx dec);
        Some (dec\<lparr>fd_rx := rx\<rparr>, fec_flag (fd_rx dec ! 0) = typeData)
      }
      else Some (dec, False))"

text \<open>
  After an insertion the group of the packet is searched for in the part of the queue it can
  occupy. On \<^typ>\<open>nat\<close> the subtraction gives \<open>searchBegin\<close> its lower bound 0.
\<close>

definition search_range :: "nat \<Rightarrow> u32 \<Rightarrow> nat \<Rightarrow> nat \<Rightarrow> nat \<times> nat" where
  "search_range shardSize seqid insertIdx len =
     (let searchBegin = insertIdx - unat (seqid mod of_nat shardSize);
          searchEnd = searchBegin + shardSize - 1
      in (searchBegin, if searchEnd \<ge> len then len - 1 else searchEnd))"

definition found_shards :: "nat \<Rightarrow> u32 \<Rightarrow> bytes list \<Rightarrow> nat \<Rightarrow> nat \<Rightarrow> assembly" where
  "found_shards shardSize seqid rx searchBegin searchEnd =
     (let shardBegin = seqid - seqid mod of_nat shardSize;
          shardEnd = shardBegin + of_nat shardSize - 1
      in assemble shardSize shardBegin shardEnd rx [searchBegin..<searchEnd + 1] (assembly0 shardSize))"

text \<open>A group is freed when its data packets are all there or can be recovered.\<close>

definition fec_search :: "fec_decoder \<Rightarrow> u32 \<Rightarrow> nat \<Rightarrow> bytes list \<Rightarrow> (bytes list \<times> bytes list) option" where
  "fec_search dec seqid insertIdx rx =
     (let (searchBegin, searchEnd) = search_range (fd_shardSize dec) seqid insertIdx (length rx)
      in if searchEnd - searchBegin + 1 \<ge> fd_dataShards dec
         then let st = found_shards (fd_shardSize dec) seqid rx searchBegin searchEnd
              in if as_numDataShard st = fd_dataShards dec
                 then do {
                   rx \<leftarrow> freeRange (as_first st) (as_numshard st) rx;
                   Some ([], rx)
                 }
                 else if as_numshard st \<ge> fd_dataShards dec
                 then do {
                   rx \<leftarrow> freeRange (as_first st) (as_numshard st) rx;
                   Some (fec_recover (fd_codec dec) (fd_dataShards dec) st, rx)
                 }
                 else Some ([], rx)
         else Some ([], rx))"

text \<open>
  The recovered shards, the decoder, and whether a short shard is counted. \<^const>\<open>None\<close> is a
  panic.
\<close>

definition fec_decode :: "bytes \<Rightarrow> fec_decoder \<Rightarrow> (bytes list \<times> fec_decoder \<times> bool) option" where
  "fec_decode pkt dec =
     (if length pkt < fecHeaderSize \<or> mtuLimit < length pkt then None
      else case fec_scan (fec_seqid pkt) (fd_rx dec) of
        None \<Rightarrow> Some ([], dec, False)
      | Some insertIdx \<Rightarrow> do {
          (recovered, rx) \<leftarrow>
            fec_search dec (fec_seqid pkt) insertIdx (fec_insert insertIdx pkt (fd_rx dec));
          (dec, short) \<leftarrow> keep_rxlimit (dec\<lparr>fd_rx := rx\<rparr>);
          Some (recovered, dec, short)
        })"

text \<open>
  A recovered shard starts with the size the encoder wrote; a shard whose size does not fit is an
  error the session counts. (\<open>kcpInput\<close> in sess.go.)
\<close>

definition recovered_payload :: "bytes \<Rightarrow> bytes option" where
  "recovered_payload r =
     (if length r \<ge> 2 then do {
        sz \<leftarrow> get_le16 r;
        if unat sz \<le> length r \<and> sz \<ge> 2 then Some (drop 2 (take (unat sz) r)) else None
      } else None)"

end
