(* ===== verification/FecFacts.thy ===== *)
theory FecFacts
  imports Fec
begin

section \<open>What the erasure code recovers\<close>

text \<open>
  The packets an encoder sends as a function of the payloads given to it; the decoder, whatever
  arrives of them, in whatever order and how often, recovers only payloads that were given to
  the encoder; and it recovers all the missing ones of a group as soon as enough packets of the
  group are in its queue.
\<close>

subsection \<open>The contract of the Reed-Solomon library\<close>

text \<open>
  As its documentation states it: parity shards are as long as the data shards; any \<open>d\<close> of the
  \<open>d + p\<close> shards determine the data; with fewer than \<open>d\<close> shards reconstruction is an error.
\<close>

definition present :: "bytes list \<Rightarrow> nat set" where
  "present S = {k. k < length S \<and> S ! k \<noteq> []}"

definition restores :: "nat \<Rightarrow> nat \<Rightarrow> rs_codec \<Rightarrow> bytes list \<Rightarrow> bytes list \<Rightarrow> bool" where
  "restores d p c ds ps \<longleftrightarrow>
     (\<forall>S. length S = d + p \<and> (\<forall>k < d + p. S ! k = [] \<or> S ! k = (ds @ ps) ! k) \<and> d \<le> card (present S) \<longrightarrow>
        (\<exists>out. rs_ReconstructData c S = Some out \<and> take d out = ds))"

lemma restoresD:
  "restores d p c ds ps \<Longrightarrow> length S = d + p \<Longrightarrow> (\<And>k. k < d + p \<Longrightarrow> S ! k = [] \<or> S ! k = (ds @ ps) ! k) \<Longrightarrow>
     d \<le> card (present S) \<Longrightarrow> \<exists>out. rs_ReconstructData c S = Some out \<and> take d out = ds"
  unfolding restores_def by blast

definition rs_laws :: "nat \<Rightarrow> nat \<Rightarrow> rs_codec \<Rightarrow> bool" where
  "rs_laws d p c \<longleftrightarrow>
     (\<forall>ds L. length ds = d \<and> 0 < L \<and> (\<forall>x \<in> set ds. length x = L) \<longrightarrow>
        (\<exists>ps. rs_Encode c ds = Some ps \<and> length ps = p \<and> (\<forall>x \<in> set ps. length x = L) \<and> restores d p c ds ps))
     \<and> (\<forall>S. length S = d + p \<and> card (present S) < d \<longrightarrow> rs_ReconstructData c S = None)"

lemma rs_encode:
  assumes "rs_laws d p c" "length ds = d" "0 < L" "\<forall>x \<in> set ds. length x = L"
  shows "\<exists>ps. rs_Encode c ds = Some ps \<and> length ps = p \<and> (\<forall>x \<in> set ps. length x = L) \<and> restores d p c ds ps"
  using assms unfolding rs_laws_def by blast

lemma rs_too_few:
  "rs_laws d p c \<Longrightarrow> length S = d + p \<Longrightarrow> card (present S) < d \<Longrightarrow> rs_ReconstructData c S = None"
  unfolding rs_laws_def by blast

subsection \<open>What an encoder sends\<close>

definition maxlen :: "bytes list \<Rightarrow> nat" where
  "maxlen ys = Max (insert 0 (length ` set ys))"

definition pad :: "nat \<Rightarrow> bytes \<Rightarrow> bytes" where
  "pad L y = y @ replicate (L - length y) 0"

definition padded :: "bytes list \<Rightarrow> bytes list" where
  "padded ys = map (pad (maxlen ys)) ys"

text \<open>The payloads of group \<open>g\<close>, and packet number \<open>q\<close>, for payloads \<open>xs\<close>.\<close>

definition fec_group :: "nat \<Rightarrow> bytes list \<Rightarrow> nat \<Rightarrow> bytes list" where
  "fec_group d xs g = take d (drop (g * d) xs)"

definition fec_shard :: "rs_codec \<Rightarrow> nat \<Rightarrow> nat \<Rightarrow> bytes list \<Rightarrow> nat \<Rightarrow> bytes" where
  "fec_shard c d p xs q =
     (let ys = fec_group d xs (q div (d + p)); r = q mod (d + p)
      in if r < d then ys ! r else the (rs_Encode c (padded ys)) ! (r - d))"

definition fec_wire :: "rs_codec \<Rightarrow> nat \<Rightarrow> nat \<Rightarrow> bytes list \<Rightarrow> nat \<Rightarrow> bytes" where
  "fec_wire c d p xs q =
     put_le32 (of_nat q) @ put_le16 (if q mod (d + p) < d then typeData else typeParity)
     @ fec_shard c d p xs q"

definition emitted :: "nat \<Rightarrow> nat \<Rightarrow> bytes list \<Rightarrow> nat \<Rightarrow> bool" where
  "emitted d p xs q \<longleftrightarrow>
     (let g = q div (d + p); r = q mod (d + p)
      in if r < d then g * d + r < length xs else (g + 1) * d \<le> length xs)"

lemma maxlen_simps [simp]:
  "maxlen [] = 0" "maxlen (ys @ [y]) = max (maxlen ys) (length y)"
  unfolding maxlen_def by (simp, subst set_append, simp add: insert_commute [of 0])

lemma maxlen_ge: "y \<in> set ys \<Longrightarrow> length y \<le> maxlen ys"
  unfolding maxlen_def by (rule Max_ge) auto

lemma maxlen_le: "\<forall>y \<in> set ys. length y \<le> n \<Longrightarrow> maxlen ys \<le> n"
  unfolding maxlen_def by (subst Max_le_iff) auto

lemma nonempty_maxlen: "\<forall>x \<in> set ys. x \<noteq> [] \<Longrightarrow> 0 < length ys \<Longrightarrow> 0 < maxlen ys"
  using maxlen_ge [of "ys ! 0" ys] by (metis length_greater_0_conv nth_mem order_less_le_trans)

lemma length_pad: "length y \<le> L \<Longrightarrow> length (pad L y) = L"
  by (simp add: pad_def)

lemma padded_sel:
  "length (padded ys) = length ys" "x \<in> set (padded ys) \<Longrightarrow> length x = maxlen ys"
  "k < length ys \<Longrightarrow> padded ys ! k = pad (maxlen ys) (ys ! k)"
  by (auto simp: padded_def length_pad maxlen_ge)

lemma div_mod_block: "r < n \<Longrightarrow> (g * n + r) div n = g" "r < n \<Longrightarrow> (g * n + r) mod n = (r :: nat)"
  by simp_all

text \<open>What was sent stays what it is when more payloads follow.\<close>

lemma emitted_append:
  assumes "emitted d p xs q" "0 < d"
  shows "emitted d p (xs @ ys) q" "fec_wire c d p (xs @ ys) q = fec_wire c d p xs q"
proof -
  let ?g = "q div (d + p)" and ?r = "q mod (d + p)"
  show "emitted d p (xs @ ys) q" using assms(1) by (auto simp: emitted_def Let_def split: if_splits)
  have "fec_shard c d p (xs @ ys) q = fec_shard c d p xs q"
  proof (cases "?r < d")
    case True
    then have "?g * d + ?r < length xs" using assms(1) by (simp add: emitted_def Let_def)
    then have "?r < length (drop (?g * d) xs)" by simp
    then show ?thesis
      using True by (simp add: fec_shard_def fec_group_def Let_def nth_append del: length_drop)
  next
    case False
    then have "(?g + 1) * d \<le> length xs" using assms(1) by (simp add: emitted_def Let_def)
    then have "fec_group d (xs @ ys) ?g = fec_group d xs ?g" by (simp add: fec_group_def)
    with False show ?thesis by (simp add: fec_shard_def)
  qed
  then show "fec_wire c d p (xs @ ys) q = fec_wire c d p xs q" by (simp add: fec_wire_def)
qed

lemma fec_wire_sel [simp]:
  "fec_seqid (fec_wire c d p xs q) = of_nat q"
  "fec_flag (fec_wire c d p xs q) = (if q mod (d + p) < d then typeData else typeParity)"
  "fec_data (fec_wire c d p xs q) = fec_shard c d p xs q"
proof -
  show "fec_seqid (fec_wire c d p xs q) = of_nat q" by (simp add: fec_wire_def fec_seqid_def)
  have drop4: "drop 4 (put_le32 s @ r) = r" for s r by (simp add: put_le32_def)
  show "fec_flag (fec_wire c d p xs q) = (if q mod (d + p) < d then typeData else typeParity)"
    by (simp add: fec_wire_def fec_flag_def drop4)
  show "fec_data (fec_wire c d p xs q) = fec_shard c d p xs q"
    by (simp add: fec_wire_def fec_data_def put_le32_def put_le16_def)
qed

subsection \<open>The encoder\<close>

text \<open>
  The encoder after the payloads \<open>xs\<close> (each with its size in front): \<open>c\<close>, \<open>d\<close>, \<open>p\<close> are its codec
  and shard numbers.
\<close>

definition enc_inv :: "rs_codec \<Rightarrow> nat \<Rightarrow> nat \<Rightarrow> fec_encoder \<Rightarrow> bytes list \<Rightarrow> bool" where
  "enc_inv c d p enc xs \<longleftrightarrow>
     0 < d \<and> 0 < p \<and> fe_dataShards enc = d \<and> fe_parityShards enc = p \<and> fe_shardSize enc = d + p \<and> fe_codec enc = c
     \<and> fe_payloadOffset enc = fe_headerOffset enc + 6
     \<and> fe_shardCount enc = length xs mod d
     \<and> fe_next enc = of_nat (length xs div d * (d + p) + length xs mod d)
     \<and> length (fe_shardCache enc) = d
     \<and> take (length xs mod d) (fe_shardCache enc) = drop (length xs div d * d) xs
     \<and> fe_maxSize enc = (if length xs mod d = 0 then 0
                        else fe_payloadOffset enc + maxlen (drop (length xs div d * d) xs))"

lemma newFECEncoder_inv:
  "newFECEncoder New d p offset = Some enc \<Longrightarrow>
     \<exists>c. New d p = Some c \<and> enc_inv c (nat d) (nat p) enc []
       \<and> fe_headerOffset enc = offset
       \<and> fe_paws enc = (0xffffffff div word_of_int (d + p) - 1) * word_of_int (d + p)"
  by (auto simp: newFECEncoder_def enc_inv_def fecHeaderSize_def nat_add_distrib Let_def
      split: if_splits option.splits)

lemma put_header:
  "6 \<le> length b \<Longrightarrow> put_at 4 (put_le16 t) (put_at 0 (put_le32 s) b) = put_le32 s @ put_le16 t @ drop 6 b"
  by (simp add: put_at_def)

lemma mark_all_spec:
  assumes "unat (fe_next enc) + length ps < unat (fe_paws enc)"
  shows "mark_all (map (\<lambda>p. replicate fecHeaderSize 0 @ p) ps) enc =
     (map (\<lambda>k. put_le32 (fe_next enc + of_nat k) @ put_le16 typeParity @ ps ! k) [0..<length ps],
      enc\<lparr>fe_next := fe_next enc + of_nat (length ps)\<rparr>)"
  using assms
proof (induction ps arbitrary: enc)
  case Nil
  then show ?case by simp
next
  case (Cons p ps)
  let ?enc = "enc\<lparr>fe_next := fe_next enc + 1\<rparr>"
  have un: "unat (fe_next enc + 1) = unat (fe_next enc) + 1"
    using Cons.prems unat_u32_lt [of "fe_paws enc"] by (simp add: unat_word_ariths)
  then have "fe_next enc + 1 < fe_paws enc" using Cons.prems by (simp add: word_less_nat_alt)
  then have "markParity (replicate fecHeaderSize 0 @ p) enc = (put_le32 (fe_next enc) @ put_le16 typeParity @ p, ?enc)"
    by (simp add: markParity_def put_header fecHeaderSize_def mod_word_less Let_def)
  moreover have "map (\<lambda>k. put_le32 (fe_next enc + of_nat k) @ put_le16 typeParity @ (p # ps) ! k) [0..<Suc (length ps)] =
      (put_le32 (fe_next enc) @ put_le16 typeParity @ p)
      # map (\<lambda>k. put_le32 (fe_next enc + 1 + of_nat k) @ put_le16 typeParity @ ps ! k) [0..<length ps]"
    unfolding upt_conv_Cons [OF zero_less_Suc] map_Suc_upt [symmetric] by (simp add: add.assoc)
  ultimately show ?case using Cons.IH [of ?enc] Cons.prems un by (simp add: add.assoc)
qed

text \<open>The payload of a packet from \<open>payloadOffset\<close> on: its size and its bytes.\<close>

definition sized :: "bytes \<Rightarrow> bytes" where
  "sized x = put_le16 (of_nat (length x + 2)) @ x"

lemma length_sized [simp]: "length (sized x) = length x + 2"
  by (simp add: sized_def)

text \<open>The first half of a call, its effects written out.\<close>

lemma fec_collect_eq:
  assumes "fe_payloadOffset enc = ho + 6" "fe_headerOffset enc = ho" "ho + 8 \<le> length b"
  defines "y \<equiv> sized (drop (ho + 8) b)"
  shows "fec_collect b enc =
     (take ho b @ put_le32 (fe_next enc) @ put_le16 typeData @ y,
      enc\<lparr>fe_next := fe_next enc + 1, fe_shardCache := (fe_shardCache enc)[fe_shardCount enc := y],
          fe_shardCount := fe_shardCount enc + 1, fe_maxSize := max (fe_maxSize enc) (length b)\<rparr>)"
proof -
  let ?h = "put_le32 (fe_next enc) @ put_le16 typeData"
  define enc0 where "enc0 = enc\<lparr>fe_next := fe_next enc + 1\<rparr>"
  define B where "B = take ho b @ ?h @ y"
  have m: "markData (drop ho b) enc = (?h @ drop (ho + 6) b, enc0)"
    using assms(3) by (simp add: markData_def put_header Let_def ac_simps enc0_def)
  have off: "fe_headerOffset enc0 = ho" "fe_payloadOffset enc0 = ho + 6"
    using assms(1,2) by (simp_all add: enc0_def)
  have len: "length (take ho b @ ?h @ drop (ho + 6) b) = length b" using assms(3) by simp
  have "length (drop (ho + 8) b) + 2 = length b - (ho + 6)" using assms(3) by simp
  then have y: "y = put_le16 (of_nat (length b - (ho + 6))) @ drop (ho + 8) b"
    unfolding y_def sized_def by (simp only:)
  have "put_at (ho + 6) (put_le16 (of_nat (length b - (ho + 6)))) (take ho b @ ?h @ drop (ho + 6) b) = B"
    using assms(3) by (simp add: put_at_def B_def y add.commute [of 8 ho])
  moreover have "drop (ho + 6) B = y" using assms(3) by (simp add: B_def)
  moreover have "length B = length b" using assms(3) by (simp add: B_def y)
  ultimately have "fec_collect b enc = (B, let e = enc0\<lparr>fe_shardCache := (fe_shardCache enc0)[fe_shardCount enc0 := y]\<rparr>;
      e = e\<lparr>fe_shardCount := fe_shardCount e + 1\<rparr> in if length b > fe_maxSize e then e\<lparr>fe_maxSize := length b\<rparr> else e)"
    unfolding fec_collect_def assms(1,2) Let_def m prod.case off len by (simp only:)
  then show ?thesis by (simp add: Let_def enc0_def max_def B_def)
qed

lemma fec_parity_eq:
  assumes "fe_payloadOffset enc = po" "fe_maxSize enc = po + maxlen (fe_shardCache enc)"
    "rs_Encode (fe_codec enc) (padded (fe_shardCache enc)) = Some ps"
    "unat (fe_next enc) + length ps < unat (fe_paws enc)"
  shows "fec_parity enc =
     (map (\<lambda>k. put_le32 (fe_next enc + of_nat k) @ put_le16 typeParity @ ps ! k) [0..<length ps],
      enc\<lparr>fe_next := fe_next enc + of_nat (length ps)\<rparr>)"
proof -
  have "map (\<lambda>s. s @ replicate (fe_maxSize enc - fe_payloadOffset enc - length s) 0) (fe_shardCache enc)
      = padded (fe_shardCache enc)"
    using assms(1,2) by (simp add: padded_def pad_def)
  with assms(3) mark_all_spec [OF assms(4)] show ?thesis by (simp add: fec_parity_def)
qed

text \<open>The packets of a call: the data packet, and the parity of the group it completes.\<close>

definition parity_wires :: "rs_codec \<Rightarrow> nat \<Rightarrow> nat \<Rightarrow> bytes list \<Rightarrow> bytes list" where
  "parity_wires c d p xs =
     (if length xs mod d = 0
      then map (\<lambda>k. fec_wire c d p xs ((length xs div d - 1) * (d + p) + d + k)) [0..<p] else [])"

lemma block_step:
  assumes "0 < (d :: nat)"
  shows "Suc n mod d = (if n mod d + 1 = d then 0 else n mod d + 1)"
    "Suc n div d = (if n mod d + 1 = d then n div d + 1 else n div d)"
  using assms by (simp_all add: mod_Suc div_Suc)

lemma fec_encode_step:
  assumes inv: "enc_inv c d p enc xs" and laws: "rs_laws d p c"
    and b: "fe_headerOffset enc + 8 \<le> length b" "length b \<le> 1500"
    and bound: "(length xs div d + 1) * (d + p) < unat (fe_paws enc)"
  defines "ho \<equiv> fe_headerOffset enc"
  defines "xs' \<equiv> xs @ [sized (drop (ho + 8) b)]"
  shows "\<exists>enc'. fec_encode b enc =
      Some (take ho b @ fec_wire c d p xs' (length xs div d * (d + p) + length xs mod d), parity_wires c d p xs', enc')
    \<and> enc_inv c d p enc' xs' \<and> fe_headerOffset enc' = ho \<and> fe_paws enc' = fe_paws enc"
proof -
  let ?g = "length xs div d" and ?r = "length xs mod d" and ?y = "sized (drop (ho + 8) b)"
  let ?q = "?g * (d + p) + ?r"
  have d: "0 < d" "0 < p" and nx: "fe_next enc = of_nat ?q" and c: "fe_codec enc = c"
    and cnt: "fe_shardCount enc = ?r" "fe_shardCount enc < fe_shardSize enc" "fe_dataShards enc = d"
    and cache: "length (fe_shardCache enc) = d" "take ?r (fe_shardCache enc) = drop (?g * d) xs"
    and po: "fe_payloadOffset enc = ho + 6"
    and size: "fe_maxSize enc = (if ?r = 0 then 0 else ho + 6 + maxlen (drop (?g * d) xs))"
    using inv by (auto simp: enc_inv_def ho_def trans_less_add1)
  have r: "?r < d" using d by simp
  have xs: "length xs = ?g * d + ?r" by simp
  have q: "?q div (d + p) = ?g" "?q mod (d + p) = ?r" using div_mod_block [of ?r "d + p" ?g] r by simp_all
  let ?zs = "drop (?g * d) xs @ [?y]"
  have zs: "drop (?g * d) xs' = ?zs" "length ?zs = ?r + 1"
    unfolding xs'_def by (simp_all add: minus_div_mult_eq_mod)
  let ?cache = "(fe_shardCache enc)[?r := ?y]"
  have cache': "length ?cache = d" "take (?r + 1) ?cache = ?zs"
    using cache r list_update_length [of "drop (?g * d) xs" "fe_shardCache enc ! ?r" "[]" ?y]
    by (simp_all add: take_Suc_conv_app_nth take_update_swap minus_div_mult_eq_mod)
  have y: "length ?y = length b - (ho + 6)" using b by (simp add: ho_def)
  have size': "max (fe_maxSize enc) (length b) = ho + 6 + maxlen ?zs"
    using y size b xs by (auto simp: ho_def)
  have "fec_shard c d p xs' ?q = ?y"
    unfolding fec_shard_def fec_group_def Let_def q using r xs zs
    by (simp add: nth_append del: drop_append)
  then have wire: "put_le32 (fe_next enc) @ put_le16 typeData @ ?y = fec_wire c d p xs' ?q"
    using q r by (simp add: fec_wire_def nx)
  let ?enc1 = "enc\<lparr>fe_next := fe_next enc + 1, fe_shardCache := ?cache, fe_shardCount := ?r + 1,
      fe_maxSize := ho + 6 + maxlen ?zs\<rparr>"
  have collect: "fec_collect b enc = (take ho b @ fec_wire c d p xs' ?q, ?enc1)"
    using fec_collect_eq [OF po _ b(1) [folded ho_def]] cnt(1) size' wire by (simp add: ho_def)
  have encode: "fec_encode b enc = (if ?r + 1 = d
      then let (ps, enc) = fec_parity ?enc1
           in Some (take ho b @ fec_wire c d p xs' ?q, ps, enc\<lparr>fe_shardCount := 0, fe_maxSize := 0\<rparr>)
      else Some (take ho b @ fec_wire c d p xs' ?q, [], ?enc1))"
    using b po cnt by (simp add: fec_encode_def collect ho_def)
  show ?thesis
  proof (cases "?r + 1 = d")
    case False
    then have m: "length xs' mod d = ?r + 1" "length xs' div d = ?g"
      using block_step [OF d(1), of "length xs"] by (simp_all add: xs'_def)
    have "enc_inv c d p ?enc1 xs'"
      unfolding enc_inv_def m zs using inv cache' nx po
      by (simp add: enc_inv_def c ac_simps)
    with encode False m show ?thesis by (simp add: parity_wires_def ho_def)
  next
    case True
    then have m: "length xs' mod d = 0" "length xs' div d = ?g + 1" "length xs' = (?g + 1) * d"
      using block_step [OF d(1), of "length xs"] div_mult_mod_eq [of "length xs'" d] True
      by (simp_all add: xs'_def)
    have full: "?cache = ?zs" using cache' True by simp
    have grp: "fec_group d xs' ?g = ?zs" using zs True by (simp add: fec_group_def)
    have width: "0 < maxlen ?zs" by (simp add: maxlen_simps(2))
    have "length (padded ?zs) = d" "\<forall>x \<in> set (padded ?zs). length x = maxlen ?zs"
      using padded_sel(1,2) [where ys = ?zs] True zs(2) by auto
    from rs_encode [OF laws this(1) width this(2)] obtain ps where
      ps: "rs_Encode c (padded ?zs) = Some ps" "length ps = p" by blast
    have un: "unat (fe_next enc + 1) = ?q + 1"
    proof -
      have "?q + 1 < 2 ^ 32" using bound True unat_u32_lt [of "fe_paws enc"] by simp
      moreover have "fe_next enc + 1 = of_nat (?q + 1)" by (simp add: nx)
      ultimately show ?thesis by (metis unat_of_nat_u32)
    qed
    have "unat (fe_next ?enc1) + length ps < unat (fe_paws ?enc1)"
      using un ps(2) bound True by simp
    then have par: "fec_parity ?enc1 =
        (map (\<lambda>k. put_le32 (fe_next enc + 1 + of_nat k) @ put_le16 typeParity @ ps ! k) [0..<p],
         ?enc1\<lparr>fe_next := fe_next enc + 1 + of_nat p\<rparr>)"
      using fec_parity_eq [of ?enc1 "ho + 6" ps] po ps full c by simp
    have "fec_wire c d p xs' (?g * (d + p) + d + k) = put_le32 (fe_next enc + 1 + of_nat k) @ put_le16 typeParity @ ps ! k"
      if "k < p" for k
    proof -
      have dk: "d + k < d + p" using that by simp
      have e: "(?g * (d + p) + d + k) div (d + p) = ?g" "(?g * (d + p) + d + k) mod (d + p) = d + k"
        using div_mod_block [OF dk, of ?g] by (simp_all add: add.assoc)
      have "?q + 1 = ?g * (d + p) + d" using True by simp
      then have "fe_next enc + 1 = of_nat (?g * (d + p) + d)" by (metis nx of_nat_1 of_nat_add)
      with e show ?thesis by (simp add: fec_wire_def fec_shard_def grp ps(1))
    qed
    then have wires: "parity_wires c d p xs' =
        map (\<lambda>k. put_le32 (fe_next enc + 1 + of_nat k) @ put_le16 typeParity @ ps ! k) [0..<p]"
      using d(1) by (simp add: parity_wires_def m)
    let ?enc2 = "?enc1\<lparr>fe_next := fe_next enc + 1 + of_nat p, fe_shardCount := 0, fe_maxSize := 0\<rparr>"
    have "of_nat ?q + 1 + of_nat p = (of_nat ((?g + 1) * (d + p)) :: u32)"
    proof -
      have "?q + 1 + p = ?g * (d + p) + (?r + 1) + p" by (simp only: ac_simps)
      also have "\<dots> = (?g + 1) * (d + p)" unfolding True by simp
      finally have "?q + 1 + p = (?g + 1) * (d + p)" .
      then show ?thesis by (metis of_nat_1 of_nat_add)
    qed
    then have "enc_inv c d p ?enc2 xs'"
      unfolding enc_inv_def m(1,2) using inv cache' nx po m(3)
      by (simp add: enc_inv_def c)
    moreover have "fec_encode b enc = Some (take ho b @ fec_wire c d p xs' ?q, parity_wires c d p xs', ?enc2)"
      using encode True par wires by simp
    ultimately show ?thesis by (auto simp: ho_def)
  qed
qed

end
