(* ===== verification/FecDecode.thy ===== *)
theory FecDecode
  imports FecFacts
begin

section \<open>The decoder\<close>

text \<open>
  What a decoder recovers from packets of an encoder. Safety holds whatever the order of the
  packets; that every missing payload of a group is recovered once enough of its packets are in
  the queue needs the queue to be ordered, which insertion keeps.
\<close>

interpretation fecq: seq_queue fec_seqid fec_scan fec_insert
proof unfold_locales
  fix r s and q :: "bytes list"
  assume "fec_scan s q = None"
  then show "s \<in> fec_seqid ` set q"
    unfolding fec_scan_def by (rule seq_scan_None) simp
next
  fix r s i and q :: "bytes list"
  assume "seq_ordered fec_seqid r q" "unat (s - r) < 2 ^ 31" "fec_scan s q = Some i"
  then show "i \<le> length q
      \<and> (\<forall>x \<in> set (take i q). unat (fec_seqid x - r) < unat (s - r))
      \<and> (\<forall>x \<in> set (drop i q). unat (s - r) < unat (fec_seqid x - r))"
    unfolding fec_scan_def by (rule seq_scan_Some) simp_all
next
  fix i and x :: bytes and q :: "bytes list"
  assume "i \<le> length q"
  then show "fec_insert i x q = take i q @ x # drop i q"
    by (simp add: fec_insert_def seq_insert_eq)
qed

lemma fec_scan_le: "fec_scan s q = Some i \<Longrightarrow> i \<le> length q"
proof -
  have "seq_scan fec_seqid s q n = Some i \<Longrightarrow> i \<le> n" for n
    by (induction n) (auto split: if_splits)
  then show "fec_scan s q = Some i \<Longrightarrow> i \<le> length q" by (simp add: fec_scan_def)
qed

lemma freeRange_eq: "first + n \<le> length q \<Longrightarrow> freeRange first n q = Some (take first q @ drop (first + n) q)"
  by (auto simp: freeRange_def go_copy_def Let_def)

subsection \<open>Assembling a group\<close>

fun hits :: "u32 \<Rightarrow> u32 \<Rightarrow> bytes list \<Rightarrow> nat list \<Rightarrow> nat list" where
  "hits sb se rx [] = []"
| "hits sb se rx (i # is) =
     (if itimediff (fec_seqid (rx ! i)) se > 0 then []
      else if itimediff (fec_seqid (rx ! i)) sb \<ge> 0 then i # hits sb se rx is
      else hits sb se rx is)"

definition slot :: "nat \<Rightarrow> bytes \<Rightarrow> nat" where
  "slot sz pkt = unat (fec_seqid pkt mod of_nat sz)"

lemma hits_in:
  "i \<in> set (hits sb se rx is) \<Longrightarrow> i \<in> set is \<and> \<not> itimediff (fec_seqid (rx ! i)) se > 0
     \<and> itimediff (fec_seqid (rx ! i)) sb \<ge> 0"
  by (induction "is") (auto split: if_splits)

definition add_hit :: "nat \<Rightarrow> bytes list \<Rightarrow> nat \<Rightarrow> assembly \<Rightarrow> assembly" where
  "add_hit sz rx i st =
     \<lparr>as_shards = (as_shards st)[slot sz (rx ! i) := Some (fec_data (rx ! i))],
      as_numshard = as_numshard st + 1,
      as_numDataShard = as_numDataShard st + (if fec_flag (rx ! i) = typeData then 1 else 0),
      as_first = (if as_numshard st = 0 then i else as_first st),
      as_maxlen = max (as_maxlen st) (length (fec_data (rx ! i)))\<rparr>"

lemma add_hit_shards [simp]:
  "as_shards (add_hit sz rx i st) = (as_shards st)[slot sz (rx ! i) := Some (fec_data (rx ! i))]"
  by (simp add: add_hit_def)

lemma assemble_hits: "assemble sz sb se rx is st = foldl (\<lambda>st i. add_hit sz rx i st) st (hits sb se rx is)"
proof (induction "is" arbitrary: st)
  case Nil
  then show ?case by simp
next
  case (Cons i "is")
  have "assemble sz sb se rx (i # is) st =
      (if itimediff (fec_seqid (rx ! i)) se > 0 then st
       else if itimediff (fec_seqid (rx ! i)) sb \<ge> 0 then assemble sz sb se rx is (add_hit sz rx i st)
       else assemble sz sb se rx is st)"
    by (cases st) (auto simp: Let_def slot_def add_hit_def max_def)
  with Cons show ?case by simp
qed

lemma foldl_hits:
  "as_numshard (foldl (\<lambda>st i. add_hit sz rx i st) st H) = as_numshard st + length H"
  "as_numDataShard (foldl (\<lambda>st i. add_hit sz rx i st) st H) =
     as_numDataShard st + length (filter (\<lambda>i. fec_flag (rx ! i) = typeData) H)"
  "as_first (foldl (\<lambda>st i. add_hit sz rx i st) st H) =
     (if as_numshard st = 0 \<and> H \<noteq> [] then hd H else as_first st)"
  "as_maxlen (foldl (\<lambda>st i. add_hit sz rx i st) st H) =
     Max (insert (as_maxlen st) ((\<lambda>i. length (fec_data (rx ! i))) ` set H))"
  "length (as_shards (foldl (\<lambda>st i. add_hit sz rx i st) st H)) = length (as_shards st)"
proof (induction H arbitrary: st)
  case (Cons i H)
  { case 1 show ?case using Cons by (simp add: add_hit_def) }
  { case 2 show ?case using Cons by (simp add: add_hit_def) }
  { case 3 show ?case using Cons by (simp add: add_hit_def) }
  { case 4 show ?case
      using Cons by (cases "H = []") (simp_all add: add_hit_def insert_commute max.assoc) }
  { case 5 show ?case using Cons by (simp add: add_hit_def) }
qed simp_all

text \<open>A filled place holds a hit with that place; every hit fills its place.\<close>

lemma nth_update_at: "k < length xs \<Longrightarrow> xs[i := x] ! k = (if i = k then x else xs ! k)"
  by simp

lemma foldl_shards_Some:
  "as_shards (foldl (\<lambda>st i. add_hit sz rx i st) st H) ! k = Some x \<Longrightarrow> k < length (as_shards st) \<Longrightarrow>
     as_shards st ! k = Some x \<or> (\<exists>i \<in> set H. slot sz (rx ! i) = k \<and> x = fec_data (rx ! i))"
  by (induction H rule: rev_induct)
    (auto simp: nth_update_at foldl_hits(5) split: if_split_asm)

lemma foldl_shards_None:
  "k < length (as_shards st) \<Longrightarrow>
     as_shards (foldl (\<lambda>st i. add_hit sz rx i st) st H) ! k = None \<longleftrightarrow>
       as_shards st ! k = None \<and> (\<forall>i \<in> set H. slot sz (rx ! i) \<noteq> k)"
  by (induction H rule: rev_induct) (auto simp: nth_update_at foldl_hits(5))

subsection \<open>Sequence numbers of a group\<close>

lemma group_start:
  assumes "q < 2 ^ 32" "sz < 2 ^ 32" "0 < sz"
  shows "(of_nat q :: u32) mod of_nat sz = of_nat (q mod sz)"
    "(of_nat q :: u32) - of_nat q mod of_nat sz = of_nat (q div sz * sz)"
    "unat ((of_nat q :: u32) mod of_nat sz) = q mod sz"
proof -
  show u: "unat ((of_nat q :: u32) mod of_nat sz) = q mod sz"
    using assms by (simp add: unat_mod_distrib unat_of_nat_u32)
  then show m: "(of_nat q :: u32) mod of_nat sz = of_nat (q mod sz)"
    using assms unat_of_nat_u32 [of "q mod sz"] less_trans [of "q mod sz" sz "2 ^ 32"]
    by (simp add: word_unat_eq_iff)
  have "(of_nat q :: u32) - of_nat (q mod sz) = of_nat (q - q mod sz)" by (simp add: of_nat_diff)
  then show "(of_nat q :: u32) - of_nat q mod of_nat sz = of_nat (q div sz * sz)"
    by (simp add: m minus_mod_eq_div_mult)
qed

text \<open>The two comparisons of the loop select the packets of the group.\<close>

lemma in_range_iff:
  assumes "0 < sz" "sz \<le> 2 ^ 31"
  shows "\<not> itimediff x (b + of_nat sz - 1) > 0 \<and> itimediff x b \<ge> 0 \<longleftrightarrow> unat (x - b) < sz"
proof -
  have e: "unat (b + of_nat sz - 1 - b) = sz - 1"
  proof -
    have "(of_nat sz :: u32) = of_nat (sz - 1) + 1" using assms(1) by (cases sz) simp_all
    then have "b + of_nat sz - 1 - b = (of_nat (sz - 1) :: u32)" by simp
    moreover have "unat (of_nat (sz - 1) :: u32) = sz - 1" using assms by (intro unat_of_nat_u32) simp
    ultimately show ?thesis by metis
  qed
  have "itimediff x b \<ge> 0 \<longleftrightarrow> unat (x - b) < 2 ^ 31" by (rule itimediff_nonneg_iff)
  moreover have "itimediff x (b + of_nat sz - 1) = int (unat (x - b)) - int (sz - 1)" if "unat (x - b) < 2 ^ 31"
    using itimediff_offsets [OF that, of "b + of_nat sz - 1"] e assms by (simp del: of_nat_unat)
  ultimately show ?thesis using assms by (auto simp del: of_nat_unat)
qed

lemma in_group_iff:
  assumes "q < 2 ^ 32" "g * sz + sz \<le> 2 ^ 32" "0 < sz"
  shows "unat ((of_nat q :: u32) - of_nat (g * sz)) < sz \<longleftrightarrow> q div sz = g"
proof (cases "g * sz \<le> q")
  case True
  then have "(of_nat q :: u32) - of_nat (g * sz) = of_nat (q - g * sz)" by (simp add: of_nat_diff)
  then have "unat ((of_nat q :: u32) - of_nat (g * sz)) = q - g * sz"
    using assms(1) unat_of_nat_u32 [of "q - g * sz"] by simp
  moreover obtain r where r: "q = g * sz + r" using True le_Suc_ex by blast
  have "q div sz = g + r div sz" using assms(3) by (simp add: r)
  then have "q - g * sz < sz \<longleftrightarrow> q div sz = g" using assms(3) r by (simp add: div_eq_0_iff)
  ultimately show ?thesis by simp
next
  case False
  then have "(of_nat q :: u32) - of_nat (g * sz) = of_nat (2 ^ 32 + q - g * sz)"
    using assms by (simp add: of_nat_diff)
  moreover have "2 ^ 32 + q - g * sz < 2 ^ 32" using False by simp
  ultimately have "unat ((of_nat q :: u32) - of_nat (g * sz)) = 2 ^ 32 + q - g * sz"
    using unat_of_nat_u32 by metis
  moreover have "q div sz \<noteq> g" using False assms(3) by (metis div_times_less_eq_dividend)
  ultimately show ?thesis using assms(2) by simp
qed

subsection \<open>Shards of a group\<close>

definition sent_by :: "rs_codec \<Rightarrow> nat \<Rightarrow> nat \<Rightarrow> bytes list \<Rightarrow> bytes \<Rightarrow> bool" where
  "sent_by c d p xs pkt \<longleftrightarrow> (\<exists>q. emitted d p xs q \<and> pkt = fec_wire c d p xs q)"

text \<open>Codec, shard numbers and payloads that go together, within one cycle of the numbers.\<close>

definition fec_setting :: "rs_codec \<Rightarrow> nat \<Rightarrow> nat \<Rightarrow> bytes list \<Rightarrow> bool" where
  "fec_setting c d p xs \<longleftrightarrow> 0 < d \<and> 0 < p \<and> d + p \<le> 2 ^ 31 \<and> rs_laws d p c
     \<and> (\<forall>x \<in> set xs. x \<noteq> []) \<and> (length xs div d + 1) * (d + p) \<le> 2 ^ 32"

lemma emitted_lt:
  assumes "emitted d p xs q" "fec_setting c d p xs"
  shows "q div (d + p) * (d + p) + (d + p) \<le> 2 ^ 32" "q < 2 ^ 32"
proof -
  have d: "0 < d" and b: "(length xs div d + 1) * (d + p) \<le> 2 ^ 32" using assms(2) by (simp_all add: fec_setting_def)
  have "q div (d + p) * d \<le> length xs"
    using assms(1) by (auto simp: emitted_def Let_def split: if_splits)
  then have "q div (d + p) \<le> length xs div d" using d by (simp add: less_eq_div_iff_mult_less_eq)
  then have "(q div (d + p) + 1) * (d + p) \<le> (length xs div d + 1) * (d + p)" by (intro mult_le_mono1) simp
  then have "(q div (d + p) + 1) * (d + p) \<le> 2 ^ 32" using b by (rule order_trans)
  then show le: "q div (d + p) * (d + p) + (d + p) \<le> 2 ^ 32" by (simp only: add_mult_distrib nat_mult_1)
  have "q < q div (d + p) * (d + p) + (d + p)" using d dividend_less_div_times [of "d + p" q] by simp
  with le show "q < 2 ^ 32" by simp
qed

lemma shard_length:
  assumes "emitted d p xs q" "fec_setting c d p xs"
  defines "ys \<equiv> fec_group d xs (q div (d + p))"
  shows "length (fec_shard c d p xs q) \<le> maxlen ys"
    "d \<le> q mod (d + p) \<Longrightarrow> length ys = d \<and> length (fec_shard c d p xs q) = maxlen ys"
proof -
  let ?g = "q div (d + p)" and ?r = "q mod (d + p)"
  have s: "0 < d" "rs_laws d p c" "\<forall>x \<in> set xs. x \<noteq> []" using assms(2) by (simp_all add: fec_setting_def)
  have r: "?r < d + p" using s(1) by simp
  have full: "length ys = d \<and> length (fec_shard c d p xs q) = maxlen ys" if "d \<le> ?r"
  proof -
    have "(?g + 1) * d \<le> length xs" using that assms(1) by (simp add: emitted_def Let_def)
    then have len: "length ys = d" by (simp add: ys_def fec_group_def)
    moreover have "set ys \<subseteq> set xs" by (auto simp: ys_def fec_group_def dest: in_set_takeD in_set_dropD)
    ultimately have "0 < maxlen ys" using s by (intro nonempty_maxlen) auto
    from rs_encode [OF s(2) _ this, of "padded ys"] obtain ps where
      "rs_Encode c (padded ys) = Some ps" "length ps = p" "\<forall>x \<in> set ps. length x = maxlen ys"
      using len padded_sel [where ys = ys] by auto
    then show ?thesis using that r len by (auto simp: fec_shard_def Let_def ys_def [symmetric])
  qed
  then show "d \<le> ?r \<Longrightarrow> length ys = d \<and> length (fec_shard c d p xs q) = maxlen ys" .
  show "length (fec_shard c d p xs q) \<le> maxlen ys"
  proof (cases "?r < d")
    case True
    then have "?r < length ys" using assms(1) by (auto simp: emitted_def Let_def ys_def fec_group_def)
    then show ?thesis using True by (simp add: fec_shard_def Let_def ys_def [symmetric] maxlen_ge)
  next
    case False
    then show ?thesis using full by simp
  qed
qed

text \<open>
  What the cache of shards holds when a decoder looks for group \<open>g\<close>: true shards, and the longest
  of them.
\<close>

definition true_shards :: "rs_codec \<Rightarrow> nat \<Rightarrow> nat \<Rightarrow> bytes list \<Rightarrow> nat \<Rightarrow> assembly \<Rightarrow> bool" where
  "true_shards c d p xs g st \<longleftrightarrow> length (as_shards st) = d + p
     \<and> (\<forall>k < d + p. \<forall>x. as_shards st ! k = Some x \<longrightarrow>
          emitted d p xs (g * (d + p) + k) \<and> x = fec_shard c d p xs (g * (d + p) + k) \<and> length x \<le> as_maxlen st)
     \<and> as_maxlen st \<le> maxlen (fec_group d xs g)"

lemma slot_wire:
  assumes "emitted d p xs q" "fec_setting c d p xs"
  shows "slot (d + p) (fec_wire c d p xs q) = q mod (d + p)"
  using group_start(3) [of q "d + p"] emitted_lt [OF assms] assms(2) by (simp add: slot_def fec_setting_def)

lemma hits_wire:
  assumes "\<forall>x \<in> set rx. sent_by c d p xs x" "fec_setting c d p xs" "\<forall>i \<in> set is. i < length rx"
    "g * (d + p) + (d + p) \<le> 2 ^ 32"
    "i \<in> set (hits (of_nat (g * (d + p))) (of_nat (g * (d + p)) + of_nat (d + p) - 1) rx is)"
  shows "\<exists>k < d + p. emitted d p xs (g * (d + p) + k) \<and> rx ! i = fec_wire c d p xs (g * (d + p) + k)
     \<and> slot (d + p) (rx ! i) = k"
proof -
  let ?sz = "d + p"
  have sz: "0 < ?sz" "?sz \<le> 2 ^ 31" using assms(2) by (simp_all add: fec_setting_def)
  note h = hits_in [OF assms(5)]
  then have "rx ! i \<in> set rx" using assms(3) by simp
  then obtain q where q: "emitted d p xs q" "rx ! i = fec_wire c d p xs q"
    using assms(1) by (auto simp: sent_by_def)
  have "unat ((of_nat q :: u32) - of_nat (g * ?sz)) < ?sz"
    using h q(2) in_range_iff [OF sz, of "of_nat q" "of_nat (g * ?sz)"] by simp
  then have "q div ?sz = g" using in_group_iff [OF emitted_lt(2) [OF q(1) assms(2)] assms(4) sz(1)] by simp
  then have "q = g * ?sz + q mod ?sz" by (metis div_mult_mod_eq)
  then show ?thesis using q slot_wire [OF q(1) assms(2)] sz(1)
    by (intro exI [of _ "q mod ?sz"]) simp
qed

lemma assemble_true:
  assumes "\<forall>x \<in> set rx. sent_by c d p xs x" "fec_setting c d p xs" "\<forall>i \<in> set is. i < length rx"
    "g * (d + p) + (d + p) \<le> 2 ^ 32"
  shows "true_shards c d p xs g
     (assemble (d + p) (of_nat (g * (d + p))) (of_nat (g * (d + p)) + of_nat (d + p) - 1) rx is (assembly0 (d + p)))"
proof -
  let ?sz = "d + p" and ?b = "of_nat (g * (d + p)) :: u32"
  let ?H = "hits ?b (?b + of_nat ?sz - 1) rx is"
  let ?st = "foldl (\<lambda>st i. add_hit ?sz rx i st) (assembly0 ?sz) ?H"
  note w = hits_wire [OF assms]
  have len: "length (as_shards ?st) = ?sz" by (simp add: foldl_hits(5) assembly0_def)
  have max: "as_maxlen ?st = Max (insert 0 ((\<lambda>i. length (fec_data (rx ! i))) ` set ?H))"
    by (simp add: foldl_hits(4) assembly0_def)
  have "length (fec_data (rx ! i)) \<le> maxlen (fec_group d xs g)" if "i \<in> set ?H" for i
  proof -
    from w [OF that] obtain k where
      "k < d + p" "emitted d p xs (g * ?sz + k)" "rx ! i = fec_wire c d p xs (g * ?sz + k)" by blast
    with shard_length(1) [OF this(2) assms(2)] div_mod_block(1) [of k "d + p" g] show ?thesis by simp
  qed
  then have "as_maxlen ?st \<le> maxlen (fec_group d xs g)" unfolding max by (subst Max_le_iff) blast+
  moreover have "emitted d p xs (g * ?sz + k) \<and> x = fec_shard c d p xs (g * ?sz + k) \<and> length x \<le> as_maxlen ?st"
    if "k < ?sz" "as_shards ?st ! k = Some x" for k x
  proof -
    have "as_shards (assembly0 ?sz) ! k = None" using that(1) by (simp add: assembly0_def)
    with foldl_shards_Some [OF that(2)] that(1) obtain i where
      i: "i \<in> set ?H" "slot ?sz (rx ! i) = k" "x = fec_data (rx ! i)" by (auto simp: assembly0_def)
    have "length x \<le> as_maxlen ?st" unfolding max i(3) using i(1) by (intro Max_ge) auto
    with w [OF i(1)] i(2,3) show ?thesis by auto
  qed
  ultimately show ?thesis unfolding true_shards_def assemble_hits using len by blast
qed

text \<open>Reconstruction from true shards yields true payloads, padded.\<close>

definition shard_list :: "assembly \<Rightarrow> bytes list" where
  "shard_list st = map (\<lambda>s. case s of Some d \<Rightarrow> d @ replicate (as_maxlen st - length d) 0 | None \<Rightarrow> []) (as_shards st)"

lemma fec_recover_eq:
  "fec_recover c d st = (case rs_ReconstructData c (shard_list st) of
     Some out \<Rightarrow> map (\<lambda>k. out ! k) (filter (\<lambda>k. as_shards st ! k = None) [0..<d]) | None \<Rightarrow> [])"
  by (simp add: fec_recover_def shard_list_def)

lemma restore_true:
  assumes "true_shards c d p xs g st" "fec_setting c d p xs" "j < d + p" "d \<le> j" "as_shards st ! j = Some x"
  defines "ys \<equiv> fec_group d xs g"
  shows "length ys = d" "present (shard_list st) = {k. k < d + p \<and> as_shards st ! k \<noteq> None}"
    "d \<le> card (present (shard_list st)) \<Longrightarrow>
       \<exists>out. rs_ReconstructData c (shard_list st) = Some out \<and> take d out = padded ys"
proof -
  let ?sz = "d + p"
  have s: "0 < d" "0 < p" "rs_laws d p c" "\<forall>x \<in> set xs. x \<noteq> []" using assms(2) by (simp_all add: fec_setting_def)
  have len: "length (as_shards st) = ?sz" "length (shard_list st) = ?sz"
    using assms(1) by (simp_all add: true_shards_def shard_list_def)
  have tx: "emitted d p xs (g * ?sz + j)" "x = fec_shard c d p xs (g * ?sz + j)" "length x \<le> as_maxlen st"
    using assms(1,3,5) by (auto simp: true_shards_def)
  have "length ys = d \<and> length x = maxlen ys"
    using shard_length(2) [OF tx(1) assms(2)] assms(3,4) tx(2) by (simp add: ys_def)
  then have ys: "length ys = d" and w: "as_maxlen st = maxlen ys"
    using assms(1) tx(3) by (auto simp: true_shards_def ys_def)
  show "length ys = d" by (rule ys)
  have "set ys \<subseteq> set xs" by (auto simp: ys_def fec_group_def dest: in_set_takeD in_set_dropD)
  then have pos: "0 < maxlen ys" using s ys by (intro nonempty_maxlen) auto
  have long: "length y \<le> maxlen ys" if "as_shards st ! m = Some y" "m < ?sz" for m y
    using assms(1) that w by (auto simp: true_shards_def)
  have sh: "shard_list st ! m = (case as_shards st ! m of None \<Rightarrow> [] | Some y \<Rightarrow> pad (maxlen ys) y)"
    if "m < ?sz" for m
    using that len w by (simp add: shard_list_def pad_def split: option.splits)
  have "shard_list st ! m \<noteq> [] \<longleftrightarrow> as_shards st ! m \<noteq> None" if m: "m < ?sz" for m
  proof (cases "as_shards st ! m")
    case None
    then show ?thesis using sh [OF m] by simp
  next
    case (Some y)
    then have "length (shard_list st ! m) = maxlen ys" using sh [OF m] long [OF _ m] by (simp add: length_pad)
    then show ?thesis using Some pos by auto
  qed
  then show "present (shard_list st) = {k. k < d + p \<and> as_shards st ! k \<noteq> None}"
    using len by (auto simp: present_def)
  assume many: "d \<le> card (present (shard_list st))"
  from rs_encode [OF s(3) _ pos, of "padded ys"] obtain ps where
    ps: "rs_Encode c (padded ys) = Some ps" "length ps = p" "\<forall>x \<in> set ps. length x = maxlen ys"
    "restores d p c (padded ys) ps"
    using ys padded_sel [where ys = ys] by auto
  have "shard_list st ! m = [] \<or> shard_list st ! m = (padded ys @ ps) ! m" if m: "m < ?sz" for m
  proof (cases "as_shards st ! m")
    case None
    then show ?thesis using sh [OF m] by simp
  next
    case (Some y)
    then have "y = fec_shard c d p xs (g * ?sz + m)" "length y \<le> maxlen ys"
      using assms(1) m long by (auto simp: true_shards_def)
    then have "pad (maxlen ys) y = (padded ys @ ps) ! m"
      using m ys ps padded_sel [where ys = ys]
      by (cases "m < d") (simp_all add: fec_shard_def nth_append pad_def ys_def [symmetric])
    then show ?thesis using Some sh [OF m] by simp
  qed
  from restoresD [OF ps(4) len(2) this many]
  show "\<exists>out. rs_ReconstructData c (shard_list st) = Some out \<and> take d out = padded ys" .
qed

text \<open>
  If a data shard is missing and there are \<open>d\<close> shards, a parity shard is among them: so padding
  to the longest present shard is padding to the longest of the group.
\<close>

lemma parity_present:
  assumes "d \<le> card A" "A \<subseteq> {..<d + p}" "k < d" "k \<notin> A"
  shows "\<exists>j \<in> A. d \<le> (j :: nat)"
proof (rule ccontr)
  assume "\<not> ?thesis"
  then have "A \<subseteq> {..<d} - {k}" using assms(4) by auto
  then have "card A \<le> card ({..<d} - {k})" by (intro card_mono) auto
  with assms(1,3) show False by simp
qed

lemma recover_true:
  assumes "true_shards c d p xs g st" "fec_setting c d p xs" "r \<in> set (fec_recover c d st)"
  shows "\<exists>k < d. as_shards st ! k = None \<and> length (fec_group d xs g) = d
     \<and> r = pad (maxlen (fec_group d xs g)) (fec_group d xs g ! k)"
proof -
  let ?ys = "fec_group d xs g" and ?sz = "d + p"
  have s: "rs_laws d p c" using assms(2) by (simp add: fec_setting_def)
  have len: "length (as_shards st) = ?sz" "length (shard_list st) = ?sz"
    using assms(1) by (simp_all add: true_shards_def shard_list_def)
  obtain out where out: "rs_ReconstructData c (shard_list st) = Some out"
    using assms(3) by (cases "rs_ReconstructData c (shard_list st)") (simp_all add: fec_recover_eq)
  then obtain k where k: "k < d" "as_shards st ! k = None" "r = out ! k"
    using assms(3) by (auto simp: fec_recover_eq)
  have many: "d \<le> card (present (shard_list st))"
    using rs_too_few [OF s len(2)] out by (cases "card (present (shard_list st)) < d") auto
  have sub: "present (shard_list st) \<subseteq> {..<?sz}" "k \<notin> present (shard_list st)"
    using len k by (auto simp: present_def shard_list_def)
  obtain j where j: "j \<in> present (shard_list st)" "d \<le> j" using parity_present [OF many sub(1) k(1) sub(2)] by blast
  then have "j < ?sz" "as_shards st ! j \<noteq> None" using len
    by (auto simp: present_def shard_list_def split: option.splits)
  then obtain x where "j < ?sz" "as_shards st ! j = Some x" by auto
  note re = restore_true [OF assms(1,2) this(1) j(2) this(2)]
  have "take d out = padded ?ys" using re(3) [OF many] out by simp
  then have "out ! k = padded ?ys ! k" using k(1) by (metis nth_take)
  then show ?thesis using k re(1) padded_sel(3) [of k ?ys] by auto
qed

text \<open>With at least \<open>d\<close> shards the missing payloads are recovered, all of them, in order.\<close>

lemma recover_exact:
  assumes "true_shards c d p xs g st" "fec_setting c d p xs"
    "d \<le> card {k. k < d + p \<and> as_shards st ! k \<noteq> None}"
  shows "fec_recover c d st = map (\<lambda>k. pad (maxlen (fec_group d xs g)) (fec_group d xs g ! k))
     (filter (\<lambda>k. as_shards st ! k = None) [0..<d])"
proof (cases "\<exists>k < d. as_shards st ! k = None")
  case False
  then have "filter (\<lambda>k. as_shards st ! k = None) [0..<d] = []" by (auto simp: filter_empty_conv)
  then show ?thesis by (simp add: fec_recover_eq split: option.splits)
next
  case True
  let ?ys = "fec_group d xs g" and ?A = "{k. k < d + p \<and> as_shards st ! k \<noteq> None}"
  from True obtain k where k: "k < d" "k \<notin> ?A" by auto
  obtain j where j: "j \<in> ?A" "d \<le> j" using parity_present [OF assms(3), of p, OF _ k] by auto
  then obtain x where "j < d + p" "as_shards st ! j = Some x" by auto
  note re = restore_true [OF assms(1,2) this(1) j(2) this(2)]
  obtain out where out: "rs_ReconstructData c (shard_list st) = Some out" "take d out = padded ?ys"
    using re(2,3) assms(3) by auto
  have "out ! m = pad (maxlen ?ys) (?ys ! m)" if "m < d" for m
    using that out(2) re(1) padded_sel(3) [of m ?ys] by (metis nth_take)
  then show ?thesis using out(1) by (simp add: fec_recover_eq)
qed

subsection \<open>A call of decode\<close>

text \<open>The hits of a range of indices lie within it, so that freeing them stays in the queue.\<close>

lemma hits_fit: "hits sb se rx [b..<n] \<noteq> [] \<Longrightarrow> hd (hits sb se rx [b..<n]) + length (hits sb se rx [b..<n]) \<le> n"
proof (induction "n - b" arbitrary: b)
  case 0
  then show ?case by simp
next
  case (Suc m)
  then have b: "[b..<n] = b # [Suc b..<n]" "m = n - Suc b" by (simp_all add: upt_conv_Cons)
  have len: "length (hits sb se rx is) \<le> length is" for "is" by (induction "is") auto
  from len [of "[Suc b..<n]"] have "length (hits sb se rx [Suc b..<n]) \<le> n - Suc b" by simp
  with Suc b show ?case by (auto split: if_splits)
qed

lemma search_range_lt: "search_range sz s i n = (b, e) \<Longrightarrow> 0 < n \<Longrightarrow> e < n"
  by (auto simp: search_range_def Let_def split: if_splits)

lemma found_fits:
  assumes "search_range sz s i (length rx) = (b, e)" "0 < length rx"
  defines "st \<equiv> found_shards sz s rx b e"
  shows "freeRange (as_first st) (as_numshard st) rx =
     Some (take (as_first st) rx @ drop (as_first st + as_numshard st) rx)"
proof (rule freeRange_eq)
  let ?H = "hits (s - s mod of_nat sz) (s - s mod of_nat sz + of_nat sz - 1) rx [b..<e + 1]"
  have "as_numshard st = length ?H" "as_first st = (if ?H = [] then 0 else hd ?H)"
    unfolding st_def found_shards_def Let_def assemble_hits by (simp_all add: foldl_hits(1,3) assembly0_def)
  then show "as_first st + as_numshard st \<le> length rx"
    using hits_fit [of "s - s mod of_nat sz" "s - s mod of_nat sz + of_nat sz - 1" rx b "e + 1"]
      search_range_lt [OF assms(1,2)] by (auto simp del: upt_Suc)
qed

lemma fec_search_cases:
  assumes "search_range (fd_shardSize dec) s i (length rx) = (b, e)" "0 < length rx"
  defines "st \<equiv> found_shards (fd_shardSize dec) s rx b e"
  defines "rest \<equiv> take (as_first st) rx @ drop (as_first st + as_numshard st) rx"
  shows "fec_search dec s i rx = Some
     (if fd_dataShards dec \<le> e - b + 1
      then if as_numDataShard st = fd_dataShards dec then ([], rest)
           else if fd_dataShards dec \<le> as_numshard st
           then (fec_recover (fd_codec dec) (fd_dataShards dec) st, rest) else ([], rx)
      else ([], rx))"
proof -
  have "freeRange (as_first st) (as_numshard st) rx = Some rest"
    unfolding st_def rest_def by (rule found_fits [OF assms(1,2)])
  then show ?thesis unfolding fec_search_def assms(1) prod.case Let_def st_def [symmetric] by simp
qed

lemma keep_rxlimit_eq:
  "keep_rxlimit dec = Some (if length (fd_rx dec) > fd_rxlimit dec
     then (dec\<lparr>fd_rx := tl (fd_rx dec)\<rparr>, fec_flag (fd_rx dec ! 0) = typeData) else (dec, False))"
  using freeRange_eq [of 0 1 "fd_rx dec"] by (cases "fd_rx dec") (auto simp: keep_rxlimit_def)

lemma fec_decode_dup:
  "6 \<le> length pkt \<Longrightarrow> length pkt \<le> 1500 \<Longrightarrow> fec_scan (fec_seqid pkt) (fd_rx dec) = None \<Longrightarrow>
     fec_decode pkt dec = Some ([], dec, False)"
  by (simp add: fec_decode_def fecHeaderSize_def)

lemma fec_decode_new:
  "6 \<le> length pkt \<Longrightarrow> length pkt \<le> 1500 \<Longrightarrow> fec_scan (fec_seqid pkt) (fd_rx dec) = Some i \<Longrightarrow>
     fec_search dec (fec_seqid pkt) i (fec_insert i pkt (fd_rx dec)) = Some (r, rx) \<Longrightarrow>
     fec_decode pkt dec = Some (r, if length rx > fd_rxlimit dec
       then (dec\<lparr>fd_rx := tl rx\<rparr>, fec_flag (rx ! 0) = typeData) else (dec\<lparr>fd_rx := rx\<rparr>, False))"
  by (simp add: fec_decode_def fecHeaderSize_def keep_rxlimit_eq)

lemma length_recover: "length (fec_recover c n st) \<le> n"
proof -
  have "length (filter P [0..<n]) \<le> n" for P using length_filter_le [of P "[0..<n]"] by simp
  then show ?thesis by (simp add: fec_recover_def split: option.splits)
qed

lemma fec_insert_sel:
  assumes "fec_scan s q = Some i"
  shows "set (fec_insert i x q) = insert x (set q)" "length (fec_insert i x q) = Suc (length q)"
proof -
  have i: "i \<le> length q" using assms by (rule fec_scan_le)
  have "set q = set (take i q) \<union> set (drop i q)" by (metis append_take_drop_id set_append)
  then show "set (fec_insert i x q) = insert x (set q)" "length (fec_insert i x q) = Suc (length q)"
    using i by (simp_all add: fecq.ins_eq [OF i])
qed

lemma fec_search_sub:
  assumes "0 < length rx"
  shows "\<exists>recovered rx'. fec_search dec s i rx = Some (recovered, rx') \<and> set rx' \<subseteq> set rx
     \<and> length rx' \<le> length rx \<and> length recovered \<le> fd_dataShards dec"
proof -
  obtain b e where range: "search_range (fd_shardSize dec) s i (length rx) = (b, e)" by fastforce
  have sub: "set (take m rx @ drop (m + n) rx) \<subseteq> set rx" "length (take m rx @ drop (m + n) rx) \<le> length rx" for m n
    by (auto dest: in_set_takeD in_set_dropD)
  show ?thesis
    unfolding fec_search_cases [OF range assms] using sub length_recover
    by (auto split: if_split simp del: set_append length_append)
qed

definition same_setup :: "fec_decoder \<Rightarrow> fec_decoder \<Rightarrow> bool" where
  "same_setup dec dec' \<longleftrightarrow> (\<exists>rx. dec' = dec\<lparr>fd_rx := rx\<rparr>)"

text \<open>What holds of every packet, from whomever it comes: no panic, and the queue keeps its limit.\<close>

lemma fec_decode_bounds:
  assumes "6 \<le> length pkt" "length pkt \<le> 1500" "length (fd_rx dec) \<le> fd_rxlimit dec"
  shows "\<exists>recovered dec' short. fec_decode pkt dec = Some (recovered, dec', short)
     \<and> length (fd_rx dec') \<le> fd_rxlimit dec \<and> set (fd_rx dec') \<subseteq> insert pkt (set (fd_rx dec))
     \<and> length recovered \<le> fd_dataShards dec \<and> same_setup dec dec'"
proof (cases "fec_scan (fec_seqid pkt) (fd_rx dec)")
  case None
  then show ?thesis
    using assms(3) fec_decode_dup [OF assms(1,2)] by (auto simp: same_setup_def intro: exI [of _ "fd_rx dec"])
next
  case (Some i)
  note ins = fec_insert_sel [OF Some, of pkt]
  then have "0 < length (fec_insert i pkt (fd_rx dec))" by simp
  from fec_search_sub [OF this] obtain r rx where
    s: "fec_search dec (fec_seqid pkt) i (fec_insert i pkt (fd_rx dec)) = Some (r, rx)"
    "set rx \<subseteq> insert pkt (set (fd_rx dec))" "length rx \<le> Suc (length (fd_rx dec))"
    "length r \<le> fd_dataShards dec"
    using ins by metis
  have "set (tl rx) \<subseteq> insert pkt (set (fd_rx dec))" using s(2) by (cases rx) auto
  then show ?thesis
    unfolding fec_decode_new [OF assms(1,2) Some s(1)] using s assms(3) by (auto simp: same_setup_def)
qed

definition dec_inv :: "rs_codec \<Rightarrow> nat \<Rightarrow> nat \<Rightarrow> bytes list \<Rightarrow> fec_decoder \<Rightarrow> bool" where
  "dec_inv c d p xs dec \<longleftrightarrow> fd_codec dec = c \<and> fd_dataShards dec = d \<and> fd_parityShards dec = p
     \<and> fd_shardSize dec = d + p \<and> length (fd_rx dec) \<le> fd_rxlimit dec
     \<and> (\<forall>x \<in> set (fd_rx dec). sent_by c d p xs x)"

lemma fec_search_true:
  assumes "dec_inv c d p xs dec" "fec_setting c d p xs" "emitted d p xs q"
    "\<forall>x \<in> set rx. sent_by c d p xs x" "0 < length rx"
    "fec_search dec (of_nat q) i rx = Some (recovered, rx')" "r \<in> set recovered"
  shows "\<exists>j < length xs. \<exists>n. r = xs ! j @ replicate n 0"
proof -
  let ?sz = "d + p" and ?g = "q div (d + p)"
  have sz: "0 < ?sz" "?sz < 2 ^ 32" using assms(2) by (simp_all add: fec_setting_def)
  note lt = emitted_lt [OF assms(3,2)]
  note gs = group_start [OF lt(2) sz(2,1)]
  obtain b e where range: "search_range ?sz (of_nat q) i (length rx) = (b, e)" by fastforce
  let ?st = "found_shards ?sz (of_nat q) rx b e"
  have "\<forall>m \<in> set [b..<e + 1]. m < length rx" using search_range_lt [OF range assms(5)] by auto
  then have true: "true_shards c d p xs ?g ?st"
    unfolding found_shards_def Let_def gs(2) by (rule assemble_true [OF assms(4,2) _ lt(1)])
  have "recovered = [] \<or> recovered = fec_recover c d ?st"
    using fec_search_cases [of dec "of_nat q" i rx b e] range assms(1,5,6)
    by (auto simp: dec_inv_def split: if_splits)
  then have "r \<in> set (fec_recover c d ?st)" using assms(7) by auto
  from recover_true [OF true assms(2) this] obtain k where
    k: "k < d" "length (fec_group d xs ?g) = d" "r = pad (maxlen (fec_group d xs ?g)) (fec_group d xs ?g ! k)" by blast
  then have "?g * d + k < length xs" "fec_group d xs ?g ! k = xs ! (?g * d + k)"
    by (auto simp: fec_group_def)
  with k(3) show ?thesis unfolding pad_def by metis
qed

lemma fec_decode_true:
  assumes "dec_inv c d p xs dec" "fec_setting c d p xs" "sent_by c d p xs pkt" "length pkt \<le> 1500"
  shows "\<exists>recovered dec' short. fec_decode pkt dec = Some (recovered, dec', short) \<and> dec_inv c d p xs dec'
     \<and> (\<forall>r \<in> set recovered. \<exists>j < length xs. \<exists>n. r = xs ! j @ replicate n 0)"
proof -
  obtain q where q: "emitted d p xs q" "pkt = fec_wire c d p xs q" using assms(3) by (auto simp: sent_by_def)
  have len: "6 \<le> length pkt" by (simp add: q(2) fec_wire_def)
  have lim: "length (fd_rx dec) \<le> fd_rxlimit dec" using assms(1) by (simp add: dec_inv_def)
  from fec_decode_bounds [OF len assms(4) lim] obtain recovered dec' short where
    dec: "fec_decode pkt dec = Some (recovered, dec', short)" and b: "length (fd_rx dec') \<le> fd_rxlimit dec"
      "set (fd_rx dec') \<subseteq> insert pkt (set (fd_rx dec))" "same_setup dec dec'" by blast
  have inv: "dec_inv c d p xs dec'"
    using b assms(1,3) by (auto simp: dec_inv_def same_setup_def)
  have "\<exists>j < length xs. \<exists>n. r = xs ! j @ replicate n 0" if r: "r \<in> set recovered" for r
  proof (cases "fec_scan (fec_seqid pkt) (fd_rx dec)")
    case None
    then show ?thesis using dec r fec_decode_dup [OF len assms(4)] by simp
  next
    case (Some i)
    let ?rx = "fec_insert i pkt (fd_rx dec)"
    note ins = fec_insert_sel [OF Some, of pkt]
    have rx: "\<forall>x \<in> set ?rx. sent_by c d p xs x" "0 < length ?rx"
      using ins assms(1,3) by (auto simp: dec_inv_def)
    obtain r' rx' where s: "fec_search dec (fec_seqid pkt) i ?rx = Some (r', rx')"
      using fec_search_sub [OF rx(2)] by metis
    have "r' = recovered" using fec_decode_new [OF len assms(4) Some s] dec by simp
    with s q(2) have "fec_search dec (of_nat q) i ?rx = Some (recovered, rx')" by simp
    from fec_search_true [OF assms(1,2) q(1) rx this r] show ?thesis .
  qed
  with dec inv show ?thesis by blast
qed

end
