(* ===== verification/FecRecovery.thy ===== *)
theory FecRecovery
  imports FecDecode
begin

section \<open>The decoder refines a window of packet numbers\<close>

text \<open>
  An abstract decoder keeps only the increasing list of the numbers of the packets in its
  queue. As long as the numbers lie within half of the circle, which the comparison of sequence
  numbers needs, the decoder of the code behaves like it: a group is recovered when its \<open>d\<close>-th
  packet arrives.
\<close>

definition window_step :: "nat \<Rightarrow> nat \<Rightarrow> nat \<Rightarrow> nat \<Rightarrow> nat list \<Rightarrow> nat list \<times> nat list" where
  "window_step d p limit q qs =
     (if q \<in> set qs then ([], qs)
      else let sz = d + p; g = q div sz; qs = insort q qs;
               here = filter (\<lambda>x. x div sz = g) qs;
               (missing, qs) =
                 (if d \<le> length here
                  then (filter (\<lambda>k. g * sz + k \<notin> set here) [0..<d], filter (\<lambda>x. x div sz \<noteq> g) qs)
                  else ([], qs))
           in (missing, if limit < length qs then tl qs else qs))"

subsection \<open>Increasing lists of numbers\<close>

abbreviation increasing :: "nat list \<Rightarrow> bool" where
  "increasing \<equiv> sorted_wrt (<)"

lemma increasing_gap:
  assumes "increasing qs" "m \<le> n" "n < length qs"
  shows "qs ! m + (n - m) \<le> qs ! n"
  using assms(2,3)
proof (induction n rule: dec_induct)
  case base
  then show ?case by simp
next
  case (step n)
  have "qs ! n < qs ! Suc n" using sorted_wrt_nth_less [OF assms(1), of n "Suc n"] step.prems by simp
  with step show ?case by simp
qed

lemma increasing_insort:
  assumes "increasing qs" "q \<notin> set qs" "i \<le> length qs" "\<forall>x \<in> set (take i qs). x < q" "\<forall>x \<in> set (drop i qs). q < x"
  shows "insort q qs = take i qs @ q # drop i qs" "increasing (insort q qs)" "insort q qs ! i = q"
proof -
  have "insort q (as @ bs) = as @ q # bs" if "\<forall>x \<in> set as. x < q" "\<forall>x \<in> set bs. q < x" for as bs
    using that by (induction as) (auto intro: insort_is_Cons less_imp_le)
  from this [OF assms(4,5)] show eq: "insort q qs = take i qs @ q # drop i qs" by simp
  have "increasing (take i qs @ drop i qs)" using assms(1) by simp
  then show "increasing (insort q qs)"
    unfolding eq using assms(4,5) unfolding sorted_wrt_append by auto
  show "insort q qs ! i = q" unfolding eq using assms(3) by (simp add: nth_append)
qed

text \<open>The members of a group are consecutive.\<close>

lemma increasing_split:
  assumes "increasing qs" "0 < sz"
  shows "qs = filter (\<lambda>x. x div sz < g) qs @ filter (\<lambda>x. x div sz = g) qs @ filter (\<lambda>x. g < x div sz) qs"
  using assms(1)
proof (induction qs)
  case Nil
  then show ?case by simp
next
  case (Cons x qs)
  have ge: "x div sz \<le> y div sz" if "y \<in> set qs" for y
    using Cons.prems that by (intro div_le_mono) (auto intro: less_imp_le)
  show ?case
  proof (cases "x div sz < g")
    case True
    with Cons show ?thesis by simp
  next
    case F: False
    then have lo: "filter (\<lambda>x. x div sz < g) qs = []" using ge by (fastforce simp: filter_empty_conv)
    show ?thesis
    proof (cases "x div sz = g")
      case True
      with F lo Cons show ?thesis by simp
    next
      case False
      with F ge have "filter (\<lambda>x. x div sz = g) qs = []" by (fastforce simp: filter_empty_conv)
      with F False lo Cons show ?thesis by simp
    qed
  qed
qed

lemma filter_positions:
  assumes "qs = as @ bs @ cs" "\<forall>x \<in> set as. \<not> P x" "\<forall>x \<in> set bs. P x" "\<forall>x \<in> set cs. \<not> P x"
  shows "filter (\<lambda>m. P (qs ! m)) [0..<length qs] = [length as..<length as + length bs]"
proof -
  have "[0..<length qs] = [0..<length as] @ [length as..<length as + length bs]
      @ [length as + length bs..<length as + length bs + length cs]"
    using upt_add_eq_append [of 0 "length as + length bs" "length cs"]
      upt_add_eq_append [of 0 "length as" "length bs"] assms(1) by (simp add: add.assoc)
  moreover have "\<not> P (qs ! m)" if "m < length as" for m
    using that assms(1,2) by (simp add: nth_append)
  moreover have "P (qs ! m)" if "length as \<le> m" "m < length as + length bs" for m
    using that assms(1,3) by (simp add: nth_append)
  moreover have "\<not> P (qs ! m)" if "length as + length bs \<le> m" "m < length as + length bs + length cs" for m
    using that assms(1,4) by (simp add: nth_append)
  ultimately show ?thesis by (simp add: filter_empty_conv filter_id_conv)
qed

lemma middle_map: "qs = as @ bs @ cs \<Longrightarrow> bs = map ((!) qs) [length as..<length as + length bs]"
  by (rule nth_equalityI) (simp_all add: nth_append)

subsection \<open>Numbers on the wire\<close>

text \<open>Numbers from a base on, within half of the circle, compare as numbers.\<close>

lemma window_offset:
  assumes "B \<le> x" "x < B + 2 ^ 31"
  shows "unat ((of_nat x :: u32) - of_nat B) = x - B"
proof -
  have "(of_nat x :: u32) - of_nat B = of_nat (x - B)" using assms(1) by (simp add: of_nat_diff)
  moreover have "x - B < 2 ^ 32" using assms(2) by simp
  ultimately show ?thesis using unat_of_nat_u32 by metis
qed

lemma window_diff:
  assumes "B \<le> x" "x < B + 2 ^ 31" "B \<le> y" "y < B + 2 ^ 31"
  shows "itimediff (of_nat x) (of_nat y) = int x - int y"
  using itimediff_offsets [of "of_nat x" "of_nat B" "of_nat y"] window_offset [OF assms(1,2)]
    window_offset [OF assms(3,4)] assms by simp

lemma wires_ordered:
  assumes "increasing qs" "\<forall>x \<in> set qs. B \<le> x \<and> x < B + 2 ^ 31"
  shows "seq_ordered fec_seqid (of_nat B) (map (fec_wire c d p xs) qs)"
  using assms
proof (induction qs)
  case Nil
  then show ?case by simp
next
  case (Cons x qs)
  have off: "unat ((of_nat y :: u32) - of_nat B) = y - B" if "y \<in> set (x # qs)" for y
    using Cons.prems(2) that by (intro window_offset) auto
  have "x - B < 2 ^ 31" "x - B < y - B" if "y \<in> set qs" for y
    using Cons.prems that by force+
  with Cons off show ?case by (auto simp: seq_ordered_Cons less_diff_conv2)
qed

lemma scan_wires:
  fixes c :: rs_codec and d p :: nat and xs :: "bytes list"
  assumes "increasing qs" "\<forall>x \<in> set (q # qs). B \<le> x \<and> x < B + 2 ^ 31"
  defines "rx \<equiv> map (fec_wire c d p xs) qs"
  shows "fec_scan (of_nat q) rx = None \<longleftrightarrow> q \<in> set qs"
    "fec_scan (of_nat q) rx = Some i \<Longrightarrow> i \<le> length qs \<and> (\<forall>x \<in> set (take i qs). x < q) \<and> (\<forall>x \<in> set (drop i qs). q < x)"
proof -
  have ord: "seq_ordered fec_seqid (of_nat B) rx"
    unfolding rx_def using assms(1,2) by (intro wires_ordered) auto
  have off: "unat ((of_nat y :: u32) - of_nat B) = y - B" if "y \<in> set (q # qs)" for y
    using assms(2) that by (intro window_offset) auto
  have q: "unat ((of_nat q :: u32) - of_nat B) < 2 ^ 31" using off [of q] assms(2) by (simp add: less_diff_conv2)
  have inj: "(of_nat x :: u32) = of_nat q \<longleftrightarrow> x = q" if "x \<in> set qs" for x
    using off [of x] off [of q] that assms(2) by (auto dest: arg_cong [of _ _ "\<lambda>w. unat (w - of_nat B)"])
  have mem: "(of_nat q :: u32) \<in> fec_seqid ` set rx \<longleftrightarrow> q \<in> set qs"
    using inj by (force simp: rx_def image_image image_iff)
  show "fec_scan (of_nat q) rx = None \<longleftrightarrow> q \<in> set qs"
    using fecq.scan_None [OF ord q] fecq.scan_fresh [OF ord q] mem by (cases "fec_scan (of_nat q) rx") auto
  assume "fec_scan (of_nat q) rx = Some i"
  note s = fecq.scan_Some [OF ord q this]
  have "x < q" if "x \<in> set (take i qs)" for x
  proof -
    have "fec_wire c d p xs x \<in> set (take i rx)" using that by (simp add: rx_def take_map)
    with s have "unat ((of_nat x :: u32) - of_nat B) < unat ((of_nat q :: u32) - of_nat B)" by fastforce
    then show ?thesis using off [of x] off [of q] in_set_takeD [OF that] by simp
  qed
  moreover have "q < x" if "x \<in> set (drop i qs)" for x
  proof -
    have "fec_wire c d p xs x \<in> set (drop i rx)" using that by (simp add: rx_def drop_map)
    with s have "unat ((of_nat q :: u32) - of_nat B) < unat ((of_nat x :: u32) - of_nat B)" by fastforce
    then show ?thesis using off [of x] off [of q] in_set_dropD [OF that] assms(2) by auto
  qed
  ultimately show "i \<le> length qs \<and> (\<forall>x \<in> set (take i qs). x < q) \<and> (\<forall>x \<in> set (drop i qs). q < x)"
    using s by (simp add: rx_def)
qed

text \<open>The hits of a search are the positions of the group, and the range searched holds them all.\<close>

lemma hits_increasing:
  assumes "sorted_wrt (\<lambda>m n. qs ! m < qs ! n) is"
    "\<forall>m \<in> set is. fec_seqid (rx ! m) = of_nat (qs ! m) \<and> B \<le> qs ! m \<and> qs ! m < B + 2 ^ 31"
    "B \<le> g * sz" "g * sz + sz \<le> B + 2 ^ 31" "0 < sz"
  shows "hits (of_nat (g * sz)) (of_nat (g * sz) + of_nat sz - 1) rx is = filter (\<lambda>m. qs ! m div sz = g) is"
  using assms(1,2)
proof (induction "is")
  case Nil
  then show ?case by simp
next
  case (Cons m "is")
  have e: "of_nat (g * sz) + of_nat sz - 1 = (of_nat (g * sz + sz - 1) :: u32)"
    using assms(5) by (simp add: of_nat_diff)
  have m: "fec_seqid (rx ! m) = of_nat (qs ! m)" "B \<le> qs ! m" "qs ! m < B + 2 ^ 31" using Cons.prems(2) by auto
  have "itimediff (fec_seqid (rx ! m)) (of_nat (g * sz) + of_nat sz - 1) = int (qs ! m) - int (g * sz + sz - 1)"
    unfolding m(1) e using assms(3-5) m by (intro window_diff [of B]) auto
  then have past: "itimediff (fec_seqid (rx ! m)) (of_nat (g * sz) + of_nat sz - 1) > 0 \<longleftrightarrow> g * sz + sz \<le> qs ! m"
    using assms(5) by linarith
  have "itimediff (fec_seqid (rx ! m)) (of_nat (g * sz)) = int (qs ! m) - int (g * sz)"
    unfolding m(1) using assms(3-5) m by (intro window_diff [of B]) auto
  then have reached: "itimediff (fec_seqid (rx ! m)) (of_nat (g * sz)) \<ge> 0 \<longleftrightarrow> g * sz \<le> qs ! m"
    by linarith
  have grp: "x div sz = g \<longleftrightarrow> g * sz \<le> x \<and> x < g * sz + sz" for x
    using assms(5) by (metis add.commute div_nat_eqI dividend_less_div_times div_times_less_eq_dividend mult.commute mult_Suc_right)
  have IH: "hits (of_nat (g * sz)) (of_nat (g * sz) + of_nat sz - 1) rx is = filter (\<lambda>m. qs ! m div sz = g) is"
    using Cons by simp
  show ?case
  proof (cases "g * sz + sz \<le> qs ! m")
    case True
    then have "filter (\<lambda>m. qs ! m div sz = g) (m # is) = []"
      using Cons.prems(1) by (force simp: filter_empty_conv grp)
    then show ?thesis using past True by simp
  next
    case False
    with past reached IH grp [of "qs ! m"] show ?thesis by simp
  qed
qed

lemma range_covers:
  assumes "increasing qs" "i < length qs" "qs ! i = q" "0 < sz" "q < 2 ^ 32" "sz < 2 ^ 32"
    "search_range sz (of_nat q) i (length qs) = (b, e)"
  shows "e < length qs" "b \<le> i" "i \<le> e"
    "m < length qs \<Longrightarrow> qs ! m div sz = q div sz \<Longrightarrow> b \<le> m \<and> m \<le> e"
proof -
  have be: "b = i - q mod sz" "e = (if length qs \<le> b + sz - 1 then length qs - 1 else b + sz - 1)"
    using assms(7) group_start(3) [OF assms(5,6,4)] by (auto simp: search_range_def Let_def)
  have lt: "q mod sz < sz" using assms(4) by simp
  show "e < length qs" "b \<le> i" "i \<le> e" using be assms(2) lt by auto
  assume m: "m < length qs" "qs ! m div sz = q div sz"
  have qs: "q = q div sz * sz + q mod sz" by simp
  have lo: "q div sz * sz \<le> qs ! m" "qs ! m < q div sz * sz + sz"
    using m(2) assms(4) by (metis div_times_less_eq_dividend, metis add.commute dividend_less_div_times)
  have "b \<le> m"
  proof (rule ccontr)
    assume "\<not> b \<le> m"
    then have "m \<le> i" "q mod sz < i - m" using be(1) by auto
    with increasing_gap [OF assms(1) this(1) assms(2)] assms(3) lo(1) qs show False by linarith
  qed
  moreover have "m \<le> e"
  proof (rule ccontr)
    assume "\<not> m \<le> e"
    then have "b + sz \<le> m" using be(2) m(1) by (auto split: if_splits)
    then have "i \<le> m" "sz - q mod sz \<le> m - i" using be(1) lt by auto
    with increasing_gap [OF assms(1) this(1) m(1)] assms(3) lo(2) qs lt show False by linarith
  qed
  ultimately show "b \<le> m \<and> m \<le> e" ..
qed

subsection \<open>A search, on numbers\<close>

text \<open>
  A decoder about to search: \<open>qs\<close> are the numbers in its queue, \<open>q\<close>, at index \<open>i\<close>, the new one.
\<close>

definition searching :: "rs_codec \<Rightarrow> nat \<Rightarrow> nat \<Rightarrow> bytes list \<Rightarrow> nat \<Rightarrow> nat \<Rightarrow> nat \<Rightarrow> nat list \<Rightarrow> bool" where
  "searching c d p xs B q i qs \<longleftrightarrow> fec_setting c d p xs \<and> increasing qs \<and> i < length qs \<and> qs ! i = q
     \<and> (\<forall>x \<in> set qs. emitted d p xs x \<and> B \<le> x \<and> x < B + 2 ^ 31)
     \<and> B \<le> q div (d + p) * (d + p) \<and> q div (d + p) * (d + p) + (d + p) \<le> B + 2 ^ 31"

abbreviation members :: "nat \<Rightarrow> nat \<Rightarrow> nat list \<Rightarrow> nat list" where
  "members sz g qs \<equiv> filter (\<lambda>x. x div sz = g) qs"

lemma found_shards_spec:
  assumes "searching c d p xs B q i qs" "search_range (d + p) (of_nat q) i (length qs) = (b, e)"
  defines "rx \<equiv> map (fec_wire c d p xs) qs" and "g \<equiv> q div (d + p)"
  defines "st \<equiv> found_shards (d + p) (of_nat q) rx b e" and "a \<equiv> length (filter (\<lambda>x. x div (d + p) < g) qs)"
  shows "as_numshard st = length (members (d + p) g qs)"
    "as_numDataShard st = length (filter (\<lambda>x. x mod (d + p) < d) (members (d + p) g qs))"
    "k < d + p \<Longrightarrow> as_shards st ! k = None \<longleftrightarrow> g * (d + p) + k \<notin> set qs"
    "true_shards c d p xs g st" "length (members (d + p) g qs) \<le> e - b + 1"
    "take (as_first st) rx @ drop (as_first st + as_numshard st) rx
       = map (fec_wire c d p xs) (filter (\<lambda>x. x div (d + p) \<noteq> g) qs)"
proof -
  let ?sz = "d + p" and ?G = "members (d + p) g qs"
  have set: "fec_setting c d p xs" and inc: "increasing qs" and i: "i < length qs" "qs ! i = q"
    and all: "\<forall>x \<in> set qs. emitted d p xs x \<and> B \<le> x \<and> x < B + 2 ^ 31"
    and win: "B \<le> g * ?sz" "g * ?sz + ?sz \<le> B + 2 ^ 31"
    using assms(1) by (auto simp: searching_def g_def)
  have sz: "0 < ?sz" "?sz < 2 ^ 32" using set by (simp_all add: fec_setting_def)
  have q: "q \<in> set qs" using i nth_mem by blast
  note lt = emitted_lt [OF _ set]
  have q32: "q < 2 ^ 32" "g * ?sz + ?sz \<le> 2 ^ 32" using lt [of q] all q by (auto simp: g_def)
  note gs = group_start [OF q32(1) sz(2,1)]
  note range = range_covers [OF inc i sz(1) q32(1) sz(2) assms(2), folded g_def]
  let ?is = "[b..<e + 1]"
  define H where "H = hits (of_nat (g * ?sz)) (of_nat (g * ?sz) + of_nat ?sz - 1) rx ?is"
  have st: "st = foldl (\<lambda>st i. add_hit ?sz rx i st) (assembly0 ?sz) H"
    unfolding st_def found_shards_def Let_def gs(2) g_def H_def by (rule assemble_hits)
  have "sorted_wrt (\<lambda>m n. qs ! m < qs ! n) ?is"
    unfolding sorted_wrt_iff_nth_less using range(1) by (auto simp del: upt_Suc intro!: sorted_wrt_nth_less [OF inc])
  then have Hfilter: "H = filter (\<lambda>m. qs ! m div ?sz = g) ?is"
    unfolding H_def using range(1) all win sz(1) by (intro hits_increasing [of qs ?is rx B g]) (auto simp: rx_def)
  also have "filter (\<lambda>m. qs ! m div ?sz = g) ?is = filter (\<lambda>m. qs ! m div ?sz = g) [0..<length qs]"
  proof -
    have "b + (length qs - b) = length qs" "e + 1 + (length qs - (e + 1)) = length qs"
      using range(1-3) by simp_all
    from upt_add_eq_append [of 0 b "length qs - b", unfolded this(1)]
      upt_add_eq_append [of b "e + 1" "length qs - (e + 1)", unfolded this(2)] range(2,3)
    have "[0..<length qs] = [0..<b] @ ?is @ [e + 1..<length qs]" by (simp del: upt_Suc)
    moreover have "filter (\<lambda>m. qs ! m div ?sz = g) [0..<b] = []"
      unfolding filter_empty_conv
    proof
      fix m
      assume "m \<in> set [0..<b]"
      then show "qs ! m div ?sz \<noteq> g" using range(1-3) range(4) [of m] by auto
    qed
    moreover have "filter (\<lambda>m. qs ! m div ?sz = g) [e + 1..<length qs] = []"
      unfolding filter_empty_conv
    proof
      fix m
      assume "m \<in> set [e + 1..<length qs]"
      then show "qs ! m div ?sz \<noteq> g" using range(4) [of m] by auto
    qed
    ultimately show ?thesis by simp
  qed
  also have "\<dots> = [a..<a + length ?G]"
    using increasing_split [OF inc sz(1), of g] unfolding a_def
    by (intro filter_positions [where P = "\<lambda>x. x div ?sz = g"]) auto
  finally have Heq: "H = [a..<a + length ?G]" .
  have Gi: "?G = map ((!) qs) H"
    unfolding Heq a_def by (rule middle_map [OF increasing_split [OF inc sz(1)]])
  have num: "as_numshard st = length ?G" by (simp add: st foldl_hits(1) Heq assembly0_def)
  then show "as_numshard st = length ?G" .
  have "q \<in> set ?G" using q by (simp add: g_def)
  then have "0 < length ?G" by (rule length_pos_if_in_set)
  then have first: "as_first st = a" by (simp add: st foldl_hits(3) Heq assembly0_def)
  have rx: "i < length qs \<Longrightarrow> rx ! i = fec_wire c d p xs (qs ! i)" for i by (simp add: rx_def)
  have short: "a + length ?G \<le> length qs"
    using arg_cong [OF increasing_split [OF inc sz(1), of g], of length] by (simp add: a_def)
  have "filter (\<lambda>i. fec_flag (rx ! i) = typeData) H = filter (\<lambda>i. qs ! i mod ?sz < d) H"
    using Heq short rx by (intro filter_cong) (auto simp: typeData_def typeParity_def)
  then show "as_numDataShard st = length (filter (\<lambda>x. x mod ?sz < d) ?G)"
    by (simp add: st foldl_hits(2) assembly0_def Gi filter_map comp_def)
  show "as_shards st ! k = None \<longleftrightarrow> g * ?sz + k \<notin> set qs" if k: "k < ?sz" for k
  proof -
    have slot: "slot ?sz (rx ! m) = qs ! m mod ?sz" if "m < length qs" for m
      using that rx slot_wire [OF _ set] all by simp
    have "as_shards st ! k = None \<longleftrightarrow> (\<forall>m \<in> set H. slot ?sz (rx ! m) \<noteq> k)"
      unfolding st using k foldl_shards_None [of k "assembly0 ?sz"] by (simp add: assembly0_def)
    also have "\<dots> \<longleftrightarrow> (\<forall>x \<in> set ?G. x mod ?sz \<noteq> k)"
      unfolding Gi using slot Heq short by auto
    also have "\<dots> \<longleftrightarrow> g * ?sz + k \<notin> set qs"
      using div_mod_block [OF k, of g] by (auto simp: mult.commute)
    finally show ?thesis .
  qed
  show "true_shards c d p xs g st"
    unfolding st_def found_shards_def Let_def gs(2) g_def
  proof (rule assemble_true)
    show "\<forall>x \<in> set rx. sent_by c d p xs x" using all by (auto simp: rx_def sent_by_def)
    show "\<forall>i \<in> set ?is. i < length rx" using range(1) by (auto simp: rx_def)
  qed (use set q32(2) in \<open>simp_all add: g_def\<close>)
  have "length H \<le> length ?is" unfolding Hfilter by (rule length_filter_le)
  then show "length ?G \<le> e - b + 1" using Heq range(2,3) by simp
  have "take a rx @ drop (a + length ?G) rx = map (fec_wire c d p xs) (take a qs @ drop (a + length ?G) qs)"
    by (simp add: rx_def take_map drop_map)
  also have "take a qs @ drop (a + length ?G) qs = filter (\<lambda>x. x div ?sz \<noteq> g) qs"
  proof -
    have s: "qs = filter (\<lambda>x. x div ?sz < g) qs @ ?G @ filter (\<lambda>x. g < x div ?sz) qs"
      by (rule increasing_split [OF inc sz(1)])
    then have "take a qs = filter (\<lambda>x. x div ?sz < g) qs" "drop (a + length ?G) qs = filter (\<lambda>x. g < x div ?sz) qs"
      unfolding a_def by (metis append_eq_conv_conj, metis append.assoc append_eq_conv_conj length_append)
    moreover have "filter (\<lambda>x. x div ?sz \<noteq> g) qs = filter (\<lambda>x. x div ?sz < g) qs @ filter (\<lambda>x. g < x div ?sz) qs"
      using arg_cong [OF s, of "filter (\<lambda>x. x div ?sz \<noteq> g)"] by (simp add: conj_commute cong: conj_cong) 
    ultimately show ?thesis by simp
  qed
  finally show "take (as_first st) rx @ drop (as_first st + as_numshard st) rx
      = map (fec_wire c d p xs) (filter (\<lambda>x. x div ?sz \<noteq> g) qs)"
    using first num by simp
qed

text \<open>The payloads of group \<open>g\<close> with the given places, as they are recovered.\<close>

definition recovered_shards :: "nat \<Rightarrow> bytes list \<Rightarrow> nat \<Rightarrow> nat list \<Rightarrow> bytes list" where
  "recovered_shards d xs g ks = map (\<lambda>k. pad (maxlen (fec_group d xs g)) (fec_group d xs g ! k)) ks"

lemma members_card:
  assumes "increasing qs" "0 < sz"
  shows "length (filter P (members sz g qs)) = card {k. k < sz \<and> g * sz + k \<in> set qs \<and> P (g * sz + k)}"
proof -
  have "distinct qs" using assms(1) strict_sorted_iff by (auto simp: strict_sorted_iff)
  then have "length (filter P (members sz g qs)) = card (set (filter P (members sz g qs)))"
    by (metis distinct_card distinct_filter)
  also have "set (filter P (members sz g qs)) = (\<lambda>k. g * sz + k) ` {k. k < sz \<and> g * sz + k \<in> set qs \<and> P (g * sz + k)}"
  proof (rule set_eqI)
    fix x
    have "x \<in> (\<lambda>k. g * sz + k) ` {k. k < sz \<and> g * sz + k \<in> set qs \<and> P (g * sz + k)}"
      if "x \<in> set qs" "x div sz = g" "P x"
      using that assms(2) by (intro image_eqI [of _ _ "x mod sz"]) auto
    then show "x \<in> set (filter P (members sz g qs)) \<longleftrightarrow>
        x \<in> (\<lambda>k. g * sz + k) ` {k. k < sz \<and> g * sz + k \<in> set qs \<and> P (g * sz + k)}"
      using assms(2) by auto
  qed
  finally show ?thesis by (simp add: card_image inj_on_def)
qed

lemma fec_search_spec:
  assumes "searching c d p xs B q i qs" "fd_codec dec = c" "fd_dataShards dec = d" "fd_shardSize dec = d + p"
  defines "g \<equiv> q div (d + p)"
  shows "fec_search dec (of_nat q) i (map (fec_wire c d p xs) qs) = Some
     (if d \<le> length (members (d + p) g qs)
      then (recovered_shards d xs g (filter (\<lambda>k. g * (d + p) + k \<notin> set qs) [0..<d]),
            map (fec_wire c d p xs) (filter (\<lambda>x. x div (d + p) \<noteq> g) qs))
      else ([], map (fec_wire c d p xs) qs))"
proof -
  let ?sz = "d + p" and ?rx = "map (fec_wire c d p xs) qs" and ?G = "members (d + p) g qs"
  obtain b e where range: "search_range ?sz (of_nat q) i (length qs) = (b, e)" by fastforce
  let ?st = "found_shards ?sz (of_nat q) ?rx b e"
  note f = found_shards_spec [OF assms(1) range, folded g_def]
  have set: "fec_setting c d p xs" and inc: "increasing qs" using assms(1) by (simp_all add: searching_def)
  have sz: "0 < ?sz" "0 < d" using set by (simp_all add: fec_setting_def)
  have num: "as_numDataShard ?st \<le> length ?G" unfolding f(2) by (rule length_filter_le)
  have missing: "filter (\<lambda>k. as_shards ?st ! k = None) [0..<d] = filter (\<lambda>k. g * ?sz + k \<notin> set qs) [0..<d]"
    by (rule filter_cong) (use f(3) in auto)
  have "0 < length ?rx" using assms(1) by (cases qs) (auto simp: searching_def)
  with fec_search_cases [of dec "of_nat q" i ?rx b e] range assms(2-4)
  have search: "fec_search dec (of_nat q) i ?rx = Some
      (if d \<le> e - b + 1
       then if as_numDataShard ?st = d then ([], map (fec_wire c d p xs) (filter (\<lambda>x. x div ?sz \<noteq> g) qs))
            else if d \<le> as_numshard ?st
            then (fec_recover c d ?st, map (fec_wire c d p xs) (filter (\<lambda>x. x div ?sz \<noteq> g) qs))
            else ([], ?rx)
       else ([], ?rx))"
    by (simp add: f(6))
  show ?thesis
  proof (cases "d \<le> length ?G")
    case False
    then show ?thesis unfolding search using num f(1) by auto
  next
    case True
    have "card {k. k < ?sz \<and> as_shards ?st ! k \<noteq> None} = length ?G"
    proof -
      have "{k. k < ?sz \<and> as_shards ?st ! k \<noteq> None} = {k. k < ?sz \<and> g * ?sz + k \<in> set qs}"
        by (rule Collect_cong) (use f(3) in metis)
      then show ?thesis using members_card [OF inc sz(1), of "\<lambda>_. True" g] by simp
    qed
    with True have rcv: "fec_recover c d ?st = recovered_shards d xs g (filter (\<lambda>k. g * ?sz + k \<notin> set qs) [0..<d])"
      using recover_exact [OF f(4) set] by (simp add: recovered_shards_def missing)
    have "filter (\<lambda>k. g * ?sz + k \<notin> set qs) [0..<d] = []" if "as_numDataShard ?st = d"
    proof -
      let ?D = "{k. k < ?sz \<and> g * ?sz + k \<in> set qs \<and> (g * ?sz + k) mod ?sz < d}"
      have "card ?D = d"
        using that unfolding f(2) members_card [OF inc sz(1), of "\<lambda>x. x mod ?sz < d" g] .
      moreover have "?D \<subseteq> {..<d}" by auto
      ultimately have D: "?D = {..<d}" by (metis card_lessThan card_subset_eq finite_lessThan)
      have "g * ?sz + k \<in> set qs" if "k < d" for k
      proof -
        have "k \<in> ?D" unfolding D using that by simp
        then show ?thesis by simp
      qed
      then show ?thesis unfolding filter_empty_conv by simp
    qed
    then have "as_numDataShard ?st = d \<Longrightarrow> recovered_shards d xs g (filter (\<lambda>k. g * ?sz + k \<notin> set qs) [0..<d]) = []"
      by (simp add: recovered_shards_def)
    moreover have "d \<le> e - b + 1" using True f(5) by (rule order_trans)
    moreover have "d \<le> as_numshard ?st" using True f(1) by simp
    ultimately show ?thesis unfolding search rcv using True by (simp only: if_True split: if_split) simp
  qed
qed

lemma fec_decode_window:
  assumes "dec_inv c d p xs dec" "fec_setting c d p xs" "increasing qs" "fd_rx dec = map (fec_wire c d p xs) qs"
    "\<forall>x \<in> set (q # qs). emitted d p xs x \<and> B \<le> x \<and> x < B + 2 ^ 31"
    "B \<le> q div (d + p) * (d + p)" "q div (d + p) * (d + p) + (d + p) \<le> B + 2 ^ 31"
    "length (fec_wire c d p xs q) \<le> 1500" "window_step d p (fd_rxlimit dec) q qs = (missing, qs')"
  shows "(\<exists>short. fec_decode (fec_wire c d p xs q) dec =
      Some (recovered_shards d xs (q div (d + p)) missing, dec\<lparr>fd_rx := map (fec_wire c d p xs) qs'\<rparr>, short))
    \<and> increasing qs'"
proof -
  let ?w = "fec_wire c d p xs" and ?g = "q div (d + p)"
  have len: "6 \<le> length (?w q)" by (simp add: fec_wire_def)
  have dec0: "fd_codec dec = c" "fd_dataShards dec = d" "fd_shardSize dec = d + p"
    using assms(1) by (simp_all add: dec_inv_def)
  have "\<forall>x \<in> set (q # qs). B \<le> x \<and> x < B + 2 ^ 31" using assms(5) by auto
  note scan = scan_wires [OF assms(3) this, of c d p xs]
  show ?thesis
  proof (cases "q \<in> set qs")
    case True
    then have "missing = []" "qs' = qs" using assms(9) by (simp_all add: window_step_def)
    moreover have "dec\<lparr>fd_rx := map ?w qs\<rparr> = dec" using assms(4) by simp
    ultimately show ?thesis
      using True fec_decode_dup [OF len assms(8), of dec] scan(1) assms(3,4)
      by (intro conjI exI [of _ False]) (simp_all add: recovered_shards_def)
  next
    case False
    then obtain i where i: "fec_scan (of_nat q) (map ?w qs) = Some i" using scan(1) by auto
    note ins = increasing_insort [OF assms(3) False]
    have pos: "i \<le> length qs" "\<forall>x \<in> set (take i qs). x < q" "\<forall>x \<in> set (drop i qs). q < x" using scan(2) [OF i] by auto
    note ins = ins [OF this]
    let ?qs = "insort q qs"
    have rx: "fec_insert i (?w q) (map ?w qs) = map ?w ?qs"
      using pos(1) by (simp add: fecq.ins_eq ins(1) take_map drop_map)
    have "searching c d p xs B q i ?qs"
      using assms(2,5-7) ins(2,3) pos(1) by (simp add: searching_def set_insort_key)
    note search = fec_search_spec [OF this dec0]
    obtain ks rs where st: "(ks, rs) = (if d \<le> length (members (d + p) ?g ?qs)
        then (filter (\<lambda>k. ?g * (d + p) + k \<notin> set ?qs) [0..<d], filter (\<lambda>x. x div (d + p) \<noteq> ?g) ?qs) else ([], ?qs))"
      by (metis prod.exhaust)
    have fs: "fec_search dec (of_nat q) i (map ?w ?qs) = Some (recovered_shards d xs ?g ks, map ?w rs)"
      using st search by (auto simp: recovered_shards_def split: if_splits)
    have "increasing rs" using st ins(2) by (auto simp: sorted_wrt_filter split: if_splits)
    moreover have "missing = ks" "qs' = (if fd_rxlimit dec < length rs then tl rs else rs)"
    proof -
      have "filter (\<lambda>k. ?g * (d + p) + k \<notin> set (members (d + p) ?g ?qs)) [0..<d] = filter (\<lambda>k. ?g * (d + p) + k \<notin> set ?qs) [0..<d]"
        by (rule filter_cong) auto
      then have "window_step d p (fd_rxlimit dec) q qs = (ks, if fd_rxlimit dec < length rs then tl rs else rs)"
        using False st by (auto simp: window_step_def Let_def split: if_splits)
      then show "missing = ks" "qs' = (if fd_rxlimit dec < length rs then tl rs else rs)" using assms(9) by simp_all
    qed
    ultimately show ?thesis
      using fec_decode_new [OF len assms(8), of dec i] i fs rx assms(4) by (cases rs) auto
  qed
qed

end
