(* ===== verification/FecProperties.thy ===== *)
theory FecProperties
  imports FecRecovery
begin

section \<open>Forward error correction, end to end\<close>

text \<open>
  Encoders and decoders as the session makes them, a stream of packets through the one and
  whatever arrives of it through the other.
\<close>

fun fec_send :: "bytes list \<Rightarrow> fec_encoder \<Rightarrow> (bytes list \<times> fec_encoder) option" where
  "fec_send [] enc = Some ([], enc)"
| "fec_send (b # bs) enc = do {
     (b', ps, enc') \<leftarrow> fec_encode b enc;
     (out, enc'') \<leftarrow> fec_send bs enc';
     Some (drop (fe_headerOffset enc) b' # ps @ out, enc'')
   }"

fun fec_receive :: "bytes list \<Rightarrow> fec_decoder \<Rightarrow> (bytes list \<times> fec_decoder) option" where
  "fec_receive [] dec = Some ([], dec)"
| "fec_receive (pkt # ps) dec = do {
     (recovered, dec, _) \<leftarrow> fec_decode pkt dec;
     (rs, dec) \<leftarrow> fec_receive ps dec;
     Some (recovered @ rs, dec)
   }"

text \<open>
  What is assumed of the library: its constructor refuses more than 256 shards and returns
  codecs that keep the contract.
\<close>

definition rs_library :: "(int \<Rightarrow> int \<Rightarrow> rs_codec option) \<Rightarrow> bool" where
  "rs_library New \<longleftrightarrow>
     (\<forall>d p c. New d p = Some c \<longrightarrow> 0 < d \<longrightarrow> 0 < p \<longrightarrow> d + p \<le> 256 \<and> rs_laws (nat d) (nat p) c)"

text \<open>How many packets have been sent after \<open>n\<close> payloads.\<close>

definition sent_count :: "nat \<Rightarrow> nat \<Rightarrow> nat \<Rightarrow> nat" where
  "sent_count d p n = n div d * (d + p) + n mod d"

lemma emitted_below:
  assumes "q < sent_count d p (length xs)" "0 < d"
  shows "emitted d p xs q"
proof -
  let ?n = "length xs" and ?g = "q div (d + p)" and ?r = "q mod (d + p)"
  have q: "q = ?g * (d + p) + ?r" and n: "?n = ?n div d * d + ?n mod d"
    by (rule div_mult_mod_eq [symmetric])+
  have lt: "q < ?n div d * (d + p) + ?n mod d" using assms(1) by (simp add: sent_count_def)
  have md: "?n mod d < d + p" using assms(2) mod_less_divisor [of d ?n] by linarith
  have "?g \<le> ?n div d"
  proof (rule ccontr)
    assume "\<not> ?g \<le> ?n div d"
    then have "(?n div d + 1) * (d + p) \<le> ?g * (d + p)" by (intro mult_le_mono1) simp
    moreover have "?g * (d + p) \<le> q" by (rule div_times_less_eq_dividend)
    moreover have "(?n div d + 1) * (d + p) = ?n div d * (d + p) + (d + p)" by simp
    ultimately show False using lt md by linarith
  qed
  then consider "?g + 1 \<le> ?n div d" | "?g = ?n div d" by linarith
  then show ?thesis
  proof cases
    case 1
    then have "(?g + 1) * d \<le> ?n div d * d" by (intro mult_le_mono1)
    with n have "(?g + 1) * d \<le> ?n" by linarith
    then show ?thesis by (auto simp: emitted_def Let_def)
  next
    case 2
    then have "q = ?n div d * (d + p) + ?r" using q by metis
    with lt have "?r < ?n mod d" by (metis nat_add_left_cancel_less)
    moreover from this have "?r < d" using assms(2) mod_less_divisor [of d ?n] by linarith
    moreover have "?n div d * d + ?r < ?n" using \<open>?r < ?n mod d\<close> n by (metis nat_add_left_cancel_less)
    ultimately show ?thesis using 2 by (simp add: emitted_def Let_def)
  qed
qed

lemma sent_count_Suc:
  assumes "0 < d"
  shows "sent_count d p (Suc n) = sent_count d p n + 1 + (if Suc n mod d = 0 then p else 0)"
proof (cases "n mod d + 1 = d")
  case True
  then have "(n div d + 1) * (d + p) = n div d * (d + p) + n mod d + 1 + p"
    by (simp only: add_mult_distrib nat_mult_1)
  then show ?thesis using True block_step [OF assms, of n] by (simp add: sent_count_def)
next
  case False
  then show ?thesis using block_step [OF assms, of n] by (simp add: sent_count_def)
qed

lemma sent_count_mono: "0 < d \<Longrightarrow> m \<le> n \<Longrightarrow> sent_count d p m \<le> sent_count d p n"
  by (rule lift_Suc_mono_le) (simp_all add: sent_count_Suc)

definition payloads :: "nat \<Rightarrow> bytes list \<Rightarrow> bytes list" where
  "payloads ho bs = map (\<lambda>b. sized (drop (ho + 8) b)) bs"

lemma fec_send_spec:
  assumes "enc_inv c d p enc xs" "rs_laws d p c" "\<forall>b \<in> set bs. ho + 8 \<le> length b \<and> length b \<le> 1500"
    "fe_headerOffset enc = ho" "((length xs + length bs) div d + 1) * (d + p) < unat (fe_paws enc)"
  shows "\<exists>enc'. fec_send bs enc =
      Some (map (fec_wire c d p (xs @ payloads ho bs))
              [sent_count d p (length xs)..<sent_count d p (length xs + length bs)], enc')"
  using assms
proof (induction bs arbitrary: enc xs)
  case Nil
  then show ?case by simp
next
  case (Cons b bs)
  have d: "0 < d" using Cons.prems(1) by (simp add: enc_inv_def)
  let ?x = "sized (drop (ho + 8) b)" and ?n = "length xs"
  let ?xs = "xs @ [?x]"
  let ?all = "?xs @ payloads ho bs"
  have "?n div d \<le> (?n + length (b # bs)) div d" by (intro div_le_mono) simp
  then have "(?n div d + 1) * (d + p) \<le> ((?n + length (b # bs)) div d + 1) * (d + p)"
    by (intro mult_le_mono1) simp
  with Cons.prems(5) have bound: "(?n div d + 1) * (d + p) < unat (fe_paws enc)" by linarith
  have b: "fe_headerOffset enc + 8 \<le> length b" "length b \<le> 1500" using Cons.prems(3,4) by auto
  from fec_encode_step [OF Cons.prems(1,2) b bound] Cons.prems(4) obtain enc' where
    e: "fec_encode b enc = Some (take ho b @ fec_wire c d p ?xs (sent_count d p ?n), parity_wires c d p ?xs, enc')"
    "enc_inv c d p enc' ?xs" "fe_headerOffset enc' = ho" "fe_paws enc' = fe_paws enc"
    unfolding sent_count_def by auto
  obtain enc'' where s: "fec_send bs enc' =
      Some (map (fec_wire c d p ?all) [sent_count d p (Suc ?n)..<sent_count d p (Suc ?n + length bs)], enc'')"
    using Cons.IH [OF e(2) Cons.prems(2) _ e(3)] Cons.prems(3,5) e(4) by auto
  have "drop ho (take ho b @ w) = w" for w :: bytes using b(1) Cons.prems(4) by simp
  with e(1) s Cons.prems(4) have send: "fec_send (b # bs) enc =
      Some (fec_wire c d p ?xs (sent_count d p ?n) # parity_wires c d p ?xs
        @ map (fec_wire c d p ?all) [sent_count d p (Suc ?n)..<sent_count d p (Suc ?n + length bs)], enc'')"
    by simp
  have old: "fec_wire c d p ?xs q = fec_wire c d p ?all q" if "q < sent_count d p (Suc ?n)" for q
    using emitted_append(2) [OF emitted_below [of q d p ?xs] d, of c "payloads ho bs"] that d by simp
  have "parity_wires c d p ?xs = map (fec_wire c d p ?xs) [sent_count d p ?n + 1..<sent_count d p (Suc ?n)]"
  proof (cases "Suc ?n mod d = 0")
    case False
    then show ?thesis by (simp add: parity_wires_def sent_count_Suc [OF d])
  next
    case True
    then have r: "?n mod d + 1 = d" using block_step(1) [OF d, of ?n] by (auto split: if_splits)
    have "(Suc ?n div d - 1) * (d + p) + d = sent_count d p ?n + 1"
      using block_step(2) [OF d, of ?n] r by (simp add: sent_count_def)
    then show ?thesis
      using True sent_count_Suc [OF d, of p ?n]
      by (simp add: parity_wires_def del: upt_Suc) (intro nth_equalityI; simp add: ac_simps del: upt_Suc)
  qed
  also have "\<dots> = map (fec_wire c d p ?all) [sent_count d p ?n + 1..<sent_count d p (Suc ?n)]"
    using old by simp
  finally have par: "parity_wires c d p ?xs = \<dots>" .
  have up: "[sent_count d p ?n..<sent_count d p (Suc ?n + length bs)] =
      sent_count d p ?n # [sent_count d p ?n + 1..<sent_count d p (Suc ?n)]
      @ [sent_count d p (Suc ?n)..<sent_count d p (Suc ?n + length bs)]"
  proof -
    let ?i = "sent_count d p ?n" and ?j = "sent_count d p (Suc ?n)" and ?k = "sent_count d p (Suc ?n + length bs)"
    have le: "?i < ?j" "?j \<le> ?k"
      using sent_count_Suc [OF d, of p ?n] by simp (rule sent_count_mono [OF d], simp)
    have "[?i..<?k] = [?i..<?j] @ [?j..<?k]"
      using le upt_add_eq_append [of ?i ?j "?k - ?j"] by simp
    then show ?thesis using le(1) by (simp add: upt_conv_Cons)
  qed
  show ?case using send par up old sent_count_Suc [OF d, of p ?n]
    by (simp add: payloads_def del: upt_Suc)
qed

subsection \<open>Whatever arrives\<close>

lemma fec_receive_bounds:
  assumes "\<forall>x \<in> set ins. 6 \<le> length x \<and> length x \<le> 1500" "length (fd_rx dec) \<le> fd_rxlimit dec"
  shows "\<exists>recs dec'. fec_receive ins dec = Some (recs, dec') \<and> same_setup dec dec'
     \<and> length (fd_rx dec') \<le> fd_rxlimit dec \<and> length recs \<le> fd_dataShards dec * length ins"
  using assms
proof (induction ins arbitrary: dec)
  case Nil
  then show ?case by (auto simp: same_setup_def intro: exI [of _ "fd_rx dec"])
next
  case (Cons x ins)
  then obtain r dec1 short where d1: "fec_decode x dec = Some (r, dec1, short)" "length (fd_rx dec1) \<le> fd_rxlimit dec"
    "length r \<le> fd_dataShards dec" "same_setup dec dec1" using fec_decode_bounds [of x dec] by auto
  then have same: "fd_rxlimit dec1 = fd_rxlimit dec" "fd_dataShards dec1 = fd_dataShards dec"
    by (auto simp: same_setup_def)
  with Cons.IH [of dec1] Cons.prems(1) d1(2) obtain rs dec2 where
    d2: "fec_receive ins dec1 = Some (rs, dec2)" "same_setup dec1 dec2" "length (fd_rx dec2) \<le> fd_rxlimit dec"
    "length rs \<le> fd_dataShards dec * length ins" by auto
  have "same_setup dec dec2" using d1(4) d2(2) by (auto simp: same_setup_def)
  then show ?case using d1 d2 by simp
qed

lemma fec_receive_true:
  assumes "dec_inv c d p xs dec" "fec_setting c d p xs" "\<forall>x \<in> set ins. sent_by c d p xs x \<and> length x \<le> 1500"
  shows "\<exists>recs dec'. fec_receive ins dec = Some (recs, dec') \<and> dec_inv c d p xs dec'
     \<and> (\<forall>r \<in> set recs. \<exists>j < length xs. \<exists>n. r = xs ! j @ replicate n 0)"
  using assms
proof (induction ins arbitrary: dec)
  case Nil
  then show ?case by simp
next
  case (Cons x ins)
  then obtain r dec1 short where d1: "fec_decode x dec = Some (r, dec1, short)" "dec_inv c d p xs dec1"
    "\<forall>r \<in> set r. \<exists>j < length xs. \<exists>n. r = xs ! j @ replicate n 0"
    using fec_decode_true [of c d p xs dec x] by auto
  from Cons.IH [OF d1(2) Cons.prems(2)] Cons.prems(3) obtain rs dec2 where
    d2: "fec_receive ins dec1 = Some (rs, dec2)" "dec_inv c d p xs dec2"
    "\<forall>r \<in> set rs. \<exists>j < length xs. \<exists>n. r = xs ! j @ replicate n 0" by auto
  show ?case using d1 d2 by auto
qed

lemma recovered_sized: "length x \<le> 65533 \<Longrightarrow> recovered_payload (sized x @ replicate m 0) = Some x"
proof -
  assume x: "length x \<le> 65533"
  define w :: u16 where "w = of_nat (length x + 2)"
  have w: "unat w = length x + 2" using x by (simp add: w_def unat_of_nat del: of_nat_add of_nat_Suc)
  then have "2 \<le> w" by (simp add: word_le_nat_alt)
  moreover have "drop 2 (take (length x + 2) (put_le16 w @ x @ replicate m 0)) = x"
    by (simp add: put_le16_def)
  ultimately show "recovered_payload (sized x @ replicate m 0) = Some x"
    unfolding recovered_payload_def sized_def w_def [symmetric] by (simp add: w)
qed

lemma newFECDecoder_inv:
  "newFECDecoder New lim d p = Some dec \<Longrightarrow>
     \<exists>c. New d p = Some c \<and> 0 < d \<and> 0 < p \<and> dec_inv c (nat d) (nat p) xs dec \<and> fd_rx dec = [] \<and> d + p \<le> lim
       \<and> fd_rxlimit dec = nat lim"
  by (auto simp: newFECDecoder_def dec_inv_def nat_add_distrib split: if_splits option.splits)

text \<open>The setting an encoder and a decoder made alike share.\<close>

lemma fec_pair:
  assumes "rs_library New" "newFECEncoder New d p ho = Some enc" "newFECDecoder New lim d p = Some dec"
    "\<forall>b \<in> set bs. ho + 8 \<le> length b \<and> length b \<le> 1500"
    "(length bs div nat d + 1) * (nat d + nat p) < unat (fe_paws enc)"
  shows "\<exists>c enc'. fec_setting c (nat d) (nat p) (payloads ho bs) \<and> dec_inv c (nat d) (nat p) (payloads ho bs) dec
     \<and> fd_rx dec = [] \<and> nat d + nat p \<le> fd_rxlimit dec
     \<and> fec_send bs enc = Some (map (fec_wire c (nat d) (nat p) (payloads ho bs))
          [0..<sent_count (nat d) (nat p) (length bs)], enc')"
proof -
  obtain c where c: "New d p = Some c" "enc_inv c (nat d) (nat p) enc []" "fe_headerOffset enc = ho"
    using newFECEncoder_inv [OF assms(2)] by auto
  from newFECDecoder_inv [OF assms(3), of "payloads ho bs"] c(1) have
    d: "0 < d" "0 < p" "dec_inv c (nat d) (nat p) (payloads ho bs) dec" "fd_rx dec = []" "d + p \<le> lim"
      "fd_rxlimit dec = nat lim" by auto
  have lib: "d + p \<le> 256" "rs_laws (nat d) (nat p) c" using assms(1) c(1) d by (auto simp: rs_library_def)
  have "(length bs div nat d + 1) * (nat d + nat p) \<le> 2 ^ 32"
    using assms(5) unat_u32_lt [of "fe_paws enc"] by linarith
  moreover have "\<forall>x \<in> set (payloads ho bs). x \<noteq> []"
    by (auto simp: payloads_def sized_def put_le16_def)
  ultimately have "fec_setting c (nat d) (nat p) (payloads ho bs)"
    using d lib by (auto simp: fec_setting_def payloads_def)
  moreover have "nat d + nat p \<le> fd_rxlimit dec" using d by simp
  ultimately show ?thesis
    using fec_send_spec [OF c(2) lib(2) assms(4) c(3)] assms(5) d by (auto simp: sent_count_def)
qed

lemma wire_length:
  assumes "fec_setting c d p (payloads ho bs)" "emitted d p (payloads ho bs) q"
    "\<forall>b \<in> set bs. length b \<le> 1500" 
  shows "length (fec_wire c d p (payloads ho bs) q) \<le> 1500"
proof -
  let ?ys = "fec_group d (payloads ho bs) (q div (d + p))"
  have "\<forall>y \<in> set ?ys. length y \<le> 1494"
    using assms(3) by (fastforce simp: fec_group_def payloads_def dest!: in_set_takeD in_set_dropD)
  then have "maxlen ?ys \<le> 1494" by (rule maxlen_le)
  with shard_length(1) [OF assms(2,1)] show ?thesis by (simp add: fec_wire_def)
qed

subsection \<open>Enough of a group\<close>

text \<open>Packets of one group, taken one after the other until there are \<open>d\<close>.\<close>

lemma window_group:
  assumes "increasing qs" "\<forall>x \<in> set qs. x div (d + p) = g" "k < d + p" "g * (d + p) + k \<notin> set qs"
    "length qs < d" "d + p \<le> limit"
  shows "window_step d p limit (g * (d + p) + k) qs =
     (if Suc (length qs) < d then ([], insort (g * (d + p) + k) qs)
      else (filter (\<lambda>j. g * (d + p) + j \<notin> insert (g * (d + p) + k) (set qs)) [0..<d], []))"
proof -
  let ?q = "g * (d + p) + k"
  have q: "?q div (d + p) = g" using div_mod_block(1) [OF assms(3)] .
  have all: "filter (\<lambda>x. x div (d + p) = g) (insort ?q qs) = insort ?q qs"
    "filter (\<lambda>x. x div (d + p) \<noteq> g) (insort ?q qs) = []"
    using assms(2) q by (auto simp: filter_id_conv filter_empty_conv set_insort_key)
  show ?thesis
    using assms(4-6) by (simp add: window_step_def q all Let_def set_insort_key length_insort)
qed

lemma fec_receive_group:
  assumes "dec_inv c d p xs dec" "fec_setting c d p xs" "increasing qs" "fd_rx dec = map (fec_wire c d p xs) qs"
    "\<forall>x \<in> set qs. x div (d + p) = g \<and> emitted d p xs x" "d + p \<le> fd_rxlimit dec"
    "\<forall>k \<in> set ks. k < d + p \<and> g * (d + p) + k \<notin> set qs \<and> emitted d p xs (g * (d + p) + k)
        \<and> length (fec_wire c d p xs (g * (d + p) + k)) \<le> 1500"
    "distinct ks" "length qs + length ks = d" "ks \<noteq> []"
  shows "\<exists>dec'. fec_receive (map (\<lambda>k. fec_wire c d p xs (g * (d + p) + k)) ks) dec =
     Some (recovered_shards d xs g
       (filter (\<lambda>j. g * (d + p) + j \<notin> set qs \<union> (\<lambda>k. g * (d + p) + k) ` set ks) [0..<d]), dec')"
  using assms
proof (induction ks arbitrary: qs dec)
  case Nil
  then show ?case by simp
next
  case (Cons k ks)
  let ?sz = "d + p"
  let ?q = "g * ?sz + k"
  have k: "k < ?sz" "?q \<notin> set qs" "emitted d p xs ?q" "length (fec_wire c d p xs ?q) \<le> 1500"
    using Cons.prems(7) by auto
  have sz: "?sz \<le> 2 ^ 31" "0 < ?sz" using Cons.prems(2) by (simp_all add: fec_setting_def)
  have q: "?q div ?sz = g" using div_mod_block(1) [OF k(1)] .
  have win: "g * ?sz \<le> x \<and> x < g * ?sz + 2 ^ 31" if "x \<in> set (?q # qs)" for x
  proof -
    have "x div ?sz = g" using that q Cons.prems(5) by auto
    then show ?thesis using sz dividend_less_div_times [OF sz(2), of x] div_times_less_eq_dividend [of x ?sz] by auto
  qed
  have step: "window_step d p (fd_rxlimit dec) ?q qs =
     (if Suc (length qs) < d then ([], insort ?q qs)
      else (filter (\<lambda>j. g * ?sz + j \<notin> insert ?q (set qs)) [0..<d], []))"
    using Cons.prems(3,5,6,9) k by (intro window_group) auto
  obtain missing qs' where ws: "window_step d p (fd_rxlimit dec) ?q qs = (missing, qs')" by fastforce
  have "\<exists>short. fec_decode (fec_wire c d p xs ?q) dec =
      Some (recovered_shards d xs g missing, dec\<lparr>fd_rx := map (fec_wire c d p xs) qs'\<rparr>, short)"
    using fec_decode_window [OF Cons.prems(1-4), of ?q "g * ?sz" missing qs'] win k Cons.prems(5) ws sz q by auto
  then obtain short where dec: "fec_decode (fec_wire c d p xs ?q) dec =
      Some (recovered_shards d xs g missing, dec\<lparr>fd_rx := map (fec_wire c d p xs) qs'\<rparr>, short)" ..
  show ?case
  proof (cases "ks = []")
    case True
    then have "Suc (length qs) = d" using Cons.prems(9) by simp
    then have "missing = filter (\<lambda>j. g * ?sz + j \<notin> insert ?q (set qs)) [0..<d]" using step ws by simp
    with dec True show ?thesis by simp
  next
    case False
    then have "Suc (length qs) < d" using Cons.prems(9) by (cases ks) auto
    then have m: "missing = []" "qs' = insort ?q qs" using step ws by simp_all
    let ?dec = "dec\<lparr>fd_rx := map (fec_wire c d p xs) qs'\<rparr>"
    have inc: "increasing qs'"
      using fec_decode_window [OF Cons.prems(1-4), of ?q "g * ?sz" missing qs'] win k Cons.prems(5) ws sz q by auto
    have inv: "dec_inv c d p xs ?dec"
      using Cons.prems(1,5,6,9) k(3) m(2) by (auto simp: dec_inv_def sent_by_def set_insort_key length_insort)
    have "\<exists>dec'. fec_receive (map (\<lambda>k. fec_wire c d p xs (g * ?sz + k)) ks) ?dec =
       Some (recovered_shards d xs g
         (filter (\<lambda>j. g * ?sz + j \<notin> set qs' \<union> (\<lambda>k. g * ?sz + k) ` set ks) [0..<d]), dec')"
      using inv inc m(2) Cons.prems(2,5-10) q False
      by (intro Cons.IH) (auto simp: set_insort_key length_insort k(3))
    moreover have "set qs' \<union> (\<lambda>k. g * ?sz + k) ` set ks = set qs \<union> (\<lambda>k. g * ?sz + k) ` set (k # ks)"
      using m(2) by (auto simp: set_insort_key)
    ultimately show ?thesis using dec m(1) by (auto simp: recovered_shards_def)
  qed
qed

end
