(* ===== verification/FecGuarantees.thy ===== *)
theory FecGuarantees
  imports FecProperties
begin

section \<open>What forward error correction guarantees\<close>

text \<open>
  The properties of an encoder and a decoder made with the same shard numbers, over any
  Reed-Solomon library that keeps its documented contract: only payloads that were sent are
  recovered, a group is restored from any \<open>d\<close> of its packets, the queue stays within its limit
  whatever arrives, and the decoder refines a window of packet numbers.
\<close>

subsection \<open>The abstract decoder over a run\<close>

text \<open>The numbers of the payloads recovered while the packets numbered \<open>qs\<close> arrive.\<close>

fun window_run :: "nat \<Rightarrow> nat \<Rightarrow> nat \<Rightarrow> nat list \<Rightarrow> nat list \<Rightarrow> nat list" where
  "window_run d p limit [] W = []"
| "window_run d p limit (q # qs) W =
     (let (missing, W) = window_step d p limit q W
      in map (\<lambda>k. q div (d + p) * d + k) missing @ window_run d p limit qs W)"

lemma window_step_set:
  "window_step d p limit q W = (missing, W') \<Longrightarrow> set W' \<subseteq> insert q (set W)"
proof -
  assume w: "window_step d p limit q W = (missing, W')"
  have tl: "x \<in> set (tl ys) \<Longrightarrow> x \<in> set ys" for x :: nat and ys by (cases ys) auto
  then have "set (if c then tl ys else ys) \<subseteq> set ys" for c and ys :: "nat list" by auto
  moreover have "set (filter P (insort q W)) \<subseteq> insert q (set W)" for P by (auto simp: set_insort_key)
  ultimately show ?thesis
    using w by (auto simp: window_step_def Let_def set_insort_key split: if_splits dest!: tl)
qed

text \<open>A group with a packet missing and \<open>d\<close> of them there has parity packets, so it is complete.\<close>

lemma missing_complete:
  assumes "window_step d p limit q W = (missing, W')" "missing \<noteq> []" "0 < d"
    "\<forall>x \<in> set (q # W). emitted d p xs x"
    "increasing (insort q W)"
  shows "(q div (d + p) + 1) * d \<le> length xs" "\<forall>k \<in> set missing. k < d"
proof -
  let ?g = "q div (d + p)"
  let ?here = "members (d + p) ?g (insort q W)"
  have m: "d \<le> length ?here" "missing = filter (\<lambda>k. ?g * (d + p) + k \<notin> set ?here) [0..<d]"
    using assms(1,2) by (auto simp: window_step_def Let_def split: if_splits)
  then show "\<forall>k \<in> set missing. k < d" by auto
  from assms(2) obtain k where k: "k \<in> set missing" by (cases missing) auto
  have sz: "0 < d + p" using assms(3) by simp
  let ?M = "{k. k < d + p \<and> ?g * (d + p) + k \<in> set (insort q W)}"
  have "card ?M = length ?here" using members_card [OF assms(5) sz, of "\<lambda>_. True" ?g] by simp
  have "\<exists>j \<in> ?M. d \<le> j"
  proof (rule ccontr)
    assume "\<not> ?thesis"
    then have "?M \<subseteq> {..<d} - {k}" using k m(2) by (auto simp: set_insort_key)
    then have "card ?M \<le> card ({..<d} - {k})" by (intro card_mono) auto
    also have "\<dots> < d" using k m(2) by (auto simp: card_Diff_singleton_if)
    finally show False using m(1) \<open>card ?M = length ?here\<close> by simp
  qed
  then obtain j where j: "j < d + p" "d \<le> j" "?g * (d + p) + j \<in> set (insort q W)" by auto
  from j(3) assms(4) have "emitted d p xs (?g * (d + p) + j)" by (auto simp: set_insort_key)
  then show "(?g + 1) * d \<le> length xs"
    unfolding emitted_def div_mod_block(1) [OF j(1)] div_mod_block(2) [OF j(1)] using j(2) by (simp add: Let_def)
qed

lemma recovered_payloads:
  assumes "(g + 1) * d \<le> length bs" "\<forall>k \<in> set ks. k < d" "\<forall>b \<in> set bs. length b \<le> 1500"
  shows "map recovered_payload (recovered_shards d (payloads ho bs) g ks) =
    map (\<lambda>j. Some (drop (ho + 8) (bs ! j))) (map (\<lambda>k. g * d + k) ks)"
proof -
  have "recovered_payload (pad L (fec_group d (payloads ho bs) g ! k)) = Some (drop (ho + 8) (bs ! (g * d + k)))"
    if "k \<in> set ks" for k L
  proof -
    have k: "k < d" "g * d + k < length bs" using that assms(1,2) by (auto simp: add_mult_distrib)
    then have "fec_group d (payloads ho bs) g ! k = sized (drop (ho + 8) (bs ! (g * d + k)))"
      by (simp add: fec_group_def payloads_def)
    moreover have "length (bs ! (g * d + k)) \<le> 1500" using assms(3) k(2) by simp
    then have "length (drop (ho + 8) (bs ! (g * d + k))) \<le> 65533" by simp
    ultimately show ?thesis by (simp add: pad_def recovered_sized)
  qed
  then show ?thesis by (simp add: recovered_shards_def)
qed

lemma fec_receive_window:
  assumes "dec_inv c d p (payloads ho bs) dec" "fec_setting c d p (payloads ho bs)" "increasing W"
    "fd_rx dec = map (fec_wire c d p (payloads ho bs)) W"
    "\<forall>x \<in> set (qs @ W). emitted d p (payloads ho bs) x \<and> x div (d + p) * (d + p) + (d + p) \<le> 2 ^ 31"
    "\<forall>b \<in> set bs. length b \<le> 1500" "fd_rxlimit dec = limit"
  shows "\<exists>recs dec'. fec_receive (map (fec_wire c d p (payloads ho bs)) qs) dec = Some (recs, dec')
     \<and> map recovered_payload recs = map (\<lambda>j. Some (drop (ho + 8) (bs ! j))) (window_run d p limit qs W)"
  using assms
proof (induction qs arbitrary: dec W)
  case Nil
  then show ?case by simp
next
  case (Cons q qs)
  let ?xs = "payloads ho bs"
  have d: "0 < d" "0 < d + p" using Cons.prems(2) by (simp_all add: fec_setting_def)
  have em: "\<forall>x \<in> set (q # W). emitted d p ?xs x \<and> 0 \<le> x \<and> x < 0 + 2 ^ 31"
  proof
    fix x assume "x \<in> set (q # W)"
    then have "emitted d p ?xs x \<and> x div (d + p) * (d + p) + (d + p) \<le> 2 ^ 31" using Cons.prems(5) by auto
    with dividend_less_div_times [OF d(2), of x] show "emitted d p ?xs x \<and> 0 \<le> x \<and> x < 0 + 2 ^ 31" by linarith
  qed
  have len: "length (fec_wire c d p ?xs q) \<le> 1500"
    using wire_length [OF Cons.prems(2) _ Cons.prems(6)] em by simp
  obtain missing W' where w: "window_step d p (fd_rxlimit dec) q W = (missing, W')" by fastforce
  have "q div (d + p) * (d + p) + (d + p) \<le> 0 + 2 ^ 31" using Cons.prems(5) by simp
  from fec_decode_window [OF Cons.prems(1-4) em _ this len w] obtain short where
    dec: "fec_decode (fec_wire c d p ?xs q) dec =
       Some (recovered_shards d ?xs (q div (d + p)) missing, dec\<lparr>fd_rx := map (fec_wire c d p ?xs) W'\<rparr>, short)"
      "increasing W'" by auto
  let ?dec = "dec\<lparr>fd_rx := map (fec_wire c d p ?xs) W'\<rparr>"
  have "sent_by c d p ?xs (fec_wire c d p ?xs q)" using em by (auto simp: sent_by_def)
  from fec_decode_true [OF Cons.prems(1,2) this len] dec(1) have inv: "dec_inv c d p ?xs ?dec" by simp
  have "set W' \<subseteq> insert q (set W)" using window_step_set [OF w] .
  then have "\<exists>recs dec'. fec_receive (map (fec_wire c d p ?xs) qs) ?dec = Some (recs, dec')
     \<and> map recovered_payload recs = map (\<lambda>j. Some (drop (ho + 8) (bs ! j))) (window_run d p limit qs W')"
    using inv dec(2) Cons.prems(2,5-7) by (intro Cons.IH) auto
  then obtain recs dec' where r: "fec_receive (map (fec_wire c d p ?xs) qs) ?dec = Some (recs, dec')"
     "map recovered_payload recs = map (\<lambda>j. Some (drop (ho + 8) (bs ! j))) (window_run d p limit qs W')" by blast
  have "map recovered_payload (recovered_shards d ?xs (q div (d + p)) missing) =
     map (\<lambda>j. Some (drop (ho + 8) (bs ! j))) (map (\<lambda>k. q div (d + p) * d + k) missing)"
  proof (cases "missing = []")
    case True
    then show ?thesis by (simp add: recovered_shards_def)
  next
    case False
    then have new: "q \<notin> set W" using w by (auto simp: window_step_def)
    then have inc: "increasing (insort q W)"
      using Cons.prems(3) by (auto simp: strict_sorted_iff sorted_insort distinct_insort)
    have "length ?xs = length bs" by (simp add: payloads_def)
    then show ?thesis
      using missing_complete [OF w False d(1) _ inc, of ?xs] em recovered_payloads [OF _ _ Cons.prems(6)] by simp
  qed
  with dec(1) r w Cons.prems(7) show ?case by simp
qed

subsection \<open>Guarantees\<close>

text \<open>C6. A peer recovers only what was sent: whichever of the packets an encoder emitted arrive, in
  whatever order and however often, the decoder does not panic and every shard it recovers is,
  once its size is read, the payload of a packet given to the encoder.
\<close>

theorem fec_recovers_only_sent:
  assumes "rs_library New"
    and "newFECEncoder New d p ho = Some enc" and "newFECDecoder New lim d p = Some dec"
    and "\<forall>b \<in> set bs. ho + 8 \<le> length b \<and> length b \<le> 1500"
    and "(length bs div nat d + 1) * (nat d + nat p) < unat (fe_paws enc)"
    and "fec_send bs enc = Some (out, enc')" and "set ins \<subseteq> set out"
  shows "\<exists>recs dec'. fec_receive ins dec = Some (recs, dec')
     \<and> (\<forall>r \<in> set recs. \<exists>b \<in> set bs. recovered_payload r = Some (drop (ho + 8) b))"
proof -
  let ?d = "nat d" and ?p = "nat p" and ?xs = "payloads ho bs"
  from fec_pair [OF assms(1-5)] assms(6) obtain c where
    c: "fec_setting c ?d ?p ?xs" "dec_inv c ?d ?p ?xs dec"
      "out = map (fec_wire c ?d ?p ?xs) [0..<sent_count ?d ?p (length bs)]" by auto
  have len: "length ?xs = length bs" by (simp add: payloads_def)
  have d: "0 < ?d" using c(1) by (simp add: fec_setting_def)
  have "sent_by c ?d ?p ?xs x \<and> length x \<le> 1500" if "x \<in> set ins" for x
  proof -
    from that assms(7) c(3) obtain q where q: "q < sent_count ?d ?p (length bs)" "x = fec_wire c ?d ?p ?xs q" by auto
    then have "emitted ?d ?p ?xs q" using emitted_below [OF _ d, of q ?p ?xs] len by simp
    with q wire_length [OF c(1) this] assms(4) show ?thesis by (auto simp: sent_by_def)
  qed
  with fec_receive_true [OF c(2,1)] obtain recs dec' where r: "fec_receive ins dec = Some (recs, dec')"
    "\<forall>r \<in> set recs. \<exists>j < length ?xs. \<exists>n. r = ?xs ! j @ replicate n 0" by blast
  have "\<exists>b \<in> set bs. recovered_payload r = Some (drop (ho + 8) b)" if "r \<in> set recs" for r
  proof -
    from that r(2) obtain j n where j: "j < length bs" "r = ?xs ! j @ replicate n 0" using len by auto
    have "length (bs ! j) \<le> 1500" using assms(4) j(1) by simp
    then have "length (drop (ho + 8) (bs ! j)) \<le> 65533" by simp
    then show ?thesis using j recovered_sized by (auto simp: payloads_def)
  qed
  with r(1) show ?thesis by blast
qed

text \<open>C7. Any \<open>dataShards\<close> packets of a group are enough: whichever they are, data or parity, and in
  whatever order they arrive, the decoder has given back exactly the payloads of the group's
  data packets that did not arrive, in order.
\<close>

theorem fec_restores_group:
  assumes "rs_library New"
    and "newFECEncoder New d p ho = Some enc" and "newFECDecoder New lim d p = Some dec"
    and "\<forall>b \<in> set bs. ho + 8 \<le> length b \<and> length b \<le> 1500"
    and "(length bs div nat d + 1) * (nat d + nat p) < unat (fe_paws enc)"
    and "fec_send bs enc = Some (out, enc')"
    and "(g + 1) * nat d \<le> length bs" and "distinct ks" and "\<forall>k \<in> set ks. k < nat d + nat p"
    and "length ks = nat d"
  shows "\<exists>recs dec'. fec_receive (map (\<lambda>k. out ! (g * (nat d + nat p) + k)) ks) dec = Some (recs, dec')
     \<and> map recovered_payload recs =
       map (\<lambda>k. Some (drop (ho + 8) (bs ! (g * nat d + k)))) (filter (\<lambda>k. k \<notin> set ks) [0..<nat d])"
proof -
  let ?d = "nat d" and ?p = "nat p" and ?xs = "payloads ho bs" and ?n = "sent_count (nat d) (nat p) (length bs)"
  let ?w = "\<lambda>k. g * (?d + ?p) + k"
  from fec_pair [OF assms(1-5)] assms(6) obtain c where
    c: "fec_setting c ?d ?p ?xs" "dec_inv c ?d ?p ?xs dec" "fd_rx dec = []" "?d + ?p \<le> fd_rxlimit dec"
      "out = map (fec_wire c ?d ?p ?xs) [0..<?n]" by auto
  have len: "length ?xs = length bs" by (simp add: payloads_def)
  have d: "0 < ?d" using c(1) by (simp add: fec_setting_def)
  have b: "\<forall>b \<in> set bs. length b \<le> 1500" using assms(4) by simp
  have below: "?w k < ?n" if "k \<in> set ks" for k
  proof -
    have "sent_count ?d ?p ((g + 1) * ?d) \<le> ?n" using sent_count_mono [OF d assms(7)] .
    moreover have "((g + 1) * ?d) div ?d = g + 1" "((g + 1) * ?d) mod ?d = 0" using d by simp_all
    then have "sent_count ?d ?p ((g + 1) * ?d) = (g + 1) * (?d + ?p)" unfolding sent_count_def by simp
    moreover have "?w k < (g + 1) * (?d + ?p)" using assms(9) that by (auto simp: add_mult_distrib)
    ultimately show ?thesis by linarith
  qed
  then have wires: "map (\<lambda>k. out ! ?w k) ks = map (\<lambda>k. fec_wire c ?d ?p ?xs (?w k)) ks"
    by (simp add: c(5))
  have em: "emitted ?d ?p ?xs (?w k)" if "k \<in> set ks" for k
    using emitted_below [OF _ d, of "?w k" ?p ?xs] below [OF that] len by simp
  have "\<exists>dec'. fec_receive (map (\<lambda>k. fec_wire c ?d ?p ?xs (?w k)) ks) dec =
     Some (recovered_shards ?d ?xs g (filter (\<lambda>j. ?w j \<notin> set [] \<union> ?w ` set ks) [0..<?d]), dec')"
    by (rule fec_receive_group [OF c(2,1)])
      (use c(3,4) assms(8-10) em wire_length [OF c(1) em b] d in auto)
  moreover have "filter (\<lambda>j. ?w j \<notin> set [] \<union> ?w ` set ks) [0..<?d] = filter (\<lambda>k. k \<notin> set ks) [0..<?d]"
    by (rule filter_cong) auto
  ultimately obtain dec' where "fec_receive (map (\<lambda>k. out ! ?w k) ks) dec =
     Some (recovered_shards ?d ?xs g (filter (\<lambda>k. k \<notin> set ks) [0..<?d]), dec')"
    unfolding wires by auto
  then show ?thesis using recovered_payloads [OF assms(7) _ b, of "filter (\<lambda>k. k \<notin> set ks) [0..<?d]"] by simp
qed

text \<open>C18. The decoder refines a window of packet numbers: over any run of packets of the encoder,
  in any order, with losses and repetitions, within the first half of the sequence numbers, the
  payloads it recovers are those of the abstract decoder \<^const>\<open>window_run\<close>, which keeps only the
  sorted numbers of the packets in its queue.
\<close>

theorem fec_refines_window:
  assumes "rs_library New"
    and "newFECEncoder New d p ho = Some enc" and "newFECDecoder New lim d p = Some dec"
    and "\<forall>b \<in> set bs. ho + 8 \<le> length b \<and> length b \<le> 1500"
    and "(length bs div nat d + 1) * (nat d + nat p) < unat (fe_paws enc)"
    and "(length bs div nat d + 1) * (nat d + nat p) \<le> 2 ^ 31"
    and "fec_send bs enc = Some (out, enc')" and "\<forall>q \<in> set qs. q < length out"
  shows "\<exists>recs dec'. fec_receive (map (\<lambda>q. out ! q) qs) dec = Some (recs, dec')
     \<and> map recovered_payload recs =
       map (\<lambda>j. Some (drop (ho + 8) (bs ! j))) (window_run (nat d) (nat p) (nat lim) qs [])"
proof -
  let ?d = "nat d" and ?p = "nat p" and ?xs = "payloads ho bs" and ?n = "sent_count (nat d) (nat p) (length bs)"
  from fec_pair [OF assms(1-5)] assms(7) obtain c where
    c: "fec_setting c ?d ?p ?xs" "dec_inv c ?d ?p ?xs dec" "fd_rx dec = []"
      "out = map (fec_wire c ?d ?p ?xs) [0..<?n]" by auto
  have len: "length ?xs = length bs" by (simp add: payloads_def)
  have d: "0 < ?d" using c(1) by (simp add: fec_setting_def)
  have below: "q < ?n" if "q \<in> set qs" for q using assms(8) that c(4) by auto
  then have wires: "map (\<lambda>q. out ! q) qs = map (fec_wire c ?d ?p ?xs) qs" by (simp add: c(4))
  have em: "emitted ?d ?p ?xs q \<and> q div (?d + ?p) * (?d + ?p) + (?d + ?p) \<le> 2 ^ 31" if "q \<in> set qs" for q
  proof
    show em: "emitted ?d ?p ?xs q" using emitted_below [OF _ d, of q ?p ?xs] below [OF that] len by simp
    then have "q div (?d + ?p) * ?d \<le> length bs" by (auto simp: emitted_def Let_def len split: if_splits)
    then have "q div (?d + ?p) \<le> length bs div ?d" using d by (simp add: less_eq_div_iff_mult_less_eq)
    then have "(q div (?d + ?p) + 1) * (?d + ?p) \<le> (length bs div ?d + 1) * (?d + ?p)" by (intro mult_le_mono1) simp
    then show "q div (?d + ?p) * (?d + ?p) + (?d + ?p) \<le> 2 ^ 31"
      using assms(6) by (simp only: add_mult_distrib nat_mult_1)
  qed
  have "fd_rxlimit dec = nat lim" using newFECDecoder_inv [OF assms(3), of ?xs] by blast
  then show ?thesis
    unfolding wires using fec_receive_window [OF c(2,1), of "[]" qs "nat lim"] c(3) em assms(4) by simp
qed

text \<open>C19. Nothing that arrives makes the decoder panic or grow: for any packets of 6 to 1500 bytes,
  from any peer, over any library, the queue stays within the limit it was made with, and every
  packet recovers at most \<open>dataShards\<close> shards.
\<close>

theorem fec_queue_bounded:
  assumes "newFECDecoder New lim d p = Some dec"
    and "\<forall>x \<in> set ins. 6 \<le> length x \<and> length x \<le> 1500"
  shows "\<exists>recs dec'. fec_receive ins dec = Some (recs, dec') \<and> length (fd_rx dec') \<le> nat lim
     \<and> length recs \<le> nat d * length ins"
proof -
  have "fd_rx dec = []" "fd_rxlimit dec = nat lim" "fd_dataShards dec = nat d"
    using assms(1) by (auto simp: newFECDecoder_def split: if_splits option.splits)
  with fec_receive_bounds [OF assms(2), of dec] show ?thesis by auto
qed

subsection \<open>A code that keeps the contract\<close>

text \<open>The parity of two shards: their exclusive or.\<close>

definition xor_bytes :: "bytes \<Rightarrow> bytes \<Rightarrow> bytes" where
  "xor_bytes a b = map2 (\<lambda>x y. xor x y) a b"

fun xor_encode :: "bytes list \<Rightarrow> bytes list option" where
  "xor_encode [a, b] = Some [xor_bytes a b]"
| "xor_encode _ = None"

fun xor_reconstruct :: "bytes list \<Rightarrow> bytes list option" where
  "xor_reconstruct [a, b, c] =
     (if a \<noteq> [] \<and> b \<noteq> [] then Some [a, b, c]
      else if a \<noteq> [] \<and> c \<noteq> [] then Some [a, xor_bytes a c, c]
      else if b \<noteq> [] \<and> c \<noteq> [] then Some [xor_bytes b c, b, c]
      else None)"
| "xor_reconstruct _ = None"

definition xor_New :: "int \<Rightarrow> int \<Rightarrow> rs_codec option" where
  "xor_New d p =
     (if d = 2 \<and> p = 1 then Some \<lparr>rs_Encode = xor_encode, rs_ReconstructData = xor_reconstruct\<rparr> else None)"

lemma xor_bytes_simps:
  "length a = length b \<Longrightarrow> length (xor_bytes a b) = length b"
  "length a = length b \<Longrightarrow> xor_bytes a (xor_bytes a b) = b"
  "length a = length b \<Longrightarrow> xor_bytes b (xor_bytes a b) = a"
proof -
  show "length a = length b \<Longrightarrow> length (xor_bytes a b) = length b" by (simp add: xor_bytes_def)
  have xor: "xor x (xor x y) = y" "xor y (xor x y) = x" for x y :: byte
    by (rule bit_word_eqI; auto simp: bit_xor_iff)+
  show "length a = length b \<Longrightarrow> xor_bytes a (xor_bytes a b) = b"
    "length a = length b \<Longrightarrow> xor_bytes b (xor_bytes a b) = a"
    unfolding xor_bytes_def by (intro nth_equalityI; simp add: xor)+
qed

lemma present3:
  "present [a, b, c] = (if a = [] then {} else {0}) \<union> (if b = [] then {} else {1}) \<union> (if c = [] then {} else {2})"
proof -
  have "present S = set (filter (\<lambda>k. S ! k \<noteq> []) [0..<length S])" for S by (auto simp: present_def)
  moreover have "[0..<length [a, b, c]] = [0, 1, 2]" by (simp add: upt_conv_Cons)
  ultimately have "present [a, b, c] = set (filter (\<lambda>k. [a, b, c] ! k \<noteq> []) [0, 1, 2])" by metis
  then show ?thesis by (cases "a = []"; cases "b = []"; cases "c = []") auto
qed

lemma xor_restores:
  assumes "length a = L" "length b = L" "0 < L"
  shows "restores 2 1 \<lparr>rs_Encode = xor_encode, rs_ReconstructData = xor_reconstruct\<rparr> [a, b] [xor_bytes a b]"
  unfolding restores_def
proof (intro allI impI, elim conjE)
  fix S :: "bytes list"
  assume S: "length S = 2 + 1" "\<forall>k < 2 + 1. S ! k = [] \<or> S ! k = ([a, b] @ [xor_bytes a b]) ! k"
    "2 \<le> card (present S)"
  obtain x y z where xyz: "S = [x, y, z]" using S(1) by (auto simp: numeral_2_eq_2 length_Suc_conv)
  have alt: "x = [] \<or> x = a" "y = [] \<or> y = b" "z = [] \<or> z = xor_bytes a b"
    using S(2) [rule_format, of 0] S(2) [rule_format, of 1] S(2) [rule_format, of 2] xyz by simp_all
  have "a \<noteq> []" "b \<noteq> []" "xor_bytes a b \<noteq> []"
    using assms xor_bytes_simps(1) [of a b] by (auto simp del: length_0_conv simp flip: length_0_conv)
  then show "\<exists>out. rs_ReconstructData \<lparr>rs_Encode = xor_encode, rs_ReconstructData = xor_reconstruct\<rparr> S = Some out
     \<and> take 2 out = [a, b]"
    using S(3) alt xyz assms xor_bytes_simps(2,3) [of a b] by (auto simp: present3)
qed

lemma xor_library: "rs_library xor_New"
proof -
  have "rs_laws 2 1 \<lparr>rs_Encode = xor_encode, rs_ReconstructData = xor_reconstruct\<rparr>"
    unfolding rs_laws_def
  proof (intro conjI allI impI; elim conjE)
    fix ds :: "bytes list" and L :: nat
    assume ds: "length ds = 2" "0 < L" "\<forall>x \<in> set ds. length x = L"
    then obtain a b where ab: "ds = [a, b]" by (auto simp: numeral_2_eq_2 length_Suc_conv)
    then have "restores 2 1 \<lparr>rs_Encode = xor_encode, rs_ReconstructData = xor_reconstruct\<rparr> ds [xor_bytes a b]"
      using ds xor_restores by auto
    then show "\<exists>ps. rs_Encode \<lparr>rs_Encode = xor_encode, rs_ReconstructData = xor_reconstruct\<rparr> ds = Some ps \<and> length ps = 1
      \<and> (\<forall>x \<in> set ps. length x = L) \<and> restores 2 1 \<lparr>rs_Encode = xor_encode, rs_ReconstructData = xor_reconstruct\<rparr> ds ps"
      using ab ds xor_bytes_simps(1) [of a b] by auto
  next
    fix S :: "bytes list"
    assume S: "length S = 2 + 1" "card (present S) < 2"
    then obtain x y z where "S = [x, y, z]" by (auto simp: numeral_2_eq_2 length_Suc_conv)
    with S(2) show "rs_ReconstructData \<lparr>rs_Encode = xor_encode, rs_ReconstructData = xor_reconstruct\<rparr> S = None"
      by (auto simp: present3 split: if_splits)
  qed
  then show ?thesis by (auto simp: rs_library_def xor_New_def split: if_splits)
qed

text \<open>Four payloads in two groups, and what is sent for them.\<close>

definition demo_payloads :: "bytes list" where
  "demo_payloads = map (\<lambda>x. replicate 8 0 @ x) [[1, 2, 3], [4], [5, 6], [7, 8]]"

definition demo_encoder :: fec_encoder where
  "demo_encoder = the (newFECEncoder xor_New 2 1 0)"

definition demo_decoder :: fec_decoder where
  "demo_decoder = the (newFECDecoder xor_New 6 2 1)"

definition demo_sent :: "bytes list" where
  "demo_sent =
     [[0, 0, 0, 0, 0xf1, 0, 5, 0, 1, 2, 3], [1, 0, 0, 0, 0xf1, 0, 3, 0, 4], [2, 0, 0, 0, 0xf2, 0, 6, 0, 5, 2, 3],
      [3, 0, 0, 0, 0xf1, 0, 4, 0, 5, 6], [4, 0, 0, 0, 0xf1, 0, 4, 0, 7, 8], [5, 0, 0, 0, 0xf2, 0, 0, 0, 2, 14]]"

lemma demo_made:
  "newFECEncoder xor_New 2 1 0 = Some demo_encoder" "newFECDecoder xor_New 6 2 1 = Some demo_decoder"
  "unat (fe_paws demo_encoder) = 4294967292"
  "\<forall>b \<in> set demo_payloads. 0 + 8 \<le> length b \<and> length b \<le> 1500" "length demo_payloads = 4"
  by (simp_all add: demo_encoder_def demo_decoder_def demo_payloads_def newFECEncoder_def newFECDecoder_def xor_New_def)

lemma demo_send: "\<exists>enc'. fec_send demo_payloads demo_encoder = Some (demo_sent, enc')"
proof -
  have "map_option fst (fec_send demo_payloads demo_encoder) = Some demo_sent" by code_simp
  then show ?thesis by auto
qed

theorem fec_recovers_only_sent_witness:
  "\<exists>recs dec'. fec_receive (map (nth demo_sent) [2, 5, 2, 0, 4]) demo_decoder = Some (recs, dec')
     \<and> (\<forall>r \<in> set recs. \<exists>b \<in> set demo_payloads. recovered_payload r = Some (drop (0 + 8) b))"
proof -
  obtain enc' where s: "fec_send demo_payloads demo_encoder = Some (demo_sent, enc')" using demo_send by blast
  have bound: "(length demo_payloads div nat 2 + 1) * (nat 2 + nat 1) < unat (fe_paws demo_encoder)"
    by (simp add: demo_made)
  have "set (map (nth demo_sent) [2, 5, 2, 0, 4]) \<subseteq> set demo_sent" by (simp add: demo_sent_def)
  from fec_recovers_only_sent [OF xor_library demo_made(1,2,4) bound s this] show ?thesis .
qed

theorem fec_restores_group_witness:
  "\<exists>recs dec'. fec_receive (map (\<lambda>k. demo_sent ! (1 * (nat 2 + nat 1) + k)) [2, 1]) demo_decoder = Some (recs, dec')
     \<and> map recovered_payload recs =
       map (\<lambda>k. Some (drop (0 + 8) (demo_payloads ! (1 * nat 2 + k)))) (filter (\<lambda>k. k \<notin> set [2, 1]) [0..<nat 2])"
proof -
  obtain enc' where s: "fec_send demo_payloads demo_encoder = Some (demo_sent, enc')" using demo_send by blast
  have bound: "(length demo_payloads div nat 2 + 1) * (nat 2 + nat 1) < unat (fe_paws demo_encoder)"
    by (simp add: demo_made)
  show ?thesis
    by (rule fec_restores_group [OF xor_library demo_made(1,2,4) bound s]) (simp_all add: demo_made)
qed

theorem fec_refines_window_witness:
  "\<exists>recs dec'. fec_receive (map (\<lambda>q. demo_sent ! q) [5, 2, 2, 0, 3]) demo_decoder = Some (recs, dec')
     \<and> map recovered_payload recs =
       map (\<lambda>j. Some (drop (0 + 8) (demo_payloads ! j))) (window_run (nat 2) (nat 1) (nat 6) [5, 2, 2, 0, 3] [])"
proof -
  obtain enc' where s: "fec_send demo_payloads demo_encoder = Some (demo_sent, enc')" using demo_send by blast
  have bound: "(length demo_payloads div nat 2 + 1) * (nat 2 + nat 1) < unat (fe_paws demo_encoder)"
    "(length demo_payloads div nat 2 + 1) * (nat 2 + nat 1) \<le> 2 ^ 31"
    by (simp_all add: demo_made)
  have "\<forall>q \<in> set [5, 2, 2, 0, 3]. q < length demo_sent" by (simp add: demo_sent_def)
  from fec_refines_window [OF xor_library demo_made(1,2,4) bound s this] show ?thesis .
qed

lemma demo_window: "window_run 2 1 6 [5, 2, 2, 0, 3] [] = [1, 3]"
  by (simp add: window_step_def Let_def upt_conv_Cons)

theorem fec_queue_bounded_witness:
  "\<exists>recs dec'. fec_receive (replicate 9 [1, 0, 0, 0, 0xf3, 0] @ demo_sent) demo_decoder = Some (recs, dec')
     \<and> length (fd_rx dec') \<le> nat 6 \<and> length recs \<le> nat 2 * length (replicate 9 [1, 0, 0, 0, 0xf3, 0 :: byte] @ demo_sent)"
  by (rule fec_queue_bounded [OF demo_made(2)]) (simp add: demo_sent_def)

end
