(* ===== verification/KcpState.thy ===== *)
theory KcpState
  imports KcpWire
begin

section \<open>The state of a KCP connection and its configuration (kcp.go)\<close>

text \<open>
  The \<open>KCP\<close> structure with every field the protocol code reads or writes; \<open>output\<close>, a
  callback, is replaced by the \<^const>\<open>outs\<close> of the environment. Go's \<open>int\<close> is 64 bits wide, so
  lengths and counts are \<^typ>\<open>nat\<close> and parameters that may be negative are \<^typ>\<open>int\<close>.
  \<open>buffer\<close> is the scratch buffer a flush assembles packets in: only its length is read
  between flushes. \<open>ReserveBytes\<close> is the only writer of \<open>reserved\<close> and refuses negative
  values.
\<close>

record ackItem =
  ack_sn :: u32
  ack_ts :: u32

record KCP =
  kconv :: u32
  mtu :: u32
  mss :: u32
  kstate :: u32
  snd_una :: u32
  snd_nxt :: u32
  rcv_nxt :: u32
  ssthresh :: u32
  rx_rttvar :: int
  rx_srtt :: int
  rx_rto :: u32
  rx_minrto :: u32
  snd_wnd :: u32
  rcv_wnd :: u32
  rmt_wnd :: u32
  cwnd :: u32
  probe :: u32
  interval :: u32
  ts_flush :: u32
  nodelay :: u32
  updated :: u32
  ts_probe :: u32
  probe_wait :: u32
  dead_link :: u32
  incr :: u32
  fastresend :: int
  nocwnd :: int
  stream :: int
  snd_queue :: "segment list"
  rcv_queue :: "segment list"
  snd_buf :: "segment list"
  rcv_buf :: "segment list"
  acklist :: "ackItem list"
  buffer :: bytes
  reserved :: nat

text \<open>\<open>new(KCP)\<close>: every field zero.\<close>

definition KCP0 :: KCP where
  "KCP0 = \<lparr>kconv = 0, mtu = 0, mss = 0, kstate = 0, snd_una = 0, snd_nxt = 0, rcv_nxt = 0,
     ssthresh = 0, rx_rttvar = 0, rx_srtt = 0, rx_rto = 0, rx_minrto = 0, snd_wnd = 0,
     rcv_wnd = 0, rmt_wnd = 0, cwnd = 0, probe = 0, interval = 0, ts_flush = 0, nodelay = 0,
     updated = 0, ts_probe = 0, probe_wait = 0, dead_link = 0, incr = 0, fastresend = 0,
     nocwnd = 0, stream = 0, snd_queue = [], rcv_queue = [], snd_buf = [], rcv_buf = [],
     acklist = [], buffer = [], reserved = 0\<rparr>"

definition NewKCP :: "u32 \<Rightarrow> KCP" where
  "NewKCP conv =
     (let kcp = KCP0\<lparr>kconv := conv, snd_wnd := IKCP_WND_SND, rcv_wnd := IKCP_WND_RCV,
                     rmt_wnd := IKCP_WND_RCV, mtu := IKCP_MTU_DEF\<rparr>;
          kcp = kcp\<lparr>mss := mtu kcp - IKCP_OVERHEAD\<rparr>;
          kcp = kcp\<lparr>buffer := replicate (unat (mtu kcp)) 0\<rparr>
      in kcp\<lparr>rx_rto := IKCP_RTO_DEF, rx_minrto := IKCP_RTO_MIN, interval := IKCP_INTERVAL,
             ts_flush := IKCP_INTERVAL, ssthresh := IKCP_THRESH_INIT,
             dead_link := IKCP_DEADLINK\<rparr>)"

definition ReserveBytes :: "int \<Rightarrow> KCP \<Rightarrow> bool \<times> KCP" where
  "ReserveBytes n kcp =
     (if n \<ge> uint (mtu kcp - IKCP_OVERHEAD) \<or> n < 0 then (False, kcp)
      else (True, kcp\<lparr>reserved := nat n, mss := mtu kcp - IKCP_OVERHEAD - word_of_int n\<rparr>))"

definition SetMtu :: "int \<Rightarrow> KCP \<Rightarrow> int \<times> KCP" where
  "SetMtu m kcp =
     (if m < 50 \<or> m < IKCP_OVERHEAD then (-1, kcp)
      else if int (reserved kcp) \<ge> uint (mtu kcp - IKCP_OVERHEAD) \<or> int (reserved kcp) < 0
      then (-1, kcp)
      else let buf = replicate (nat m) 0;
               kcp = kcp\<lparr>mtu := word_of_int m\<rparr>;
               kcp = kcp\<lparr>mss := mtu kcp - IKCP_OVERHEAD - of_nat (reserved kcp)\<rparr>
           in (0, kcp\<lparr>buffer := buf\<rparr>))"

text \<open>The parameters \<open>nodelay\<close>, \<open>interval\<close>, \<open>resend\<close>, \<open>nc\<close>, in this order.\<close>

definition NoDelay :: "int \<Rightarrow> int \<Rightarrow> int \<Rightarrow> int \<Rightarrow> KCP \<Rightarrow> int \<times> KCP" where
  "NoDelay nd itv resend nc kcp =
     (let kcp = (if nd \<ge> 0
                 then kcp\<lparr>nodelay := word_of_int nd,
                          rx_minrto := (if nd \<noteq> 0 then IKCP_RTO_NDL else IKCP_RTO_MIN)\<rparr>
                 else kcp);
          kcp = (if itv \<ge> 0
                 then let itv = (if itv > 5000 then 5000 else if itv < 10 then 10 else itv)
                      in kcp\<lparr>interval := word_of_int itv\<rparr>
                 else kcp);
          kcp = (if resend \<ge> 0 then kcp\<lparr>fastresend := i32 resend\<rparr> else kcp);
          kcp = (if nc \<ge> 0 then kcp\<lparr>nocwnd := i32 nc\<rparr> else kcp)
      in (0, kcp))"

definition WndSize :: "int \<Rightarrow> int \<Rightarrow> KCP \<Rightarrow> int \<times> KCP" where
  "WndSize sndwnd rcvwnd kcp =
     (let kcp = (if sndwnd > 0 then kcp\<lparr>snd_wnd := word_of_int sndwnd\<rparr> else kcp);
          kcp = (if rcvwnd > 0 then kcp\<lparr>rcv_wnd := word_of_int rcvwnd\<rparr> else kcp)
      in (0, kcp))"

definition WaitSnd :: "KCP \<Rightarrow> nat" where
  "WaitSnd kcp = length (snd_buf kcp) + length (snd_queue kcp)"

definition wnd_unused :: "KCP \<Rightarrow> u16" where
  "wnd_unused kcp =
     (if length (rcv_queue kcp) < unat (rcv_wnd kcp)
      then of_nat (unat (rcv_wnd kcp) - length (rcv_queue kcp)) else 0)"

text \<open>
  \<open>remove_front\<close> shifts the rear elements to the front of the backing array when more than
  half is removed, and reslices otherwise; \<open>copy(q, q[n:])\<close> returns how many it moved.
\<close>

definition remove_front :: "'a list \<Rightarrow> nat \<Rightarrow> 'a list" where
  "remove_front q n =
     (if n > length q div 2
      then let newn = min (length q) (length (drop n q)); q' = go_copy q (drop n q)
           in take newn q'
      else drop n q)"

definition delSegment :: "segment \<Rightarrow> segment" where
  "delSegment seg = seg\<lparr>seg_data := []\<rparr>"

lemma remove_front_eq: "remove_front q n = drop n q"
  by (auto simp: remove_front_def Let_def go_copy_def)

text \<open>Writing back what is there changes nothing.\<close>

lemma KCP_update_id [simp]:
  "kcp\<lparr>snd_queue := snd_queue kcp\<rparr> = kcp" "kcp\<lparr>rcv_queue := rcv_queue kcp\<rparr> = kcp"
  "kcp\<lparr>snd_buf := snd_buf kcp\<rparr> = kcp" "kcp\<lparr>rcv_buf := rcv_buf kcp\<rparr> = kcp"
  "kcp\<lparr>rcv_nxt := rcv_nxt kcp\<rparr> = kcp" "kcp\<lparr>snd_nxt := snd_nxt kcp\<rparr> = kcp"
  "kcp\<lparr>snd_una := snd_una kcp\<rparr> = kcp" "kcp\<lparr>kstate := kstate kcp\<rparr> = kcp"
  by (simp_all add: KCP.equality)

lemma NewKCP_sel [simp]:
  "kconv (NewKCP c) = c" "mtu (NewKCP c) = 1400" "mss (NewKCP c) = 1376"
  "snd_una (NewKCP c) = 0" "snd_nxt (NewKCP c) = 0" "rcv_nxt (NewKCP c) = 0"
  "snd_queue (NewKCP c) = []" "rcv_queue (NewKCP c) = []" "snd_buf (NewKCP c) = []"
  "rcv_buf (NewKCP c) = []" "acklist (NewKCP c) = []" "buffer (NewKCP c) = replicate 1400 0"
  "reserved (NewKCP c) = 0" "snd_wnd (NewKCP c) = 32" "rcv_wnd (NewKCP c) = 32"
  "rmt_wnd (NewKCP c) = 32" "interval (NewKCP c) = 100" "ssthresh (NewKCP c) = 2"
  "rx_rto (NewKCP c) = 200" "rx_minrto (NewKCP c) = 100" "cwnd (NewKCP c) = 0"
  "stream (NewKCP c) = 0" "nocwnd (NewKCP c) = 0" "fastresend (NewKCP c) = 0"
  "probe_wait (NewKCP c) = 0" "incr (NewKCP c) = 0" "updated (NewKCP c) = 0"
  by (simp_all add: NewKCP_def KCP0_def)

end
