(* ===== verification/KcpRecv.thy ===== *)
theory KcpRecv
  imports KcpState
begin

section \<open>The receiving half of KCP (kcp.go: PeekSize, Recv, parse\_data)\<close>

text \<open>
  Out-of-order segments wait in \<open>rcv_buf\<close>, ordered by sequence number; the run that starts
  at \<open>rcv_nxt\<close> moves to \<open>rcv_queue\<close>, from which \<open>Recv\<close> takes whole messages. A message is a
  run of fragments whose \<open>frg\<close> counts down to 0.
\<close>

subsection \<open>Moving data that has become contiguous\<close>

text \<open>
  The loop over \<open>rcv_buf\<close> that \<open>Recv\<close> and \<open>parse_data\<close> share: \<open>len(kcp.rcv_queue)\<close> is the
  length before the loop, since the segments are appended after it.
\<close>

fun ready_loop :: "nat \<Rightarrow> u32 \<Rightarrow> segment list \<Rightarrow> u32 \<Rightarrow> nat \<Rightarrow> u32 \<times> nat" where
  "ready_loop qlen wnd [] nxt c = (nxt, c)"
| "ready_loop qlen wnd (seg # buf) nxt c =
     (if seg_sn seg = nxt \<and> qlen < unat wnd then ready_loop qlen wnd buf (nxt + 1) (c + 1)
      else (nxt, c))"

definition move_ready :: "KCP \<Rightarrow> KCP" where
  "move_ready kcp =
     (let (nxt, c) = ready_loop (length (rcv_queue kcp)) (rcv_wnd kcp) (rcv_buf kcp) (rcv_nxt kcp) 0;
          kcp = kcp\<lparr>rcv_nxt := nxt\<rparr>
      in if c > 0
         then kcp\<lparr>rcv_queue := rcv_queue kcp @ take c (rcv_buf kcp),
                  rcv_buf := remove_front (rcv_buf kcp) c\<rparr>
         else kcp)"

lemma ready_loop_spec:
  "ready_loop qlen wnd buf nxt c = (nxt', c') \<Longrightarrow>
     \<exists>m \<le> length buf. c' = c + m \<and> nxt' = nxt + of_nat m
       \<and> map seg_sn (take m buf) = seqs nxt m
       \<and> (qlen < unat wnd \<longrightarrow> m < length buf \<longrightarrow> seg_sn (buf ! m) \<noteq> nxt')
       \<and> (\<not> qlen < unat wnd \<longrightarrow> m = 0)"
proof (induction qlen wnd buf nxt c rule: ready_loop.induct)
  case (1 qlen wnd nxt c)
  then show ?case by simp
next
  case (2 qlen wnd seg buf nxt c)
  show ?case
  proof (cases "seg_sn seg = nxt \<and> qlen < unat wnd")
    case True
    with 2 obtain m where m: "m \<le> length buf" "c' = c + 1 + m" "nxt' = nxt + 1 + of_nat m"
      "map seg_sn (take m buf) = seqs (nxt + 1) m"
      "m < length buf \<longrightarrow> seg_sn (buf ! m) \<noteq> nxt'"
      by auto
    then have "Suc m \<le> length (seg # buf) \<and> c' = c + Suc m \<and> nxt' = nxt + of_nat (Suc m)
       \<and> map seg_sn (take (Suc m) (seg # buf)) = seqs nxt (Suc m)
       \<and> (qlen < unat wnd \<longrightarrow> Suc m < length (seg # buf) \<longrightarrow> seg_sn ((seg # buf) ! Suc m) \<noteq> nxt')
       \<and> (\<not> qlen < unat wnd \<longrightarrow> Suc m = 0)"
      using True by (simp add: seqs_Suc)
    then show ?thesis by blast
  next
    case False
    with 2 show ?thesis by auto
  qed
qed

text \<open>The number of segments one call moves.\<close>

definition n_ready :: "KCP \<Rightarrow> nat" where
  "n_ready kcp =
     snd (ready_loop (length (rcv_queue kcp)) (rcv_wnd kcp) (rcv_buf kcp) (rcv_nxt kcp) 0)"

lemma n_ready_spec:
  "n_ready kcp \<le> length (rcv_buf kcp)"
  "map seg_sn (take (n_ready kcp) (rcv_buf kcp)) = seqs (rcv_nxt kcp) (n_ready kcp)"
  "length (rcv_queue kcp) < unat (rcv_wnd kcp) \<Longrightarrow> n_ready kcp < length (rcv_buf kcp) \<Longrightarrow>
     seg_sn (rcv_buf kcp ! n_ready kcp) \<noteq> rcv_nxt kcp + of_nat (n_ready kcp)"
  "\<not> length (rcv_queue kcp) < unat (rcv_wnd kcp) \<Longrightarrow> n_ready kcp = 0"
proof -
  obtain nxt c where loop:
    "ready_loop (length (rcv_queue kcp)) (rcv_wnd kcp) (rcv_buf kcp) (rcv_nxt kcp) 0 = (nxt, c)"
    by fastforce
  from ready_loop_spec [OF this] loop
  show "n_ready kcp \<le> length (rcv_buf kcp)"
    "map seg_sn (take (n_ready kcp) (rcv_buf kcp)) = seqs (rcv_nxt kcp) (n_ready kcp)"
    "length (rcv_queue kcp) < unat (rcv_wnd kcp) \<Longrightarrow> n_ready kcp < length (rcv_buf kcp) \<Longrightarrow>
       seg_sn (rcv_buf kcp ! n_ready kcp) \<noteq> rcv_nxt kcp + of_nat (n_ready kcp)"
    "\<not> length (rcv_queue kcp) < unat (rcv_wnd kcp) \<Longrightarrow> n_ready kcp = 0"
    by (auto simp: n_ready_def)
qed

lemma move_ready_eq:
  "move_ready kcp = kcp\<lparr>rcv_nxt := rcv_nxt kcp + of_nat (n_ready kcp),
     rcv_queue := rcv_queue kcp @ take (n_ready kcp) (rcv_buf kcp),
     rcv_buf := drop (n_ready kcp) (rcv_buf kcp)\<rparr>"
proof -
  obtain nxt c where loop:
    "ready_loop (length (rcv_queue kcp)) (rcv_wnd kcp) (rcv_buf kcp) (rcv_nxt kcp) 0 = (nxt, c)"
    by fastforce
  with ready_loop_spec [OF this] have "c = n_ready kcp" "nxt = rcv_nxt kcp + of_nat (n_ready kcp)"
    by (auto simp: n_ready_def)
  with loop show ?thesis
    by (cases kcp) (auto simp: move_ready_def remove_front_eq Let_def)
qed

subsection \<open>PeekSize\<close>

fun peek_loop :: "segment list \<Rightarrow> nat \<Rightarrow> nat" where
  "peek_loop [] n = n"
| "peek_loop (seg # q) n =
     (if seg_frg seg = 0 then n + length (seg_data seg)
      else peek_loop q (n + length (seg_data seg)))"

text \<open>\<open>seg.frg + 1\<close> is computed in \<open>uint8\<close>.\<close>

definition PeekSize :: "KCP \<Rightarrow> int" where
  "PeekSize kcp =
     (case rcv_queue kcp of
        [] \<Rightarrow> -1
      | seg # _ \<Rightarrow>
          if seg_frg seg = 0 then int (length (seg_data seg))
          else if length (rcv_queue kcp) < unat (seg_frg seg + 1) then -1
          else int (peek_loop (rcv_queue kcp) 0))"

subsection \<open>Recv\<close>

text \<open>
  Merging fragments into the caller's buffer: the buffer after the loop, the number of
  bytes and the number of segments taken; \<^const>\<open>None\<close> where \<open>buffer[len(seg.data):]\<close> panics.
\<close>

fun merge_loop :: "segment list \<Rightarrow> bytes \<Rightarrow> (bytes \<times> nat \<times> nat) option" where
  "merge_loop [] buf = Some (buf, 0, 0)"
| "merge_loop (seg # q) buf =
     (let l = length (seg_data seg); buf = go_copy buf (seg_data seg)
      in if length buf < l then None
         else if seg_frg seg = 0 then Some (buf, l, 1)
         else do { (rest, n, c) \<leftarrow> merge_loop q (drop l buf);
                   Some (take l buf @ rest, l + n, c + 1) })"

text \<open>The result, the caller's buffer and the connection after the call.\<close>

definition Recv :: "bytes \<Rightarrow> KCP \<Rightarrow> (int \<times> bytes \<times> KCP) option" where
  "Recv buf kcp =
     (if rcv_queue kcp = [] then Some (-1, buf, kcp)
      else let peeksize = PeekSize kcp in
        if peeksize < 0 then Some (-2, buf, kcp)
        else if peeksize > int (length buf) then Some (-3, buf, kcp)
        else do {
          let fast_recover = (length (rcv_queue kcp) \<ge> unat (rcv_wnd kcp));
          (buf, n, c) \<leftarrow> merge_loop (rcv_queue kcp) buf;
          let kcp = (if c > 0 then kcp\<lparr>rcv_queue := remove_front (rcv_queue kcp) c\<rparr> else kcp);
          let kcp = move_ready kcp;
          let kcp = (if length (rcv_queue kcp) < unat (rcv_wnd kcp) \<and> fast_recover
                     then kcp\<lparr>probe := probe kcp OR IKCP_ASK_TELL\<rparr> else kcp);
          Some (int n, buf, kcp)
        })"

text \<open>The first message of a queue: its segments up to and including the first with \<open>frg = 0\<close>.\<close>

fun first_msg :: "segment list \<Rightarrow> segment list" where
  "first_msg [] = []"
| "first_msg (seg # q) = (if seg_frg seg = 0 then [seg] else seg # first_msg q)"

definition payload :: "segment list \<Rightarrow> bytes" where
  "payload segs = concat (map seg_data segs)"

lemma payload_simps [simp]: "payload [] = []" "payload (s # q) = seg_data s @ payload q"
  "payload (p @ q) = payload p @ payload q"
  by (simp_all add: payload_def)

lemma first_msg_prefix: "first_msg q = take (length (first_msg q)) q"
  by (induction q) auto

lemma first_msg_length: "length (first_msg q) \<le> length q"
  by (induction q) auto

lemma first_msg_Nil_iff [simp]: "first_msg q = [] \<longleftrightarrow> q = []"
  by (cases q) auto

lemma first_msg_drop: "first_msg q @ drop (length (first_msg q)) q = q"
  by (metis append_take_drop_id first_msg_prefix)

lemma peek_loop_eq: "peek_loop q n = n + length (payload (first_msg q))"
  by (induction q n rule: peek_loop.induct) auto

lemma merge_loop_eq:
  "length (payload (first_msg q)) \<le> length buf \<Longrightarrow>
   merge_loop q buf = Some (payload (first_msg q) @ drop (length (payload (first_msg q))) buf,
     length (payload (first_msg q)), length (first_msg q))"
proof (induction q buf rule: merge_loop.induct)
  case (1 buf)
  then show ?case by simp
next
  case (2 seg q buf)
  let ?l = "length (seg_data seg)"
  have l: "?l \<le> length buf" using "2.prems" by (auto split: if_splits)
  have copy: "take ?l (go_copy buf (seg_data seg)) = seg_data seg"
    "drop ?l (go_copy buf (seg_data seg)) = drop ?l buf"
    "go_copy buf (seg_data seg) = seg_data seg @ drop ?l buf"
    using l by (simp_all add: go_copy_def)
  show ?case
  proof (cases "seg_frg seg = 0")
    case True
    with l copy show ?thesis by (simp add: Let_def)
  next
    case False
    with "2.prems" have "length (payload (first_msg q)) \<le> length (drop ?l (go_copy buf (seg_data seg)))"
      by simp
    with "2.IH" l False have IH: "merge_loop q (drop ?l (go_copy buf (seg_data seg))) =
      Some (payload (first_msg q) @ drop (length (payload (first_msg q))) (drop ?l (go_copy buf (seg_data seg))),
        length (payload (first_msg q)), length (first_msg q))"
      by simp
    with l False copy show ?thesis by (simp add: Let_def add.commute)
  qed
qed

lemma PeekSize_nonneg:
  "PeekSize kcp \<ge> 0 \<Longrightarrow> PeekSize kcp = int (length (payload (first_msg (rcv_queue kcp))))"
  by (auto simp: PeekSize_def peek_loop_eq split: list.splits if_splits)

text \<open>What a successful \<open>Recv\<close> does, in terms of the first message and \<open>move_ready\<close>.\<close>

lemma Recv_ok:
  assumes "rcv_queue kcp \<noteq> []" "0 \<le> PeekSize kcp" "PeekSize kcp \<le> int (length buf)"
  defines "m \<equiv> first_msg (rcv_queue kcp)"
  defines "k1 \<equiv> move_ready (kcp\<lparr>rcv_queue := drop (length m) (rcv_queue kcp)\<rparr>)"
  shows "Recv buf kcp = Some (int (length (payload m)), payload m @ drop (length (payload m)) buf,
     if length (rcv_queue k1) < unat (rcv_wnd kcp) \<and> unat (rcv_wnd kcp) \<le> length (rcv_queue kcp)
     then k1\<lparr>probe := probe kcp OR IKCP_ASK_TELL\<rparr> else k1)"
proof -
  have peek: "PeekSize kcp = int (length (payload m))"
    using assms(2) unfolding m_def by (rule PeekSize_nonneg)
  have merge: "merge_loop (rcv_queue kcp) buf =
      Some (payload m @ drop (length (payload m)) buf, length (payload m), length m)"
    unfolding m_def using assms(3) peek by (intro merge_loop_eq) (simp add: m_def)
  have "length m > 0" using assms(1) by (simp add: m_def)
  with merge assms(1-3) show ?thesis
    by (auto simp: Recv_def Let_def remove_front_eq k1_def peek move_ready_eq)
qed

subsection \<open>parse\_data\<close>

text \<open>
  The scan from the last element down, with the loop's early exits: \<^const>\<open>None\<close> when the
  segment is already there (\<open>repeat\<close>), otherwise the insertion index.
\<close>

definition rcv_scan :: "u32 \<Rightarrow> segment list \<Rightarrow> nat option" where
  "rcv_scan sn buf = seq_scan seg_sn sn buf (length buf)"

definition rcv_insert :: "nat \<Rightarrow> segment \<Rightarrow> segment list \<Rightarrow> segment list" where
  "rcv_insert = seq_insert segment0"

interpretation rcvq: seq_queue seg_sn rcv_scan rcv_insert
proof unfold_locales
  fix r s and q :: "segment list"
  assume "rcv_scan s q = None"
  then show "s \<in> seg_sn ` set q"
    unfolding rcv_scan_def by (rule seq_scan_None) simp
next
  fix r s i and q :: "segment list"
  assume "seq_ordered seg_sn r q" "unat (s - r) < 2 ^ 31" "rcv_scan s q = Some i"
  then show "i \<le> length q
      \<and> (\<forall>x \<in> set (take i q). unat (seg_sn x - r) < unat (s - r))
      \<and> (\<forall>x \<in> set (drop i q). unat (s - r) < unat (seg_sn x - r))"
    unfolding rcv_scan_def by (rule seq_scan_Some) simp_all
next
  fix i and x :: segment and q :: "segment list"
  assume "i \<le> length q"
  then show "rcv_insert i x q = take i q @ x # drop i q"
    unfolding rcv_insert_def by (rule seq_insert_eq)
qed

text \<open>
  The payload is copied into a pool buffer of \<open>mtuLimit\<close> bytes, which panics for a longer
  one. The result says whether the segment was a repeat or outside the window.
\<close>

definition parse_data :: "segment \<Rightarrow> KCP \<Rightarrow> (bool \<times> KCP) option" where
  "parse_data newseg kcp =
     (let sn = seg_sn newseg in
      if itimediff sn (rcv_nxt kcp + rcv_wnd kcp) \<ge> 0 \<or> itimediff sn (rcv_nxt kcp) < 0
      then Some (True, kcp)
      else case rcv_scan sn (rcv_buf kcp) of
             None \<Rightarrow> Some (True, move_ready kcp)
           | Some insert_idx \<Rightarrow>
               if mtuLimit < length (seg_data newseg) then None
               else Some (False, move_ready
                      (kcp\<lparr>rcv_buf := rcv_insert insert_idx newseg (rcv_buf kcp)\<rparr>)))"

subsection \<open>The receive-buffer invariant\<close>

definition recv_inv :: "KCP \<Rightarrow> bool" where
  "recv_inv kcp \<longleftrightarrow> seq_ordered seg_sn (rcv_nxt kcp) (rcv_buf kcp)"

lemma in_window:
  assumes "\<not> itimediff sn (nxt + wnd) \<ge> 0" "\<not> itimediff sn nxt < 0"
  shows "unat (sn - nxt) < 2 ^ 31" "unat (sn - nxt) < unat wnd"
proof -
  show half: "unat (sn - nxt) < 2 ^ 31"
    using assms(2) by (simp add: itimediff_neg_iff not_le)
  show "unat (sn - nxt) < unat wnd"
  proof (rule ccontr)
    assume "\<not> unat (sn - nxt) < unat wnd"
    then have "unat (sn - (nxt + of_nat (unat wnd))) = unat (sn - nxt) - unat wnd"
      by (intro unat_offset_step) simp
    with half have "unat (sn - (nxt + wnd)) < 2 ^ 31" by simp
    with assms(1) show False by (simp add: itimediff_nonneg_iff)
  qed
qed

text \<open>In an ordered buffer a run from \<open>rcv_nxt\<close> has offsets 0, 1, ..., and the rest is behind it.\<close>

lemma seq_ordered_offset_ge:
  "seq_ordered key r q \<Longrightarrow> i < length q \<Longrightarrow> i \<le> unat (key (q ! i) - r)"
proof (induction i)
  case 0
  then show ?case by simp
next
  case (Suc i)
  then have "unat (key (q ! i) - r) < unat (key (q ! Suc i) - r)"
    unfolding seq_ordered_def by (meson Suc_lessD lessI sorted_wrt_nth_less)
  with Suc show ?case by simp
qed

lemma move_ready_inv: "recv_inv kcp \<Longrightarrow> recv_inv (move_ready kcp)"
proof -
  assume inv: "recv_inv kcp"
  let ?n = "n_ready kcp"
  have "\<forall>x \<in> set (drop ?n (rcv_buf kcp)). ?n \<le> unat (seg_sn x - rcv_nxt kcp)"
  proof
    fix x assume "x \<in> set (drop ?n (rcv_buf kcp))"
    then obtain j where j: "j < length (rcv_buf kcp) - ?n" "x = rcv_buf kcp ! (?n + j)"
      by (auto simp: in_set_conv_nth)
    then have "?n + j \<le> unat (seg_sn x - rcv_nxt kcp)"
      using inv seq_ordered_offset_ge [of seg_sn "rcv_nxt kcp" "rcv_buf kcp" "?n + j"]
      by (simp add: recv_inv_def)
    then show "?n \<le> unat (seg_sn x - rcv_nxt kcp)" by simp
  qed
  with inv show ?thesis
    by (simp add: recv_inv_def move_ready_eq seq_ordered_drop seq_ordered_shift)
qed

lemma parse_data_inv:
  assumes "recv_inv kcp" "parse_data seg kcp = Some (rep, kcp')"
  shows "recv_inv kcp'"
proof (cases "itimediff (seg_sn seg) (rcv_nxt kcp + rcv_wnd kcp) \<ge> 0
    \<or> itimediff (seg_sn seg) (rcv_nxt kcp) < 0")
  case True
  with assms show ?thesis by (simp add: parse_data_def)
next
  case False
  then have off: "unat (seg_sn seg - rcv_nxt kcp) < 2 ^ 31"
    using in_window(1) by blast
  show ?thesis
  proof (cases "rcv_scan (seg_sn seg) (rcv_buf kcp)")
    case None
    with False assms show ?thesis by (auto simp: parse_data_def move_ready_inv)
  next
    case (Some i)
    with off assms(1) have "recv_inv (kcp\<lparr>rcv_buf := rcv_insert i seg (rcv_buf kcp)\<rparr>)"
      unfolding recv_inv_def by (simp add: rcvq.insert_ordered)
    with False Some assms(2) show ?thesis
      by (auto simp: parse_data_def move_ready_inv split: if_splits)
  qed
qed

end
