(* ===== verification/KcpSend.thy ===== *)
theory KcpSend
  imports KcpRecv
begin

section \<open>The sending half of KCP: Send (kcp.go)\<close>

text \<open>
  \<open>Send\<close> cuts the caller's bytes into segments of at most \<open>mss\<close> bytes. In stream mode it
  first fills up the last queued segment. Segment payloads live in pool buffers of
  \<open>mtuLimit\<close> bytes: asking for more panics, as does a zero \<open>mss\<close>.
\<close>

definition newSegment :: "nat \<Rightarrow> segment option" where
  "newSegment n =
     (if mtuLimit < n then None else Some (segment0\<lparr>seg_data := replicate n 0\<rparr>))"

text \<open>
  The stream-mode prologue: the bytes still to send and the connection. The last segment is
  resliced to \<open>oldlen + extend\<close>, at most the pool buffer's capacity, and the new part is
  overwritten by \<open>copy\<close>.
\<close>

definition stream_fill :: "bytes \<Rightarrow> KCP \<Rightarrow> (bytes \<times> KCP) option" where
  "stream_fill buf kcp =
     (let n = length (snd_queue kcp) in
      if n > 0 then
        let seg = snd_queue kcp ! (n - 1) in
        if length (seg_data seg) < unat (mss kcp) then
          let capacity = unat (mss kcp) - length (seg_data seg);
              extend = (if length buf < capacity then length buf else capacity);
              oldlen = length (seg_data seg)
          in if mtuLimit < oldlen + extend then None
             else let seg = seg\<lparr>seg_data := seg_data seg @ go_copy (replicate extend 0) buf\<rparr>
                  in Some (drop extend buf, kcp\<lparr>snd_queue := (snd_queue kcp)[n - 1 := seg]\<rparr>)
        else Some (buf, kcp)
      else Some (buf, kcp))"

text \<open>The fragment loop: \<open>left\<close> iterations remain, so \<open>i = cnt - left\<close>.\<close>

fun send_loop :: "nat \<Rightarrow> nat \<Rightarrow> bytes \<Rightarrow> KCP \<Rightarrow> KCP option" where
  "send_loop cnt 0 buf kcp = Some kcp"
| "send_loop cnt (Suc left) buf kcp =
     (let i = cnt - Suc left;
          size = (if length buf > unat (mss kcp) then unat (mss kcp) else length buf)
      in do {
        seg \<leftarrow> newSegment size;
        let seg = seg\<lparr>seg_data := go_copy (seg_data seg) (take size buf)\<rparr>;
        let seg = (if stream kcp = 0 then seg\<lparr>seg_frg := of_nat (cnt - i - 1)\<rparr>
                   else seg\<lparr>seg_frg := 0\<rparr>);
        send_loop cnt left (drop size buf) (kcp\<lparr>snd_queue := snd_queue kcp @ [seg]\<rparr>)
      })"

definition send_fragments :: "bytes \<Rightarrow> KCP \<Rightarrow> (int \<times> KCP) option" where
  "send_fragments buf kcp =
     (if length buf \<le> unat (mss kcp) then map_option (Pair 0) (send_loop 1 1 buf kcp)
      else if mss kcp = 0 then None
      else let cnt = (length buf + unat (mss kcp) - 1) div unat (mss kcp)
           in if cnt > 255 then Some (-2, kcp)
              else let cnt = (if cnt = 0 then 1 else cnt)
                   in map_option (Pair 0) (send_loop cnt cnt buf kcp))"

definition Send :: "bytes \<Rightarrow> KCP \<Rightarrow> (int \<times> KCP) option" where
  "Send buf kcp =
     (if buf = [] then Some (-1, kcp)
      else if stream kcp \<noteq> 0 then do {
        (buf, kcp) \<leftarrow> stream_fill buf kcp;
        if buf = [] then Some (0, kcp) else send_fragments buf kcp
      }
      else send_fragments buf kcp)"

subsection \<open>The fragments one call appends\<close>

text \<open>Fresh segments: never transmitted, never acknowledged.\<close>

definition fresh :: "segment \<Rightarrow> bool" where
  "fresh seg \<longleftrightarrow> seg_acked seg = 0 \<and> seg_xmit seg = 0 \<and> seg_fastack seg = 0"

definition frag_numbers :: "KCP \<Rightarrow> nat \<Rightarrow> u8 list" where
  "frag_numbers kcp n = (if stream kcp = 0 then map of_nat (rev [0..<n]) else replicate n 0)"

lemma send_loop_ok:
  assumes "0 < unat (mss kcp)" "unat (mss kcp) \<le> mtuLimit"
    "length buf \<le> left * unat (mss kcp)" "left \<le> cnt"
  shows "\<exists>segs. send_loop cnt left buf kcp = Some (kcp\<lparr>snd_queue := snd_queue kcp @ segs\<rparr>)
     \<and> length segs = left \<and> payload segs = buf
     \<and> (\<forall>s \<in> set segs. fresh s \<and> length (seg_data s) \<le> unat (mss kcp))
     \<and> map seg_frg segs = frag_numbers kcp left"
  using assms
proof (induction left arbitrary: buf kcp)
  case 0
  then show ?case by (intro exI [of _ "[]"]) (simp add: frag_numbers_def)
next
  case (Suc left)
  let ?m = "unat (mss kcp)"
  let ?size = "if length buf > ?m then ?m else length buf"
  let ?seg = "segment0\<lparr>seg_data := take ?size buf,
      seg_frg := if stream kcp = 0 then of_nat left else 0\<rparr>"
  let ?kcp = "kcp\<lparr>snd_queue := snd_queue kcp @ [?seg]\<rparr>"
  have size: "?size \<le> mtuLimit" "?size \<le> length buf"
    using Suc.prems(2) by auto
  have num: "cnt - (cnt - Suc left) - 1 = left"
    using Suc.prems(4) by simp
  have copy: "go_copy (replicate ?size 0) (take ?size buf) = take ?size buf"
    using size(2) by (simp add: go_copy_def)
  have step: "send_loop cnt (Suc left) buf kcp = send_loop cnt left (drop ?size buf) ?kcp"
    using size copy num by (auto simp: newSegment_def Let_def)
  have "length (drop ?size buf) \<le> left * unat (mss ?kcp)"
    using Suc.prems(3) by (auto simp: algebra_simps)
  with Suc.IH [of ?kcp "drop ?size buf"] Suc.prems obtain segs where
    IH: "send_loop cnt left (drop ?size buf) ?kcp = Some (?kcp\<lparr>snd_queue := snd_queue ?kcp @ segs\<rparr>)"
    and segs: "length segs = left" "payload segs = drop ?size buf"
      "\<forall>s \<in> set segs. fresh s \<and> length (seg_data s) \<le> ?m"
      "map seg_frg segs = frag_numbers kcp left"
    by (auto simp: frag_numbers_def)
  have "fresh ?seg \<and> length (seg_data ?seg) \<le> ?m"
    by (auto simp: fresh_def segment0_def)
  moreover have "payload (?seg # segs) = buf"
    using segs(2) by simp
  moreover have "map seg_frg (?seg # segs) = frag_numbers kcp (Suc left)"
    using segs(4) by (simp add: frag_numbers_def)
  moreover have "send_loop cnt (Suc left) buf kcp = Some (kcp\<lparr>snd_queue := snd_queue kcp @ (?seg # segs)\<rparr>)"
    using step IH by simp
  ultimately show ?case
    using segs by (intro exI [of _ "?seg # segs"]) auto
qed

text \<open>How many fragments a buffer takes.\<close>

definition frag_count :: "bytes \<Rightarrow> KCP \<Rightarrow> nat" where
  "frag_count buf kcp =
     (if length buf \<le> unat (mss kcp) then 1
      else (length buf + unat (mss kcp) - 1) div unat (mss kcp))"

lemma ceil_div_mult: "0 < m \<Longrightarrow> (n :: nat) \<le> (n + m - 1) div m * m"
proof -
  assume m: "0 < m"
  have "(n + m - 1) div m * m + (n + m - 1) mod m = n + m - 1" by simp
  moreover have "(n + m - 1) mod m < m" using m by simp
  ultimately show ?thesis using m by linarith
qed

lemma frag_count_pos: "0 < unat (mss kcp) \<Longrightarrow> 0 < frag_count buf kcp"
  by (auto simp: frag_count_def div_greater_zero_iff)

lemma send_fragments_ok:
  assumes "0 < unat (mss kcp)" "unat (mss kcp) \<le> mtuLimit" "frag_count buf kcp \<le> 255"
  shows "\<exists>segs. send_fragments buf kcp = Some (0, kcp\<lparr>snd_queue := snd_queue kcp @ segs\<rparr>)
     \<and> length segs = frag_count buf kcp \<and> payload segs = buf
     \<and> (\<forall>s \<in> set segs. fresh s \<and> length (seg_data s) \<le> unat (mss kcp))
     \<and> map seg_frg segs = frag_numbers kcp (frag_count buf kcp)"
proof -
  have len: "length buf \<le> frag_count buf kcp * unat (mss kcp)"
    using ceil_div_mult [OF assms(1), of "length buf"] by (simp add: frag_count_def)
  from send_loop_ok [OF assms(1,2) len order_refl] obtain segs where
    segs: "send_loop (frag_count buf kcp) (frag_count buf kcp) buf kcp =
        Some (kcp\<lparr>snd_queue := snd_queue kcp @ segs\<rparr>)"
      "length segs = frag_count buf kcp" "payload segs = buf"
      "\<forall>s \<in> set segs. fresh s \<and> length (seg_data s) \<le> unat (mss kcp)"
      "map seg_frg segs = frag_numbers kcp (frag_count buf kcp)"
    by blast
  have "send_fragments buf kcp = Some (0, kcp\<lparr>snd_queue := snd_queue kcp @ segs\<rparr>)"
  proof (cases "length buf \<le> unat (mss kcp)")
    case True
    with segs(1) show ?thesis by (simp add: send_fragments_def frag_count_def)
  next
    case False
    then have cnt: "frag_count buf kcp = (length buf + unat (mss kcp) - 1) div unat (mss kcp)"
      by (simp add: frag_count_def)
    have "mss kcp \<noteq> 0" using assms(1) by auto
    with False assms(3) segs(1) frag_count_pos [OF assms(1), of buf] show ?thesis
      unfolding send_fragments_def Let_def cnt by simp
  qed
  with segs show ?thesis by blast
qed

lemma send_fragments_too_many:
  "0 < unat (mss kcp) \<Longrightarrow> 255 < frag_count buf kcp \<Longrightarrow> send_fragments buf kcp = Some (-2, kcp)"
  by (auto simp: send_fragments_def frag_count_def Let_def split: if_splits)

lemma stream_fill_ok:
  assumes "unat (mss kcp) \<le> mtuLimit"
  shows "\<exists>rest q. stream_fill buf kcp = Some (rest, kcp\<lparr>snd_queue := q\<rparr>)
     \<and> length q = length (snd_queue kcp)
     \<and> payload q @ rest = payload (snd_queue kcp) @ buf
     \<and> (\<forall>s \<in> set q. s \<in> set (snd_queue kcp) \<or> length (seg_data s) \<le> unat (mss kcp)
           \<and> (\<exists>t \<in> set (snd_queue kcp). s = t\<lparr>seg_data := seg_data s\<rparr>))"
proof (cases "snd_queue kcp = [] \<or> unat (mss kcp) \<le> length (seg_data (last (snd_queue kcp)))")
  case True
  have "stream_fill buf kcp = Some (buf, kcp)"
  proof (cases "snd_queue kcp" rule: rev_cases)
    case Nil
    then show ?thesis by (simp add: stream_fill_def)
  next
    case (snoc q seg)
    with True show ?thesis by (simp add: stream_fill_def)
  qed
  then show ?thesis
    by (intro exI [of _ buf] exI [of _ "snd_queue kcp"]) simp
next
  case False
  define q where "q = butlast (snd_queue kcp)"
  define seg where "seg = last (snd_queue kcp)"
  have queue: "snd_queue kcp = q @ [seg]" and lt: "length (seg_data seg) < unat (mss kcp)"
    using False by (simp_all add: q_def seg_def)
  define capacity where "capacity = unat (mss kcp) - length (seg_data seg)"
  define extend where "extend = (if length buf < capacity then length buf else capacity)"
  define seg' where "seg' = seg\<lparr>seg_data := seg_data seg @ take extend buf\<rparr>"
  have ext: "extend \<le> length buf" "length (seg_data seg) + extend \<le> unat (mss kcp)"
    using lt by (auto simp: extend_def capacity_def)
  have copy: "go_copy (replicate extend 0) buf = take extend buf"
    using ext by (simp add: go_copy_def)
  have "stream_fill buf kcp = Some (drop extend buf, kcp\<lparr>snd_queue := q @ [seg']\<rparr>)"
    using lt ext(2) assms copy
    by (simp add: stream_fill_def queue Let_def seg'_def capacity_def [symmetric]
        extend_def [symmetric] list_update_append)
  moreover have "length (q @ [seg']) = length (snd_queue kcp)"
    by (simp add: queue)
  moreover have "payload (q @ [seg']) @ drop extend buf = payload (snd_queue kcp) @ buf"
    by (simp add: queue seg'_def)
  moreover have "\<forall>s \<in> set (q @ [seg']). s \<in> set (snd_queue kcp) \<or> length (seg_data s) \<le> unat (mss kcp)
        \<and> (\<exists>t \<in> set (snd_queue kcp). s = t\<lparr>seg_data := seg_data s\<rparr>)"
    using ext by (auto simp: queue seg'_def)
  ultimately show ?thesis by blast
qed

end
