(* ===== verification/KcpAck.thy ===== *)
theory KcpAck
  imports KcpSend
begin

section \<open>Acknowledgements (kcp.go: update\_ack to ack\_push)\<close>

text \<open>
  What an incoming acknowledgement does to the send buffer: \<open>parse_una\<close> drops the prefix the
  peer has received, \<open>parse_ack\<close> marks one segment, \<open>parse_fastack\<close> counts the segments that
  were overtaken, and \<open>update_ack\<close> feeds a round-trip sample to the retransmission timer.
  \<open>rx_srtt\<close> and \<open>rx_rttvar\<close> are \<open>int32\<close>: every operation is wrapped, and \<open>>>\<close> on them is an
  arithmetic shift.
\<close>

definition update_ack :: "int \<Rightarrow> KCP \<Rightarrow> KCP" where
  "update_ack rtt kcp =
     (let kcp = (if rx_srtt kcp = 0
                 then kcp\<lparr>rx_srtt := rtt, rx_rttvar := drop_bit 1 rtt\<rparr>
                 else let delta = i32 (rtt - rx_srtt kcp);
                          kcp = kcp\<lparr>rx_srtt := i32 (rx_srtt kcp + drop_bit 3 delta)\<rparr>;
                          delta = (if delta < 0 then i32 (- delta) else delta)
                      in if rtt < i32 (rx_srtt kcp - rx_rttvar kcp)
                         then kcp\<lparr>rx_rttvar :=
                                i32 (rx_rttvar kcp + drop_bit 5 (i32 (delta - rx_rttvar kcp)))\<rparr>
                         else kcp\<lparr>rx_rttvar :=
                                i32 (rx_rttvar kcp + drop_bit 2 (i32 (delta - rx_rttvar kcp)))\<rparr>);
          rto = word_of_int (rx_srtt kcp)
                + imax (interval kcp) (push_bit 2 (word_of_int (rx_rttvar kcp)))
      in kcp\<lparr>rx_rto := ibound (rx_minrto kcp) rto IKCP_RTO_MAX\<rparr>)"

definition shrink_buf :: "KCP \<Rightarrow> KCP" where
  "shrink_buf kcp =
     (case snd_buf kcp of
        seg # _ \<Rightarrow> kcp\<lparr>snd_una := seg_sn seg\<rparr>
      | [] \<Rightarrow> kcp\<lparr>snd_una := snd_nxt kcp\<rparr>)"

fun ack_loop :: "u32 \<Rightarrow> segment list \<Rightarrow> segment list" where
  "ack_loop sn [] = []"
| "ack_loop sn (seg # buf) =
     (if sn = seg_sn seg then delSegment (seg\<lparr>seg_acked := 1\<rparr>) # buf
      else if itimediff sn (seg_sn seg) < 0 then seg # buf
      else seg # ack_loop sn buf)"

definition parse_ack :: "u32 \<Rightarrow> KCP \<Rightarrow> KCP" where
  "parse_ack sn kcp =
     (if itimediff sn (snd_una kcp) < 0 \<or> itimediff sn (snd_nxt kcp) \<ge> 0 then kcp
      else kcp\<lparr>snd_buf := ack_loop sn (snd_buf kcp)\<rparr>)"

fun fastack_loop :: "u32 \<Rightarrow> u32 \<Rightarrow> segment list \<Rightarrow> segment list" where
  "fastack_loop sn ts [] = []"
| "fastack_loop sn ts (seg # buf) =
     (if itimediff sn (seg_sn seg) < 0 then seg # buf
      else if sn \<noteq> seg_sn seg \<and> itimediff (seg_ts seg) ts \<le> 0
      then seg\<lparr>seg_fastack := seg_fastack seg + 1\<rparr> # fastack_loop sn ts buf
      else seg # fastack_loop sn ts buf)"

definition parse_fastack :: "u32 \<Rightarrow> u32 \<Rightarrow> KCP \<Rightarrow> KCP" where
  "parse_fastack sn ts kcp =
     (if itimediff sn (snd_una kcp) < 0 \<or> itimediff sn (snd_nxt kcp) \<ge> 0 then kcp
      else kcp\<lparr>snd_buf := fastack_loop sn ts (snd_buf kcp)\<rparr>)"

text \<open>The counting loop of \<open>parse_una\<close>; the segments it passes are recycled and removed.\<close>

fun una_count :: "u32 \<Rightarrow> segment list \<Rightarrow> nat" where
  "una_count una [] = 0"
| "una_count una (seg # buf) =
     (if itimediff una (seg_sn seg) > 0 then Suc (una_count una buf) else 0)"

definition parse_una :: "u32 \<Rightarrow> KCP \<Rightarrow> KCP" where
  "parse_una una kcp =
     (let cnt = una_count una (snd_buf kcp) in
      if cnt > 0 then kcp\<lparr>snd_buf := remove_front (snd_buf kcp) cnt\<rparr> else kcp)"

definition ack_push :: "u32 \<Rightarrow> u32 \<Rightarrow> KCP \<Rightarrow> KCP" where
  "ack_push sn ts kcp = kcp\<lparr>acklist := acklist kcp @ [\<lparr>ack_sn = sn, ack_ts = ts\<rparr>]\<rparr>"

subsection \<open>The retransmission timeout\<close>

lemma update_ack_rto:
  "rx_minrto kcp \<le> IKCP_RTO_MAX \<Longrightarrow>
   rx_minrto kcp \<le> rx_rto (update_ack rtt kcp) \<and> rx_rto (update_ack rtt kcp) \<le> IKCP_RTO_MAX"
  by (simp add: update_ack_def Let_def ibound_le_upper ibound_ge_lower)

lemma update_ack_frame [frame_simps]:
  "snd_buf (update_ack rtt kcp) = snd_buf kcp" "snd_queue (update_ack rtt kcp) = snd_queue kcp"
  "rcv_buf (update_ack rtt kcp) = rcv_buf kcp" "rcv_queue (update_ack rtt kcp) = rcv_queue kcp"
  "snd_una (update_ack rtt kcp) = snd_una kcp" "snd_nxt (update_ack rtt kcp) = snd_nxt kcp"
  "rcv_nxt (update_ack rtt kcp) = rcv_nxt kcp" "rcv_wnd (update_ack rtt kcp) = rcv_wnd kcp"
  "acklist (update_ack rtt kcp) = acklist kcp" "mss (update_ack rtt kcp) = mss kcp"
  "mtu (update_ack rtt kcp) = mtu kcp" "buffer (update_ack rtt kcp) = buffer kcp"
  "reserved (update_ack rtt kcp) = reserved kcp" "kconv (update_ack rtt kcp) = kconv kcp"
  by (simp_all add: update_ack_def Let_def)

subsection \<open>The send buffer\<close>

text \<open>
  The sender's invariant: \<open>snd_buf\<close> holds exactly the sequence numbers from \<open>snd_una\<close> up to
  \<open>snd_nxt\<close>, in order and without a gap.
\<close>

definition send_inv :: "KCP \<Rightarrow> bool" where
  "send_inv kcp \<longleftrightarrow>
     map seg_sn (snd_buf kcp) = seqs (snd_una kcp) (length (snd_buf kcp))
     \<and> snd_nxt kcp = snd_una kcp + of_nat (length (snd_buf kcp))
     \<and> length (snd_buf kcp) < 2 ^ 31"

lemma send_inv_nth: "send_inv kcp \<Longrightarrow> i < length (snd_buf kcp) \<Longrightarrow>
    seg_sn (snd_buf kcp ! i) = snd_una kcp + of_nat i"
  unfolding send_inv_def by (metis nth_map nth_seqs)

lemma seqs_nth_offset:
  assumes "map key b = seqs r (length b)" "length b \<le> 2 ^ 32" "i < length b"
  shows "unat (key (b ! i) - r) = i"
proof -
  have "key (b ! i) = r + of_nat i"
    using assms by (metis nth_map nth_seqs)
  then show ?thesis
    using assms unat_of_nat_u32 [of i] by simp
qed

text \<open>
  In a gapless buffer the early exits of the two loops change nothing: each loop is a map over
  the whole buffer.
\<close>

lemma ack_loop_map:
  assumes "map seg_sn buf = seqs r (length buf)" "length buf < 2 ^ 31" "unat (sn - r) < 2 ^ 31"
  shows "ack_loop sn buf =
     map (\<lambda>s. if seg_sn s = sn then delSegment (s\<lparr>seg_acked := 1\<rparr>) else s) buf"
  using assms
proof (induction buf arbitrary: r)
  case Nil
  show ?case by simp
next
  case (Cons s buf)
  have sn: "seg_sn s = r" and rest: "map seg_sn buf = seqs (r + 1) (length buf)"
    using Cons.prems(1) by (simp_all add: seqs_Suc)
  have later: "seg_sn t \<noteq> r" if "t \<in> set buf" for t
  proof -
    from that obtain i where i: "i < length buf" "t = buf ! i"
      by (metis in_set_conv_nth)
    then have "unat (seg_sn ((s # buf) ! Suc i) - r) = Suc i"
      using Cons.prems(1,2) by (intro seqs_nth_offset) auto
    with i show ?thesis by auto
  qed
  show ?case
  proof (cases "sn = r")
    case True
    with sn later show ?thesis by (auto intro: map_idI [symmetric])
  next
    case False
    then have "unat (sn - r) \<noteq> 0" by (simp add: unat_eq_0)
    then have "unat (sn - (r + 1)) = unat (sn - r) - 1"
      using unat_offset_step [of 1 sn r] by simp
    with Cons.prems(3) have "unat (sn - (r + 1)) < 2 ^ 31" by simp
    moreover have "\<not> itimediff sn r < 0"
      using Cons.prems(3) by (simp add: itimediff_neg_iff not_le)
    ultimately show ?thesis
      using False sn Cons.IH [OF rest] Cons.prems(2) by simp
  qed
qed

lemma fastack_loop_map:
  assumes "map seg_sn buf = seqs r (length buf)" "length buf < 2 ^ 31" "unat (sn - r) < 2 ^ 31"
  shows "fastack_loop sn ts buf =
     map (\<lambda>s. if unat (seg_sn s - r) < unat (sn - r) \<and> itimediff (seg_ts s) ts \<le> 0
              then s\<lparr>seg_fastack := seg_fastack s + 1\<rparr> else s) buf"
proof -
  have gen: "fastack_loop sn ts b =
     map (\<lambda>s. if unat (seg_sn s - r) < unat (sn - r) \<and> itimediff (seg_ts s) ts \<le> 0
              then s\<lparr>seg_fastack := seg_fastack s + 1\<rparr> else s) b"
    if "seq_ordered seg_sn r b" for b
    using that
  proof (induction b)
    case Nil
    show ?case by simp
  next
    case (Cons s b)
    have diff: "itimediff sn (seg_sn s) = int (unat (sn - r)) - int (unat (seg_sn s - r))"
      using assms(3) Cons.prems by (intro itimediff_offsets) (simp_all add: seq_ordered_Cons)
    show ?case
    proof (cases "itimediff sn (seg_sn s) < 0")
      case True
      with diff have "unat (sn - r) < unat (seg_sn s - r)" by linarith
      with Cons.prems True show ?thesis
        by (auto simp: seq_ordered_Cons intro!: map_idI [symmetric] dest: bspec)
    next
      case False
      have "sn \<noteq> seg_sn s \<longleftrightarrow> unat (seg_sn s - r) \<noteq> unat (sn - r)"
        by (auto simp: offset_eq_iff)
      with False diff have "sn \<noteq> seg_sn s \<longleftrightarrow> unat (seg_sn s - r) < unat (sn - r)"
        by linarith
      with False Cons show ?thesis by (simp add: seq_ordered_Cons)
    qed
  qed
  have off: "unat (seg_sn (buf ! i) - r) = i" if "i < length buf" for i
    using assms(1,2) that by (intro seqs_nth_offset) simp_all
  have "seq_ordered seg_sn r buf"
    unfolding seq_ordered_def using off assms(2)
    by (auto simp: sorted_wrt_iff_nth_less in_set_conv_nth)
  then show ?thesis by (rule gen)
qed

lemma in_flight_offset:
  assumes "send_inv kcp" "\<not> (itimediff sn (snd_una kcp) < 0 \<or> itimediff sn (snd_nxt kcp) \<ge> 0)"
  shows "unat (sn - snd_una kcp) < length (snd_buf kcp)"
proof (rule ccontr)
  assume "\<not> ?thesis"
  then have "unat (sn - (snd_una kcp + of_nat (length (snd_buf kcp)))) =
      unat (sn - snd_una kcp) - length (snd_buf kcp)"
    by (intro unat_offset_step) simp
  moreover have "unat (sn - snd_una kcp) < 2 ^ 31"
    using assms(2) by (simp add: itimediff_neg_iff not_le)
  ultimately have "0 \<le> itimediff sn (snd_nxt kcp)"
    using assms(1) by (simp add: send_inv_def itimediff_nonneg_iff)
  with assms(2) show False by simp
qed

lemma ack_loop_sn [simp]: "map seg_sn (ack_loop sn buf) = map seg_sn buf"
  by (induction sn buf rule: ack_loop.induct) (auto simp: delSegment_def)

lemma fastack_loop_sn [simp]: "map seg_sn (fastack_loop sn ts buf) = map seg_sn buf"
  by (induction sn ts buf rule: fastack_loop.induct) auto

lemma ack_loop_length [simp]: "length (ack_loop sn buf) = length buf"
  by (metis ack_loop_sn length_map)

lemma fastack_loop_length [simp]: "length (fastack_loop sn ts buf) = length buf"
  by (metis fastack_loop_sn length_map)

lemma parse_ack_inv: "send_inv kcp \<Longrightarrow> send_inv (parse_ack sn kcp)"
  by (simp add: send_inv_def parse_ack_def)

lemma parse_fastack_inv: "send_inv kcp \<Longrightarrow> send_inv (parse_fastack sn ts kcp)"
  by (simp add: send_inv_def parse_fastack_def)

lemma una_count_le: "una_count una buf \<le> length buf"
  by (induction una buf rule: una_count.induct) auto

lemma parse_una_eq: "parse_una una kcp = kcp\<lparr>snd_buf := drop (una_count una (snd_buf kcp)) (snd_buf kcp)\<rparr>"
  by (simp add: parse_una_def Let_def remove_front_eq)

lemma shrink_buf_eq:
  assumes "map seg_sn (snd_buf kcp) = seqs r (length (snd_buf kcp))"
    "snd_nxt kcp = r + of_nat (length (snd_buf kcp))"
  shows "shrink_buf kcp = kcp\<lparr>snd_una := r\<rparr>"
  using assms by (cases "snd_buf kcp") (auto simp: shrink_buf_def seqs_Suc)

text \<open>A cumulative acknowledgement: the two calls \<open>Input\<close> makes, taken together.\<close>

lemma parse_una_shrink:
  fixes una :: u32
  assumes "send_inv kcp"
  defines "c \<equiv> una_count una (snd_buf kcp)"
  shows "shrink_buf (parse_una una kcp) =
     kcp\<lparr>snd_buf := drop c (snd_buf kcp), snd_una := snd_una kcp + of_nat c\<rparr>"
proof -
  have c: "c \<le> length (snd_buf kcp)" by (simp add: c_def una_count_le)
  let ?k = "kcp\<lparr>snd_buf := drop c (snd_buf kcp)\<rparr>"
  have "map seg_sn (snd_buf ?k) = drop c (map seg_sn (snd_buf kcp))"
    by (simp add: drop_map)
  also have "\<dots> = seqs (snd_una kcp + of_nat c) (length (snd_buf ?k))"
    using assms(1) by (simp add: send_inv_def seqs_drop)
  finally have sns: "map seg_sn (snd_buf ?k) = seqs (snd_una kcp + of_nat c) (length (snd_buf ?k))" .
  have "snd_nxt kcp = snd_una kcp + of_nat (c + (length (snd_buf kcp) - c))"
    using assms(1) c by (simp add: send_inv_def)
  then have nxt: "snd_nxt ?k = snd_una kcp + of_nat c + of_nat (length (snd_buf ?k))"
    by (simp add: add_ac)
  show ?thesis
    unfolding parse_una_eq c_def [symmetric] shrink_buf_eq [OF sns nxt] by simp
qed

lemma parse_una_shrink_inv:
  assumes "send_inv kcp"
  shows "send_inv (shrink_buf (parse_una una kcp))"
proof -
  let ?c = "una_count una (snd_buf kcp)"
  have c: "?c \<le> length (snd_buf kcp)" by (rule una_count_le)
  have "map seg_sn (drop ?c (snd_buf kcp)) = drop ?c (map seg_sn (snd_buf kcp))"
    by (simp add: drop_map)
  also have "\<dots> = seqs (snd_una kcp + of_nat ?c) (length (snd_buf kcp) - ?c)"
    using assms by (simp add: send_inv_def seqs_drop)
  finally have sns: "map seg_sn (drop ?c (snd_buf kcp)) =
      seqs (snd_una kcp + of_nat ?c) (length (snd_buf kcp) - ?c)" .
  have "snd_nxt kcp = snd_una kcp + of_nat (?c + (length (snd_buf kcp) - ?c))"
    using assms c by (simp add: send_inv_def)
  with sns assms show ?thesis
    by (auto simp: parse_una_shrink send_inv_def add_ac)
qed

text \<open>How far a cumulative acknowledgement reaches, for one inside the window.\<close>

lemma una_count_offset:
  assumes "map seg_sn buf = seqs r (length buf)" "length buf < 2 ^ 31" "unat (una - r) < 2 ^ 31"
  shows "una_count una buf = min (unat (una - r)) (length buf)"
  using assms
proof (induction buf arbitrary: r)
  case Nil
  show ?case by simp
next
  case (Cons s buf)
  have sn: "seg_sn s = r" and rest: "map seg_sn buf = seqs (r + 1) (length buf)"
    using Cons.prems(1) by (simp_all add: seqs_Suc)
  have diff: "itimediff una r = int (unat (una - r))"
    using Cons.prems(3) itimediff_offsets [of una r r] by (simp del: of_nat_unat)
  show ?case
  proof (cases "una = r")
    case True
    with sn show ?thesis by simp
  next
    case False
    then have pos: "0 < unat (una - r)" by (simp add: unat_gt_0)
    then have step: "unat (una - (r + 1)) = unat (una - r) - 1"
      using unat_offset_step [of 1 una r] by simp
    with Cons.prems(3) have "unat (una - (r + 1)) < 2 ^ 31" by simp
    with Cons.IH [OF rest] Cons.prems(2) have
      "una_count una buf = min (unat (una - r) - 1) (length buf)"
      by (simp add: step)
    moreover have "0 < itimediff una r"
      using diff pos by linarith
    ultimately show ?thesis
      using pos sn by auto
  qed
qed

lemma una_count_behind:
  assumes "map seg_sn buf = seqs r (length buf)" "\<not> 0 < itimediff una r"
  shows "una_count una buf = 0"
  using assms by (cases buf) (auto simp: seqs_Suc)

end
