(* ===== verification/KcpFlush.thy ===== *)
theory KcpFlush
  imports KcpAck
begin

section \<open>Flushing pending data (kcp.go: flush)\<close>

text \<open>
  \<open>flush\<close> assembles packets in the scratch buffer behind the reserved prefix: pending
  acknowledgements, window probes, and the segments of \<open>snd_buf\<close> that are due. \<open>ptr\<close> is a
  cursor into the buffer, so \<open>len(buffer) - len(ptr)\<close> is the length of the buffer less the
  room behind the cursor. A packet goes to the output callback with \<open>emit\<close>. The result is
  \<^const>\<open>None\<close> where a slice expression of the code panics. The phases of the function are
  definitions of their own, composed in \<open>flush\<close>.
\<close>

definition ptr0 :: "KCP \<Rightarrow> cursor" where
  "ptr0 kcp = ([], length (buffer kcp) - reserved kcp)"

definition emit :: "bytes \<Rightarrow> world \<Rightarrow> world" where
  "emit p w = w\<lparr>outs := outs w @ [p]\<rparr>"

definition makeSpace :: "KCP \<Rightarrow> nat \<Rightarrow> cursor \<times> world \<Rightarrow> cursor \<times> world" where
  "makeSpace kcp space = (\<lambda>(ptr, w).
     let size = length (buffer kcp) - snd ptr
     in if size + space > unat (mtu kcp) then (ptr0 kcp, emit (fst ptr) w) else (ptr, w))"

definition flushBuffer :: "KCP \<Rightarrow> cursor \<times> world \<Rightarrow> world" where
  "flushBuffer kcp = (\<lambda>(ptr, w).
     let size = length (buffer kcp) - snd ptr
     in if size > reserved kcp then emit (fst ptr) w else w)"

subsection \<open>Acknowledgements\<close>

definition flush_seg :: "KCP \<Rightarrow> segment" where
  "flush_seg kcp = segment0\<lparr>seg_conv := kconv kcp, seg_cmd := IKCP_CMD_ACK,
     seg_wnd := wnd_unused kcp, seg_una := rcv_nxt kcp\<rparr>"

text \<open>\<open>len(kcp.acklist)-1 == i\<close> holds at the last item.\<close>

fun flush_acks ::
  "KCP \<Rightarrow> segment \<Rightarrow> ackItem list \<Rightarrow> cursor \<times> world \<Rightarrow> (segment \<times> cursor \<times> world) option" where
  "flush_acks kcp seg [] st = Some (seg, st)"
| "flush_acks kcp seg (ack # acks) st =
     (let st = makeSpace kcp IKCP_OVERHEAD st in
      if ack_sn ack \<ge> rcv_nxt kcp \<or> acks = []
      then let seg = seg\<lparr>seg_sn := ack_sn ack, seg_ts := ack_ts ack\<rparr>
           in do { st \<leftarrow> segment_encode seg st; flush_acks kcp seg acks st }
      else flush_acks kcp seg acks st)"

subsection \<open>Window probes\<close>

definition probe_window :: "(nat \<Rightarrow> u32) \<Rightarrow> KCP \<Rightarrow> world \<Rightarrow> KCP \<times> world" where
  "probe_window clk kcp w =
     (if rmt_wnd kcp = 0 then
        let (current, w) = currentMs clk w in
        if probe_wait kcp = 0 then
          let kcp = kcp\<lparr>probe_wait := IKCP_PROBE_INIT\<rparr>
          in (kcp\<lparr>ts_probe := current + probe_wait kcp\<rparr>, w)
        else if itimediff current (ts_probe kcp) \<ge> 0 then
          let kcp = (if probe_wait kcp < IKCP_PROBE_INIT
                     then kcp\<lparr>probe_wait := IKCP_PROBE_INIT\<rparr> else kcp);
              kcp = kcp\<lparr>probe_wait := probe_wait kcp + probe_wait kcp div 2\<rparr>;
              kcp = (if probe_wait kcp > IKCP_PROBE_LIMIT
                     then kcp\<lparr>probe_wait := IKCP_PROBE_LIMIT\<rparr> else kcp);
              kcp = kcp\<lparr>ts_probe := current + probe_wait kcp\<rparr>
          in (kcp\<lparr>probe := probe kcp OR IKCP_ASK_SEND\<rparr>, w)
        else (kcp, w)
      else (kcp\<lparr>ts_probe := 0, probe_wait := 0\<rparr>, w))"

definition flush_cmd ::
  "KCP \<Rightarrow> u32 \<Rightarrow> u8 \<Rightarrow> segment \<times> cursor \<times> world \<Rightarrow> (segment \<times> cursor \<times> world) option" where
  "flush_cmd kcp ask cmd = (\<lambda>(seg, st).
     if probe kcp AND ask \<noteq> 0
     then let seg = seg\<lparr>seg_cmd := cmd\<rparr>
          in map_option (Pair seg) (segment_encode seg (makeSpace kcp IKCP_OVERHEAD st))
     else Some (seg, st))"

subsection \<open>The sliding window\<close>

definition flush_cwnd :: "KCP \<Rightarrow> u32" where
  "flush_cwnd kcp =
     (let c = imin (snd_wnd kcp) (rmt_wnd kcp)
      in if nocwnd kcp = 0 then imin (cwnd kcp) c else c)"

fun admit_loop :: "u32 \<Rightarrow> segment list \<Rightarrow> KCP \<Rightarrow> nat \<Rightarrow> KCP \<times> nat" where
  "admit_loop cw [] kcp n = (kcp, n)"
| "admit_loop cw (newseg # q) kcp n =
     (if itimediff (snd_nxt kcp) (snd_una kcp + cw) \<ge> 0 then (kcp, n)
      else let newseg = newseg\<lparr>seg_conv := kconv kcp, seg_cmd := IKCP_CMD_PUSH,
                               seg_sn := snd_nxt kcp\<rparr>
           in admit_loop cw q
                (kcp\<lparr>snd_buf := snd_buf kcp @ [newseg], snd_nxt := snd_nxt kcp + 1\<rparr>) (n + 1))"

definition admit :: "u32 \<Rightarrow> KCP \<Rightarrow> KCP \<times> nat" where
  "admit cw kcp =
     (let (kcp, n) = admit_loop cw (snd_queue kcp) kcp 0
      in (if n > 0 then kcp\<lparr>snd_queue := remove_front (snd_queue kcp) n\<rparr> else kcp, n))"

subsection \<open>Transmission and retransmission\<close>

text \<open>The local variables of the loop, with \<open>kcp.state\<close>, the only field of \<open>kcp\<close> it writes.\<close>

record rt =
  rt_current :: u32
  rt_change :: u64
  rt_lost :: u64
  rt_lostSegs :: u64
  rt_fast :: u64
  rt_early :: u64
  rt_minrto :: int
  rt_st :: "cursor \<times> world"
  rt_state :: u32

definition flush_resent :: "KCP \<Rightarrow> u32" where
  "flush_resent kcp = (if fastresend kcp \<le> 0 then 0xffffffff else word_of_int (fastresend kcp))"

text \<open>Whether a segment is due, and its timer.\<close>

definition xmit_choose :: "KCP \<Rightarrow> u32 \<Rightarrow> nat \<Rightarrow> segment \<Rightarrow> rt \<Rightarrow> bool \<times> segment \<times> rt" where
  "xmit_choose kcp resent newSegs seg r =
     (if seg_xmit seg = 0 then
        (True, seg\<lparr>seg_rto := rx_rto kcp, seg_resendts := rt_current r + rx_rto kcp\<rparr>, r)
      else if itimediff (rt_current r) (seg_resendts seg) \<ge> 0 then
        let seg = (if nodelay kcp = 0 then seg\<lparr>seg_rto := seg_rto seg + rx_rto kcp\<rparr>
                   else seg\<lparr>seg_rto := seg_rto seg + rx_rto kcp div 2\<rparr>)
        in (True, seg\<lparr>seg_resendts := rt_current r + seg_rto seg\<rparr>,
            r\<lparr>rt_lost := rt_lost r + 1, rt_lostSegs := rt_lostSegs r + 1\<rparr>)
      else if seg_fastack seg \<ge> resent then
        (True, seg\<lparr>seg_fastack := 0, seg_rto := rx_rto kcp,
                   seg_resendts := rt_current r + rx_rto kcp\<rparr>,
         r\<lparr>rt_change := rt_change r + 1, rt_fast := rt_fast r + 1\<rparr>)
      else if seg_fastack seg > 0 \<and> newSegs = 0 then
        (True, seg\<lparr>seg_fastack := 0, seg_rto := rx_rto kcp,
                   seg_resendts := rt_current r + rx_rto kcp\<rparr>,
         r\<lparr>rt_change := rt_change r + 1, rt_early := rt_early r + 1\<rparr>)
      else (False, seg, r))"

definition xmit_send :: "(nat \<Rightarrow> u32) \<Rightarrow> KCP \<Rightarrow> segment \<Rightarrow> segment \<Rightarrow> rt \<Rightarrow> (segment \<times> rt) option" where
  "xmit_send clk kcp hd_seg seg r =
     (let (ptr, w) = rt_st r;
          (current, w) = currentMs clk w;
          seg = seg\<lparr>seg_xmit := seg_xmit seg + 1, seg_ts := current,
                    seg_wnd := seg_wnd hd_seg, seg_una := seg_una hd_seg\<rparr>;
          need = IKCP_OVERHEAD + length (seg_data seg)
      in do {
        (ptr, w) \<leftarrow> segment_encode seg (makeSpace kcp need (ptr, w));
        if snd ptr < length (seg_data seg) then None
        else let ptr = (fst ptr @ seg_data seg, snd ptr - length (seg_data seg));
                 st = (if seg_xmit seg \<ge> dead_link kcp then 0xFFFFFFFF else rt_state r)
             in Some (seg, r\<lparr>rt_current := current, rt_st := (ptr, w), rt_state := st\<rparr>)
      })"

definition xmit_seg ::
  "(nat \<Rightarrow> u32) \<Rightarrow> KCP \<Rightarrow> segment \<Rightarrow> u32 \<Rightarrow> nat \<Rightarrow> segment \<Rightarrow> rt \<Rightarrow> (segment \<times> rt) option" where
  "xmit_seg clk kcp hd_seg resent newSegs seg r =
     (if seg_acked seg = 1 then Some (seg, r)
      else let (needsend, seg, r) = xmit_choose kcp resent newSegs seg r
           in do {
             (seg, r) \<leftarrow> (if needsend then xmit_send clk kcp hd_seg seg r else Some (seg, r));
             let rto = itimediff (seg_resendts seg) (rt_current r);
             Some (seg, if rto > 0 \<and> rto < rt_minrto r then r\<lparr>rt_minrto := rto\<rparr> else r)
           })"

fun xmit_loop ::
  "(nat \<Rightarrow> u32) \<Rightarrow> KCP \<Rightarrow> segment \<Rightarrow> u32 \<Rightarrow> nat \<Rightarrow> segment list \<Rightarrow> rt \<Rightarrow> (segment list \<times> rt) option" where
  "xmit_loop clk kcp hd_seg resent newSegs [] r = Some ([], r)"
| "xmit_loop clk kcp hd_seg resent newSegs (seg # buf) r = do {
     (seg, r) \<leftarrow> xmit_seg clk kcp hd_seg resent newSegs seg r;
     (buf, r) \<leftarrow> xmit_loop clk kcp hd_seg resent newSegs buf r;
     Some (seg # buf, r)
   }"

subsection \<open>Counters and the congestion window\<close>

definition flush_count :: "rt \<Rightarrow> world \<Rightarrow> world" where
  "flush_count r w =
     (let total = rt_lostSegs r;
          w = (if rt_lostSegs r > 0 then count (\<lambda>s. s\<lparr>LostSegs := LostSegs s + rt_lostSegs r\<rparr>) w
               else w);
          w = (if rt_fast r > 0
               then count (\<lambda>s. s\<lparr>FastRetransSegs := FastRetransSegs s + rt_fast r\<rparr>) w else w);
          total = (if rt_fast r > 0 then total + rt_fast r else total);
          w = (if rt_early r > 0
               then count (\<lambda>s. s\<lparr>EarlyRetransSegs := EarlyRetransSegs s + rt_early r\<rparr>) w else w);
          total = (if rt_early r > 0 then total + rt_early r else total)
      in if total > 0 then count (\<lambda>s. s\<lparr>RetransSegs := RetransSegs s + total\<rparr>) w else w)"

definition flush_congestion :: "u32 \<Rightarrow> u32 \<Rightarrow> rt \<Rightarrow> KCP \<Rightarrow> KCP" where
  "flush_congestion cw resent r kcp =
     (if nocwnd kcp = 0 then
        let kcp = (if rt_change r > 0 then
                     let inflight = snd_nxt kcp - snd_una kcp;
                         kcp = kcp\<lparr>ssthresh := inflight div 2\<rparr>;
                         kcp = (if ssthresh kcp < IKCP_THRESH_MIN
                                then kcp\<lparr>ssthresh := IKCP_THRESH_MIN\<rparr> else kcp);
                         kcp = kcp\<lparr>cwnd := ssthresh kcp + resent\<rparr>
                     in kcp\<lparr>incr := cwnd kcp * mss kcp\<rparr>
                   else kcp);
            kcp = (if rt_lost r > 0 then
                     let kcp = kcp\<lparr>ssthresh := cw div 2\<rparr>;
                         kcp = (if ssthresh kcp < IKCP_THRESH_MIN
                                then kcp\<lparr>ssthresh := IKCP_THRESH_MIN\<rparr> else kcp)
                     in kcp\<lparr>cwnd := 1, incr := mss kcp\<rparr>
                   else kcp)
        in if cwnd kcp < 1 then kcp\<lparr>cwnd := 1, incr := mss kcp\<rparr> else kcp
      else kcp)"

subsection \<open>flush\<close>

definition flush_data ::
  "(nat \<Rightarrow> u32) \<Rightarrow> KCP \<Rightarrow> segment \<Rightarrow> cursor \<times> world \<Rightarrow> (u32 \<times> KCP \<times> world) option" where
  "flush_data clk kcp seg st =
     (let cw = flush_cwnd kcp;
          (kcp, newSegs) = admit cw kcp;
          resent = flush_resent kcp;
          (ptr, w) = st;
          (current, w) = currentMs clk w;
          r = \<lparr>rt_current = current, rt_change = 0, rt_lost = 0, rt_lostSegs = 0, rt_fast = 0,
               rt_early = 0, rt_minrto = sint (interval kcp), rt_st = (ptr, w),
               rt_state = kstate kcp\<rparr>
      in do {
        (buf, r) \<leftarrow> xmit_loop clk kcp seg resent newSegs (snd_buf kcp) r;
        let kcp = kcp\<lparr>snd_buf := buf, kstate := rt_state r\<rparr>;
        let w = flush_count r (flushBuffer kcp (rt_st r));
        Some (word_of_int (rt_minrto r), flush_congestion cw resent r kcp, w)
      })"

definition flush :: "(nat \<Rightarrow> u32) \<Rightarrow> bool \<Rightarrow> KCP \<Rightarrow> world \<Rightarrow> (u32 \<times> KCP \<times> world) option" where
  "flush clk ackOnly kcp w =
     (if length (buffer kcp) < reserved kcp then None
      else do {
        (seg, st) \<leftarrow> flush_acks kcp (flush_seg kcp) (acklist kcp) (ptr0 kcp, w);
        let kcp = kcp\<lparr>acklist := []\<rparr>;
        if ackOnly then Some (interval kcp, kcp, flushBuffer kcp st)
        else let (ptr, w) = st; (kcp, w) = probe_window clk kcp w in do {
          (seg, st) \<leftarrow> flush_cmd kcp IKCP_ASK_SEND IKCP_CMD_WASK (seg, ptr, w);
          (seg, st) \<leftarrow> flush_cmd kcp IKCP_ASK_TELL IKCP_CMD_WINS (seg, st);
          flush_data clk (kcp\<lparr>probe := 0\<rparr>) seg st
        }
      })"

end
