(* ===== verification/KcpInput.thy ===== *)
theory KcpInput
  imports KcpFlush
begin

section \<open>Incoming packets and the timers (kcp.go: Input, Update, Check)\<close>

text \<open>
  \<open>Input\<close> reads segments off a packet until fewer than \<open>IKCP_OVERHEAD\<close> bytes are left, and
  dispatches on the command. An error returns at once: what earlier segments did stays. The
  loop is a recursion on the packet, which gets shorter by at least one header per segment.
\<close>

subsection \<open>One segment\<close>

record header =
  h_cmd :: u8
  h_frg :: u8
  h_wnd :: u16
  h_ts :: u32
  h_sn :: u32
  h_una :: u32
  h_length :: u32

definition decode_header :: "bytes \<Rightarrow> (header \<times> bytes) option" where
  "decode_header data = do {
     (cmd, data) \<leftarrow> ikcp_decode8u data;
     (frg, data) \<leftarrow> ikcp_decode8u data;
     (wnd, data) \<leftarrow> ikcp_decode16u data;
     (ts, data) \<leftarrow> ikcp_decode32u data;
     (sn, data) \<leftarrow> ikcp_decode32u data;
     (una, data) \<leftarrow> ikcp_decode32u data;
     (l, data) \<leftarrow> ikcp_decode32u data;
     Some (\<lparr>h_cmd = cmd, h_frg = frg, h_wnd = wnd, h_ts = ts, h_sn = sn, h_una = una,
            h_length = l\<rparr>, data)
   }"

text \<open>The local variables of the loop: \<open>latest\<close>, \<open>flag\<close> and \<open>inSegs\<close>.\<close>

record input_vars =
  iv_latest :: u32
  iv_flag :: int
  iv_inSegs :: u64

definition input_push :: "bool \<Rightarrow> u32 \<Rightarrow> header \<Rightarrow> bytes \<Rightarrow> KCP \<Rightarrow> world \<Rightarrow> (KCP \<times> world) option" where
  "input_push regular conv h data kcp w = do {
     (rep, kcp) \<leftarrow>
       (if itimediff (h_sn h) (rcv_nxt kcp + rcv_wnd kcp) < 0
        then let kcp = ack_push (h_sn h) (h_ts h) kcp in
          if itimediff (h_sn h) (rcv_nxt kcp) \<ge> 0
          then parse_data (segment0\<lparr>seg_conv := conv, seg_cmd := h_cmd h, seg_frg := h_frg h,
                 seg_wnd := h_wnd h, seg_ts := h_ts h, seg_sn := h_sn h, seg_una := h_una h,
                 seg_data := take (unat (h_length h)) data\<rparr>) kcp
          else Some (True, kcp)
        else Some (True, kcp));
     Some (kcp, if regular \<and> rep then count (\<lambda>s. s\<lparr>RepeatSegs := RepeatSegs s + 1\<rparr>) w else w)
   }"

definition input_dispatch ::
  "bool \<Rightarrow> u32 \<Rightarrow> header \<Rightarrow> bytes \<Rightarrow> KCP \<Rightarrow> world \<Rightarrow> input_vars \<Rightarrow> (KCP \<times> world \<times> input_vars) option" where
  "input_dispatch regular conv h data kcp w v =
     (let kcp = (if regular then kcp\<lparr>rmt_wnd := ucast (h_wnd h)\<rparr> else kcp);
          kcp = shrink_buf (parse_una (h_una h) kcp)
      in if h_cmd h = IKCP_CMD_ACK
         then let kcp = parse_fastack (h_sn h) (h_ts h) (parse_ack (h_sn h) kcp)
              in Some (kcp, w, v\<lparr>iv_flag := iv_flag v OR 1, iv_latest := h_ts h\<rparr>)
         else if h_cmd h = IKCP_CMD_PUSH
         then do { (kcp, w) \<leftarrow> input_push regular conv h data kcp w; Some (kcp, w, v) }
         else if h_cmd h = IKCP_CMD_WASK
         then Some (kcp\<lparr>probe := probe kcp OR IKCP_ASK_TELL\<rparr>, w, v)
         else Some (kcp, w, v))"

subsection \<open>The loop\<close>

text \<open>The outcome: an error code returned from inside the loop, or the end of the packet.\<close>

datatype input_result =
    Ret int KCP world
  | Fin KCP world input_vars

lemma decode_header_length: "decode_header data = Some (h, rest) \<Longrightarrow> length data = length rest + 20"
  by (auto simp: decode_header_def ikcp_decode8u_def ikcp_decode16u_def ikcp_decode32u_def
      bind_eq_Some_conv split: list.splits dest!: get_le32_Some)

function input_loop ::
  "bool \<Rightarrow> bytes \<Rightarrow> KCP \<Rightarrow> world \<Rightarrow> input_vars \<Rightarrow> input_result option" where
  "input_loop regular data kcp w v =
     (if length data < IKCP_OVERHEAD then Some (Fin kcp w v)
      else case ikcp_decode32u data of
        None \<Rightarrow> None
      | Some (conv, data) \<Rightarrow>
          if conv \<noteq> kconv kcp then Some (Ret (-1) kcp w)
          else case decode_header data of
            None \<Rightarrow> None
          | Some (h, data) \<Rightarrow>
              if length data < unat (h_length h) then Some (Ret (-2) kcp w)
              else if h_cmd h \<noteq> IKCP_CMD_PUSH \<and> h_cmd h \<noteq> IKCP_CMD_ACK
                      \<and> h_cmd h \<noteq> IKCP_CMD_WASK \<and> h_cmd h \<noteq> IKCP_CMD_WINS
              then Some (Ret (-3) kcp w)
              else case input_dispatch regular conv h data kcp w v of
                None \<Rightarrow> None
              | Some (kcp, w, v) \<Rightarrow>
                  input_loop regular (drop (unat (h_length h)) data) kcp w
                    (v\<lparr>iv_inSegs := iv_inSegs v + 1\<rparr>))"
  by pat_completeness auto
termination
proof (relation "measure (\<lambda>(regular, data, kcp, w, v). length data)", goal_cases)
  case 1
  show ?case by simp
next
  case (2 regular data kcp w v x conv data' y h data'')
  then have "length data = length data' + 4" "length data' = length data'' + 20"
    by (auto simp: ikcp_decode32u_def get_le32_None dest!: decode_header_length
        intro: le_add_diff_inverse2 [symmetric])
  then show ?case by simp
qed

declare input_loop.simps [simp del]

subsection \<open>Input\<close>

text \<open>The congestion window grows when the cumulative acknowledgement has advanced; a zero
  \<open>incr\<close> would panic in the division.\<close>

definition input_cwnd :: "u32 \<Rightarrow> KCP \<Rightarrow> KCP option" where
  "input_cwnd old_una kcp =
     (if nocwnd kcp = 0 \<and> itimediff (snd_una kcp) old_una > 0 \<and> cwnd kcp < rmt_wnd kcp
      then do {
        kcp \<leftarrow>
          (if cwnd kcp < ssthresh kcp
           then Some (kcp\<lparr>cwnd := cwnd kcp + 1, incr := incr kcp + mss kcp\<rparr>)
           else let kcp = (if incr kcp < mss kcp then kcp\<lparr>incr := mss kcp\<rparr> else kcp) in
             if incr kcp = 0 then None
             else let kcp = kcp\<lparr>incr := incr kcp + ((mss kcp * mss kcp) div incr kcp
                                          + mss kcp div 16)\<rparr>
                  in Some (if (cwnd kcp + 1) * mss kcp \<le> incr kcp
                           then kcp\<lparr>cwnd := cwnd kcp + 1\<rparr> else kcp));
        Some (if cwnd kcp > rmt_wnd kcp
              then kcp\<lparr>cwnd := rmt_wnd kcp, incr := rmt_wnd kcp * mss kcp\<rparr> else kcp)
      }
      else Some kcp)"

text \<open>The round-trip sample of the last acknowledgement, for regular packets.\<close>

definition input_rtt ::
  "(nat \<Rightarrow> u32) \<Rightarrow> bool \<Rightarrow> input_vars \<Rightarrow> KCP \<Rightarrow> world \<Rightarrow> KCP \<times> world" where
  "input_rtt clk regular v kcp w =
     (if iv_flag v \<noteq> 0 \<and> regular
      then let (current, w) = currentMs clk w
           in (if itimediff current (iv_latest v) \<ge> 0
               then update_ack (itimediff current (iv_latest v)) kcp else kcp, w)
      else (kcp, w))"

definition Input ::
  "(nat \<Rightarrow> u32) \<Rightarrow> bytes \<Rightarrow> bool \<Rightarrow> bool \<Rightarrow> KCP \<Rightarrow> world \<Rightarrow> (int \<times> KCP \<times> world) option" where
  "Input clk data regular ackNoDelay kcp w =
     (let old_una = snd_una kcp in
      if length data < IKCP_OVERHEAD then Some (-1, kcp, w)
      else case input_loop regular data kcp w \<lparr>iv_latest = 0, iv_flag = 0, iv_inSegs = 0\<rparr> of
        None \<Rightarrow> None
      | Some (Ret r kcp w) \<Rightarrow> Some (r, kcp, w)
      | Some (Fin kcp w v) \<Rightarrow>
          let w = count (\<lambda>s. s\<lparr>InSegs := InSegs s + iv_inSegs v\<rparr>) w;
              (kcp, w) = input_rtt clk regular v kcp w
          in do {
            kcp \<leftarrow> input_cwnd old_una kcp;
            if ackNoDelay \<and> acklist kcp \<noteq> []
            then map_option (\<lambda>(_, kcp, w). (0, kcp, w)) (flush clk True kcp w)
            else Some (0, kcp, w)
          })"

subsection \<open>Update and Check\<close>

definition Update :: "(nat \<Rightarrow> u32) \<Rightarrow> KCP \<Rightarrow> world \<Rightarrow> (KCP \<times> world) option" where
  "Update clk kcp w =
     (let (current, w) = currentMs clk w;
          kcp = (if updated kcp = 0 then kcp\<lparr>updated := 1, ts_flush := current\<rparr> else kcp);
          slap = itimediff current (ts_flush kcp);
          (kcp, slap) = (if slap \<ge> 10000 \<or> slap < -10000
                         then (kcp\<lparr>ts_flush := current\<rparr>, 0) else (kcp, slap))
      in if slap \<ge> 0
         then let kcp = kcp\<lparr>ts_flush := ts_flush kcp + interval kcp\<rparr>;
                  kcp = (if itimediff current (ts_flush kcp) \<ge> 0
                         then kcp\<lparr>ts_flush := current + interval kcp\<rparr> else kcp)
              in map_option (\<lambda>(_, kcp, w). (kcp, w)) (flush clk False kcp w)
         else Some (kcp, w))"

text \<open>The scan over \<open>snd_buf\<close>: \<^const>\<open>None\<close> when a segment is already due.\<close>

fun check_loop :: "u32 \<Rightarrow> segment list \<Rightarrow> int \<Rightarrow> int option" where
  "check_loop current [] tm_packet = Some tm_packet"
| "check_loop current (seg # buf) tm_packet =
     (let diff = itimediff (seg_resendts seg) current in
      if diff \<le> 0 then None
      else check_loop current buf (if diff < tm_packet then diff else tm_packet))"

definition Check :: "(nat \<Rightarrow> u32) \<Rightarrow> KCP \<Rightarrow> world \<Rightarrow> u32 \<times> world" where
  "Check clk kcp w =
     (let (current, w) = currentMs clk w; tsf = ts_flush kcp in
      if updated kcp = 0 then (current, w)
      else let tsf = (if itimediff current tsf \<ge> 10000 \<or> itimediff current tsf < -10000
                      then current else tsf) in
        if itimediff current tsf \<ge> 0 then (current, w)
        else let tm_flush = itimediff tsf current in
          case check_loop current (snd_buf kcp) 0x7fffffff of
            None \<Rightarrow> (current, w)
          | Some tm_packet \<Rightarrow>
              let minimal = (if tm_packet \<ge> tm_flush then word_of_int tm_flush
                             else word_of_int tm_packet);
                  minimal = (if minimal \<ge> interval kcp then interval kcp else minimal)
              in (current + minimal, w))"

end
