(* ===== verification/KcpFlushFacts.thy ===== *)
theory KcpFlushFacts
  imports KcpFlush
begin

section \<open>What a flush does\<close>

text \<open>
  The facts about \<open>flush\<close> the properties rest on: the layout of the scratch buffer under
  which no slice expression panics, the packets as concatenations of encoded segments, the
  segments the window admits, and what the retransmission loop may change in a segment.
\<close>

subsection \<open>The buffer layout\<close>

text \<open>
  \<open>NewKCP\<close>, \<open>ReserveBytes\<close> and \<open>SetMtu\<close> keep the buffer as long as the MTU and the segment
  size what is left after the header and the reserved prefix; the session limits the MTU to
  \<open>mtuLimit\<close>.
\<close>

definition layout :: "KCP \<Rightarrow> bool" where
  "layout kcp \<longleftrightarrow> length (buffer kcp) = unat (mtu kcp) \<and> unat (mtu kcp) \<le> mtuLimit
     \<and> unat (mss kcp) + IKCP_OVERHEAD + reserved kcp = unat (mtu kcp) \<and> 0 < unat (mss kcp)"

definition fits :: "KCP \<Rightarrow> segment list \<Rightarrow> bool" where
  "fits kcp segs \<longleftrightarrow> (\<forall>s \<in> set segs. length (seg_data s) \<le> unat (mss kcp))"

lemma layout_mss: "layout kcp \<Longrightarrow> 0 < unat (mss kcp)" "layout kcp \<Longrightarrow> unat (mss kcp) \<le> mtuLimit"
  by (auto simp: layout_def)

text \<open>A packet: encoded segments, one after the other.\<close>

definition packet :: "segment list \<Rightarrow> bytes" where
  "packet segs = concat (map wire_bytes segs)"

lemma packet_simps [simp]: "packet [] = []" "packet (s # q) = wire_bytes s @ packet q"
  "packet (p @ q) = packet p @ packet q"
  by (simp_all add: packet_def)

text \<open>
  The state of the assembly: since \<open>w0\<close>, the segments \<open>L\<close> have been encoded, in this order;
  the packets given to the callback carry a prefix of them, no packet is larger than the MTU,
  and the bytes before the cursor are the rest.
\<close>

definition cursor_ok :: "KCP \<Rightarrow> cursor \<Rightarrow> bool" where
  "cursor_ok kcp ptr \<longleftrightarrow> length (fst ptr) + snd ptr + reserved kcp = length (buffer kcp)"

definition sent :: "KCP \<Rightarrow> world \<Rightarrow> segment list \<Rightarrow> world \<Rightarrow> bool" where
  "sent kcp w0 L w \<longleftrightarrow> (\<exists>groups. outs w = outs w0 @ map packet groups \<and> concat groups = L
     \<and> (\<forall>g \<in> set groups. reserved kcp + length (packet g) \<le> unat (mtu kcp)))"

definition assembled :: "KCP \<Rightarrow> world \<Rightarrow> segment list \<Rightarrow> cursor \<times> world \<Rightarrow> bool" where
  "assembled kcp w0 L st \<longleftrightarrow> cursor_ok kcp (fst st)
     \<and> (\<exists>L1 L2. L = L1 @ L2 \<and> sent kcp w0 L1 (snd st) \<and> fst (fst st) = packet L2)"

lemma sent_refl [simp]: "sent kcp w [] w"
  unfolding sent_def by (rule exI [of _ "[]"]) simp

lemma sent_count [simp]: "sent kcp w0 L (count f w) = sent kcp w0 L w"
  by (simp add: sent_def)

lemma sent_outs: "outs w = outs w' \<Longrightarrow> sent kcp w0 L w = sent kcp w0 L w'"
  by (simp add: sent_def)

lemma sent_emit:
  assumes "sent kcp w0 L1 w" "reserved kcp + length (packet L2) \<le> unat (mtu kcp)"
  shows "sent kcp w0 (L1 @ L2) (emit (packet L2) w)"
proof -
  from assms(1) obtain groups where "outs w = outs w0 @ map packet groups" "concat groups = L1"
    "\<forall>g \<in> set groups. reserved kcp + length (packet g) \<le> unat (mtu kcp)"
    unfolding sent_def by blast
  with assms(2) show ?thesis
    unfolding sent_def by (intro exI [of _ "groups @ [L2]"]) (simp add: emit_def)
qed

lemma sent_cong: "mtu kcp' = mtu kcp \<Longrightarrow> reserved kcp' = reserved kcp \<Longrightarrow>
    sent kcp' w0 L w = sent kcp w0 L w"
  by (simp add: sent_def)

lemma assembledI:
  "cursor_ok kcp ptr \<Longrightarrow> sent kcp w0 L1 w \<Longrightarrow> fst ptr = packet L2 \<Longrightarrow>
   assembled kcp w0 (L1 @ L2) (ptr, w)"
  unfolding assembled_def by auto

lemma assembled_cong: "mtu kcp' = mtu kcp \<Longrightarrow> reserved kcp' = reserved kcp \<Longrightarrow>
    buffer kcp' = buffer kcp \<Longrightarrow> assembled kcp' w0 L st = assembled kcp w0 L st"
  by (simp add: assembled_def cursor_ok_def sent_def)

lemma assembled_outs: "outs w = outs w' \<Longrightarrow>
    assembled kcp w0 L (ptr, w) = assembled kcp w0 L (ptr, w')"
  by (simp add: assembled_def sent_def)

lemma assembled_start: "layout kcp \<Longrightarrow> assembled kcp w [] (ptr0 kcp, w)"
  unfolding assembled_def
  by (auto simp: cursor_ok_def ptr0_def layout_def intro!: exI [of _ "[]"])

lemma assembled_emit:
  assumes "layout kcp" "assembled kcp w0 L (ptr, w)"
  shows "sent kcp w0 L (emit (fst ptr) w)"
proof -
  from assms(2) obtain L1 L2 where L: "L = L1 @ L2" "sent kcp w0 L1 w" "fst ptr = packet L2"
    and "cursor_ok kcp ptr"
    unfolding assembled_def by auto
  with assms(1) have "reserved kcp + length (packet L2) \<le> unat (mtu kcp)"
    by (auto simp: cursor_ok_def layout_def)
  with L show ?thesis by (simp add: sent_emit)
qed

lemma makeSpace_ok:
  assumes "layout kcp" "assembled kcp w0 L st"
  shows "assembled kcp w0 L (makeSpace kcp n st)"
    and "reserved kcp + n \<le> unat (mtu kcp) \<Longrightarrow> n \<le> snd (fst (makeSpace kcp n st))"
proof -
  obtain ptr w where st: "st = (ptr, w)" by fastforce
  have "sent kcp w0 L (emit (fst ptr) w)"
    using assms by (simp add: st assembled_emit)
  then have "assembled kcp w0 (L @ []) (ptr0 kcp, emit (fst ptr) w)"
    using assms(1) by (intro assembledI) (auto simp: cursor_ok_def ptr0_def layout_def)
  with assms show "assembled kcp w0 L (makeSpace kcp n st)"
    by (simp add: makeSpace_def st Let_def)
  assume "reserved kcp + n \<le> unat (mtu kcp)"
  with assms show "n \<le> snd (fst (makeSpace kcp n st))"
    by (auto simp: makeSpace_def st assembled_def cursor_ok_def ptr0_def layout_def Let_def)
qed

lemma encode_ok:
  assumes "assembled kcp w0 L st" "IKCP_OVERHEAD + length (seg_data seg) \<le> snd (fst st)"
  obtains ptr w where "segment_encode seg st = Some (ptr, w)"
    "length (seg_data seg) \<le> snd ptr" "tick w = tick (snd st)"
    "assembled kcp w0 (L @ [seg]) ((fst ptr @ seg_data seg, snd ptr - length (seg_data seg)), w)"
proof -
  obtain p r w where st: "st = ((p, r), w)" by (metis prod.collapse)
  let ?w = "count (\<lambda>s. s\<lparr>OutSegs := OutSegs s + 1\<rparr>) w"
  have "segment_encode seg st = Some ((p @ header_bytes seg, r - IKCP_OVERHEAD), ?w)"
    using assms(2) by (simp add: st segment_encode_eq)
  moreover from assms(1) obtain L1 L2 where L: "L = L1 @ L2" "sent kcp w0 L1 w" "p = packet L2"
    unfolding assembled_def by (auto simp: st)
  then have "assembled kcp w0 (L1 @ (L2 @ [seg]))
     ((p @ header_bytes seg @ seg_data seg, r - IKCP_OVERHEAD - length (seg_data seg)), ?w)"
    using assms by (intro assembledI) (auto simp: st cursor_ok_def wire_bytes_def assembled_def)
  ultimately show thesis
    using assms(2) that by (auto simp: st L(1))
qed

text \<open>A header without payload is a whole segment.\<close>

lemma encode_header_ok:
  assumes "layout kcp" "assembled kcp w0 L st" "seg_data seg = []"
  obtains st' where "segment_encode seg (makeSpace kcp IKCP_OVERHEAD st) = Some st'"
    "assembled kcp w0 (L @ [seg]) st'"
proof -
  have "reserved kcp + 24 \<le> unat (mtu kcp)" using assms(1) by (auto simp: layout_def)
  then have "24 \<le> snd (fst (makeSpace kcp 24 st))"
    by (rule makeSpace_ok(2) [OF assms(1,2)])
  with makeSpace_ok(1) [OF assms(1,2)] assms(3) obtain ptr w where
    "segment_encode seg (makeSpace kcp IKCP_OVERHEAD st) = Some (ptr, w)"
    "assembled kcp w0 (L @ [seg]) ((fst ptr @ seg_data seg, snd ptr - length (seg_data seg)), w)"
    by (metis add_0_right encode_ok list.size(3))
  with assms(3) that show thesis by simp
qed

lemma flushBuffer_ok:
  assumes "layout kcp" "assembled kcp w0 L st"
  shows "sent kcp w0 L (flushBuffer kcp st)"
proof -
  obtain ptr w where st: "st = (ptr, w)" by fastforce
  have all: "sent kcp w0 L (emit (fst ptr) w)"
    using assms by (simp add: st assembled_emit)
  have "sent kcp w0 L w" if "\<not> length (buffer kcp) - snd ptr > reserved kcp"
  proof -
    from assms(2) obtain L1 L2 where L: "L = L1 @ L2" "sent kcp w0 L1 w" "fst ptr = packet L2"
      and "cursor_ok kcp ptr"
      unfolding assembled_def by (auto simp: st)
    then have "length (buffer kcp) - snd ptr = length (packet L2) + reserved kcp"
      by (simp add: cursor_ok_def)
    with that have "packet L2 = []" by simp
    then have "L2 = []" by (cases L2) (auto simp: wire_bytes_def header_bytes_def)
    with L show ?thesis by simp
  qed
  with all show ?thesis
    by (simp add: flushBuffer_def st Let_def)
qed

subsection \<open>Acknowledgements and probes\<close>

text \<open>The control segments of a flush: acknowledgements and window probes carry no payload.\<close>

definition control :: "u32 \<Rightarrow> segment \<Rightarrow> bool" where
  "control conv s \<longleftrightarrow> seg_conv s = conv \<and> seg_data s = []
     \<and> seg_cmd s \<in> {IKCP_CMD_ACK, IKCP_CMD_WASK, IKCP_CMD_WINS}"

lemma control_flush_seg: "control (kconv kcp) (flush_seg kcp)"
  by (simp add: control_def flush_seg_def segment0_def)

lemma control_update [simp]:
  "control conv (s\<lparr>seg_sn := a\<rparr>) = control conv s" "control conv (s\<lparr>seg_ts := b\<rparr>) = control conv s"
  by (simp_all add: control_def)

text \<open>The acknowledgements a flush writes, and the template it leaves for the probes.\<close>

fun ack_segs :: "u32 \<Rightarrow> segment \<Rightarrow> ackItem list \<Rightarrow> segment list" where
  "ack_segs nxt seg [] = []"
| "ack_segs nxt seg (ack # acks) =
     (if ack_sn ack \<ge> nxt \<or> acks = []
      then seg\<lparr>seg_sn := ack_sn ack, seg_ts := ack_ts ack\<rparr> # ack_segs nxt seg acks
      else ack_segs nxt seg acks)"

lemma ack_segs_cong:
  "ack_segs nxt (seg\<lparr>seg_sn := a, seg_ts := b\<rparr>) acks = ack_segs nxt seg acks"
  by (induction nxt seg acks rule: ack_segs.induct) auto

lemma ack_segs_control: "control conv seg \<Longrightarrow> s \<in> set (ack_segs nxt seg acks) \<Longrightarrow> control conv s"
  by (induction nxt seg acks rule: ack_segs.induct) (auto split: if_splits)

lemma flush_acks_ok:
  assumes "layout kcp" "assembled kcp w0 L st" "control (kconv kcp) seg"
  shows "\<exists>seg' st'. flush_acks kcp seg acks st = Some (seg', st')
     \<and> assembled kcp w0 (L @ ack_segs (rcv_nxt kcp) seg acks) st'
     \<and> control (kconv kcp) seg' \<and> seg_wnd seg' = seg_wnd seg \<and> seg_una seg' = seg_una seg"
  using assms(2,3)
proof (induction acks arbitrary: L seg st)
  case Nil
  then show ?case by simp
next
  case (Cons ack acks)
  let ?seg = "seg\<lparr>seg_sn := ack_sn ack, seg_ts := ack_ts ack\<rparr>"
  have ctl: "control (kconv kcp) ?seg" using Cons.prems(2) by simp
  then have "seg_data ?seg = []" by (simp add: control_def)
  with assms(1) Cons.prems(1) obtain st' where
    enc: "segment_encode ?seg (makeSpace kcp 24 st) = Some st'" "assembled kcp w0 (L @ [?seg]) st'"
    by (rule encode_header_ok)
  show ?case
  proof (cases "ack_sn ack \<ge> rcv_nxt kcp \<or> acks = []")
    case True
    from Cons.IH [OF enc(2) ctl] show ?thesis
      using True enc(1) by (simp add: Let_def ack_segs_cong)
  next
    case False
    then show ?thesis
      using Cons.IH [OF makeSpace_ok(1) [OF assms(1) Cons.prems(1)] Cons.prems(2)]
      by (simp add: Let_def)
  qed
qed

lemma flush_cmd_ok:
  assumes "layout kcp" "assembled kcp w0 L st" "control (kconv kcp) seg"
    "cmd \<in> {IKCP_CMD_ACK, IKCP_CMD_WASK, IKCP_CMD_WINS}"
  shows "\<exists>seg' st'. flush_cmd kcp ask cmd (seg, st) = Some (seg', st')
     \<and> assembled kcp w0 (L @ (if probe kcp AND ask \<noteq> 0 then [seg'] else [])) st'
     \<and> control (kconv kcp) seg' \<and> seg_wnd seg' = seg_wnd seg \<and> seg_una seg' = seg_una seg
     \<and> (probe kcp AND ask \<noteq> 0 \<longrightarrow> seg_cmd seg' = cmd)"
proof -
  let ?seg = "seg\<lparr>seg_cmd := cmd\<rparr>"
  have ctl: "control (kconv kcp) ?seg" using assms(3,4) by (simp add: control_def)
  then have "seg_data ?seg = []" by (simp add: control_def)
  with assms(1,2) obtain st' where
    enc: "segment_encode ?seg (makeSpace kcp 24 st) = Some st'" "assembled kcp w0 (L @ [?seg]) st'"
    by (rule encode_header_ok)
  with ctl assms(2,3) show ?thesis
    by (auto simp: flush_cmd_def Let_def simp del: split_paired_Ex)
qed

lemma probe_window_frame [frame_simps]:
  assumes "probe_window clk kcp w = (kcp', w')"
  shows "kcp' = kcp\<lparr>probe := probe kcp', ts_probe := ts_probe kcp', probe_wait := probe_wait kcp'\<rparr>"
    and "outs w' = outs w" "snmp w' = snmp w"
  using assms
  by (auto simp: probe_window_def Let_def currentMs_def split: if_splits intro!: KCP.equality)

subsection \<open>The segments the window admits\<close>

definition stamp :: "KCP \<Rightarrow> nat \<Rightarrow> segment \<Rightarrow> segment" where
  "stamp kcp i s = s\<lparr>seg_conv := kconv kcp, seg_cmd := IKCP_CMD_PUSH,
     seg_sn := snd_nxt kcp + of_nat i\<rparr>"

definition admitted :: "KCP \<Rightarrow> nat \<Rightarrow> segment list" where
  "admitted kcp n = map (\<lambda>i. stamp kcp i (snd_queue kcp ! i)) [0..<n]"

lemma admitted_0 [simp]: "admitted kcp 0 = []"
  by (simp add: admitted_def)

lemma length_admitted [simp]: "length (admitted kcp n) = n"
  by (simp add: admitted_def)

lemma admitted_sn: "map seg_sn (admitted kcp n) = seqs (snd_nxt kcp) n"
  by (simp add: admitted_def stamp_def seqs_def)

lemma admitted_data: "n \<le> length (snd_queue kcp) \<Longrightarrow>
    map seg_data (admitted kcp n) = take n (map seg_data (snd_queue kcp))
    \<and> map seg_frg (admitted kcp n) = take n (map seg_frg (snd_queue kcp))"
  by (auto simp: admitted_def stamp_def intro!: nth_equalityI)

lemma admitted_conv: "s \<in> set (admitted kcp n) \<Longrightarrow> seg_conv s = kconv kcp \<and> seg_cmd s = IKCP_CMD_PUSH"
  by (auto simp: admitted_def stamp_def)

lemma admit_loop_eq:
  assumes "admit_loop cw q kcp n = (kcp', n')"
  shows "\<exists>m \<le> length q. n' = n + m
     \<and> kcp' = kcp\<lparr>snd_buf := snd_buf kcp
                    @ map (\<lambda>i. stamp kcp i (q ! i)) [0..<m], snd_nxt := snd_nxt kcp + of_nat m\<rparr>
     \<and> (m < length q \<longrightarrow> 0 \<le> itimediff (snd_nxt kcp') (snd_una kcp' + cw))
     \<and> (\<forall>i < m. itimediff (snd_nxt kcp + of_nat i) (snd_una kcp + cw) < 0)"
  using assms
proof (induction cw q kcp n rule: admit_loop.induct)
  case (1 cw kcp n)
  then show ?case by simp
next
  case (2 cw s q kcp n)
  show ?case
  proof (cases "itimediff (snd_nxt kcp) (snd_una kcp + cw) \<ge> 0")
    case True
    with 2 show ?thesis by (intro exI [of _ 0]) simp
  next
    case False
    let ?k = "kcp\<lparr>snd_buf := snd_buf kcp @ [stamp kcp 0 s], snd_nxt := snd_nxt kcp + 1\<rparr>"
    have "admit_loop cw q ?k (n + 1) = (kcp', n')"
      using 2(2) False by (simp add: stamp_def)
    with 2(1) [OF False] obtain m where m: "m \<le> length q" "n' = n + 1 + m"
      and k: "kcp' = ?k\<lparr>snd_buf := snd_buf ?k @ map (\<lambda>i. stamp ?k i (q ! i)) [0..<m],
              snd_nxt := snd_nxt ?k + of_nat m\<rparr>"
      and stop: "m < length q \<longrightarrow> 0 \<le> itimediff (snd_nxt kcp') (snd_una kcp' + cw)"
      and win: "\<forall>i < m. itimediff (snd_nxt ?k + of_nat i) (snd_una ?k + cw) < 0"
      by (auto simp: stamp_def)
    have "map (\<lambda>i. stamp kcp i ((s # q) ! i)) [0..<Suc m] =
        stamp kcp 0 s # map (\<lambda>i. stamp ?k i (q ! i)) [0..<m]"
      by (simp add: upt_conv_Cons map_Suc_upt [symmetric] stamp_def add_ac del: upt_Suc)
    with k have "kcp' = kcp\<lparr>snd_buf := snd_buf kcp
          @ map (\<lambda>i. stamp kcp i ((s # q) ! i)) [0..<Suc m], snd_nxt := snd_nxt kcp + of_nat (Suc m)\<rparr>"
      by simp
    moreover have "\<forall>i < Suc m. itimediff (snd_nxt kcp + of_nat i) (snd_una kcp + cw) < 0"
      using win False by (auto simp: less_Suc_eq_0_disj add_ac)
    ultimately show ?thesis
      using m stop by (intro exI [of _ "Suc m"]) simp
  qed
qed

text \<open>How many segments the window admits, with a gapless send buffer.\<close>

lemma admit_eq:
  assumes "send_inv kcp" "unat cw < 2 ^ 31"
  defines "n \<equiv> min (length (snd_queue kcp)) (unat cw - length (snd_buf kcp))"
  shows "admit cw kcp = (kcp\<lparr>snd_queue := drop n (snd_queue kcp),
     snd_buf := snd_buf kcp @ admitted kcp n, snd_nxt := snd_nxt kcp + of_nat n\<rparr>, n)"
proof -
  obtain kcp' m where loop: "admit_loop cw (snd_queue kcp) kcp 0 = (kcp', m)" by fastforce
  from admit_loop_eq [OF loop] have m: "m \<le> length (snd_queue kcp)"
    and k: "kcp' = kcp\<lparr>snd_buf := snd_buf kcp @ admitted kcp m, snd_nxt := snd_nxt kcp + of_nat m\<rparr>"
    and stop: "m < length (snd_queue kcp) \<longrightarrow>
       0 \<le> itimediff (snd_nxt kcp + of_nat m) (snd_una kcp + cw)"
    and win: "\<forall>i < m. itimediff (snd_nxt kcp + of_nat i) (snd_una kcp + cw) < 0"
    by (auto simp: admitted_def)
  let ?L = "length (snd_buf kcp)"
  have diff: "itimediff (snd_nxt kcp + of_nat i) (snd_una kcp + cw) = int (?L + i) - int (unat cw)"
    if "?L + i < 2 ^ 31" for i
  proof -
    have "snd_nxt kcp + of_nat i = snd_una kcp + of_nat (?L + i)"
      using assms(1) by (simp add: send_inv_def)
    moreover have "unat (snd_una kcp + of_nat (?L + i) - snd_una kcp) = ?L + i"
      using that by (intro unat_offset_of_nat) simp
    ultimately show ?thesis
      using itimediff_offsets [of "snd_nxt kcp + of_nat i" "snd_una kcp" "snd_una kcp + cw"] that assms(2)
      by (simp del: of_nat_unat of_nat_add)
  qed
  have "?L + i < unat cw" if "i < m" for i
    using that
  proof (induction i)
    case 0
    with win diff [of 0] assms(1) show ?case by (auto simp: send_inv_def simp del: of_nat_unat)
  next
    case (Suc i)
    then have "?L + i < unat cw" by simp
    with assms(2) have "?L + Suc i < 2 ^ 31" by simp
    from diff [OF this] win Suc.prems show ?case by (auto simp del: of_nat_unat of_nat_add of_nat_Suc)
  qed
  then have upper: "m = 0 \<or> ?L + m \<le> unat cw"
    by (cases m) (auto simp: Suc_le_eq)
  have "unat cw \<le> ?L + m" if "m < length (snd_queue kcp)"
  proof (rule ccontr)
    assume neg: "\<not> unat cw \<le> ?L + m"
    with assms(2) have "?L + m < 2 ^ 31" by simp
    from diff [OF this] neg stop that show False by (simp del: of_nat_unat of_nat_add)
  qed
  with upper m have "m = n"
    unfolding n_def by (cases "m < length (snd_queue kcp)") (auto simp: min_def)
  with loop k show ?thesis
    by (simp add: admit_def remove_front_eq)
qed

subsection \<open>The retransmission loop\<close>

text \<open>What a transmission leaves alone in a segment.\<close>

definition kept :: "segment \<Rightarrow> segment \<Rightarrow> bool" where
  "kept s t \<longleftrightarrow> seg_conv t = seg_conv s \<and> seg_cmd t = seg_cmd s \<and> seg_frg t = seg_frg s
     \<and> seg_sn t = seg_sn s \<and> seg_data t = seg_data s \<and> seg_acked t = seg_acked s"

lemma kept_refl [simp]: "kept s s"
  by (simp add: kept_def)

lemma kept_trans: "kept s t \<Longrightarrow> kept t u \<Longrightarrow> kept s u"
  by (simp add: kept_def)

text \<open>The reasons for which a segment is sent, at clock reading \<open>now\<close>.\<close>

definition due :: "u32 \<Rightarrow> nat \<Rightarrow> u32 \<Rightarrow> segment \<Rightarrow> bool" where
  "due resent newSegs now s \<longleftrightarrow> seg_acked s \<noteq> 1 \<and>
     (seg_xmit s = 0 \<or> itimediff now (seg_resendts s) \<ge> 0 \<or> seg_fastack s \<ge> resent
      \<or> (seg_fastack s > 0 \<and> newSegs = 0))"

lemma xmit_choose_facts:
  assumes "xmit_choose kcp resent n s r = (b, t, r')"
  shows "kept s t" "seg_xmit t = seg_xmit s" "rt_st r' = rt_st r" "rt_minrto r' = rt_minrto r"
    "rt_current r' = rt_current r" "rt_state r' = rt_state r"
    "b \<longleftrightarrow> seg_xmit s = 0 \<or> itimediff (rt_current r) (seg_resendts s) \<ge> 0 \<or> seg_fastack s \<ge> resent
      \<or> (seg_fastack s > 0 \<and> n = 0)"
  using assms by (auto simp: xmit_choose_def Let_def kept_def split: if_splits)

lemma xmit_send_ok:
  assumes "layout kcp" "assembled kcp w0 L (rt_st r)" "length (seg_data s) \<le> unat (mss kcp)"
  obtains t r' where "xmit_send clk kcp hd_seg s r = Some (t, r')" "kept s t"
    "seg_xmit t = seg_xmit s + 1" "seg_resendts t = seg_resendts s"
    "assembled kcp w0 (L @ [t]) (rt_st r')" "rt_minrto r' = rt_minrto r"
    "rt_current r' = clk (tick (snd (rt_st r)))"
    "rt_state r' = (if seg_xmit t \<ge> dead_link kcp then 0xFFFFFFFF else rt_state r)"
proof -
  obtain ptr w where st: "rt_st r = (ptr, w)" by fastforce
  define t where "t = s\<lparr>seg_xmit := seg_xmit s + 1, seg_ts := clk (tick w),
      seg_wnd := seg_wnd hd_seg, seg_una := seg_una hd_seg\<rparr>"
  let ?w = "w\<lparr>tick := tick w + 1\<rparr>"
  let ?need = "IKCP_OVERHEAD + length (seg_data t)"
  have t: "kept s t" "seg_xmit t = seg_xmit s + 1" "seg_resendts t = seg_resendts s"
    by (simp_all add: t_def kept_def)
  have asm: "assembled kcp w0 L (ptr, ?w)"
    using assms(2) assembled_outs [of w ?w kcp w0 L ptr] by (simp add: st)
  have need: "reserved kcp + ?need \<le> unat (mtu kcp)"
    using assms(1,3) t(1) by (auto simp: layout_def kept_def)
  obtain ptr' w' where enc: "segment_encode t (makeSpace kcp ?need (ptr, ?w)) = Some (ptr', w')"
    "length (seg_data t) \<le> snd ptr'"
    "assembled kcp w0 (L @ [t]) ((fst ptr' @ seg_data t, snd ptr' - length (seg_data t)), w')"
    using encode_ok [OF makeSpace_ok(1) [OF assms(1) asm, of ?need]
        makeSpace_ok(2) [OF assms(1) asm need]] by metis
  then have "xmit_send clk kcp hd_seg s r = Some (t, r\<lparr>rt_current := clk (tick w),
       rt_st := ((fst ptr' @ seg_data t, snd ptr' - length (seg_data t)), w'),
       rt_state := if seg_xmit t \<ge> dead_link kcp then 0xFFFFFFFF else rt_state r\<rparr>)"
    by (simp add: xmit_send_def st currentMs_def t_def)
  from that [OF this t] enc(3) show thesis by (simp add: st)
qed

lemma xmit_seg_ok:
  assumes "layout kcp" "assembled kcp w0 L (rt_st r)" "length (seg_data s) \<le> unat (mss kcp)"
    "0 < rt_minrto r"
  obtains t r' where "xmit_seg clk kcp hd_seg resent n s r = Some (t, r')" "kept s t"
    "assembled kcp w0 (L @ (if seg_xmit t = seg_xmit s then [] else [t])) (rt_st r')"
    "0 < rt_minrto r'" "rt_minrto r' \<le> rt_minrto r"
    "seg_xmit t \<noteq> seg_xmit s \<longleftrightarrow> due resent n (rt_current r) s"
    "seg_acked s = 1 \<longrightarrow> t = s" "seg_xmit t \<in> {seg_xmit s, seg_xmit s + 1}"
    "rt_current r' \<in> {rt_current r, clk (tick (snd (rt_st r)))}"
proof (cases "seg_acked s = 1")
  case True
  with assms have "xmit_seg clk kcp hd_seg resent n s r = Some (s, r)"
    by (simp add: xmit_seg_def)
  from that [OF this] assms True show thesis by (simp add: due_def)
next
  case False
  obtain b s1 r1 where ch: "xmit_choose kcp resent n s r = (b, s1, r1)"
    by (metis prod.collapse)
  note facts = xmit_choose_facts [OF ch]
  have due: "due resent n (rt_current r) s \<longleftrightarrow> b"
    using False facts(7) by (simp add: due_def)
  define fin where "fin r' t = (let rto = itimediff (seg_resendts t) (rt_current r') in
       if rto > 0 \<and> rto < rt_minrto r' then r'\<lparr>rt_minrto := rto\<rparr> else r')"
    for r' :: rt and t :: segment
  have fin: "rt_st (fin r' t) = rt_st r'" "rt_current (fin r' t) = rt_current r'"
    "0 < rt_minrto r' \<Longrightarrow> 0 < rt_minrto (fin r' t) \<and> rt_minrto (fin r' t) \<le> rt_minrto r'" for r' t
    by (auto simp: fin_def Let_def)
  show thesis
  proof (cases b)
    case True
    have len: "length (seg_data s1) \<le> unat (mss kcp)" and asm: "assembled kcp w0 L (rt_st r1)"
      using assms(2,3) facts(1,3) by (auto simp: kept_def)
    from xmit_send_ok [OF assms(1) asm len] obtain t r2 where
      send: "xmit_send clk kcp hd_seg s1 r1 = Some (t, r2)" "kept s1 t" "seg_xmit t = seg_xmit s1 + 1"
      "assembled kcp w0 (L @ [t]) (rt_st r2)" "rt_minrto r2 = rt_minrto r1"
      "rt_current r2 = clk (tick (snd (rt_st r1)))"
      by metis
    have "xmit_seg clk kcp hd_seg resent n s r = Some (t, fin r2 t)"
      using False True send(1) by (simp add: xmit_seg_def ch fin_def Let_def)
    moreover have "kept s t" using facts(1) send(2) by (rule kept_trans)
    moreover have "seg_xmit t \<noteq> seg_xmit s" "seg_xmit t = seg_xmit s + 1"
      using send(3) facts(2) by simp_all
    ultimately show thesis
      using that send(4-6) fin [of r2 t] assms(4) facts(3,4) due True False by simp
  next
    case False
    have "xmit_seg clk kcp hd_seg resent n s r = Some (s1, fin r1 s1)"
      using \<open>seg_acked s \<noteq> 1\<close> False by (simp add: xmit_seg_def ch fin_def Let_def)
    then show thesis
      using that facts fin [of r1 s1] assms(2,4) due False \<open>seg_acked s \<noteq> 1\<close> by simp
  qed
qed

text \<open>The segments a loop over \<open>buf\<close> that ended in \<open>buf'\<close> transmitted.\<close>

fun transmitted :: "segment list \<Rightarrow> segment list \<Rightarrow> segment list" where
  "transmitted (s # buf) (t # buf') =
     (if seg_xmit t = seg_xmit s then [] else [t]) @ transmitted buf buf'"
| "transmitted _ _ = []"

lemma transmitted_subset: "set (transmitted buf buf') \<subseteq> set buf'"
  by (induction buf buf' rule: transmitted.induct) auto

definition xmit_rel :: "segment \<Rightarrow> segment \<Rightarrow> bool" where
  "xmit_rel s t \<longleftrightarrow> kept s t \<and> (seg_acked s = 1 \<longrightarrow> t = s)
     \<and> seg_xmit t \<in> {seg_xmit s, seg_xmit s + 1}
     \<and> (seg_acked s \<noteq> 1 \<longrightarrow> seg_xmit s = 0 \<longrightarrow> seg_xmit t = 1)"

lemma xmit_loop_ok:
  assumes "layout kcp" "assembled kcp w0 L (rt_st r)" "fits kcp buf" "0 < rt_minrto r"
  shows "\<exists>buf' r'. xmit_loop clk kcp hd_seg resent n buf r = Some (buf', r')
     \<and> list_all2 xmit_rel buf buf'
     \<and> assembled kcp w0 (L @ transmitted buf buf') (rt_st r')
     \<and> 0 < rt_minrto r' \<and> rt_minrto r' \<le> rt_minrto r"
  using assms(2-)
proof (induction buf arbitrary: L r)
  case Nil
  then show ?case by simp
next
  case (Cons s buf)
  have len: "length (seg_data s) \<le> unat (mss kcp)" and fit: "fits kcp buf"
    using Cons.prems(2) by (auto simp: fits_def)
  from xmit_seg_ok [OF assms(1) Cons.prems(1) len Cons.prems(3)] obtain t r1 where
    t: "xmit_seg clk kcp hd_seg resent n s r = Some (t, r1)" "kept s t"
    "assembled kcp w0 (L @ (if seg_xmit t = seg_xmit s then [] else [t])) (rt_st r1)"
    "0 < rt_minrto r1" "rt_minrto r1 \<le> rt_minrto r"
    "seg_xmit t \<noteq> seg_xmit s \<longleftrightarrow> due resent n (rt_current r) s"
    "seg_acked s = 1 \<longrightarrow> t = s" "seg_xmit t \<in> {seg_xmit s, seg_xmit s + 1}"
    by metis
  have rel: "xmit_rel s t"
    using t by (auto simp: xmit_rel_def due_def)
  from Cons.IH [OF t(3) fit t(4)] obtain buf' r' where
    "xmit_loop clk kcp hd_seg resent n buf r1 = Some (buf', r')" "list_all2 xmit_rel buf buf'"
    "assembled kcp w0 ((L @ (if seg_xmit t = seg_xmit s then [] else [t])) @ transmitted buf buf') (rt_st r')"
    "0 < rt_minrto r'" "rt_minrto r' \<le> rt_minrto r1"
    by blast
  with t rel show ?case by (intro exI [of _ "t # buf'"] exI [of _ r']) simp
qed

text \<open>With a clock that stands still during the flush, exactly the due segments are sent.\<close>

lemma xmit_loop_due:
  assumes "layout kcp" "assembled kcp w0 L (rt_st r)" "fits kcp buf" "0 < rt_minrto r"
    "rt_current r = now" "xmit_loop (\<lambda>_. now) kcp hd_seg resent n buf r = Some (buf', r')"
  shows "map seg_sn (transmitted buf buf') = map seg_sn (filter (due resent n now) buf)"
  using assms(2-)
proof (induction buf arbitrary: L r buf')
  case Nil
  then show ?case by simp
next
  case (Cons s buf)
  have len: "length (seg_data s) \<le> unat (mss kcp)" and fit: "fits kcp buf"
    using Cons.prems(2) by (auto simp: fits_def)
  from xmit_seg_ok [OF assms(1) Cons.prems(1) len Cons.prems(3)] obtain t r1 where
    t: "xmit_seg (\<lambda>_. now) kcp hd_seg resent n s r = Some (t, r1)" "kept s t"
    "assembled kcp w0 (L @ (if seg_xmit t = seg_xmit s then [] else [t])) (rt_st r1)"
    "0 < rt_minrto r1" "seg_xmit t \<noteq> seg_xmit s \<longleftrightarrow> due resent n (rt_current r) s"
    "rt_current r1 \<in> {rt_current r, now}"
    by metis
  with Cons.prems obtain b where b: "buf' = t # b"
    "xmit_loop (\<lambda>_. now) kcp hd_seg resent n buf r1 = Some (b, r')"
    by (auto simp: bind_eq_Some_conv)
  have "rt_current r1 = now" using t(6) Cons.prems(4) by auto
  from Cons.IH [OF t(3) fit t(4) this b(2)] t(2,5) Cons.prems(4) show ?case
    by (auto simp: b(1) kept_def)
qed

subsection \<open>The whole flush\<close>

lemma flush_congestion_frame:
  "\<exists>a b c. flush_congestion cw resent r kcp = kcp\<lparr>ssthresh := a, cwnd := b, incr := c\<rparr>
     \<and> (nocwnd kcp = 0 \<longrightarrow> b \<noteq> 0)
     \<and> (IKCP_THRESH_MIN \<le> ssthresh kcp \<longrightarrow> IKCP_THRESH_MIN \<le> a)"
  (is "\<exists>a b c. ?k = _ \<and> _")
proof -
  have "?k = kcp\<lparr>ssthresh := ssthresh ?k, cwnd := cwnd ?k, incr := incr ?k\<rparr>"
    by (simp add: flush_congestion_def Let_def)
  moreover have "nocwnd kcp = 0 \<longrightarrow> cwnd ?k \<noteq> 0"
    by (auto simp: flush_congestion_def Let_def not_less)
  moreover have "IKCP_THRESH_MIN \<le> ssthresh kcp \<longrightarrow> IKCP_THRESH_MIN \<le> ssthresh ?k"
    by (auto simp: flush_congestion_def Let_def not_less)
  ultimately show ?thesis by blast
qed

lemma flush_count_outs [simp]: "outs (flush_count r w) = outs w"
  by (simp add: flush_count_def Let_def)

text \<open>
  What a flush keeps: the configuration with the flush timer, the receiving half, the round-trip estimates and the
  oldest unacknowledged number.
\<close>

definition same_config :: "KCP \<Rightarrow> KCP \<Rightarrow> bool" where
  "same_config k k' \<longleftrightarrow> kconv k' = kconv k \<and> mtu k' = mtu k \<and> mss k' = mss k
     \<and> reserved k' = reserved k \<and> buffer k' = buffer k \<and> snd_wnd k' = snd_wnd k
     \<and> rcv_wnd k' = rcv_wnd k \<and> interval k' = interval k \<and> nodelay k' = nodelay k
     \<and> fastresend k' = fastresend k \<and> nocwnd k' = nocwnd k \<and> stream k' = stream k
     \<and> dead_link k' = dead_link k \<and> rx_minrto k' = rx_minrto k
     \<and> ts_flush k' = ts_flush k \<and> updated k' = updated k"

definition same_recv :: "KCP \<Rightarrow> KCP \<Rightarrow> bool" where
  "same_recv k k' \<longleftrightarrow> rcv_nxt k' = rcv_nxt k \<and> rcv_queue k' = rcv_queue k \<and> rcv_buf k' = rcv_buf k"

definition same_rtt :: "KCP \<Rightarrow> KCP \<Rightarrow> bool" where
  "same_rtt k k' \<longleftrightarrow> rx_rttvar k' = rx_rttvar k \<and> rx_srtt k' = rx_srtt k \<and> rx_rto k' = rx_rto k
     \<and> rmt_wnd k' = rmt_wnd k \<and> snd_una k' = snd_una k"

definition same_send :: "KCP \<Rightarrow> KCP \<Rightarrow> bool" where
  "same_send k k' \<longleftrightarrow> snd_una k' = snd_una k \<and> snd_nxt k' = snd_nxt k
     \<and> snd_queue k' = snd_queue k \<and> snd_buf k' = snd_buf k"

lemmas same_defs = same_config_def same_recv_def same_rtt_def same_send_def

lemma same_refl [simp]: "same_config k k" "same_recv k k" "same_rtt k k" "same_send k k"
  by (simp_all add: same_defs)

lemma layout_config: "same_config k k' \<Longrightarrow> layout k \<Longrightarrow> layout k'"
  by (simp add: layout_def same_config_def)

lemma xmit_rel_fits: "list_all2 xmit_rel buf buf' \<Longrightarrow> fits kcp buf \<Longrightarrow> fits kcp buf'"
  by (induction rule: list_all2_induct) (auto simp: fits_def xmit_rel_def kept_def)

lemma xmit_rel_sn: "list_all2 xmit_rel buf buf' \<Longrightarrow> map seg_sn buf' = map seg_sn buf"
  by (induction rule: list_all2_induct) (auto simp: xmit_rel_def kept_def)

lemma admitted_fits: "n \<le> length (snd_queue kcp) \<Longrightarrow> fits kcp (snd_queue kcp) \<Longrightarrow>
    fits kcp (admitted kcp n)"
  by (auto simp: fits_def admitted_def stamp_def)

lemma fits_append [simp]: "fits kcp (a @ b) \<longleftrightarrow> fits kcp a \<and> fits kcp b"
  by (auto simp: fits_def)

text \<open>How many segments the next flush admits.\<close>

definition n_admit :: "KCP \<Rightarrow> nat" where
  "n_admit kcp = min (length (snd_queue kcp)) (unat (flush_cwnd kcp) - length (snd_buf kcp))"

lemma flush_data_ok:
  assumes "layout kcp" "send_inv kcp" "fits kcp (snd_buf kcp)" "fits kcp (snd_queue kcp)"
    "unat (flush_cwnd kcp) < 2 ^ 31" "0 < sint (interval kcp)" "assembled kcp w0 L st"
  defines "n \<equiv> n_admit kcp"
  shows "\<exists>ret kcp' w'. flush_data clk kcp seg st = Some (ret, kcp', w')
     \<and> 0 < sint ret \<and> sint ret \<le> sint (interval kcp)
     \<and> list_all2 xmit_rel (snd_buf kcp @ admitted kcp n) (snd_buf kcp')
     \<and> sent kcp w0 (L @ transmitted (snd_buf kcp @ admitted kcp n) (snd_buf kcp')) w'
     \<and> snd_queue kcp' = drop n (snd_queue kcp) \<and> snd_nxt kcp' = snd_nxt kcp + of_nat n
     \<and> same_config kcp kcp' \<and> same_recv kcp kcp' \<and> same_rtt kcp kcp'
     \<and> acklist kcp' = acklist kcp \<and> probe kcp' = probe kcp
     \<and> (\<forall>now. clk = (\<lambda>_. now) \<longrightarrow>
          map seg_sn (transmitted (snd_buf kcp @ admitted kcp n) (snd_buf kcp')) =
          map seg_sn (filter (due (flush_resent kcp) n now) (snd_buf kcp @ admitted kcp n)))
     \<and> (nocwnd kcp = 0 \<longrightarrow> cwnd kcp' \<noteq> 0)
     \<and> (IKCP_THRESH_MIN \<le> ssthresh kcp \<longrightarrow> IKCP_THRESH_MIN \<le> ssthresh kcp')"
proof -
  obtain ptr w where st: "st = (ptr, w)" by fastforce
  let ?w = "w\<lparr>tick := tick w + 1\<rparr>"
  let ?k = "kcp\<lparr>snd_queue := drop n (snd_queue kcp), snd_buf := snd_buf kcp @ admitted kcp n,
      snd_nxt := snd_nxt kcp + of_nat n\<rparr>"
  let ?resent = "flush_resent ?k"
  define r where "r = \<lparr>rt_current = clk (tick w), rt_change = 0, rt_lost = 0, rt_lostSegs = 0,
      rt_fast = 0, rt_early = 0, rt_minrto = sint (interval kcp), rt_st = (ptr, ?w),
      rt_state = kstate kcp\<rparr>"
  have admit: "admit (flush_cwnd kcp) kcp = (?k, n)"
    using admit_eq [OF assms(2,5)] by (simp add: n_def n_admit_def)
  have nle: "n \<le> length (snd_queue kcp)" by (simp add: n_def n_admit_def)
  have lay: "layout ?k" using assms(1) by (simp add: layout_def)
  have "assembled kcp w0 L (ptr, ?w)"
    using assms(7) assembled_outs [of w ?w kcp w0 L ptr] by (simp add: st)
  then have asm: "assembled ?k w0 L (rt_st r)"
    by (simp add: r_def assembled_def cursor_ok_def sent_def)
  have fit: "fits ?k (snd_buf kcp @ admitted kcp n)"
    using assms(3,4) admitted_fits [OF nle] by (auto simp: fits_def)
  have "0 < rt_minrto r" using assms(6) by (simp add: r_def)
  from xmit_loop_ok [OF lay asm fit this, of clk seg ?resent n] obtain buf' r' where
    loop: "xmit_loop clk ?k seg ?resent n (snd_buf kcp @ admitted kcp n) r = Some (buf', r')"
      "list_all2 xmit_rel (snd_buf kcp @ admitted kcp n) buf'"
      "assembled ?k w0 (L @ transmitted (snd_buf kcp @ admitted kcp n) buf') (rt_st r')"
      "0 < rt_minrto r'" "rt_minrto r' \<le> sint (interval kcp)"
    by (auto simp: r_def)
  have due: "\<forall>now. clk = (\<lambda>_. now) \<longrightarrow>
      map seg_sn (transmitted (snd_buf kcp @ admitted kcp n) buf') =
      map seg_sn (filter (due (flush_resent kcp) n now) (snd_buf kcp @ admitted kcp n))"
    using xmit_loop_due [OF lay asm fit \<open>0 < rt_minrto r\<close>] loop(1)
    by (auto simp: r_def flush_resent_def)
  let ?k1 = "?k\<lparr>snd_buf := buf', kstate := rt_state r'\<rparr>"
  let ?w' = "flush_count r' (flushBuffer ?k1 (rt_st r'))"
  obtain a b c where cong:
    "flush_congestion (flush_cwnd kcp) ?resent r' ?k1 = ?k1\<lparr>ssthresh := a, cwnd := b, incr := c\<rparr>"
    "nocwnd kcp = 0 \<longrightarrow> b \<noteq> 0" "IKCP_THRESH_MIN \<le> ssthresh kcp \<longrightarrow> IKCP_THRESH_MIN \<le> a"
    using flush_congestion_frame [of "flush_cwnd kcp" ?resent r' ?k1] by auto
  have eq: "flush_data clk kcp seg st =
      Some (word_of_int (rt_minrto r'), ?k1\<lparr>ssthresh := a, cwnd := b, incr := c\<rparr>, ?w')"
    using loop(1) cong(1)
    by (simp add: flush_data_def admit st currentMs_def r_def Let_def)
  have "layout ?k1" using assms(1) by (simp add: layout_def)
  moreover have "assembled ?k1 w0 (L @ transmitted (snd_buf kcp @ admitted kcp n) buf') (rt_st r')"
    using loop(3) by (simp add: assembled_def cursor_ok_def sent_def)
  ultimately have "sent ?k1 w0 (L @ transmitted (snd_buf kcp @ admitted kcp n) buf')
      (flushBuffer ?k1 (rt_st r'))"
    by (rule flushBuffer_ok)
  then have sent: "sent kcp w0 (L @ transmitted (snd_buf kcp @ admitted kcp n) buf') ?w'"
    by (simp add: sent_def)
  have ret: "sint (word_of_int (rt_minrto r') :: u32) = rt_minrto r'"
    using loop(4,5) sint_lt [of "interval kcp"] by (simp add: signed_of_int signed_take_bit_int_eq_self)
  show ?thesis
    using loop(2,4,5) sent cong(2,3) due
    by - (intro exI, rule conjI [OF eq], simp add: ret same_defs)
qed

text \<open>The control segments of a full flush: acknowledgements, then the window probes.\<close>

definition controls :: "KCP \<Rightarrow> segment list \<Rightarrow> bool" where
  "controls kcp L \<longleftrightarrow> (\<exists>probes. L = ack_segs (rcv_nxt kcp) (flush_seg kcp) (acklist kcp) @ probes
     \<and> (\<forall>s \<in> set probes. control (kconv kcp) s))"

lemma controls_control: "controls kcp L \<Longrightarrow> s \<in> set L \<Longrightarrow> control (kconv kcp) s"
  using ack_segs_control [OF control_flush_seg] by (auto simp: controls_def)

lemma layout_reserved: "layout kcp \<Longrightarrow> \<not> length (buffer kcp) < reserved kcp"
  by (simp add: layout_def)

lemma flush_ack_ok:
  assumes "layout kcp"
  shows "\<exists>w'. flush clk True kcp w = Some (interval kcp, kcp\<lparr>acklist := []\<rparr>, w')
     \<and> sent kcp w (ack_segs (rcv_nxt kcp) (flush_seg kcp) (acklist kcp)) w'"
proof -
  let ?L = "ack_segs (rcv_nxt kcp) (flush_seg kcp) (acklist kcp)"
  from flush_acks_ok [OF assms assembled_start [OF assms, of w] control_flush_seg,
      where acks = "acklist kcp"]
  obtain seg' st' where
    acks: "flush_acks kcp (flush_seg kcp) (acklist kcp) (ptr0 kcp, w) = Some (seg', st')"
      "assembled kcp w ?L st'"
    by auto
  let ?k = "kcp\<lparr>acklist := []\<rparr>"
  have "layout ?k" using assms by (simp add: layout_def)
  moreover have "assembled ?k w ?L st'"
    using acks(2) by (simp add: assembled_def cursor_ok_def sent_def)
  ultimately have "sent ?k w ?L (flushBuffer ?k st')" by (rule flushBuffer_ok)
  then have "sent kcp w ?L (flushBuffer ?k st')" by (simp add: sent_def)
  with acks(1) layout_reserved [OF assms] show ?thesis
    by (auto simp: flush_def Let_def)
qed

lemma flush_ok:
  assumes "layout kcp" "send_inv kcp" "fits kcp (snd_buf kcp)" "fits kcp (snd_queue kcp)"
    "unat (flush_cwnd kcp) < 2 ^ 31" "0 < sint (interval kcp)"
  defines "n \<equiv> n_admit kcp"
  shows "\<exists>ret kcp' w' C. flush clk False kcp w = Some (ret, kcp', w')
     \<and> 0 < sint ret \<and> sint ret \<le> sint (interval kcp)
     \<and> list_all2 xmit_rel (snd_buf kcp @ admitted kcp n) (snd_buf kcp')
     \<and> controls kcp C
     \<and> sent kcp w (C @ transmitted (snd_buf kcp @ admitted kcp n) (snd_buf kcp')) w'
     \<and> snd_queue kcp' = drop n (snd_queue kcp) \<and> snd_nxt kcp' = snd_nxt kcp + of_nat n
     \<and> same_config kcp kcp' \<and> same_recv kcp kcp' \<and> same_rtt kcp kcp'
     \<and> acklist kcp' = [] \<and> probe kcp' = 0
     \<and> (\<forall>now. clk = (\<lambda>_. now) \<longrightarrow>
          map seg_sn (transmitted (snd_buf kcp @ admitted kcp n) (snd_buf kcp')) =
          map seg_sn (filter (due (flush_resent kcp) n now) (snd_buf kcp @ admitted kcp n)))
     \<and> (nocwnd kcp = 0 \<longrightarrow> cwnd kcp' \<noteq> 0)
     \<and> (IKCP_THRESH_MIN \<le> ssthresh kcp \<longrightarrow> IKCP_THRESH_MIN \<le> ssthresh kcp')"
proof -
  let ?L = "ack_segs (rcv_nxt kcp) (flush_seg kcp) (acklist kcp)"
  from flush_acks_ok [OF assms(1) assembled_start [OF assms(1), of w] control_flush_seg,
      where acks = "acklist kcp"]
  obtain seg1 ptr1 w1 where
    acks: "flush_acks kcp (flush_seg kcp) (acklist kcp) (ptr0 kcp, w) = Some (seg1, ptr1, w1)"
      "assembled kcp w ?L (ptr1, w1)" "control (kconv kcp) seg1"
    by auto
  obtain k2 w2 where pw: "probe_window clk (kcp\<lparr>acklist := []\<rparr>) w1 = (k2, w2)" by fastforce
  note frame = probe_window_frame [OF pw]
  define p t q where "p = probe k2" and "t = ts_probe k2" and "q = probe_wait k2"
  have k2: "k2 = kcp\<lparr>acklist := [], probe := p, ts_probe := t, probe_wait := q\<rparr>"
    using frame(1) by (simp add: p_def t_def q_def)
  have lay2: "layout k2" using assms(1) by (simp add: k2 layout_def)
  have conv2: "kconv k2 = kconv kcp" by (simp add: k2)
  have "assembled k2 w ?L (ptr1, w1)"
    using acks(2) by (simp add: k2 assembled_def cursor_ok_def sent_def)
  then have asm2: "assembled k2 w ?L (ptr1, w2)"
    using assembled_outs [of w2 w1 k2 w ?L ptr1] frame(2) by simp
  obtain seg3 st3 where
    ask: "flush_cmd k2 IKCP_ASK_SEND IKCP_CMD_WASK (seg1, ptr1, w2) = Some (seg3, st3)"
      "assembled k2 w (?L @ (if probe k2 AND IKCP_ASK_SEND \<noteq> 0 then [seg3] else [])) st3"
      "control (kconv kcp) seg3"
    using flush_cmd_ok [OF lay2 asm2, of seg1 IKCP_CMD_WASK IKCP_ASK_SEND] acks(3) conv2 by auto
  obtain seg4 st4 where
    tell: "flush_cmd k2 IKCP_ASK_TELL IKCP_CMD_WINS (seg3, st3) = Some (seg4, st4)"
      "assembled k2 w ((?L @ (if probe k2 AND IKCP_ASK_SEND \<noteq> 0 then [seg3] else []))
         @ (if probe k2 AND IKCP_ASK_TELL \<noteq> 0 then [seg4] else [])) st4"
      "control (kconv kcp) seg4"
    using flush_cmd_ok [OF lay2 ask(2), of seg3 IKCP_CMD_WINS IKCP_ASK_TELL] ask(3) conv2 by auto
  define C where "C = (?L @ (if probe k2 AND IKCP_ASK_SEND \<noteq> 0 then [seg3] else []))
         @ (if probe k2 AND IKCP_ASK_TELL \<noteq> 0 then [seg4] else [])"
  have ctl: "controls kcp C"
    using ask(3) tell(3) by (auto simp: controls_def C_def)
  let ?k = "k2\<lparr>probe := 0\<rparr>"
  have k: "layout ?k" "send_inv ?k" "fits ?k (snd_buf ?k)" "fits ?k (snd_queue ?k)"
    "unat (flush_cwnd ?k) < 2 ^ 31" "0 < sint (interval ?k)" "n_admit ?k = n"
    "admitted ?k n = admitted kcp n"
    using assms by (simp_all add: k2 layout_def send_inv_def fits_def flush_cwnd_def n_admit_def
        admitted_def stamp_def Let_def split: if_splits)
  have asm4: "assembled ?k w C st4"
    using tell(2) by (simp add: C_def assembled_def cursor_ok_def sent_def)
  have eq: "flush clk False kcp w = flush_data clk ?k seg4 st4"
    using layout_reserved [OF assms(1)] acks(1) pw ask(1) tell(1)
    by (simp add: flush_def Let_def)
  have sel: "snd_buf ?k = snd_buf kcp" "snd_queue ?k = snd_queue kcp" "snd_nxt ?k = snd_nxt kcp"
    "interval ?k = interval kcp" "acklist ?k = []" "probe ?k = 0" "nocwnd ?k = nocwnd kcp"
    "ssthresh ?k = ssthresh kcp" "sent ?k = sent kcp" "same_config ?k = same_config kcp"
    "same_recv ?k = same_recv kcp" "same_rtt ?k = same_rtt kcp"
    "flush_resent ?k = flush_resent kcp"
    by (simp_all add: k2 same_defs sent_def flush_resent_def fun_eq_iff)
  from flush_data_ok [OF k(1-6) asm4, of clk seg4] obtain ret kcp' w' where
    "flush_data clk ?k seg4 st4 = Some (ret, kcp', w')
     \<and> 0 < sint ret \<and> sint ret \<le> sint (interval kcp)
     \<and> list_all2 xmit_rel (snd_buf kcp @ admitted kcp n) (snd_buf kcp')
     \<and> sent kcp w (C @ transmitted (snd_buf kcp @ admitted kcp n) (snd_buf kcp')) w'
     \<and> snd_queue kcp' = drop n (snd_queue kcp) \<and> snd_nxt kcp' = snd_nxt kcp + of_nat n
     \<and> same_config kcp kcp' \<and> same_recv kcp kcp' \<and> same_rtt kcp kcp'
     \<and> acklist kcp' = [] \<and> probe kcp' = 0
     \<and> (\<forall>now. clk = (\<lambda>_. now) \<longrightarrow>
          map seg_sn (transmitted (snd_buf kcp @ admitted kcp n) (snd_buf kcp')) =
          map seg_sn (filter (due (flush_resent kcp) n now) (snd_buf kcp @ admitted kcp n)))
     \<and> (nocwnd kcp = 0 \<longrightarrow> cwnd kcp' \<noteq> 0)
     \<and> (IKCP_THRESH_MIN \<le> ssthresh kcp \<longrightarrow> IKCP_THRESH_MIN \<le> ssthresh kcp')"
    unfolding k(7,8) sel by blast
  with eq ctl show ?thesis by (intro exI) auto
qed

end
