(* ===== verification/KcpInputFacts.thy ===== *)
theory KcpInputFacts
  imports KcpInput KcpFlushFacts
begin

section \<open>What an incoming packet does\<close>

text \<open>
  The frame of every step of \<open>Input\<close>, a rule that lifts a property of one segment to the
  whole packet, and the invariant of a connection, which no packet can break.
\<close>

subsection \<open>What an acknowledgement may change in a segment\<close>

definition ack_rel :: "segment \<Rightarrow> segment \<Rightarrow> bool" where
  "ack_rel s t \<longleftrightarrow> seg_sn t = seg_sn s \<and> seg_conv t = seg_conv s \<and> seg_cmd t = seg_cmd s
     \<and> seg_frg t = seg_frg s \<and> seg_xmit t = seg_xmit s
     \<and> (seg_acked t = seg_acked s \<and> seg_data t = seg_data s \<or> seg_acked t = 1 \<and> seg_data t = [])"

lemma ack_rel_refl [simp]: "ack_rel s s"
  by (simp add: ack_rel_def)

lemma ack_rel_trans: "ack_rel s t \<Longrightarrow> ack_rel t u \<Longrightarrow> ack_rel s u"
  by (auto simp: ack_rel_def)

definition acked_from :: "segment list \<Rightarrow> segment list \<Rightarrow> bool" where
  "acked_from buf buf' \<longleftrightarrow> (\<forall>t \<in> set buf'. \<exists>s \<in> set buf. ack_rel s t)"

lemma acked_from_refl [simp]: "acked_from buf buf"
  unfolding acked_from_def using ack_rel_refl by blast

lemma acked_from_trans: "acked_from a b \<Longrightarrow> acked_from b c \<Longrightarrow> acked_from a c"
  unfolding acked_from_def by (meson ack_rel_trans)

lemma acked_from_drop: "acked_from buf (drop n buf)"
  unfolding acked_from_def using ack_rel_refl in_set_dropD by fastforce

lemma acked_from_Cons: "ack_rel s t \<Longrightarrow> acked_from buf buf' \<Longrightarrow> acked_from (s # buf) (t # buf')"
  by (auto simp: acked_from_def)

lemma acked_from_ack_loop: "acked_from buf (ack_loop sn buf)"
  by (induction sn buf rule: ack_loop.induct)
    (auto intro!: acked_from_Cons simp: ack_rel_def delSegment_def)

lemma acked_from_fastack_loop: "acked_from buf (fastack_loop sn ts buf)"
  by (induction sn ts buf rule: fastack_loop.induct)
    (auto intro!: acked_from_Cons simp: ack_rel_def)

lemma acked_from_fits: "acked_from buf buf' \<Longrightarrow> fits kcp buf \<Longrightarrow> fits kcp buf'"
  by (fastforce simp: acked_from_def fits_def ack_rel_def)

subsection \<open>The sending half under one segment\<close>

text \<open>What \<open>Input\<close> may do to the sending half.\<close>

definition input_send :: "KCP \<Rightarrow> KCP \<Rightarrow> bool" where
  "input_send k k' \<longleftrightarrow> same_config k k' \<and> snd_queue k' = snd_queue k \<and> snd_nxt k' = snd_nxt k
     \<and> acked_from (snd_buf k) (snd_buf k') \<and> (send_inv k \<longrightarrow> send_inv k')"

lemma input_send_refl [simp]: "input_send k k"
  by (simp add: input_send_def)

lemma input_send_trans: "input_send a b \<Longrightarrow> input_send b c \<Longrightarrow> input_send a c"
  unfolding input_send_def by (auto intro: acked_from_trans simp: same_config_def)

lemma parse_una_send: "input_send k (shrink_buf (parse_una una k))"
proof -
  have "snd_buf (shrink_buf (parse_una una k)) = drop (una_count una (snd_buf k)) (snd_buf k)"
    by (auto simp: shrink_buf_def parse_una_eq split: list.split)
  moreover have "same_config k (shrink_buf (parse_una una k))
      \<and> snd_queue (shrink_buf (parse_una una k)) = snd_queue k
      \<and> snd_nxt (shrink_buf (parse_una una k)) = snd_nxt k"
    by (auto simp: shrink_buf_def parse_una_eq same_config_def split: list.split)
  ultimately show ?thesis
    by (simp add: input_send_def acked_from_drop parse_una_shrink_inv)
qed

lemma parse_ack_send: "input_send k (parse_ack sn k)"
  using parse_ack_inv [of k sn] acked_from_ack_loop
  by (auto simp: input_send_def parse_ack_def same_config_def)

lemma parse_fastack_send: "input_send k (parse_fastack sn ts k)"
  using parse_fastack_inv [of k sn ts] acked_from_fastack_loop
  by (auto simp: input_send_def parse_fastack_def same_config_def)

lemma same_send_input: "same_config k k' \<Longrightarrow> same_send k k' \<Longrightarrow> input_send k k'"
  by (simp add: input_send_def same_send_def send_inv_def)

lemma move_ready_frame [frame_simps]:
  "same_config k (move_ready k)" "same_send k (move_ready k)" "same_rtt k (move_ready k)"
  "acklist (move_ready k) = acklist k"
  by (simp_all add: move_ready_eq same_defs)

lemma parse_data_frame:
  assumes "parse_data seg k = Some (rep, k')"
  shows "same_config k k'" "same_send k k'" "same_rtt k k'"
  using assms move_ready_frame
  by (auto simp: parse_data_def Let_def move_ready_eq same_defs split: if_splits option.splits)

lemma input_push_frame:
  assumes "input_push regular conv h data k w = Some (k', w')"
  shows "same_config k k'" "same_send k k'" "same_rtt k k'" "outs w' = outs w"
proof -
  let ?k = "ack_push (h_sn h) (h_ts h) k"
  have 0: "same_config k ?k \<and> same_send k ?k \<and> same_rtt k ?k"
    by (simp add: ack_push_def same_defs)
  have trans: "same_config k a \<and> same_send k a \<and> same_rtt k a"
    if "parse_data seg ?k = Some (rep, a)" for seg rep a
    using parse_data_frame [OF that] 0 by (simp add: same_defs)
  show "same_config k k'" "same_send k k'" "same_rtt k k'" "outs w' = outs w"
    using assms 0 trans
    by (simp_all add: input_push_def Let_def bind_eq_Some_conv split: if_splits)
      (auto split: if_splits)
qed

text \<open>The first two steps of a dispatch, and what follows by command.\<close>

definition input_una :: "bool \<Rightarrow> header \<Rightarrow> KCP \<Rightarrow> KCP" where
  "input_una regular h k = shrink_buf (parse_una (h_una h)
     (if regular then k\<lparr>rmt_wnd := ucast (h_wnd h)\<rparr> else k))"

lemma input_una_send: "input_send k (input_una regular h k)"
proof -
  have "input_send k (if regular then k\<lparr>rmt_wnd := ucast (h_wnd h)\<rparr> else k)"
    by (rule same_send_input) (simp_all add: same_defs)
  then show ?thesis
    unfolding input_una_def by (rule input_send_trans [OF _ parse_una_send])
qed

lemma input_una_recv: "same_recv k (input_una regular h k)"
  "rcv_wnd (input_una regular h k) = rcv_wnd k" "acklist (input_una regular h k) = acklist k"
  by (auto simp: input_una_def shrink_buf_def parse_una_eq same_recv_def split: list.split)

lemma input_dispatch_cases:
  assumes "input_dispatch regular conv h data k w v = Some (k', w', v')"
  obtains (ack) "h_cmd h = IKCP_CMD_ACK" "w' = w"
      "k' = parse_fastack (h_sn h) (h_ts h) (parse_ack (h_sn h) (input_una regular h k))"
  | (push) "h_cmd h = IKCP_CMD_PUSH"
      "input_push regular conv h data (input_una regular h k) w = Some (k', w')"
  | (wask) "h_cmd h = IKCP_CMD_WASK" "w' = w"
      "k' = input_una regular h k\<lparr>probe := probe (input_una regular h k) OR IKCP_ASK_TELL\<rparr>"
  | (wins) "h_cmd h \<noteq> IKCP_CMD_PUSH" "w' = w" "k' = input_una regular h k"
proof -
  let ?k = "input_una regular h k"
  have eq: "input_dispatch regular conv h data k w v =
    (if h_cmd h = IKCP_CMD_ACK
     then Some (parse_fastack (h_sn h) (h_ts h) (parse_ack (h_sn h) ?k), w,
            v\<lparr>iv_flag := iv_flag v OR 1, iv_latest := h_ts h\<rparr>)
     else if h_cmd h = IKCP_CMD_PUSH
     then do { (kcp, w) \<leftarrow> input_push regular conv h data ?k w; Some (kcp, w, v) }
     else if h_cmd h = IKCP_CMD_WASK
     then Some (?k\<lparr>probe := probe ?k OR IKCP_ASK_TELL\<rparr>, w, v)
     else Some (?k, w, v))"
    by (simp add: input_dispatch_def input_una_def Let_def)
  consider "h_cmd h = IKCP_CMD_ACK" | "h_cmd h = IKCP_CMD_PUSH" | "h_cmd h = IKCP_CMD_WASK"
    | "h_cmd h \<noteq> IKCP_CMD_ACK" "h_cmd h \<noteq> IKCP_CMD_PUSH" "h_cmd h \<noteq> IKCP_CMD_WASK" by blast
  then show thesis
  proof cases
    case 1
    with assms ack show ?thesis unfolding eq by simp
  next
    case 2
    with assms push show ?thesis unfolding eq by (auto simp: bind_eq_Some_conv)
  next
    case 3
    with assms wask show ?thesis unfolding eq by simp
  next
    case 4
    with assms wins show ?thesis unfolding eq by simp
  qed
qed

lemma input_dispatch_send:
  assumes "input_dispatch regular conv h data k w v = Some (k', w', v')"
  shows "input_send k k'" "outs w' = outs w"
proof -
  from assms have "input_send (input_una regular h k) k' \<and> outs w' = outs w"
  proof (cases rule: input_dispatch_cases)
    case ack
    then show ?thesis using input_send_trans [OF parse_ack_send parse_fastack_send] by simp
  next
    case push
    from input_push_frame [OF push(2)] show ?thesis by (simp add: same_send_input)
  next
    case wask
    then show ?thesis by (auto intro!: same_send_input simp: same_defs)
  next
    case wins
    then show ?thesis by simp
  qed
  then show "input_send k k'" "outs w' = outs w"
    using input_send_trans [OF input_una_send] by blast+
qed

subsection \<open>The receiving half under one segment\<close>

lemma parse_ack_recv: "same_recv k (parse_fastack sn ts (parse_ack sn' k))"
  by (simp add: parse_ack_def parse_fastack_def same_recv_def)

lemma recv_inv_cong: "same_recv k k' \<Longrightarrow> recv_inv k' = recv_inv k"
  by (simp add: recv_inv_def same_recv_def)

lemma parse_data_total:
  "length (seg_data seg) \<le> mtuLimit \<Longrightarrow> \<exists>rep k'. parse_data seg k = Some (rep, k')"
  by (auto simp: parse_data_def Let_def split: option.splits)

text \<open>
  A segment reaches the receiving half only as a call of \<open>parse_data\<close>, with the header and the
  payload that were decoded.
\<close>

definition pushed :: "u32 \<Rightarrow> header \<Rightarrow> bytes \<Rightarrow> segment" where
  "pushed conv h data = segment0\<lparr>seg_conv := conv, seg_cmd := h_cmd h, seg_frg := h_frg h,
     seg_wnd := h_wnd h, seg_ts := h_ts h, seg_sn := h_sn h, seg_una := h_una h,
     seg_data := take (unat (h_length h)) data\<rparr>"

definition recv_step :: "segment \<Rightarrow> KCP \<Rightarrow> KCP \<Rightarrow> bool" where
  "recv_step seg k k' \<longleftrightarrow> same_recv k k'
     \<or> (\<exists>k0 k1 rep. same_recv k k0 \<and> rcv_wnd k0 = rcv_wnd k
          \<and> parse_data seg k0 = Some (rep, k1) \<and> same_recv k1 k')"

lemma recv_stepI:
  "same_recv k k' \<Longrightarrow> recv_step seg k k'"
  "parse_data seg k0 = Some (rep, k') \<Longrightarrow> same_recv k k0 \<Longrightarrow> rcv_wnd k0 = rcv_wnd k \<Longrightarrow>
     recv_step seg k k'"
  unfolding recv_step_def using same_refl(2) by blast+

lemma input_push_recv:
  assumes "input_push regular conv h data k w = Some (k', w')"
  shows "recv_step (pushed conv h data) k k'"
proof -
  let ?k0 = "ack_push (h_sn h) (h_ts h) k"
  have 0: "same_recv k ?k0" "rcv_wnd ?k0 = rcv_wnd k" "rcv_nxt ?k0 = rcv_nxt k"
    by (simp_all add: ack_push_def same_recv_def)
  show ?thesis
    using assms 0
    by (auto simp: input_push_def pushed_def [symmetric] Let_def bind_eq_Some_conv
        intro: recv_stepI split: if_splits)
qed

lemma same_recv_trans: "same_recv a b \<Longrightarrow> same_recv b c \<Longrightarrow> same_recv a c"
  by (simp add: same_recv_def)

lemma input_dispatch_recv:
  assumes "input_dispatch regular conv h data k w v = Some (k', w', v')"
  shows "if h_cmd h = IKCP_CMD_PUSH then recv_step (pushed conv h data) k k' else same_recv k k'"
  using assms
proof (cases rule: input_dispatch_cases)
  case ack
  then show ?thesis using same_recv_trans [OF input_una_recv(1) parse_ack_recv] by simp
next
  case push
  from input_push_recv [OF push(2)] have "recv_step (pushed conv h data) k k'"
    unfolding recv_step_def
    by (metis input_una_recv(1,2) same_recv_trans)
  with push(1) show ?thesis by simp
next
  case wask
  then show ?thesis using input_una_recv(1) [of k regular h] by (simp add: same_recv_def)
next
  case wins
  then show ?thesis using input_una_recv(1) by simp
qed

lemma recv_step_inv: "recv_step seg k k' \<Longrightarrow> recv_inv k \<Longrightarrow> recv_inv k'"
  unfolding recv_step_def by (metis parse_data_inv recv_inv_cong)

lemma input_dispatch_recv_inv:
  assumes "input_dispatch regular conv h data k w v = Some (k', w', v')" "recv_inv k"
  shows "recv_inv k'"
  using input_dispatch_recv [OF assms(1)] assms(2) recv_step_inv recv_inv_cong
  by (auto split: if_splits)

lemma input_push_total:
  "length data \<le> mtuLimit \<Longrightarrow> \<exists>k' w'. input_push regular conv h data k w = Some (k', w')"
proof -
  assume "length data \<le> mtuLimit"
  then have "length (seg_data (pushed conv h data)) \<le> mtuLimit" by (simp add: pushed_def)
  from parse_data_total [OF this, of "ack_push (h_sn h) (h_ts h) k"] show ?thesis
    by (auto simp: input_push_def pushed_def [symmetric] Let_def)
qed

lemma input_dispatch_total:
  assumes "length data \<le> mtuLimit"
  shows "\<exists>k' w' v'. input_dispatch regular conv h data k w v = Some (k', w', v')"
  using input_push_total [OF assms]
  by (auto simp: input_dispatch_def Let_def bind_eq_Some_conv)

subsection \<open>The whole packet\<close>

text \<open>Reading back a header that was written.\<close>

definition seg_header :: "segment \<Rightarrow> header" where
  "seg_header s = \<lparr>h_cmd = seg_cmd s, h_frg = seg_frg s, h_wnd = seg_wnd s, h_ts = seg_ts s,
     h_sn = seg_sn s, h_una = seg_una s, h_length = of_nat (length (seg_data s))\<rparr>"

lemma decode_wire:
  "\<exists>r. ikcp_decode32u (wire_bytes s @ rest) = Some (seg_conv s, r)
     \<and> decode_header r = Some (seg_header s, seg_data s @ rest)"
  by (simp add: wire_bytes_def header_bytes_def decode_header_def seg_header_def)

text \<open>A segment reads no more of the packet than its length says.\<close>

lemma input_push_prefix:
  "unat (h_length h) \<le> length data \<Longrightarrow>
   input_push regular conv h (data @ rest) k w = input_push regular conv h data k w"
  by (simp add: input_push_def Let_def)

lemma input_dispatch_prefix:
  "unat (h_length h) \<le> length data \<Longrightarrow>
   input_dispatch regular conv h (data @ rest) k w v = input_dispatch regular conv h data k w v"
  by (simp add: input_dispatch_def input_push_prefix Let_def)

text \<open>Segments one after the other: what a packet of encoded segments means.\<close>

fun input_segs ::
  "bool \<Rightarrow> segment list \<Rightarrow> KCP \<Rightarrow> world \<Rightarrow> input_vars \<Rightarrow> (KCP \<times> world \<times> input_vars) option" where
  "input_segs regular [] k w v = Some (k, w, v)"
| "input_segs regular (s # segs) k w v = do {
     (k, w, v) \<leftarrow> input_dispatch regular (kconv k) (seg_header s) (seg_data s) k w v;
     input_segs regular segs k w (v\<lparr>iv_inSegs := iv_inSegs v + 1\<rparr>)
   }"

definition sendable :: "u32 \<Rightarrow> segment \<Rightarrow> bool" where
  "sendable conv s \<longleftrightarrow> seg_conv s = conv \<and> length (seg_data s) \<le> mtuLimit
     \<and> seg_cmd s \<in> {IKCP_CMD_PUSH, IKCP_CMD_ACK, IKCP_CMD_WASK, IKCP_CMD_WINS}"

lemma sendable_length: "sendable conv s \<Longrightarrow> unat (h_length (seg_header s)) = length (seg_data s)"
  by (simp add: seg_header_def sendable_def unat_of_nat_u32)

lemma input_loop_Cons:
  assumes "sendable (kconv k) s"
  shows "input_loop regular (wire_bytes s @ rest) k w v =
     (case input_dispatch regular (kconv k) (seg_header s) (seg_data s) k w v of
        None \<Rightarrow> None
      | Some (k, w, v) \<Rightarrow> input_loop regular rest k w (v\<lparr>iv_inSegs := iv_inSegs v + 1\<rparr>))"
proof -
  obtain r where r: "ikcp_decode32u (wire_bytes s @ rest) = Some (seg_conv s, r)"
    "decode_header r = Some (seg_header s, seg_data s @ rest)"
    using decode_wire by blast
  have len: "unat (h_length (seg_header s)) = length (seg_data s)"
    using assms by (rule sendable_length)
  have cmd: "h_cmd (seg_header s) = IKCP_CMD_PUSH \<or> h_cmd (seg_header s) = IKCP_CMD_ACK
      \<or> h_cmd (seg_header s) = IKCP_CMD_WASK \<or> h_cmd (seg_header s) = IKCP_CMD_WINS"
    using assms by (auto simp: sendable_def seg_header_def)
  have "seg_conv s = kconv k" using assms by (simp add: sendable_def)
  with r len cmd show ?thesis
    unfolding input_loop.simps [of regular "wire_bytes s @ rest"]
    by (auto simp: input_dispatch_prefix split: option.split)
qed

lemma input_loop_packet:
  assumes "\<forall>s \<in> set segs. sendable (kconv k) s"
  shows "input_loop regular (packet segs) k w v =
     map_option (\<lambda>(k, w, v). Fin k w v) (input_segs regular segs k w v)"
  using assms
proof (induction segs arbitrary: k w v)
  case Nil
  show ?case by (simp add: input_loop.simps)
next
  case (Cons s segs)
  have send: "sendable (kconv k) s" and rest: "\<forall>t \<in> set segs. sendable (kconv k) t"
    using Cons.prems by auto
  have step: "input_loop regular (packet segs) k' w' v' =
      map_option (\<lambda>(k, w, v). Fin k w v) (input_segs regular segs k' w' v')"
    if "input_dispatch regular (kconv k) (seg_header s) (seg_data s) k w v0 = Some (k', w', v0')"
    for k' w' v0 v0' v'
  proof -
    have "kconv k' = kconv k"
      using input_dispatch_send(1) [OF that] by (simp add: input_send_def same_config_def)
    with rest show ?thesis by (intro Cons.IH) simp
  qed
  show ?case
    using step by (auto simp: input_loop_Cons [OF send] split: option.split)
qed

text \<open>
  Lifting a property of the state from one segment to a packet of any content: the loop
  returns, with the property, whatever the bytes are.
\<close>

fun result_state :: "input_result \<Rightarrow> KCP \<times> world" where
  "result_state (Ret r k w) = (k, w)"
| "result_state (Fin k w v) = (k, w)"

fun result_code :: "input_result \<Rightarrow> int" where
  "result_code (Ret r k w) = r"
| "result_code (Fin k w v) = 0"

lemma decode_header_total: "20 \<le> length d \<Longrightarrow> \<exists>h r. decode_header d = Some (h, r)"
proof -
  assume len: "20 \<le> length d"
  obtain a b e where d: "d = a # b # e"
    using len by (cases d rule: remdups_adj.cases) auto
  have le: "\<exists>x. get_le32 (drop n e) = Some x" if "n \<le> 14" for n
  proof -
    have "\<not> length (drop n e) < 4" using that len d by simp
    then show ?thesis using get_le32_None [of "drop n e"] by (cases "get_le32 (drop n e)") auto
  qed
  obtain w where "get_le16 e = Some w"
    using len d get_le16_None [of e] by (cases "get_le16 e") auto
  moreover obtain ts sn una l where "get_le32 (drop 2 e) = Some ts" "get_le32 (drop 6 e) = Some sn"
    "get_le32 (drop 10 e) = Some una" "get_le32 (drop 14 e) = Some l"
    using le [of 2] le [of 6] le [of 10] le [of 14] by auto
  ultimately show ?thesis
    by (simp add: d decode_header_def ikcp_decode16u_def ikcp_decode32u_def)
qed

lemma input_loop_rule:
  assumes "length data \<le> mtuLimit" "P (k, w)"
    and step: "\<And>regular h data k w v k' w' v'. P (k, w) \<Longrightarrow> length data \<le> mtuLimit \<Longrightarrow>
      input_dispatch regular (kconv k) h data k w v = Some (k', w', v') \<Longrightarrow> P (k', w')"
  shows "\<exists>res. input_loop regular data k w v = Some res \<and> P (result_state res)
     \<and> result_code res \<in> {0, -1, -2, -3}"
  using assms(1,2)
proof (induction regular data k w v rule: input_loop.induct)
  case (1 regular data k w v)
  show ?case
  proof (cases "length data < IKCP_OVERHEAD")
    case True
    with 1 show ?thesis by (simp add: input_loop.simps)
  next
    case False
    then obtain conv d1 where d1: "ikcp_decode32u data = Some (conv, d1)" "length data = length d1 + 4"
      by (cases "get_le32 data") (auto simp: ikcp_decode32u_def get_le32_None)
    show ?thesis
    proof (cases "conv = kconv k")
      case conv: False
      with 1 False d1 show ?thesis by (simp add: input_loop.simps [of regular data])
    next
      case conv: True
      have "20 \<le> length d1" using False d1(2) by simp
      then obtain h d2 where h: "decode_header d1 = Some (h, d2)"
        using decode_header_total by blast
      have d2: "length d2 \<le> mtuLimit"
        using decode_header_length [OF h] d1(2) "1.prems"(1) by simp
      show ?thesis
      proof (cases "length d2 < unat (h_length h) \<or> h_cmd h \<noteq> IKCP_CMD_PUSH \<and> h_cmd h \<noteq> IKCP_CMD_ACK
          \<and> h_cmd h \<noteq> IKCP_CMD_WASK \<and> h_cmd h \<noteq> IKCP_CMD_WINS")
        case True
        with "1.prems"(2) False d1 conv h show ?thesis
          by (auto simp: input_loop.simps [of regular data])
      next
        case ok: False
        obtain k' w' v' where disp: "input_dispatch regular (kconv k) h d2 k w v = Some (k', w', v')"
          using input_dispatch_total [OF d2] by blast
        have "P (k', w')" by (rule step [OF "1.prems"(2) d2 disp])
        moreover have "length (drop (unat (h_length h)) d2) \<le> mtuLimit" using d2 by simp
        moreover have "input_loop regular data k w v =
            input_loop regular (drop (unat (h_length h)) d2) k' w' (v'\<lparr>iv_inSegs := iv_inSegs v' + 1\<rparr>)"
          using False d1 conv h ok disp by (auto simp: input_loop.simps [of regular data])
        moreover have "P (k', w') \<Longrightarrow> length (drop (unat (h_length h)) d2) \<le> mtuLimit \<Longrightarrow>
          \<exists>res. input_loop regular (drop (unat (h_length h)) d2) k' w' (v'\<lparr>iv_inSegs := iv_inSegs v' + 1\<rparr>)
              = Some res \<and> P (result_state res) \<and> result_code res \<in> {0, -1, -2, -3}"
          by (rule "1.IH" [OF False d1(1) refl _ h refl _ _ _ refl refl]) (use conv ok disp in auto)
        ultimately show ?thesis by simp
      qed
    qed
  qed
qed

subsection \<open>The end of Input\<close>

lemma update_ack_same: "same_config k (update_ack rtt k)" "same_send k (update_ack rtt k)"
  "same_recv k (update_ack rtt k)"
  by (simp_all add: update_ack_def Let_def same_defs)

lemma input_cwnd_ok:
  assumes "0 < unat (mss k)"
  shows "\<exists>k'. input_cwnd una k = Some k' \<and> same_config k k' \<and> same_send k k' \<and> same_recv k k'
     \<and> acklist k' = acklist k"
proof -
  define k0 where "k0 = (if incr k < mss k then k\<lparr>incr := mss k\<rparr> else k)"
  have "mss k \<noteq> 0" using assms by auto
  then have "incr k0 \<noteq> 0" by (auto simp: k0_def not_less)
  moreover have "same_config k k0 \<and> same_send k k0 \<and> same_recv k k0 \<and> acklist k0 = acklist k"
    by (simp add: k0_def same_defs)
  ultimately show ?thesis
    unfolding input_cwnd_def Let_def k0_def [symmetric] by (simp add: same_defs)
qed

text \<open>
  \<open>Q\<close> holds after the call when it holds after the loop and depends on the sending and the
  receiving half only; all the call sends is acknowledgements.
\<close>

lemma Input_rule:
  assumes "layout k" "Q k"
    and loop: "\<And>v. \<exists>res. input_loop regular data k w v = Some res
      \<and> Q (fst (result_state res)) \<and> same_config k (fst (result_state res))
      \<and> outs (snd (result_state res)) = outs w \<and> result_code res \<in> C"
    and frame: "\<And>a b. Q a \<Longrightarrow> same_config a b \<Longrightarrow> same_send a b \<Longrightarrow> same_recv a b \<Longrightarrow> Q b"
    and code: "0 \<in> C" "-1 \<in> C"
  shows "\<exists>r k' w' L. Input clk data regular nd k w = Some (r, k', w') \<and> r \<in> C \<and> Q k'
     \<and> same_config k k' \<and> sent k w L w' \<and> (\<forall>s \<in> set L. control (kconv k) s)"
proof (cases "length data < IKCP_OVERHEAD")
  case True
  with assms(2) code show ?thesis
    by (auto simp: Input_def intro!: exI [of _ "[]"])
next
  case False
  let ?v = "\<lparr>iv_latest = 0, iv_flag = 0, iv_inSegs = 0\<rparr> :: input_vars"
  from loop [of ?v] obtain res where res: "input_loop regular data k w ?v = Some res"
    "Q (fst (result_state res))" "same_config k (fst (result_state res))"
    "outs (snd (result_state res)) = outs w" "result_code res \<in> C"
    by blast
  show ?thesis
  proof (cases res)
    case (Ret r k1 w1)
    have "sent k w [] w1" using sent_outs [of w1 w k w "[]"] res(4) Ret by simp
    with False res Ret show ?thesis
      by (auto simp: Input_def intro!: exI [of _ "[]"])
  next
    case (Fin k1 w1 v1)
    define w2 where "w2 = count (\<lambda>s. s\<lparr>InSegs := InSegs s + iv_inSegs v1\<rparr>) w1"
    obtain k3 w3 where 3: "input_rtt clk regular v1 k1 w2 = (k3, w3)"
      by fastforce
    have k3: "same_config k1 k3 \<and> same_send k1 k3 \<and> same_recv k1 k3 \<and> outs w3 = outs w1"
      using 3 update_ack_same
      by (auto simp: input_rtt_def currentMs_def w2_def split: if_splits)
    with res(2,3) Fin have 4: "Q k3" "same_config k k3" "outs w3 = outs w"
      using frame [of k1 k3] res(4) by (auto simp: same_config_def)
    have lay: "layout k3" using layout_config [OF 4(2) assms(1)] .
    then have "0 < unat (mss k3)" by (rule layout_mss)
    then obtain k4 where k4: "input_cwnd (snd_una k) k3 = Some k4"
      "same_config k3 k4" "same_send k3 k4" "same_recv k3 k4" using input_cwnd_ok by blast
    have Q4: "Q k4" by (rule frame [OF 4(1) k4(2-)])
    have c4: "same_config k k4" using 4(2) k4(2) by (simp add: same_config_def)
    have eq: "Input clk data regular nd k w =
        (if nd \<and> acklist k4 \<noteq> []
         then map_option (\<lambda>(_, kcp, w). (0, kcp, w)) (flush clk True k4 w3)
         else Some (0, k4, w3))"
      using False res(1) Fin 3 k4(1) by (simp add: Input_def w2_def [symmetric] Let_def)
    have nil: "sent k w [] w3" using sent_outs [of w3 w k w "[]"] 4(3) by simp
    show ?thesis
    proof (cases "nd \<and> acklist k4 \<noteq> []")
      case True
      have lay4: "layout k4" using c4 assms(1) by (rule layout_config)
      obtain w' where fl: "flush clk True k4 w3 = Some (interval k4, k4\<lparr>acklist := []\<rparr>, w')"
        "sent k4 w3 (ack_segs (rcv_nxt k4) (flush_seg k4) (acklist k4)) w'"
        using flush_ack_ok [OF lay4] by blast
      have Q5: "Q (k4\<lparr>acklist := []\<rparr>)" by (rule frame [OF Q4]) (simp_all add: same_defs)
      have "sent k w (ack_segs (rcv_nxt k4) (flush_seg k4) (acklist k4)) w'"
        using fl(2) 4(3) c4 by (simp add: sent_def same_config_def)
      moreover have "kconv k4 = kconv k" using c4 by (simp add: same_config_def)
      then have "\<forall>s \<in> set (ack_segs (rcv_nxt k4) (flush_seg k4) (acklist k4)). control (kconv k) s"
        using ack_segs_control [OF control_flush_seg] by metis
      moreover have "same_config k (k4\<lparr>acklist := []\<rparr>)" using c4 by (simp add: same_config_def)
      moreover have "Input clk data regular nd k w = Some (0, k4\<lparr>acklist := []\<rparr>, w')"
        using eq True fl(1) by simp
      ultimately show ?thesis using Q5 code(1) by blast
    next
      case False
      have "Input clk data regular nd k w = Some (0, k4, w3)"
        using eq unfolding if_not_P [OF False] .
      with Q4 c4 nil code(1) show ?thesis by (intro exI [of _ 0] exI [of _ k4] exI [of _ w3] exI [of _ "[]"]) simp
    qed
  qed
qed

text \<open>A packet of any content.\<close>

lemma Input_any:
  assumes "layout k" "length data \<le> mtuLimit"
  shows "\<exists>r k' w' L. Input clk data regular nd k w = Some (r, k', w') \<and> r \<in> {0, -1, -2, -3}
     \<and> input_send k k' \<and> (recv_inv k \<longrightarrow> recv_inv k')
     \<and> sent k w L w' \<and> (\<forall>s \<in> set L. control (kconv k) s)"
proof -
  let ?Q = "\<lambda>k'. input_send k k' \<and> (recv_inv k \<longrightarrow> recv_inv k')"
  have "\<exists>res. input_loop regular data k w v = Some res
      \<and> (?Q (fst (result_state res)) \<and> outs (snd (result_state res)) = outs w)
      \<and> result_code res \<in> {0, -1, -2, -3}" for v
    using assms(2)
    by (rule input_loop_rule [where P = "\<lambda>(k', w'). ?Q k' \<and> outs w' = outs w", unfolded case_prod_beta])
      (auto intro: input_send_trans dest: input_dispatch_send input_dispatch_recv_inv)
  moreover have "same_config k k'" if "?Q k'" for k'
    using that by (simp add: input_send_def)
  ultimately have loop: "\<exists>res. input_loop regular data k w v = Some res
      \<and> ?Q (fst (result_state res)) \<and> same_config k (fst (result_state res))
      \<and> outs (snd (result_state res)) = outs w \<and> result_code res \<in> {0, -1, -2, -3}" for v
    by (metis (no_types, lifting))
  have frame: "?Q b" if "?Q a" "same_config a b" "same_send a b" "same_recv a b" for a b
    using that same_send_input [OF that(2,3)] input_send_trans recv_inv_cong by blast
  have "\<exists>r k' w' L. Input clk data regular nd k w = Some (r, k', w') \<and> r \<in> {0, -1, -2, -3}
     \<and> ?Q k' \<and> same_config k k' \<and> sent k w L w' \<and> (\<forall>s \<in> set L. control (kconv k) s)"
  proof (rule Input_rule [OF assms(1) _ loop])
    show "?Q k" by simp
    show "?Q b" if "?Q a" "same_config a b" "same_send a b" "same_recv a b" for a b
      by (rule frame [OF that])
  qed simp_all
  then show ?thesis by blast
qed

end
