(* ===== verification/KcpProperties.thy ===== *)
theory KcpProperties
  imports KcpInputFacts
begin

section \<open>Properties of the KCP state machine\<close>

text \<open>
  The invariant of a connection and what each operation of \<open>kcp.go\<close> promises. \<open>kcp_ok\<close>
  holds of a new connection and is kept by every operation; under it no operation panics.
\<close>

definition kcp_ok :: "KCP \<Rightarrow> bool" where
  "kcp_ok k \<longleftrightarrow> layout k \<and> send_inv k \<and> recv_inv k \<and> fits k (snd_buf k) \<and> fits k (snd_queue k)
     \<and> unat (snd_wnd k) < 2 ^ 31 \<and> 0 < sint (interval k)"

lemma kcp_ok_NewKCP: "kcp_ok (NewKCP conv)"
  by (simp add: kcp_ok_def layout_def send_inv_def recv_inv_def fits_def)

text \<open>A connection in use: one segment in flight, sent at time 10, and one that waits.\<close>

definition busy :: KCP where
  "busy = (NewKCP 3)\<lparr>cwnd := 4, snd_nxt := 1,
     snd_buf := [segment0\<lparr>seg_conv := 3, seg_cmd := IKCP_CMD_PUSH, seg_xmit := 1, seg_ts := 10,
                          seg_rto := 200, seg_resendts := 210, seg_data := [1, 2, 3]\<rparr>],
     snd_queue := [segment0\<lparr>seg_data := [4, 5]\<rparr>],
     acklist := [\<lparr>ack_sn = 0, ack_ts = 7\<rparr>]\<rparr>"

lemma kcp_ok_busy: "kcp_ok busy"
  by (simp add: busy_def kcp_ok_def layout_def send_inv_def recv_inv_def fits_def segment0_def seqs_def)

lemma flush_cwnd_le: "unat (flush_cwnd k) \<le> unat (snd_wnd k)"
  using imin_le [of "cwnd k" "imin (snd_wnd k) (rmt_wnd k)"] imin_le [of "snd_wnd k" "rmt_wnd k"]
  by (auto simp: flush_cwnd_def Let_def word_le_nat_alt)

lemma fits_config: "same_config k k' \<Longrightarrow> fits k' segs = fits k segs"
  by (simp add: fits_def same_config_def)

subsection \<open>Input\<close>

lemma Input_kcp_ok:
  assumes "kcp_ok k" "length data \<le> mtuLimit"
  shows "\<exists>r k' w' L. Input clk data regular nd k w = Some (r, k', w')
     \<and> r \<in> {0, -1, -2, -3} \<and> kcp_ok k' \<and> input_send k k'
     \<and> sent k w L w' \<and> (\<forall>s \<in> set L. control (kconv k) s)"
proof -
  from assms(1) have lay: "layout k" by (simp add: kcp_ok_def)
  from Input_any [OF lay assms(2)] obtain r k' w' L where
    res: "Input clk data regular nd k w = Some (r, k', w')" "r \<in> {0, -1, -2, -3}"
      "sent k w L w'" "\<forall>s \<in> set L. control (kconv k) s"
    and send: "input_send k k'" and recv: "recv_inv k \<longrightarrow> recv_inv k'"
    by blast
  from send have config: "same_config k k'" by (simp add: input_send_def)
  have "fits k' (snd_buf k')"
    using send assms(1) acked_from_fits fits_config [OF config]
    by (auto simp: input_send_def kcp_ok_def)
  with send recv assms(1) layout_config [OF config lay] fits_config [OF config] have "kcp_ok k'"
    by (simp add: kcp_ok_def input_send_def same_config_def)
  with res send show ?thesis by blast
qed

text \<open>C36. \<open>Input\<close> is total: whatever bytes a packet of at most \<open>mtuLimit\<close> bytes carries, no
  slice expression panics, the result is one of the documented codes, the connection keeps its
  invariant, and all the call transmits is acknowledgements of this conversation.\<close>

theorem Input_safe:
  assumes "kcp_ok k" "length data \<le> mtuLimit"
  shows "\<exists>r k' w' L. Input clk data regular ackNoDelay k w = Some (r, k', w')
     \<and> r \<in> {0, -1, -2, -3} \<and> kcp_ok k'
     \<and> sent k w L w' \<and> (\<forall>s \<in> set L. control (kconv k) s)"
  using Input_kcp_ok [OF assms] by blast

theorem Input_safe_witness:
  "\<exists>r k' w' L. Input (\<lambda>_. 5) (replicate 30 1) True True (NewKCP 0x01010101) world0 = Some (r, k', w')
     \<and> r \<in> {0, -1, -2, -3} \<and> kcp_ok k'
     \<and> sent (NewKCP 0x01010101) world0 L w' \<and> (\<forall>s \<in> set L. control (kconv (NewKCP 0x01010101)) s)"
  by (rule Input_safe [OF kcp_ok_NewKCP]) simp

text \<open>The wire format: a packet of encoded segments is read back segment by segment, in
  order; \<open>Input\<close>'s loop does to the connection what the decoded headers and payloads say, and
  nothing is left over.\<close>

theorem input_loop_reads_packet:
  assumes "\<forall>s \<in> set segs. sendable (kconv k) s"
  shows "input_loop regular (concat (map wire_bytes segs)) k w v =
     map_option (\<lambda>(k, w, v). Fin k w v) (input_segs regular segs k w v)"
  using input_loop_packet [OF assms] by (simp add: packet_def)

theorem input_loop_reads_packet_witness:
  "input_loop True (concat (map wire_bytes
       [segment0\<lparr>seg_conv := 7, seg_cmd := IKCP_CMD_PUSH, seg_sn := 1, seg_data := [1, 2]\<rparr>,
        segment0\<lparr>seg_conv := 7, seg_cmd := IKCP_CMD_WINS\<rparr>])) (NewKCP 7) world0 \<lparr>iv_latest = 0, iv_flag = 0, iv_inSegs = 0\<rparr> =
     map_option (\<lambda>(k, w, v). Fin k w v) (input_segs True
       [segment0\<lparr>seg_conv := 7, seg_cmd := IKCP_CMD_PUSH, seg_sn := 1, seg_data := [1, 2]\<rparr>,
        segment0\<lparr>seg_conv := 7, seg_cmd := IKCP_CMD_WINS\<rparr>] (NewKCP 7) world0
       \<lparr>iv_latest = 0, iv_flag = 0, iv_inSegs = 0\<rparr>)"
  by (rule input_loop_reads_packet) (simp add: sendable_def segment0_def)

subsection \<open>flush\<close>

lemma transmitted_kept:
  "list_all2 xmit_rel buf buf' \<Longrightarrow> s \<in> set (transmitted buf buf') \<Longrightarrow>
     \<exists>t \<in> set buf. xmit_rel t s \<and> seg_acked t \<noteq> 1"
  by (induction rule: list_all2_induct) (auto simp: xmit_rel_def split: if_splits)

text \<open>What a full flush did, with \<open>C\<close> the control segments it wrote.\<close>

definition flushed ::
  "(nat \<Rightarrow> u32) \<Rightarrow> KCP \<Rightarrow> world \<Rightarrow> segment list \<Rightarrow> u32 \<times> KCP \<times> world \<Rightarrow> bool" where
  "flushed clk k w C = (\<lambda>(ret, k', w').
     let buf = snd_buf k @ admitted k (n_admit k) in
     0 < sint ret \<and> sint ret \<le> sint (interval k)
     \<and> list_all2 xmit_rel buf (snd_buf k') \<and> controls k C
     \<and> sent k w (C @ transmitted buf (snd_buf k')) w'
     \<and> snd_queue k' = drop (n_admit k) (snd_queue k)
     \<and> snd_nxt k' = snd_nxt k + of_nat (n_admit k)
     \<and> same_config k k' \<and> same_recv k k' \<and> same_rtt k k' \<and> acklist k' = [] \<and> probe k' = 0
     \<and> (\<forall>now. clk = (\<lambda>_. now) \<longrightarrow> map seg_sn (transmitted buf (snd_buf k')) =
          map seg_sn (filter (due (flush_resent k) (n_admit k) now) buf))
     \<and> (nocwnd k = 0 \<longrightarrow> cwnd k' \<noteq> 0)
     \<and> (IKCP_THRESH_MIN \<le> ssthresh k \<longrightarrow> IKCP_THRESH_MIN \<le> ssthresh k'))"

lemma flushedD:
  assumes "flushed clk k w C (ret, k', w')"
  shows "0 < sint ret" "sint ret \<le> sint (interval k)"
    "list_all2 xmit_rel (snd_buf k @ admitted k (n_admit k)) (snd_buf k')" "controls k C"
    "sent k w (C @ transmitted (snd_buf k @ admitted k (n_admit k)) (snd_buf k')) w'"
    "snd_queue k' = drop (n_admit k) (snd_queue k)" "snd_nxt k' = snd_nxt k + of_nat (n_admit k)"
    "same_config k k'" "same_recv k k'" "same_rtt k k'" "acklist k' = []" "probe k' = 0"
    "clk = (\<lambda>_. now) \<Longrightarrow>
       map seg_sn (transmitted (snd_buf k @ admitted k (n_admit k)) (snd_buf k')) =
       map seg_sn (filter (due (flush_resent k) (n_admit k) now) (snd_buf k @ admitted k (n_admit k)))"
    "nocwnd k = 0 \<Longrightarrow> cwnd k' \<noteq> 0"
    "IKCP_THRESH_MIN \<le> ssthresh k \<Longrightarrow> IKCP_THRESH_MIN \<le> ssthresh k'"
  using assms by (simp_all add: flushed_def Let_def)

lemma kcp_ok_flush:
  assumes "kcp_ok k"
  shows "\<exists>ret k' w' C. flush clk False k w = Some (ret, k', w') \<and> flushed clk k w C (ret, k', w')"
proof -
  have "unat (flush_cwnd k) < 2 ^ 31"
    using assms flush_cwnd_le [of k] by (simp add: kcp_ok_def)
  with assms flush_ok [of k clk w] show ?thesis
    unfolding kcp_ok_def flushed_def Let_def prod.case by (simp only:)
qed

lemma flush_window:
  assumes "kcp_ok k" "flushed clk k w C (ret, k', w')"
  shows "length (snd_buf k') = length (snd_buf k) + n_admit k"
    and "length (snd_buf k') \<le> max (length (snd_buf k)) (unat (flush_cwnd k))"
  using list_all2_lengthD [OF flushedD(3) [OF assms(2)]] by (auto simp: n_admit_def)

lemma flush_kcp_ok:
  assumes ok: "kcp_ok k" and fl: "flushed clk k w C (ret, k', w')"
  shows "kcp_ok k'"
proof -
  let ?n = "n_admit k"
  note rel = flushedD(3) [OF fl] and config = flushedD(8) [OF fl]
  have n: "?n \<le> length (snd_queue k)" by (simp add: n_admit_def)
  have "length (snd_buf k') < 2 ^ 31"
    using flush_window(2) [OF ok fl] ok flush_cwnd_le [of k] by (auto simp: kcp_ok_def send_inv_def)
  moreover have "map seg_sn (snd_buf k') = seqs (snd_una k) (length (snd_buf k) + ?n)"
    using ok xmit_rel_sn [OF rel] by (simp add: kcp_ok_def send_inv_def admitted_sn seqs_append)
  ultimately have send: "send_inv k'"
    using ok flushedD(7,10) [OF fl] flush_window(1) [OF ok fl]
    by (simp add: send_inv_def kcp_ok_def same_rtt_def)
  have "fits k (snd_buf k @ admitted k ?n)"
    using ok admitted_fits [OF n] by (simp add: kcp_ok_def)
  then have "fits k (snd_buf k')" by (rule xmit_rel_fits [OF rel])
  moreover have "fits k (snd_queue k')"
    using ok flushedD(6) [OF fl] by (auto simp: kcp_ok_def fits_def dest: in_set_dropD)
  ultimately show ?thesis
    using send ok layout_config [OF config] fits_config [OF config] flushedD(9) [OF fl] config
      recv_inv_cong
    by (simp add: kcp_ok_def same_config_def)
qed

lemma sent_packets:
  "sent k w L w' \<Longrightarrow> \<exists>ps. outs w' = outs w @ ps \<and> concat ps = packet L
     \<and> (\<forall>p \<in> set ps. reserved k + length p \<le> unat (mtu k))"
proof -
  assume "sent k w L w'"
  then obtain groups where g: "outs w' = outs w @ map packet groups" "concat groups = L"
    "\<forall>g \<in> set groups. reserved k + length (packet g) \<le> unat (mtu k)"
    unfolding sent_def by blast
  have "concat (map packet groups) = packet (concat groups)"
    by (induction groups) simp_all
  with g show ?thesis by (intro exI [of _ "map packet groups"]) auto
qed

text \<open>C37. \<open>flush\<close> is total and safe: no slice expression panics, no packet given to the
  output callback exceeds the MTU less the reserved prefix, the acknowledgements are cleared,
  the delay it returns is positive and at most \<open>interval\<close>, and the connection keeps its
  invariant.\<close>

theorem flush_safe:
  assumes "kcp_ok k"
  shows "\<exists>ret k' w' ps. flush clk ackOnly k w = Some (ret, k', w') \<and> kcp_ok k'
     \<and> 0 < sint ret \<and> sint ret \<le> sint (interval k) \<and> acklist k' = []
     \<and> outs w' = outs w @ ps \<and> (\<forall>p \<in> set ps. reserved k + length p \<le> unat (mtu k))"
proof (cases ackOnly)
  case True
  have lay: "layout k" using assms by (simp add: kcp_ok_def)
  from flush_ack_ok [OF lay, of clk w] obtain w' where
    w': "flush clk True k w = Some (interval k, k\<lparr>acklist := []\<rparr>, w')"
      "sent k w (ack_segs (rcv_nxt k) (flush_seg k) (acklist k)) w'" by blast
  have "kcp_ok (k\<lparr>acklist := []\<rparr>)"
    using assms by (simp add: kcp_ok_def layout_def send_inv_def recv_inv_def fits_def)
  with True w'(1) sent_packets [OF w'(2)] assms show ?thesis by (auto simp: kcp_ok_def)
next
  case False
  from kcp_ok_flush [OF assms, of clk w] obtain ret k' w' C where
    fl: "flush clk False k w = Some (ret, k', w')" "flushed clk k w C (ret, k', w')" by blast
  from sent_packets [OF flushedD(5) [OF fl(2)]] flush_kcp_ok [OF assms fl(2)] flushedD(1,2,11) [OF fl(2)]
    fl(1) False
  show ?thesis by auto
qed

theorem flush_safe_witness:
  "\<exists>ret k' w' ps. flush (\<lambda>_. 9) False busy world0 = Some (ret, k', w') \<and> kcp_ok k'
     \<and> 0 < sint ret \<and> sint ret \<le> sint (interval busy) \<and> acklist k' = []
     \<and> outs w' = outs world0 @ ps
     \<and> (\<forall>p \<in> set ps. reserved busy + length p \<le> unat (mtu busy))"
  by (rule flush_safe [OF kcp_ok_busy])

text \<open>What a full \<open>flush\<close> transmits: control segments (the acknowledgements that are
  still wanted, then the window probes), then data. The window admits as many queued segments
  as fit into it, numbered on from \<open>snd_nxt\<close>; with a clock that does not move during the call
  the data transmitted is exactly the segments that are due (never sent, timed out, skipped
  often enough, or skipped with nothing new to send), each at most once and in sequence order.\<close>

theorem flush_transmits_due:
  assumes "kcp_ok k"
  shows "\<exists>ret k' w' C D. flush (\<lambda>_. now) False k w = Some (ret, k', w') \<and> controls k C
     \<and> sent k w (C @ D) w'
     \<and> set D \<subseteq> set (snd_buf k')
     \<and> map seg_sn D = map seg_sn (filter (due (flush_resent k) (n_admit k) now)
                                    (snd_buf k @ admitted k (n_admit k)))
     \<and> map (\<lambda>s. (seg_sn s, seg_frg s, seg_data s)) (snd_buf k') =
       map (\<lambda>s. (seg_sn s, seg_frg s, seg_data s)) (snd_buf k @ admitted k (n_admit k))
     \<and> snd_queue k' = drop (n_admit k) (snd_queue k)"
proof -
  let ?buf = "snd_buf k @ admitted k (n_admit k)"
  from kcp_ok_flush [OF assms, of "\<lambda>_. now" w] obtain ret k' w' C where
    fl: "flush (\<lambda>_. now) False k w = Some (ret, k', w')"
    and did: "flushed (\<lambda>_. now) k w C (ret, k', w')" by blast
  have "map (\<lambda>s. (seg_sn s, seg_frg s, seg_data s)) (snd_buf k') =
      map (\<lambda>s. (seg_sn s, seg_frg s, seg_data s)) ?buf"
    using flushedD(3) [OF did]
    by (induction rule: list_all2_induct) (auto simp: xmit_rel_def kept_def)
  then show ?thesis
    using fl flushedD(4,5,6) [OF did] flushedD(13) [OF did refl] transmitted_subset by blast
qed

theorem flush_transmits_due_witness:
  "\<exists>ret k' w' C D. flush (\<lambda>_. 50) False busy world0 = Some (ret, k', w') \<and> controls busy C
     \<and> sent busy world0 (C @ D) w'
     \<and> set D \<subseteq> set (snd_buf k')
     \<and> map seg_sn D = map seg_sn (filter (due (flush_resent busy) (n_admit busy) 50)
                                    (snd_buf busy @ admitted busy (n_admit busy)))
     \<and> map (\<lambda>s. (seg_sn s, seg_frg s, seg_data s)) (snd_buf k') =
       map (\<lambda>s. (seg_sn s, seg_frg s, seg_data s))
         (snd_buf busy @ admitted busy (n_admit busy))
     \<and> snd_queue k' = drop (n_admit busy) (snd_queue busy)"
  by (rule flush_transmits_due [OF kcp_ok_busy])

end
