(* ===== verification/StreamClient.thy ===== *)
theory StreamClient
  imports StreamConfig RawTcp KcpProperties BlockCrypt
begin

section \<open>The stream client (client/main.go, client/dial.go, client/signal.go)\<close>

text \<open>
  How the client dials, tunes a KCP session, keeps its multiplexed sessions, spreads incoming
  connections over them, and retires old ones. A multiplexed session is a number; whether it is
  closed and how many streams it carries is asked of the library and an argument here. Time is in
  nanoseconds.
\<close>

subsection \<open>KCP sessions and their settings (sess.go)\<close>

record udp_session =
  us_kcp :: KCP
  us_ackNoDelay :: bool
  us_writeDelay :: bool

definition fecHeaderSizePlus2 :: int where "fecHeaderSizePlus2 = 8"
definition cryptHeaderSize :: int where "cryptHeaderSize = 20"

text \<open>
  The header a session adds to a KCP packet; \<open>codec\<close> says whether the erasure-coding library
  takes the two shard numbers.
\<close>

definition session_header :: "BlockCrypt option \<Rightarrow> int \<Rightarrow> int \<Rightarrow> bool \<Rightarrow> int" where
  "session_header blk dataShards parityShards codec =
     (if blk \<noteq> None then cryptHeaderSize else 0)
     + (if dataShards \<le> 0 \<or> parityShards \<le> 0 \<or> \<not> codec then 0 else fecHeaderSizePlus2)"

definition newUDPSession :: "u32 \<Rightarrow> int \<Rightarrow> udp_session" where
  "newUDPSession conv header =
     \<lparr>us_kcp = snd (ReserveBytes header (NewKCP conv)), us_ackNoDelay = False, us_writeDelay = False\<rparr>"

definition SetStreamMode :: "bool \<Rightarrow> udp_session \<Rightarrow> udp_session" where
  "SetStreamMode enable s = s\<lparr>us_kcp := (us_kcp s)\<lparr>stream := if enable then 1 else 0\<rparr>\<rparr>"

definition SetWriteDelay :: "bool \<Rightarrow> udp_session \<Rightarrow> udp_session" where
  "SetWriteDelay delay s = s\<lparr>us_writeDelay := delay\<rparr>"

definition SetWindowSize :: "int \<Rightarrow> int \<Rightarrow> udp_session \<Rightarrow> udp_session" where
  "SetWindowSize sw rw s = s\<lparr>us_kcp := snd (WndSize sw rw (us_kcp s))\<rparr>"

definition session_SetMtu :: "int \<Rightarrow> udp_session \<Rightarrow> bool \<times> udp_session" where
  "session_SetMtu m s =
     (if m > 1500 then (False, s) else (True, s\<lparr>us_kcp := snd (SetMtu m (us_kcp s))\<rparr>))"

definition SetACKNoDelay :: "bool \<Rightarrow> udp_session \<Rightarrow> udp_session" where
  "SetACKNoDelay b s = s\<lparr>us_ackNoDelay := b\<rparr>"

definition SetNoDelay :: "int \<Rightarrow> int \<Rightarrow> int \<Rightarrow> int \<Rightarrow> udp_session \<Rightarrow> udp_session" where
  "SetNoDelay nd itv resend nc s = s\<lparr>us_kcp := snd (NoDelay nd itv resend nc (us_kcp s))\<rparr>"

text \<open>What \<open>createConn\<close> does to a dialled session, the result of \<open>SetMtu\<close> being dropped.\<close>

definition client_configure :: "client_Config \<Rightarrow> udp_session \<Rightarrow> udp_session" where
  "client_configure config s =
     (let s = SetStreamMode True s;
          s = SetWriteDelay False s;
          s = SetNoDelay (kc_NoDelay config) (kc_Interval config) (kc_Resend config) (kc_NoCongestion config) s;
          s = SetWindowSize (kc_SndWnd config) (kc_RcvWnd config) s;
          s = snd (session_SetMtu (kc_MTU config) s)
      in SetACKNoDelay (kc_AckNodelay config) s)"

subsection \<open>Dialling\<close>

text \<open>
  \<open>session_ok\<close> says whether the session can be made on the transport (\<open>NewConn\<close>,
  \<open>DialWithOptions\<close>). \<^const>\<open>None\<close> is the panic of \<^const>\<open>raw_Dial\<close>.
\<close>

datatype transport = OverUDP | OverRawTCP raw_conn

definition client_dial ::
  "(nat \<Rightarrow> bool) \<Rightarrow> client_Config \<Rightarrow> dial_env \<Rightarrow> int \<Rightarrow> bool \<Rightarrow> ((raw_error + transport) \<times> raw_effect list) option" where
  "client_dial is4 config env now session_ok =
     (if kc_TCP config then do {
        (r, es) \<leftarrow> raw_Dial is4 env (kc_TCPMark config) now;
        Some (case r of
            Inl e \<Rightarrow> Inl e
          | Inr conn \<Rightarrow> if session_ok then Inr (OverRawTCP conn) else Inl ErrSystem, es)
      }
      else Some (if session_ok then Inr OverUDP else Inl ErrSystem, []))"

text \<open>The configuration of the multiplexer; other fields keep the library's defaults.\<close>

record smux_Config =
  MaxReceiveBuffer :: int
  KeepAliveInterval :: int

definition seconds :: "int \<Rightarrow> int" where "seconds n = n * 1000000000"

definition smuxConfig :: "int \<Rightarrow> int \<Rightarrow> smux_Config" where
  "smuxConfig smuxbuf keepalive = \<lparr>MaxReceiveBuffer = smuxbuf, KeepAliveInterval = seconds keepalive\<rparr>"

text \<open>
  One call of \<open>createConn\<close>: dialling fails, or the multiplexer (\<open>mux_ok\<close>) refuses the session,
  which stays open, or a multiplexed session is returned, over compression unless that is off.
  \<open>conv\<close> and \<open>header\<close> are the conversation number and header of the new KCP session, \<open>opts\<close> says
  which of the three socket options could be set: failures are logged.
\<close>

datatype attempt = DialFails | MuxFails | Connects

record conn_result =
  cr_transport :: transport
  cr_session :: udp_session
  cr_compressed :: bool
  cr_warnings :: "string list"

definition createConn :: "(nat \<Rightarrow> bool) \<Rightarrow> client_Config \<Rightarrow> dial_env \<Rightarrow> int \<Rightarrow> bool \<Rightarrow> u32 \<Rightarrow> int \<Rightarrow> bool \<times> bool \<times> bool \<Rightarrow>
    (smux_Config \<Rightarrow> bool) \<Rightarrow> (attempt \<times> conn_result option \<times> raw_effect list) option" where
  "createConn is4 config env now session_ok conv header opts mux_ok = do {
     (r, es) \<leftarrow> client_dial is4 config env now session_ok;
     case r of
       Inl _ \<Rightarrow> Some (DialFails, None, es)
     | Inr t \<Rightarrow>
         let s = client_configure config (newUDPSession conv header);
             (dscp, rbuf, wbuf) = opts;
             warn = (if dscp then [] else [''SetDSCP:'']) @ (if rbuf then [] else [''SetReadBuffer:''])
               @ (if wbuf then [] else [''SetWriteBuffer:'']);
             c = \<lparr>cr_transport = t, cr_session = s, cr_compressed = \<not> kc_NoComp config, cr_warnings = warn\<rparr>
         in Some (if mux_ok (smuxConfig (kc_SmuxBuf config) (kc_KeepAlive config)) then Connects else MuxFails, Some c, es)
   }"

text \<open>
  \<open>waitConn\<close> retries until a call of \<open>createConn\<close> connects; the result is how many sessions were
  left open on the way, and \<^const>\<open>None\<close> is still waiting.
\<close>

fun waitConn :: "attempt list \<Rightarrow> nat option" where
  "waitConn [] = None"
| "waitConn (Connects # _) = Some 0"
| "waitConn (DialFails # as) = waitConn as"
| "waitConn (MuxFails # as) = map_option Suc (waitConn as)"

subsection \<open>The sessions\<close>

record mux =
  mux_session :: nat
  mux_ttl :: int

text \<open>
  The state shared by the accepting loop and the scavenger: the sessions in use, the next one's
  index, the channel between the two, the scavenger's list, and, as ghosts, the sessions closed,
  the number of the next session and of those left open by failed attempts.
\<close>

record stream_client =
  st_cfg :: client_Config
  st_muxes :: "mux list"
  st_rr :: u16
  st_chan :: "nat list"
  st_list :: "(nat \<times> int) list"
  st_closed :: "nat list"
  st_next :: nat
  st_left_open :: nat

definition numconn :: "client_Config \<Rightarrow> u16" where
  "numconn config = word_of_int (kc_Conn config)"

text \<open>The first sessions: one \<open>waitConn\<close> and one reading of the clock each.\<close>

fun open_muxes :: "client_Config \<Rightarrow> nat \<Rightarrow> (attempt list \<times> int) list \<Rightarrow> stream_client \<Rightarrow> stream_client option" where
  "open_muxes config 0 _ s = Some s"
| "open_muxes config (Suc n) [] s = None"
| "open_muxes config (Suc n) ((as, now) # xs) s = do {
     lost \<leftarrow> waitConn as;
     open_muxes config n xs
       (s\<lparr>st_muxes := st_muxes s @ [\<lparr>mux_session = st_next s, mux_ttl = now + seconds (kc_AutoExpire config)\<rparr>],
          st_next := st_next s + 1, st_left_open := st_left_open s + lost\<rparr>)
   }"

definition stream_start :: "client_Config \<Rightarrow> (attempt list \<times> int) list \<Rightarrow> stream_client option" where
  "stream_start config xs =
     open_muxes config (unat (numconn config)) xs
       \<lparr>st_cfg = config, st_muxes = [], st_rr = 0, st_chan = [], st_list = [], st_closed = [], st_next = 0,
        st_left_open = 0\<rparr>"

text \<open>
  One turn of the accepting loop. The remainder by zero panics; a full channel or a server that
  does not answer leaves the loop waiting, in the second case with the old session sent to the
  scavenger while its slot still holds it; otherwise the connection is handed to a session. The loop is the
  only one to look at the slots and the scavenger looks at nothing else, so what the scavenger does
  while the loop waits for a connection may as well be done after the turn (\<open>scavenger_commutes\<close>).
\<close>

datatype accepted = Panicked | Waiting stream_client | HandledBy nat stream_client

definition mux_stale :: "client_Config \<Rightarrow> (nat \<Rightarrow> bool) \<Rightarrow> int \<Rightarrow> mux \<Rightarrow> bool" where
  "mux_stale config isClosed now m \<longleftrightarrow>
     isClosed (mux_session m) \<or> (kc_AutoExpire config > 0 \<and> now > mux_ttl m)"

definition retire_session :: "mux \<Rightarrow> stream_client \<Rightarrow> stream_client" where
  "retire_session m s = s\<lparr>st_chan := st_chan s @ [mux_session m]\<rparr>"

definition fill_slot :: "nat \<Rightarrow> int \<Rightarrow> nat \<Rightarrow> stream_client \<Rightarrow> stream_client" where
  "fill_slot idx now lost s =
     s\<lparr>st_muxes := (st_muxes s)[idx := \<lparr>mux_session = st_next s, mux_ttl = now + seconds (kc_AutoExpire (st_cfg s))\<rparr>],
       st_next := st_next s + 1, st_left_open := st_left_open s + lost\<rparr>"

definition stream_accept :: "(nat \<Rightarrow> bool) \<Rightarrow> int \<Rightarrow> attempt list \<Rightarrow> int \<Rightarrow> stream_client \<Rightarrow> accepted" where
  "stream_accept isClosed now as now' s =
     (if numconn (st_cfg s) = 0 then Panicked
      else
        let idx = unat (st_rr s mod numconn (st_cfg s));
            m = st_muxes s ! idx
        in if mux_stale (st_cfg s) isClosed now m
           then if length (st_chan s) \<ge> 128 then Waiting s
                else let s = retire_session m s in (case waitConn as of
                  None \<Rightarrow> Waiting s
                | Some lost \<Rightarrow> HandledBy (st_next s) ((fill_slot idx now' lost s)\<lparr>st_rr := st_rr s + 1\<rparr>))
           else HandledBy (mux_session m) (s\<lparr>st_rr := st_rr s + 1\<rparr>))"

subsection \<open>The scavenger\<close>

definition scavenger_recv :: "int \<Rightarrow> stream_client \<Rightarrow> stream_client" where
  "scavenger_recv now s = (case st_chan s of
     [] \<Rightarrow> s
   | sess # rest \<Rightarrow> s\<lparr>st_chan := rest, st_list := st_list s @ [(sess, now)]\<rparr>)"

text \<open>\<open>status\<close> gives the number of streams of a session and whether it is closed.\<close>

definition scavenge_idle :: "(nat \<Rightarrow> nat \<times> bool) \<Rightarrow> nat \<Rightarrow> bool" where
  "scavenge_idle status sess \<longleftrightarrow> fst (status sess) = 0 \<or> snd (status sess)"

definition scavenge_late :: "int \<Rightarrow> int \<Rightarrow> int \<Rightarrow> bool" where
  "scavenge_late ttl now ts \<longleftrightarrow> ttl \<ge> 0 \<and> now - ts \<ge> seconds ttl"

fun scavenge_loop :: "(nat \<Rightarrow> nat \<times> bool) \<Rightarrow> int \<Rightarrow> int \<Rightarrow> (nat \<times> int) list \<Rightarrow> (nat \<times> int) list \<times> nat list" where
  "scavenge_loop status ttl now [] = ([], [])"
| "scavenge_loop status ttl now ((sess, ts) # xs) =
     (let (keep, closed) = scavenge_loop status ttl now xs in
      if scavenge_idle status sess then (keep, sess # closed)
      else if scavenge_late ttl now ts then (keep, sess # closed)
      else ((sess, ts) # keep, closed))"

definition scavenger_tick :: "(nat \<Rightarrow> nat \<times> bool) \<Rightarrow> int \<Rightarrow> stream_client \<Rightarrow> stream_client" where
  "scavenger_tick status now s =
     (let (keep, closed) = scavenge_loop status (kc_ScavengeTTL (st_cfg s)) now (st_list s)
      in s\<lparr>st_list := keep, st_closed := st_closed s @ closed\<rparr>)"

subsection \<open>Streams\<close>

text \<open>
  \<open>handleClient\<close>: a stream is opened in the session, bytes are copied both ways until one
  direction ends, and the deferred calls run last to first. \<open>streamCopy\<close> picks how to copy by
  what the two ends implement.
\<close>

datatype copy_route = ByWriteTo | ByReadFrom | ByBuffer

definition streamCopy :: "bool \<Rightarrow> bool \<Rightarrow> copy_route" where
  "streamCopy src_WriterTo dst_ReaderFrom =
     (if src_WriterTo then ByWriteTo else if dst_ReaderFrom then ByReadFrom else ByBuffer)"

datatype stream_effect =
    LogLine string
  | OpenStream nat
  | DialTarget string
  | CopyBothWays nat nat
  | CloseEnd nat

definition client_handleClient :: "nat \<Rightarrow> nat \<Rightarrow> nat option \<Rightarrow> bool \<Rightarrow> stream_effect list" where
  "client_handleClient sess p1 stream2 quiet =
     (if quiet then [] else [LogLine ''stream opened''])
     @ OpenStream sess # (case stream2 of
         None \<Rightarrow> [CloseEnd p1]
       | Some p2 \<Rightarrow> [CopyBothWays p1 p2, CloseEnd p2, CloseEnd p1])
     @ (if quiet then [] else [LogLine ''stream closed''])"

text \<open>
  \<open>compStream\<close>: the writer and reader of the compression library are functions of a state;
  \<open>Write\<close> writes and flushes, and reports the count of the one and the error of the other.
\<close>

record ('w, 'r) snappy =
  sn_Write :: "'w \<Rightarrow> bytes \<Rightarrow> 'w \<times> nat \<times> bool"
  sn_Flush :: "'w \<Rightarrow> 'w \<times> bytes \<times> bool"
  sn_Read :: "'r \<Rightarrow> bytes \<Rightarrow> 'r \<times> bytes"
  sn_NewBufferedWriter :: 'w
  sn_NewReader :: 'r

record ('w, 'r) compStream =
  cs_w :: 'w
  cs_r :: 'r

definition newCompStream :: "('w, 'r) snappy \<Rightarrow> ('w, 'r) compStream" where
  "newCompStream L = \<lparr>cs_w = sn_NewBufferedWriter L, cs_r = sn_NewReader L\<rparr>"

definition compStream_Write :: "('w, 'r) snappy \<Rightarrow> bytes \<Rightarrow> ('w, 'r) compStream \<Rightarrow> ('w, 'r) compStream \<times> bytes \<times> nat \<times> bool" where
  "compStream_Write L p c =
     (let (w, n, _) = sn_Write L (cs_w c) p;
          (w, out, err) = sn_Flush L w
      in (c\<lparr>cs_w := w\<rparr>, out, n, err))"

definition compStream_Read :: "('w, 'r) snappy \<Rightarrow> bytes \<Rightarrow> ('w, 'r) compStream \<Rightarrow> ('w, 'r) compStream \<times> bytes" where
  "compStream_Read L wire c = (let (r, p) = sn_Read L (cs_r c) wire in (c\<lparr>cs_r := r\<rparr>, p))"

subsection \<open>The statistics log\<close>

text \<open>
  \<open>snmpLogger\<close> logs when it has a path and a period; a ticker with a negative period panics. At
  each tick the file may fail to open (then the logger returns) or be empty (then a header row
  goes first); rows are appended and the counters reset.
\<close>

definition snmp_starts :: "string \<Rightarrow> int \<Rightarrow> bool option" where
  "snmp_starts path itv =
     (if path = [] \<or> itv = 0 then Some False else if itv < 0 then None else Some True)"

definition snmp_tick :: "bool \<Rightarrow> nat \<Rightarrow> string list list \<Rightarrow> Snmp \<Rightarrow> (string list list \<times> Snmp) option" where
  "snmp_tick opens unix rows counters =
     (if \<not> opens then None
      else Some (rows @ (if rows = [] then [''Unix'' # Header] else []) @ [decimal unix # ToSlice counters],
                 Reset counters))"

text \<open>The gauge of established sessions and its companions, when a session opens and closes.\<close>

definition count_open :: "bool \<Rightarrow> Snmp \<Rightarrow> Snmp" where
  "count_open client s =
     (let s = (if client then s\<lparr>ActiveOpens := ActiveOpens s + 1\<rparr> else s\<lparr>PassiveOpens := PassiveOpens s + 1\<rparr>);
          s = s\<lparr>CurrEstab := CurrEstab s + 1\<rparr>
      in if CurrEstab s > MaxConn s then s\<lparr>MaxConn := CurrEstab s\<rparr> else s)"

definition count_close :: "Snmp \<Rightarrow> Snmp" where
  "count_close s = s\<lparr>CurrEstab := CurrEstab s + NOT 0\<rparr>"

subsection \<open>Signals\<close>

datatype os_signal = SIGUSR1 | OtherSignal

definition sigHandler :: "(nat \<Rightarrow> bool) \<Rightarrow> os_signal \<Rightarrow> raw_conn list \<Rightarrow> (raw_conn list \<times> raw_effect list \<times> bool) option" where
  "sigHandler is4 sig conns = (case sig of
     SIGUSR1 \<Rightarrow> Some (conns, [], False)
   | OtherSignal \<Rightarrow> map_option (\<lambda>(cs, es). (cs, es, True)) (Cleanup is4 conns))"

subsection \<open>main\<close>

text \<open>
  \<open>main\<close> up to its accepting loop: the configuration, the listener, the cipher with its name, and
  the first sessions, \<^const>\<open>None\<close> while some session has not connected yet. A negative period of
  the statistics log panics.
\<close>

definition client_main :: "crypt_libs \<Rightarrow> cli_context \<Rightarrow> json_file \<Rightarrow> bool \<Rightarrow> bool \<Rightarrow> (attempt list \<times> int) list \<Rightarrow>
    (client_Config \<times> BlockCrypt option \<times> stream_client option) main_result" where
  "client_main L ctx conf log_opens listens xs = (case client_load ctx conf log_opens of
     None \<Rightarrow> Exit
   | Some config \<Rightarrow>
       if \<not> listens then Exit
       else let (name, blk) = client_block L (kc_Crypt config) (map of_char (kc_Key config));
                config = config\<lparr>kc_Crypt := name\<rparr>
            in (case stream_start config xs of
                None \<Rightarrow> Running (config, blk, None)
              | Some s \<Rightarrow> if snmp_starts (kc_SnmpLog config) (kc_SnmpPeriod config) = None then Panics
                          else Running (config, blk, Some s)))"

end
