(* ===== verification/Session.thy ===== *)
theory Session
  imports StreamClient Fec Packet
begin

section \<open>KCP sessions (sess.go, readloop_generic.go, readloop_linux.go)\<close>

text \<open>
  A session puts error correction, checksum and encryption between a KCP connection and a packet
  connection, and turns messages into a stream for its readers. Its locks make every operation
  below atomic; an operation that blocks is split into the attempt under the lock and the waking
  afterwards. A channel of capacity one that is only sent to without blocking is a flag.

  The packet connection is \<open>s_conn\<close>, the packets given to \<open>WriteTo\<close> so far; \<open>io_write n\<close> tells
  whether the \<open>n\<close>-th of them is accepted, and \<open>io_rand n\<close> what the random source delivers to the
  \<open>n\<close>-th nonce, should it ask. Go's zero \<open>time.Time\<close> is \<^const>\<open>None\<close>. A \<^const>\<open>None\<close> result is a panic.
\<close>

record session_io =
  io_libs :: crypt_libs
  io_rand :: "nat \<Rightarrow> bytes"
  io_write :: "nat \<Rightarrow> bool"

record session = udp_session +
  s_block :: "BlockCrypt option"
  s_nonce :: nonceAES128
  s_fills :: nat
  s_fecEncoder :: "fec_encoder option"
  s_fecDecoder :: "fec_decoder option"
  s_headerSize :: nat
  s_dup :: int
  s_bufptr :: bytes
  s_rd :: "int option"
  s_wd :: "int option"
  s_chReadEvent :: bool
  s_chWriteEvent :: bool
  s_chReadError :: bool
  s_chWriteError :: bool
  s_isClosed :: bool
  s_client :: bool
  s_conn :: "bytes list"

datatype session_error = errBrokenPipe | errTimeout | errConn

definition rxFECMulti :: int where "rxFECMulti = 3"

text \<open>\<open>New\<close> is \<open>reedsolomon.New\<close>, \<open>key\<close> and \<open>seed\<close> what the nonce generator draws; \<open>client\<close> is \<open>l == nil\<close>.\<close>

definition new_session :: "crypt_libs \<Rightarrow> (int \<Rightarrow> int \<Rightarrow> rs_codec option) \<Rightarrow> bytes \<Rightarrow> bytes \<Rightarrow> u32 \<Rightarrow> int \<Rightarrow> int \<Rightarrow>
    bool \<Rightarrow> BlockCrypt option \<Rightarrow> world \<Rightarrow> (session \<times> world) option" where
  "new_session L New key seed conv dataShards parityShards client blk w = do {
     nonce \<leftarrow> nonceAES128_Init L key seed;
     let dec = newFECDecoder New (rxFECMulti * (dataShards + parityShards)) dataShards parityShards;
     let enc = newFECEncoder New dataShards parityShards (if blk \<noteq> None then nat cryptHeaderSize else 0);
     let header = (if blk \<noteq> None then nat cryptHeaderSize else 0);
     let header = (if enc \<noteq> None then header + nat fecHeaderSizePlus2 else header);
     Some (\<lparr>us_kcp = snd (ReserveBytes (int header) (NewKCP conv)), us_ackNoDelay = False, us_writeDelay = False,
            s_block = blk, s_nonce = nonce, s_fills = 0, s_fecEncoder = enc, s_fecDecoder = dec,
            s_headerSize = header, s_dup = 0, s_bufptr = [], s_rd = None, s_wd = None,
            s_chReadEvent = False, s_chWriteEvent = False, s_chReadError = False, s_chWriteError = False,
            s_isClosed = False, s_client = client, s_conn = []\<rparr>,
           count (count_open client) w)
   }"

subsection \<open>Sending: error correction, checksum, encryption, the packet connection\<close>

definition notifyReadEvent :: "session \<Rightarrow> session" where
  "notifyReadEvent s = s\<lparr>s_chReadEvent := True\<rparr>"

definition notifyWriteEvent :: "session \<Rightarrow> session" where
  "notifyWriteEvent s = s\<lparr>s_chWriteEvent := True\<rparr>"

definition notifyWriteError :: "session \<Rightarrow> session" where
  "notifyWriteError s = s\<lparr>s_chWriteError := True\<rparr>"

definition seal_packet :: "session_io \<Rightarrow> bytes \<Rightarrow> session \<Rightarrow> (bytes \<times> session) option" where
  "seal_packet io buf s = (case s_block s of
     None \<Rightarrow> Some (buf, s)
   | Some blk \<Rightarrow> do {
       (n, head) \<leftarrow> nonceAES128_Fill (io_rand io (s_fills s)) (s_nonce s) (take nonceSize buf);
       let buf = put_at 0 head buf;
       let checksum = ChecksumIEEE (drop (nat cryptHeaderSize) buf);
       let buf = put_at nonceSize (put_le32 checksum) buf;
       buf \<leftarrow> Encrypt (io_libs io) blk True buf buf;
       Some (buf, s\<lparr>s_nonce := n, s_fills := s_fills s + 1\<rparr>)
     })"

fun seal_packets :: "session_io \<Rightarrow> bytes list \<Rightarrow> session \<Rightarrow> (bytes list \<times> session) option" where
  "seal_packets io [] s = Some ([], s)"
| "seal_packets io (b # bs) s = do {
     (b, s) \<leftarrow> seal_packet io b s;
     (bs, s) \<leftarrow> seal_packets io bs s;
     Some (b # bs, s)
   }"

definition write_to :: "session_io \<Rightarrow> bytes \<Rightarrow> session \<times> nat \<times> nat \<Rightarrow> session \<times> nat \<times> nat" where
  "write_to io buf = (\<lambda>(s, nbytes, npkts).
     let accepted = io_write io (length (s_conn s)); s = s\<lparr>s_conn := s_conn s @ [buf]\<rparr>
     in if accepted then (s, nbytes + length buf, npkts + 1) else (notifyWriteError s, nbytes, npkts))"

text \<open>
  \<open>output\<close> starts with error correction. A parity packet comes without what stands before its
  header: with encryption, 20 bytes left over from earlier packets, which nonce and checksum
  overwrite.
\<close>

definition session_encode :: "bytes \<Rightarrow> session \<Rightarrow> (bytes \<times> bytes list \<times> session) option" where
  "session_encode buf s = (case s_fecEncoder s of
     None \<Rightarrow> Some (buf, [], s)
   | Some enc \<Rightarrow> do {
       (buf, ps, enc) \<leftarrow> fec_encode buf enc;
       Some (buf, map (\<lambda>p. replicate (fe_headerOffset enc) 0 @ p) ps, s\<lparr>s_fecEncoder := Some enc\<rparr>)
     })"

definition session_output :: "session_io \<Rightarrow> bytes \<Rightarrow> session \<Rightarrow> world \<Rightarrow> (session \<times> world) option" where
  "session_output io buf s w = do {
     (buf, ecc, s) \<leftarrow> session_encode buf s;
     (buf, s) \<leftarrow> seal_packet io buf s;
     (ecc, s) \<leftarrow> seal_packets io ecc s;
     let (s, nbytes, npkts) = foldl (\<lambda>st b. write_to io b st) (s, 0, 0) (replicate (nat (s_dup s + 1)) buf @ ecc);
     Some (s, count (\<lambda>c. c\<lparr>OutPkts := OutPkts c + of_nat npkts, OutBytes := OutBytes c + of_nat nbytes\<rparr>) w)
   }"

text \<open>
  The callback KCP calls with a packet; the buffer starts with the reserved bytes, whose contents
  are overwritten. Packets smaller than a KCP header are dropped.
\<close>

definition output_callback :: "session_io \<Rightarrow> bytes \<Rightarrow> session \<Rightarrow> world \<Rightarrow> (session \<times> world) option" where
  "output_callback io p s w =
     (let buf = replicate (reserved (us_kcp s)) 0 @ p
      in if length buf \<ge> IKCP_OVERHEAD + s_headerSize s then session_output io buf s w else Some (s, w))"

fun output_all :: "session_io \<Rightarrow> bytes list \<Rightarrow> session \<Rightarrow> world \<Rightarrow> (session \<times> world) option" where
  "output_all io [] s w = Some (s, w)"
| "output_all io (p # ps) s w = do {
     (s, w) \<leftarrow> output_callback io p s w;
     output_all io ps s w
   }"

text \<open>
  A call into KCP. What the callback touches (encoder, nonce, connection, counters it only adds
  to) KCP does not read, so the packets of a call are output after it, in order.
\<close>

definition kcp_call :: "session_io \<Rightarrow> (KCP \<Rightarrow> world \<Rightarrow> ('r \<times> KCP \<times> world) option) \<Rightarrow> session \<Rightarrow> world \<Rightarrow>
    ('r \<times> session \<times> world) option" where
  "kcp_call io f s w = do {
     (r, k, w') \<leftarrow> f (us_kcp s) w;
     (s, w') \<leftarrow> output_all io (drop (length (outs w)) (outs w')) (s\<lparr>us_kcp := k\<rparr>) w';
     Some (r, s, w')
   }"

text \<open>\<open>update\<close>: the interval to the next call is in milliseconds.\<close>

definition session_update :: "session_io \<Rightarrow> (nat \<Rightarrow> u32) \<Rightarrow> session \<Rightarrow> world \<Rightarrow> (u32 \<times> session \<times> world) option" where
  "session_update io clk s w = do {
     let waitsnd = WaitSnd (us_kcp s);
     (itv, s, w) \<leftarrow> kcp_call io (flush clk False) s w;
     Some (itv, if WaitSnd (us_kcp s) < waitsnd then notifyWriteEvent s else s, w)
   }"

subsection \<open>Receiving\<close>

text \<open>Decryption and checksum, the same for sessions and listeners; the inner \<^const>\<open>None\<close> is a mismatch.\<close>

definition open_packet :: "crypt_libs \<Rightarrow> BlockCrypt option \<Rightarrow> bytes \<Rightarrow> bytes option option" where
  "open_packet L bc data = (case bc of
     None \<Rightarrow> Some (Some data)
   | Some blk \<Rightarrow> do {
       data \<leftarrow> Decrypt L blk True data data;
       data \<leftarrow> sl nonceSize (length data) data;
       body \<leftarrow> sl crcSize (length data) data;
       crc \<leftarrow> get_le32 data;
       Some (if ChecksumIEEE body = crc then Some body else None)
     })"

definition session_Input :: "session_io \<Rightarrow> (nat \<Rightarrow> u32) \<Rightarrow> bytes \<Rightarrow> bool \<Rightarrow> session \<Rightarrow> world \<Rightarrow>
    (int \<times> session \<times> world) option" where
  "session_Input io clk data regular s w = kcp_call io (Input clk data regular (us_ackNoDelay s)) s w"

record in_counts =
  in_kcpInErrors :: u64
  in_fecErrs :: u64
  in_fecRecovered :: u64
  in_fecParityShards :: u64

definition in_counts0 :: in_counts where
  "in_counts0 = \<lparr>in_kcpInErrors = 0, in_fecErrs = 0, in_fecRecovered = 0, in_fecParityShards = 0\<rparr>"

fun input_recovered :: "session_io \<Rightarrow> (nat \<Rightarrow> u32) \<Rightarrow> bytes list \<Rightarrow> session \<times> world \<times> in_counts \<Rightarrow>
    (session \<times> world \<times> in_counts) option" where
  "input_recovered io clk [] st = Some st"
| "input_recovered io clk (r # rs) (s, w, c) = (case recovered_payload r of
     None \<Rightarrow> input_recovered io clk rs (s, w, c\<lparr>in_fecErrs := in_fecErrs c + 1\<rparr>)
   | Some p \<Rightarrow> do {
       (ret, s, w) \<leftarrow> session_Input io clk p False s w;
       input_recovered io clk rs
         (s, w, if ret = 0 then c\<lparr>in_fecRecovered := in_fecRecovered c + 1\<rparr>
                else c\<lparr>in_kcpInErrors := in_kcpInErrors c + 1\<rparr>)
     })"

text \<open>Readers are told when there is something to read, writers when the queue got shorter.\<close>

definition input_events :: "nat \<Rightarrow> session \<Rightarrow> session" where
  "input_events waitsnd s =
     (let s = (if PeekSize (us_kcp s) > 0 then notifyReadEvent s else s)
      in if WaitSnd (us_kcp s) < waitsnd then notifyWriteEvent s else s)"

definition input_plain :: "session_io \<Rightarrow> (nat \<Rightarrow> u32) \<Rightarrow> bytes \<Rightarrow> session \<times> world \<times> in_counts \<Rightarrow>
    (session \<times> world \<times> in_counts) option" where
  "input_plain io clk data = (\<lambda>(s, w, c). do {
     (ret, s, w) \<leftarrow> session_Input io clk data True s w;
     Some (s, w, if ret \<noteq> 0 then c\<lparr>in_kcpInErrors := in_kcpInErrors c + 1\<rparr> else c)
   })"

definition input_data :: "session_io \<Rightarrow> (nat \<Rightarrow> u32) \<Rightarrow> bytes \<Rightarrow> session \<times> world \<times> in_counts \<Rightarrow>
    (session \<times> world \<times> in_counts) option" where
  "input_data io clk data st =
     (if fec_flag data = typeData then do {
        payload \<leftarrow> sl (nat fecHeaderSizePlus2) (length data) data;
        input_plain io clk payload st
      } else Some st)"

definition input_fec :: "session_io \<Rightarrow> (nat \<Rightarrow> u32) \<Rightarrow> bytes \<Rightarrow> fec_decoder \<Rightarrow> session \<times> world \<times> in_counts \<Rightarrow>
    (session \<times> world \<times> in_counts) option" where
  "input_fec io clk data dec = (\<lambda>(s, w, c). do {
     let c = (if fec_flag data = typeParity then c\<lparr>in_fecParityShards := in_fecParityShards c + 1\<rparr> else c);
     (recovers, dec, short) \<leftarrow> fec_decode data dec;
     let s = s\<lparr>s_fecDecoder := Some dec\<rparr>;
     let w = (if short then count (\<lambda>c. c\<lparr>FECShortShards := FECShortShards c + 1\<rparr>) w else w);
     let waitsnd = WaitSnd (us_kcp s);
     (s, w, c) \<leftarrow> input_data io clk data (s, w, c);
     (s, w, c) \<leftarrow> input_recovered io clk recovers (s, w, c);
     Some (input_events waitsnd s, w, c)
   })"

definition kcpInput :: "session_io \<Rightarrow> (nat \<Rightarrow> u32) \<Rightarrow> bytes \<Rightarrow> session \<Rightarrow> world \<Rightarrow> (session \<times> world) option" where
  "kcpInput io clk data s w = do {
     (s, w, c) \<leftarrow> (case s_fecDecoder s of
         Some dec \<Rightarrow>
           if length data > fecHeaderSize \<and> (fec_flag data = typeData \<or> fec_flag data = typeParity)
           then input_fec io clk data dec (s, w, in_counts0)
           else Some (s, count (\<lambda>c. c\<lparr>InErrs := InErrs c + 1\<rparr>) w, in_counts0)
       | None \<Rightarrow> do {
           let waitsnd = WaitSnd (us_kcp s);
           (s, w, c) \<leftarrow> input_plain io clk data (s, w, in_counts0);
           Some (input_events waitsnd s, w, c)
         });
     Some (s, count (\<lambda>n. n\<lparr>InPkts := InPkts n + 1, InBytes := InBytes n + of_nat (length data),
       FECParityShards := FECParityShards n + in_fecParityShards c, KCPInErrors := KCPInErrors n + in_kcpInErrors c,
       FECErrs := FECErrs n + in_fecErrs c, FECRecovered := FECRecovered n + in_fecRecovered c\<rparr>) w)
   }"

definition session_packetInput :: "session_io \<Rightarrow> (nat \<Rightarrow> u32) \<Rightarrow> bytes \<Rightarrow> session \<Rightarrow> world \<Rightarrow> (session \<times> world) option" where
  "session_packetInput io clk data s w = do {
     r \<leftarrow> open_packet (io_libs io) (s_block s) data;
     case r of
       Some data \<Rightarrow> kcpInput io clk data s w
     | None \<Rightarrow> Some (s, count (\<lambda>c. c\<lparr>InCsumErrors := InCsumErrors c + 1\<rparr>) w)
   }"

text \<open>
  A packet the read loop of a dialled session gets from \<open>addr\<close>: only the first source it hears of
  is listened to (\<open>src\<close>, empty at first), and packets without room for all headers are refused.
\<close>

definition readLoop_packet :: "session_io \<Rightarrow> (nat \<Rightarrow> u32) \<Rightarrow> string \<Rightarrow> bytes \<Rightarrow> string \<times> session \<times> world \<Rightarrow>
    (string \<times> session \<times> world) option" where
  "readLoop_packet io clk addr data = (\<lambda>(src, s, w).
     if src \<noteq> [] \<and> addr \<noteq> src then Some (src, s, count (\<lambda>c. c\<lparr>InErrs := InErrs c + 1\<rparr>) w)
     else let src = (if src = [] then addr else src)
       in if length data \<ge> s_headerSize s + IKCP_OVERHEAD
          then map_option (Pair src) (session_packetInput io clk data s w)
          else Some (src, s, count (\<lambda>c. c\<lparr>InErrs := InErrs c + 1\<rparr>) w))"

text \<open>The batched loops for IPv4 and IPv6: the messages of one \<open>ReadBatch\<close> in order.\<close>

fun readLoop_batch :: "session_io \<Rightarrow> (nat \<Rightarrow> u32) \<Rightarrow> (string \<times> bytes) list \<Rightarrow> string \<times> session \<times> world \<Rightarrow>
    (string \<times> session \<times> world) option" where
  "readLoop_batch io clk [] st = Some st"
| "readLoop_batch io clk ((addr, data) # msgs) st = do {
     st \<leftarrow> readLoop_packet io clk addr data st;
     readLoop_batch io clk msgs st
   }"

text \<open>An error of the connection ends the loop; it is kept for one reader.\<close>

definition readLoop_error :: "session \<Rightarrow> session" where
  "readLoop_error s = s\<lparr>s_chReadError := True\<rparr>"

subsection \<open>Reading\<close>

text \<open>One pass of the loop of \<open>Read\<close> with a buffer of \<open>n\<close> bytes, up to the wait.\<close>

datatype 'a io_result = Returns 'a | Fails session_error | Waits

definition Read_pass :: "nat \<Rightarrow> int \<Rightarrow> session \<Rightarrow> world \<Rightarrow> (bytes io_result \<times> session \<times> world) option" where
  "Read_pass n now s w =
     (let received = (\<lambda>m. count (\<lambda>c. c\<lparr>BytesReceived := BytesReceived c + of_nat m\<rparr>)); size = PeekSize (us_kcp s) in
      if length (s_bufptr s) > 0
      then let b = take n (s_bufptr s)
           in Some (Returns b, s\<lparr>s_bufptr := drop (length b) (s_bufptr s)\<rparr>, received (length b) w)
      else if s_isClosed s then Some (Fails errBrokenPipe, s, w)
      else if size > 0
      then if n \<ge> nat size then do {
             (_, b, k) \<leftarrow> Recv (replicate n 0) (us_kcp s);
             Some (Returns (take (nat size) b), s\<lparr>us_kcp := k\<rparr>, received (nat size) w)
           } else do {
             (_, recvbuf, k) \<leftarrow> Recv (replicate (nat size) 0) (us_kcp s);
             let b = take n recvbuf;
             Some (Returns b, s\<lparr>us_kcp := k, s_bufptr := drop (length b) recvbuf\<rparr>, received (length b) w)
           }
      else if (\<exists>rd. s_rd s = Some rd \<and> rd < now) then Some (Fails errTimeout, s, w)
      else Some (Waits, s, w))"

text \<open>
  What ends the wait of a reader or writer; the last of these returns the error, the others run
  the loop again.
\<close>

datatype wake = OnEvent | OnTimer | OnDie | OnError

definition Read_wake :: "wake \<Rightarrow> session \<Rightarrow> (session \<times> session_error option) option" where
  "Read_wake ev s = (case ev of
     OnEvent \<Rightarrow> if s_chReadEvent s then Some (s\<lparr>s_chReadEvent := False\<rparr>, None) else None
   | OnTimer \<Rightarrow> if s_rd s \<noteq> None then Some (s, None) else None
   | OnDie \<Rightarrow> if s_isClosed s then Some (s, None) else None
   | OnError \<Rightarrow> if s_chReadError s then Some (s\<lparr>s_chReadError := False\<rparr>, Some errConn) else None)"

subsection \<open>Writing\<close>

text \<open>
  A buffer is given to KCP in pieces of \<open>mss\<close> bytes, which \<open>Send\<close> leaves alone; with \<open>mss = 0\<close> the
  loop would not end, which is \<^const>\<open>None\<close> here.
\<close>

function send_pieces :: "bytes \<Rightarrow> KCP \<Rightarrow> KCP option" where
  "send_pieces b k =
     (if length b \<le> unat (mss k) then map_option snd (Send b k)
      else if mss k = 0 then None
      else do {
        (_, k') \<leftarrow> Send (take (unat (mss k)) b) k;
        send_pieces (drop (unat (mss k)) b) k'
      })"
  by auto
termination
proof (relation "measure (\<lambda>(b, k). length b)")
  show "wf (measure (\<lambda>(b :: bytes, k :: KCP). length b))" by simp
  fix b :: bytes and k x a k'
  assume "\<not> length b \<le> unat (mss k)" "mss k \<noteq> 0"
  then have "0 < unat (mss k)" "unat (mss k) < length b" by (simp_all add: unat_gt_0)
  then show "((drop (unat (mss k)) b, k'), (b, k)) \<in> measure (\<lambda>(b, k). length b)" by simp
qed

declare send_pieces.simps [simp del]

fun send_buffers :: "bytes list \<Rightarrow> KCP \<Rightarrow> KCP option" where
  "send_buffers [] k = Some k"
| "send_buffers (b # bs) k = do {
     k \<leftarrow> send_pieces b k;
     send_buffers bs k
   }"

definition Write_pass :: "session_io \<Rightarrow> (nat \<Rightarrow> u32) \<Rightarrow> bytes list \<Rightarrow> int \<Rightarrow> session \<Rightarrow> world \<Rightarrow>
    (nat io_result \<times> session \<times> world) option" where
  "Write_pass io clk v now s w =
     (if s_isClosed s then Some (Fails errBrokenPipe, s, w)
      else if WaitSnd (us_kcp s) < unat (snd_wnd (us_kcp s)) then do {
        let n = sum_list (map length v);
        k \<leftarrow> send_buffers v (us_kcp s);
        let s = s\<lparr>us_kcp := k\<rparr>;
        (s, w) \<leftarrow> (if WaitSnd k \<ge> unat (snd_wnd k) \<or> \<not> us_writeDelay s
          then map_option snd (kcp_call io (flush clk False) s w) else Some (s, w));
        Some (Returns n, s, count (\<lambda>c. c\<lparr>BytesSent := BytesSent c + of_nat n\<rparr>) w)
      }
      else if (\<exists>wd. s_wd s = Some wd \<and> wd < now) then Some (Fails errTimeout, s, w)
      else Some (Waits, s, w))"

definition Write_wake :: "wake \<Rightarrow> session \<Rightarrow> (session \<times> session_error option) option" where
  "Write_wake ev s = (case ev of
     OnEvent \<Rightarrow> if s_chWriteEvent s then Some (s\<lparr>s_chWriteEvent := False\<rparr>, None) else None
   | OnTimer \<Rightarrow> if s_wd s \<noteq> None then Some (s, None) else None
   | OnDie \<Rightarrow> if s_isClosed s then Some (s, None) else None
   | OnError \<Rightarrow> if s_chWriteError s then Some (s\<lparr>s_chWriteError := False\<rparr>, Some errConn) else None)"

subsection \<open>Settings and closing\<close>

definition session_SetDeadline :: "int option \<Rightarrow> session \<Rightarrow> session" where
  "session_SetDeadline t s = notifyWriteEvent (notifyReadEvent (s\<lparr>s_rd := t, s_wd := t\<rparr>))"

definition session_SetReadDeadline :: "int option \<Rightarrow> session \<Rightarrow> session" where
  "session_SetReadDeadline t s = notifyReadEvent (s\<lparr>s_rd := t\<rparr>)"

definition session_SetWriteDeadline :: "int option \<Rightarrow> session \<Rightarrow> session" where
  "session_SetWriteDeadline t s = notifyWriteEvent (s\<lparr>s_wd := t\<rparr>)"

definition SetDUP :: "int \<Rightarrow> session \<Rightarrow> session" where
  "SetDUP dup s = s\<lparr>s_dup := dup\<rparr>"

text \<open>
  Socket options reach the packet connection of a dialled session only, and only if it has them;
  \<^const>\<open>None\<close> is \<open>errInvalidOperation\<close>.
\<close>

record conn_caps = transport_caps +
  local_ip4 :: bool

datatype conn_option = Plain sockopt | SetTrafficClass int

definition session_SetDSCP :: "conn_caps \<Rightarrow> int \<Rightarrow> session \<Rightarrow> conn_option option" where
  "session_SetDSCP conn dscp s =
     (if s_client s \<and> is_net_Conn conn
      then Some (if local_ip4 conn then Plain (SetTOS (push_bit 2 dscp)) else SetTrafficClass dscp) else None)"

definition session_SetReadBuffer :: "conn_caps \<Rightarrow> int \<Rightarrow> session \<Rightarrow> conn_option option" where
  "session_SetReadBuffer conn n s =
     (if s_client s \<and> has_SetReadBuffer conn then Some (Plain (SetReadBuffer n)) else None)"

definition session_SetWriteBuffer :: "conn_caps \<Rightarrow> int \<Rightarrow> session \<Rightarrow> conn_option option" where
  "session_SetWriteBuffer conn n s =
     (if s_client s \<and> has_SetWriteBuffer conn then Some (Plain (SetWriteBuffer n)) else None)"

definition GetConv :: "session \<Rightarrow> u32" where
  "GetConv s = kconv (us_kcp s)"

text \<open>
  \<open>Close\<close> under the session's lock: \<^const>\<open>Inl\<close> if it is closed already, otherwise whether the packet
  connection is closed too. What it does before (leaving the updater and the listener) is in
  \<open>Listener\<close>.
\<close>

definition close_locked :: "session \<Rightarrow> world \<Rightarrow> (session_error + bool) \<times> session \<times> world" where
  "close_locked s w =
     (if s_isClosed s then (Inl errBrokenPipe, s, w)
      else (Inr (s_client s), s\<lparr>s_isClosed := True\<rparr>, count count_close w))"

end
