(* ===== verification/Listener.thy ===== *)
theory Listener
  imports Session UpdaterFacts
begin

section \<open>Listeners, dialling and closing (sess.go, readloop_generic.go, readloop_linux.go)\<close>

text \<open>
  A listener shares one packet connection among its sessions. Sessions are indices into a list of
  all that were ever made, each with its remote address; that list, with the counters, is the
  environment the update goroutine (\<open>Updater\<close>) works on, which a panic turns into \<^const>\<open>None\<close>.

  \<open>he_key\<close> and \<open>he_seed\<close> are what the nonce generator of a session draws when it is made, \<open>he_io i\<close>
  what session \<open>i\<close> meets outside; \<open>he_clk\<close> the millisecond clock of KCP, \<open>he_now\<close> the time.
\<close>

record listener =
  l_block :: "BlockCrypt option"
  l_dataShards :: int
  l_parityShards :: int
  l_fecDecoder :: "fec_decoder option"
  l_headerSize :: nat
  l_sessions :: "string \<rightharpoonup> nat"
  l_chAccepts :: "nat list"
  l_die :: bool
  l_connClosed :: bool
  l_rd :: "int option"
  l_wd :: "int option"

record hub_env =
  he_libs :: crypt_libs
  he_New :: "int \<Rightarrow> int \<Rightarrow> rs_codec option"
  he_key :: "nat \<Rightarrow> bytes"
  he_seed :: "nat \<Rightarrow> bytes"
  he_io :: "nat \<Rightarrow> session_io"
  he_clk :: "nat \<Rightarrow> u32"
  he_now :: "nat \<Rightarrow> int"

type_synonym pool = "(string \<times> session) list \<times> world"

record hub =
  hb_l :: listener
  hb_sched :: "pool option scheduler"

definition acceptBacklog :: nat where "acceptBacklog = 128"

definition ServeConn :: "(int \<Rightarrow> int \<Rightarrow> rs_codec option) \<Rightarrow> BlockCrypt option \<Rightarrow> int \<Rightarrow> int \<Rightarrow> listener" where
  "ServeConn New blk dataShards parityShards =
     (let dec = newFECDecoder New (rxFECMulti * (dataShards + parityShards)) dataShards parityShards;
          header = (if blk \<noteq> None then nat cryptHeaderSize else 0);
          header = (if dec \<noteq> None then header + nat fecHeaderSizePlus2 else header)
      in \<lparr>l_block = blk, l_dataShards = dataShards, l_parityShards = parityShards, l_fecDecoder = dec,
          l_headerSize = header, l_sessions = Map.empty, l_chAccepts = [], l_die = False, l_connClosed = False,
          l_rd = None, l_wd = None\<rparr>)"

definition hub_pool :: "hub \<Rightarrow> pool option" where
  "hub_pool h = sc_world (hb_sched h)"

definition set_pool :: "pool \<Rightarrow> hub \<Rightarrow> hub" where
  "set_pool p h = h\<lparr>hb_sched := (hb_sched h)\<lparr>sc_world := Some p\<rparr>\<rparr>"

subsection \<open>Packets\<close>

text \<open>The conversation a packet from a new address asks for, if it can be told.\<close>

definition packet_conv :: "listener \<Rightarrow> bytes \<Rightarrow> u32 option option" where
  "packet_conv l data =
     (if l_fecDecoder l \<noteq> None then do {
        b \<leftarrow> sl 4 (length data) data;
        isfec \<leftarrow> get_le16 b;
        if isfec = typeData then do {
          b \<leftarrow> sl (nat fecHeaderSizePlus2) (length data) data;
          conv \<leftarrow> get_le32 b;
          Some (Some conv)
        } else Some None
      } else map_option Some (get_le32 data))"

text \<open>The registration with the updater is part of \<open>newUDPSession\<close>.\<close>

definition register :: "(nat \<Rightarrow> int) \<Rightarrow> nat \<Rightarrow> 'w scheduler \<Rightarrow> 'w scheduler" where
  "register now i st = st\<lparr>sc_heap := addSession (now (sc_tick st)) i (sc_heap st), sc_tick := sc_tick st + 1,
     sc_added := insert i (sc_added st)\<rparr>"

definition accept_new :: "hub_env \<Rightarrow> u32 \<Rightarrow> bytes \<Rightarrow> string \<Rightarrow> hub \<Rightarrow> hub option" where
  "accept_new e conv data addr h = do {
     (ss, w) \<leftarrow> hub_pool h;
     let l = hb_l h;
     let i = length ss;
     (s, w) \<leftarrow> new_session (he_libs e) (he_New e) (he_key e i) (he_seed e i) conv (l_dataShards l) (l_parityShards l)
       False (l_block l) w;
     let h = h\<lparr>hb_sched := register (he_now e) i (hb_sched h)\<rparr>;
     (s, w) \<leftarrow> kcpInput (he_io e i) (he_clk e) data s w;
     Some (set_pool (ss @ [(addr, s)], w)
       (h\<lparr>hb_l := l\<lparr>l_sessions := (l_sessions l)(addr \<mapsto> i), l_chAccepts := l_chAccepts l @ [i]\<rparr>\<rparr>))
   }"

definition Listener_packetInput :: "hub_env \<Rightarrow> bytes \<Rightarrow> string \<Rightarrow> hub \<Rightarrow> hub option" where
  "Listener_packetInput e data addr h = do {
     (ss, w) \<leftarrow> hub_pool h;
     let l = hb_l h;
     r \<leftarrow> open_packet (he_libs e) (l_block l) data;
     case r of
       None \<Rightarrow> Some (set_pool (ss, count (\<lambda>c. c\<lparr>InCsumErrors := InCsumErrors c + 1\<rparr>) w) h)
     | Some data \<Rightarrow> (case l_sessions l addr of
           Some i \<Rightarrow> do {
             (s, w) \<leftarrow> kcpInput (he_io e i) (he_clk e) data (snd (ss ! i)) w;
             Some (set_pool (ss[i := (fst (ss ! i), s)], w) h)
           }
         | None \<Rightarrow>
             if length (l_chAccepts l) < acceptBacklog then do {
               c \<leftarrow> packet_conv l data;
               case c of Some conv \<Rightarrow> accept_new e conv data addr h | None \<Rightarrow> Some h
             } else Some h)
   }"

definition monitor_packet :: "hub_env \<Rightarrow> bytes \<Rightarrow> string \<Rightarrow> hub \<Rightarrow> hub option" where
  "monitor_packet e data addr h =
     (if length data \<ge> l_headerSize (hb_l h) + IKCP_OVERHEAD then Listener_packetInput e data addr h
      else do {
        (ss, w) \<leftarrow> hub_pool h;
        Some (set_pool (ss, count (\<lambda>c. c\<lparr>InErrs := InErrs c + 1\<rparr>) w) h)
      })"

fun monitor_batch :: "hub_env \<Rightarrow> (bytes \<times> string) list \<Rightarrow> hub \<Rightarrow> hub option" where
  "monitor_batch e [] h = Some h"
| "monitor_batch e ((data, addr) # msgs) h = do {
     h \<leftarrow> monitor_packet e data addr h;
     monitor_batch e msgs h
   }"

subsection \<open>Accepting and closing\<close>

text \<open>
  What ends the wait of \<open>AcceptKCP\<close>, which looks at the deadline only when it is called
  (\<open>rd\<close>); \<^const>\<open>None\<close> means that this does not happen now.
\<close>

datatype accept_case = AcceptTimeout | AcceptSession | AcceptDie

definition AcceptKCP :: "accept_case \<Rightarrow> int option \<Rightarrow> int \<Rightarrow> listener \<Rightarrow> ((session_error + nat) \<times> listener) option" where
  "AcceptKCP c rd now l = (case c of
     AcceptTimeout \<Rightarrow> if \<exists>d. rd = Some d \<and> d \<le> now then Some (Inl errTimeout, l) else None
   | AcceptSession \<Rightarrow> (case l_chAccepts l of [] \<Rightarrow> None | i # is \<Rightarrow> Some (Inr i, l\<lparr>l_chAccepts := is\<rparr>))
   | AcceptDie \<Rightarrow> if l_die l then Some (Inl errBrokenPipe, l) else None)"

definition Listener_SetReadDeadline :: "int option \<Rightarrow> listener \<Rightarrow> listener" where
  "Listener_SetReadDeadline t l = l\<lparr>l_rd := t\<rparr>"

definition Listener_SetWriteDeadline :: "int option \<Rightarrow> listener \<Rightarrow> listener" where
  "Listener_SetWriteDeadline t l = l\<lparr>l_wd := t\<rparr>"

definition Listener_SetDeadline :: "int option \<Rightarrow> listener \<Rightarrow> listener" where
  "Listener_SetDeadline t l = Listener_SetWriteDeadline t (Listener_SetReadDeadline t l)"

definition Listener_SetDSCP :: "conn_caps \<Rightarrow> int \<Rightarrow> conn_option option" where
  "Listener_SetDSCP conn dscp =
     (if is_net_Conn conn then Some (if local_ip4 conn then Plain (SetTOS (push_bit 2 dscp)) else SetTrafficClass dscp)
      else None)"

definition Listener_SetReadBuffer :: "conn_caps \<Rightarrow> int \<Rightarrow> conn_option option" where
  "Listener_SetReadBuffer conn n = (if has_SetReadBuffer conn then Some (Plain (SetReadBuffer n)) else None)"

definition Listener_SetWriteBuffer :: "conn_caps \<Rightarrow> int \<Rightarrow> conn_option option" where
  "Listener_SetWriteBuffer conn n = (if has_SetWriteBuffer conn then Some (Plain (SetWriteBuffer n)) else None)"

text \<open>Closing a channel that is closed already panics.\<close>

definition Listener_Close :: "listener \<Rightarrow> listener option" where
  "Listener_Close l = (if l_die l then None else Some (l\<lparr>l_die := True, l_connClosed := True\<rparr>))"

definition closeSession :: "string \<Rightarrow> listener \<Rightarrow> bool \<times> listener" where
  "closeSession remote l = (case l_sessions l remote of
     Some _ \<Rightarrow> (True, l\<lparr>l_sessions := (l_sessions l)(remote := None)\<rparr>)
   | None \<Rightarrow> (False, l))"

text \<open>\<open>Close\<close> of session \<open>i\<close>: the updater, the listener, then the session under its lock.\<close>

definition session_Close :: "nat \<Rightarrow> hub \<Rightarrow> ((session_error + bool) \<times> hub) option" where
  "session_Close i h = do {
     (ss, w) \<leftarrow> hub_pool h;
     up \<leftarrow> removeSession i (sc_heap (hb_sched h));
     let h = h\<lparr>hb_sched := (hb_sched h)\<lparr>sc_heap := up\<rparr>\<rparr>;
     let (remote, s) = ss ! i;
     let h = (if \<not> s_client s then h\<lparr>hb_l := snd (closeSession remote (hb_l h))\<rparr> else h);
     let (r, s, w) = close_locked s w;
     Some (r, set_pool (ss[i := (remote, s)], w) h)
   }"

subsection \<open>The update goroutine\<close>

text \<open>\<open>s.update()\<close> in the environment of the goroutine; the interval is in nanoseconds.\<close>

definition hub_update :: "hub_env \<Rightarrow> nat \<Rightarrow> pool option \<Rightarrow> int \<times> pool option" where
  "hub_update e i p = (case p of
     None \<Rightarrow> (1, None)
   | Some (ss, w) \<Rightarrow> (case session_update (he_io e i) (he_clk e) (snd (ss ! i)) w of
         None \<Rightarrow> (1, None)
       | Some (itv, s, w) \<Rightarrow> (uint itv * 1000000, Some (ss[i := (fst (ss ! i), s)], w))))"

subsection \<open>Dialling and listening\<close>

text \<open>
  What resolving the address, opening a socket on the network and resolving it again give; the
  connection identifier is drawn at random (\<open>convid\<close>).
\<close>

datatype dial_error = ResolveFailed | SocketFailed
datatype udp_network = udp4 | udp

definition NewConn :: "crypt_libs \<Rightarrow> (int \<Rightarrow> int \<Rightarrow> rs_codec option) \<Rightarrow> bytes \<Rightarrow> bytes \<Rightarrow> bool \<Rightarrow> u32 \<Rightarrow>
    BlockCrypt option \<Rightarrow> int \<Rightarrow> int \<Rightarrow> world \<Rightarrow> (dial_error + session \<times> world) option" where
  "NewConn L New key seed resolved convid blk dataShards parityShards w =
     (if \<not> resolved then Some (Inl ResolveFailed)
      else map_option Inr (new_session L New key seed convid dataShards parityShards True blk w))"

definition DialWithOptions :: "crypt_libs \<Rightarrow> (int \<Rightarrow> int \<Rightarrow> rs_codec option) \<Rightarrow> bytes \<Rightarrow> bytes \<Rightarrow> bool option \<Rightarrow>
    (udp_network \<Rightarrow> bool) \<Rightarrow> bool \<Rightarrow> u32 \<Rightarrow> BlockCrypt option \<Rightarrow> int \<Rightarrow> int \<Rightarrow> world \<Rightarrow>
    (dial_error + session \<times> world) option" where
  "DialWithOptions L New key seed raddr_is4 ListenUDP resolved convid blk dataShards parityShards w =
     (case raddr_is4 of
        None \<Rightarrow> Some (Inl ResolveFailed)
      | Some is4 \<Rightarrow>
          let network = (if is4 then udp4 else udp)
          in if ListenUDP network then NewConn L New key seed resolved convid blk dataShards parityShards w
             else Some (Inl SocketFailed))"

definition ListenWithOptions :: "(int \<Rightarrow> int \<Rightarrow> rs_codec option) \<Rightarrow> bool \<Rightarrow> bool \<Rightarrow> BlockCrypt option \<Rightarrow> int \<Rightarrow> int \<Rightarrow>
    dial_error + listener" where
  "ListenWithOptions New resolved ListenUDP blk dataShards parityShards =
     (if \<not> resolved then Inl ResolveFailed
      else if \<not> ListenUDP then Inl SocketFailed
      else Inr (ServeConn New blk dataShards parityShards))"

end
