(* ===== verification/KcpTiming.thy ===== *)
theory KcpTiming
  imports KcpProperties
begin

section \<open>Acknowledgements, timers, congestion, configuration\<close>

subsection \<open>Acknowledgements\<close>

text \<open>Selective acknowledgement: on a connection that satisfies its invariant, the loop of
  \<open>parse_ack\<close> with its early exits marks and empties exactly the segment with the acknowledged
  number, if it is in flight, and that of \<open>parse_fastack\<close> counts exactly the segments before it
  that were not sent after the acknowledged one; an acknowledgement outside the flight window
  changes nothing.\<close>

theorem parse_ack_fastack_spec:
  assumes "kcp_ok k"
  shows "snd_buf (parse_fastack sn ts (parse_ack sn k)) =
     (if itimediff sn (snd_una k) \<ge> 0 \<and> itimediff sn (snd_nxt k) < 0
      then map (\<lambda>s. if seg_sn s = sn then s\<lparr>seg_acked := 1, seg_data := []\<rparr>
                    else if unat (seg_sn s - snd_una k) < unat (sn - snd_una k)
                            \<and> itimediff (seg_ts s) ts \<le> 0
                    then s\<lparr>seg_fastack := seg_fastack s + 1\<rparr> else s) (snd_buf k)
      else snd_buf k)"
proof (cases "itimediff sn (snd_una k) < 0 \<or> itimediff sn (snd_nxt k) \<ge> 0")
  case True
  then show ?thesis by (auto simp: parse_ack_def parse_fastack_def)
next
  case False
  have inv: "send_inv k" using assms by (simp add: kcp_ok_def)
  then have buf: "map seg_sn (snd_buf k) = seqs (snd_una k) (length (snd_buf k))"
    "length (snd_buf k) < 2 ^ 31" by (simp_all add: send_inv_def)
  have off: "unat (sn - snd_una k) < 2 ^ 31"
    using False by (simp add: itimediff_neg_iff not_le)
  have "parse_fastack sn ts (parse_ack sn k) =
      k\<lparr>snd_buf := fastack_loop sn ts (ack_loop sn (snd_buf k))\<rparr>"
    using False by (auto simp: parse_ack_def parse_fastack_def)
  moreover have "fastack_loop sn ts (ack_loop sn (snd_buf k)) =
      map (\<lambda>s. if unat (seg_sn s - snd_una k) < unat (sn - snd_una k) \<and> itimediff (seg_ts s) ts \<le> 0
              then s\<lparr>seg_fastack := seg_fastack s + 1\<rparr> else s) (ack_loop sn (snd_buf k))"
    using buf off by (intro fastack_loop_map) simp_all
  moreover note ack_loop_map [OF buf off]
  ultimately show ?thesis
    using False by (auto simp: delSegment_def)
qed

theorem parse_ack_fastack_spec_witness:
  "snd_buf (parse_fastack 0 10 (parse_ack 0 busy)) =
     (if itimediff 0 (snd_una busy) \<ge> 0 \<and> itimediff 0 (snd_nxt busy) < 0
      then map (\<lambda>s. if seg_sn s = 0 then s\<lparr>seg_acked := 1, seg_data := []\<rparr>
                    else if unat (seg_sn s - snd_una busy) < unat (0 - snd_una busy)
                            \<and> itimediff (seg_ts s) 10 \<le> 0
                    then s\<lparr>seg_fastack := seg_fastack s + 1\<rparr> else s) (snd_buf busy)
      else snd_buf busy)"
  by (rule parse_ack_fastack_spec [OF kcp_ok_busy])

text \<open>Cumulative acknowledgement: \<open>parse_una\<close> and \<open>shrink_buf\<close> move \<open>snd_una\<close> forward to
  the acknowledged number, but never past \<open>snd_nxt\<close> and never backward, drop exactly the
  segments it passes and keep the flight gapless.\<close>

theorem parse_una_advances:
  fixes una :: u32
  assumes "kcp_ok k"
  defines "k' \<equiv> shrink_buf (parse_una una k)"
    and "c \<equiv> (if itimediff una (snd_una k) > 0
              then min (unat (una - snd_una k)) (length (snd_buf k)) else 0)"
  shows "snd_una k' = snd_una k + of_nat c \<and> snd_buf k' = drop c (snd_buf k)
     \<and> snd_nxt k' = snd_nxt k \<and> kcp_ok k'"
proof -
  have inv: "send_inv k" using assms(1) by (simp add: kcp_ok_def)
  then have buf: "map seg_sn (snd_buf k) = seqs (snd_una k) (length (snd_buf k))"
    "length (snd_buf k) < 2 ^ 31" by (simp_all add: send_inv_def)
  have cnt: "una_count una (snd_buf k) = c"
  proof (cases "itimediff una (snd_una k) > 0")
    case True
    then have "0 \<le> itimediff una (snd_una k)" by simp
    then have "unat (una - snd_una k) < 2 ^ 31" by (simp only: itimediff_nonneg_iff)
    from una_count_offset [OF buf this] True show ?thesis by (simp add: c_def)
  next
    case False
    from una_count_behind [OF buf(1) False] False show ?thesis by (simp add: c_def)
  qed
  have k': "k' = k\<lparr>snd_buf := drop c (snd_buf k), snd_una := snd_una k + of_nat c\<rparr>"
    using parse_una_shrink [OF inv, of una] by (simp add: k'_def cnt)
  have "send_inv k'" unfolding k'_def by (rule parse_una_shrink_inv [OF inv])
  moreover have "fits k (drop c (snd_buf k))"
    using assms(1) by (auto simp: kcp_ok_def fits_def dest: in_set_dropD)
  ultimately have "kcp_ok k'"
    using assms(1) by (simp add: k' kcp_ok_def layout_def recv_inv_def fits_def)
  then show ?thesis by (simp add: k')
qed

theorem parse_una_advances_witness:
  "snd_una (shrink_buf (parse_una 1 busy)) = snd_una busy + of_nat
       (if itimediff 1 (snd_una busy) > 0
        then min (unat (1 - snd_una busy)) (length (snd_buf busy)) else 0)
     \<and> snd_buf (shrink_buf (parse_una 1 busy)) = drop
       (if itimediff 1 (snd_una busy) > 0
        then min (unat (1 - snd_una busy)) (length (snd_buf busy)) else 0) (snd_buf busy)
     \<and> snd_nxt (shrink_buf (parse_una 1 busy)) = snd_nxt busy
     \<and> kcp_ok (shrink_buf (parse_una 1 busy))"
  by (rule parse_una_advances [OF kcp_ok_busy])

text \<open>The retransmission timeout stays within \<open>[rx_minrto, IKCP_RTO_MAX]\<close> whatever the
  round-trip sample is, the wrap-around of the 32-bit estimates included.\<close>

theorem update_ack_bounds:
  assumes "rx_minrto k \<le> IKCP_RTO_MAX"
  shows "rx_minrto k \<le> rx_rto (update_ack rtt k) \<and> rx_rto (update_ack rtt k) \<le> IKCP_RTO_MAX"
  using assms by (rule update_ack_rto)

theorem update_ack_bounds_witness:
  "rx_minrto busy \<le> rx_rto (update_ack 2147483647 busy)
     \<and> rx_rto (update_ack 2147483647 busy) \<le> IKCP_RTO_MAX"
  by (rule update_ack_bounds) (simp add: busy_def)

subsection \<open>The send window\<close>

text \<open>Flow control: a flush leaves at most as many segments in flight as were there or as
  the window (the smaller of both windows and, with congestion control, of \<open>cwnd\<close>) allows, and
  what it admits beyond is numbered within \<open>[snd_una, snd_una + window)\<close>.\<close>

theorem flush_respects_window:
  assumes "kcp_ok k" "flush clk False k w = Some (ret, k', w')"
  shows "length (snd_buf k') \<le> max (length (snd_buf k)) (unat (flush_cwnd k))
     \<and> (\<forall>s \<in> set (drop (length (snd_buf k)) (snd_buf k')).
          unat (seg_sn s - snd_una k') < unat (flush_cwnd k))
     \<and> snd_una k' = snd_una k"
proof -
  from kcp_ok_flush [OF assms(1), of clk w] assms(2) obtain C where
    fl: "flushed clk k w C (ret, k', w')" by auto
  note len = flush_window [OF assms(1) fl]
  have una: "snd_una k' = snd_una k"
    using flushedD(10) [OF fl] by (simp add: same_rtt_def)
  have inv: "send_inv k'"
    using flush_kcp_ok [OF assms(1) fl] by (simp add: kcp_ok_def)
  then have "length (snd_buf k') < 2 ^ 31" by (simp add: send_inv_def)
  then have off: "unat (seg_sn (snd_buf k' ! i) - snd_una k) = i" if "i < length (snd_buf k')" for i
    using send_inv_nth [OF inv that] that una unat_offset_of_nat [of i "snd_una k"] by simp
  have "unat (seg_sn s - snd_una k') < unat (flush_cwnd k)"
    if "s \<in> set (drop (length (snd_buf k)) (snd_buf k'))" for s
  proof -
    from that obtain j where j: "j < n_admit k" "s = snd_buf k' ! (length (snd_buf k) + j)"
      using len(1) by (auto simp: in_set_conv_nth)
    then have "unat (seg_sn s - snd_una k) = length (snd_buf k) + j"
      using off [of "length (snd_buf k) + j"] len(1) by simp
    with j(1) una show ?thesis by (simp add: n_admit_def less_diff_conv add.commute)
  qed
  with len una show ?thesis by blast
qed

theorem flush_respects_window_witness:
  "\<exists>ret k' w'. flush (\<lambda>_. 50) False busy world0 = Some (ret, k', w')
     \<and> length (snd_buf k') \<le> max (length (snd_buf busy)) (unat (flush_cwnd busy))
     \<and> (\<forall>s \<in> set (drop (length (snd_buf busy)) (snd_buf k')).
          unat (seg_sn s - snd_una k') < unat (flush_cwnd busy))
     \<and> snd_una k' = snd_una busy"
proof -
  from kcp_ok_flush [OF kcp_ok_busy, of "\<lambda>_. 50" world0] obtain ret k' w' where
    fl: "flush (\<lambda>_. 50) False busy world0 = Some (ret, k', w')" by blast
  from flush_respects_window [OF kcp_ok_busy fl] fl show ?thesis by blast
qed

subsection \<open>The timers\<close>

lemma check_loop_None: "check_loop now buf tm = None \<longleftrightarrow>
    (\<exists>s \<in> set buf. itimediff (seg_resendts s) now \<le> 0)"
  by (induction now buf tm rule: check_loop.induct) (auto simp: Let_def)

lemma check_loop_Some:
  "check_loop now buf tm = Some m \<Longrightarrow> 0 < tm \<Longrightarrow>
     0 < m \<and> m \<le> tm \<and> (\<forall>s \<in> set buf. m \<le> itimediff (seg_resendts s) now)"
proof (induction now buf tm rule: check_loop.induct)
  case (1 now tm)
  then show ?case by simp
next
  case (2 now s buf tm)
  let ?d = "itimediff (seg_resendts s) now"
  have d: "\<not> ?d \<le> 0" "check_loop now buf (if ?d < tm then ?d else tm) = Some m"
    using "2.prems"(1) by (auto simp: Let_def split: if_splits)
  have "0 < (if ?d < tm then ?d else tm)" using d(1) "2.prems"(2) by simp
  with "2.IH" [OF refl d] have "0 < m \<and> m \<le> (if ?d < tm then ?d else tm)
      \<and> (\<forall>s \<in> set buf. m \<le> itimediff (seg_resendts s) now)" by simp
  then show ?case by (cases "?d < tm") auto
qed

lemma sint_offset: "0 \<le> d \<Longrightarrow> d < 2 ^ 31 \<Longrightarrow> itimediff (b + word_of_int d) b = d"
proof -
  assume d: "0 \<le> d" "d < 2 ^ 31"
  then have "word_of_int d = (of_nat (nat d) :: u32)" "nat d < 2 ^ 31" by simp_all
  with itimediff_add [of "nat d" b] d(1) show ?thesis by (simp only: int_nat_eq if_True)
qed

lemma itimediff_swap:
  assumes "- (2 ^ 31) < itimediff a b" "itimediff a b < 0"
  shows "itimediff b a = - itimediff a b"
proof -
  define d where "d = - itimediff a b"
  have "word_of_int d = b - a" by (simp add: d_def itimediff_def)
  then have "b = a + word_of_int d" by simp
  then have "itimediff b a = d"
    using sint_offset [of d a] assms by (simp add: d_def)
  then show ?thesis by (simp add: d_def)
qed

lemma sint_pos_uint: "0 \<le> sint (x :: u32) \<Longrightarrow> uint x = sint x"
proof -
  assume pos: "0 \<le> sint x"
  have u: "int (unat x) = uint x" by simp
  have "sint x = (if unat x < 2 ^ 31 then uint x else uint x - 2 ^ 32)"
    using itimediff_cases [of x 0] unfolding u itimediff_def by simp
  moreover have "uint x < 2 ^ 32"
    unfolding u [symmetric] using unat_u32_lt [of x] by (simp del: of_nat_unat)
  ultimately show ?thesis using pos by (simp split: if_splits)
qed

text \<open>\<open>Check\<close> asks to be called again now exactly when there is something to do (no update
  has run yet, the flush time is reached, or a segment in flight has timed out); otherwise the
  time it names lies in the future, at most one \<open>interval\<close> away, and not after the flush time or
  any retransmission time.\<close>

theorem Check_schedule:
  assumes "kcp_ok k" "Check clk k w = (t, w')"
  defines "now \<equiv> clk (tick w)"
  defines "slap \<equiv> itimediff now (ts_flush k)"
  shows "if updated k = 0 \<or> 0 \<le> slap \<or> slap < -10000
            \<or> (\<exists>s \<in> set (snd_buf k). itimediff (seg_resendts s) now \<le> 0)
         then t = now
         else 0 < itimediff t now \<and> itimediff t now \<le> sint (interval k)
            \<and> itimediff t now \<le> - slap
            \<and> (\<forall>s \<in> set (snd_buf k). itimediff t now \<le> itimediff (seg_resendts s) now)"
proof (cases "updated k = 0 \<or> 0 \<le> slap \<or> slap < -10000
            \<or> (\<exists>s \<in> set (snd_buf k). itimediff (seg_resendts s) now \<le> 0)")
  case True
  then have "t = now"
    using assms(2)
    by (auto simp: Check_def currentMs_def now_def slap_def Let_def check_loop_None [THEN iffD2]
        split: if_splits)
  with True show ?thesis by simp
next
  case False
  then have off: "updated k \<noteq> 0" "slap < 0" "- 10000 \<le> slap" by auto
  let ?tf = "itimediff (ts_flush k) now"
  have tf: "?tf = - slap"
    using itimediff_swap [of now "ts_flush k"] off by (simp add: slap_def)
  from False obtain m where m: "check_loop now (snd_buf k) 0x7fffffff = Some m"
    using check_loop_None [of now "snd_buf k" "0x7fffffff"]
    by (cases "check_loop now (snd_buf k) 0x7fffffff") auto
  have fact: "0 < m" "m \<le> 0x7fffffff" "\<forall>s \<in> set (snd_buf k). m \<le> itimediff (seg_resendts s) now"
    using check_loop_Some [OF m] by simp_all
  define lo where "lo = (if m \<ge> ?tf then ?tf else m)"
  have lo: "0 < lo" "lo < 2 ^ 31" "lo \<le> ?tf" "lo \<le> m"
    using fact tf off by (auto simp: lo_def)
  define q where "q = (if (word_of_int lo :: u32) \<ge> interval k then interval k else word_of_int lo)"
  have t: "t = now + q"
    using assms(2) off m
    by (auto simp: Check_def currentMs_def now_def [symmetric] slap_def [symmetric] Let_def q_def
        lo_def if_distrib [of word_of_int])
  have itv: "0 < sint (interval k)" using assms(1) by (simp add: kcp_ok_def)
  then have "uint (interval k) = sint (interval k)" by (simp add: sint_pos_uint)
  moreover have "uint (word_of_int lo :: u32) = lo"
    using lo by (simp add: take_bit_int_eq_self unsigned_of_int)
  ultimately have q: "0 < sint q \<and> sint q \<le> sint (interval k) \<and> sint q \<le> lo"
    using lo itv by (auto simp: q_def word_le_def signed_of_int signed_take_bit_int_eq_self)
  then have "itimediff t now = sint q"
    by (simp add: t itimediff_def)
  then have "0 < itimediff t now" "itimediff t now \<le> sint (interval k)" "itimediff t now \<le> - slap"
    and m: "itimediff t now \<le> m"
    using q lo tf by linarith+
  moreover have "\<forall>s \<in> set (snd_buf k). itimediff t now \<le> itimediff (seg_resendts s) now"
    using m fact(3) by fastforce
  ultimately show ?thesis unfolding if_not_P [OF False] by blast
qed

theorem Check_schedule_witness:
  "\<exists>t w'. Check (\<lambda>_. 50) (busy\<lparr>updated := 1, ts_flush := 120\<rparr>) world0 = (t, w') \<and>
    (if updated (busy\<lparr>updated := 1, ts_flush := 120\<rparr>) = 0
        \<or> 0 \<le> itimediff 50 (ts_flush (busy\<lparr>updated := 1, ts_flush := 120\<rparr>))
        \<or> itimediff 50 (ts_flush (busy\<lparr>updated := 1, ts_flush := 120\<rparr>)) < -10000
        \<or> (\<exists>s \<in> set (snd_buf (busy\<lparr>updated := 1, ts_flush := 120\<rparr>)).
              itimediff (seg_resendts s) 50 \<le> 0)
     then t = 50
     else 0 < itimediff t 50 \<and> itimediff t 50 \<le> sint (interval (busy\<lparr>updated := 1, ts_flush := 120\<rparr>))
        \<and> itimediff t 50 \<le> - itimediff 50 (ts_flush (busy\<lparr>updated := 1, ts_flush := 120\<rparr>))
        \<and> (\<forall>s \<in> set (snd_buf (busy\<lparr>updated := 1, ts_flush := 120\<rparr>)).
              itimediff t 50 \<le> itimediff (seg_resendts s) 50))"
proof -
  let ?k = "busy\<lparr>updated := 1, ts_flush := 120\<rparr>"
  have "kcp_ok ?k"
    using kcp_ok_busy by (simp add: kcp_ok_def layout_def send_inv_def recv_inv_def fits_def)
  moreover obtain t w' where t: "Check (\<lambda>_. 50) ?k world0 = (t, w')" by fastforce
  ultimately show ?thesis using Check_schedule [OF _ t] by blast
qed

lemma kcp_ok_timer: "kcp_ok k \<Longrightarrow> kcp_ok (k\<lparr>updated := a, ts_flush := b\<rparr>)"
  by (simp add: kcp_ok_def layout_def send_inv_def recv_inv_def fits_def)

lemma next_flush:
  assumes "0 \<le> itimediff now ts" "0 < sint itv"
  defines "nxt \<equiv> (if itimediff now (ts + itv) \<ge> 0 then now + itv else ts + itv)"
  shows "0 < itimediff nxt now \<and> itimediff nxt now \<le> sint itv"
proof (cases "itimediff now (ts + itv) \<ge> 0")
  case True
  with assms(2) show ?thesis by (simp add: nxt_def itimediff_def)
next
  case False
  have off: "unat (now - ts) < 2 ^ 31" using assms(1) by (simp only: itimediff_nonneg_iff)
  have itv: "unat itv < 2 ^ 31" "int (unat itv) = sint itv"
    using assms(2) itimediff_nonneg_iff [of itv 0] itimediff_cases [of itv 0]
    by (simp_all add: itimediff_def split: if_splits)
  have 1: "itimediff now (ts + itv) = int (unat (now - ts)) - int (unat itv)"
    using itimediff_offsets [of now ts "ts + itv"] off itv(1) by simp
  have 2: "itimediff (ts + itv) now = int (unat itv) - int (unat (now - ts))"
    using itimediff_offsets [of "ts + itv" ts now] off itv(1) by simp
  show ?thesis
    using False 1 2 itv(2) by (simp add: nxt_def)
qed

text \<open>\<open>Update\<close> is total and keeps the invariant; it flushes exactly when the flush time is
  reached (or lies more than ten seconds off, or no update has run), and afterwards the next
  flush time lies in the future: at most one \<open>interval\<close> away if it flushed and at most ten
  seconds otherwise.\<close>

theorem Update_schedule:
  fixes clk :: "nat \<Rightarrow> u32" and w :: world
  assumes "kcp_ok k"
  defines "now \<equiv> clk (tick w)"
  defines "slap \<equiv> itimediff now (ts_flush k)"
  shows "\<exists>k' w'. Update clk k w = Some (k', w') \<and> kcp_ok k' \<and> updated k' \<noteq> 0
     \<and> 0 < itimediff (ts_flush k') now
     \<and> (if updated k = 0 \<or> 0 \<le> slap \<or> slap < -10000
        then itimediff (ts_flush k') now \<le> sint (interval k) \<and> acklist k' = []
        else itimediff (ts_flush k') now \<le> 10000 \<and> k' = k \<and> outs w' = outs w)"
proof (cases "updated k = 0 \<or> 0 \<le> slap \<or> slap < -10000")
  case True
  define ts where "ts = (if updated k = 0 \<or> slap \<ge> 10000 \<or> slap < -10000 then now else ts_flush k)"
  define nxt where "nxt = (if itimediff now (ts + interval k) \<ge> 0 then now + interval k
      else ts + interval k)"
  define u where "u = (if updated k = 0 then 1 else updated k)"
  let ?k = "k\<lparr>updated := u, ts_flush := nxt\<rparr>"
  have itv: "0 < sint (interval k)" using assms(1) by (simp add: kcp_ok_def)
  have "0 \<le> itimediff now ts" using True by (auto simp: ts_def slap_def)
  note nf = next_flush [OF this itv, folded nxt_def]
  have eq: "Update clk k w =
      map_option (\<lambda>(_, kcp, w). (kcp, w)) (flush clk False ?k (w\<lparr>tick := tick w + 1\<rparr>))"
  proof (cases "updated k = 0")
    case u0: True
    then show ?thesis
      by (simp add: Update_def currentMs_def now_def [symmetric] Let_def u_def nxt_def ts_def)
  next
    case u1: False
    with True show ?thesis
      by (auto simp: Update_def currentMs_def now_def [symmetric] slap_def [symmetric] Let_def u_def
          nxt_def ts_def)
  qed
  from kcp_ok_flush [OF kcp_ok_timer [OF assms(1), of nxt u], of clk "w\<lparr>tick := tick w + 1\<rparr>"]
  obtain ret k' w' C where
    fl: "flush clk False ?k (w\<lparr>tick := tick w + 1\<rparr>) = Some (ret, k', w')"
      "flushed clk ?k (w\<lparr>tick := tick w + 1\<rparr>) C (ret, k', w')" by blast
  have "kcp_ok k'" by (rule flush_kcp_ok [OF kcp_ok_timer [OF assms(1)] fl(2)])
  moreover have "updated k' = u" "ts_flush k' = nxt"
    using flushedD(8) [OF fl(2)] by (simp_all add: same_config_def)
  moreover have "u \<noteq> 0" by (simp add: u_def)
  ultimately show ?thesis
    using eq fl(1) nf True flushedD(11) [OF fl(2)] by auto
next
  case False
  then have off: "slap < 0" "- 10000 \<le> slap" "updated k \<noteq> 0" by auto
  have "itimediff (ts_flush k) now = - slap"
    using itimediff_swap [of now "ts_flush k"] off by (simp add: slap_def)
  moreover have "Update clk k w = Some (k, w\<lparr>tick := tick w + 1\<rparr>)"
    using off by (auto simp: Update_def currentMs_def now_def [symmetric] slap_def [symmetric] Let_def)
  ultimately show ?thesis
    using off False assms(1) by auto
qed

theorem Update_schedule_witness:
  "\<exists>k' w'. Update (\<lambda>_. 77) busy world0 = Some (k', w') \<and> kcp_ok k' \<and> updated k' \<noteq> 0
     \<and> 0 < itimediff (ts_flush k') 77
     \<and> (if updated busy = 0 \<or> 0 \<le> itimediff 77 (ts_flush busy) \<or> itimediff 77 (ts_flush busy) < -10000
        then itimediff (ts_flush k') 77 \<le> sint (interval busy) \<and> acklist k' = []
        else itimediff (ts_flush k') 77 \<le> 10000 \<and> k' = busy \<and> outs w' = outs world0)"
  by (rule Update_schedule [OF kcp_ok_busy])

subsection \<open>Window probes and congestion\<close>

text \<open>Window probing backs off exponentially: while the peer's window is closed the probe
  delay stays within \<open>[IKCP_PROBE_INIT, IKCP_PROBE_LIMIT]\<close>, a probe is asked for only when its
  time has come, the delay then grows by half up to the limit and the next probe lies that far
  ahead; an open window resets it.\<close>

theorem probe_backoff:
  assumes "probe_wait k = 0 \<or> IKCP_PROBE_INIT \<le> probe_wait k \<and> probe_wait k \<le> IKCP_PROBE_LIMIT"
    "probe_window clk k w = (k', w')"
  defines "now \<equiv> clk (tick w)"
  shows "if rmt_wnd k \<noteq> 0 then probe_wait k' = 0 \<and> probe k' = probe k
     else if probe_wait k = 0
     then probe_wait k' = IKCP_PROBE_INIT \<and> ts_probe k' = now + IKCP_PROBE_INIT \<and> probe k' = probe k
     else if itimediff now (ts_probe k) \<ge> 0
     then unat (probe_wait k') = min 120000 (unat (probe_wait k) + unat (probe_wait k) div 2)
        \<and> IKCP_PROBE_INIT \<le> probe_wait k' \<and> ts_probe k' = now + probe_wait k'
        \<and> probe k' = probe k OR IKCP_ASK_SEND
     else k' = k"
proof -
  have up: "unat (probe_wait k + probe_wait k div 2) = unat (probe_wait k) + unat (probe_wait k) div 2"
    if "probe_wait k \<le> 120000"
  proof -
    have "unat (probe_wait k) \<le> 120000" using that by (simp add: word_le_nat_alt)
    then show ?thesis by (simp add: unat_word_ariths unat_div take_bit_nat_eq_self)
  qed
  define p where "p = (if probe_wait k + probe_wait k div 2 > IKCP_PROBE_LIMIT then IKCP_PROBE_LIMIT
      else probe_wait k + probe_wait k div 2)"
  have elapsed: "unat p = min 120000 (unat (probe_wait k) + unat (probe_wait k) div 2)
      \<and> IKCP_PROBE_INIT \<le> p" if "probe_wait k \<noteq> 0"
  proof -
    have b: "7000 \<le> probe_wait k" "probe_wait k \<le> 120000" using assms(1) that by auto
    have "7000 \<le> unat (probe_wait k)" using b(1) by (simp add: word_le_nat_alt)
    then show ?thesis
      using up [OF b(2)] by (auto simp: p_def word_less_nat_alt word_le_nat_alt not_less)
  qed
  consider "rmt_wnd k \<noteq> 0" | "rmt_wnd k = 0" "probe_wait k = 0"
    | "rmt_wnd k = 0" "probe_wait k \<noteq> 0" "itimediff now (ts_probe k) < 0"
    | "rmt_wnd k = 0" "probe_wait k \<noteq> 0" "itimediff now (ts_probe k) \<ge> 0" by linarith
  then show ?thesis
  proof cases
    case 1
    with assms(2) show ?thesis by (auto simp: probe_window_def)
  next
    case 2
    with assms(2) show ?thesis by (auto simp: probe_window_def currentMs_def now_def Let_def)
  next
    case 3
    with assms(2) show ?thesis by (auto simp: probe_window_def currentMs_def now_def Let_def)
  next
    case 4
    have low: "\<not> probe_wait k < 7000" using 4(2) assms(1) by auto
    have "k' = k\<lparr>probe_wait := p, ts_probe := now + p, probe := probe k OR IKCP_ASK_SEND\<rparr>"
      using assms(2) 4 low
      by (auto simp: probe_window_def currentMs_def now_def p_def Let_def split: if_splits)
    with 4 elapsed show ?thesis by simp
  qed
qed

theorem probe_backoff_witness:
  "\<exists>k' w'. probe_window (\<lambda>_. 9000) (busy\<lparr>rmt_wnd := 0, probe_wait := 7000, ts_probe := 8000\<rparr>) world0 = (k', w')
     \<and> unat (probe_wait k') = 10500 \<and> ts_probe k' = 19500 \<and> probe k' = IKCP_ASK_SEND"
proof -
  let ?k = "busy\<lparr>rmt_wnd := 0, probe_wait := 7000, ts_probe := 8000\<rparr>"
  obtain k' w' where r: "probe_window (\<lambda>_. 9000) ?k world0 = (k', w')" by fastforce
  have pre: "probe_wait ?k = 0 \<or> IKCP_PROBE_INIT \<le> probe_wait ?k \<and> probe_wait ?k \<le> IKCP_PROBE_LIMIT"
    by simp
  from probe_backoff [OF pre r]
  have b: "unat (probe_wait k') = 10500" "ts_probe k' = 9000 + probe_wait k'" "probe k' = IKCP_ASK_SEND"
    by (simp_all add: itimediff_def busy_def NewKCP_def KCP0_def)
  have "probe_wait k' = 10500" by (simp add: word_unat_eq_iff b(1))
  with r b show ?thesis by auto
qed

text \<open>Congestion control: with it enabled, the window is never zero after a flush and the
  threshold stays at least \<open>IKCP_THRESH_MIN\<close>; a timeout collapses the window to one segment and
  halves the threshold; and an acknowledgement makes the window grow by at most one, never past
  the window the peer advertised.\<close>

theorem congestion_window:
  assumes "kcp_ok k" "nocwnd k = 0" "IKCP_THRESH_MIN \<le> ssthresh k"
  shows "(\<forall>ret k' w'. flush clk False k w = Some (ret, k', w') \<longrightarrow>
        cwnd k' \<noteq> 0 \<and> IKCP_THRESH_MIN \<le> ssthresh k')
     \<and> (rt_lost r > 0 \<longrightarrow> cwnd (flush_congestion cw resent r k) = 1
        \<and> ssthresh (flush_congestion cw resent r k) = max IKCP_THRESH_MIN (cw div 2))
     \<and> (\<exists>k'. input_cwnd una k = Some k'
        \<and> (cwnd k' = cwnd k \<or> cwnd k' = cwnd k + 1 \<and> cwnd k' \<le> rmt_wnd k))"
proof (intro conjI allI impI)
  fix ret k' w'
  assume "flush clk False k w = Some (ret, k', w')"
  with kcp_ok_flush [OF assms(1), of clk w] obtain C where "flushed clk k w C (ret, k', w')" by auto
  from flushedD(14,15) [OF this] assms(2,3)
  show "cwnd k' \<noteq> 0" "IKCP_THRESH_MIN \<le> ssthresh k'" by auto
next
  assume "rt_lost r > 0"
  with assms(2) show "cwnd (flush_congestion cw resent r k) = 1"
    "ssthresh (flush_congestion cw resent r k) = max IKCP_THRESH_MIN (cw div 2)"
    by (auto simp: flush_congestion_def Let_def max_def)
next
  have mss: "mss k \<noteq> 0" using assms(1) layout_mss(1) [of k] by (auto simp: kcp_ok_def)
  define k0 where "k0 = (if incr k < mss k then k\<lparr>incr := mss k\<rparr> else k)"
  have k0: "incr k0 \<noteq> 0" "cwnd k0 = cwnd k" "rmt_wnd k0 = rmt_wnd k" "mss k0 = mss k"
    using mss by (auto simp: k0_def not_less)
  have "cwnd k + 1 \<le> rmt_wnd k" if "cwnd k < rmt_wnd k"
    using that by (rule inc_le)
  then show "\<exists>k'. input_cwnd una k = Some k'
        \<and> (cwnd k' = cwnd k \<or> cwnd k' = cwnd k + 1 \<and> cwnd k' \<le> rmt_wnd k)"
    using k0 unfolding input_cwnd_def Let_def k0_def [symmetric] by auto
qed

text \<open>What the retransmission loop reports after one timeout.\<close>

definition one_loss :: rt where
  "one_loss = \<lparr>rt_current = 0, rt_change = 0, rt_lost = 1, rt_lostSegs = 1, rt_fast = 0,
     rt_early = 0, rt_minrto = 1, rt_st = (([], 0), world0), rt_state = 0\<rparr>"

theorem congestion_window_witness:
  "(\<exists>ret k' w'. flush (\<lambda>_. 500) False busy world0 = Some (ret, k', w') \<and> cwnd k' \<noteq> 0)
     \<and> cwnd (flush_congestion 9 3 one_loss busy) = 1
     \<and> ssthresh (flush_congestion 9 3 one_loss busy) = 4
     \<and> (\<exists>k'. input_cwnd 0 busy = Some k'
        \<and> (cwnd k' = cwnd busy \<or> cwnd k' = cwnd busy + 1 \<and> cwnd k' \<le> rmt_wnd busy))"
proof -
  have pre: "nocwnd busy = 0" "IKCP_THRESH_MIN \<le> ssthresh busy" by (simp_all add: busy_def)
  note all = congestion_window [OF kcp_ok_busy pre, of "\<lambda>_. 500" world0 one_loss 9 3 0]
  from kcp_ok_flush [OF kcp_ok_busy, of "\<lambda>_. 500" world0] obtain ret k' w' where
    "flush (\<lambda>_. 500) False busy world0 = Some (ret, k', w')" by blast
  moreover have "rt_lost one_loss > 0" "max IKCP_THRESH_MIN (9 div 2) = (4 :: u32)"
    by (simp_all add: one_loss_def)
  ultimately show ?thesis using all by auto
qed

subsection \<open>Configuration\<close>

lemma NoDelay_sel:
  "fst (NoDelay nd itv resend nc k) = 0"
  "mtu (snd (NoDelay nd itv resend nc k)) = mtu k" "mss (snd (NoDelay nd itv resend nc k)) = mss k" "buffer (snd (NoDelay nd itv resend nc k)) = buffer k"
  "reserved (snd (NoDelay nd itv resend nc k)) = reserved k" "snd_una (snd (NoDelay nd itv resend nc k)) = snd_una k" "snd_nxt (snd (NoDelay nd itv resend nc k)) = snd_nxt k"
  "snd_buf (snd (NoDelay nd itv resend nc k)) = snd_buf k" "snd_queue (snd (NoDelay nd itv resend nc k)) = snd_queue k" "rcv_nxt (snd (NoDelay nd itv resend nc k)) = rcv_nxt k"
  "rcv_buf (snd (NoDelay nd itv resend nc k)) = rcv_buf k" "snd_wnd (snd (NoDelay nd itv resend nc k)) = snd_wnd k"
  "interval (snd (NoDelay nd itv resend nc k)) =
     (if 0 \<le> itv then word_of_int (max 10 (min itv 5000)) else interval k)"
  "rx_minrto (snd (NoDelay nd itv resend nc k)) =
     (if 0 \<le> nd then if nd = 0 then IKCP_RTO_MIN else IKCP_RTO_NDL else rx_minrto k)"
  by (simp_all add: NoDelay_def Let_def max_def min_def)

lemma WndSize_sel:
  "fst (WndSize sw rw k) = 0"
  "mtu (snd (WndSize sw rw k)) = mtu k" "mss (snd (WndSize sw rw k)) = mss k" "buffer (snd (WndSize sw rw k)) = buffer k"
  "reserved (snd (WndSize sw rw k)) = reserved k" "snd_una (snd (WndSize sw rw k)) = snd_una k" "snd_nxt (snd (WndSize sw rw k)) = snd_nxt k"
  "snd_buf (snd (WndSize sw rw k)) = snd_buf k" "snd_queue (snd (WndSize sw rw k)) = snd_queue k" "rcv_nxt (snd (WndSize sw rw k)) = rcv_nxt k"
  "rcv_buf (snd (WndSize sw rw k)) = rcv_buf k" "interval (snd (WndSize sw rw k)) = interval k" "rx_minrto (snd (WndSize sw rw k)) = rx_minrto k"
 
  "snd_wnd (snd (WndSize sw rw k)) = (if 0 < sw then word_of_int sw else snd_wnd k)"
  by (simp_all add: WndSize_def Let_def)

text \<open>\<open>NoDelay\<close> and \<open>WndSize\<close> keep the invariant and the parameters in range: the update
  interval between 10 and 5000 milliseconds, the minimal timeout one of the two constants,
  whatever integers the caller passes (for window sizes below \<open>2^31\<close>).\<close>

theorem configure_keeps_ok:
  assumes "kcp_ok k" "sw < 2 ^ 31"
  shows "\<exists>k1 k2. NoDelay nd itv resend nc k = (0, k1) \<and> WndSize sw rw k1 = (0, k2) \<and> kcp_ok k2
     \<and> (0 \<le> itv \<longrightarrow> 10 \<le> unat (interval k2) \<and> unat (interval k2) \<le> 5000)
     \<and> (0 \<le> nd \<longrightarrow> rx_minrto k2 = (if nd = 0 then IKCP_RTO_MIN else IKCP_RTO_NDL))
     \<and> (0 < sw \<longrightarrow> int (unat (snd_wnd k2)) = sw)"
proof -
  define k1 where "k1 = snd (NoDelay nd itv resend nc k)"
  define k2 where "k2 = snd (WndSize sw rw k1)"
  note sel = NoDelay_sel [where nd = nd and itv = itv and resend = resend and nc = nc and k = k,
      folded k1_def] WndSize_sel [where sw = sw and rw = rw and k = k1, folded k2_def]
  have eqs: "NoDelay nd itv resend nc k = (0, k1)" "WndSize sw rw k1 = (0, k2)"
    using sel(1) WndSize_sel(1) [of sw rw k1] NoDelay_sel(1) [of nd itv resend nc k]
    by (simp_all add: k1_def k2_def prod_eq_iff)
  have u: "unat (word_of_int d :: u32) = nat d" if "0 \<le> d" "d < 2 ^ 32" for d :: int
    using that by (simp add: unsigned_of_int take_bit_int_eq_self)
  define d where "d = max 10 (min itv 5000)"
  have d: "10 \<le> d" "d \<le> 5000" by (auto simp: d_def)
  have itv: "interval k2 = (if 0 \<le> itv then word_of_int d else interval k)"
    by (simp add: sel d_def)
  have rng: "10 \<le> unat (interval k2) \<and> unat (interval k2) \<le> 5000" if "0 \<le> itv"
    using that d u [of d] by (auto simp: itv le_nat_iff nat_le_iff)
  have "sint (word_of_int d :: u32) = d"
    using d by (simp add: signed_of_int signed_take_bit_int_eq_self)
  then have pos: "0 < sint (interval k2)"
    using assms(1) d by (simp add: itv kcp_ok_def)
  have "unat (snd_wnd k2) < 2 ^ 31"
    using assms u [of sw] by (auto simp: sel kcp_ok_def)
  then have "kcp_ok k2"
    using assms(1) pos by (simp add: kcp_ok_def layout_def send_inv_def recv_inv_def fits_def sel)
  moreover have "0 < sw \<longrightarrow> int (unat (snd_wnd k2)) = sw"
    using u [of sw] assms(2) by (simp add: sel del: of_nat_unat)
  ultimately show ?thesis
    using eqs rng sel by auto
qed

theorem configure_keeps_ok_witness:
  "\<exists>k1 k2. NoDelay 1 (-5) 2 1 busy = (0, k1) \<and> WndSize 128 512 k1 = (0, k2) \<and> kcp_ok k2
     \<and> (0 \<le> (-5 :: int) \<longrightarrow> 10 \<le> unat (interval k2) \<and> unat (interval k2) \<le> 5000)
     \<and> (0 \<le> (1 :: int) \<longrightarrow> rx_minrto k2 = (if (1 :: int) = 0 then IKCP_RTO_MIN else IKCP_RTO_NDL))
     \<and> (0 < (128 :: int) \<longrightarrow> int (unat (snd_wnd k2)) = 128)"
  by (rule configure_keeps_ok [OF kcp_ok_busy]) simp

lemma unat_room:
  assumes "24 + r \<le> unat (w :: u32)"
  shows "unat (w - 24 - of_nat r) = unat w - 24 - r" "uint (w - 24) = int (unat w) - 24"
proof -
  have r: "unat (of_nat r :: u32) = r"
    using assms unat_u32_lt [of w] by (intro unat_of_nat_u32) linarith
  have 24: "unat (w - 24) = unat w - 24"
    using assms by (simp add: unat_sub word_le_nat_alt)
  then have "(of_nat r :: u32) \<le> w - 24"
    using assms r by (simp add: word_le_nat_alt)
  then show "unat (w - 24 - of_nat r) = unat w - 24 - r"
    using 24 r by (simp add: unat_sub)
  have "uint (w - 24) = int (unat (w - 24))" by simp
  then show "uint (w - 24) = int (unat w) - 24"
    unfolding 24 using assms by (simp add: of_nat_diff del: of_nat_unat)
qed

text \<open>\<open>ReserveBytes\<close> and \<open>SetMtu\<close> on a connection without queued data keep the buffer
  layout every flush relies on: \<open>ReserveBytes\<close> succeeds exactly for a prefix that leaves room
  for a payload byte, and \<open>SetMtu\<close> sets the segment size to what the header and the prefix
  leave, when they leave something.\<close>

theorem reserve_mtu_layout:
  assumes "kcp_ok k" "snd_buf k = []" "snd_queue k = []"
  shows "\<exists>b k1. ReserveBytes n k = (b, k1) \<and> kcp_ok k1
     \<and> (b \<longleftrightarrow> 0 \<le> n \<and> n + IKCP_OVERHEAD < int (unat (mtu k)))
     \<and> (if b then int (unat (mss k1)) = int (unat (mtu k)) - IKCP_OVERHEAD - n else k1 = k)
     \<and> (50 \<le> m \<and> m \<le> mtuLimit \<and> IKCP_OVERHEAD + int (reserved k1) < m \<longrightarrow>
          (\<exists>k2. SetMtu m k1 = (0, k2) \<and> kcp_ok k2 \<and> int (unat (mtu k2)) = m
             \<and> int (unat (mss k2)) = m - IKCP_OVERHEAD - int (reserved k1)))"
proof -
  have lay: "length (buffer k) = unat (mtu k)" "unat (mtu k) \<le> mtuLimit"
    "unat (mss k) + IKCP_OVERHEAD + reserved k = unat (mtu k)" "0 < unat (mss k)"
    using assms(1) by (simp_all add: kcp_ok_def layout_def)
  have room: "uint (mtu k - 24) = int (unat (mtu k)) - 24"
    using lay by (intro unat_room(2) [of 0]) simp
  define b where "b = (0 \<le> n \<and> n + IKCP_OVERHEAD < int (unat (mtu k)))"
  define k1 where "k1 = (if b then k\<lparr>reserved := nat n, mss := mtu k - 24 - word_of_int n\<rparr> else k)"
  have res: "ReserveBytes n k = (b, k1)"
    using room by (auto simp: ReserveBytes_def k1_def b_def)
  have mss1: "unat (mss k1) + IKCP_OVERHEAD + reserved k1 = unat (mtu k1) \<and> 0 < unat (mss k1)
      \<and> mtu k1 = mtu k \<and> buffer k1 = buffer k"
  proof (cases b)
    case True
    then have n: "0 \<le> n" "n + 24 < int (unat (mtu k))" by (simp_all add: b_def)
    then have "int (nat n + 24) < int (unat (mtu k))" by (simp del: of_nat_unat)
    then have "nat n + 24 < unat (mtu k)" by (simp only: of_nat_less_iff)
    moreover have "(word_of_int n :: u32) = of_nat (nat n)" using n by simp
    ultimately have "nat n + 24 < unat (mtu k)" "(word_of_int n :: u32) = of_nat (nat n)" .
    with True show ?thesis
      using unat_room(1) [of "nat n" "mtu k"] by (simp add: k1_def)
  next
    case False
    with lay show ?thesis by (simp add: k1_def)
  qed
  have others: "send_inv k1 = send_inv k" "recv_inv k1 = recv_inv k" "snd_buf k1 = []"
    "snd_queue k1 = []" "snd_wnd k1 = snd_wnd k" "interval k1 = interval k"
    using assms(2,3) by (simp_all add: k1_def send_inv_def recv_inv_def)
  have ok1: "kcp_ok k1"
    using assms(1) mss1 others lay by (simp add: kcp_ok_def layout_def fits_def)
  have b1: "if b then int (unat (mss k1)) = int (unat (mtu k)) - IKCP_OVERHEAD - n else k1 = k"
    using mss1 by (auto simp: b_def k1_def simp del: of_nat_unat)
  have "\<exists>k2. SetMtu m k1 = (0, k2) \<and> kcp_ok k2 \<and> int (unat (mtu k2)) = m
             \<and> int (unat (mss k2)) = m - IKCP_OVERHEAD - int (reserved k1)"
    if m: "50 \<le> m" "m \<le> mtuLimit" "IKCP_OVERHEAD + int (reserved k1) < m"
  proof -
    have room1: "uint (mtu k1 - 24) = int (unat (mtu k1)) - 24"
      using mss1 by (intro unat_room(2) [of 0]) linarith
    define t where "t = (word_of_int m :: u32)"
    have t: "unat t = nat m"
      using m by (simp add: t_def unsigned_of_int take_bit_int_eq_self)
    let ?k2 = "k1\<lparr>mtu := t, mss := t - 24 - of_nat (reserved k1), buffer := replicate (nat m) 0\<rparr>"
    have set: "SetMtu m k1 = (0, ?k2)"
    proof -
      have "int (reserved k1) < int (unat (mtu k1)) - 24"
        using mss1 by linarith
      with m room1 show ?thesis by (simp add: SetMtu_def t_def Let_def)
    qed
    have mss2: "unat (t - 24 - of_nat (reserved k1)) = nat m - 24 - reserved k1"
      using m t unat_room(1) [of "reserved k1" t] by simp
    have "nat m \<le> 1500" "24 + reserved k1 < nat m" using m by linarith+
    then have "kcp_ok ?k2"
      using ok1 t mss2 others by (simp add: kcp_ok_def layout_def send_inv_def recv_inv_def fits_def)
    with set t mss2 m show ?thesis by (auto simp del: of_nat_unat)
  qed
  with res ok1 b1 show ?thesis unfolding b_def by blast
qed

theorem reserve_mtu_layout_witness:
  "\<exists>b k1. ReserveBytes 28 (NewKCP 5) = (b, k1) \<and> kcp_ok k1
     \<and> (b \<longleftrightarrow> 0 \<le> (28 :: int) \<and> 28 + IKCP_OVERHEAD < int (unat (mtu (NewKCP 5))))
     \<and> (if b then int (unat (mss k1)) = int (unat (mtu (NewKCP 5))) - IKCP_OVERHEAD - 28 else k1 = NewKCP 5)
     \<and> (50 \<le> (1200 :: int) \<and> 1200 \<le> (mtuLimit :: int) \<and> IKCP_OVERHEAD + int (reserved k1) < 1200 \<longrightarrow>
          (\<exists>k2. SetMtu 1200 k1 = (0, k2) \<and> kcp_ok k2 \<and> int (unat (mtu k2)) = 1200
             \<and> int (unat (mss k2)) = 1200 - IKCP_OVERHEAD - int (reserved k1)))"
  by (rule reserve_mtu_layout [OF kcp_ok_NewKCP]) simp_all

text \<open>\<open>SetMtu\<close> checks the reserved prefix against the old MTU and ignores queued data. With
  a prefix of 28 bytes (nonce, checksum and FEC header have that order of size) it accepts an
  MTU of 50, and the segment size wraps around to \<open>2^32 - 2\<close>; and after it accepts an MTU of
  100 with a segment of 200 bytes queued, the next flush panics.\<close>

theorem SetMtu_accepts_too_small:
  "fst (SetMtu 50 (snd (ReserveBytes 28 (NewKCP 1)))) = 0
     \<and> mss (snd (SetMtu 50 (snd (ReserveBytes 28 (NewKCP 1))))) = - 2
     \<and> fst (SetMtu 100 ((NewKCP 1)\<lparr>cwnd := 1, snd_queue := [segment0\<lparr>seg_data := replicate 200 7\<rparr>]\<rparr>)) = 0
     \<and> flush (\<lambda>_. 0) False (snd (SetMtu 100 ((NewKCP 1)\<lparr>cwnd := 1,
           snd_queue := [segment0\<lparr>seg_data := replicate 200 7\<rparr>]\<rparr>))) world0 = None"
  by (simp add: SetMtu_def ReserveBytes_def flush_def flush_seg_def probe_window_def flush_cmd_def
      flush_data_def flush_cwnd_def admit_def itimediff_def imin_def xmit_seg_def xmit_choose_def
      xmit_send_def currentMs_def makeSpace_def segment_encode_eq segment0_def ptr0_def Let_def
      remove_front_def go_copy_def NewKCP_def KCP0_def)

subsection \<open>Counters\<close>

text \<open>The counters: the columns of \<open>Header\<close> and \<open>ToSlice\<close> agree, each header names a
  counter of its own and stands above that counter's decimal value; a copy is equal and a reset
  leaves every counter zero.\<close>

theorem snmp_columns_agree:
  "ToSlice s = map (\<lambda>n. decimal (unat (the (map_of snmp_columns n) s))) Header
     \<and> distinct Header \<and> set Header = fst ` set snmp_columns
     \<and> Copy s = s \<and> map (\<lambda>(n, f). f (Reset s)) snmp_columns = replicate 24 0"
proof (intro conjI)
  show "ToSlice s = map (\<lambda>n. decimal (unat (the (map_of snmp_columns n) s))) Header"
    by (simp add: ToSlice_def Header_def snmp_columns_def Copy_id)
  show "distinct Header" by (simp add: Header_def)
  show "set Header = fst ` set snmp_columns" by (simp add: Header_def snmp_columns_def insert_commute)
  show "Copy s = s" by (rule Copy_id)
  show "map (\<lambda>(n, f). f (Reset s)) snmp_columns = replicate 24 0"
    by (simp add: snmp_columns_def Reset_def numeral_eq_Suc)
qed

end
