(* ===== verification/StreamClientFacts.thy ===== *)
theory StreamClientFacts
  imports StreamClient StreamConfigFacts KcpTiming "HOL-Library.Multiset"
begin

section \<open>What the stream client keeps\<close>

text \<open>
  A configured session satisfies the invariant of KCP; incoming connections go round the sessions
  and only to live ones; every session opened is in use, waiting for the scavenger or closed, and
  the scavenger closes no busy session before its time.
\<close>

subsection \<open>Configured sessions\<close>

lemma kcp_ok_stream [simp]: "kcp_ok (k\<lparr>stream := b\<rparr>) = kcp_ok k"
  by (simp add: kcp_ok_def layout_def send_inv_def recv_inv_def fits_def)

lemma SetMtu_ok:
  assumes "kcp_ok k" "snd_buf k = []" "snd_queue k = []"
    and "50 \<le> m" "m \<le> mtuLimit" "IKCP_OVERHEAD + int (reserved k) < m"
  shows "\<exists>k2. SetMtu m k = (0, k2) \<and> kcp_ok k2 \<and> int (unat (mtu k2)) = m
     \<and> int (unat (mss k2)) = m - IKCP_OVERHEAD - int (reserved k)"
proof -
  have "ReserveBytes (-1) k = (False, k)" by (simp add: ReserveBytes_def)
  then show ?thesis
    using reserve_mtu_layout [OF assms(1-3), of "-1" m] assms(4-6) by auto
qed

lemma SetMtu_others:
  "stream (snd (SetMtu m k)) = stream k" "interval (snd (SetMtu m k)) = interval k" "snd_wnd (snd (SetMtu m k)) = snd_wnd k"
  "rcv_wnd (snd (SetMtu m k)) = rcv_wnd k" "rx_minrto (snd (SetMtu m k)) = rx_minrto k"
  "fastresend (snd (SetMtu m k)) = fastresend k" "nocwnd (snd (SetMtu m k)) = nocwnd k"
  by (simp_all add: SetMtu_def Let_def)

lemma NoDelay_others:
  "stream (snd (NoDelay nd itv rs nc k)) = stream k" "fastresend (snd (NoDelay nd itv rs nc k)) = (if 0 \<le> rs then i32 rs else fastresend k)"
  "nocwnd (snd (NoDelay nd itv rs nc k)) = (if 0 \<le> nc then i32 nc else nocwnd k)" "rcv_wnd (snd (NoDelay nd itv rs nc k)) = rcv_wnd k"
  by (simp_all add: NoDelay_def Let_def)

lemma WndSize_others:
  "stream (snd (WndSize sw rw k)) = stream k" "fastresend (snd (WndSize sw rw k)) = fastresend k"
  "nocwnd (snd (WndSize sw rw k)) = nocwnd k" "rcv_wnd (snd (WndSize sw rw k)) = (if 0 < rw then word_of_int rw else rcv_wnd k)"
  by (simp_all add: WndSize_def Let_def)

lemma new_session_ok:
  assumes "0 \<le> h" "h \<le> 28"
  shows "kcp_ok (us_kcp (newUDPSession conv h))" "reserved (us_kcp (newUDPSession conv h)) = nat h"
    "snd_buf (us_kcp (newUDPSession conv h)) = []" "snd_queue (us_kcp (newUDPSession conv h)) = []"
proof -
  obtain b k1 where r: "ReserveBytes h (NewKCP conv) = (b, k1)" "kcp_ok k1"
    using reserve_mtu_layout [OF kcp_ok_NewKCP, of conv h 0] by auto
  then show "kcp_ok (us_kcp (newUDPSession conv h))" by (simp add: newUDPSession_def)
  show "reserved (us_kcp (newUDPSession conv h)) = nat h"
    "snd_buf (us_kcp (newUDPSession conv h)) = []" "snd_queue (us_kcp (newUDPSession conv h)) = []"
    using assms by (simp_all add: newUDPSession_def ReserveBytes_def)
qed

lemma session_header_range: "0 \<le> session_header b d p c" "session_header b d p c \<le> 28"
  by (simp_all add: session_header_def cryptHeaderSize_def fecHeaderSizePlus2_def)

text \<open>The settings as one description: the KCP state they lead to.\<close>

definition configured :: "int \<Rightarrow> int \<Rightarrow> int \<Rightarrow> int \<Rightarrow> int \<Rightarrow> int \<Rightarrow> KCP \<Rightarrow> bool" where
  "configured nd itv rs nc sw m k \<longleftrightarrow> kcp_ok k \<and> stream k = 1 \<and> int (unat (mtu k)) = m
     \<and> int (unat (interval k)) = max 10 (min itv 5000)
     \<and> rx_minrto k = (if nd = 0 then IKCP_RTO_MIN else IKCP_RTO_NDL)
     \<and> fastresend k = i32 rs \<and> nocwnd k = i32 nc \<and> int (unat (snd_wnd k)) = sw"

lemma configure_ok:
  assumes k: "kcp_ok k" "snd_buf k = []" "snd_queue k = []"
    and m: "50 \<le> m" "m \<le> mtuLimit" "IKCP_OVERHEAD + int (reserved k) < m"
    and par: "0 \<le> nd" "0 \<le> itv" "0 \<le> rs" "0 \<le> nc" "0 < sw" "sw < 2 ^ 31"
  shows "configured nd itv rs nc sw m (snd (SetMtu m (snd (WndSize sw rw (snd (NoDelay nd itv rs nc (k\<lparr>stream := 1\<rparr>)))))))"
proof -
  let ?k0 = "k\<lparr>stream := 1\<rparr>"
  let ?k1 = "snd (NoDelay nd itv rs nc ?k0)"
  let ?k2 = "snd (WndSize sw rw ?k1)"
  have ok: "kcp_ok ?k2" "rx_minrto ?k2 = (if nd = 0 then IKCP_RTO_MIN else IKCP_RTO_NDL)" "int (unat (snd_wnd ?k2)) = sw"
    using configure_keeps_ok [of ?k0 sw nd itv rs nc rw] k(1) par by auto
  have same: "snd_buf ?k2 = []" "snd_queue ?k2 = []" "reserved ?k2 = reserved k"
    using k by (simp_all add: NoDelay_sel WndSize_sel)
  obtain k3 where k3: "SetMtu m ?k2 = (0, k3)" "kcp_ok k3" "int (unat (mtu k3)) = m"
    using SetMtu_ok [OF ok(1) same(1,2)] m same(3) by auto
  have "int (unat (interval ?k2)) = max 10 (min itv 5000)"
  proof -
    have "0 \<le> max 10 (min itv 5000)" "max 10 (min itv 5000) < 2 ^ 32" by auto
    then show ?thesis
      using par by (simp add: NoDelay_sel WndSize_sel unsigned_of_int take_bit_int_eq_self)
  qed
  then show ?thesis
    using k3 ok par SetMtu_others [of m ?k2] by (simp add: configured_def NoDelay_others WndSize_others)
qed

subsection \<open>Going round the sessions\<close>

definition all_sessions :: "stream_client \<Rightarrow> nat list" where
  "all_sessions s = map mux_session (st_muxes s) @ st_chan s @ map fst (st_list s) @ st_closed s"

definition fleet_ok :: "stream_client \<Rightarrow> bool" where
  "fleet_ok s \<longleftrightarrow> length (st_muxes s) = unat (numconn (st_cfg s)) \<and> 0 < numconn (st_cfg s)
     \<and> mset (all_sessions s) = mset [0..<st_next s]"

datatype stream_event =
    Incoming "nat \<Rightarrow> bool" int "attempt list" int
  | ScavengerRecv int
  | ScavengerTick "nat \<Rightarrow> nat \<times> bool" int

text \<open>An event leads to a new state and perhaps the session a connection is handed to.\<close>

fun stream_do :: "stream_event \<Rightarrow> stream_client \<Rightarrow> (stream_client \<times> nat list) option" where
  "stream_do (Incoming isClosed now as now') s = (case stream_accept isClosed now as now' s of
     HandledBy sess s' \<Rightarrow> Some (s', [sess]) | _ \<Rightarrow> None)"
| "stream_do (ScavengerRecv now) s = Some (scavenger_recv now s, [])"
| "stream_do (ScavengerTick status now) s = Some (scavenger_tick status now s, [])"

fun stream_run :: "stream_event list \<Rightarrow> stream_client \<Rightarrow> (stream_client \<times> nat list) option" where
  "stream_run [] s = Some (s, [])"
| "stream_run (e # es) s = do {
     (s, hs) \<leftarrow> stream_do e s;
     (s, hs') \<leftarrow> stream_run es s;
     Some (s, hs @ hs')
   }"

lemma idx_in_range:
  assumes "0 < (n :: u16)"
  shows "unat (r mod n) < unat n"
proof -
  have "0 < unat n" using assms by (simp add: word_less_nat_alt)
  then show ?thesis by (simp add: unat_mod)
qed

lemma accept_cases:
  assumes "stream_accept isClosed now as now' s = HandledBy sess s'"
  obtains (same) i where "i = unat (st_rr s mod numconn (st_cfg s))" "\<not> mux_stale (st_cfg s) isClosed now (st_muxes s ! i)"
      "sess = mux_session (st_muxes s ! i)" "s' = s\<lparr>st_rr := st_rr s + 1\<rparr>"
  | (fresh) i lost where "i = unat (st_rr s mod numconn (st_cfg s))" "mux_stale (st_cfg s) isClosed now (st_muxes s ! i)"
      "waitConn as = Some lost" "sess = st_next s"
      "s' = s\<lparr>st_chan := st_chan s @ [mux_session (st_muxes s ! i)],
         st_muxes := (st_muxes s)[i := \<lparr>mux_session = st_next s, mux_ttl = now' + seconds (kc_AutoExpire (st_cfg s))\<rparr>],
         st_next := st_next s + 1, st_left_open := st_left_open s + lost, st_rr := st_rr s + 1\<rparr>"
  using assms by (auto simp: stream_accept_def retire_session_def fill_slot_def Let_def split: if_splits option.splits)

text \<open>What the scavenger does while the loop waits for a connection.\<close>

lemma scavenger_commutes:
  "scavenger_recv t (fill_slot idx now lost s) = fill_slot idx now lost (scavenger_recv t s)"
  "scavenger_tick status t (fill_slot idx now lost s) = fill_slot idx now lost (scavenger_tick status t s)"
  by (simp_all add: scavenger_recv_def scavenger_tick_def fill_slot_def split: list.split prod.split)

lemma stream_accept_ok:
  assumes ok: "fleet_ok s" and r: "stream_accept isClosed now as now' s = HandledBy sess s'"
  shows "fleet_ok s'"
  using r
proof (cases rule: accept_cases)
  case (same i)
  then show ?thesis using ok by (simp add: fleet_ok_def all_sessions_def)
next
  case (fresh i lost)
  have i: "i < length (st_muxes s)"
    using ok idx_in_range by (simp add: fleet_ok_def fresh(1))
  have "mset (all_sessions s') = add_mset (st_next s) (mset (all_sessions s))"
    using i by (simp add: all_sessions_def fresh(5) map_update mset_update)
  then show ?thesis using ok by (simp add: fleet_ok_def fresh(5))
qed

lemma scavenge_loop_perm:
  "scavenge_loop status ttl now xs = (keep, closed) \<Longrightarrow>
     mset (map fst keep) + mset closed = mset (map fst xs)"
  by (induction xs arbitrary: keep closed) (auto simp: Let_def split: prod.splits if_splits)

lemma stream_do_ok:
  assumes "fleet_ok s" "stream_do e s = Some (s', hs)"
  shows "fleet_ok s'"
proof (cases e)
  case (Incoming isClosed now as now')
  then show ?thesis
    using assms stream_accept_ok by (auto split: accepted.splits)
next
  case (ScavengerRecv now)
  then show ?thesis
    using assms by (cases "st_chan s") (auto simp: scavenger_recv_def fleet_ok_def all_sessions_def)
next
  case (ScavengerTick status now)
  obtain keep closed where l: "scavenge_loop status (kc_ScavengeTTL (st_cfg s)) now (st_list s) = (keep, closed)"
    by (metis surj_pair)
  have "s' = s\<lparr>st_list := keep, st_closed := st_closed s @ closed\<rparr>"
    using assms(2) by (auto simp: ScavengerTick scavenger_tick_def l)
  moreover have "mset (map fst keep) + mset (st_closed s @ closed) = mset (map fst (st_list s)) + mset (st_closed s)"
    using scavenge_loop_perm [OF l] by (metis mset_append add.commute add.left_commute)
  then have "mset (all_sessions s') = mset (all_sessions s)"
    unfolding calculation all_sessions_def mset_append by (simp add: ac_simps)
  ultimately show ?thesis using assms(1) by (simp add: fleet_ok_def)
qed

lemma stream_run_ok:
  "fleet_ok s \<Longrightarrow> stream_run es s = Some (s', hs) \<Longrightarrow> fleet_ok s'"
proof (induction es arbitrary: s hs)
  case (Cons e es)
  obtain s1 h1 h2 where 1: "stream_do e s = Some (s1, h1)" "stream_run es s1 = Some (s', h2)"
    using Cons.prems(2) by (auto simp: bind_eq_Some_conv)
  show ?case by (rule Cons.IH [OF stream_do_ok [OF Cons.prems(1) 1(1)] 1(2)])
qed simp

lemma open_muxes_ok:
  assumes "open_muxes config n xs s = Some s'"
  shows "length (st_muxes s') = length (st_muxes s) + n \<and> st_cfg s' = st_cfg s \<and> st_next s' = st_next s + n
    \<and> mset (all_sessions s') = mset (all_sessions s) + mset [st_next s..<st_next s + n] \<and> st_rr s' = st_rr s
    \<and> st_chan s' = st_chan s \<and> st_list s' = st_list s \<and> st_closed s' = st_closed s"
  using assms
proof (induction config n xs s rule: open_muxes.induct)
  case (3 config n as now xs s)
  obtain lost where lost: "waitConn as = Some lost" using 3 by (auto simp: bind_eq_Some_conv)
  have "[st_next s..<Suc (st_next s + n)] = st_next s # [Suc (st_next s)..<Suc (st_next s + n)]"
    by (simp add: upt_conv_Cons)
  then show ?case using 3 by (auto simp: lost all_sessions_def)
qed auto

lemma stream_start_ok:
  assumes "stream_start config xs = Some s" "0 < numconn config"
  shows "fleet_ok s" "st_rr s = 0" "st_cfg s = config" "st_next s = unat (numconn config)" "st_chan s = []"
proof -
  obtain s0 where s0: "open_muxes config (unat (numconn config)) xs s0 = Some s" "st_muxes s0 = []" "st_rr s0 = 0"
      "st_chan s0 = []" "st_list s0 = []" "st_closed s0 = []" "st_next s0 = 0" "st_cfg s0 = config"
    using assms(1) by (simp add: stream_start_def)
  note o = open_muxes_ok [OF s0(1)]
  show "st_rr s = 0" "st_cfg s = config" "st_next s = unat (numconn config)" "st_chan s = []"
    using o s0 by simp_all
  show "fleet_ok s"
    using o s0 assms(2) by (simp add: fleet_ok_def) (simp add: all_sessions_def)
qed

text \<open>C23. No session is lost: after every turn of the accepting loop and of the scavenger, in every run, each multiplexed session \<open>createConn\<close>
  ever returned is in exactly one place, in use for new connections, in the channel to the
  scavenger, in the scavenger's list, or closed, and as many are in use as connections were asked
  for.
\<close>

theorem sessions_accounted:
  assumes "stream_start config xs = Some s0" "0 < numconn config" "stream_run es s0 = Some (s, hs)"
  shows "length (st_muxes s) = unat (numconn (st_cfg s))
    \<and> mset (map mux_session (st_muxes s)) + mset (st_chan s) + mset (map fst (st_list s)) + mset (st_closed s)
      = mset [0..<st_next s]"
  using stream_run_ok [OF stream_start_ok(1) [OF assms(1,2)] assms(3)]
  by (simp add: fleet_ok_def all_sessions_def add.assoc)

definition sample_client_config :: client_Config where
  "sample_client_config = client_mode
     \<lparr>kc_LocalAddr = '':12948'', kc_RemoteAddr = ''vps:29900'', kc_Key = default_key, kc_Crypt = ''aes'', kc_Mode = ''fast'',
      kc_Conn = 2, kc_AutoExpire = 0, kc_ScavengeTTL = 600, kc_MTU = 1350, kc_SndWnd = 128, kc_RcvWnd = 512,
      kc_DataShard = 10, kc_ParityShard = 3, kc_DSCP = 0, kc_NoComp = False, kc_AckNodelay = False, kc_NoDelay = 0,
      kc_Interval = 50, kc_Resend = 0, kc_NoCongestion = 0, kc_SockBuf = 4194304, kc_SmuxBuf = 4194304,
      kc_KeepAlive = 10, kc_Log = [], kc_SnmpLog = [], kc_SnmpPeriod = 60, kc_Quiet = False, kc_TCP = False,
      kc_TCPMark = DefaultMark\<rparr>"

lemma sample_conns: "numconn sample_client_config = 2" "kc_AutoExpire sample_client_config = 0"
  by (simp_all add: numconn_def sample_client_config_def client_mode_def)

definition sample_fleet :: stream_client where
  "sample_fleet = \<lparr>st_cfg = sample_client_config,
     st_muxes = [\<lparr>mux_session = 0, mux_ttl = 5\<rparr>, \<lparr>mux_session = 1, mux_ttl = 6\<rparr>], st_rr = 0, st_chan = [], st_list = [],
     st_closed = [], st_next = 2, st_left_open = 0\<rparr>"

lemma sample_start: "stream_start sample_client_config [([Connects], 5), ([DialFails, Connects], 6)] = Some sample_fleet"
proof -
  have "unat (numconn sample_client_config) = Suc (Suc 0)" by (simp add: sample_conns)
  then show ?thesis
    unfolding stream_start_def by (simp only:) (simp add: sample_fleet_def seconds_def sample_conns)
qed

theorem sessions_accounted_witness:
  "\<exists>s hs. stream_run [Incoming (\<lambda>s. s = 0) 10 [Connects] 11, ScavengerRecv 12, Incoming (\<lambda>s. s = 0) 13 [] 13] sample_fleet = Some (s, hs)
    \<and> mset (map mux_session (st_muxes s)) + mset (st_chan s) + mset (map fst (st_list s)) + mset (st_closed s) = mset [0..<3]"
proof -
  let ?s = "\<lparr>st_cfg = sample_client_config,
     st_muxes = [\<lparr>mux_session = 2, mux_ttl = 11\<rparr>, \<lparr>mux_session = 1, mux_ttl = 6\<rparr>], st_rr = 2, st_chan = [], st_list = [(0, 12)],
     st_closed = [], st_next = 3, st_left_open = 0\<rparr>"
  have run: "stream_run [Incoming (\<lambda>s. s = 0) 10 [Connects] 11, ScavengerRecv 12, Incoming (\<lambda>s. s = 0) 13 [] 13] sample_fleet = Some (?s, [2, 1])"
    by (simp add: sample_fleet_def stream_accept_def retire_session_def fill_slot_def sample_conns mux_stale_def scavenger_recv_def seconds_def)
  have "0 < numconn sample_client_config" by (simp add: sample_conns)
  from sessions_accounted [OF sample_start this run] show ?thesis
    by (intro exI [of _ ?s] exI [of _ "[2, 1]"] conjI run) simp
qed

lemma stream_do_rr:
  assumes "stream_do e s = Some (s', hs)"
  shows "st_rr s' = st_rr s + of_nat (length hs) \<and> st_cfg s' = st_cfg s"
proof (cases e)
  case (Incoming isClosed now as now')
  then obtain sess where a: "stream_accept isClosed now as now' s = HandledBy sess s'" "hs = [sess]"
    using assms by (auto split: accepted.splits)
  from a(1) show ?thesis by (rule accept_cases) (simp_all add: a(2))
next
  case (ScavengerRecv now)
  then show ?thesis using assms by (auto simp: scavenger_recv_def split: list.splits)
next
  case (ScavengerTick status now)
  then show ?thesis using assms by (auto simp: scavenger_tick_def split: prod.splits)
qed

lemma stream_run_rr:
  "stream_run es s = Some (s', hs) \<Longrightarrow> st_rr s' = st_rr s + of_nat (length hs) \<and> st_cfg s' = st_cfg s"
proof (induction es arbitrary: s hs)
  case (Cons e es)
  obtain s1 h1 h2 where 1: "stream_do e s = Some (s1, h1)" "stream_run es s1 = Some (s', h2)" "hs = h1 @ h2"
    using Cons.prems by (auto simp: bind_eq_Some_conv)
  show ?case using stream_do_rr [OF 1(1)] Cons.IH [OF 1(2)] by (simp add: 1(3))
qed simp

text \<open>C30. Incoming connections go round the sessions: the \<open>k\<close>-th of a run (counted modulo \<open>2^16\<close>) is
  handed to slot \<open>k mod conn\<close>. It gets the session that is there unless that is closed or past its
  expiry time; then that session goes to the scavenger and the slot, and the connection, get a new
  one. No other slot changes.
\<close>

theorem round_robin:
  assumes "stream_start config xs = Some s0" "0 < numconn config" "stream_run es s0 = Some (s, hs)"
    and "stream_accept isClosed now as now' s = HandledBy sess s'"
    and "k = (length hs mod 65536) mod unat (numconn config)"
  shows "k < length (st_muxes s) \<and> mux_session (st_muxes s' ! k) = sess
    \<and> (\<forall>j. j \<noteq> k \<longrightarrow> st_muxes s' ! j = st_muxes s ! j)
    \<and> (if isClosed (mux_session (st_muxes s ! k)) \<or> kc_AutoExpire config > 0 \<and> now > mux_ttl (st_muxes s ! k)
       then sess \<notin> set (all_sessions s) \<and> st_chan s' = st_chan s @ [mux_session (st_muxes s ! k)]
       else sess = mux_session (st_muxes s ! k) \<and> st_chan s' = st_chan s)"
proof -
  note st = stream_start_ok [OF assms(1,2)]
  have cfg: "st_cfg s = config" and rr: "st_rr s = of_nat (length hs)"
    using stream_run_rr [OF assms(3)] st(2,3) by simp_all
  have ok: "fleet_ok s" using stream_run_ok [OF st(1) assms(3)] .
  have k: "k = unat (st_rr s mod numconn (st_cfg s))"
    using assms(5) by (simp add: unat_mod cfg rr unat_of_nat take_bit_eq_mod)
  have lt: "k < length (st_muxes s)"
    using idx_in_range ok by (simp add: k fleet_ok_def)
  have new: "st_next s \<notin> set (all_sessions s)"
  proof -
    have "set (all_sessions s) = set [0..<st_next s]"
      using ok by (metis fleet_ok_def set_mset_mset)
    then show ?thesis by simp
  qed
  from assms(4) show ?thesis
  proof (cases rule: accept_cases)
    case (same i)
    have "i = k" using same(1) k by simp
    then show ?thesis using lt same by (auto simp: mux_stale_def cfg)
  next
    case (fresh i lost)
    have "i = k" using fresh(1) k by simp
    then show ?thesis using lt new fresh(2) unfolding fresh(4,5) by (simp add: mux_stale_def cfg)
  qed
qed

theorem round_robin_witness:
  "\<exists>s'. stream_accept (\<lambda>s. s = 0) 10 [MuxFails, Connects] 11 sample_fleet = HandledBy 2 s' \<and> mux_session (st_muxes s' ! 0) = 2
     \<and> st_chan s' = [0]"
proof -
  have "\<exists>s'. stream_accept (\<lambda>s. s = 0) 10 [MuxFails, Connects] 11 sample_fleet = HandledBy 2 s'"
    by (simp add: sample_fleet_def stream_accept_def retire_session_def sample_conns mux_stale_def)
  then obtain s' where s': "stream_accept (\<lambda>s. s = 0) 10 [MuxFails, Connects] 11 sample_fleet = HandledBy 2 s'" by blast
  have "0 < numconn sample_client_config" by (simp add: sample_conns)
  from round_robin [OF sample_start this, of "[]" sample_fleet "[]", OF _ s' refl] s' show ?thesis
    by (simp add: sample_fleet_def)
qed

text \<open>C31. The accepting loop panics (a remainder by zero) exactly when the number of connections in
  force is a multiple of \<open>2^16\<close>, zero included; it waits exactly when the slot's session must be
  replaced and the channel to the scavenger is full, with nothing changed, or no attempt to connect
  succeeds, with the old session in the channel and still in its slot; in every other case the connection is handed to a session.
\<close>

theorem accept_outcomes:
  "case stream_accept isClosed now as now' s of
     Panicked \<Rightarrow> kc_Conn (st_cfg s) mod 65536 = 0
   | Waiting s' \<Rightarrow> kc_Conn (st_cfg s) mod 65536 \<noteq> 0
       \<and> mux_stale (st_cfg s) isClosed now (st_muxes s ! unat (st_rr s mod numconn (st_cfg s)))
       \<and> (if length (st_chan s) < 128 then Connects \<notin> set as
            \<and> s' = s\<lparr>st_chan := st_chan s @ [mux_session (st_muxes s ! unat (st_rr s mod numconn (st_cfg s)))]\<rparr>
          else s' = s)
   | HandledBy _ _ \<Rightarrow> kc_Conn (st_cfg s) mod 65536 \<noteq> 0
       \<and> (if mux_stale (st_cfg s) isClosed now (st_muxes s ! unat (st_rr s mod numconn (st_cfg s)))
          then length (st_chan s) < 128 \<and> Connects \<in> set as else True)"
proof -
  have wait: "waitConn as = None \<longleftrightarrow> Connects \<notin> set as"
    by (induction as rule: waitConn.induct) auto
  have conn: "numconn (st_cfg s) = 0 \<longleftrightarrow> kc_Conn (st_cfg s) mod 65536 = 0"
    by (simp add: numconn_def word_of_int_eq_0_iff dvd_eq_mod_eq_0)
  show ?thesis
    using wait by (cases "waitConn as") (auto simp: stream_accept_def retire_session_def Let_def conn [symmetric] not_le)
qed

text \<open>\<open>waitConn\<close> returns exactly when some attempt connects, with the first that does; every
  earlier attempt the multiplexer refused has left its KCP session open.
\<close>

theorem waitConn_spec:
  "waitConn as = (if Connects \<in> set as
     then Some (length (filter (\<lambda>a. a = MuxFails) (takeWhile (\<lambda>a. a \<noteq> Connects) as))) else None)"
  by (induction as rule: waitConn.induct) auto

subsection \<open>Retiring sessions\<close>

definition keeps :: "(nat \<Rightarrow> nat \<times> bool) \<Rightarrow> int \<Rightarrow> int \<Rightarrow> nat \<times> int \<Rightarrow> bool" where
  "keeps status ttl now x \<longleftrightarrow> 0 < fst (status (fst x)) \<and> \<not> snd (status (fst x)) \<and> (ttl < 0 \<or> now - snd x < seconds ttl)"

lemma scavenge_loop_eq:
  "scavenge_loop status ttl now xs = (filter (keeps status ttl now) xs, map fst (filter (\<lambda>x. \<not> keeps status ttl now x) xs))"
  by (induction xs) (auto simp: keeps_def scavenge_idle_def scavenge_late_def)

text \<open>A tick of the scavenger closes exactly the retired sessions that carry no stream, are closed
  already, or have been retired for \<open>scavengettl\<close> seconds, and leaves all others as they are; with a
  negative \<open>scavengettl\<close> no open session with a stream is ever closed.
\<close>

theorem scavenger_tick_spec:
  "st_list (scavenger_tick status now s)
      = filter (\<lambda>(sess, ts). 0 < fst (status sess) \<and> \<not> snd (status sess)
          \<and> (kc_ScavengeTTL (st_cfg s) < 0 \<or> now - ts < kc_ScavengeTTL (st_cfg s) * 1000000000)) (st_list s)
    \<and> st_closed (scavenger_tick status now s)
      = st_closed s @ map fst (filter (\<lambda>(sess, ts). fst (status sess) = 0 \<or> snd (status sess)
          \<or> (0 \<le> kc_ScavengeTTL (st_cfg s) \<and> kc_ScavengeTTL (st_cfg s) * 1000000000 \<le> now - ts)) (st_list s))
    \<and> st_muxes (scavenger_tick status now s) = st_muxes s \<and> st_chan (scavenger_tick status now s) = st_chan s"
proof -
  have 1: "filter (keeps status (kc_ScavengeTTL (st_cfg s)) now) (st_list s)
      = filter (\<lambda>(sess, ts). 0 < fst (status sess) \<and> \<not> snd (status sess)
          \<and> (kc_ScavengeTTL (st_cfg s) < 0 \<or> now - ts < kc_ScavengeTTL (st_cfg s) * 1000000000)) (st_list s)"
    by (rule filter_cong) (auto simp: keeps_def seconds_def)
  have 2: "filter (\<lambda>x. \<not> keeps status (kc_ScavengeTTL (st_cfg s)) now x) (st_list s)
      = filter (\<lambda>(sess, ts). fst (status sess) = 0 \<or> snd (status sess)
          \<or> (0 \<le> kc_ScavengeTTL (st_cfg s) \<and> kc_ScavengeTTL (st_cfg s) * 1000000000 \<le> now - ts)) (st_list s)"
    by (rule filter_cong) (auto simp: keeps_def seconds_def)
  show ?thesis by (simp add: scavenger_tick_def scavenge_loop_eq 1 2)
qed

text \<open>C32. Retired sessions do get closed: once the scavenger has taken what is in the channel and
  \<open>scavengettl\<close> seconds have passed, its next tick leaves no retired session open, even if they
  all still carry streams.
\<close>

theorem retired_sessions_close:
  assumes "0 \<le> kc_ScavengeTTL (st_cfg s)" "\<forall>x \<in> set (st_list s). snd x \<le> t"
    and "now - t \<ge> seconds (kc_ScavengeTTL (st_cfg s))"
    and "s' = scavenger_tick status now ((scavenger_recv t ^^ length (st_chan s)) s)"
  shows "st_list s' = [] \<and> st_chan s' = [] \<and> st_closed s' = st_closed s @ map fst (st_list s) @ st_chan s"
proof -
  have recv: "(scavenger_recv t ^^ length c) (s\<lparr>st_chan := c, st_list := l\<rparr>)
      = s\<lparr>st_chan := [], st_list := l @ map (\<lambda>x. (x, t)) c\<rparr>" for c l
    by (induction c arbitrary: l) (simp_all add: funpow_swap1 scavenger_recv_def del: funpow.simps(2) add: funpow_Suc_right)
  have "(scavenger_recv t ^^ length (st_chan s)) s = s\<lparr>st_chan := [], st_list := st_list s @ map (\<lambda>x. (x, t)) (st_chan s)\<rparr>"
    using recv [of "st_chan s" "st_list s"] by simp
  moreover have "\<not> keeps status (kc_ScavengeTTL (st_cfg s)) now x"
    if "x \<in> set (st_list s @ map (\<lambda>x. (x, t)) (st_chan s))" for x
  proof -
    have "snd x \<le> t" using assms(2) that by auto
    then show ?thesis using assms(1,3) by (simp add: keeps_def)
  qed
  ultimately show ?thesis
    using assms(4) by (simp add: scavenger_tick_def scavenge_loop_eq filter_empty_conv filter_id_conv comp_def)
qed

theorem retired_sessions_close_witness:
  "st_closed (scavenger_tick (\<lambda>_. (1, False)) (601 * 1000000000)
      ((scavenger_recv 7 ^^ 1) (sample_fleet\<lparr>st_chan := [1], st_list := [(0, 3)]\<rparr>))) = [0, 1]"
proof -
  let ?s = "sample_fleet\<lparr>st_chan := [1], st_list := [(0, 3)]\<rparr>"
  have "kc_ScavengeTTL (st_cfg ?s) = 600"
    by (simp add: sample_fleet_def sample_client_config_def client_mode_def)
  then have c: "0 \<le> kc_ScavengeTTL (st_cfg ?s)" "seconds (kc_ScavengeTTL (st_cfg ?s)) \<le> 601 * 1000000000 - 7"
    by (simp_all add: seconds_def)
  have l: "\<forall>x \<in> set (st_list ?s). snd x \<le> 7" "length (st_chan ?s) = 1" by simp_all
  from retired_sessions_close [OF c(1) l(1) c(2) refl, of "\<lambda>_. (1, False)"]
  show ?thesis unfolding l(2) by (simp add: sample_fleet_def)
qed

subsection \<open>The statistics log\<close>

text \<open>Traffic adds to every counter; a tick of the logger writes a row and resets.\<close>

definition snmp_add :: "Snmp \<Rightarrow> Snmp \<Rightarrow> Snmp" where
  "snmp_add a b =
     \<lparr>BytesSent = BytesSent a + BytesSent b, BytesReceived = BytesReceived a + BytesReceived b, MaxConn = MaxConn a + MaxConn b,
      ActiveOpens = ActiveOpens a + ActiveOpens b, PassiveOpens = PassiveOpens a + PassiveOpens b,
      CurrEstab = CurrEstab a + CurrEstab b, InErrs = InErrs a + InErrs b, InCsumErrors = InCsumErrors a + InCsumErrors b,
      KCPInErrors = KCPInErrors a + KCPInErrors b, InPkts = InPkts a + InPkts b, OutPkts = OutPkts a + OutPkts b,
      InSegs = InSegs a + InSegs b, OutSegs = OutSegs a + OutSegs b, InBytes = InBytes a + InBytes b,
      OutBytes = OutBytes a + OutBytes b, RetransSegs = RetransSegs a + RetransSegs b,
      FastRetransSegs = FastRetransSegs a + FastRetransSegs b, EarlyRetransSegs = EarlyRetransSegs a + EarlyRetransSegs b,
      LostSegs = LostSegs a + LostSegs b, RepeatSegs = RepeatSegs a + RepeatSegs b, FECRecovered = FECRecovered a + FECRecovered b,
      FECErrs = FECErrs a + FECErrs b, FECParityShards = FECParityShards a + FECParityShards b,
      FECShortShards = FECShortShards a + FECShortShards b\<rparr>"

datatype snmp_event = Traffic Snmp | Logged nat

fun snmp_log_run :: "snmp_event list \<Rightarrow> string list list \<times> Snmp \<Rightarrow> (string list list \<times> Snmp) option" where
  "snmp_log_run [] st = Some st"
| "snmp_log_run (Traffic d # es) (rows, s) = snmp_log_run es (rows, snmp_add s d)"
| "snmp_log_run (Logged unix # es) (rows, s) = Option.bind (snmp_tick True unix rows s) (snmp_log_run es)"

fun traffic :: "snmp_event list \<Rightarrow> Snmp list" where
  "traffic [] = []"
| "traffic (Traffic d # es) = d # traffic es"
| "traffic (Logged _ # es) = traffic es"

lemma column_add:
  assumes "(n, f) \<in> set snmp_columns"
  shows "f (snmp_add a b) = f a + f b" "f newSnmp = 0"
  using assms by (auto simp: snmp_columns_def snmp_add_def newSnmp_def)

definition log_row :: "nat \<times> Snmp \<Rightarrow> string list" where
  "log_row x = decimal (fst x) # ToSlice (snd x)"

lemma snmp_log_sum:
  assumes "rows = (if snaps = [] then [] else (''Unix'' # Header) # map log_row snaps)"
  shows "\<exists>snaps' s'. snmp_log_run es (rows, s) = Some (if snaps' = [] then [] else (''Unix'' # Header) # map log_row snaps', s')
     \<and> (\<forall>(n, f) \<in> set snmp_columns. sum_list (map (\<lambda>x. f (snd x)) snaps') + f s'
          = sum_list (map (\<lambda>x. f (snd x)) snaps) + f s + sum_list (map f (traffic es)))"
  using assms
proof (induction es arbitrary: rows snaps s)
  case Nil
  then show ?case by (intro exI [of _ snaps] exI [of _ s]) auto
next
  case (Cons e es)
  show ?case
  proof (cases e)
    case (Traffic d)
    from Cons.IH [OF Cons.prems, of "snmp_add s d"] obtain snaps' s' where
      "snmp_log_run es (rows, snmp_add s d) = Some (if snaps' = [] then [] else (''Unix'' # Header) # map log_row snaps', s')"
      "\<forall>(n, f) \<in> set snmp_columns. sum_list (map (\<lambda>x. f (snd x)) snaps') + f s'
          = sum_list (map (\<lambda>x. f (snd x)) snaps) + f (snmp_add s d) + sum_list (map f (traffic es))"
      by blast
    then show ?thesis
      by (intro exI [of _ snaps'] exI [of _ s']) (auto simp: Traffic column_add add.assoc dest!: bspec)
  next
    case (Logged unix)
    define rows1 where "rows1 = (''Unix'' # Header) # map log_row (snaps @ [(unix, s)])"
    have tick: "snmp_tick True unix rows s = Some (rows1, Reset s)"
      using Cons.prems by (auto simp: snmp_tick_def rows1_def log_row_def)
    have "rows1 = (if snaps @ [(unix, s)] = [] then [] else (''Unix'' # Header) # map log_row (snaps @ [(unix, s)]))"
      by (simp add: rows1_def)
    from Cons.IH [OF this, of "Reset s"] obtain snaps' s' where
      "snmp_log_run es (rows1, Reset s) = Some (if snaps' = [] then [] else (''Unix'' # Header) # map log_row snaps', s')"
      "\<forall>(n, f) \<in> set snmp_columns. sum_list (map (\<lambda>x. f (snd x)) snaps') + f s'
          = sum_list (map (\<lambda>x. f (snd x)) (snaps @ [(unix, s)])) + f (Reset s) + sum_list (map f (traffic es))"
      by blast
    then show ?thesis
      by (intro exI [of _ snaps'] exI [of _ s']) (auto simp: Logged tick Reset_new column_add add.assoc dest!: bspec)
  qed
qed

text \<open>The statistics file of a run that starts with it empty is one header row and one row per
  period, each headed by its time, and no traffic is lost between rows: in every column the rows
  and the counter still running add up to all the traffic of the run (modulo \<open>2^64\<close>).
\<close>

theorem snmp_log_complete:
  "\<exists>snaps s'. snmp_log_run es ([], newSnmp)
      = Some (if snaps = [] then [] else (''Unix'' # Header) # map (\<lambda>x. decimal (fst x) # ToSlice (snd x)) snaps, s')
    \<and> list_all (\<lambda>(n, f). sum_list (map (\<lambda>x. f (snd x)) snaps) + f s' = sum_list (map f (traffic es))) snmp_columns"
proof -
  obtain snaps s' where "snmp_log_run es ([], newSnmp) = Some (if snaps = [] then [] else (''Unix'' # Header) # map log_row snaps, s')"
      "\<forall>(n, f) \<in> set snmp_columns. sum_list (map (\<lambda>x. f (snd x)) snaps) + f s'
          = sum_list (map (\<lambda>x. f (snd x)) []) + f newSnmp + sum_list (map f (traffic es))"
    using snmp_log_sum [of "[]" "[]" es newSnmp] by auto
  moreover have "list_all (\<lambda>(n, f). sum_list (map (\<lambda>x. f (snd x)) snaps) + f s' = sum_list (map f (traffic es))) snmp_columns"
    unfolding list_all_iff using calculation(2) column_add(2) by fastforce
  ultimately show ?thesis
    unfolding log_row_def [abs_def] by blast
qed

text \<open>
  The gauge of established sessions in a run: sessions open and close, other counters move
  (\<^const>\<open>CurrEstab\<close> and \<^const>\<open>MaxConn\<close> move with sessions only), the logger ticks.
\<close>

datatype gauge_event = Opens bool | Shuts | Counts Snmp | Ticks nat

fun gauge_run :: "gauge_event list \<Rightarrow> string list list \<times> Snmp \<Rightarrow> (string list list \<times> Snmp) option" where
  "gauge_run [] st = Some st"
| "gauge_run (Opens client # es) (rows, s) = gauge_run es (rows, count_open client s)"
| "gauge_run (Shuts # es) (rows, s) = gauge_run es (rows, count_close s)"
| "gauge_run (Counts d # es) (rows, s) = gauge_run es (rows, snmp_add s (d\<lparr>CurrEstab := 0, MaxConn := 0\<rparr>))"
| "gauge_run (Ticks unix # es) (rows, s) = Option.bind (snmp_tick True unix rows s) (gauge_run es)"

text \<open>
  How many sessions are really open, and how many were at the last tick; what the gauge is off by is
  the latter. \<open>shown\<close> lists the differences at the ticks.
\<close>

fun tally :: "gauge_event list \<Rightarrow> int \<times> int \<Rightarrow> int \<times> int" where
  "tally [] st = st"
| "tally (Opens _ # es) (n, b) = tally es (n + 1, b)"
| "tally (Shuts # es) (n, b) = tally es (n - 1, b)"
| "tally (Counts _ # es) (n, b) = tally es (n, b)"
| "tally (Ticks _ # es) (n, b) = tally es (n, n)"

fun shown :: "gauge_event list \<Rightarrow> int \<times> int \<Rightarrow> int list" where
  "shown [] st = []"
| "shown (Opens _ # es) (n, b) = shown es (n + 1, b)"
| "shown (Shuts # es) (n, b) = shown es (n - 1, b)"
| "shown (Counts _ # es) (n, b) = shown es (n, b)"
| "shown (Ticks _ # es) (n, b) = (n - b) # shown es (n, n)"

text \<open>The gauge in a row of the log: the sixth counter, after the time.\<close>

definition gauge_column :: "string list \<Rightarrow> string" where
  "gauge_column row = row ! 6"

lemma header_gauge: "Header ! 5 = ''CurrEstab''"
  by (simp add: Header_def)

lemma gauge_row: "gauge_column (decimal unix # ToSlice s) = decimal (unat (CurrEstab s))"
  by (simp add: gauge_column_def ToSlice_def Copy_id Let_def)

lemma gauge_steps:
  "CurrEstab (count_open client s) = CurrEstab s + 1" "CurrEstab (count_close s) = CurrEstab s - 1"
  "CurrEstab (snmp_add s (d\<lparr>CurrEstab := 0, MaxConn := 0\<rparr>)) = CurrEstab s" "CurrEstab (Reset s) = 0"
  by (simp_all add: count_open_def count_close_def snmp_add_def Reset_def Let_def)

lemma gauge_tally:
  assumes "tally es (n, b) = (n', b')" "CurrEstab s = word_of_int (n - b)"
  shows "\<exists>rows' s'. gauge_run es (rows, s) = Some (rows', s') \<and> CurrEstab s' = word_of_int (n' - b')
     \<and> (\<exists>more. rows' = rows @ (if rows = [] \<and> more \<noteq> [] then [''Unix'' # Header] else []) @ more
          \<and> map gauge_column more = map (\<lambda>d. decimal (unat (word_of_int d :: u64))) (shown es (n, b)))"
  using assms
proof (induction es arbitrary: n b rows s)
  case Nil
  then show ?case by simp
next
  case (Cons e es)
  show ?case
  proof (cases e)
    case (Ticks unix)
    let ?rows = "rows @ (if rows = [] then [''Unix'' # Header] else []) @ [decimal unix # ToSlice s]"
    have "CurrEstab (Reset s) = word_of_int (n - n)" by (simp add: gauge_steps)
    from Cons.IH [OF _ this, of ?rows] Cons.prems(1) obtain rows' s' rest where
      r: "gauge_run es (?rows, Reset s) = Some (rows', s')" "CurrEstab s' = word_of_int (n' - b')" "rows' = ?rows @ rest"
        "map gauge_column rest = map (\<lambda>d. decimal (unat (word_of_int d :: u64))) (shown es (n, n))"
      by (auto simp: Ticks)
    have "gauge_run (e # es) (rows, s) = Some (rows', s')" using r(1) by (simp add: Ticks snmp_tick_def)
    moreover have "map gauge_column ((decimal unix # ToSlice s) # rest)
        = map (\<lambda>d. decimal (unat (word_of_int d :: u64))) (shown (e # es) (n, b))"
      using r(4) Cons.prems(2) by (simp add: Ticks gauge_row)
    ultimately show ?thesis using r(2,3)
      by (intro exI [of _ rows'] exI [of _ s'] conjI exI [of _ "(decimal unix # ToSlice s) # rest"]) auto
  qed (use Cons in \<open>simp_all add: gauge_steps algebra_simps\<close>)
qed

text \<open>C35. Resetting the counters at every tick of the logger also resets the number of established
  sessions, which is not a count of events. In every run, from then on the gauge is off by the number of
  sessions open at the last tick, modulo \<open>2^64\<close>, and so is its column in every row of the log by that of
  the tick before: it shows the truth exactly if no session was open at the tick, and when fewer
  sessions are open than then, it shows a number that has wrapped around.
\<close>

theorem reset_breaks_gauge:
  "case tally es (0, 0) of (n, b) \<Rightarrow>
     \<exists>rows s. gauge_run es ([], newSnmp) = Some (rows, s) \<and> CurrEstab s = word_of_int (n - b)
       \<and> map gauge_column (tl rows) = map (\<lambda>d. decimal (unat (word_of_int d :: u64))) (shown es (0, 0))
       \<and> (0 \<le> n \<and> n < 2 ^ 64 \<and> 0 \<le> b \<and> b < 2 ^ 64 \<longrightarrow> (uint (CurrEstab s) = n \<longleftrightarrow> b = 0)
            \<and> (n < b \<longrightarrow> uint (CurrEstab s) = 2 ^ 64 - (b - n)))"
proof -
  obtain n b where t: "tally es (0, 0) = (n, b)" by fastforce
  have "CurrEstab newSnmp = word_of_int (0 - 0)" by (simp add: newSnmp_def)
  from gauge_tally [OF t this, of "[]"] obtain rows s more where
    r: "gauge_run es ([], newSnmp) = Some (rows, s)" "CurrEstab s = word_of_int (n - b)"
      "rows = (if more \<noteq> [] then [''Unix'' # Header] else []) @ more"
      "map gauge_column more = map (\<lambda>d. decimal (unat (word_of_int d :: u64))) (shown es (0, 0))" by auto
  have "tl rows = more" using r(3) by simp
  moreover have "(uint (CurrEstab s) = n \<longleftrightarrow> b = 0) \<and> (n < b \<longrightarrow> uint (CurrEstab s) = 2 ^ 64 - (b - n))"
    if "0 \<le> n \<and> n < 2 ^ 64 \<and> 0 \<le> b \<and> b < 2 ^ 64"
  proof -
    have u: "uint (CurrEstab s) = (n - b) mod 2 ^ 64" unfolding r(2) uint_word_of_int by simp
    show ?thesis
    proof (cases "n < b")
      case True
      have "(n - b) mod 2 ^ 64 = (n - b + 2 ^ 64) mod 2 ^ 64" by (simp only: mod_add_self2)
      also have "\<dots> = n - b + 2 ^ 64" using True that by (intro mod_pos_pos_trivial) auto
      finally show ?thesis using u True that by auto
    next
      case False
      then have "(n - b) mod 2 ^ 64 = n - b" using that by (intro mod_pos_pos_trivial) auto
      then show ?thesis using u False by auto
    qed
  qed
  ultimately show ?thesis using t r(1,2,4) by auto
qed

theorem reset_breaks_gauge_witness:
  "\<exists>rows s. gauge_run [Opens True, Opens False, Ticks 60, Counts newSnmp, Shuts] ([], newSnmp) = Some (rows, s)
     \<and> map gauge_column (tl rows) = [''2''] \<and> uint (CurrEstab s) = 2 ^ 64 - 1"
proof -
  have d: "decimal 2 = ''2''" by code_simp
  show ?thesis using reset_breaks_gauge [of "[Opens True, Opens False, Ticks 60, Counts newSnmp, Shuts]"] by (auto simp: d)
qed

subsection \<open>Compressed streams\<close>

text \<open>
  What the compression library documents of its buffered writer and its reader: a flush puts out
  bytes from which the reader recovers everything written since the last flush. \<open>pend\<close> is what
  the writer holds back and \<open>ahead\<close> relates a writer to a reader that has read all it put out.
\<close>

definition snappy_ok :: "('w, 'r) snappy \<Rightarrow> ('w \<Rightarrow> bytes) \<Rightarrow> ('w \<Rightarrow> 'r \<Rightarrow> bool) \<Rightarrow> bool" where
  "snappy_ok L pend ahead \<longleftrightarrow>
     pend (sn_NewBufferedWriter L) = [] \<and> ahead (sn_NewBufferedWriter L) (sn_NewReader L)
     \<and> (\<forall>w r p. pend w = [] \<longrightarrow> ahead w r \<longrightarrow>
          (case sn_Flush L (fst (sn_Write L w p)) of (w', out, _) \<Rightarrow>
             pend w' = [] \<and> snd (sn_Read L r out) = p \<and> ahead w' (fst (sn_Read L r out))))"

text \<open>Each write is carried to the other end and read there before the next.\<close>

fun comp_exchange :: "('w, 'r) snappy \<Rightarrow> bytes list \<Rightarrow> ('w, 'r) compStream \<Rightarrow> ('w, 'r) compStream \<Rightarrow> bytes list" where
  "comp_exchange L [] a b = []"
| "comp_exchange L (p # ps) a b =
     (let (a, out, _) = compStream_Write L p a;
          (b, q) = compStream_Read L out b
      in q # comp_exchange L ps a b)"

text \<open>A compressed stream holds nothing back: every \<open>Write\<close> at one end is readable in full at the
  other before the next, so compression never delays an answer the peer is waiting for.
\<close>

theorem comp_stream_prompt:
  assumes "snappy_ok L pend ahead"
  shows "comp_exchange L ps (newCompStream L) (newCompStream L) = ps"
proof -
  have step: "pend w' = [] \<and> snd (sn_Read L r out) = p \<and> ahead w' (fst (sn_Read L r out))"
    if "pend w = []" "ahead w r" "sn_Flush L (fst (sn_Write L w p)) = (w', out, e)" for w r p w' out e
  proof -
    have "case sn_Flush L (fst (sn_Write L w p)) of (w', out, _) \<Rightarrow>
        pend w' = [] \<and> snd (sn_Read L r out) = p \<and> ahead w' (fst (sn_Read L r out))"
      using assms [unfolded snappy_ok_def, THEN conjunct2, THEN conjunct2, rule_format, OF that(1,2)] .
    then show ?thesis using that(3) by simp
  qed
  have "comp_exchange L ps a b = ps" if "pend (cs_w a) = []" "ahead (cs_w a) (cs_r b)" for a b
    using that
  proof (induction ps arbitrary: a b)
    case (Cons p ps)
    obtain w' out e where f: "sn_Flush L (fst (sn_Write L (cs_w a) p)) = (w', out, e)" by (metis surj_pair)
    obtain w1 n e1 where w: "sn_Write L (cs_w a) p = (w1, n, e1)" by (metis surj_pair)
    obtain r' q where r: "sn_Read L (cs_r b) out = (r', q)" by (metis surj_pair)
    have s: "pend w' = []" "q = p" "ahead w' r'" using step [OF Cons.prems f] r by simp_all
    have "comp_exchange L ps (a\<lparr>cs_w := w'\<rparr>) (b\<lparr>cs_r := r'\<rparr>) = ps"
      by (rule Cons.IH) (simp_all add: s)
    then show ?case using f w r s by (simp add: compStream_Write_def compStream_Read_def)
  qed simp
  then show ?thesis using assms by (simp add: snappy_ok_def newCompStream_def)
qed

definition sample_snappy :: "(bytes, unit) snappy" where
  "sample_snappy = \<lparr>sn_Write = \<lambda>w p. (w @ p, length p, True), sn_Flush = \<lambda>w. ([], w, True),
     sn_Read = \<lambda>r wire. (r, wire), sn_NewBufferedWriter = [], sn_NewReader = ()\<rparr>"

theorem comp_stream_prompt_witness:
  "comp_exchange sample_snappy [[1, 2], [], [3]] (newCompStream sample_snappy) (newCompStream sample_snappy) = [[1, 2], [], [3]]"
proof -
  have "snappy_ok sample_snappy (\<lambda>w. w) (\<lambda>_ _. True)"
    by (simp add: snappy_ok_def sample_snappy_def)
  then show ?thesis by (rule comp_stream_prompt)
qed

end
