(* ===== verification/SessionFacts.thy ===== *)
theory SessionFacts
  imports Session FecGuarantees StreamClientFacts
begin

section \<open>Sessions do not panic\<close>

text \<open>
  The invariant of a session and what each layer of its output and input path promises: what is
  sealed opens to what was put in, every KCP call succeeds with packets that fit, and whatever
  arrives is handled.
\<close>

subsection \<open>What the output path changes\<close>

definition io_only :: "session \<Rightarrow> session \<Rightarrow> bool" where
  "io_only s s' \<longleftrightarrow> (\<exists>n f e c x. s' = s\<lparr>s_nonce := n, s_fills := f, s_fecEncoder := e, s_conn := c, s_chWriteError := x\<rparr>)"

lemma io_only_refl [simp]: "io_only s s"
  unfolding io_only_def by (intro exI [of _ "s_nonce s"] exI [of _ "s_fills s"] exI [of _ "s_fecEncoder s"]
      exI [of _ "s_conn s"] exI [of _ "s_chWriteError s"]) simp

lemma io_only_trans: "io_only a b \<Longrightarrow> io_only b c \<Longrightarrow> io_only a c"
  unfolding io_only_def by (elim exE) (simp, blast)

lemma io_onlyD:
  assumes "io_only s s'"
  shows "us_kcp s' = us_kcp s" "us_ackNoDelay s' = us_ackNoDelay s" "us_writeDelay s' = us_writeDelay s"
    "s_block s' = s_block s" "s_fecDecoder s' = s_fecDecoder s" "s_headerSize s' = s_headerSize s"
    "s_dup s' = s_dup s" "s_bufptr s' = s_bufptr s" "s_rd s' = s_rd s" "s_wd s' = s_wd s"
    "s_chReadEvent s' = s_chReadEvent s" "s_chWriteEvent s' = s_chWriteEvent s"
    "s_chReadError s' = s_chReadError s" "s_isClosed s' = s_isClosed s" "s_client s' = s_client s"
  using assms by (auto simp: io_only_def)

lemma io_onlyI:
  "io_only s (s\<lparr>s_nonce := n, s_fills := f\<rparr>)" "io_only s (s\<lparr>s_fecEncoder := e\<rparr>)"
  "io_only s (s\<lparr>s_conn := c\<rparr>)" "io_only s (notifyWriteError s)"
  unfolding io_only_def notifyWriteError_def
  by ((rule exI)+, rule session.equality; simp)+

subsection \<open>Sealing and opening\<close>

definition io_ok :: "session_io \<Rightarrow> bool" where
  "io_ok io \<longleftrightarrow> libs_ok (io_libs io) \<and> (\<forall>n. length (io_rand io n) = 16)"

definition nonce_fine :: "nonceAES128 \<Rightarrow> bool" where
  "nonce_fine n \<longleftrightarrow> cipher_ok (nonce_block n) \<and> BlockSize (nonce_block n) = 16 \<and> length (nonce_seed n) = 16"

definition block_fine :: "BlockCrypt option \<Rightarrow> bool" where
  "block_fine blk \<longleftrightarrow> (case blk of None \<Rightarrow> True | Some b \<Rightarrow> crypt_ok b)"

definition crypt_room :: "BlockCrypt option \<Rightarrow> nat" where
  "crypt_room blk = (if blk \<noteq> None then 20 else 0)"

lemma nonce_fills:
  assumes "nonce_fine n" "length rnd = 16" "length dst = 16"
  shows "\<exists>n' head. nonceAES128_Fill rnd n dst = Some (n', head) \<and> length head = 16 \<and> nonce_fine n'"
  using assms by (auto simp: nonceAES128_Fill_def nonce_fine_def block_Encrypt_def cipher_ok_def go_copy_exact Let_def)

lemma seal_packet_ok:
  assumes "io_ok io" "nonce_fine (s_nonce s)" "block_fine (s_block s)" "crypt_room (s_block s) \<le> length b"
  shows "\<exists>b' s'. seal_packet io b s = Some (b', s') \<and> length b' = length b
     \<and> open_packet (io_libs io) (s_block s) b' = Some (Some (drop (crypt_room (s_block s)) b))
     \<and> io_only s s' \<and> nonce_fine (s_nonce s') \<and> s_fecEncoder s' = s_fecEncoder s \<and> s_conn s' = s_conn s"
proof (cases "s_block s")
  case None
  then show ?thesis using assms(2) by (simp add: seal_packet_def open_packet_def crypt_room_def)
next
  case (Some blk)
  then have len: "20 \<le> length b" using assms(4) by (simp add: crypt_room_def)
  have L: "libs_ok (io_libs io)" "length (io_rand io (s_fills s)) = 16" and c: "crypt_ok blk"
    using assms(1,3) Some by (auto simp: io_ok_def block_fine_def)
  have "length (take nonceSize b) = 16" using len by (simp add: nonceSize_def)
  from nonce_fills [OF assms(2) L(2) this] obtain n' head where
    n: "nonceAES128_Fill (io_rand io (s_fills s)) (s_nonce s) (take nonceSize b) = Some (n', head)"
      "length head = 16" "nonce_fine n'" by blast
  define q where "q = head @ put_le32 (ChecksumIEEE (drop 20 b)) @ drop 20 b"
  have b1: "put_at 0 head b = head @ drop 16 b" using n(2) by (simp add: put_at_def)
  have q: "put_at nonceSize (put_le32 (ChecksumIEEE (drop (nat cryptHeaderSize) (put_at 0 head b)))) (put_at 0 head b) = q"
    using n(2) unfolding b1 by (simp add: q_def put_at_def nonceSize_def cryptHeaderSize_def put_le32_def)
  have lq: "length q = length b" using n(2) len by (simp add: q_def put_le32_def)
  from crypt_in_place [OF L(1) c, of q] len lq obtain b' where
    b': "Encrypt (io_libs io) blk True q q = Some b'" "length b' = length b" "Decrypt (io_libs io) blk True b' b' = Some q"
    by auto
  have "open_packet (io_libs io) (Some blk) b' = Some (Some (drop 20 b))"
    using b'(3) n(2) by (simp add: open_packet_def q_def sl_def nonceSize_def crcSize_def)
  moreover have "seal_packet io b s = Some (b', s\<lparr>s_nonce := n', s_fills := s_fills s + 1\<rparr>)"
    using Some n(1) q b'(1) by (simp add: seal_packet_def Let_def)
  ultimately show ?thesis using Some b'(2) n(3) io_onlyI(1) by (auto simp: crypt_room_def)
qed

lemma seal_packets_ok:
  assumes "io_ok io" "nonce_fine (s_nonce s)" "block_fine (s_block s)" "\<forall>b \<in> set bs. crypt_room (s_block s) \<le> length b"
  shows "\<exists>bs' s'. seal_packets io bs s = Some (bs', s') \<and> length bs' = length bs
     \<and> (\<forall>b' \<in> set bs'. \<exists>b \<in> set bs. open_packet (io_libs io) (s_block s) b' = Some (Some (drop (crypt_room (s_block s)) b)))
     \<and> io_only s s' \<and> nonce_fine (s_nonce s') \<and> s_fecEncoder s' = s_fecEncoder s \<and> s_conn s' = s_conn s"
  using assms
proof (induction bs arbitrary: s)
  case Nil
  then show ?case by simp
next
  case (Cons b bs)
  then obtain b' s1 where s1: "seal_packet io b s = Some (b', s1)"
    "open_packet (io_libs io) (s_block s) b' = Some (Some (drop (crypt_room (s_block s)) b))"
    "io_only s s1" "nonce_fine (s_nonce s1)" "s_fecEncoder s1 = s_fecEncoder s" "s_conn s1 = s_conn s"
    using seal_packet_ok [of io s b] by auto
  then have "s_block s1 = s_block s" using io_onlyD(4) by blast
  with Cons.IH [OF Cons.prems(1) s1(4)] Cons.prems(3,4) obtain bs' s2 where
    s2: "seal_packets io bs s1 = Some (bs', s2)" "length bs' = length bs"
    "\<forall>b' \<in> set bs'. \<exists>b \<in> set bs. open_packet (io_libs io) (s_block s) b' = Some (Some (drop (crypt_room (s_block s)) b))"
    "io_only s1 s2" "nonce_fine (s_nonce s2)" "s_fecEncoder s2 = s_fecEncoder s1" "s_conn s2 = s_conn s1"
    by auto
  then have "seal_packets io (b # bs) s = Some (b' # bs', s2)" "io_only s s2" "s_conn s2 = s_conn s"
    "s_fecEncoder s2 = s_fecEncoder s"
    using s1 io_only_trans [OF s1(3) s2(4)] by simp_all
  with s1(2) s2(2,3,5) show ?case by auto
qed

subsection \<open>The packet connection\<close>

lemma write_all:
  "\<exists>s' n m. foldl (\<lambda>st b. write_to io b st) (s, n0, m0) bs = (s', n, m) \<and> s_conn s' = s_conn s @ bs
     \<and> io_only s s' \<and> s_nonce s' = s_nonce s \<and> s_fecEncoder s' = s_fecEncoder s"
proof (induction bs arbitrary: s n0 m0)
  case Nil
  then show ?case by simp
next
  case (Cons b bs)
  obtain s1 n1 m1 where s1: "write_to io b (s, n0, m0) = (s1, n1, m1)" by (metis prod_cases3)
  then have f: "s_conn s1 = s_conn s @ [b]" "s_nonce s1 = s_nonce s" "s_fecEncoder s1 = s_fecEncoder s"
    by (auto simp: write_to_def Let_def notifyWriteError_def split: if_splits)
  have "s1 = s\<lparr>s_conn := s_conn s @ [b]\<rparr> \<or> s1 = notifyWriteError (s\<lparr>s_conn := s_conn s @ [b]\<rparr>)"
    using s1 by (auto simp: write_to_def Let_def split: if_splits)
  then have "io_only s s1"
    using io_onlyI(3) [of s "s_conn s @ [b]"] io_only_trans [OF io_onlyI(3) io_onlyI(4)] by auto
  moreover from Cons.IH [of s1 n1 m1] obtain s' n m where
    "foldl (\<lambda>st b. write_to io b st) (s1, n1, m1) bs = (s', n, m)" "s_conn s' = s_conn s1 @ bs"
    "io_only s1 s'" "s_nonce s' = s_nonce s1" "s_fecEncoder s' = s_fecEncoder s1" by blast
  ultimately show ?case using f s1 io_only_trans [of s s1 s'] by simp
qed

subsection \<open>Error correction\<close>

text \<open>An encoder that starts at \<open>ho\<close> encodes every packet that has room for its header and fits a buffer.\<close>

definition enc_fine :: "nat \<Rightarrow> fec_encoder \<Rightarrow> bool" where
  "enc_fine ho enc \<longleftrightarrow> fe_shardCount enc < fe_dataShards enc \<and> fe_dataShards enc < fe_shardSize enc
     \<and> fe_headerOffset enc = ho \<and> fe_payloadOffset enc = ho + 6"

lemma mark_all_frame: "mark_all ps enc = (ps', enc') \<Longrightarrow> \<exists>n. enc' = enc\<lparr>fe_next := n\<rparr>"
proof (induction ps arbitrary: enc ps' enc')
  case Nil
  then show ?case by (auto intro: exI [of _ "fe_next enc"])
next
  case (Cons p ps)
  obtain p1 e1 where m: "markParity p enc = (p1, e1)" by fastforce
  obtain ps1 e2 where a: "mark_all ps e1 = (ps1, e2)" by fastforce
  obtain n where "e2 = e1\<lparr>fe_next := n\<rparr>" using Cons.IH [OF a] ..
  moreover have "e1 = enc\<lparr>fe_next := fe_next e1\<rparr>" using m by (auto simp: markParity_def Let_def)
  ultimately have "e2 = enc\<lparr>fe_next := n\<rparr>" by (metis fec_encoder.update_convs(5) fec_encoder.surjective)
  then show ?case using Cons.prems m a by auto
qed

lemma fec_parity_frame:
  assumes "fec_parity enc = (ps, enc')"
  shows "\<exists>n. enc' = enc\<lparr>fe_next := n\<rparr>"
proof -
  have "enc = enc\<lparr>fe_next := fe_next enc\<rparr>" by simp
  moreover have "enc' = enc \<or> (\<exists>qs. mark_all qs enc = (ps, enc'))"
    using assms by (auto simp: fec_parity_def Let_def split: option.splits)
  ultimately show ?thesis using mark_all_frame by blast
qed

lemma fec_encode_total:
  assumes "enc_fine ho enc" "ho + 8 \<le> length b" "length b \<le> 1500"
  shows "\<exists>b' ps enc'. fec_encode b enc = Some (b', ps, enc') \<and> enc_fine ho enc' \<and> length b' = length b"
proof -
  obtain b' e1 where c: "fec_collect b enc = (b', e1)" by fastforce
  have po: "fe_payloadOffset enc = ho + 6" "fe_headerOffset enc = ho" using assms(1) by (simp_all add: enc_fine_def)
  have e1: "fe_shardCount e1 = fe_shardCount enc + 1" "fe_dataShards e1 = fe_dataShards enc"
    "fe_shardSize e1 = fe_shardSize enc" "fe_headerOffset e1 = ho" "fe_payloadOffset e1 = ho + 6" "length b' = length b"
    using c fec_collect_eq [OF po assms(2)] po assms(2) by (auto simp: put_le32_def put_le16_def)
  show ?thesis
  proof (cases "fe_shardCount e1 = fe_dataShards e1")
    case False
    then have "fec_encode b enc = Some (b', [], e1)"
      using assms c po by (simp add: fec_encode_def enc_fine_def)
    then show ?thesis using assms(1) False e1 by (simp add: enc_fine_def)
  next
    case True
    obtain ps e2 where p: "fec_parity e1 = (ps, e2)" by fastforce
    then have "\<exists>n. e2 = e1\<lparr>fe_next := n\<rparr>" by (rule fec_parity_frame)
    then have "enc_fine ho (e2\<lparr>fe_shardCount := 0, fe_maxSize := 0\<rparr>)"
      using assms(1) e1 by (auto simp: enc_fine_def)
    moreover have "fec_encode b enc = Some (b', ps, e2\<lparr>fe_shardCount := 0, fe_maxSize := 0\<rparr>)"
      using assms c p po True by (simp add: fec_encode_def enc_fine_def)
    ultimately show ?thesis using e1 by simp
  qed
qed

lemma newFECEncoder_fine:
  assumes "newFECEncoder New d p ho = Some enc"
  shows "enc_fine ho enc"
proof -
  have "0 < d" "0 < p" using assms by (auto simp: newFECEncoder_def split: if_splits)
  then show ?thesis
    using assms by (auto simp: newFECEncoder_def enc_fine_def fecHeaderSize_def Let_def split: option.splits)
qed

text \<open>The library gives back shards of the size it was given.\<close>

definition codec_sized :: "rs_codec \<Rightarrow> bool" where
  "codec_sized c \<longleftrightarrow> (\<forall>S L out. (\<forall>s \<in> set S. s = [] \<or> length s = L) \<longrightarrow> rs_ReconstructData c S = Some out \<longrightarrow>
     length out = length S \<and> (\<forall>s \<in> set out. s = [] \<or> length s = L))"

lemma codec_sizedD:
  "codec_sized c \<Longrightarrow> \<forall>s \<in> set S. s = [] \<or> length s = L \<Longrightarrow> rs_ReconstructData c S = Some out \<Longrightarrow>
     length out = length S \<and> (\<forall>s \<in> set out. s = [] \<or> length s = L)"
  unfolding codec_sized_def by (elim allE impE) assumption+

definition dec_fine :: "fec_decoder \<Rightarrow> bool" where
  "dec_fine dec \<longleftrightarrow> length (fd_rx dec) \<le> fd_rxlimit dec \<and> (\<forall>x \<in> set (fd_rx dec). length x \<le> 1500)
     \<and> codec_sized (fd_codec dec) \<and> fd_dataShards dec \<le> fd_shardSize dec"

lemma found_shards_sized:
  assumes "\<forall>x \<in> set rx. length x \<le> 1500" "e < length rx"
  shows "as_maxlen (found_shards sz s rx b e) \<le> 1494"
    "length (as_shards (found_shards sz s rx b e)) = sz"
    "as_shards (found_shards sz s rx b e) ! k = Some x \<Longrightarrow> k < sz \<Longrightarrow> length x \<le> as_maxlen (found_shards sz s rx b e)"
proof -
  define H where "H = hits (s - s mod of_nat sz) (s - s mod of_nat sz + of_nat sz - 1) rx [b..<e + 1]"
  have st: "found_shards sz s rx b e = foldl (\<lambda>st i. add_hit sz rx i st) (assembly0 sz) H"
    by (simp add: found_shards_def assemble_hits H_def Let_def del: upt_Suc)
  have idx: "i < length rx" if "i \<in> set H" for i
    using hits_in [OF that [unfolded H_def]] assms(2) by (simp del: upt_Suc)
  have le: "length (fec_data (rx ! i)) \<le> 1494" if "i \<in> set H" for i
  proof -
    have "length (rx ! i) \<le> 1500" using idx [OF that] assms(1) by simp
    then show ?thesis by (simp add: fec_data_def)
  qed
  have max: "as_maxlen (found_shards sz s rx b e) = Max (insert 0 ((\<lambda>i. length (fec_data (rx ! i))) ` set H))"
    unfolding st by (simp add: foldl_hits assembly0_def)
  show "as_maxlen (found_shards sz s rx b e) \<le> 1494"
    unfolding max by (subst Max_le_iff) (use le in auto)
  show "length (as_shards (found_shards sz s rx b e)) = sz"
    unfolding st by (simp add: foldl_hits assembly0_def)
  assume x: "as_shards (found_shards sz s rx b e) ! k = Some x" "k < sz"
  then obtain i where "i \<in> set H" "x = fec_data (rx ! i)"
    using foldl_shards_Some [of sz rx "assembly0 sz" H k x] by (auto simp: st assembly0_def)
  then show "length x \<le> as_maxlen (found_shards sz s rx b e)" unfolding max by (intro Max_ge) auto
qed

lemma recover_sized:
  assumes "codec_sized c" "\<forall>x \<in> set rx. length x \<le> 1500" "e < length rx" "d \<le> sz"
    "r \<in> set (fec_recover c d (found_shards sz s rx b e))"
  shows "length r \<le> 1494"
proof -
  let ?st = "found_shards sz s rx b e"
  obtain out where o1: "rs_ReconstructData c (shard_list ?st) = Some out"
    using assms(5) by (cases "rs_ReconstructData c (shard_list ?st)") (auto simp: fec_recover_eq)
  with assms(5) obtain k where o2: "k < d" "r = out ! k" by (auto simp: fec_recover_eq)
  note o = o1 o2
  have len: "length (shard_list ?st) = sz" using found_shards_sized(2) [OF assms(2,3)] by (simp add: shard_list_def)
  have "\<forall>x \<in> set (shard_list ?st). x = [] \<or> length x = as_maxlen ?st"
  proof
    fix x assume "x \<in> set (shard_list ?st)"
    then obtain j where j: "j < sz" "x = shard_list ?st ! j" using len by (metis in_set_conv_nth)
    have nth: "shard_list ?st ! j = (case as_shards ?st ! j of
        Some d \<Rightarrow> d @ replicate (as_maxlen ?st - length d) 0 | None \<Rightarrow> [])"
      using j(1) found_shards_sized(2) [OF assms(2,3)] by (simp add: shard_list_def)
    show "x = [] \<or> length x = as_maxlen ?st"
      using found_shards_sized(3) [OF assms(2,3) _ j(1)] nth j(2) by (cases "as_shards ?st ! j") auto
  qed
  from codec_sizedD [OF assms(1) this o(1)] len
  have "length out = sz" "\<forall>x \<in> set out. x = [] \<or> length x = as_maxlen ?st" by simp_all
  moreover have "k < sz" using o(2) assms(4) by simp
  ultimately have "r = [] \<or> length r = as_maxlen ?st" using o(3) by simp
  with found_shards_sized(1) [OF assms(2,3)] show ?thesis by auto
qed

lemma fec_decode_fine:
  assumes "dec_fine dec" "6 \<le> length pkt" "length pkt \<le> 1500"
  shows "\<exists>recovered dec' short. fec_decode pkt dec = Some (recovered, dec', short) \<and> dec_fine dec'
     \<and> (\<forall>r \<in> set recovered. length r \<le> 1494)"
proof -
  have lim: "length (fd_rx dec) \<le> fd_rxlimit dec" "\<forall>x \<in> set (fd_rx dec). length x \<le> 1500"
    and c: "codec_sized (fd_codec dec)" "fd_dataShards dec \<le> fd_shardSize dec"
    using assms(1) by (simp_all add: dec_fine_def)
  from fec_decode_bounds [OF assms(2,3) lim(1)] obtain recovered dec' short where
    dec: "fec_decode pkt dec = Some (recovered, dec', short)" "length (fd_rx dec') \<le> fd_rxlimit dec"
      "set (fd_rx dec') \<subseteq> insert pkt (set (fd_rx dec))" "same_setup dec dec'" by blast
  have "dec_fine dec'" using assms(1,3) dec(2-4) by (auto simp: dec_fine_def same_setup_def)
  moreover have "length r \<le> 1494" if r: "r \<in> set recovered" for r
  proof (cases "fec_scan (fec_seqid pkt) (fd_rx dec)")
    case None
    then show ?thesis using dec(1) r fec_decode_dup [OF assms(2,3)] by simp
  next
    case (Some i)
    let ?rx = "fec_insert i pkt (fd_rx dec)" and ?s = "fec_seqid pkt"
    have rx: "0 < length ?rx" "\<forall>x \<in> set ?rx. length x \<le> 1500"
      using fec_insert_sel [OF Some, of pkt] lim(2) assms(3) by auto
    obtain b e where range: "search_range (fd_shardSize dec) ?s i (length ?rx) = (b, e)" by fastforce
    obtain r' rx' where s: "fec_search dec ?s i ?rx = Some (r', rx')" using fec_search_sub [OF rx(1)] by metis
    have "r' = recovered" using fec_decode_new [OF assms(2,3) Some s] dec(1) by simp
    with s fec_search_cases [OF range rx(1)] r
    have "r \<in> set (fec_recover (fd_codec dec) (fd_dataShards dec) (found_shards (fd_shardSize dec) ?s ?rx b e))"
      by (auto split: if_splits)
    from recover_sized [OF c(1) rx(2) search_range_lt [OF range rx(1)] c(2) this] show ?thesis .
  qed
  ultimately show ?thesis using dec(1) by blast
qed

lemma recovered_payload_length: "recovered_payload r = Some p \<Longrightarrow> length p \<le> length r"
  by (auto simp: recovered_payload_def split: if_splits option.splits Option.bind_splits)

end
