(* ===== verification/SessionSafe.thy ===== *)
theory SessionSafe
  imports SessionFacts
begin

section \<open>The session's invariant\<close>

subsection \<open>Output\<close>

definition parts_ok :: "session \<Rightarrow> bool" where
  "parts_ok s \<longleftrightarrow> nonce_fine (s_nonce s) \<and> block_fine (s_block s)
     \<and> (\<forall>enc. s_fecEncoder s = Some enc \<longrightarrow> enc_fine (crypt_room (s_block s)) enc)
     \<and> s_headerSize s = crypt_room (s_block s) + (if s_fecEncoder s = None then 0 else 8)"

lemma session_encode_ok:
  assumes "parts_ok s" "s_headerSize s \<le> length buf" "length buf \<le> 1500"
  shows "\<exists>b' ecc s'. session_encode buf s = Some (b', ecc, s') \<and> parts_ok s' \<and> io_only s s'
     \<and> s_conn s' = s_conn s \<and> s_nonce s' = s_nonce s
     \<and> (\<forall>f \<in> insert b' (set ecc). crypt_room (s_block s) \<le> length f)"
proof (cases "s_fecEncoder s")
  case None
  then show ?thesis using assms by (simp add: session_encode_def parts_ok_def)
next
  case (Some enc)
  then have "enc_fine (crypt_room (s_block s)) enc" "crypt_room (s_block s) + 8 \<le> length buf"
    using assms(1,2) by (simp_all add: parts_ok_def)
  from fec_encode_total [OF this assms(3)] obtain b' ps enc' where
    e: "fec_encode buf enc = Some (b', ps, enc')" "enc_fine (crypt_room (s_block s)) enc'" "length b' = length buf" by blast
  then have "fe_headerOffset enc' = crypt_room (s_block s)" by (simp add: enc_fine_def)
  moreover have "parts_ok (s\<lparr>s_fecEncoder := Some enc'\<rparr>)"
    using assms(1) e(2) Some by (simp add: parts_ok_def)
  ultimately show ?thesis
    using Some e assms(2) io_onlyI(2) [of s "Some enc'"] by (auto simp: session_encode_def parts_ok_def)
qed

text \<open>What is written opens to a packet of the encoder, without the room for nonce and checksum.\<close>

lemma session_output_ok:
  assumes "io_ok io" "parts_ok s" "s_headerSize s \<le> length buf" "length buf \<le> 1500"
  shows "\<exists>b' ecc s1 s' w' new. session_encode buf s = Some (b', ecc, s1)
     \<and> session_output io buf s w = Some (s', w')
     \<and> parts_ok s' \<and> io_only s s' \<and> s_fecEncoder s' = s_fecEncoder s1 \<and> outs w' = outs w \<and> s_conn s' = s_conn s @ new
     \<and> (0 \<le> s_dup s \<longrightarrow> 1 + length ecc \<le> length new)
     \<and> (\<forall>D \<in> set new. \<exists>f \<in> insert b' (set ecc).
          open_packet (io_libs io) (s_block s) D = Some (Some (drop (crypt_room (s_block s)) f)))"
proof -
  let ?open = "open_packet (io_libs io) (s_block s)" and ?cut = "drop (crypt_room (s_block s))"
  from session_encode_ok [OF assms(2-4)] obtain b1 ecc s1 where
    e: "session_encode buf s = Some (b1, ecc, s1)" "parts_ok s1" "io_only s s1" "s_conn s1 = s_conn s"
      "\<forall>f \<in> insert b1 (set ecc). crypt_room (s_block s) \<le> length f" by blast
  have bl1: "s_block s1 = s_block s" using io_onlyD(4) [OF e(3)] .
  have p1: "nonce_fine (s_nonce s1)" "block_fine (s_block s1)" using e(2) by (simp_all add: parts_ok_def)
  from seal_packet_ok [OF assms(1) p1, of b1] e(5) bl1 obtain b2 s2 where
    s2: "seal_packet io b1 s1 = Some (b2, s2)" "?open b2 = Some (Some (?cut b1))" "io_only s1 s2"
      "nonce_fine (s_nonce s2)" "s_fecEncoder s2 = s_fecEncoder s1" "s_conn s2 = s_conn s1" by auto
  have bl2: "s_block s2 = s_block s" using io_onlyD(4) [OF s2(3)] bl1 by simp
  from seal_packets_ok [OF assms(1) s2(4), of ecc] e(5) p1(2) bl1 bl2 obtain ecc' s3 where
    s3: "seal_packets io ecc s2 = Some (ecc', s3)" "\<forall>b' \<in> set ecc'. \<exists>b \<in> set ecc. ?open b' = Some (Some (?cut b))"
      "io_only s2 s3" "nonce_fine (s_nonce s3)" "s_fecEncoder s3 = s_fecEncoder s2" "s_conn s3 = s_conn s2"
      "length ecc' = length ecc" by auto
  let ?new = "replicate (nat (s_dup s3 + 1)) b2 @ ecc'"
  from write_all [of io s3 0 0 ?new] obtain s4 n m where
    s4: "foldl (\<lambda>st b. write_to io b st) (s3, 0, 0) ?new = (s4, n, m)" "s_conn s4 = s_conn s3 @ ?new" "io_only s3 s4"
      "s_nonce s4 = s_nonce s3" "s_fecEncoder s4 = s_fecEncoder s3" by blast
  have io: "io_only s s4" using e(3) s2(3) s3(3) s4(3) io_only_trans by blast
  have "parts_ok s4"
    using e(2) s2(5) s3(4,5) s4(4,5) io_onlyD(4,6) [OF io] io_onlyD(4,6) [OF e(3)] by (simp add: parts_ok_def)
  moreover obtain w' where "session_output io buf s w = Some (s4, w')" "outs w' = outs w"
    using e(1) s2(1) s3(1) s4(1) by (simp add: session_output_def Let_def)
  moreover have "s_conn s4 = s_conn s @ ?new" using s4(2) s3(6) s2(6) e(4) by simp
  moreover have "\<forall>D \<in> set ?new. \<exists>f \<in> insert b1 (set ecc). ?open D = Some (Some (?cut f))"
    using s2(2) s3(2) by auto
  moreover have "s_fecEncoder s4 = s_fecEncoder s1" using s2(5) s3(5) s4(5) by simp
  moreover have "0 \<le> s_dup s \<longrightarrow> 1 + length ecc \<le> length ?new"
    using s3(7) io_onlyD(7) [OF e(3)] io_onlyD(7) [OF s2(3)] io_onlyD(7) [OF s3(3)] by auto
  ultimately show ?thesis using e(1) io by blast
qed

lemma output_callback_ok:
  assumes "io_ok io" "parts_ok s" "reserved (us_kcp s) + length p \<le> 1500"
  shows "\<exists>s' w'. output_callback io p s w = Some (s', w') \<and> parts_ok s' \<and> io_only s s' \<and> outs w' = outs w"
proof (cases "IKCP_OVERHEAD + s_headerSize s \<le> length (replicate (reserved (us_kcp s)) 0 @ p :: bytes)")
  case True
  then have "s_headerSize s \<le> length (replicate (reserved (us_kcp s)) 0 @ p :: bytes)" by simp
  from session_output_ok [OF assms(1,2) this, of w] assms(3) True show ?thesis
    by (auto simp: output_callback_def)
next
  case False
  then show ?thesis using assms(2) by (simp add: output_callback_def)
qed

lemma output_all_ok:
  assumes "io_ok io" "parts_ok s" "\<forall>p \<in> set ps. reserved (us_kcp s) + length p \<le> 1500"
  shows "\<exists>s' w'. output_all io ps s w = Some (s', w') \<and> parts_ok s' \<and> io_only s s' \<and> outs w' = outs w"
  using assms
proof (induction ps arbitrary: s w)
  case Nil
  then show ?case by simp
next
  case (Cons p ps)
  then obtain s1 w1 where s1: "output_callback io p s w = Some (s1, w1)" "parts_ok s1" "io_only s s1" "outs w1 = outs w"
    using output_callback_ok [of io s p w] by auto
  then have "\<forall>p \<in> set ps. reserved (us_kcp s1) + length p \<le> 1500" using Cons.prems(3) io_onlyD(1) by auto
  from Cons.IH [OF Cons.prems(1) s1(2) this, of w1] obtain s2 w2 where
    "output_all io ps s1 w1 = Some (s2, w2)" "parts_ok s2" "io_only s1 s2" "outs w2 = outs w1" by blast
  with s1 io_only_trans [OF s1(3)] show ?case by auto
qed

subsection \<open>Calls into KCP\<close>

definition safe_call :: "(KCP \<Rightarrow> world \<Rightarrow> ('r \<times> KCP \<times> world) option) \<Rightarrow> KCP \<Rightarrow> bool" where
  "safe_call f k \<longleftrightarrow> (\<forall>w. \<exists>r k' w' ps. f k w = Some (r, k', w') \<and> kcp_ok k' \<and> same_config k k'
     \<and> outs w' = outs w @ ps \<and> (\<forall>p \<in> set ps. reserved k + length p \<le> unat (mtu k)))"

lemma safe_Input:
  assumes "kcp_ok k" "length data \<le> 1500"
  shows "safe_call (Input clk data regular nd) k"
  unfolding safe_call_def
proof
  fix w
  from Input_kcp_ok [of k data clk regular nd w] assms obtain r k' w' L where
    i: "Input clk data regular nd k w = Some (r, k', w')" "kcp_ok k'" "input_send k k'" "sent k w L w'" by auto
  from sent_packets [OF i(4)] i(1-3) show "\<exists>r k' w' ps. Input clk data regular nd k w = Some (r, k', w') \<and> kcp_ok k'
     \<and> same_config k k' \<and> outs w' = outs w @ ps \<and> (\<forall>p \<in> set ps. reserved k + length p \<le> unat (mtu k))"
    by (auto simp: input_send_def)
qed

lemma safe_flush:
  assumes "kcp_ok k"
  shows "safe_call (flush clk False) k"
  unfolding safe_call_def
proof
  fix w
  from kcp_ok_flush [OF assms, of clk w] obtain r k' w' C where
    f: "flush clk False k w = Some (r, k', w')" "flushed clk k w C (r, k', w')" by blast
  from sent_packets [OF flushedD(5) [OF f(2)]] flushedD(8) [OF f(2)] flush_kcp_ok [OF assms f(2)] f(1)
  show "\<exists>r k' w' ps. flush clk False k w = Some (r, k', w') \<and> kcp_ok k' \<and> same_config k k'
     \<and> outs w' = outs w @ ps \<and> (\<forall>p \<in> set ps. reserved k + length p \<le> unat (mtu k))" by auto
qed

definition session_ok :: "session \<Rightarrow> bool" where
  "session_ok s \<longleftrightarrow> kcp_ok (us_kcp s) \<and> parts_ok s \<and> reserved (us_kcp s) = s_headerSize s
     \<and> (s_fecEncoder s = None \<longleftrightarrow> s_fecDecoder s = None)
     \<and> (\<forall>dec. s_fecDecoder s = Some dec \<longrightarrow> dec_fine dec)"

lemma mtu_bound: "kcp_ok k \<Longrightarrow> unat (mtu k) \<le> 1500"
  by (simp add: kcp_ok_def layout_def)

lemma encoder_kept: "parts_ok s \<Longrightarrow> parts_ok s' \<Longrightarrow> io_only s s' \<Longrightarrow> s_fecEncoder s' = None \<longleftrightarrow> s_fecEncoder s = None"
  using io_onlyD(4,6) [of s s'] by (auto simp: parts_ok_def split: if_splits)

lemma parts_ok_kcp [simp]: "parts_ok (s\<lparr>us_kcp := k\<rparr>) = parts_ok s"
  by (simp add: parts_ok_def)

lemma kcp_call_ok:
  assumes "session_ok s" "io_ok io" "safe_call f (us_kcp s)"
  shows "\<exists>r s' w'. kcp_call io f s w = Some (r, s', w') \<and> session_ok s'
     \<and> (\<exists>w1. f (us_kcp s) w = Some (r, us_kcp s', w1) \<and> outs w' = outs w1)
     \<and> same_config (us_kcp s) (us_kcp s') \<and> io_only (s\<lparr>us_kcp := us_kcp s'\<rparr>) s'"
proof -
  from assms(3) obtain r k w1 ps where
    f: "f (us_kcp s) w = Some (r, k, w1)" "kcp_ok k" "same_config (us_kcp s) k" "outs w1 = outs w @ ps"
      "\<forall>p \<in> set ps. reserved (us_kcp s) + length p \<le> unat (mtu (us_kcp s))"
    unfolding safe_call_def by blast
  have ok: "kcp_ok (us_kcp s)" "parts_ok s" using assms(1) by (simp_all add: session_ok_def)
  let ?s = "s\<lparr>us_kcp := k\<rparr>"
  have "parts_ok ?s" using ok(2) by simp
  moreover have "reserved (us_kcp ?s) + length p \<le> 1500" if "p \<in> set ps" for p
    using f(3,5) mtu_bound [OF ok(1)] that by (fastforce simp: same_config_def)
  ultimately obtain s' w' where
    o: "output_all io ps ?s w1 = Some (s', w')" "parts_ok s'" "io_only ?s s'" "outs w' = outs w1"
    using output_all_ok [OF assms(2), of ?s ps w1] by blast
  have k: "us_kcp s' = k" using io_onlyD(1) [OF o(3)] by simp
  have "session_ok s'"
    using assms(1) o(2) k f(2,3) io_onlyD(5,6) [OF o(3)] encoder_kept [OF \<open>parts_ok ?s\<close> o(2,3)]
    by (simp add: session_ok_def same_config_def)
  moreover have "kcp_call io f s w = Some (r, s', w')"
    using f(1,4) o(1) by (simp add: kcp_call_def)
  ultimately show ?thesis using f(1,3) o(3,4) k by auto
qed

subsection \<open>Input\<close>

text \<open>What handling a packet leaves alone, before readers and writers are told.\<close>

definition carry :: "session \<Rightarrow> session \<Rightarrow> bool" where
  "carry s s' \<longleftrightarrow> same_config (us_kcp s) (us_kcp s') \<and> us_ackNoDelay s' = us_ackNoDelay s
     \<and> us_writeDelay s' = us_writeDelay s \<and> s_block s' = s_block s \<and> s_headerSize s' = s_headerSize s
     \<and> s_dup s' = s_dup s \<and> s_bufptr s' = s_bufptr s \<and> s_rd s' = s_rd s \<and> s_wd s' = s_wd s
     \<and> s_chReadEvent s' = s_chReadEvent s \<and> s_chWriteEvent s' = s_chWriteEvent s
     \<and> s_chReadError s' = s_chReadError s \<and> s_isClosed s' = s_isClosed s \<and> s_client s' = s_client s
     \<and> (s_fecDecoder s' = None \<longleftrightarrow> s_fecDecoder s = None)"

lemma carry_refl [simp]: "carry s s"
  by (simp add: carry_def)

lemma carry_trans: "carry a b \<Longrightarrow> carry b c \<Longrightarrow> carry a c"
  by (simp add: carry_def same_config_def)

lemma carry_call:
  assumes "same_config (us_kcp s) (us_kcp s')" "io_only (s\<lparr>us_kcp := us_kcp s'\<rparr>) s'"
  shows "carry s s'" "s_fecDecoder s' = s_fecDecoder s"
  using io_onlyD [OF assms(2)] assms(1) by (simp_all add: carry_def)

lemma session_Input_ok:
  assumes "session_ok s" "io_ok io" "length data \<le> 1500"
  shows "\<exists>r s' w'. session_Input io clk data regular s w = Some (r, s', w') \<and> session_ok s' \<and> carry s s'"
proof -
  have "kcp_ok (us_kcp s)" using assms(1) by (simp add: session_ok_def)
  from kcp_call_ok [OF assms(1,2) safe_Input [OF this assms(3)]] show ?thesis
    unfolding session_Input_def using carry_call(1) by blast
qed

lemma input_plain_ok:
  assumes "session_ok s" "io_ok io" "length data \<le> 1500"
  shows "\<exists>s' w' c'. input_plain io clk data (s, w, c) = Some (s', w', c') \<and> session_ok s' \<and> carry s s'"
proof -
  from session_Input_ok [OF assms, of clk True w] obtain r s' w' where
    "session_Input io clk data True s w = Some (r, s', w')" "session_ok s'" "carry s s'" by blast
  then show ?thesis by (simp add: input_plain_def)
qed

lemma input_recovered_ok:
  assumes "session_ok s" "io_ok io" "\<forall>r \<in> set rs. length r \<le> 1494"
  shows "\<exists>s' w' c'. input_recovered io clk rs (s, w, c) = Some (s', w', c') \<and> session_ok s' \<and> carry s s'"
  using assms
proof (induction rs arbitrary: s w c)
  case Nil
  then show ?case by simp
next
  case (Cons r rs)
  show ?case
  proof (cases "recovered_payload r")
    case None
    with Cons.IH [OF Cons.prems(1,2)] Cons.prems(3) show ?thesis by simp
  next
    case (Some p)
    have "length p \<le> 1500" using recovered_payload_length [OF Some] Cons.prems(3) by simp
    from session_Input_ok [OF Cons.prems(1,2) this, of clk False w] obtain ret s1 w1 where
      s1: "session_Input io clk p False s w = Some (ret, s1, w1)" "session_ok s1" "carry s s1" by blast
    obtain c1 where c1: "input_recovered io clk (r # rs) (s, w, c) = input_recovered io clk rs (s1, w1, c1)"
      using Some s1(1) by simp
    from Cons.IH [OF s1(2) Cons.prems(2)] Cons.prems(3) obtain s2 w2 c2 where
      "input_recovered io clk rs (s1, w1, c1) = Some (s2, w2, c2)" "session_ok s2" "carry s1 s2" by force
    with c1 carry_trans [OF s1(3)] show ?thesis by auto
  qed
qed

lemma session_ok_decoder:
  "session_ok s \<Longrightarrow> s_fecDecoder s = Some dec \<Longrightarrow> dec_fine dec' \<Longrightarrow> session_ok (s\<lparr>s_fecDecoder := Some dec'\<rparr>)"
  by (auto simp: session_ok_def parts_ok_def)

lemma input_fec_ok:
  assumes "session_ok s" "io_ok io" "s_fecDecoder s = Some dec" "8 \<le> length data" "length data \<le> 1500"
  shows "\<exists>s1 s' w' c'. input_fec io clk data dec (s, w, c) = Some (s', w', c') \<and> session_ok s1 \<and> carry s s1
     \<and> s' = input_events (WaitSnd (us_kcp s)) s1"
proof -
  have df: "dec_fine dec" using assms(1,3) by (simp add: session_ok_def)
  from fec_decode_fine [OF df, of data] assms(4,5) obtain rs dec' short where
    d: "fec_decode data dec = Some (rs, dec', short)" "dec_fine dec'" "\<forall>r \<in> set rs. length r \<le> 1494" by auto
  define s0 where "s0 = s\<lparr>s_fecDecoder := Some dec'\<rparr>"
  define w0 where "w0 = (if short then Snmp.count (\<lambda>c. c\<lparr>FECShortShards := FECShortShards c + 1\<rparr>) w else w)"
  define c0 where "c0 = (if fec_flag data = typeParity then c\<lparr>in_fecParityShards := in_fecParityShards c + 1\<rparr> else c)"
  have s0: "session_ok s0" "carry s s0" "us_kcp s0 = us_kcp s"
    using session_ok_decoder [OF assms(1,3) d(2)] assms(3) by (simp_all add: s0_def carry_def same_config_def)
  have "\<exists>s1 w1 c1. input_data io clk data (s0, w0, c0) = Some (s1, w1, c1) \<and> session_ok s1 \<and> carry s0 s1"
  proof (cases "fec_flag data = typeData")
    case True
    have "sl (nat fecHeaderSizePlus2) (length data) data = Some (drop 8 data)"
      using assms(4) by (simp add: sl_def fecHeaderSizePlus2_def)
    moreover have "length (drop 8 data) \<le> 1500" using assms(5) by simp
    ultimately show ?thesis using input_plain_ok [OF s0(1) assms(2)] True by (simp add: input_data_def)
  next
    case False
    with s0(1) show ?thesis by (simp add: input_data_def)
  qed
  then obtain s1 w1 c1 where s1: "input_data io clk data (s0, w0, c0) = Some (s1, w1, c1)"
    "session_ok s1" "carry s0 s1" by blast
  from input_recovered_ok [OF s1(2) assms(2) d(3), of clk w1 c1] obtain s2 w2 c2 where
    s2: "input_recovered io clk rs (s1, w1, c1) = Some (s2, w2, c2)" "session_ok s2" "carry s1 s2" by blast
  have "input_fec io clk data dec (s, w, c) = Some (input_events (WaitSnd (us_kcp s)) s2, w2, c2)"
    unfolding input_fec_def prod.case Let_def d(1) Option.bind.bind_lunit prod.case
      s0_def [symmetric] w0_def [symmetric] c0_def [symmetric] s1(1) s2(1) s0(3) ..
  then show ?thesis using s2(2) carry_trans [OF s0(2) carry_trans [OF s1(3) s2(3)]] by blast
qed

lemma session_ok_events: "session_ok (input_events n s) = session_ok s"
  by (simp add: input_events_def notifyReadEvent_def notifyWriteEvent_def session_ok_def parts_ok_def Let_def)

lemma kcpInput_ok:
  assumes "session_ok s" "io_ok io" "s_fecDecoder s \<noteq> None \<longrightarrow> 8 \<le> length data" "length data \<le> 1500"
  shows "\<exists>s' w'. kcpInput io clk data s w = Some (s', w') \<and> session_ok s'
     \<and> (s' = s \<or> (\<exists>s1. carry s s1 \<and> s' = input_events (WaitSnd (us_kcp s)) s1))"
proof (cases "s_fecDecoder s")
  case None
  from input_plain_ok [OF assms(1,2,4), of clk w in_counts0] obtain s1 w1 c1 where
    "input_plain io clk data (s, w, in_counts0) = Some (s1, w1, c1)" "session_ok s1" "carry s s1" by blast
  then show ?thesis using None by (auto simp: kcpInput_def session_ok_events Let_def)
next
  case (Some dec)
  show ?thesis
  proof (cases "length data > fecHeaderSize \<and> (fec_flag data = typeData \<or> fec_flag data = typeParity)")
    case True
    from input_fec_ok [OF assms(1,2) Some _ assms(4), of clk w in_counts0] assms(3) Some obtain s1 s' w' c' where
      "input_fec io clk data dec (s, w, in_counts0) = Some (s', w', c')" "session_ok s1" "carry s s1"
      "s' = input_events (WaitSnd (us_kcp s)) s1" by auto
    then show ?thesis using Some True by (auto simp: kcpInput_def session_ok_events)
  next
    case False
    then show ?thesis using assms(1) unfolding kcpInput_def Some option.case if_not_P [OF False] by simp
  qed
qed

lemma open_packet_ok:
  assumes "io_ok io" "block_fine blk" "crypt_room blk \<le> length data"
  shows "\<exists>r. open_packet (io_libs io) blk data = Some r
     \<and> (\<forall>body. r = Some body \<longrightarrow> length body = length data - crypt_room blk)"
proof (cases blk)
  case None
  then show ?thesis by (simp add: open_packet_def crypt_room_def)
next
  case (Some b)
  then have "libs_ok (io_libs io)" "crypt_ok b" "8 \<le> length data"
    using assms by (auto simp: io_ok_def block_fine_def crypt_room_def)
  from Decrypt_total [OF this] obtain q where q: "Decrypt (io_libs io) b True data data = Some q" "length q = length data"
    by blast
  then have "4 \<le> length (drop 16 q)" using assms(3) Some by (simp add: crypt_room_def)
  then have "\<exists>v. get_le32 (drop 16 q) = Some v" by (metis get_le32_None not_le option.exhaust)
  then show ?thesis using q assms(3) Some
    by (auto simp: open_packet_def sl_def nonceSize_def crcSize_def crypt_room_def split: if_splits)
qed

lemma packetInput_ok:
  assumes "session_ok s" "io_ok io" "s_headerSize s + IKCP_OVERHEAD \<le> length data" "length data \<le> 1500"
  shows "\<exists>s' w'. session_packetInput io clk data s w = Some (s', w') \<and> session_ok s'
     \<and> (s' = s \<or> (\<exists>s1. carry s s1 \<and> s' = input_events (WaitSnd (us_kcp s)) s1))"
proof -
  have p: "parts_ok s" using assms(1) by (simp add: session_ok_def)
  then have h: "s_headerSize s = crypt_room (s_block s) + (if s_fecEncoder s = None then 0 else 8)" "block_fine (s_block s)"
    by (simp_all add: parts_ok_def)
  then have room: "crypt_room (s_block s) \<le> length data" using assms(3) by simp
  from open_packet_ok [OF assms(2) h(2) room] obtain r where
    r: "open_packet (io_libs io) (s_block s) data = Some r"
      "\<forall>body. r = Some body \<longrightarrow> length body = length data - crypt_room (s_block s)" by blast
  show ?thesis
  proof (cases r)
    case None
    then show ?thesis using r(1) assms(1) by (simp add: session_packetInput_def)
  next
    case (Some body)
    have "s_fecDecoder s \<noteq> None \<longrightarrow> 8 \<le> length body" "length body \<le> 1500"
      using Some r(2) h(1) assms(1,3,4) by (auto simp: session_ok_def)
    from kcpInput_ok [OF assms(1,2) this, of clk w] r(1) Some show ?thesis by (simp add: session_packetInput_def)
  qed
qed

end
