(* ===== verification/KcpDelivery.thy ===== *)
theory KcpDelivery
  imports KcpProperties "HOL-Library.Multiset"
begin

section \<open>Delivery: Send, parse\_data, Recv\<close>

text \<open>
  What the caller's bytes become, what reassembly does with the segments that arrive, and what
  a receiver gets back, on every branch and error code.
\<close>

subsection \<open>Send\<close>

lemma kcp_ok_mss: "kcp_ok k \<Longrightarrow> 0 < unat (mss k)" "kcp_ok k \<Longrightarrow> unat (mss k) \<le> mtuLimit"
  using layout_mss by (auto simp: kcp_ok_def)

lemma kcp_ok_queue: "kcp_ok k \<Longrightarrow> fits k q \<Longrightarrow> kcp_ok (k\<lparr>snd_queue := q\<rparr>)"
  by (simp add: kcp_ok_def layout_def send_inv_def recv_inv_def fits_def)

lemma Send_ok:
  assumes "kcp_ok k" "stream k = 0" "buf \<noteq> []" "frag_count buf k \<le> 255"
  shows "\<exists>segs. Send buf k = Some (0, k\<lparr>snd_queue := snd_queue k @ segs\<rparr>)
     \<and> concat (map seg_data segs) = buf \<and> length segs = frag_count buf k
     \<and> map seg_frg segs = map of_nat (rev [0..<frag_count buf k])
     \<and> (\<forall>s \<in> set segs. fresh s \<and> length (seg_data s) \<le> unat (mss k))
     \<and> kcp_ok (k\<lparr>snd_queue := snd_queue k @ segs\<rparr>)"
proof -
  from send_fragments_ok [OF kcp_ok_mss [OF assms(1)] assms(4)] obtain segs where
    segs: "send_fragments buf k = Some (0, k\<lparr>snd_queue := snd_queue k @ segs\<rparr>)"
      "length segs = frag_count buf k" "payload segs = buf"
      "\<forall>s \<in> set segs. fresh s \<and> length (seg_data s) \<le> unat (mss k)"
      "map seg_frg segs = frag_numbers k (frag_count buf k)"
    by blast
  have "fits k (snd_queue k @ segs)"
    using assms(1) segs(4) by (auto simp: kcp_ok_def fits_def)
  then have "kcp_ok (k\<lparr>snd_queue := snd_queue k @ segs\<rparr>)"
    by (rule kcp_ok_queue [OF assms(1)])
  with segs assms(2,3) show ?thesis
    by (auto simp: Send_def payload_def frag_numbers_def)
qed

text \<open>\<open>Send\<close> in message mode: an empty buffer is refused with -1 and one that would need
  more than 255 fragments with -2, both without an effect; otherwise the buffer is cut into
  \<open>ceil(len/mss)\<close> segments, none larger than \<open>mss\<close>, whose fragment numbers count down to 0 and
  whose payloads, put together, are the buffer. No case panics.\<close>

theorem Send_message:
  assumes "kcp_ok k" "stream k = 0"
  shows "if buf = [] then Send buf k = Some (-1, k)
     else if 255 < frag_count buf k then Send buf k = Some (-2, k)
     else \<exists>segs. Send buf k = Some (0, k\<lparr>snd_queue := snd_queue k @ segs\<rparr>)
        \<and> concat (map seg_data segs) = buf \<and> length segs = frag_count buf k
        \<and> map seg_frg segs = map of_nat (rev [0..<frag_count buf k])
        \<and> (\<forall>s \<in> set segs. fresh s \<and> length (seg_data s) \<le> unat (mss k))
        \<and> kcp_ok (k\<lparr>snd_queue := snd_queue k @ segs\<rparr>)"
  using assms send_fragments_too_many [OF kcp_ok_mss(1) [OF assms(1)]] Send_ok [OF assms, of buf]
  by (auto simp: Send_def)

theorem Send_message_witness:
  "if replicate 3000 7 = ([] :: bytes) then Send (replicate 3000 7) busy = Some (-1, busy)
     else if 255 < frag_count (replicate 3000 7) busy then Send (replicate 3000 7) busy = Some (-2, busy)
     else \<exists>segs. Send (replicate 3000 7) busy = Some (0, busy\<lparr>snd_queue := snd_queue busy @ segs\<rparr>)
        \<and> concat (map seg_data segs) = replicate 3000 7
        \<and> length segs = frag_count (replicate 3000 7) busy
        \<and> map seg_frg segs = map of_nat (rev [0..<frag_count (replicate 3000 7) busy])
        \<and> (\<forall>s \<in> set segs. fresh s \<and> length (seg_data s) \<le> unat (mss busy))
        \<and> kcp_ok (busy\<lparr>snd_queue := snd_queue busy @ segs\<rparr>)"
  by (rule Send_message [OF kcp_ok_busy]) (simp add: busy_def)

text \<open>\<open>Send\<close> in stream mode: the bytes are appended to the byte stream that waits in the
  queue, wherever the cuts between segments fall, when the part that does not fit into the last
  segment needs at most 255 fragments; the result is 0 and the invariant holds.\<close>

theorem Send_stream:
  assumes "kcp_ok k" "stream k \<noteq> 0" "buf \<noteq> []" "length buf \<le> 255 * unat (mss k)"
  shows "\<exists>q. Send buf k = Some (0, k\<lparr>snd_queue := q\<rparr>)
     \<and> concat (map seg_data q) = concat (map seg_data (snd_queue k)) @ buf
     \<and> length (snd_queue k) \<le> length q \<and> kcp_ok (k\<lparr>snd_queue := q\<rparr>)"
proof -
  note m = kcp_ok_mss [OF assms(1)]
  from stream_fill_ok [OF m(2), of buf] obtain rest q where
    fill: "stream_fill buf k = Some (rest, k\<lparr>snd_queue := q\<rparr>)" "length q = length (snd_queue k)"
      "payload q @ rest = payload (snd_queue k) @ buf"
    and elems: "\<forall>s \<in> set q. s \<in> set (snd_queue k) \<or> length (seg_data s) \<le> unat (mss k)
        \<and> (\<exists>t \<in> set (snd_queue k). s = t\<lparr>seg_data := seg_data s\<rparr>)"
    by blast
  let ?k = "k\<lparr>snd_queue := q\<rparr>"
  have fits: "fits k q" using elems assms(1) by (auto simp: fits_def kcp_ok_def)
  then have ok: "kcp_ok ?k" by (rule kcp_ok_queue [OF assms(1)])
  show ?thesis
  proof (cases "rest = []")
    case True
    with fill assms(2,3) ok show ?thesis
      by (intro exI [of _ q]) (auto simp: Send_def payload_def)
  next
    case False
    have "length rest \<le> length buf"
    proof -
      have "rest = drop (length buf - length rest) buf \<or> length rest \<le> length buf"
        using fill(1) by (auto simp: stream_fill_def Let_def split: if_splits)
      then show ?thesis by (metis diff_le_self length_drop)
    qed
    then have "length rest \<le> 255 * unat (mss k)" using assms(4) by simp
    then have "length rest + unat (mss k) - 1 < 256 * unat (mss k)" using m(1) by linarith
    then have "frag_count rest ?k \<le> 255"
      using less_mult_imp_div_less [of "length rest + unat (mss k) - 1" 256 "unat (mss k)"]
      by (simp add: frag_count_def)
    from send_fragments_ok [OF _ _ this] m obtain segs where
      segs: "send_fragments rest ?k = Some (0, ?k\<lparr>snd_queue := q @ segs\<rparr>)" "payload segs = rest"
        "\<forall>s \<in> set segs. fresh s \<and> length (seg_data s) \<le> unat (mss k)"
      by auto
    have "fits k (q @ segs)" using fits segs(3) by (auto simp: fits_def)
    then have "kcp_ok (k\<lparr>snd_queue := q @ segs\<rparr>)" by (rule kcp_ok_queue [OF assms(1)])
    moreover have "Send buf k = Some (0, k\<lparr>snd_queue := q @ segs\<rparr>)"
      using fill(1) segs(1) False assms(2,3) by (simp add: Send_def)
    moreover have "payload (q @ segs) = payload (snd_queue k) @ buf"
      using segs(2) fill(3) by simp
    ultimately show ?thesis
      using fill(2) by (intro exI [of _ "q @ segs"]) (simp add: payload_def)
  qed
qed

theorem Send_stream_witness:
  "\<exists>q. Send [9, 8, 7] (busy\<lparr>stream := 1\<rparr>) = Some (0, busy\<lparr>stream := 1\<rparr>\<lparr>snd_queue := q\<rparr>)
     \<and> concat (map seg_data q) = concat (map seg_data (snd_queue (busy\<lparr>stream := 1\<rparr>))) @ [9, 8, 7]
     \<and> length (snd_queue (busy\<lparr>stream := 1\<rparr>)) \<le> length q
     \<and> kcp_ok (busy\<lparr>stream := 1\<rparr>\<lparr>snd_queue := q\<rparr>)"
proof (rule Send_stream)
  show "kcp_ok (busy\<lparr>stream := 1\<rparr>)"
    using kcp_ok_busy by (simp add: kcp_ok_def layout_def send_inv_def recv_inv_def fits_def)
qed (simp_all add: busy_def)

subsection \<open>Recv\<close>

lemma Recv_frame:
  assumes "rcv_queue k \<noteq> []" "0 \<le> PeekSize k" "PeekSize k \<le> int (length buf)"
  shows "\<exists>k'. Recv buf k = Some (int (length (payload (first_msg (rcv_queue k)))),
       payload (first_msg (rcv_queue k)) @ drop (length (payload (first_msg (rcv_queue k)))) buf, k')
     \<and> same_config k k' \<and> same_send k k' \<and> same_rtt k k' \<and> (recv_inv k \<longrightarrow> recv_inv k')
     \<and> first_msg (rcv_queue k) @ rcv_queue k' @ rcv_buf k' = rcv_queue k @ rcv_buf k
     \<and> acklist k' = acklist k"
proof -
  let ?m = "first_msg (rcv_queue k)"
  let ?k0 = "k\<lparr>rcv_queue := drop (length ?m) (rcv_queue k)\<rparr>"
  let ?k1 = "move_ready ?k0"
  have "?m @ rcv_queue ?k1 @ rcv_buf ?k1 = rcv_queue k @ rcv_buf k"
    using first_msg_drop [of "rcv_queue k"]
    by (simp add: move_ready_eq del: append_assoc add: append_assoc [symmetric])
      (simp add: append_assoc)
  moreover have "recv_inv k \<longrightarrow> recv_inv ?k1"
    using move_ready_inv [of ?k0] by (simp add: recv_inv_def)
  ultimately show ?thesis
    unfolding Recv_ok [OF assms] by (simp add: recv_inv_def same_defs move_ready_eq)
qed

text \<open>\<open>Recv\<close> is total. With nothing queued it returns -1, with an incomplete message -2 and
  with a buffer that is too small -3, and changes nothing; otherwise it returns the length of
  the first message, the message at the front of the caller's buffer and the rest of the buffer
  untouched, removes exactly that message, loses no other segment, and keeps the invariant.\<close>

theorem Recv_spec:
  assumes "kcp_ok k"
  shows "if rcv_queue k = [] then Recv buf k = Some (-1, buf, k)
     else if PeekSize k < 0 then Recv buf k = Some (-2, buf, k)
     else if int (length buf) < PeekSize k then Recv buf k = Some (-3, buf, k)
     else \<exists>k'. Recv buf k = Some (PeekSize k,
              concat (map seg_data (first_msg (rcv_queue k))) @ drop (nat (PeekSize k)) buf, k')
        \<and> PeekSize k = int (length (concat (map seg_data (first_msg (rcv_queue k)))))
        \<and> first_msg (rcv_queue k) @ rcv_queue k' @ rcv_buf k' = rcv_queue k @ rcv_buf k
        \<and> kcp_ok k'"
proof (cases "rcv_queue k = [] \<or> PeekSize k < 0 \<or> int (length buf) < PeekSize k")
  case True
  then show ?thesis by (auto simp: Recv_def)
next
  case False
  then have pre: "rcv_queue k \<noteq> []" "0 \<le> PeekSize k" "PeekSize k \<le> int (length buf)" by auto
  note peek = PeekSize_nonneg [OF pre(2)]
  from Recv_frame [OF pre] obtain k' where k':
    "Recv buf k = Some (int (length (payload (first_msg (rcv_queue k)))),
       payload (first_msg (rcv_queue k)) @ drop (length (payload (first_msg (rcv_queue k)))) buf, k')"
    "same_config k k'" "same_send k k'" "recv_inv k \<longrightarrow> recv_inv k'"
    "first_msg (rcv_queue k) @ rcv_queue k' @ rcv_buf k' = rcv_queue k @ rcv_buf k"
    by blast
  have "kcp_ok k'"
    using assms k'(2-4) layout_config [OF k'(2)] fits_config [OF k'(2)]
    by (simp add: kcp_ok_def same_send_def same_config_def send_inv_def)
  with False k'(1,5) peek show ?thesis by (auto simp: payload_def)
qed

text \<open>A receiver with a message of two fragments at hand.\<close>

definition arrived :: KCP where
  "arrived = busy\<lparr>rcv_nxt := 2,
     rcv_queue := [segment0\<lparr>seg_frg := 1, seg_data := [8]\<rparr>, segment0\<lparr>seg_sn := 1, seg_data := [9]\<rparr>],
     rcv_buf := [segment0\<lparr>seg_sn := 2, seg_data := [5]\<rparr>, segment0\<lparr>seg_sn := 4, seg_data := [6]\<rparr>]\<rparr>"

lemma kcp_ok_arrived: "kcp_ok arrived"
  using kcp_ok_busy
  by (simp add: kcp_ok_def arrived_def layout_def send_inv_def recv_inv_def fits_def
      seq_ordered_def segment0_def)

theorem Recv_spec_witness:
  "if rcv_queue arrived = [] then Recv [1, 2, 3] arrived = Some (-1, [1, 2, 3], arrived)
     else if PeekSize arrived < 0 then Recv [1, 2, 3] arrived = Some (-2, [1, 2, 3], arrived)
     else if int (length ([1, 2, 3] :: bytes)) < PeekSize arrived then Recv [1, 2, 3] arrived = Some (-3, [1, 2, 3], arrived)
     else \<exists>k'. Recv [1, 2, 3] arrived = Some (PeekSize arrived,
              concat (map seg_data (first_msg (rcv_queue arrived))) @ drop (nat (PeekSize arrived)) [1, 2, 3], k')
        \<and> PeekSize arrived = int (length (concat (map seg_data (first_msg (rcv_queue arrived)))))
        \<and> first_msg (rcv_queue arrived) @ rcv_queue k' @ rcv_buf k' = rcv_queue arrived @ rcv_buf arrived
        \<and> kcp_ok k'"
  by (rule Recv_spec [OF kcp_ok_arrived])

subsection \<open>From Send to Recv\<close>

lemma first_msg_countdown:
  assumes "map seg_frg q = map of_nat (rev [0..<n])" "0 < n" "n \<le> 256"
  shows "first_msg (q @ rest) = q"
  using assms
proof (induction n arbitrary: q)
  case 0
  then show ?case by simp
next
  case (Suc n)
  then obtain s q' where q: "q = s # q'" "seg_frg s = of_nat n" "map seg_frg q' = map of_nat (rev [0..<n])"
    by auto
  show ?case
  proof (cases "n = 0")
    case True
    with q show ?thesis by simp
  next
    case False
    have "unat (of_nat n :: u8) = n" using Suc.prems(3) by (simp add: unat_of_nat)
    with False have "seg_frg s \<noteq> 0" using q(2) by auto
    with Suc.IH [OF q(3)] Suc.prems(3) False q(1) show ?thesis by simp
  qed
qed

lemma PeekSize_countdown:
  assumes "rcv_queue r = q @ rest" "map seg_frg q = map of_nat (rev [0..<n])" "0 < n" "n \<le> 255"
  shows "PeekSize r = int (length (concat (map seg_data q)))"
proof -
  have len: "length q = n" using arg_cong [OF assms(2), of length] by simp
  with assms(3) obtain s q' where q: "q = s # q'" by (cases q) auto
  have frg: "seg_frg s = of_nat (n - 1)"
    using assms(2,3) q by (cases n) auto
  then have "seg_frg s + 1 = of_nat n" using assms(3) by (cases n) (auto simp: add.commute)
  then have "unat (seg_frg s + 1) = n" using assms(4) by (simp add: unat_of_nat)
  then have "0 \<le> PeekSize r"
    using len assms(1) q by (simp add: PeekSize_def)
  from PeekSize_nonneg [OF this] show ?thesis
    using first_msg_countdown [OF assms(2,3)] assms(1,4) by (simp add: payload_def)
qed

text \<open>Message boundaries: whatever message \<open>Send\<close> accepts in message mode, a receiver
  whose queue starts with the fragments it produced gets exactly that message, in one \<open>Recv\<close>,
  into any buffer that is large enough, whatever else is queued behind it.\<close>

theorem send_recv_message:
  assumes "kcp_ok k" "stream k = 0" "Send buf k = Some (0, k')"
    "map (\<lambda>s. (seg_frg s, seg_data s)) (rcv_queue r) =
     map (\<lambda>s. (seg_frg s, seg_data s)) (drop (length (snd_queue k)) (snd_queue k')) @ rest"
    "length buf \<le> length out"
  shows "\<exists>r'. Recv out r = Some (int (length buf), buf @ drop (length buf) out, r')"
proof -
  let ?n = "frag_count buf k"
  have "Send buf k = (if buf = [] then Some (-1, k) else send_fragments buf k)"
    using assms(2) by (simp add: Send_def)
  with assms(3) send_fragments_too_many [OF kcp_ok_mss(1) [OF assms(1)], of buf]
  have sent: "buf \<noteq> []" "?n \<le> 255" by (auto simp: not_less [symmetric] split: if_splits)
  from Send_ok [OF assms(1,2) sent] assms(3) obtain segs where
    k': "k' = k\<lparr>snd_queue := snd_queue k @ segs\<rparr>" "concat (map seg_data segs) = buf"
      "length segs = ?n" "map seg_frg segs = map of_nat (rev [0..<?n])"
    by auto
  define q where "q = take ?n (rcv_queue r)"
  define rest' where "rest' = drop ?n (rcv_queue r)"
  have queue: "rcv_queue r = q @ rest'" by (simp add: q_def rest'_def)
  have pairs: "map (\<lambda>s. (seg_frg s, seg_data s)) q = map (\<lambda>s. (seg_frg s, seg_data s)) segs"
    using arg_cong [OF assms(4), of "take ?n"] k'(1,3) by (simp add: q_def take_map)
  have frg: "map seg_frg q = map of_nat (rev [0..<?n])"
    using arg_cong [OF pairs, of "map fst"] k'(4) by (simp add: comp_def)
  have data: "concat (map seg_data q) = buf"
    using arg_cong [OF pairs, of "map snd"] k'(2) by (simp add: comp_def)
  have n: "0 < ?n" by (rule frag_count_pos [OF kcp_ok_mss(1) [OF assms(1)]])
  have peek: "PeekSize r = int (length buf)"
    using PeekSize_countdown [OF queue frg n sent(2)] data by simp
  have "first_msg (rcv_queue r) = q"
    unfolding queue using first_msg_countdown [OF frg n] sent(2) by simp
  moreover have "rcv_queue r \<noteq> []"
    using queue frg n by auto
  moreover have "0 \<le> PeekSize r" "PeekSize r \<le> int (length out)"
    using peek assms(5) by simp_all
  moreover note Recv_frame [of r out]
  ultimately show ?thesis
    using data by (auto simp: payload_def)
qed

theorem send_recv_message_witness:
  "\<exists>r'. Recv (replicate 3 0) (arrived\<lparr>rcv_queue := [segment0\<lparr>seg_data := [1, 2]\<rparr>]\<rparr>) =
     Some (int (length ([1, 2] :: bytes)), [1, 2] @ drop (length ([1, 2] :: bytes)) (replicate 3 0), r')"
proof (rule send_recv_message [where k = "NewKCP 3" and rest = "[]"
      and k' = "(NewKCP 3)\<lparr>snd_queue := [segment0\<lparr>seg_data := [1, 2]\<rparr>]\<rparr>"])
  show "Send [1, 2] (NewKCP 3) = Some (0, (NewKCP 3)\<lparr>snd_queue := [segment0\<lparr>seg_data := [1, 2]\<rparr>]\<rparr>)"
    by (simp add: Send_def send_fragments_def newSegment_def go_copy_def segment0_def)
qed (simp_all add: kcp_ok_NewKCP segment0_def)

subsection \<open>Reassembly\<close>

lemma recv_inv_head:
  assumes "recv_inv k" "rcv_buf k \<noteq> [] \<Longrightarrow> seg_sn (rcv_buf k ! 0) \<noteq> rcv_nxt k"
  shows "rcv_nxt k \<notin> seg_sn ` set (rcv_buf k)"
proof
  assume "rcv_nxt k \<in> seg_sn ` set (rcv_buf k)"
  then obtain i where i: "i < length (rcv_buf k)" "seg_sn (rcv_buf k ! i) = rcv_nxt k"
    by (metis imageE in_set_conv_nth)
  from seq_ordered_offset_ge [of seg_sn "rcv_nxt k" "rcv_buf k" i] i assms(1)
  have "i = 0" by (simp add: recv_inv_def)
  moreover have "rcv_buf k \<noteq> []" using i(1) by auto
  ultimately show False using i(2) assms(2) by simp
qed

lemma move_ready_spec:
  assumes "recv_inv k"
  shows "\<exists>run. rcv_queue (move_ready k) = rcv_queue k @ run
     \<and> map seg_sn run = seqs (rcv_nxt k) (length run)
     \<and> rcv_nxt (move_ready k) = rcv_nxt k + of_nat (length run)
     \<and> run @ rcv_buf (move_ready k) = rcv_buf k
     \<and> (length (rcv_queue k) < unat (rcv_wnd k) \<longrightarrow>
          rcv_nxt (move_ready k) \<notin> seg_sn ` set (rcv_buf (move_ready k)))"
proof -
  let ?n = "n_ready k" and ?k = "move_ready k"
  note spec = n_ready_spec [of k]
  have "rcv_nxt ?k \<notin> seg_sn ` set (rcv_buf ?k)" if "length (rcv_queue k) < unat (rcv_wnd k)"
    using spec(3) [OF that]
    by (intro recv_inv_head move_ready_inv assms) (simp add: move_ready_eq)
  then show ?thesis
    using spec(1,2) by (intro exI [of _ "take ?n (rcv_buf k)"]) (simp add: move_ready_eq min_def)
qed

definition in_rcv_window :: "u32 \<Rightarrow> KCP \<Rightarrow> bool" where
  "in_rcv_window sn k \<longleftrightarrow> itimediff sn (rcv_nxt k) \<ge> 0 \<and> itimediff sn (rcv_nxt k + rcv_wnd k) < 0"

lemma parse_data_repeat:
  assumes "in_rcv_window sn k" "recv_inv k"
  shows "rcv_scan sn (rcv_buf k) = None \<longleftrightarrow> sn \<in> seg_sn ` set (rcv_buf k)"
proof -
  have "unat (sn - rcv_nxt k) < 2 ^ 31"
    using assms(1) by (simp add: in_rcv_window_def itimediff_nonneg_iff)
  moreover have "sn \<in> seg_sn ` set (rcv_buf k)" if "rcv_scan sn (rcv_buf k) = None"
    using that unfolding rcv_scan_def by (rule seq_scan_None) simp
  ultimately show ?thesis
    using rcvq.scan_fresh [of "rcv_nxt k" "rcv_buf k" sn] assms(2)
    by (cases "rcv_scan sn (rcv_buf k)") (auto simp: recv_inv_def)
qed

text \<open>C38. Reassembly: \<open>parse_data\<close> reports a repeat exactly for a number outside the receive
  window or already buffered; a new segment is kept, no other is lost or duplicated; what it
  appends to the receive queue is the run of consecutive numbers from \<open>rcv_nxt\<close>, which advances
  past it; and unless the queue is full no number that could follow is left in the buffer.\<close>

theorem parse_data_reassembles:
  assumes "kcp_ok k" "length (seg_data seg) \<le> mtuLimit"
  shows "\<exists>rep k' run. parse_data seg k = Some (rep, k') \<and> kcp_ok k'
     \<and> (rep \<longleftrightarrow> \<not> in_rcv_window (seg_sn seg) k \<or> seg_sn seg \<in> seg_sn ` set (rcv_buf k))
     \<and> mset (rcv_queue k' @ rcv_buf k') =
         mset (rcv_queue k @ rcv_buf k) + (if rep then {#} else {#seg#})
     \<and> rcv_queue k' = rcv_queue k @ run \<and> map seg_sn run = seqs (rcv_nxt k) (length run)
     \<and> rcv_nxt k' = rcv_nxt k + of_nat (length run)
     \<and> (in_rcv_window (seg_sn seg) k \<longrightarrow> length (rcv_queue k) < unat (rcv_wnd k) \<longrightarrow>
          rcv_nxt k' \<notin> seg_sn ` set (rcv_buf k'))"
proof -
  let ?sn = "seg_sn seg"
  have inv: "recv_inv k" using assms(1) by (simp add: kcp_ok_def)
  have ok: "kcp_ok k'" if "parse_data seg k = Some (rep, k')" for rep k'
    using parse_data_frame [OF that] parse_data_inv [OF inv that] assms(1)
      layout_config [of k k'] fits_config [of k k']
    by (simp add: kcp_ok_def same_send_def same_config_def send_inv_def)
  show ?thesis
  proof (cases "in_rcv_window ?sn k")
    case False
    then have "parse_data seg k = Some (True, k)"
      by (auto simp: parse_data_def in_rcv_window_def Let_def)
    with False assms(1) show ?thesis by (intro exI [of _ True] exI [of _ k] exI [of _ "[]"]) simp
  next
    case True
    then have win: "\<not> (itimediff ?sn (rcv_nxt k + rcv_wnd k) \<ge> 0 \<or> itimediff ?sn (rcv_nxt k) < 0)"
      by (auto simp: in_rcv_window_def)
    show ?thesis
    proof (cases "rcv_scan ?sn (rcv_buf k)")
      case None
      then have eq: "parse_data seg k = Some (True, move_ready k)"
        using win by (simp add: parse_data_def)
      from move_ready_spec [OF inv] obtain run where run:
        "rcv_queue (move_ready k) = rcv_queue k @ run" "map seg_sn run = seqs (rcv_nxt k) (length run)"
        "rcv_nxt (move_ready k) = rcv_nxt k + of_nat (length run)"
        "run @ rcv_buf (move_ready k) = rcv_buf k"
        "length (rcv_queue k) < unat (rcv_wnd k) \<longrightarrow>
           rcv_nxt (move_ready k) \<notin> seg_sn ` set (rcv_buf (move_ready k))" by blast
      have "rcv_queue (move_ready k) @ rcv_buf (move_ready k) = rcv_queue k @ rcv_buf k"
        using run(1,4) by simp
      with eq ok [OF eq] run(1-3,5) parse_data_repeat [OF True inv] None show ?thesis
        by (intro exI [of _ True] exI [of _ "move_ready k"] exI [of _ run]) simp
    next
      case (Some i)
      let ?k = "k\<lparr>rcv_buf := rcv_insert i seg (rcv_buf k)\<rparr>"
      have eq: "parse_data seg k = Some (False, move_ready ?k)"
        using win Some assms(2) by (simp add: parse_data_def)
      have off: "unat (?sn - rcv_nxt k) < 2 ^ 31"
        using True by (simp add: in_rcv_window_def itimediff_nonneg_iff)
      have "recv_inv ?k"
        using rcvq.insert_ordered [of "rcv_nxt k" "rcv_buf k" seg i] inv off Some
        by (simp add: recv_inv_def)
      from move_ready_spec [OF this] obtain run where run:
        "rcv_queue (move_ready ?k) = rcv_queue k @ run" "map seg_sn run = seqs (rcv_nxt k) (length run)"
        "rcv_nxt (move_ready ?k) = rcv_nxt k + of_nat (length run)"
        "run @ rcv_buf (move_ready ?k) = rcv_insert i seg (rcv_buf k)"
        "length (rcv_queue k) < unat (rcv_wnd k) \<longrightarrow>
           rcv_nxt (move_ready ?k) \<notin> seg_sn ` set (rcv_buf (move_ready ?k))" by auto
      have "i \<le> length (rcv_buf k)"
        using seq_scan_Some [of seg_sn "rcv_nxt k" "rcv_buf k" ?sn "length (rcv_buf k)" i] inv off Some
        by (simp add: recv_inv_def rcv_scan_def)
      then have ins: "rcv_insert i seg (rcv_buf k) = take i (rcv_buf k) @ seg # drop i (rcv_buf k)"
        unfolding rcv_insert_def by (rule seq_insert_eq)
      have "mset (take i (rcv_buf k)) + mset (drop i (rcv_buf k)) = mset (rcv_buf k)"
        by (metis append_take_drop_id mset_append)
      then have "mset (rcv_insert i seg (rcv_buf k)) = mset (rcv_buf k) + {#seg#}"
        unfolding ins by (simp add: union_ac)
      then have "mset (rcv_queue (move_ready ?k) @ rcv_buf (move_ready ?k)) =
          mset (rcv_queue k @ rcv_buf k) + {#seg#}"
        using run(4) unfolding run(1) append_assoc by (simp add: union_ac)
      with eq ok [OF eq] run(1-3,5) parse_data_repeat [OF True inv] Some True show ?thesis
        by (intro exI [of _ False] exI [of _ "move_ready ?k"] exI [of _ run]) simp
    qed
  qed
qed

theorem parse_data_reassembles_witness:
  "\<exists>rep k' run. parse_data (segment0\<lparr>seg_sn := 3, seg_data := [7]\<rparr>) arrived = Some (rep, k') \<and> kcp_ok k'
     \<and> (rep \<longleftrightarrow> \<not> in_rcv_window (seg_sn (segment0\<lparr>seg_sn := 3, seg_data := [7]\<rparr>)) arrived
          \<or> seg_sn (segment0\<lparr>seg_sn := 3, seg_data := [7]\<rparr>) \<in> seg_sn ` set (rcv_buf arrived))
     \<and> mset (rcv_queue k' @ rcv_buf k') = mset (rcv_queue arrived @ rcv_buf arrived)
         + (if rep then {#} else {#segment0\<lparr>seg_sn := 3, seg_data := [7]\<rparr>#})
     \<and> rcv_queue k' = rcv_queue arrived @ run
     \<and> map seg_sn run = seqs (rcv_nxt arrived) (length run)
     \<and> rcv_nxt k' = rcv_nxt arrived + of_nat (length run)
     \<and> (in_rcv_window (seg_sn (segment0\<lparr>seg_sn := 3, seg_data := [7]\<rparr>)) arrived \<longrightarrow>
          length (rcv_queue arrived) < unat (rcv_wnd arrived) \<longrightarrow>
          rcv_nxt k' \<notin> seg_sn ` set (rcv_buf k'))"
  by (rule parse_data_reassembles [OF kcp_ok_arrived]) (simp add: segment0_def)

end
