(* ===== verification/KcpTransfer.thy ===== *)
theory KcpTransfer
  imports KcpDelivery KcpTiming
begin

section \<open>Transfer over a faulty network\<close>

text \<open>
  One direction of a conversation: a sender and a receiver, each a KCP state machine, and a
  network that may lose, duplicate, delay and reorder the sender's packets. The receiver gets
  any packet the sender ever emitted, any number of times and in any order; the sender gets
  arbitrary bytes. Every operation of both ends may happen at any time, with any clock.
\<close>

record link =
  near :: KCP
  near_w :: world
  far :: KCP
  far_w :: world
  numbered :: "segment list"
  given :: bytes
  got :: bytes

text \<open>
  \<open>numbered\<close> lists the segments the sender has assigned a sequence number to, \<open>given\<close> the
  bytes its application has sent (in stream mode a \<open>Send\<close> that is refused may have queued a
  part), \<open>got\<close> those the receiver's application has read.
\<close>

inductive step :: "link \<Rightarrow> link \<Rightarrow> bool" where
  near_send: "Send buf (near l) = Some (0, k) \<Longrightarrow>
     step l (l\<lparr>near := k, given := given l @ buf\<rparr>)"
| near_refused: "Send buf (near l) = Some (r, k) \<Longrightarrow> r \<noteq> 0 \<Longrightarrow>
     step l (l\<lparr>near := k, given := given l
               @ drop (length (payload (snd_queue (near l)))) (payload (snd_queue k))\<rparr>)"
| near_flush: "flush clk ackOnly (near l) (near_w l) = Some (r, k, w) \<Longrightarrow>
     step l (l\<lparr>near := k, near_w := w,
               numbered := numbered l @ drop (length (snd_buf (near l))) (snd_buf k)\<rparr>)"
| near_update: "Update clk (near l) (near_w l) = Some (k, w) \<Longrightarrow>
     step l (l\<lparr>near := k, near_w := w,
               numbered := numbered l @ drop (length (snd_buf (near l))) (snd_buf k)\<rparr>)"
| near_input: "length data \<le> mtuLimit \<Longrightarrow>
     Input clk data regular nd (near l) (near_w l) = Some (r, k, w) \<Longrightarrow>
     step l (l\<lparr>near := k, near_w := w\<rparr>)"
| near_recv: "Recv buf (near l) = Some (n, buf', k) \<Longrightarrow> step l (l\<lparr>near := k\<rparr>)"
| far_input: "p \<in> set (outs (near_w l)) \<Longrightarrow>
     Input clk p regular nd (far l) (far_w l) = Some (r, k, w) \<Longrightarrow>
     step l (l\<lparr>far := k, far_w := w\<rparr>)"
| far_recv: "Recv buf (far l) = Some (n, buf', k) \<Longrightarrow>
     step l (l\<lparr>far := k, got := got l @ take (nat n) buf'\<rparr>)"
| far_send: "Send buf (far l) = Some (r, k) \<Longrightarrow> step l (l\<lparr>far := k\<rparr>)"
| far_flush: "flush clk ackOnly (far l) (far_w l) = Some (r, k, w) \<Longrightarrow>
     step l (l\<lparr>far := k, far_w := w\<rparr>)"
| far_update: "Update clk (far l) (far_w l) = Some (k, w) \<Longrightarrow>
     step l (l\<lparr>far := k, far_w := w\<rparr>)"

text \<open>Two connections with the same conversation id and nothing queued anywhere.\<close>

definition fresh_near :: "KCP \<Rightarrow> bool" where
  "fresh_near k \<longleftrightarrow> kcp_ok k \<and> snd_buf k = [] \<and> snd_queue k = [] \<and> snd_nxt k = 0"

definition fresh_far :: "KCP \<Rightarrow> bool" where
  "fresh_far k \<longleftrightarrow> kcp_ok k \<and> rcv_queue k = [] \<and> rcv_buf k = [] \<and> rcv_nxt k = 0"

inductive reachable :: "link \<Rightarrow> bool" where
  start: "fresh_near a \<Longrightarrow> fresh_far b \<Longrightarrow> kconv a = kconv b \<Longrightarrow> outs w = [] \<Longrightarrow>
     reachable \<lparr>near = a, near_w = w, far = b, far_w = w', numbered = [], given = [], got = []\<rparr>"
| step: "reachable l \<Longrightarrow> step l l' \<Longrightarrow> reachable l'"

inductive_cases step_cases: "step l l'"

subsection \<open>Segments that carry logged data\<close>

definition logged :: "u32 \<Rightarrow> segment list \<Rightarrow> segment \<Rightarrow> bool" where
  "logged conv log s \<longleftrightarrow> seg_conv s = conv \<and> seg_cmd s = IKCP_CMD_PUSH
     \<and> length (seg_data s) \<le> mtuLimit
     \<and> (\<exists>i < length log. seg_sn s = of_nat i \<and> seg_data s = seg_data (log ! i))"

lemma logged_append: "logged conv log s \<Longrightarrow> logged conv (log @ ext) s"
  unfolding logged_def by (metis length_append nth_append trans_less_add1)

definition carried :: "u32 \<Rightarrow> segment list \<Rightarrow> bytes \<Rightarrow> bool" where
  "carried conv log p \<longleftrightarrow> length p \<le> mtuLimit
     \<and> (\<exists>segs. p = packet segs \<and> (\<forall>s \<in> set segs. control conv s \<or> logged conv log s))"

lemma carried_append: "carried conv log p \<Longrightarrow> carried conv (log @ ext) p"
  unfolding carried_def using logged_append by blast

lemma carried_sent:
  assumes "sent k w L w'" "layout k" "\<forall>s \<in> set L. control conv s \<or> logged conv log s"
    "\<forall>p \<in> set (outs w). carried conv log p"
  shows "\<forall>p \<in> set (outs w'). carried conv log p"
proof -
  from assms(1) obtain groups where g: "outs w' = outs w @ map packet groups" "concat groups = L"
    "\<forall>g \<in> set groups. reserved k + length (packet g) \<le> unat (mtu k)"
    unfolding sent_def by blast
  have "carried conv log (packet g)" if "g \<in> set groups" for g
    using that g(2,3) assms(2,3) unfolding carried_def layout_def by fastforce
  with g(1) assms(4) show ?thesis by auto
qed

subsection \<open>The sender's invariant\<close>

definition near_inv :: "KCP \<Rightarrow> world \<Rightarrow> segment list \<Rightarrow> bytes \<Rightarrow> bool" where
  "near_inv k w log bs \<longleftrightarrow> kcp_ok k \<and> snd_nxt k = of_nat (length log)
     \<and> bs = payload log @ payload (snd_queue k)
     \<and> (\<forall>s \<in> set (snd_buf k). seg_acked s \<noteq> 1 \<longrightarrow> logged (kconv k) log s)
     \<and> (\<forall>p \<in> set (outs w). carried (kconv k) log p)"

lemma Send_queue:
  assumes "kcp_ok k" "Send buf k = Some (0, k')"
  shows "kcp_ok k'" "k' = k\<lparr>snd_queue := snd_queue k'\<rparr>"
    "payload (snd_queue k') = payload (snd_queue k) @ buf"
proof -
  note m = kcp_ok_mss [OF assms(1)]
  have frag: "\<exists>segs. k2 = k1\<lparr>snd_queue := snd_queue k1 @ segs\<rparr> \<and> payload segs = b
      \<and> (\<forall>s \<in> set segs. length (seg_data s) \<le> unat (mss k))"
    if "send_fragments b k1 = Some (0, k2)" "mss k1 = mss k" for b k1 k2
  proof -
    have "frag_count b k1 \<le> 255"
      using that send_fragments_too_many [of k1 b] m(1) by (cases "255 < frag_count b k1") auto
    from send_fragments_ok [OF _ _ this] m that show ?thesis by fastforce
  qed
  obtain q where q: "k' = k\<lparr>snd_queue := q\<rparr>" "fits k q" "payload q = payload (snd_queue k) @ buf"
  proof (cases "stream k = 0")
    case True
    with assms(2) have "send_fragments buf k = Some (0, k')"
      by (auto simp: Send_def split: if_splits)
    from frag [OF this refl] obtain segs where "k' = k\<lparr>snd_queue := snd_queue k @ segs\<rparr>"
      "payload segs = buf" "\<forall>s \<in> set segs. length (seg_data s) \<le> unat (mss k)" by blast
    with assms(1) show thesis
      by (intro that [of "snd_queue k @ segs"]) (auto simp: kcp_ok_def fits_def)
  next
    case False
    from stream_fill_ok [OF m(2), of buf] obtain rest q1 where
      fill: "stream_fill buf k = Some (rest, k\<lparr>snd_queue := q1\<rparr>)"
        "payload q1 @ rest = payload (snd_queue k) @ buf"
      and elems: "\<forall>s \<in> set q1. s \<in> set (snd_queue k) \<or> length (seg_data s) \<le> unat (mss k)
        \<and> (\<exists>t \<in> set (snd_queue k). s = t\<lparr>seg_data := seg_data s\<rparr>)"
      by blast
    have fits: "fits k q1" using elems assms(1) by (auto simp: fits_def kcp_ok_def)
    have nil: "buf \<noteq> []" using assms(2) by (auto simp: Send_def)
    show thesis
    proof (cases "rest = []")
      case True
      with assms(2) False fill nil have "k' = k\<lparr>snd_queue := q1\<rparr>" by (simp add: Send_def)
      with that fits fill(2) True show thesis by simp
    next
      case rest: False
      with assms(2) False fill nil have "send_fragments rest (k\<lparr>snd_queue := q1\<rparr>) = Some (0, k')"
        by (simp add: Send_def)
      from frag [OF this] obtain segs where "k' = k\<lparr>snd_queue := q1 @ segs\<rparr>"
        "payload segs = rest" "\<forall>s \<in> set segs. length (seg_data s) \<le> unat (mss k)" by auto
      with fits fill(2) show thesis
        by (intro that [of "q1 @ segs"]) (auto simp: fits_def)
    qed
  qed
  from kcp_ok_queue [OF assms(1) q(2)] q show "kcp_ok k'" "k' = k\<lparr>snd_queue := snd_queue k'\<rparr>"
    "payload (snd_queue k') = payload (snd_queue k) @ buf" by simp_all
qed

lemma Send_any:
  assumes "kcp_ok k" "Send buf k = Some (r, k')"
  shows "\<exists>q ext. k' = k\<lparr>snd_queue := q\<rparr> \<and> kcp_ok k' \<and> payload q = payload (snd_queue k) @ ext"
proof (cases "r = 0")
  case True
  with Send_queue [OF assms(1)] assms(2) show ?thesis by blast
next
  case False
  note m = kcp_ok_mss [OF assms(1)]
  have frag: "k2 = k1" if "send_fragments b k1 = Some (r, k2)" "mss k1 = mss k" for b k1 k2
  proof -
    have "255 < frag_count b k1"
      using send_fragments_ok [of k1 b] m that False by (cases "frag_count b k1 \<le> 255") auto
    with send_fragments_too_many [of k1 b] m that show ?thesis by simp
  qed
  show ?thesis
  proof (cases "buf = [] \<or> stream k = 0")
    case True
    with assms(2) frag [of buf k k'] have "k' = k" by (auto simp: Send_def split: if_splits)
    with assms(1) show ?thesis by (intro exI [of _ "snd_queue k"]) simp
  next
    case stream: False
    from stream_fill_ok [OF m(2), of buf] obtain rest q where
      fill: "stream_fill buf k = Some (rest, k\<lparr>snd_queue := q\<rparr>)"
        "payload q @ rest = payload (snd_queue k) @ buf"
      and elems: "\<forall>s \<in> set q. s \<in> set (snd_queue k) \<or> length (seg_data s) \<le> unat (mss k)
        \<and> (\<exists>t \<in> set (snd_queue k). s = t\<lparr>seg_data := seg_data s\<rparr>)"
      by blast
    have "fits k q" using elems assms(1) by (auto simp: fits_def kcp_ok_def)
    then have ok: "kcp_ok (k\<lparr>snd_queue := q\<rparr>)" by (rule kcp_ok_queue [OF assms(1)])
    have k': "k' = k\<lparr>snd_queue := q\<rparr>"
      using assms(2) stream fill(1) False frag [of rest "k\<lparr>snd_queue := q\<rparr>" k']
      by (auto simp: Send_def split: if_splits)
    have "length rest \<le> length buf"
      using fill(1) by (auto simp: stream_fill_def Let_def split: if_splits)
    then have "\<exists>ext. payload q = payload (snd_queue k) @ ext"
      using fill(2) by (auto simp: append_eq_append_conv2)
    with ok k' show ?thesis by blast
  qed
qed

lemma near_refused_inv:
  assumes "near_inv k w log bs" "Send buf k = Some (r, k')"
  shows "near_inv k' w log (bs @ drop (length (payload (snd_queue k))) (payload (snd_queue k')))"
    "kconv k' = kconv k"
proof -
  have ok: "kcp_ok k" using assms(1) by (simp add: near_inv_def)
  from Send_any [OF ok assms(2)] obtain q ext where
    "k' = k\<lparr>snd_queue := q\<rparr>" "kcp_ok k'" "payload q = payload (snd_queue k) @ ext" by blast
  with assms(1) show "near_inv k' w log (bs @ drop (length (payload (snd_queue k))) (payload (snd_queue k')))"
    "kconv k' = kconv k"
    by (simp_all add: near_inv_def)
qed

lemma near_send_inv:
  assumes "near_inv k w log bs" "Send buf k = Some (0, k')"
  shows "near_inv k' w log (bs @ buf)" "kconv k' = kconv k"
proof -
  have ok: "kcp_ok k" using assms(1) by (simp add: near_inv_def)
  note Send_queue [OF ok assms(2)]
  then obtain q where "k' = k\<lparr>snd_queue := q\<rparr>" "kcp_ok k'" "payload q = payload (snd_queue k) @ buf"
    by (metis KCP.select_convs(29) KCP.surjective KCP.update_convs(29))
  then show "near_inv k' w log (bs @ buf)" "kconv k' = kconv k"
    using assms(1) by (simp_all add: near_inv_def)
qed

lemma logged_kept: "kept s t \<Longrightarrow> logged conv log s \<Longrightarrow> logged conv log t"
  by (simp add: logged_def kept_def)

lemma payload_cong: "map seg_data a = map seg_data b \<Longrightarrow> payload a = payload b"
  by (simp add: payload_def)

lemma control_not_data: "L = ack_segs nxt seg acks \<Longrightarrow> control conv seg \<Longrightarrow>
    \<forall>s \<in> set L. control conv s \<or> logged conv log s"
  using ack_segs_control by blast

lemma near_full_flush:
  assumes "near_inv k w log bs" "flush clk False k w = Some (r, k', w')"
  shows "near_inv k' w' (log @ drop (length (snd_buf k)) (snd_buf k')) bs" "kconv k' = kconv k"
proof -
  have ok: "kcp_ok k" using assms(1) by (simp add: near_inv_def)
  from kcp_ok_flush [OF ok, of clk w] assms(2) obtain C where
    fl: "flushed clk k w C (r, k', w')" by auto
  let ?n = "n_admit k" and ?L = "length (snd_buf k)"
  define new where "new = drop ?L (snd_buf k')"
  have nle: "?n \<le> length (snd_queue k)" by (simp add: n_admit_def)
  have rel: "list_all2 xmit_rel (snd_buf k) (take ?L (snd_buf k'))"
    "list_all2 xmit_rel (admitted k ?n) new"
    using flushedD(3) [OF fl] by (auto simp: new_def list_all2_append1)
  have len: "length new = ?n" using list_all2_lengthD [OF rel(2)] by simp
  have kept: "kept (admitted k ?n ! j) (new ! j)" if "j < ?n" for j
    using list_all2_nthD [OF rel(2), of j] that by (simp add: xmit_rel_def)
  have conv: "kconv k' = kconv k" using flushedD(8) [OF fl] by (simp add: same_config_def)
  have data: "map seg_data new = take ?n (map seg_data (snd_queue k))"
    using kept admitted_data [OF nle] len
    by (metis (no_types, lifting) kept_def length_admitted map_equality_iff)
  have mss: "unat (mss k) \<le> mtuLimit" by (rule kcp_ok_mss(2) [OF ok])
  have fit: "\<forall>s \<in> set (admitted k ?n). length (seg_data s) \<le> mtuLimit"
    using admitted_fits [OF nle] ok mss by (fastforce simp: kcp_ok_def fits_def)
  have new: "logged (kconv k) (log @ new) (new ! j)" if "j < ?n" for j
  proof -
    have "seg_sn (admitted k ?n ! j) = snd_nxt k + of_nat j"
      using that admitted_sn [of k ?n] by (metis length_admitted nth_map nth_seqs)
    then have "seg_sn (new ! j) = of_nat (length log + j)"
      using kept [OF that] assms(1) by (simp add: kept_def near_inv_def)
    moreover have "admitted k ?n ! j \<in> set (admitted k ?n)" using that by simp
    ultimately show ?thesis
      using kept [OF that] that len fit admitted_conv [of "admitted k ?n ! j" k ?n]
      unfolding logged_def kept_def by (metis length_append nat_add_left_cancel_less nth_append_length_plus)
  qed
  have bufs: "logged (kconv k) (log @ new) t" if "t \<in> set (snd_buf k')" "seg_acked t \<noteq> 1" for t
  proof (cases "t \<in> set new")
    case True
    then show ?thesis using new len by (metis in_set_conv_nth)
  next
    case False
    then have "t \<in> set (take ?L (snd_buf k'))"
      using that(1) by (metis Un_iff append_take_drop_id new_def set_append)
    then obtain i where i: "i < length (snd_buf k)" "t = take ?L (snd_buf k') ! i"
      using list_all2_lengthD [OF rel(1)] by (metis in_set_conv_nth)
    with list_all2_nthD [OF rel(1) i(1)] that(2) assms(1) show ?thesis
      using logged_kept [of "snd_buf k ! i" t] logged_append nth_mem [OF i(1)]
      by (auto simp: xmit_rel_def kept_def near_inv_def)
  qed
  let ?D = "transmitted (snd_buf k @ admitted k ?n) (snd_buf k')"
  have "\<forall>s \<in> set (C @ ?D). control (kconv k) s \<or> logged (kconv k) (log @ new) s"
  proof
    fix s assume "s \<in> set (C @ ?D)"
    then consider "s \<in> set C" | "s \<in> set ?D" by auto
    then show "control (kconv k) s \<or> logged (kconv k) (log @ new) s"
    proof cases
      case 1
      with controls_control [OF flushedD(4) [OF fl]] show ?thesis by blast
    next
      case 2
      then have "seg_acked s \<noteq> 1" "s \<in> set (snd_buf k')"
        using transmitted_kept [OF flushedD(3) [OF fl] 2] transmitted_subset
        by (auto simp: xmit_rel_def kept_def)
      with bufs show ?thesis by blast
    qed
  qed
  moreover have "\<forall>p \<in> set (outs w). carried (kconv k) (log @ new) p"
    using assms(1) carried_append by (auto simp: near_inv_def)
  moreover have "layout k" using ok by (simp add: kcp_ok_def)
  ultimately have outs: "\<forall>p \<in> set (outs w'). carried (kconv k) (log @ new) p"
    using carried_sent [OF flushedD(5) [OF fl]] by blast
  have "payload new @ payload (snd_queue k') = payload (snd_queue k)"
  proof -
    have "payload new = payload (take ?n (snd_queue k))"
      using data by (intro payload_cong) (simp add: take_map)
    then show ?thesis
      using flushedD(6) [OF fl] by (metis append_take_drop_id payload_simps(3))
  qed
  moreover have "snd_nxt k' = of_nat (length (log @ new))"
    using flushedD(7) [OF fl] assms(1) len by (simp add: near_inv_def)
  ultimately show "near_inv k' w' (log @ drop ?L (snd_buf k')) bs" "kconv k' = kconv k"
    using flush_kcp_ok [OF ok fl] outs bufs conv assms(1)
    by (simp_all add: near_inv_def new_def [symmetric])
qed

lemma near_flush_inv:
  assumes "near_inv k w log bs" "flush clk ackOnly k w = Some (r, k', w')"
  shows "near_inv k' w' (log @ drop (length (snd_buf k)) (snd_buf k')) bs" "kconv k' = kconv k"
proof (atomize (full), cases ackOnly)
  case True
  have ok: "kcp_ok k" and lay: "layout k" using assms(1) by (simp_all add: near_inv_def kcp_ok_def)
  from flush_ack_ok [OF lay, of clk w] True assms(2) have
    k': "k' = k\<lparr>acklist := []\<rparr>" "sent k w (ack_segs (rcv_nxt k) (flush_seg k) (acklist k)) w'"
    by auto
  have "\<forall>p \<in> set (outs w'). carried (kconv k) log p"
    using carried_sent [OF k'(2) lay] control_not_data [OF refl control_flush_seg] assms(1)
    by (simp add: near_inv_def)
  moreover have "kcp_ok k'"
    using ok by (simp add: k'(1) kcp_ok_def layout_def send_inv_def recv_inv_def fits_def)
  ultimately show "near_inv k' w' (log @ drop (length (snd_buf k)) (snd_buf k')) bs
      \<and> kconv k' = kconv k"
    using assms(1) by (simp add: near_inv_def k'(1))
next
  case False
  with near_full_flush [OF assms(1)] assms(2)
  show "near_inv k' w' (log @ drop (length (snd_buf k)) (snd_buf k')) bs \<and> kconv k' = kconv k"
    by simp
qed

text \<open>An update is a flush with the timer set, or nothing but the timer.\<close>

lemma Update_flush:
  assumes "Update clk k w = Some (k', w')"
  shows "\<exists>a b w1. outs w1 = outs w \<and>
     (k' = k\<lparr>updated := a, ts_flush := b\<rparr> \<and> w' = w1
      \<or> (\<exists>r. flush clk False (k\<lparr>updated := a, ts_flush := b\<rparr>) w1 = Some (r, k', w')))"
proof -
  obtain now w1 where c: "currentMs clk w = (now, w1)" by fastforce
  have w1: "outs w1 = outs w" using c by (auto simp: currentMs_def)
  define u where "u = (if updated k = 0 then 1 else updated k)"
  define t0 where "t0 = (if updated k = 0 then now else ts_flush k)"
  define far where "far = (itimediff now t0 \<ge> 10000 \<or> itimediff now t0 < -10000)"
  define t1 where "t1 = (if far then now else t0)"
  define slap where "slap = (if far then 0 else itimediff now t0)"
  define t2 where "t2 = (if itimediff now (t1 + interval k) \<ge> 0 then now + interval k
      else t1 + interval k)"
  have k1: "(if updated k = 0 then k\<lparr>updated := 1, ts_flush := now\<rparr> else k) =
      k\<lparr>updated := u, ts_flush := t0\<rparr>"
    by (simp add: u_def t0_def)
  have "Update clk k w =
     (if slap \<ge> 0
      then map_option (\<lambda>(_, kcp, w). (kcp, w)) (flush clk False (k\<lparr>updated := u, ts_flush := t2\<rparr>) w1)
      else Some (k\<lparr>updated := u, ts_flush := t1\<rparr>, w1))"
    unfolding Update_def c Let_def prod.case k1
    by (simp add: far_def t1_def slap_def t2_def)
  with assms w1 show ?thesis by (auto split: if_splits)
qed

lemma near_update_inv:
  assumes "near_inv k w log bs" "Update clk k w = Some (k', w')"
  shows "near_inv k' w' (log @ drop (length (snd_buf k)) (snd_buf k')) bs" "kconv k' = kconv k"
proof (atomize (full))
  from Update_flush [OF assms(2)] obtain a b w1 where w1: "outs w1 = outs w"
    and upd: "k' = k\<lparr>updated := a, ts_flush := b\<rparr> \<and> w' = w1
      \<or> (\<exists>r. flush clk False (k\<lparr>updated := a, ts_flush := b\<rparr>) w1 = Some (r, k', w'))"
    by blast
  let ?k = "k\<lparr>updated := a, ts_flush := b\<rparr>"
  have inv: "near_inv ?k w1 log bs"
    using assms(1) w1 kcp_ok_timer by (simp add: near_inv_def)
  from upd show "near_inv k' w' (log @ drop (length (snd_buf k)) (snd_buf k')) bs \<and> kconv k' = kconv k"
  proof
    assume "k' = ?k \<and> w' = w1"
    with inv show ?thesis by simp
  next
    assume "\<exists>r. flush clk False ?k w1 = Some (r, k', w')"
    with near_full_flush [OF inv] show ?thesis by auto
  qed
qed

lemma near_input_inv:
  assumes "near_inv k w log bs" "length data \<le> mtuLimit"
    "Input clk data regular nd k w = Some (r, k', w')"
  shows "near_inv k' w' log bs" "kconv k' = kconv k"
proof -
  have ok: "kcp_ok k" and lay: "layout k" using assms(1) by (simp_all add: near_inv_def kcp_ok_def)
  from Input_kcp_ok [OF ok assms(2), of clk regular nd w] assms(3) obtain L where
    ok': "kcp_ok k'" and send: "input_send k k'"
    and L: "sent k w L w'" "\<forall>s \<in> set L. control (kconv k) s" by auto
  have conv: "kconv k' = kconv k" using send by (simp add: input_send_def same_config_def)
  have "\<forall>p \<in> set (outs w'). carried (kconv k) log p"
    using carried_sent [OF L(1) lay] L(2) assms(1) by (simp add: near_inv_def)
  moreover have "logged (kconv k) log t" if "t \<in> set (snd_buf k')" "seg_acked t \<noteq> 1" for t
  proof -
    from that(1) send obtain s where "s \<in> set (snd_buf k)" "ack_rel s t"
      by (auto simp: input_send_def acked_from_def)
    with that(2) assms(1) show ?thesis
      by (auto simp: ack_rel_def near_inv_def logged_def)
  qed
  ultimately show "near_inv k' w' log bs" "kconv k' = kconv k"
    using assms(1) ok' send conv by (simp_all add: near_inv_def input_send_def)
qed

definition read_off :: "KCP \<Rightarrow> KCP" where
  "read_off k = move_ready (k\<lparr>rcv_queue := drop (length (first_msg (rcv_queue k))) (rcv_queue k)\<rparr>)"

lemma Recv_outcome:
  assumes "kcp_ok k" "Recv buf k = Some (n, buf', k')"
  shows "kcp_ok k' \<and> same_config k k' \<and> same_send k k'
    \<and> (n < 0 \<and> k' = k
       \<or> take (nat n) buf' = payload (first_msg (rcv_queue k)) \<and> same_recv (read_off k) k')"
proof (cases "rcv_queue k = [] \<or> PeekSize k < 0 \<or> int (length buf) < PeekSize k")
  case True
  then have "n < 0 \<and> k' = k" using assms(2) by (auto simp: Recv_def split: if_splits)
  with assms(1) show ?thesis by simp
next
  case False
  then have pre: "rcv_queue k \<noteq> []" "0 \<le> PeekSize k" "PeekSize k \<le> int (length buf)" by auto
  from Recv_frame [OF pre] assms(2) have
    f: "same_config k k'" "same_send k k'" "recv_inv k \<longrightarrow> recv_inv k'" by auto
  have ok: "kcp_ok k'"
    using assms(1) f layout_config [OF f(1)] fits_config [OF f(1)]
    by (simp add: kcp_ok_def same_send_def same_config_def send_inv_def)
  have "take (nat n) buf' = payload (first_msg (rcv_queue k)) \<and> same_recv (read_off k) k'"
    using assms(2) unfolding Recv_ok [OF pre] read_off_def
    by (auto simp: same_recv_def split: if_splits)
  with ok f(1,2) show ?thesis by blast
qed

lemma near_recv_inv:
  assumes "near_inv k w log bs" "Recv buf k = Some (n, buf', k')"
  shows "near_inv k' w log bs" "kconv k' = kconv k"
proof -
  have ok: "kcp_ok k" using assms(1) by (simp add: near_inv_def)
  note out = Recv_outcome [OF ok assms(2)]
  have conv: "kconv k' = kconv k" using out by (simp add: same_config_def)
  with assms(1) out show "near_inv k' w log bs" "kconv k' = kconv k"
    by (simp_all add: near_inv_def same_send_def)
qed

subsection \<open>The receiver's invariant\<close>

text \<open>
  Everything the receiver has taken in, read by the application or still queued, is the
  beginning of what was numbered; what waits in its buffer carries logged data.
\<close>

definition taken :: "KCP \<Rightarrow> u32 \<Rightarrow> segment list \<Rightarrow> bytes \<Rightarrow> bool" where
  "taken k conv log bs \<longleftrightarrow> recv_inv k \<and> (\<forall>s \<in> set (rcv_buf k). logged conv log s)
     \<and> (\<exists>n \<le> length log. rcv_nxt k = of_nat n \<and> bs @ payload (rcv_queue k) = payload (take n log))"

lemma taken_cong: "same_recv k k' \<Longrightarrow> taken k' conv log bs = taken k conv log bs"
  by (simp add: taken_def same_recv_def recv_inv_def)

lemma taken_append: "taken k conv log bs \<Longrightarrow> taken k conv (log @ ext) bs"
proof -
  assume t: "taken k conv log bs"
  then obtain n where n: "n \<le> length log" "rcv_nxt k = of_nat n"
    "bs @ payload (rcv_queue k) = payload (take n log)" by (auto simp: taken_def)
  then have "n \<le> length (log @ ext)" "bs @ payload (rcv_queue k) = payload (take n (log @ ext))"
    by simp_all
  with n(2) t show ?thesis
    unfolding taken_def using logged_append by blast
qed

lemma logged_run:
  assumes "length log < 2 ^ 31" "n \<le> length log" "length run \<le> 2 ^ 31"
    "map seg_sn run = seqs (of_nat n) (length run)" "\<forall>s \<in> set run. logged conv log s"
  shows "n + length run \<le> length log \<and> payload (take n log) @ payload run = payload (take (n + length run) log)"
  using assms
proof (induction run rule: rev_induct)
  case Nil
  then show ?case by simp
next
  case (snoc s run)
  have run: "map seg_sn run = seqs (of_nat n) (length run)" and s: "seg_sn s = of_nat (n + length run)"
    using snoc.prems(4) by (simp_all add: seqs_snoc)
  have IH: "n + length run \<le> length log"
    "payload (take n log) @ payload run = payload (take (n + length run) log)"
    using snoc.IH [OF snoc.prems(1,2) _ run] snoc.prems(3,5) by auto
  from snoc.prems(5) obtain i where i: "i < length log" "seg_sn s = of_nat i" "seg_data s = seg_data (log ! i)"
    by (auto simp: logged_def)
  have "n + length run < 2 ^ 32" "i < 2 ^ 32"
    using IH(1) snoc.prems(1) i(1) by simp_all
  then have "i = n + length run"
    using s i(2) unat_of_nat_u32 by metis
  with i IH show ?case
    by (simp add: take_Suc_conv_app_nth flip: append_assoc)
qed

lemma recv_inv_short: "recv_inv k \<Longrightarrow> length (rcv_buf k) \<le> 2 ^ 31"
proof (rule ccontr)
  assume inv: "recv_inv k" and "\<not> length (rcv_buf k) \<le> 2 ^ 31"
  then have len: "2 ^ 31 < length (rcv_buf k)" by simp
  from seq_ordered_offset_ge [of seg_sn "rcv_nxt k" "rcv_buf k" "2 ^ 31"] inv len
  have "2 ^ 31 \<le> unat (seg_sn (rcv_buf k ! (2 ^ 31)) - rcv_nxt k)" by (simp add: recv_inv_def)
  moreover have "unat (seg_sn (rcv_buf k ! (2 ^ 31)) - rcv_nxt k) < 2 ^ 31"
    using inv nth_mem [OF len] by (simp add: recv_inv_def seq_ordered_def)
  ultimately show False by simp
qed

lemma taken_move:
  assumes "taken k conv log bs" "length log < 2 ^ 31"
  shows "taken (move_ready k) conv log bs"
proof -
  have inv: "recv_inv k" using assms(1) by (simp add: taken_def)
  from assms(1) obtain n where n: "n \<le> length log" "rcv_nxt k = of_nat n"
    "bs @ payload (rcv_queue k) = payload (take n log)" by (auto simp: taken_def)
  from move_ready_spec [OF inv] obtain run where run:
    "rcv_queue (move_ready k) = rcv_queue k @ run" "map seg_sn run = seqs (rcv_nxt k) (length run)"
    "rcv_nxt (move_ready k) = rcv_nxt k + of_nat (length run)"
    "run @ rcv_buf (move_ready k) = rcv_buf k" by blast
  have sub: "set run \<subseteq> set (rcv_buf k)" "set (rcv_buf (move_ready k)) \<subseteq> set (rcv_buf k)"
    using arg_cong [OF run(4), of set] by auto
  have "length run \<le> length (rcv_buf k)" using arg_cong [OF run(4), of length] by simp
  then have "length run \<le> 2 ^ 31" using recv_inv_short [OF inv] by simp
  moreover have "\<forall>s \<in> set run. logged conv log s"
    using sub(1) assms(1) by (auto simp: taken_def)
  moreover have "map seg_sn run = seqs (of_nat n) (length run)" using run(2) n(2) by simp
  ultimately have ext: "n + length run \<le> length log"
    "payload (take n log) @ payload run = payload (take (n + length run) log)"
    using logged_run [OF assms(2) n(1)] by blast+
  then have "rcv_nxt (move_ready k) = of_nat (n + length run)
      \<and> bs @ payload (rcv_queue (move_ready k)) = payload (take (n + length run) log)"
    using n(2,3) run(1,3) by (simp flip: append_assoc)
  with ext(1) show ?thesis
    using sub(2) assms(1) move_ready_inv [OF inv] unfolding taken_def by blast
qed

lemma taken_parse:
  assumes "taken k conv log bs" "length log < 2 ^ 31" "logged conv log seg"
    "parse_data seg k = Some (rep, k')"
  shows "taken k' conv log bs"
proof -
  have inv: "recv_inv k" using assms(1) by (simp add: taken_def)
  let ?out = "itimediff (seg_sn seg) (rcv_nxt k + rcv_wnd k) \<ge> 0
      \<or> itimediff (seg_sn seg) (rcv_nxt k) < 0"
  show ?thesis
  proof (cases "?out \<or> rcv_scan (seg_sn seg) (rcv_buf k) = None")
    case True
    then have "k' = k \<or> k' = move_ready k"
      using assms(4) by (auto simp: parse_data_def Let_def split: if_splits)
    with assms(1) taken_move [OF assms(1,2)] show ?thesis by blast
  next
    case False
    then obtain i where i: "rcv_scan (seg_sn seg) (rcv_buf k) = Some i" by auto
    have off: "unat (seg_sn seg - rcv_nxt k) < 2 ^ 31" using False in_window(1) by blast
    have k': "k' = move_ready (k\<lparr>rcv_buf := rcv_insert i seg (rcv_buf k)\<rparr>)"
      using assms(4) False i by (simp add: parse_data_def Let_def split: if_splits)
    let ?k = "k\<lparr>rcv_buf := rcv_insert i seg (rcv_buf k)\<rparr>"
    have ord: "seq_ordered seg_sn (rcv_nxt k) (rcv_buf k)" using inv by (simp add: recv_inv_def)
    have "recv_inv ?k"
      using rcvq.insert_ordered [OF ord off i] by (simp add: recv_inv_def)
    moreover have "set (rcv_insert i seg (rcv_buf k)) = insert seg (set (rcv_buf k))"
      using rcvq.insert_set [OF ord off i] by simp
    ultimately have "taken ?k conv log bs"
      using assms(1,3) by (simp add: taken_def)
    from taken_move [OF this assms(2)] k' show ?thesis by simp
  qed
qed

lemma taken_recv_step:
  assumes "taken k conv log bs" "length log < 2 ^ 31" "logged conv log seg" "recv_step seg k k'"
  shows "taken k' conv log bs"
  using assms(4) unfolding recv_step_def
proof (elim disjE exE conjE)
  assume "same_recv k k'"
  with assms(1) show ?thesis by (simp add: taken_cong)
next
  fix k0 k1 rep
  assume "same_recv k k0" "parse_data seg k0 = Some (rep, k1)" "same_recv k1 k'"
  with taken_parse [OF _ assms(2,3)] assms(1) show ?thesis by (metis taken_cong)
qed

definition far_inv :: "KCP \<Rightarrow> u32 \<Rightarrow> segment list \<Rightarrow> bytes \<Rightarrow> bool" where
  "far_inv k conv log bs \<longleftrightarrow> kcp_ok k \<and> kconv k = conv \<and> taken k conv log bs"

lemma far_inv_append: "far_inv k conv log bs \<Longrightarrow> far_inv k conv (log @ ext) bs"
  by (simp add: far_inv_def taken_append)

text \<open>A change outside the receiving half.\<close>

lemma far_inv_frame:
  "far_inv k conv log bs \<Longrightarrow> kcp_ok k' \<Longrightarrow> kconv k' = kconv k \<Longrightarrow> same_recv k k' \<Longrightarrow>
     far_inv k' conv log bs"
  by (simp add: far_inv_def taken_cong)

lemma far_recv_inv:
  assumes "far_inv k conv log bs" "length log < 2 ^ 31" "Recv buf k = Some (n, buf', k')"
  shows "far_inv k' conv log (bs @ take (nat n) buf')"
proof -
  have ok: "kcp_ok k" and t: "taken k conv log bs" using assms(1) by (simp_all add: far_inv_def)
  note out = Recv_outcome [OF ok assms(3)]
  have conv: "kcp_ok k'" "kconv k' = conv"
    using out assms(1) by (simp_all add: same_config_def far_inv_def)
  from out consider "n < 0" "k' = k"
    | "take (nat n) buf' = payload (first_msg (rcv_queue k))" "same_recv (read_off k) k'" by blast
  then show ?thesis
  proof cases
    case 1
    with assms(1) show ?thesis by simp
  next
    case 2
    let ?m = "first_msg (rcv_queue k)"
    let ?k = "k\<lparr>rcv_queue := drop (length ?m) (rcv_queue k)\<rparr>"
    have "payload ?m @ payload (rcv_queue ?k) = payload (rcv_queue k)"
      using first_msg_drop [of "rcv_queue k"] by (metis KCP.select_convs(30) KCP.surjective
          KCP.update_convs(30) payload_simps(3))
    then have "taken ?k conv log (bs @ payload ?m)"
      using t by (auto simp: taken_def recv_inv_def)
    then have "taken (read_off k) conv log (bs @ payload ?m)"
      unfolding read_off_def using assms(2) by (rule taken_move)
    with 2 conv show ?thesis by (simp add: far_inv_def taken_cong)
  qed
qed

lemma far_input_segs:
  assumes "input_send k0 k" "taken k conv log bs" "length log < 2 ^ 31"
    "\<forall>s \<in> set segs. control conv s \<or> logged conv log s" "kconv k = conv"
  shows "\<exists>k' w' v'. input_segs regular segs k w v = Some (k', w', v')
     \<and> input_send k0 k' \<and> taken k' conv log bs \<and> outs w' = outs w"
  using assms
proof (induction segs arbitrary: k w v)
  case Nil
  then show ?case by simp
next
  case (Cons s segs)
  have good: "control conv s \<or> logged conv log s" using Cons.prems(4) by simp
  then have len: "length (seg_data s) \<le> mtuLimit"
    by (auto simp: control_def logged_def)
  then obtain k1 w1 v1 where disp:
    "input_dispatch regular (kconv k) (seg_header s) (seg_data s) k w v = Some (k1, w1, v1)"
    using input_dispatch_total by blast
  note send = input_dispatch_send [OF disp]
  have conv1: "kconv k1 = conv"
    using send(1) Cons.prems(5) by (simp add: input_send_def same_config_def)
  have "taken k1 conv log bs"
  proof (cases "seg_cmd s = IKCP_CMD_PUSH")
    case True
    with good have log: "logged conv log s" by (auto simp: control_def)
    have "unat (h_length (seg_header s)) = length (seg_data s)"
      using len by (simp add: seg_header_def unat_of_nat_u32)
    then have "logged conv log (pushed (kconv k) (seg_header s) (seg_data s))"
      using log Cons.prems(5) by (simp add: logged_def pushed_def seg_header_def)
    moreover have "recv_step (pushed (kconv k) (seg_header s) (seg_data s)) k k1"
      using input_dispatch_recv [OF disp] True by (simp add: seg_header_def)
    ultimately show ?thesis
      using taken_recv_step [OF Cons.prems(2,3)] by blast
  next
    case False
    then have "same_recv k k1"
      using input_dispatch_recv [OF disp] by (simp add: seg_header_def)
    with Cons.prems(2) show ?thesis by (simp add: taken_cong)
  qed
  moreover have "\<forall>s \<in> set segs. control conv s \<or> logged conv log s"
    using Cons.prems(4) by simp
  ultimately obtain k' w' v' where
    "input_segs regular segs k1 w1 (v1\<lparr>iv_inSegs := iv_inSegs v1 + 1\<rparr>) = Some (k', w', v')"
    "input_send k0 k'" "taken k' conv log bs" "outs w' = outs w1"
    using Cons.IH [OF input_send_trans [OF Cons.prems(1) send(1)] _ Cons.prems(3) _ conv1] by blast
  with disp send(2) show ?case by simp
qed

lemma far_input_inv:
  assumes "far_inv k conv log bs" "length log < 2 ^ 31" "carried conv log p"
    "Input clk p regular nd k w = Some (r, k', w')"
  shows "far_inv k' conv log bs"
proof -
  have ok: "kcp_ok k" and conv: "kconv k = conv" and t: "taken k conv log bs"
    using assms(1) by (simp_all add: far_inv_def)
  from assms(3) obtain segs where p: "p = packet segs" "length p \<le> mtuLimit"
    "\<forall>s \<in> set segs. control conv s \<or> logged conv log s"
    by (auto simp: carried_def)
  have "\<forall>s \<in> set segs. sendable (kconv k) s"
    using p(3) conv by (auto simp: sendable_def control_def logged_def)
  note loop = input_loop_packet [OF this]
  let ?Q = "\<lambda>k1. input_send k k1 \<and> taken k1 conv log bs"
  have loops: "\<exists>res. input_loop regular p k w v = Some res
      \<and> ?Q (fst (result_state res)) \<and> same_config k (fst (result_state res))
      \<and> outs (snd (result_state res)) = outs w \<and> result_code res \<in> {0, -1}" for v
  proof -
    obtain k1 w1 v1 where r: "input_segs regular segs k w v = Some (k1, w1, v1)"
      "input_send k k1" "taken k1 conv log bs" "outs w1 = outs w"
      using far_input_segs [OF input_send_refl t assms(2) p(3) conv] by blast
    then have "input_loop regular p k w v = Some (Fin k1 w1 v1)" by (simp add: p(1) loop)
    moreover have "same_config k k1" using r(2) by (simp add: input_send_def)
    ultimately show ?thesis using r(2-4) by (intro exI [of _ "Fin k1 w1 v1"]) simp
  qed
  have lay: "layout k" using ok by (simp add: kcp_ok_def)
  have "\<exists>r k' w' L. Input clk p regular nd k w = Some (r, k', w') \<and> r \<in> {0, -1} \<and> ?Q k'
     \<and> same_config k k' \<and> sent k w L w' \<and> (\<forall>s \<in> set L. control (kconv k) s)"
  proof (rule Input_rule [OF lay _ loops])
    show "?Q k" using t by simp
    show "?Q b" if "?Q a" "same_config a b" "same_send a b" "same_recv a b" for a b
      using that same_send_input [OF that(2,3)] input_send_trans taken_cong by blast
  qed simp_all
  then have "taken k' conv log bs" "kconv k' = kconv k"
    using assms(4) by (auto simp: same_config_def)
  moreover have "kcp_ok k'"
    using Input_kcp_ok [OF ok p(2), of clk regular nd w] assms(4) by auto
  ultimately show ?thesis using conv by (simp add: far_inv_def)
qed

lemma far_send_inv:
  assumes "far_inv k conv log bs" "Send buf k = Some (r, k')"
  shows "far_inv k' conv log bs"
proof -
  have ok: "kcp_ok k" using assms(1) by (simp add: far_inv_def)
  from Send_any [OF ok assms(2)] obtain q where "k' = k\<lparr>snd_queue := q\<rparr>" "kcp_ok k'" by blast
  then show ?thesis using far_inv_frame [OF assms(1)] by (simp add: same_recv_def)
qed

lemma far_flush_inv:
  assumes "far_inv k conv log bs" "flush clk ackOnly k w = Some (r, k', w')"
  shows "far_inv k' conv log bs"
proof -
  have ok: "kcp_ok k" and lay: "layout k" using assms(1) by (simp_all add: far_inv_def kcp_ok_def)
  have "kcp_ok k' \<and> same_config k k' \<and> same_recv k k'"
  proof (cases ackOnly)
    case True
    from flush_ack_ok [OF lay, of clk w] True assms(2) have "k' = k\<lparr>acklist := []\<rparr>" by auto
    with ok show ?thesis
      by (simp add: kcp_ok_def layout_def send_inv_def recv_inv_def fits_def same_defs)
  next
    case False
    with kcp_ok_flush [OF ok, of clk w] assms(2) obtain C where
      fl: "flushed clk k w C (r, k', w')" by auto
    from flush_kcp_ok [OF ok fl] flushedD(8,9) [OF fl] show ?thesis by blast
  qed
  with far_inv_frame [OF assms(1)] show ?thesis by (simp add: same_config_def)
qed

lemma far_update_inv:
  assumes "far_inv k conv log bs" "Update clk k w = Some (k', w')"
  shows "far_inv k' conv log bs"
proof -
  from Update_flush [OF assms(2)] obtain a b w1 where
    upd: "k' = k\<lparr>updated := a, ts_flush := b\<rparr> \<and> w' = w1
      \<or> (\<exists>r. flush clk False (k\<lparr>updated := a, ts_flush := b\<rparr>) w1 = Some (r, k', w'))"
    by blast
  have inv: "far_inv (k\<lparr>updated := a, ts_flush := b\<rparr>) conv log bs"
    using assms(1) kcp_ok_timer by (intro far_inv_frame [OF assms(1)]) (simp_all add: far_inv_def same_recv_def)
  with upd far_flush_inv show ?thesis by blast
qed

subsection \<open>The whole system\<close>

definition link_inv :: "link \<Rightarrow> bool" where
  "link_inv l \<longleftrightarrow> near_inv (near l) (near_w l) (numbered l) (given l)
     \<and> far_inv (far l) (kconv (near l)) (numbered l) (got l)"

lemma step_numbered: "step l l' \<Longrightarrow> length (numbered l) \<le> length (numbered l')"
  by (induction rule: step.induct) auto

lemma link_inv_nearD: "link_inv l \<Longrightarrow> near_inv (near l) (near_w l) (numbered l) (given l)"
  and link_inv_farD: "link_inv l \<Longrightarrow> far_inv (far l) (kconv (near l)) (numbered l) (got l)"
  by (simp_all add: link_inv_def)

lemma step_inv:
  assumes "step l l'" "link_inv l" "length (numbered l) < 2 ^ 31"
  shows "link_inv l'"
  using assms
proof (induction rule: step.induct)
  case (near_send buf l k)
  note n = link_inv_nearD [OF near_send.prems(1)] and f = link_inv_farD [OF near_send.prems(1)]
  from near_send_inv [OF n near_send.hyps] f n show ?case by (simp add: link_inv_def)
next
  case (near_refused buf l r k)
  note n = link_inv_nearD [OF near_refused.prems(1)] and f = link_inv_farD [OF near_refused.prems(1)]
  from near_refused_inv [OF n near_refused.hyps(1)] f n show ?case by (simp add: link_inv_def)
next
  case (near_flush clk ackOnly l r k w)
  note n = link_inv_nearD [OF near_flush.prems(1)] and f = link_inv_farD [OF near_flush.prems(1)]
  from near_flush_inv [OF n near_flush.hyps] far_inv_append [OF f] n show ?case by (simp add: link_inv_def)
next
  case (near_update clk l k w)
  note n = link_inv_nearD [OF near_update.prems(1)] and f = link_inv_farD [OF near_update.prems(1)]
  from near_update_inv [OF n near_update.hyps] far_inv_append [OF f] n show ?case by (simp add: link_inv_def)
next
  case (near_input data clk regular nd l r k w)
  note n = link_inv_nearD [OF near_input.prems(1)] and f = link_inv_farD [OF near_input.prems(1)]
  from near_input_inv [OF n near_input.hyps] f n show ?case by (simp add: link_inv_def)
next
  case (near_recv buf l n buf' k)
  note n = link_inv_nearD [OF near_recv.prems(1)] and f = link_inv_farD [OF near_recv.prems(1)]
  from near_recv_inv [OF n near_recv.hyps] f n show ?case by (simp add: link_inv_def)
next
  case (far_input p l clk regular nd r k w)
  note n = link_inv_nearD [OF far_input.prems(1)] and f = link_inv_farD [OF far_input.prems(1)]
  have "carried (kconv (near l)) (numbered l) p"
    using n far_input.hyps(1) by (simp add: near_inv_def)
  from far_input_inv [OF f far_input.prems(2) this far_input.hyps(2)] n show ?case
    by (simp add: link_inv_def)
next
  case (far_recv buf l n buf' k)
  note n = link_inv_nearD [OF far_recv.prems(1)] and f = link_inv_farD [OF far_recv.prems(1)]
  from far_recv_inv [OF f far_recv.prems(2) far_recv.hyps] f n show ?case by (simp add: link_inv_def)
next
  case (far_send buf l r k)
  note n = link_inv_nearD [OF far_send.prems(1)] and f = link_inv_farD [OF far_send.prems(1)]
  from far_send_inv [OF f far_send.hyps] f n show ?case by (simp add: link_inv_def)
next
  case (far_flush clk ackOnly l r k w)
  note n = link_inv_nearD [OF far_flush.prems(1)] and f = link_inv_farD [OF far_flush.prems(1)]
  from far_flush_inv [OF f far_flush.hyps] f n show ?case by (simp add: link_inv_def)
next
  case (far_update clk l k w)
  note n = link_inv_nearD [OF far_update.prems(1)] and f = link_inv_farD [OF far_update.prems(1)]
  from far_update_inv [OF f far_update.hyps] f n show ?case by (simp add: link_inv_def)
qed

lemma reachable_inv: "reachable l \<Longrightarrow> length (numbered l) < 2 ^ 31 \<Longrightarrow> link_inv l"
proof (induction rule: reachable.induct)
  case (start a b w w')
  then show ?case
    by (simp add: link_inv_def near_inv_def far_inv_def taken_def fresh_near_def fresh_far_def
        recv_inv_def)
next
  case (step l l')
  then show ?case using step_inv step_numbered by fastforce
qed

text \<open>End-to-end safety: over a network that loses, duplicates, delays and reorders packets
  at will, with arbitrary bytes fed to the sender and any interleaving of the operations of both
  ends, what the receiving application has read is at every moment a prefix of what the sending
  application wrote, as long as fewer than \<open>2^31\<close> segments have been numbered.\<close>

theorem transfer_prefix:
  assumes "reachable l" "length (numbered l) < 2 ^ 31"
  shows "\<exists>rest. given l = got l @ rest"
proof -
  from reachable_inv [OF assms] have inv: "near_inv (near l) (near_w l) (numbered l) (given l)"
    "taken (far l) (kconv (near l)) (numbered l) (got l)"
    by (simp_all add: link_inv_def far_inv_def)
  from inv(2) obtain n where "got l @ payload (rcv_queue (far l)) = payload (take n (numbered l))"
    by (auto simp: taken_def)
  moreover have "given l = payload (take n (numbered l)) @ payload (drop n (numbered l))
      @ payload (snd_queue (near l))"
    using inv(1) by (simp add: near_inv_def flip: payload_simps(3) append_assoc)
  ultimately show ?thesis by (metis append_assoc)
qed

text \<open>A run: three bytes are sent, flushed, delivered and read.\<close>

lemma demo_flush:
  "\<exists>r k w. flush (\<lambda>_. 0) False ((NewKCP 1)\<lparr>cwnd := 1, snd_queue := [segment0\<lparr>seg_data := [1, 2, 3]\<rparr>]\<rparr>)
       world0 = Some (r, k, w)
     \<and> outs w = [wire_bytes (segment0\<lparr>seg_conv := 1, seg_cmd := 81, seg_wnd := 32, seg_data := [1, 2, 3]\<rparr>)]
     \<and> length (snd_buf k) = 1"
  by (simp add: flush_def flush_seg_def probe_window_def flush_cmd_def flush_data_def flush_cwnd_def
      admit_def itimediff_def imin_def xmit_seg_def xmit_choose_def xmit_send_def currentMs_def
      makeSpace_def segment_encode_eq segment0_def ptr0_def Let_def remove_front_def go_copy_def
      NewKCP_def KCP0_def flush_resent_def flushBuffer_def emit_def world0_def wnd_unused_def
      wire_bytes_def header_bytes_def flush_congestion_def)

lemma demo_input:
  "\<exists>r k w. Input (\<lambda>_. 0) (wire_bytes (segment0\<lparr>seg_conv := 1, seg_cmd := 81, seg_wnd := 32,
         seg_data := [1, 2, 3]\<rparr>)) True False (NewKCP 1) world0 = Some (r, k, w)
     \<and> map seg_data (rcv_queue k) = [[1, 2, 3]] \<and> map seg_frg (rcv_queue k) = [0]"
proof -
  let ?s = "segment0\<lparr>seg_conv := 1, seg_cmd := 81, seg_wnd := 32, seg_data := [1, 2, 3]\<rparr>"
  have "input_loop True (wire_bytes ?s) (NewKCP 1) world0 v =
      map_option (\<lambda>(k, w, v). Fin k w v) (input_segs True [?s] (NewKCP 1) world0 v)" for v
    using input_loop_packet [of "[?s]" "NewKCP 1" True world0 v] by (simp add: sendable_def segment0_def)
  then show ?thesis
    by (simp add: Input_def input_dispatch_def input_push_def seg_header_def segment0_def parse_una_def
        shrink_buf_def ack_push_def parse_data_def itimediff_def rcv_scan_def rcv_insert_def
        seq_insert_def move_ready_def Let_def NewKCP_def KCP0_def input_rtt_def input_cwnd_def
        remove_front_def go_copy_def)
qed

theorem transfer_prefix_witness:
  "\<exists>l. reachable l \<and> length (numbered l) = 1 \<and> got l = [1, 2, 3] \<and> (\<exists>rest. given l = got l @ rest)"
proof -
  let ?a = "(NewKCP 1)\<lparr>cwnd := 1\<rparr>" and ?b = "NewKCP 1" and ?seg = "segment0\<lparr>seg_data := [1, 2, 3]\<rparr>"
  let ?p = "wire_bytes (segment0\<lparr>seg_conv := 1, seg_cmd := 81, seg_wnd := 32, seg_data := [1, 2, 3]\<rparr>)"
  define l0 where "l0 = \<lparr>near = ?a, near_w = world0, far = ?b, far_w = world0, numbered = [],
      given = [], got = []\<rparr>"
  have "fresh_near ?a" "fresh_far ?b"
    using kcp_ok_NewKCP [of 1]
    by (simp_all add: fresh_near_def fresh_far_def kcp_ok_def layout_def send_inv_def recv_inv_def fits_def)
  then have r0: "reachable l0" unfolding l0_def by (intro reachable.start) (simp_all add: world0_def)
  have "Send [1, 2, 3] (near l0) = Some (0, ?a\<lparr>snd_queue := [?seg]\<rparr>)"
    by (simp add: l0_def Send_def send_fragments_def newSegment_def go_copy_def segment0_def)
  from reachable.step [OF r0 step.near_send [OF this]]
  have r1: "reachable (l0\<lparr>near := ?a\<lparr>snd_queue := [?seg]\<rparr>, given := [1, 2, 3]\<rparr>)" (is "reachable ?l1")
    by (simp add: l0_def)
  from demo_flush obtain r k w where
    fl: "flush (\<lambda>_. 0) False (near ?l1) (near_w ?l1) = Some (r, k, w)"
    "outs w = [?p]" "length (snd_buf k) = 1" by (auto simp: l0_def)
  define l2 where "l2 = ?l1\<lparr>near := k, near_w := w,
      numbered := numbered ?l1 @ drop (length (snd_buf (near ?l1))) (snd_buf k)\<rparr>"
  have r2: "reachable l2" unfolding l2_def by (rule reachable.step [OF r1 step.near_flush [OF fl(1)]])
  have l2: "far l2 = ?b" "far_w l2 = world0" "outs (near_w l2) = [?p]" "length (numbered l2) = 1"
    "got l2 = []"
    using fl(2,3) by (simp_all add: l2_def l0_def)
  from demo_input obtain r' k' w' where
    inp0: "Input (\<lambda>_. 0) ?p True False (NewKCP 1) world0 = Some (r', k', w')"
      and inp: "map seg_data (rcv_queue k') = [[1, 2, 3]]" "map seg_frg (rcv_queue k') = [0]"
    by (elim exE conjE) (rule that)
  have inp1: "Input (\<lambda>_. 0) ?p True False (far l2) (far_w l2) = Some (r', k', w')"
    unfolding l2(1,2) by (rule inp0)
  have "?p \<in> set (outs (near_w l2))" by (simp add: l2)
  from reachable.step [OF r2 step.far_input [OF this inp1]]
  have r3: "reachable (l2\<lparr>far := k', far_w := w'\<rparr>)" .
  obtain t where t: "rcv_queue k' = [t]" "seg_data t = [1, 2, 3]" "seg_frg t = 0"
    using inp by auto
  then have pre: "rcv_queue k' \<noteq> []" "0 \<le> PeekSize k'" "PeekSize k' \<le> int (length (replicate 5 0 :: bytes))"
    by (simp_all add: PeekSize_def)
  from Recv_ok [OF pre] t obtain k'' where
    "Recv (replicate 5 0) (far (l2\<lparr>far := k', far_w := w'\<rparr>)) = Some (3, [1, 2, 3, 0, 0], k'')"
    by (auto simp: numeral_eq_Suc)
  from reachable.step [OF r3 step.far_recv [OF this]] have r4:
    "reachable (l2\<lparr>far_w := w', far := k'', got := [1, 2, 3]\<rparr>)" (is "reachable ?l4")
    by (simp add: l2)
  have n: "length (numbered ?l4) = 1" by (simp add: l2)
  then have "length (numbered ?l4) < 2 ^ 31" by simp
  from transfer_prefix [OF r4 this] r4 n show ?thesis by (intro exI [of _ ?l4]) simp
qed

end
