(* ===== verification/StreamServer.thy ===== *)
theory StreamServer
  imports StreamClientFacts RawTcpLife
begin

section \<open>The stream server (server/main.go, server/signal.go)\<close>

text \<open>
  The server listens over UDP and, when asked to, over the TCP disguise; tunes every KCP session
  it accepts; and joins each stream of its multiplexer with a connection to the target. A goroutine
  per stream is a list of effects of its own.
\<close>

subsection \<open>Listeners\<close>

datatype kcp_listener = UdpListener | TcpListener raw_conn

text \<open>
  \<open>udp_ok\<close>: the UDP listener can be made (else the program exits, \<^const>\<open>None\<close>). \<open>served\<close>: KCP
  takes the raw connection. A failure of \<open>rawtcp.Listen\<close> is only logged.
\<close>

definition server_listeners :: "server_Config \<Rightarrow> bool \<Rightarrow> listen_env \<Rightarrow> bool \<Rightarrow> kcp_listener list option" where
  "server_listeners config udp_ok env served =
     (if \<not> udp_ok then None
      else if \<not> ks_TCP config then Some [UdpListener]
      else (case fst (raw_Listen env) of
          Inl _ \<Rightarrow> Some [UdpListener]
        | Inr conn \<Rightarrow> if served then Some [UdpListener, TcpListener conn] else None))"

text \<open>The loop on one listener: the sessions accepted until the first error, each tuned.\<close>

definition server_configure :: "server_Config \<Rightarrow> udp_session \<Rightarrow> udp_session" where
  "server_configure config s =
     (let s = SetStreamMode True s;
          s = SetWriteDelay False s;
          s = SetNoDelay (ks_NoDelay config) (ks_Interval config) (ks_Resend config) (ks_NoCongestion config) s;
          s = snd (session_SetMtu (ks_MTU config) s);
          s = SetWindowSize (ks_SndWnd config) (ks_RcvWnd config) s
      in SetACKNoDelay (ks_AckNodelay config) s)"

fun server_loop :: "server_Config \<Rightarrow> udp_session option list \<Rightarrow> udp_session list" where
  "server_loop config [] = []"
| "server_loop config (None # _) = []"
| "server_loop config (Some conn # xs) = server_configure config conn # server_loop config xs"

subsection \<open>Streams\<close>

definition server_handleClient :: "nat \<Rightarrow> nat \<Rightarrow> bool \<Rightarrow> stream_effect list" where
  "server_handleClient p1 p2 quiet =
     (if quiet then [] else [LogLine ''stream opened''])
     @ [CopyBothWays p1 p2, CloseEnd p2, CloseEnd p1]
     @ (if quiet then [] else [LogLine ''stream closed''])"

text \<open>The goroutine of a stream: \<open>dialled\<close> is the connection to the target, if there is one.\<close>

definition server_stream :: "server_Config \<Rightarrow> nat \<Rightarrow> nat option \<Rightarrow> stream_effect list" where
  "server_stream config p1 dialled =
     DialTarget (ks_Target config) # (case dialled of
       None \<Rightarrow> [CloseEnd p1, LogLine ''dial'']
     | Some p2 \<Rightarrow> server_handleClient p1 p2 (ks_Quiet config))"

text \<open>
  \<open>handleMux\<close>: the multiplexer (\<open>made\<close>, on its configuration) may refuse the connection; otherwise streams are accepted until an
  error, and the multiplexer, here the number \<open>m\<close>, is closed. The first list is the loop's own.
\<close>

fun mux_streams :: "(nat \<times> nat option) option list \<Rightarrow> (nat \<times> nat option) list" where
  "mux_streams [] = []"
| "mux_streams (None # _) = []"
| "mux_streams (Some x # xs) = x # mux_streams xs"

definition handleMux :: "server_Config \<Rightarrow> (smux_Config \<Rightarrow> nat option) \<Rightarrow> (nat \<times> nat option) option list \<Rightarrow> stream_effect list \<times> stream_effect list list" where
  "handleMux config made streams = (case made (smuxConfig (ks_SmuxBuf config) (ks_KeepAlive config)) of
     None \<Rightarrow> ([LogLine ''mux''], [])
   | Some m \<Rightarrow> ((if None \<in> set streams then [LogLine ''accept'', CloseEnd m] else []),
       map (\<lambda>(p1, dialled). server_stream config p1 dialled) (mux_streams streams)))"

text \<open>\<open>main\<close>: the configuration, the cipher with its name, and the listeners.\<close>

definition server_main :: "crypt_libs \<Rightarrow> cli_context \<Rightarrow> json_file \<Rightarrow> bool \<Rightarrow> bool \<Rightarrow> listen_env \<Rightarrow> bool \<Rightarrow>
    (server_Config \<times> BlockCrypt option \<times> kcp_listener list) main_result" where
  "server_main L ctx conf log_opens udp_ok env served = (case server_load ctx conf log_opens of
     None \<Rightarrow> Exit
   | Some config \<Rightarrow>
       let (name, blk) = server_block L (ks_Crypt config) (map of_char (ks_Key config));
           config = config\<lparr>ks_Crypt := name\<rparr>
       in if snmp_starts (ks_SnmpLog config) (ks_SnmpPeriod config) = None then Panics
          else (case server_listeners config udp_ok env served of
              None \<Rightarrow> Exit
            | Some ls \<Rightarrow> Running (config, blk, ls)))"

subsection \<open>Both ends\<close>

text \<open>Settings in range for a session with this header.\<close>

definition session_ready :: "int \<Rightarrow> int \<Rightarrow> int \<Rightarrow> int \<Rightarrow> int \<Rightarrow> int \<Rightarrow> int \<Rightarrow> bool" where
  "session_ready header nd itv rs nc sw m \<longleftrightarrow> 0 \<le> nd \<and> 0 \<le> itv \<and> 0 \<le> rs \<and> 0 \<le> nc \<and> 0 < sw \<and> sw < 2 ^ 31
     \<and> 0 \<le> header \<and> header \<le> 28 \<and> 50 \<le> m \<and> IKCP_OVERHEAD + header < m \<and> m \<le> mtuLimit"

lemma WndSize_SetMtu:
  "snd (WndSize sw rw (snd (SetMtu m k))) = snd (SetMtu m (snd (WndSize sw rw k)))"
  by (simp add: SetMtu_def WndSize_def Let_def)

lemma NoDelay_stream:
  "snd (NoDelay nd itv rs nc (k\<lparr>stream := b\<rparr>)) = (snd (NoDelay nd itv rs nc k))\<lparr>stream := b\<rparr>"
  by (simp add: NoDelay_def Let_def)

lemma session_configured:
  assumes "session_ready header nd itv rs nc sw m"
  shows "configured nd itv rs nc sw m
     (snd (SetMtu m (snd (WndSize sw rw (snd (NoDelay nd itv rs nc ((us_kcp (newUDPSession conv header))\<lparr>stream := 1\<rparr>)))))))"
proof -
  have h: "0 \<le> header" "header \<le> 28" using assms by (simp_all add: session_ready_def)
  show ?thesis
    by (rule configure_ok) (use assms h in \<open>simp_all add: new_session_ok session_ready_def\<close>)
qed

lemma client_configure_eq:
  assumes "session_ready h (kc_NoDelay c) (kc_Interval c) (kc_Resend c) (kc_NoCongestion c) (kc_SndWnd c) (kc_MTU c)"
  shows "client_configure c u = \<lparr>us_kcp = snd (SetMtu (kc_MTU c) (snd (WndSize (kc_SndWnd c) (kc_RcvWnd c)
        (snd (NoDelay (kc_NoDelay c) (kc_Interval c) (kc_Resend c) (kc_NoCongestion c) ((us_kcp u)\<lparr>stream := 1\<rparr>)))))),
        us_ackNoDelay = kc_AckNodelay c, us_writeDelay = False\<rparr>"
  using assms by (simp add: session_ready_def client_configure_def SetStreamMode_def SetWriteDelay_def SetNoDelay_def
      SetWindowSize_def session_SetMtu_def SetACKNoDelay_def Let_def)

lemma server_configure_eq:
  assumes "session_ready h (ks_NoDelay c) (ks_Interval c) (ks_Resend c) (ks_NoCongestion c) (ks_SndWnd c) (ks_MTU c)"
  shows "server_configure c u = \<lparr>us_kcp = snd (SetMtu (ks_MTU c) (snd (WndSize (ks_SndWnd c) (ks_RcvWnd c)
        (snd (NoDelay (ks_NoDelay c) (ks_Interval c) (ks_Resend c) (ks_NoCongestion c) ((us_kcp u)\<lparr>stream := 1\<rparr>)))))),
        us_ackNoDelay = ks_AckNodelay c, us_writeDelay = False\<rparr>"
  using assms by (simp add: session_ready_def server_configure_def SetStreamMode_def SetWriteDelay_def SetNoDelay_def
      SetWindowSize_def session_SetMtu_def SetACKNoDelay_def Let_def WndSize_SetMtu)

lemma settings_configure:
  assumes u: "kcp_ok (us_kcp u)" "snd_buf (us_kcp u) = []" "snd_queue (us_kcp u) = []" "reserved (us_kcp u) = nat h"
  shows "session_ready h (kc_NoDelay cc) (kc_Interval cc) (kc_Resend cc) (kc_NoCongestion cc) (kc_SndWnd cc) (kc_MTU cc) \<Longrightarrow>
      configured (kc_NoDelay cc) (kc_Interval cc) (kc_Resend cc) (kc_NoCongestion cc) (kc_SndWnd cc) (kc_MTU cc)
        (us_kcp (client_configure cc u))"
    "session_ready h (ks_NoDelay cs) (ks_Interval cs) (ks_Resend cs) (ks_NoCongestion cs) (ks_SndWnd cs) (ks_MTU cs) \<Longrightarrow>
      configured (ks_NoDelay cs) (ks_Interval cs) (ks_Resend cs) (ks_NoCongestion cs) (ks_SndWnd cs) (ks_MTU cs)
        (us_kcp (server_configure cs u))"
proof -
  have ok: "configured nd itv rs nc sw m (snd (SetMtu m (snd (WndSize sw rw (snd (NoDelay nd itv rs nc ((us_kcp u)\<lparr>stream := 1\<rparr>)))))))"
    if "session_ready h nd itv rs nc sw m" for nd itv rs nc sw rw m
    by (rule configure_ok) (use u that in \<open>simp_all add: session_ready_def\<close>)
  show "session_ready h (kc_NoDelay cc) (kc_Interval cc) (kc_Resend cc) (kc_NoCongestion cc) (kc_SndWnd cc) (kc_MTU cc) \<Longrightarrow>
      configured (kc_NoDelay cc) (kc_Interval cc) (kc_Resend cc) (kc_NoCongestion cc) (kc_SndWnd cc) (kc_MTU cc)
        (us_kcp (client_configure cc u))"
    using ok client_configure_eq by simp
  show "session_ready h (ks_NoDelay cs) (ks_Interval cs) (ks_Resend cs) (ks_NoCongestion cs) (ks_SndWnd cs) (ks_MTU cs) \<Longrightarrow>
      configured (ks_NoDelay cs) (ks_Interval cs) (ks_Resend cs) (ks_NoCongestion cs) (ks_SndWnd cs) (ks_MTU cs)
        (us_kcp (server_configure cs u))"
    using ok server_configure_eq by simp
qed

text \<open>C21. The session the client dials and the session the server accepts are tuned alike: for
  settings in range, both are in stream mode with the MTU, update interval, timeouts, fast-resend
  and congestion settings and send window of their configuration and satisfy the invariant of KCP,
  so no flush of theirs panics or exceeds the MTU; when the two configurations agree, the
  order in which the two programs apply the settings makes no difference. On the
  server this holds of a new session and of any that has consumed packets but sent no data, as a session has
  when it is accepted (\<open>accepted_unsent\<close>).
\<close>

theorem sessions_configured:
  assumes c: "session_ready hc (kc_NoDelay cc) (kc_Interval cc) (kc_Resend cc) (kc_NoCongestion cc) (kc_SndWnd cc) (kc_MTU cc)"
    and conn: "createConn is4 cc env now session_ok conv hc opts mux_ok = Some (a, Some r, es)"
    and s: "session_ready hs (ks_NoDelay cs) (ks_Interval cs) (ks_Resend cs) (ks_NoCongestion cs) (ks_SndWnd cs) (ks_MTU cs)"
  shows "configured (kc_NoDelay cc) (kc_Interval cc) (kc_Resend cc) (kc_NoCongestion cc) (kc_SndWnd cc) (kc_MTU cc)
      (us_kcp (cr_session r))
    \<and> configured (ks_NoDelay cs) (ks_Interval cs) (ks_Resend cs) (ks_NoCongestion cs) (ks_SndWnd cs) (ks_MTU cs)
      (us_kcp (server_configure cs (newUDPSession conv hs)))
    \<and> (\<forall>u. kcp_ok (us_kcp u) \<and> snd_buf (us_kcp u) = [] \<and> snd_queue (us_kcp u) = [] \<and> reserved (us_kcp u) = nat hs \<longrightarrow>
        configured (ks_NoDelay cs) (ks_Interval cs) (ks_Resend cs) (ks_NoCongestion cs) (ks_SndWnd cs) (ks_MTU cs)
          (us_kcp (server_configure cs u)))
    \<and> (kc_NoDelay cc = ks_NoDelay cs \<and> kc_Interval cc = ks_Interval cs \<and> kc_Resend cc = ks_Resend cs
        \<and> kc_NoCongestion cc = ks_NoCongestion cs \<and> kc_SndWnd cc = ks_SndWnd cs \<and> kc_RcvWnd cc = ks_RcvWnd cs
        \<and> kc_MTU cc = ks_MTU cs \<and> kc_AckNodelay cc = ks_AckNodelay cs \<and> hc = hs
        \<longrightarrow> cr_session r = server_configure cs (newUDPSession conv hs))"
proof -
  have r: "cr_session r = client_configure cc (newUDPSession conv hc)"
  proof -
    obtain d e where d: "client_dial is4 cc env now session_ok = Some (d, e)"
      using conn by (auto simp: createConn_def bind_eq_Some_conv)
    show ?thesis using conn by (cases opts; cases d) (auto simp: createConn_def Let_def d)
  qed
  have new: "0 \<le> hc" "hc \<le> 28" "0 \<le> hs" "hs \<le> 28" using c s by (simp_all add: session_ready_def)
  show ?thesis
  proof (intro conjI impI allI)
    show "configured (kc_NoDelay cc) (kc_Interval cc) (kc_Resend cc) (kc_NoCongestion cc) (kc_SndWnd cc) (kc_MTU cc)
        (us_kcp (cr_session r))"
      unfolding r by (rule settings_configure(1) [where h = hc]) (use new_session_ok [OF new(1,2)] c in simp_all)
    show "configured (ks_NoDelay cs) (ks_Interval cs) (ks_Resend cs) (ks_NoCongestion cs) (ks_SndWnd cs) (ks_MTU cs)
        (us_kcp (server_configure cs (newUDPSession conv hs)))"
      by (rule settings_configure(2) [where h = hs]) (use new_session_ok [OF new(3,4)] s in simp_all)
    show "configured (ks_NoDelay cs) (ks_Interval cs) (ks_Resend cs) (ks_NoCongestion cs) (ks_SndWnd cs) (ks_MTU cs)
          (us_kcp (server_configure cs u))"
      if "kcp_ok (us_kcp u) \<and> snd_buf (us_kcp u) = [] \<and> snd_queue (us_kcp u) = [] \<and> reserved (us_kcp u) = nat hs" for u
      using settings_configure(2) [of u hs] that s by simp
  qed (simp add: r client_configure_def server_configure_def SetStreamMode_def SetWriteDelay_def SetNoDelay_def SetWindowSize_def
      session_SetMtu_def SetACKNoDelay_def Let_def WndSize_SetMtu)
qed

definition sample_server_config :: server_Config where
  "sample_server_config = server_mode
     \<lparr>ks_Listen = '':29900'', ks_Target = ''127.0.0.1:12948'', ks_Key = default_key, ks_Crypt = ''aes'', ks_Mode = ''fast'',
      ks_MTU = 1350, ks_SndWnd = 1024, ks_RcvWnd = 1024, ks_DataShard = 10, ks_ParityShard = 3, ks_DSCP = 0,
      ks_NoComp = False, ks_AckNodelay = False, ks_NoDelay = 0, ks_Interval = 50, ks_Resend = 0, ks_NoCongestion = 0,
      ks_SockBuf = 4194304, ks_SmuxBuf = 4194304, ks_KeepAlive = 10, ks_Log = [], ks_SnmpLog = [], ks_SnmpPeriod = 60,
      ks_Pprof = False, ks_Quiet = False, ks_TCP = False, ks_TCPMark = DefaultMark\<rparr>"

theorem sessions_configured_witness:
  "configured 0 30 2 1 128 1350 (us_kcp (client_configure sample_client_config (newUDPSession 7 28)))
    \<and> configured 0 30 2 1 1024 1350 (us_kcp (server_configure sample_server_config (newUDPSession 7 28)))"
proof -
  obtain r where r: "createConn (\<lambda>_. True) sample_client_config sample_dial 0 True 7 28 (True, True, True) (\<lambda>_. True) = Some (Connects, Some r, [])"
      "cr_session r = client_configure sample_client_config (newUDPSession 7 28)"
    by (simp add: createConn_def client_dial_def sample_client_config_def client_mode_def)
  show ?thesis
    using sessions_configured [OF _ r(1), of 28 sample_server_config] r(2)
    by (simp add: session_ready_def) (simp add: session_ready_def sample_client_config_def sample_server_config_def client_mode_def server_mode_def)
qed

lemma client_block_server: "client_block L name key = server_block L name key"
  by (simp add: client_block_def server_block_def)

text \<open>C27. A client and a server of the stream tunnel started with the same cipher name and key encrypt
  with the same cipher, or both not at all, and report it under the same name, whatever the name
  is; the server always serves UDP, and the disguise as well exactly when it was asked to and could
  listen; the client, once its sessions have connected, has one for each connection asked for.
\<close>

theorem stream_commands_agree:
  assumes "client_main L ctx conf log_opens listens xs = Running (cc, bc, Some s)"
    and "server_main L ctx' conf' log_opens' udp_ok env served = Running (cs, bs, ls)"
    and "client_load ctx conf log_opens = Some cc0" "server_load ctx' conf' log_opens' = Some cs0"
    and "kc_Crypt cc0 = ks_Crypt cs0" "kc_Key cc0 = ks_Key cs0"
  shows "bc = bs \<and> kc_Crypt cc = ks_Crypt cs
    \<and> (if ks_TCP cs then case fst (raw_Listen env) of Inl _ \<Rightarrow> ls = [UdpListener] | Inr conn \<Rightarrow> ls = [UdpListener, TcpListener conn]
       else ls = [UdpListener])
    \<and> length (st_muxes s) = unat (numconn cc) \<and> mset (map mux_session (st_muxes s)) = mset [0..<unat (numconn cc)]"
proof -
  obtain name blk where b: "client_block L (kc_Crypt cc0) (map of_char (kc_Key cc0)) = (name, blk)" by fastforce
  have sb: "server_block L (ks_Crypt cs0) (map of_char (ks_Key cs0)) = (name, blk)"
    using b assms(5,6) by (simp add: client_block_server)
  have c: "cc = cc0\<lparr>kc_Crypt := name\<rparr>" "bc = blk" "stream_start cc xs = Some s"
    using assms(1,3) b by (auto simp: client_main_def Let_def split: if_splits option.splits)
  have d: "cs = cs0\<lparr>ks_Crypt := name\<rparr>" "bs = blk" "server_listeners cs udp_ok env served = Some ls"
    using assms(2,4) sb by (auto simp: server_main_def Let_def split: if_splits option.splits)
  obtain s0 where s0: "open_muxes cc (unat (numconn cc)) xs s0 = Some s" "st_muxes s0 = []" "st_next s0 = 0"
      "st_chan s0 = []" "st_list s0 = []" "st_closed s0 = []"
    using c(3) by (simp add: stream_start_def)
  note o = open_muxes_ok [OF s0(1)]
  have "all_sessions s = map mux_session (st_muxes s)" "all_sessions s0 = []"
    using o s0 by (simp_all add: all_sessions_def)
  then show ?thesis
    using c d o s0 by (auto simp: server_listeners_def split: if_splits sum.splits)
qed

abbreviation "stream_client_ctx \<equiv> context_of client_Config_flags sample_given (\<lambda>_. None)"
abbreviation "stream_server_ctx \<equiv> context_of server_Config_flags sample_given (\<lambda>_. None)"

lemma stream_loads:
  "\<exists>cc. client_load stream_client_ctx sample_file True = Some cc \<and> kc_Crypt cc = ''aes'' \<and> kc_Key cc = default_key
     \<and> kc_Conn cc = 1 \<and> kc_SnmpLog cc = []"
  "\<exists>cs. server_load stream_server_ctx sample_file True = Some cs \<and> ks_Crypt cs = ''aes'' \<and> ks_Key cs = default_key
     \<and> ks_TCP cs = False \<and> ks_SnmpLog cs = []"
proof -
  have c: "ctx_String stream_client_ctx ''c'' = ''conf.json''" "ctx_String stream_client_ctx ''crypt'' = ''aes''"
    "ctx_String stream_client_ctx ''key'' = default_key" "ctx_Int stream_client_ctx ''conn'' = 1"
    "ctx_String stream_client_ctx ''snmplog'' = []" "ctx_String stream_client_ctx ''log'' = []"
    by (simp_all add: context_of_def find_flag_def client_Config_flags_def flag_key_def flag_or_default_def sample_given_def)
  have d: "ctx_String stream_server_ctx ''c'' = ''conf.json''" "ctx_String stream_server_ctx ''crypt'' = ''aes''"
    "ctx_String stream_server_ctx ''key'' = default_key" "ctx_Bool stream_server_ctx ''tcp'' = False"
    "ctx_String stream_server_ctx ''snmplog'' = []" "ctx_String stream_server_ctx ''log'' = []"
    by (simp_all add: context_of_def find_flag_def server_Config_flags_def flag_key_def flag_or_default_def sample_given_def)
  show "\<exists>cc. client_load stream_client_ctx sample_file True = Some cc \<and> kc_Crypt cc = ''aes'' \<and> kc_Key cc = default_key
     \<and> kc_Conn cc = 1 \<and> kc_SnmpLog cc = []"
    by (simp add: client_load_def c sample_file_def parseJSONConfig_def client_Config_tags_def lower_samples set_int_def
        set_string_def client_Config_of_flags_def client_mode_def)
  show "\<exists>cs. server_load stream_server_ctx sample_file True = Some cs \<and> ks_Crypt cs = ''aes'' \<and> ks_Key cs = default_key
     \<and> ks_TCP cs = False \<and> ks_SnmpLog cs = []"
    by (simp add: server_load_def d sample_file_def parseJSONConfig_def server_Config_tags_def lower_samples set_int_def
        set_string_def server_Config_of_flags_def server_mode_def)
qed

theorem stream_commands_agree_witness:
  "\<exists>cc bc s cs bs ls.
     client_main sample_libs stream_client_ctx sample_file True True [([Connects], 5)] = Running (cc, bc, Some s)
     \<and> server_main sample_libs stream_server_ctx sample_file True True sample_listen True = Running (cs, bs, ls)
     \<and> bc = bs"
proof -
  obtain cc where cc: "client_load stream_client_ctx sample_file True = Some cc" "kc_Crypt cc = ''aes''" "kc_Key cc = default_key"
      "kc_Conn cc = 1" "kc_SnmpLog cc = []"
    using stream_loads(1) by blast
  obtain cs where cs: "server_load stream_server_ctx sample_file True = Some cs" "ks_Crypt cs = ''aes''" "ks_Key cs = default_key"
      "ks_TCP cs = False" "ks_SnmpLog cs = []"
    using stream_loads(2) by blast
  have "unat (numconn (cc\<lparr>kc_Crypt := n\<rparr>)) = Suc 0" for n by (simp add: numconn_def cc(4))
  then have start: "\<exists>s. stream_start (cc\<lparr>kc_Crypt := n\<rparr>) [([Connects], 5)] = Some s" for n
    by (simp add: stream_start_def)
  obtain b where b: "client_block sample_libs ''aes'' (map of_char default_key) = b" by blast
  obtain bc s where c: "client_main sample_libs stream_client_ctx sample_file True True [([Connects], 5)]
      = Running (cc\<lparr>kc_Crypt := fst b\<rparr>, bc, Some s)"
    using start [of "fst b"] b cc by (cases b) (auto simp: client_main_def snmp_starts_def)
  obtain bs where d: "server_main sample_libs stream_server_ctx sample_file True True sample_listen True
      = Running (cs\<lparr>ks_Crypt := fst b\<rparr>, bs, [UdpListener])"
    using b cs by (cases b) (auto simp: server_main_def snmp_starts_def server_listeners_def client_block_server)
  show ?thesis
    using stream_commands_agree [OF c d cc(1) cs(1)] cc(2,3) cs(2,3) c d by auto
qed

end
