(* ===== verification/SessionUse.thy ===== *)
theory SessionUse
  imports SessionSafe KcpTransfer StreamServer
begin

section \<open>A session in use\<close>

text \<open>
  Readers, writers, the read loop, the update goroutine and whoever changes the settings take turns
  on a session, as its lock makes them: here is what each turn does to the session's invariant.
\<close>

subsection \<open>Creation\<close>

definition rs_sized :: "(int \<Rightarrow> int \<Rightarrow> rs_codec option) \<Rightarrow> bool" where
  "rs_sized New \<longleftrightarrow> (\<forall>d p c. New d p = Some c \<longrightarrow> codec_sized c)"

lemma newUDPSession_kcp:
  "h \<le> 28 \<Longrightarrow> snd (ReserveBytes (int h) (NewKCP conv)) = us_kcp (newUDPSession conv (int h))"
  by (simp add: newUDPSession_def)

lemma new_session_sel:
  assumes "new_session L New key seed conv d p client blk w = Some (s, w')"
  shows "us_kcp s = us_kcp (newUDPSession conv (int (s_headerSize s)))" "s_block s = blk" "s_bufptr s = []"
    "s_isClosed s = False" "s_conn s = []" "s_client s = client" "outs w' = outs w" "s_chReadEvent s = False"
    "s_headerSize s = crypt_room blk + (if s_fecEncoder s = None then 0 else 8)"
    "s_fecEncoder s = newFECEncoder New d p (crypt_room blk)"
    "s_fecDecoder s = newFECDecoder New (3 * (d + p)) d p"
    "nonceAES128_Init L key seed = Some (s_nonce s)"
  using assms
  by (auto simp: new_session_def newUDPSession_def crypt_room_def cryptHeaderSize_def fecHeaderSizePlus2_def
      rxFECMulti_def Let_def split: option.splits Option.bind_splits if_splits)

lemma codecs_match:
  "(newFECEncoder New d p ho = None) = (newFECDecoder New (3 * (d + p)) d p = None)"
  by (auto simp: newFECEncoder_def newFECDecoder_def Let_def split: option.splits)

lemma header_le: "crypt_room blk + (if e = None then 0 else 8) \<le> 28"
  by (simp add: crypt_room_def)

lemma created_session_ok:
  assumes "new_session L New key seed conv d p client blk w = Some (s, w')"
    "ciphers_ok L" "length seed = 16" "block_fine blk" "rs_sized New"
  shows "session_ok s"
proof -
  note sel = new_session_sel [OF assms(1)]
  have h: "s_headerSize s \<le> 28" unfolding sel(9) by (rule header_le)
  have kcp: "kcp_ok (us_kcp s)" "reserved (us_kcp s) = s_headerSize s"
    using new_session_ok [of "int (s_headerSize s)" conv] h unfolding sel(1) by simp_all
  obtain b where b: "aes_NewCipher L key = Some b" "s_nonce s = \<lparr>nonce_seed = seed, nonce_block = b\<rparr>"
    using sel(12) by (auto simp: nonceAES128_Init_def)
  then have "cipher_ok b \<and> BlockSize b = 16" using assms(2) by (auto simp: ciphers_ok_def)
  then have "nonce_fine (s_nonce s)" using b(2) assms(3) by (simp add: nonce_fine_def)
  moreover have "enc_fine (crypt_room (s_block s)) enc" if "s_fecEncoder s = Some enc" for enc
    using newFECEncoder_fine that unfolding sel(2,10) by blast
  ultimately have "parts_ok s" using assms(4) sel(2,9) by (simp add: parts_ok_def)
  moreover have "dec_fine dec" if "s_fecDecoder s = Some dec" for dec
    using that assms(5) unfolding sel(11)
    by (auto simp: newFECDecoder_def dec_fine_def rs_sized_def split: if_splits option.splits)
  moreover have "s_fecEncoder s = None \<longleftrightarrow> s_fecDecoder s = None" unfolding sel(10,11) by (rule codecs_match)
  ultimately show ?thesis using kcp by (simp add: session_ok_def)
qed

subsection \<open>Settings\<close>

text \<open>The settings of a session are those of \<^typ>\<open>udp_session\<close>, which it extends.\<close>

definition with_settings :: "(udp_session \<Rightarrow> udp_session) \<Rightarrow> session \<Rightarrow> session" where
  "with_settings f s =
     (let u = f \<lparr>us_kcp = us_kcp s, us_ackNoDelay = us_ackNoDelay s, us_writeDelay = us_writeDelay s\<rparr>
      in s\<lparr>us_kcp := us_kcp u, us_ackNoDelay := us_ackNoDelay u, us_writeDelay := us_writeDelay u\<rparr>)"

text \<open>A new session as it is, or tuned by the client or server command with settings in range.\<close>

definition tuned :: "session \<Rightarrow> session \<Rightarrow> bool" where
  "tuned s s' \<longleftrightarrow> s' = s
     \<or> (\<exists>c. session_ready (int (s_headerSize s)) (kc_NoDelay c) (kc_Interval c) (kc_Resend c) (kc_NoCongestion c)
              (kc_SndWnd c) (kc_MTU c) \<and> s' = with_settings (client_configure c) s)
     \<or> (\<exists>c. session_ready (int (s_headerSize s)) (ks_NoDelay c) (ks_Interval c) (ks_Resend c) (ks_NoCongestion c)
              (ks_SndWnd c) (ks_MTU c) \<and> s' = with_settings (server_configure c) s)"

lemma session_ok_kcp_only:
  assumes "session_ok s" "kcp_ok k" "reserved k = reserved (us_kcp s)"
  shows "session_ok (s\<lparr>us_kcp := k, us_ackNoDelay := a, us_writeDelay := d\<rparr>)"
  using assms by (simp add: session_ok_def parts_ok_def)

lemma tuned_kcp:
  assumes "tuned s s'"
  obtains k a d where "s' = s\<lparr>us_kcp := k, us_ackNoDelay := a, us_writeDelay := d\<rparr>"
    "k = us_kcp s \<or> (\<exists>nd itv rs nc sw rw m. session_ready (int (s_headerSize s)) nd itv rs nc sw m
       \<and> k = snd (SetMtu m (snd (WndSize sw rw (snd (NoDelay nd itv rs nc ((us_kcp s)\<lparr>stream := 1\<rparr>)))))))"
proof -
  have same: "s = s\<lparr>us_kcp := us_kcp s, us_ackNoDelay := us_ackNoDelay s, us_writeDelay := us_writeDelay s\<rparr>" by simp
  show ?thesis
    using assms unfolding tuned_def
  proof (elim disjE exE conjE)
    assume "s' = s"
    with same that show ?thesis by metis
  next
    fix c assume c: "session_ready (int (s_headerSize s)) (kc_NoDelay c) (kc_Interval c) (kc_Resend c) (kc_NoCongestion c)
              (kc_SndWnd c) (kc_MTU c)" "s' = with_settings (client_configure c) s"
    show ?thesis
      by (rule that) (use c(2) client_configure_eq [OF c(1)] in \<open>simp add: with_settings_def\<close>, use c(1) in blast)
  next
    fix c assume c: "session_ready (int (s_headerSize s)) (ks_NoDelay c) (ks_Interval c) (ks_Resend c) (ks_NoCongestion c)
              (ks_SndWnd c) (ks_MTU c)" "s' = with_settings (server_configure c) s"
    show ?thesis
      by (rule that) (use c(2) server_configure_eq [OF c(1)] in \<open>simp add: with_settings_def\<close>, use c(1) in blast)
  qed
qed

text \<open>What tuning leaves alone in a connection.\<close>

definition untuned :: "KCP \<Rightarrow> KCP \<Rightarrow> bool" where
  "untuned k k' \<longleftrightarrow> kconv k' = kconv k \<and> reserved k' = reserved k \<and> snd_una k' = snd_una k \<and> snd_nxt k' = snd_nxt k
     \<and> rcv_nxt k' = rcv_nxt k \<and> snd_queue k' = snd_queue k \<and> snd_buf k' = snd_buf k \<and> rcv_queue k' = rcv_queue k
     \<and> rcv_buf k' = rcv_buf k"

lemma untuned_refl [simp]: "untuned k k" "untuned k (k\<lparr>stream := b\<rparr>)"
  by (simp_all add: untuned_def)

lemma untuned_trans: "untuned a b \<Longrightarrow> untuned b c \<Longrightarrow> untuned a c"
  by (simp add: untuned_def)

lemma untuned_settings:
  "untuned k (snd (NoDelay nd itv rs nc k))" "untuned k (snd (WndSize sw rw k))" "untuned k (snd (SetMtu m k))"
  by (simp_all add: untuned_def NoDelay_def WndSize_def SetMtu_def Let_def)

lemma tuned_sel:
  assumes "new_session L New key seed conv d p client blk w0 = Some (s0, w)" "tuned s0 s"
    "ciphers_ok L" "length seed = 16" "block_fine blk" "rs_sized New"
  shows "session_ok s" "untuned (us_kcp s0) (us_kcp s)"
    "\<exists>k a dl. s = s0\<lparr>us_kcp := k, us_ackNoDelay := a, us_writeDelay := dl\<rparr>"
proof -
  have ok: "session_ok s0" using created_session_ok [OF assms(1,3-6)] .
  from tuned_kcp [OF assms(2)] obtain k a dl where s: "s = s0\<lparr>us_kcp := k, us_ackNoDelay := a, us_writeDelay := dl\<rparr>"
    "k = us_kcp s0 \<or> (\<exists>nd itv rs nc sw rw m. session_ready (int (s_headerSize s0)) nd itv rs nc sw m
       \<and> k = snd (SetMtu m (snd (WndSize sw rw (snd (NoDelay nd itv rs nc ((us_kcp s0)\<lparr>stream := 1\<rparr>)))))))" .
  have "kcp_ok k \<and> untuned (us_kcp s0) k"
    using s(2)
  proof (elim disjE exE conjE)
    assume "k = us_kcp s0"
    then show ?thesis using ok by (simp add: session_ok_def untuned_def)
  next
    fix nd itv rs nc sw rw m
    assume r: "session_ready (int (s_headerSize s0)) nd itv rs nc sw m"
      and k: "k = snd (SetMtu m (snd (WndSize sw rw (snd (NoDelay nd itv rs nc ((us_kcp s0)\<lparr>stream := 1\<rparr>))))))"
    have "configured nd itv rs nc sw m k"
      unfolding k new_session_sel(1) [OF assms(1)] by (rule session_configured [OF r])
    moreover have "untuned (us_kcp s0) k" unfolding k
      by (intro untuned_trans [OF _ untuned_settings(3)] untuned_trans [OF _ untuned_settings(2)]
          untuned_trans [OF _ untuned_settings(1)]) (simp add: untuned_def)
    ultimately show ?thesis by (simp add: configured_def)
  qed
  then show "session_ok s" "untuned (us_kcp s0) (us_kcp s)" unfolding s(1)
    using session_ok_kcp_only [OF ok, of k] by (simp_all add: untuned_def)
  show "\<exists>k a dl. s = s0\<lparr>us_kcp := k, us_ackNoDelay := a, us_writeDelay := dl\<rparr>" using s(1) by blast
qed

text \<open>
  A single setting of a session in use, applied at any time. The guards are those under which the
  settings are harmless: a send window below \<open>2^31\<close>, and an MTU that is refused or leaves room for the
  header and for every segment that is already queued
  (\<open>SetMtu_accepts_too_small\<close> shows what the code does with others).
\<close>

definition mtu_fits :: "int \<Rightarrow> KCP \<Rightarrow> bool" where
  "mtu_fits m k \<longleftrightarrow> IKCP_OVERHEAD + int (reserved k) < m
     \<and> (\<forall>g \<in> set (snd_buf k @ snd_queue k). int (length (seg_data g)) + IKCP_OVERHEAD + int (reserved k) \<le> m)"

inductive setting :: "session \<Rightarrow> session \<Rightarrow> bool" for s :: session where
  stream_mode: "setting s (with_settings (SetStreamMode b) s)"
| write_delay: "setting s (with_settings (SetWriteDelay b) s)"
| ack_no_delay: "setting s (with_settings (SetACKNoDelay b) s)"
| no_delay: "setting s (with_settings (SetNoDelay nd itv rs nc) s)"
| window: "sw < 2 ^ 31 \<Longrightarrow> setting s (with_settings (SetWindowSize sw rw) s)"
| mtu: "m < 50 \<or> mtuLimit < m \<or> mtu_fits m (us_kcp s) \<Longrightarrow>
     setting s (with_settings (\<lambda>u. snd (session_SetMtu m u)) s)"

lemma kcp_ok_NoDelay: "kcp_ok k \<Longrightarrow> kcp_ok (snd (NoDelay nd itv rs nc k))"
  using configure_keeps_ok [of k 0 nd itv rs nc 0] by (auto simp: WndSize_def)

lemma kcp_ok_WndSize:
  assumes "kcp_ok k" "sw < 2 ^ 31"
  shows "kcp_ok (snd (WndSize sw rw k))"
proof -
  have "NoDelay (-1) (-1) (-1) (-1) k = (0, k)" by (simp add: NoDelay_def Let_def)
  then show ?thesis using configure_keeps_ok [OF assms, of "-1" "-1" "-1" "-1" rw] by auto
qed

lemma kcp_ok_SetMtu:
  assumes "kcp_ok k" "m \<le> mtuLimit" "mtu_fits m k"
  shows "kcp_ok (snd (SetMtu m k))"
proof (cases "m < 50 \<or> m < IKCP_OVERHEAD \<or> int (reserved k) \<ge> uint (mtu k - IKCP_OVERHEAD)")
  case True
  then show ?thesis using assms(1) by (auto simp: SetMtu_def)
next
  case False
  define t where "t = (word_of_int m :: u32)"
  have m: "24 + int (reserved k) < m" "m \<le> 1500" using assms(2,3) by (simp_all add: mtu_fits_def)
  have t: "unat t = nat m" using m by (simp add: t_def unsigned_of_int take_bit_int_eq_self)
  have mss: "unat (t - 24 - of_nat (reserved k)) = nat m - 24 - reserved k"
    using m t unat_room(1) [of "reserved k" t] by simp
  let ?k = "k\<lparr>mtu := t, mss := t - 24 - of_nat (reserved k), buffer := replicate (nat m) 0\<rparr>"
  have "snd (SetMtu m k) = ?k" using False by (simp add: SetMtu_def t_def Let_def)
  moreover have "nat m \<le> 1500 \<and> 24 + reserved k < nat m" using m by linarith
  then have "layout ?k" using t mss by (simp add: layout_def)
  moreover have "fits ?k (snd_buf k) \<and> fits ?k (snd_queue k)"
  proof -
    have "length (seg_data g) \<le> nat m - 24 - reserved k" if "g \<in> set (snd_buf k @ snd_queue k)" for g
    proof -
      have "int (length (seg_data g)) + 24 + int (reserved k) \<le> m" using assms(3) that by (simp add: mtu_fits_def)
      then show ?thesis by linarith
    qed
    then show ?thesis using mss by (simp add: fits_def)
  qed
  ultimately show ?thesis
    using assms(1) by (simp add: kcp_ok_def send_inv_def recv_inv_def)
qed

text \<open>A setting touches the connection's parameters and two flags, and keeps the invariant.\<close>

lemma with_settings_shape:
  assumes "\<And>u. us_kcp u = us_kcp s \<Longrightarrow> (session_ok s \<longrightarrow> kcp_ok (us_kcp (f u))) \<and> untuned (us_kcp s) (us_kcp (f u))"
  shows "\<exists>k a d. with_settings f s = s\<lparr>us_kcp := k, us_ackNoDelay := a, us_writeDelay := d\<rparr>
     \<and> (session_ok s \<longrightarrow> kcp_ok k) \<and> untuned (us_kcp s) k"
  unfolding with_settings_def Let_def
  by (intro exI, rule conjI, rule refl) (rule assms, simp)

lemma setting_shape:
  assumes "setting s s'"
  shows "\<exists>k a d. s' = s\<lparr>us_kcp := k, us_ackNoDelay := a, us_writeDelay := d\<rparr>
     \<and> (session_ok s \<longrightarrow> kcp_ok k) \<and> untuned (us_kcp s) k"
  using assms
proof cases
  case (mtu m)
  have "(session_ok s \<longrightarrow> kcp_ok (us_kcp (snd (session_SetMtu m u))))
      \<and> untuned (us_kcp s) (us_kcp (snd (session_SetMtu m u)))" if "us_kcp u = us_kcp s" for u
    using that mtu(2) kcp_ok_SetMtu [of "us_kcp s" m]
    by (auto simp: session_SetMtu_def SetMtu_def session_ok_def untuned_def)
  then show ?thesis unfolding mtu(1) by (rule with_settings_shape)
qed (erule ssubst, rule with_settings_shape, simp add: SetStreamMode_def SetWriteDelay_def SetACKNoDelay_def SetNoDelay_def SetWindowSize_def
    session_ok_def kcp_ok_NoDelay kcp_ok_WndSize untuned_settings)+

lemma setting_ok:
  assumes "setting s s'" "session_ok s"
  shows "session_ok s'"
proof -
  from setting_shape [OF assms(1)] assms(2) obtain k a d where
    "s' = s\<lparr>us_kcp := k, us_ackNoDelay := a, us_writeDelay := d\<rparr>" "kcp_ok k" "untuned (us_kcp s) k" by blast
  then show ?thesis using session_ok_kcp_only [OF assms(2)] by (simp add: untuned_def)
qed

lemma setting_keeps:
  assumes "setting s s'"
  shows "s_isClosed s' = s_isClosed s" "s_chReadEvent s' = s_chReadEvent s" "s_chWriteEvent s' = s_chWriteEvent s"
    "s_bufptr s' = s_bufptr s" "rcv_queue (us_kcp s') = rcv_queue (us_kcp s)" "WaitSnd (us_kcp s') = WaitSnd (us_kcp s)"
  using setting_shape [OF assms] by (auto simp: untuned_def WaitSnd_def)

text \<open>What the server does to an accepted session is six settings, one after the other.\<close>

lemma with_settings_comp: "with_settings g (with_settings f s) = with_settings (\<lambda>u. g (f u)) s"
proof -
  have u: "\<lparr>us_kcp = us_kcp u, us_ackNoDelay = us_ackNoDelay u, us_writeDelay = us_writeDelay u\<rparr> = u" for u :: udp_session
    by (cases u) simp
  show ?thesis by (simp add: with_settings_def Let_def u)
qed

lemma server_settings:
  assumes "snd_buf (us_kcp s) = []" "snd_queue (us_kcp s) = []" "reserved (us_kcp s) = s_headerSize s"
    "session_ready (int (s_headerSize s)) (ks_NoDelay c) (ks_Interval c) (ks_Resend c) (ks_NoCongestion c) (ks_SndWnd c) (ks_MTU c)"
  shows "setting\<^sup>*\<^sup>* s (with_settings (server_configure c) s)"
proof -
  define s1 where "s1 = with_settings (SetStreamMode True) s"
  define s2 where "s2 = with_settings (SetWriteDelay False) s1"
  define s3 where "s3 = with_settings (SetNoDelay (ks_NoDelay c) (ks_Interval c) (ks_Resend c) (ks_NoCongestion c)) s2"
  define s4 where "s4 = with_settings (\<lambda>u. snd (session_SetMtu (ks_MTU c) u)) s3"
  define s5 where "s5 = with_settings (SetWindowSize (ks_SndWnd c) (ks_RcvWnd c)) s4"
  define s6 where "s6 = with_settings (SetACKNoDelay (ks_AckNodelay c)) s5"
  have a: "setting s s1" "setting s1 s2" "setting s2 s3"
    unfolding s1_def s2_def s3_def by (rule setting.intros)+
  have u: "untuned (us_kcp s') (us_kcp t)" if "setting s' t" for s' t using setting_shape [OF that] by auto
  have "untuned (us_kcp s) (us_kcp s3)" using untuned_trans [OF untuned_trans [OF u [OF a(1)] u [OF a(2)]] u [OF a(3)]] .
  then have "mtu_fits (ks_MTU c) (us_kcp s3)" using assms by (simp add: untuned_def mtu_fits_def session_ready_def)
  then have b: "setting s3 s4" unfolding s4_def by (intro setting.mtu) simp
  have "ks_SndWnd c < 2 ^ 31" using assms(4) by (simp add: session_ready_def)
  then have d: "setting s4 s5" "setting s5 s6" unfolding s5_def s6_def by (auto intro: setting.intros)
  have "s6 = with_settings (server_configure c) s"
    unfolding s1_def s2_def s3_def s4_def s5_def s6_def with_settings_comp server_configure_def Let_def ..
  then show ?thesis using a b d by (meson converse_rtranclp_into_rtranclp rtranclp.rtrancl_refl)
qed

subsection \<open>Reading\<close>

lemma session_ok_kcp:
  "session_ok s \<Longrightarrow> kcp_ok k \<Longrightarrow> same_config (us_kcp s) k \<Longrightarrow> session_ok (s\<lparr>us_kcp := k\<rparr>)"
  by (simp add: session_ok_def same_config_def)

lemma session_ok_flags [simp]:
  "session_ok (s\<lparr>s_bufptr := b\<rparr>) = session_ok s" "session_ok (s\<lparr>s_chReadEvent := e\<rparr>) = session_ok s"
  "session_ok (s\<lparr>s_chWriteEvent := e\<rparr>) = session_ok s" "session_ok (s\<lparr>s_chReadError := e\<rparr>) = session_ok s"
  "session_ok (s\<lparr>s_chWriteError := e\<rparr>) = session_ok s" "session_ok (s\<lparr>s_isClosed := e\<rparr>) = session_ok s"
  "session_ok (s\<lparr>s_rd := t\<rparr>) = session_ok s" "session_ok (s\<lparr>s_wd := t\<rparr>) = session_ok s"
  "session_ok (s\<lparr>s_dup := n\<rparr>) = session_ok s"
  by (simp_all add: session_ok_def parts_ok_def)

lemma Recv_first:
  assumes "kcp_ok k" "0 < PeekSize k" "nat (PeekSize k) \<le> n"
  shows "\<exists>buf k'. Recv (replicate n 0) k = Some (PeekSize k, buf, k') \<and> kcp_ok k' \<and> same_config k k'
     \<and> take (nat (PeekSize k)) buf = payload (first_msg (rcv_queue k))
     \<and> length (payload (first_msg (rcv_queue k))) = nat (PeekSize k) \<and> length buf = n"
proof -
  have pre: "rcv_queue k \<noteq> []" "0 \<le> PeekSize k" "PeekSize k \<le> int (length (replicate n (0 :: byte)))"
    using assms(2,3) by (auto simp: PeekSize_def)
  have size: "PeekSize k = int (length (payload (first_msg (rcv_queue k))))" using PeekSize_nonneg [OF pre(2)] .
  from Recv_ok [OF pre] obtain k' where
    r: "Recv (replicate n 0) k = Some (PeekSize k, payload (first_msg (rcv_queue k))
        @ drop (length (payload (first_msg (rcv_queue k)))) (replicate n 0), k')"
    unfolding size by blast
  with Recv_outcome [OF assms(1) r] size assms(3) show ?thesis by auto
qed

text \<open>
  What a pass of \<open>Read\<close> does to the bytes in order: those left of the last message come first,
  then those of the next.
\<close>

lemma Read_pass_ok:
  assumes "session_ok s"
  shows "\<exists>r s' w'. Read_pass n now s w = Some (r, s', w') \<and> session_ok s'
     \<and> (\<exists>k b. s' = s\<lparr>us_kcp := k, s_bufptr := b\<rparr>) \<and> same_config (us_kcp s) (us_kcp s')
     \<and> (r = Waits \<longrightarrow> s' = s \<and> s_bufptr s = [] \<and> PeekSize (us_kcp s) \<le> 0)
     \<and> (0 < length (s_bufptr s) \<or> 0 < PeekSize (us_kcp s) \<and> \<not> s_isClosed s \<longrightarrow> 0 < n \<longrightarrow> (\<exists>b. r = Returns b \<and> b \<noteq> []))"
proof -
  let ?k = "us_kcp s"
  have ok: "kcp_ok ?k" using assms by (simp add: session_ok_def)
  show ?thesis
  proof (cases "length (s_bufptr s) > 0 \<or> s_isClosed s \<or> \<not> PeekSize ?k > 0")
    case True
    have same: "s\<lparr>us_kcp := us_kcp s, s_bufptr := b\<rparr> = s\<lparr>s_bufptr := b\<rparr>" "s\<lparr>us_kcp := us_kcp s, s_bufptr := s_bufptr s\<rparr> = s" for b
      by simp_all
    have upd: "\<exists>k b. s\<lparr>s_bufptr := b'\<rparr> = s\<lparr>us_kcp := k, s_bufptr := b\<rparr>" for b'
      by (intro exI [of _ ?k] exI [of _ b']) simp
    have upd0: "\<exists>k b. s = s\<lparr>us_kcp := k, s_bufptr := b\<rparr>"
      by (intro exI [of _ ?k] exI [of _ "s_bufptr s"]) simp
    show ?thesis
      using True assms upd upd0 by (auto simp: Read_pass_def Let_def)
  next
    case False
    then have pk: "0 < PeekSize ?k" "s_bufptr s = []" "\<not> s_isClosed s" by auto
    show ?thesis
    proof (cases "nat (PeekSize ?k) \<le> n")
      case True
      from Recv_first [OF ok pk(1) True] obtain buf k' where
        r: "Recv (replicate n 0) ?k = Some (PeekSize ?k, buf, k')" "kcp_ok k'" "same_config ?k k'"
          "take (nat (PeekSize ?k)) buf = payload (first_msg (rcv_queue ?k))"
          "length (payload (first_msg (rcv_queue ?k))) = nat (PeekSize ?k)" by blast
      have "Read_pass n now s w = Some (Returns (take (nat (PeekSize ?k)) buf), s\<lparr>us_kcp := k'\<rparr>,
          Snmp.count (\<lambda>c. c\<lparr>BytesReceived := BytesReceived c + of_nat (nat (PeekSize ?k))\<rparr>) w)"
        using pk True r(1) by (simp add: Read_pass_def Let_def)
      moreover have "take (nat (PeekSize ?k)) buf \<noteq> []" using r(4,5) pk(1) by auto
      moreover have "\<exists>k b. s\<lparr>us_kcp := k'\<rparr> = s\<lparr>us_kcp := k, s_bufptr := b\<rparr>"
        by (intro exI [of _ k'] exI [of _ "s_bufptr s"]) simp
      ultimately show ?thesis using session_ok_kcp [OF assms r(2,3)] r(3) by auto
    next
      case False
      from Recv_first [OF ok pk(1) order_refl] obtain buf k' where
        r: "Recv (replicate (nat (PeekSize ?k)) 0) ?k = Some (PeekSize ?k, buf, k')" "kcp_ok k'" "same_config ?k k'"
          "length buf = nat (PeekSize ?k)" by blast
      have "Read_pass n now s w = Some (Returns (take n buf), s\<lparr>us_kcp := k', s_bufptr := drop (length (take n buf)) buf\<rparr>,
          Snmp.count (\<lambda>c. c\<lparr>BytesReceived := BytesReceived c + of_nat (length (take n buf))\<rparr>) w)"
        using pk False r(1) by (simp add: Read_pass_def Let_def)
      moreover have "0 < n \<Longrightarrow> take n buf \<noteq> []" using r(4) pk(1) by (cases buf) auto
      moreover have "session_ok (s\<lparr>us_kcp := k', s_bufptr := drop (length (take n buf)) buf\<rparr>)"
        using session_ok_kcp [OF assms r(2,3)] by simp
      ultimately show ?thesis using r(3) by auto
    qed
  qed
qed

text \<open>Reading leaves the sending half alone.\<close>

lemma Read_pass_send:
  assumes "session_ok s" "Read_pass n now s w = Some (r, s', w')"
  shows "same_send (us_kcp s) (us_kcp s')"
proof -
  have "kcp_ok (us_kcp s)" using assms(1) by (simp add: session_ok_def)
  with Recv_outcome have "Recv b (us_kcp s) = Some (m, b', k) \<Longrightarrow> same_send (us_kcp s) k" for b m b' k by blast
  with assms(2) show ?thesis
    by (auto simp: Read_pass_def Let_def split: if_splits Option.bind_splits)
qed

subsection \<open>Writing\<close>

lemma Send_piece:
  assumes "kcp_ok k" "length b \<le> unat (mss k)"
  shows "\<exists>r q. Send b k = Some (r, k\<lparr>snd_queue := q\<rparr>) \<and> kcp_ok (k\<lparr>snd_queue := q\<rparr>)
     \<and> payload q = payload (snd_queue k) @ b"
proof -
  consider "b = []" | "b \<noteq> []" "stream k = 0" | "b \<noteq> []" "stream k \<noteq> 0" by blast
  then show ?thesis
  proof cases
    case 1
    then show ?thesis using assms(1) by (intro exI [of _ "-1"] exI [of _ "snd_queue k"]) (simp add: Send_def)
  next
    case 2
    have "frag_count b k \<le> 255" using assms(2) by (simp add: frag_count_def)
    from Send_ok [OF assms(1) 2(2,1) this] obtain segs where
      "Send b k = Some (0, k\<lparr>snd_queue := snd_queue k @ segs\<rparr>)" "concat (map seg_data segs) = b"
      "kcp_ok (k\<lparr>snd_queue := snd_queue k @ segs\<rparr>)" by blast
    then show ?thesis by (intro exI [of _ 0] exI [of _ "snd_queue k @ segs"]) (simp add: payload_def)
  next
    case 3
    have "length b \<le> 255 * unat (mss k)" using assms(2) by simp
    from Send_stream [OF assms(1) 3(2,1) this] obtain q where
      "Send b k = Some (0, k\<lparr>snd_queue := q\<rparr>)" "concat (map seg_data q) = concat (map seg_data (snd_queue k)) @ b"
      "kcp_ok (k\<lparr>snd_queue := q\<rparr>)" by blast
    then show ?thesis by (intro exI [of _ 0] exI [of _ q]) (simp add: payload_def)
  qed
qed

lemma send_pieces_ok:
  assumes "kcp_ok k"
  shows "\<exists>q. send_pieces b k = Some (k\<lparr>snd_queue := q\<rparr>) \<and> kcp_ok (k\<lparr>snd_queue := q\<rparr>)
     \<and> payload q = payload (snd_queue k) @ b"
  using assms
proof (induction b arbitrary: k rule: length_induct)
  case (1 b)
  note m = kcp_ok_mss(1) [OF 1(2)]
  show ?case
  proof (cases "length b \<le> unat (mss k)")
    case True
    with Send_piece [OF 1(2) True] show ?thesis by (auto simp: send_pieces.simps [of b k])
  next
    case False
    have "length (take (unat (mss k)) b) \<le> unat (mss k)" by simp
    from Send_piece [OF 1(2) this] obtain r q where
      q: "Send (take (unat (mss k)) b) k = Some (r, k\<lparr>snd_queue := q\<rparr>)" "kcp_ok (k\<lparr>snd_queue := q\<rparr>)"
        "payload q = payload (snd_queue k) @ take (unat (mss k)) b" by blast
    have "length (drop (unat (mss k)) b) < length b" using False m by simp
    with 1(1) q(2) obtain q' where
      q': "send_pieces (drop (unat (mss k)) b) (k\<lparr>snd_queue := q\<rparr>) = Some (k\<lparr>snd_queue := q\<rparr>\<lparr>snd_queue := q'\<rparr>)"
        "kcp_ok (k\<lparr>snd_queue := q\<rparr>\<lparr>snd_queue := q'\<rparr>)" "payload q' = payload q @ drop (unat (mss k)) b" by fastforce
    have "mss k \<noteq> 0" using m by auto
    then have "send_pieces b k = Some (k\<lparr>snd_queue := q'\<rparr>)"
      using False q(1) q'(1) by (simp add: send_pieces.simps [of b k])
    then show ?thesis using q(3) q'(2,3) by auto
  qed
qed

lemma send_buffers_ok:
  assumes "kcp_ok k"
  shows "\<exists>q. send_buffers v k = Some (k\<lparr>snd_queue := q\<rparr>) \<and> kcp_ok (k\<lparr>snd_queue := q\<rparr>)
     \<and> payload q = payload (snd_queue k) @ concat v"
  using assms
proof (induction v arbitrary: k)
  case Nil
  then show ?case by (intro exI [of _ "snd_queue k"]) simp
next
  case (Cons b v)
  from send_pieces_ok [OF Cons.prems] obtain q where
    q: "send_pieces b k = Some (k\<lparr>snd_queue := q\<rparr>)" "kcp_ok (k\<lparr>snd_queue := q\<rparr>)" "payload q = payload (snd_queue k) @ b"
    by blast
  from Cons.IH [OF q(2)] obtain q' where
    "send_buffers v (k\<lparr>snd_queue := q\<rparr>) = Some (k\<lparr>snd_queue := q'\<rparr>)" "kcp_ok (k\<lparr>snd_queue := q'\<rparr>)"
    "payload q' = payload q @ concat v" by auto
  with q show ?case by auto
qed

lemma PeekSize_cong: "same_recv k k' \<Longrightarrow> PeekSize k' = PeekSize k"
proof -
  assume "same_recv k k'"
  then have r: "rcv_queue k' = rcv_queue k" by (simp add: same_recv_def)
  show ?thesis unfolding PeekSize_def r ..
qed

text \<open>A flush through the session: what it leaves alone, and a positive interval.\<close>

lemma session_flush_ok:
  assumes "session_ok s" "io_ok io"
  shows "\<exists>r s' w'. kcp_call io (flush clk False) s w = Some (r, s', w') \<and> session_ok s' \<and> carry s s'
     \<and> same_recv (us_kcp s) (us_kcp s') \<and> 0 < sint r \<and> sint r \<le> sint (interval (us_kcp s))
     \<and> WaitSnd (us_kcp s') = WaitSnd (us_kcp s)"
proof -
  have ok: "kcp_ok (us_kcp s)" using assms(1) by (simp add: session_ok_def)
  from kcp_call_ok [OF assms safe_flush [OF ok], of clk w] obtain r s' w' w1 where
    c: "kcp_call io (flush clk False) s w = Some (r, s', w')" "session_ok s'"
      "flush clk False (us_kcp s) w = Some (r, us_kcp s', w1)" "same_config (us_kcp s) (us_kcp s')"
      "io_only (s\<lparr>us_kcp := us_kcp s'\<rparr>) s'" by blast
  from kcp_ok_flush [OF ok, of clk w] c(3) obtain C where f: "flushed clk (us_kcp s) w C (r, us_kcp s', w1)" by auto
  have "n_admit (us_kcp s) \<le> length (snd_queue (us_kcp s))" by (simp add: n_admit_def)
  then have "WaitSnd (us_kcp s') = WaitSnd (us_kcp s)"
    using flush_window(1) [OF ok f] flushedD(6) [OF f] by (simp add: WaitSnd_def)
  then show ?thesis
    using c(1,2) carry_call(1) [OF c(4,5)] flushedD(1,2,9) [OF f] by blast
qed

lemma session_update_ok:
  assumes "session_ok s" "io_ok io"
  shows "\<exists>r s' w'. session_update io clk s w = Some (r, s', w') \<and> session_ok s' \<and> carry s s'
     \<and> same_recv (us_kcp s) (us_kcp s') \<and> 0 < sint r \<and> sint r \<le> sint (interval (us_kcp s))
     \<and> WaitSnd (us_kcp s') = WaitSnd (us_kcp s)"
proof -
  from session_flush_ok [OF assms, of clk w] obtain r s' w' where
    c: "kcp_call io (flush clk False) s w = Some (r, s', w')" "session_ok s'" "carry s s'" "same_recv (us_kcp s) (us_kcp s')"
     "0 < sint r" "sint r \<le> sint (interval (us_kcp s))" "WaitSnd (us_kcp s') = WaitSnd (us_kcp s)" by blast
  then show ?thesis by (simp add: session_update_def)
qed

lemma Write_pass_ok:
  assumes "session_ok s" "io_ok io"
  shows "\<exists>r s' w'. Write_pass io clk v now s w = Some (r, s', w') \<and> session_ok s' \<and> carry s s'
     \<and> same_recv (us_kcp s) (us_kcp s')
     \<and> (r = Waits \<longrightarrow> s' = s \<and> \<not> WaitSnd (us_kcp s) < unat (snd_wnd (us_kcp s)))
     \<and> (WaitSnd (us_kcp s) < unat (snd_wnd (us_kcp s)) \<and> \<not> s_isClosed s \<longrightarrow> r = Returns (sum_list (map length v)))"
proof (cases "WaitSnd (us_kcp s) < unat (snd_wnd (us_kcp s)) \<and> \<not> s_isClosed s")
  case False
  then show ?thesis using assms(1) by (auto simp: Write_pass_def same_recv_def)
next
  case True
  have ok: "kcp_ok (us_kcp s)" using assms(1) by (simp add: session_ok_def)
  from send_buffers_ok [OF ok] obtain q where
    q: "send_buffers v (us_kcp s) = Some ((us_kcp s)\<lparr>snd_queue := q\<rparr>)" "kcp_ok ((us_kcp s)\<lparr>snd_queue := q\<rparr>)" by blast
  let ?k = "(us_kcp s)\<lparr>snd_queue := q\<rparr>"
  let ?s = "s\<lparr>us_kcp := ?k\<rparr>"
  have s: "session_ok ?s" "carry s ?s" "same_recv (us_kcp s) (us_kcp ?s)"
    using session_ok_kcp [OF assms(1) q(2)] by (simp_all add: same_config_def carry_def same_recv_def)
  show ?thesis
  proof (cases "WaitSnd ?k \<ge> unat (snd_wnd ?k) \<or> \<not> us_writeDelay s")
    case False
    then have "Write_pass io clk v now s w = Some (Returns (sum_list (map length v)), ?s,
        Snmp.count (\<lambda>c. c\<lparr>BytesSent := BytesSent c + of_nat (sum_list (map length v))\<rparr>) w)"
      using True q(1) by (simp add: Write_pass_def Let_def)
    then show ?thesis using s by simp
  next
    case fl: True
    from session_flush_ok [OF s(1) assms(2), of clk w] obtain r s' w' where
      c: "kcp_call io (flush clk False) ?s w = Some (r, s', w')" "session_ok s'" "carry ?s s'"
        "same_recv (us_kcp ?s) (us_kcp s')" by blast
    have "Write_pass io clk v now s w = Some (Returns (sum_list (map length v)), s',
        Snmp.count (\<lambda>c. c\<lparr>BytesSent := BytesSent c + of_nat (sum_list (map length v))\<rparr>) w')"
      using True q(1) fl c(1) by (simp add: Write_pass_def Let_def)
    moreover have "same_recv (us_kcp s) (us_kcp s')" using s(3) c(4) by (simp add: same_recv_def)
    ultimately show ?thesis using c(2) carry_trans [OF s(2) c(3)] by simp
  qed
qed

end
