(* ===== verification/SessionLife.thy ===== *)
theory SessionLife
  imports SessionUse
begin

section \<open>The life of a session\<close>

text \<open>
  Packets from anywhere, errors of the connection, the update goroutine, settings, deadlines, closing,
  \<open>R\<close> readers and \<open>W\<close> writers, in any order. \<open>u_reading\<close> and \<open>u_writing\<close> count the readers and writers
  that have found nothing to do and wait; \<open>u_grown\<close> says that a setting has enlarged the send window since a
  writer last looked.
\<close>

record session_use =
  u_s :: session
  u_w :: world
  u_src :: string
  u_reading :: nat
  u_writing :: nat
  u_grown :: bool

inductive use_step :: "session_io \<Rightarrow> (nat \<Rightarrow> u32) \<Rightarrow> nat \<Rightarrow> nat \<Rightarrow> session_use \<Rightarrow> session_use \<Rightarrow> bool"
  for io :: session_io and clk :: "nat \<Rightarrow> u32" and R :: nat and W :: nat where
  arrive: "length data \<le> 1500 \<Longrightarrow> readLoop_packet io clk addr data (u_src u, u_s u, u_w u) = Some (src, s, w) \<Longrightarrow>
     use_step io clk R W u (u\<lparr>u_src := src, u_s := s, u_w := w\<rparr>)"
| conn_error: "use_step io clk R W u (u\<lparr>u_s := readLoop_error (u_s u)\<rparr>)"
| updated: "session_update io clk (u_s u) (u_w u) = Some (itv, s, w) \<Longrightarrow> use_step io clk R W u (u\<lparr>u_s := s, u_w := w\<rparr>)"
| reads: "u_reading u < R \<Longrightarrow> Read_pass n now (u_s u) (u_w u) = Some (r, s, w) \<Longrightarrow>
     use_step io clk R W u (u\<lparr>u_s := s, u_w := w, u_reading := u_reading u + (if r = Waits then 1 else 0)\<rparr>)"
| reader_wakes: "0 < u_reading u \<Longrightarrow> Read_wake ev (u_s u) = Some (s, e) \<Longrightarrow>
     use_step io clk R W u (u\<lparr>u_s := s, u_reading := u_reading u - 1\<rparr>)"
| writes: "u_writing u < W \<Longrightarrow> Write_pass io clk v now (u_s u) (u_w u) = Some (r, s, w) \<Longrightarrow>
     use_step io clk R W u (u\<lparr>u_s := s, u_w := w, u_writing := u_writing u + (if r = Waits then 1 else 0), u_grown := False\<rparr>)"
| writer_wakes: "0 < u_writing u \<Longrightarrow> Write_wake ev (u_s u) = Some (s, e) \<Longrightarrow>
     use_step io clk R W u (u\<lparr>u_s := s, u_writing := u_writing u - 1\<rparr>)"
| deadline: "s = session_SetDeadline t (u_s u) \<or> s = session_SetReadDeadline t (u_s u)
       \<or> s = session_SetWriteDeadline t (u_s u) \<or> s = SetDUP n (u_s u) \<Longrightarrow>
     use_step io clk R W u (u\<lparr>u_s := s\<rparr>)"
| sets: "setting (u_s u) s \<Longrightarrow>
     use_step io clk R W u (u\<lparr>u_s := s, u_grown := u_grown u \<or> snd_wnd (us_kcp (u_s u)) < snd_wnd (us_kcp s)\<rparr>)"
| closes: "close_locked (u_s u) (u_w u) = (r, s, w) \<Longrightarrow> use_step io clk R W u (u\<lparr>u_s := s, u_w := w\<rparr>)"

definition use_start :: "session \<Rightarrow> world \<Rightarrow> session_use" where
  "use_start s w = \<lparr>u_s = s, u_w = w, u_src = [], u_reading = 0, u_writing = 0, u_grown = False\<rparr>"

inductive use_reachable :: "session_io \<Rightarrow> (nat \<Rightarrow> u32) \<Rightarrow> nat \<Rightarrow> nat \<Rightarrow> session_use \<Rightarrow> session_use \<Rightarrow> bool"
  for io :: session_io and clk :: "nat \<Rightarrow> u32" and R :: nat and W :: nat and u0 :: session_use where
  start: "use_reachable io clk R W u0 u0"
| step: "use_reachable io clk R W u0 u \<Longrightarrow> use_step io clk R W u u' \<Longrightarrow> use_reachable io clk R W u0 u'"

subsection \<open>The invariant\<close>

definition readable :: "session \<Rightarrow> bool" where
  "readable s \<longleftrightarrow> s_bufptr s \<noteq> [] \<or> 0 < PeekSize (us_kcp s)"

definition writable :: "session \<Rightarrow> bool" where
  "writable s \<longleftrightarrow> WaitSnd (us_kcp s) < unat (snd_wnd (us_kcp s))"

definition use_inv :: "nat \<Rightarrow> nat \<Rightarrow> session_use \<Rightarrow> bool" where
  "use_inv R W u \<longleftrightarrow> session_ok (u_s u) \<and> u_reading u \<le> R \<and> u_writing u \<le> W
     \<and> (0 < R \<and> u_reading u = R \<longrightarrow> s_chReadEvent (u_s u) \<or> \<not> readable (u_s u))
     \<and> (0 < W \<and> u_writing u = W \<and> \<not> u_grown u \<longrightarrow> s_chWriteEvent (u_s u) \<or> \<not> writable (u_s u))"

text \<open>Operations of others keep the promises made to who waits.\<close>

definition heeds :: "session \<Rightarrow> session \<Rightarrow> bool" where
  "heeds s s' \<longleftrightarrow> (s_chReadEvent s \<longrightarrow> s_chReadEvent s') \<and> (s_chWriteEvent s \<longrightarrow> s_chWriteEvent s')
     \<and> (readable s' \<longrightarrow> readable s \<or> s_chReadEvent s') \<and> (writable s' \<longrightarrow> writable s \<or> s_chWriteEvent s')"

lemma heeds_refl [simp]: "heeds s s"
  by (simp add: heeds_def)

lemma heeds_inv:
  "use_inv R W u \<Longrightarrow> session_ok s \<Longrightarrow> heeds (u_s u) s \<Longrightarrow> use_inv R W (u\<lparr>u_src := x, u_s := s, u_w := w\<rparr>)"
  "use_inv R W u \<Longrightarrow> session_ok s \<Longrightarrow> heeds (u_s u) s \<Longrightarrow> use_inv R W (u\<lparr>u_s := s, u_w := w\<rparr>)"
  by (auto simp: use_inv_def heeds_def)

lemma heeds_events:
  assumes "carry s s1"
  shows "heeds s (input_events (WaitSnd (us_kcp s)) s1)"
  using assms by (auto simp: heeds_def input_events_def carry_def same_config_def readable_def writable_def
      notifyReadEvent_def notifyWriteEvent_def Let_def)

lemma readLoop_ok:
  assumes "session_ok s" "io_ok io" "length data \<le> 1500"
  shows "\<exists>src' s' w'. readLoop_packet io clk addr data (src, s, w) = Some (src', s', w') \<and> session_ok s' \<and> heeds s s'"
proof (cases "(src \<noteq> [] \<and> addr \<noteq> src) \<or> \<not> s_headerSize s + IKCP_OVERHEAD \<le> length data")
  case True
  then show ?thesis using assms(1) by (auto simp: readLoop_packet_def Let_def)
next
  case False
  from packetInput_ok [OF assms(1,2) _ assms(3), of clk w] False obtain s' w' where
    p: "session_packetInput io clk data s w = Some (s', w')" "session_ok s'"
      "s' = s \<or> (\<exists>s1. carry s s1 \<and> s' = input_events (WaitSnd (us_kcp s)) s1)" by auto
  then have "heeds s s'" using heeds_events by auto
  with False p(1,2) show ?thesis by (auto simp: readLoop_packet_def Let_def)
qed

lemma heeds_update:
  assumes "carry s s'" "same_recv (us_kcp s) (us_kcp s')" "WaitSnd (us_kcp s') = WaitSnd (us_kcp s)"
  shows "heeds s s'"
  using assms PeekSize_cong [OF assms(2)]
  by (auto simp: heeds_def carry_def same_config_def readable_def writable_def)

lemma inv_step:
  assumes "use_step io clk R W u u'" "use_inv R W u" "io_ok io"
  shows "use_inv R W u'"
  using assms
proof (induction rule: use_step.induct)
  case (arrive data addr u src s w)
  have ok: "session_ok (u_s u)" using arrive.prems(1) by (simp add: use_inv_def)
  from readLoop_ok [OF ok arrive.prems(2) arrive.hyps(1), of clk addr "u_src u" "u_w u"] arrive.hyps(2)
  have "session_ok s" "heeds (u_s u) s" by auto
  from heeds_inv(1) [OF arrive.prems(1) this] show ?case .
next
  case (conn_error u)
  then show ?case by (simp add: use_inv_def readLoop_error_def readable_def writable_def)
next
  case (updated u itv s w)
  have ok: "session_ok (u_s u)" using updated.prems(1) by (simp add: use_inv_def)
  from session_update_ok [OF ok updated.prems(2), of clk "u_w u"] updated.hyps
  have "session_ok s" "heeds (u_s u) s" using heeds_update by auto
  from heeds_inv(2) [OF updated.prems(1) this] show ?case .
next
  case (reads u n now r s w)
  have ok: "session_ok (u_s u)" using reads.prems(1) by (simp add: use_inv_def)
  have r: "session_ok s" "\<exists>k b. s = (u_s u)\<lparr>us_kcp := k, s_bufptr := b\<rparr>" "same_config (us_kcp (u_s u)) (us_kcp s)"
      "r = Waits \<longrightarrow> s = u_s u \<and> \<not> readable (u_s u)"
    using Read_pass_ok [OF ok, of n now "u_w u"] unfolding reads.hyps(2) readable_def by auto
  have "s_chReadEvent s = s_chReadEvent (u_s u)" "s_chWriteEvent s = s_chWriteEvent (u_s u)" using r(2) by auto
  moreover have "writable s = writable (u_s u)"
    using Read_pass_send [OF ok reads.hyps(2)] r(3) by (simp add: writable_def same_send_def WaitSnd_def same_config_def)
  ultimately show ?case using r(1,4) reads.hyps(1) reads.prems(1)
    by (cases "r = Waits") (simp_all add: use_inv_def)
next
  case (reader_wakes u ev s e)
  then have "s = u_s u \<or> s = (u_s u)\<lparr>s_chReadEvent := False\<rparr> \<or> s = (u_s u)\<lparr>s_chReadError := False\<rparr>"
    by (auto simp: Read_wake_def split: wake.splits if_splits)
  then have "session_ok s = session_ok (u_s u)" "writable s = writable (u_s u)" "s_chWriteEvent s = s_chWriteEvent (u_s u)"
    by (elim disjE; simp add: writable_def)+
  moreover have "u_reading u - 1 < R" using reader_wakes.hyps(1) reader_wakes.prems(1) unfolding use_inv_def by linarith
  ultimately show ?case using reader_wakes.prems(1) by (simp add: use_inv_def)
next
  case (writes u v now r s w)
  have ok: "session_ok (u_s u)" using writes.prems(1) by (simp add: use_inv_def)
  from Write_pass_ok [OF ok writes.prems(2), of clk v now "u_w u"] writes.hyps(2) have
    r: "session_ok s" "carry (u_s u) s" "same_recv (us_kcp (u_s u)) (us_kcp s)"
      "r = Waits \<longrightarrow> s = u_s u \<and> \<not> writable (u_s u)" by (auto simp: writable_def)
  have "readable s = readable (u_s u)" "s_chReadEvent s = s_chReadEvent (u_s u)"
    using r(2) PeekSize_cong [OF r(3)] by (simp_all add: readable_def carry_def)
  with r writes.hyps(1) writes.prems(1) show ?case
    by (cases "r = Waits") (simp_all add: use_inv_def)
next
  case (writer_wakes u ev s e)
  then have "s = u_s u \<or> s = (u_s u)\<lparr>s_chWriteEvent := False\<rparr> \<or> s = (u_s u)\<lparr>s_chWriteError := False\<rparr>"
    by (auto simp: Write_wake_def split: wake.splits if_splits)
  then have "session_ok s = session_ok (u_s u)" "readable s = readable (u_s u)" "s_chReadEvent s = s_chReadEvent (u_s u)"
    by (elim disjE; simp add: readable_def)+
  moreover have "u_writing u - 1 < W" using writer_wakes.hyps(1) writer_wakes.prems(1) unfolding use_inv_def by linarith
  ultimately show ?case using writer_wakes.prems(1) by (simp add: use_inv_def)
next
  case (deadline s t u n)
  then show ?case
    by (auto simp: use_inv_def session_SetDeadline_def session_SetReadDeadline_def session_SetWriteDeadline_def
        SetDUP_def notifyReadEvent_def notifyWriteEvent_def readable_def writable_def)
next
  case (sets u s)
  have k: "readable s = readable (u_s u)" "WaitSnd (us_kcp s) = WaitSnd (us_kcp (u_s u))"
    unfolding readable_def PeekSize_def setting_keeps(4-6) [OF sets.hyps] by (rule refl)+
  have "writable s \<Longrightarrow> writable (u_s u) \<or> snd_wnd (us_kcp (u_s u)) < snd_wnd (us_kcp s)"
    using k(2) by (auto simp: writable_def word_less_nat_alt)
  with k(1) show ?case using setting_ok [OF sets.hyps] setting_keeps [OF sets.hyps] sets.prems(1)
    by (auto simp: use_inv_def)
next
  case (closes u r s w)
  then show ?case by (auto simp: use_inv_def close_locked_def readable_def writable_def split: if_splits)
qed

lemma reachable_use_inv:
  assumes "use_reachable io clk R W (use_start s w) u" "session_ok s" "io_ok io"
  shows "use_inv R W u"
  using assms(1)
proof induction
  case start
  then show ?case using assms(2) by (auto simp: use_inv_def use_start_def)
next
  case (step u u')
  then show ?case using inv_step assms(3) by blast
qed

lemma closed_read: "s_isClosed s \<Longrightarrow> \<exists>r s' w'. Read_pass n now s w = Some (r, s', w') \<and> r \<noteq> Waits"
  by (simp add: Read_pass_def Let_def)

lemma Read_pass_sum:
  assumes "session_ok s"
  shows "\<exists>r s' w'. Read_pass n now s w = Some (r, s', w') \<and> (r = Waits \<longrightarrow> \<not> readable s)
     \<and> (readable s \<and> \<not> s_isClosed s \<longrightarrow> 0 < n \<longrightarrow> (\<exists>b. r = Returns b \<and> b \<noteq> []))"
proof -
  from Read_pass_ok [OF assms, of n now w] obtain r s' w' where r: "Read_pass n now s w = Some (r, s', w')"
    "r = Waits \<longrightarrow> s' = s \<and> s_bufptr s = [] \<and> PeekSize (us_kcp s) \<le> 0"
    "0 < length (s_bufptr s) \<or> 0 < PeekSize (us_kcp s) \<and> \<not> s_isClosed s \<longrightarrow> 0 < n \<longrightarrow> (\<exists>b. r = Returns b \<and> b \<noteq> [])" by blast
  then show ?thesis by (auto simp: readable_def)
qed

lemma waiting_wakes:
  assumes inv: "use_inv R W u" and io: "io_ok io"
  shows "0 < u_reading u \<Longrightarrow> u_reading u = R \<and> readable (u_s u) \<or> s_isClosed (u_s u) \<Longrightarrow>
      \<exists>ev s'. Read_wake ev (u_s u) = Some (s', None)
        \<and> (\<forall>n now. 0 < n \<longrightarrow> (\<exists>r s'' w''. Read_pass n now s' (u_w u) = Some (r, s'', w'') \<and> r \<noteq> Waits
             \<and> (readable (u_s u) \<and> \<not> s_isClosed (u_s u) \<longrightarrow> (\<exists>b. r = Returns b \<and> b \<noteq> []))))"
    "0 < u_writing u \<Longrightarrow> u_writing u = W \<and> writable (u_s u) \<and> \<not> u_grown u \<or> s_isClosed (u_s u) \<Longrightarrow>
      \<exists>ev s'. Write_wake ev (u_s u) = Some (s', None)
        \<and> (\<forall>v now. \<exists>r s'' w''. Write_pass io clk v now s' (u_w u) = Some (r, s'', w'') \<and> r \<noteq> Waits
             \<and> (\<not> s_isClosed (u_s u) \<longrightarrow> r = Returns (sum_list (map length v))))"
proof -
  have ok: "session_ok (u_s u)" using inv by (simp add: use_inv_def)
  show "\<exists>ev s'. Read_wake ev (u_s u) = Some (s', None)
        \<and> (\<forall>n now. 0 < n \<longrightarrow> (\<exists>r s'' w''. Read_pass n now s' (u_w u) = Some (r, s'', w'') \<and> r \<noteq> Waits
             \<and> (readable (u_s u) \<and> \<not> s_isClosed (u_s u) \<longrightarrow> (\<exists>b. r = Returns b \<and> b \<noteq> []))))"
    if "0 < u_reading u" and go: "u_reading u = R \<and> readable (u_s u) \<or> s_isClosed (u_s u)"
  proof -
    have pass: "\<exists>r s'' w''. Read_pass n now s' (u_w u) = Some (r, s'', w'') \<and> r \<noteq> Waits
             \<and> (readable (u_s u) \<and> \<not> s_isClosed (u_s u) \<longrightarrow> (\<exists>b. r = Returns b \<and> b \<noteq> []))"
      if pos: "0 < n" and s': "s' = u_s u \<or> s' = (u_s u)\<lparr>s_chReadEvent := False\<rparr>" for n now s'
    proof -
      have "session_ok s'" "readable s' = readable (u_s u)" "s_isClosed s' = s_isClosed (u_s u)"
        using ok s' by (auto simp: readable_def)
      moreover from this(1) obtain r s'' w'' where r: "Read_pass n now s' (u_w u) = Some (r, s'', w'')"
        "r = Waits \<longrightarrow> \<not> readable s'" "readable s' \<and> \<not> s_isClosed s' \<longrightarrow> (\<exists>b. r = Returns b \<and> b \<noteq> [])"
        using Read_pass_sum [of s' n now "u_w u"] pos by blast
      moreover have "r \<noteq> Waits" using closed_read [of s' n now "u_w u"] r(1) calculation go by auto
      ultimately show ?thesis by auto
    qed
    show ?thesis
    proof (cases "s_isClosed (u_s u)")
      case True
      then have "Read_wake OnDie (u_s u) = Some (u_s u, None)" by (simp add: Read_wake_def)
      with pass show ?thesis by blast
    next
      case False
      then have "s_chReadEvent (u_s u)" using inv that by (auto simp: use_inv_def)
      then have "Read_wake OnEvent (u_s u) = Some ((u_s u)\<lparr>s_chReadEvent := False\<rparr>, None)" by (simp add: Read_wake_def)
      with pass show ?thesis by blast
    qed
  qed
  show "\<exists>ev s'. Write_wake ev (u_s u) = Some (s', None)
        \<and> (\<forall>v now. \<exists>r s'' w''. Write_pass io clk v now s' (u_w u) = Some (r, s'', w'') \<and> r \<noteq> Waits
             \<and> (\<not> s_isClosed (u_s u) \<longrightarrow> r = Returns (sum_list (map length v))))"
    if "0 < u_writing u" and go: "u_writing u = W \<and> writable (u_s u) \<and> \<not> u_grown u \<or> s_isClosed (u_s u)"
  proof -
    have pass: "\<exists>r s'' w''. Write_pass io clk v now s' (u_w u) = Some (r, s'', w'') \<and> r \<noteq> Waits
             \<and> (\<not> s_isClosed (u_s u) \<longrightarrow> r = Returns (sum_list (map length v)))"
      if "s' = u_s u \<or> s' = (u_s u)\<lparr>s_chWriteEvent := False\<rparr>" for v now s'
    proof -
      have "session_ok s'" "writable s' = writable (u_s u)" "s_isClosed s' = s_isClosed (u_s u)"
        using ok that by (auto simp: writable_def)
      moreover from this(1) obtain r s'' w'' where r: "Write_pass io clk v now s' (u_w u) = Some (r, s'', w'')"
        "writable s' \<and> \<not> s_isClosed s' \<longrightarrow> r = Returns (sum_list (map length v))"
        using Write_pass_ok [of s' io clk v now "u_w u"] io unfolding writable_def by blast
      moreover have "s_isClosed s' \<Longrightarrow> Write_pass io clk v now s' (u_w u) = Some (Fails errBrokenPipe, s', u_w u)"
        by (simp add: Write_pass_def)
      ultimately show ?thesis using go by auto
    qed
    show ?thesis
    proof (cases "s_isClosed (u_s u)")
      case True
      then have "Write_wake OnDie (u_s u) = Some (u_s u, None)" by (simp add: Write_wake_def)
      with pass show ?thesis by blast
    next
      case False
      then have "s_chWriteEvent (u_s u)" using inv that by (auto simp: use_inv_def)
      then have "Write_wake OnEvent (u_s u) = Some ((u_s u)\<lparr>s_chWriteEvent := False\<rparr>, None)" by (simp add: Write_wake_def)
      with pass show ?thesis by blast
    qed
  qed
qed

subsection \<open>What is guaranteed\<close>


text \<open>C9. Who waits can wake up. After any sequence of the events listed above, settings included: when all the readers wait
  while there is something to read, one of them can wake up, and its next pass returns, with data
  if its buffer is not empty and the session open; when all the writers wait while the queue has room, one of them can wake up, and its
  next pass returns with everything accepted, unless a setting enlarged the send window since a
  writer last looked (which wakes nobody, \<open>growth_wakes_nobody\<close>); and after closing every reader and writer that waits can wake up and return.
  With one reader and one writer, no wake-up of theirs is lost to packets, errors, updates or deadlines.
\<close>

theorem session_wakes:
  assumes "new_session L New key seed conv d p client blk w0 = Some (s0, w)" "tuned s0 s"
    and "ciphers_ok L" "length seed = 16" "block_fine blk" "rs_sized New" "io_ok io"
    and "use_reachable io clk R W (use_start s w) u"
  shows "(0 < u_reading u \<and> (u_reading u = R \<and> readable (u_s u) \<or> s_isClosed (u_s u)) \<longrightarrow>
      (\<exists>ev s'. Read_wake ev (u_s u) = Some (s', None)
        \<and> (\<forall>n now. 0 < n \<longrightarrow> (\<exists>r s'' w''. Read_pass n now s' (u_w u) = Some (r, s'', w'') \<and> r \<noteq> Waits
             \<and> (readable (u_s u) \<and> \<not> s_isClosed (u_s u) \<longrightarrow> (\<exists>b. r = Returns b \<and> b \<noteq> []))))))
    \<and> (0 < u_writing u \<and> (u_writing u = W \<and> writable (u_s u) \<and> \<not> u_grown u \<or> s_isClosed (u_s u)) \<longrightarrow>
      (\<exists>ev s'. Write_wake ev (u_s u) = Some (s', None)
        \<and> (\<forall>v now. \<exists>r s'' w''. Write_pass io clk v now s' (u_w u) = Some (r, s'', w'') \<and> r \<noteq> Waits
             \<and> (\<not> s_isClosed (u_s u) \<longrightarrow> r = Returns (sum_list (map length v))))))"
  using waiting_wakes [OF reachable_use_inv [OF assms(8) tuned_sel(1) [OF assms(1-6)] assms(7)] assms(7)] by blast

text \<open>
  The two exceptions are real. Enlarging the window of a session whose writer waits gives it no
  token, although there is room now. And there is one token for all readers: when two wait and the
  first to wake takes only a part of what is there, the second sleeps on.
\<close>

lemma growth_wakes_nobody:
  assumes "\<not> s_chWriteEvent s" "\<not> s_chWriteError s" "\<not> s_isClosed s" "s_wd s = None"
    and "int (WaitSnd (us_kcp s)) < sw" "sw < 2 ^ 31"
  shows "writable (with_settings (SetWindowSize sw rw) s) \<and> Write_wake ev (with_settings (SetWindowSize sw rw) s) = None"
proof -
  have "unat (word_of_int sw :: u32) = nat sw" using assms(5,6) by (simp add: unsigned_of_int take_bit_int_eq_self)
  moreover have "0 < sw" "WaitSnd (us_kcp s) < nat sw" using assms(5) by linarith+
  ultimately show ?thesis
    using assms(1-4)
    by (cases ev) (simp_all add: with_settings_def SetWindowSize_def WndSize_def writable_def Write_wake_def WaitSnd_def Let_def)
qed

lemma second_reader_sleeps:
  assumes "session_ok s" "s_chReadEvent s" "\<not> s_chReadError s" "\<not> s_isClosed s" "s_rd s = None"
    and "n < length (s_bufptr s)"
  shows "\<exists>s1 b s2 w2. Read_wake OnEvent s = Some (s1, None) \<and> Read_pass n now s1 w = Some (Returns b, s2, w2)
     \<and> readable s2 \<and> (\<forall>ev. Read_wake ev s2 = None)"
proof -
  have "Read_wake ev ((s\<lparr>s_chReadEvent := False\<rparr>)\<lparr>s_bufptr := q\<rparr>) = None" for ev q
    using assms by (cases ev) (simp_all add: Read_wake_def)
  then show ?thesis using assms by (auto simp: Read_wake_def Read_pass_def Let_def readable_def)
qed

subsection \<open>A session over sample libraries\<close>

lemma xor_sized: "rs_sized xor_New"
proof -
  have "codec_sized \<lparr>rs_Encode = xor_encode, rs_ReconstructData = xor_reconstruct\<rparr>"
    unfolding codec_sized_def
  proof (intro allI impI)
    fix S :: "bytes list" and L :: nat and out
    assume "\<forall>s \<in> set S. s = [] \<or> length s = L"
      "rs_ReconstructData \<lparr>rs_Encode = xor_encode, rs_ReconstructData = xor_reconstruct\<rparr> S = Some out"
    then show "length out = length S \<and> (\<forall>s \<in> set out. s = [] \<or> length s = L)"
      by (cases S rule: xor_reconstruct.cases) (auto simp: xor_bytes_simps split: if_splits)
  qed
  then show ?thesis by (auto simp: rs_sized_def xor_New_def split: if_splits)
qed

definition demo_io :: session_io where
  "demo_io = \<lparr>io_libs = sample_libs, io_rand = \<lambda>_. replicate 16 1, io_write = \<lambda>_. True\<rparr>"

lemma demo_io_ok: "io_ok demo_io"
  using sample_libs_ok(1) by (simp add: io_ok_def demo_io_def)

definition demo_block :: BlockCrypt where
  "demo_block = aesBlockCrypt \<lparr>encbuf = replicate 16 0, decbuf = replicate 32 0, block = sample_cipher 16\<rparr>"

lemma demo_block_fine: "block_fine (Some demo_block)"
proof -
  have "NewBlockCrypt sample_libs ''aes-128'' [1, 2, 3] = Inr demo_block"
    by (simp add: NewBlockCrypt_def NewAESBlockCrypt_def new_cfb_def sample_libs_def demo_block_def)
  from NewBlockCrypt_ok [OF sample_libs_ok(2) this] show ?thesis by (simp add: block_fine_def)
qed

definition demo_new :: "u32 \<Rightarrow> bool \<Rightarrow> session \<times> world" where
  "demo_new conv client =
     the (new_session sample_libs xor_New (replicate 16 3) (replicate 16 5) conv 2 1 client (Some demo_block) world0)"

lemma demo_new: "new_session sample_libs xor_New (replicate 16 3) (replicate 16 5) conv 2 1 client (Some demo_block) world0
     = Some (demo_new conv client)"
  unfolding demo_new_def
  by (simp add: new_session_def nonceAES128_Init_def sample_libs_def Let_def)

text \<open>A reader waits, then the session is closed.\<close>

definition demo_use :: session_use where
  "demo_use = (let (s, w) = demo_new 7 True; (r, s', w') = close_locked s w
     in (use_start s w)\<lparr>u_reading := 1, u_s := s', u_w := w'\<rparr>)"

lemma demo_use:
  fixes s w
  assumes "demo_new 7 True = (s, w)"
  shows "use_reachable demo_io (\<lambda>_. 0) 1 1 (use_start s w) demo_use" "u_reading demo_use = 1" "s_isClosed (u_s demo_use)"
proof -
  have new: "new_session sample_libs xor_New (replicate 16 3) (replicate 16 5) 7 2 1 True (Some demo_block) world0 = Some (s, w)"
    using demo_new [of 7 True] assms by simp
  note sel = new_session_sel [OF new]
  have "s_headerSize s \<le> 28" unfolding sel(9) by (rule header_le)
  then have "rcv_queue (us_kcp s) = []"
    unfolding sel(1) by (simp add: newUDPSession_def ReserveBytes_def)
  moreover have "s_rd s = None" using new by (auto simp: new_session_def Let_def split: Option.bind_splits)
  ultimately have "Read_pass 5 0 s w = Some (Waits, s, w)"
    using sel(3,4) by (simp add: Read_pass_def PeekSize_def)
  then have "use_step demo_io (\<lambda>_. 0) 1 1 (use_start s w) ((use_start s w)\<lparr>u_s := s, u_w := w, u_reading := u_reading (use_start s w) + (if Waits = (Waits :: bytes io_result) then 1 else 0)\<rparr>)"
    by (intro use_step.reads) (simp_all add: use_start_def)
  then have r: "use_reachable demo_io (\<lambda>_. 0) 1 1 (use_start s w) ((use_start s w)\<lparr>u_reading := 1\<rparr>)"
    using use_reachable.step [OF use_reachable.start] by (simp add: use_start_def)
  obtain r s' w' where c: "close_locked s w = (r, s', w')" by (cases "close_locked s w") auto
  then have "use_step demo_io (\<lambda>_. 0) 1 1 ((use_start s w)\<lparr>u_reading := 1\<rparr>) ((use_start s w)\<lparr>u_reading := 1\<rparr>\<lparr>u_s := s', u_w := w'\<rparr>)"
    by (intro use_step.closes) (simp add: use_start_def)
  then show "use_reachable demo_io (\<lambda>_. 0) 1 1 (use_start s w) demo_use"
    using use_reachable.step [OF r] assms c by (simp add: demo_use_def)
  show "u_reading demo_use = 1" "s_isClosed (u_s demo_use)"
    using assms c sel(4) by (auto simp: demo_use_def close_locked_def use_start_def)
qed


theorem session_wakes_witness:
  "\<exists>ev s'. Read_wake ev (u_s demo_use) = Some (s', None)"
proof -
  obtain s w where d: "demo_new 7 True = (s, w)" by fastforce
  have new: "new_session sample_libs xor_New (replicate 16 3) (replicate 16 5) 7 2 1 True (Some demo_block) world0 = Some (s, w)"
    using demo_new [of 7 True] d by simp
  have len: "length (replicate 16 5 :: bytes) = 16" by simp
  have "tuned s s" by (simp add: tuned_def)
  from session_wakes [OF new this sample_libs_ok(2) len demo_block_fine xor_sized demo_io_ok demo_use(1) [OF d]]
    demo_use(2,3) [OF d]
  have "\<exists>ev s'. Read_wake ev (u_s demo_use) = Some (s', None)
      \<and> (\<forall>n now. 0 < n \<longrightarrow> (\<exists>r s'' w''. Read_pass n now s' (u_w demo_use) = Some (r, s'', w'') \<and> r \<noteq> Waits))"
    by simp
  then show ?thesis by blast
qed

end
