(* ===== verification/SessionTransfer.thy ===== *)
theory SessionTransfer
  imports SessionLife
begin

section \<open>Two sessions over a network\<close>

text \<open>
  \<open>KcpTransfer\<close> runs two KCP connections over a network; here two whole sessions run over it, with
  encryption and error correction in between: one writes, the other reads, packets are lost,
  repeated, reordered and garbled, and what is read is a prefix of what was written.
\<close>

subsection \<open>What is on the network\<close>

text \<open>
  \<open>fec\<close> is the code with its shard numbers, if there is one; \<open>log\<close> lists the numbered segments of
  the writer, \<open>xs\<close> the payloads its encoder was given. A packet that was opened is coded: it
  carries segments of the log, or is a packet of the encoder.
\<close>

type_synonym fec_code = "(rs_codec \<times> nat \<times> nat) option"

definition coded :: "fec_code \<Rightarrow> u32 \<Rightarrow> segment list \<Rightarrow> bytes list \<Rightarrow> bytes \<Rightarrow> bool" where
  "coded fec conv log xs f \<longleftrightarrow> (case fec of None \<Rightarrow> carried conv log f | Some (c, d, p) \<Rightarrow> 0 < d \<and> sent_by c d p xs f)"

lemma sent_by_append: "sent_by c d p xs f \<Longrightarrow> 0 < d \<Longrightarrow> sent_by c d p (xs @ ys) f"
  unfolding sent_by_def using emitted_append by metis

lemma coded_append: "coded fec conv log xs f \<Longrightarrow> coded fec conv (log @ ext) (xs @ ys) f"
  using carried_append sent_by_append by (auto simp: coded_def split: option.splits)

definition payloads_of :: "u32 \<Rightarrow> segment list \<Rightarrow> bytes list \<Rightarrow> bool" where
  "payloads_of conv log xs \<longleftrightarrow> (\<forall>x \<in> set xs. \<exists>q. x = sized q \<and> carried conv log q)"

text \<open>The writer's connection and encoder. So many payloads cost at least so many packets.\<close>

definition encodes :: "rs_codec \<Rightarrow> nat \<Rightarrow> nat \<Rightarrow> bytes list \<Rightarrow> session \<Rightarrow> bool" where
  "encodes c d p xs s \<longleftrightarrow> (\<exists>enc. s_fecEncoder s = Some enc \<and> enc_inv c d p enc xs \<and> rs_laws d p c \<and> d + p \<le> 256
     \<and> 2 ^ 31 + 256 \<le> unat (fe_paws enc) \<and> sent_count d p (length xs) \<le> length (s_conn s))"

definition writer_io :: "fec_code \<Rightarrow> crypt_libs \<Rightarrow> u32 \<Rightarrow> segment list \<Rightarrow> bytes list \<Rightarrow> session \<Rightarrow> bool" where
  "writer_io fec L conv log xs s \<longleftrightarrow> 0 \<le> s_dup s \<and> payloads_of conv log xs
     \<and> (\<forall>D \<in> set (s_conn s). \<exists>f. open_packet L (s_block s) D = Some (Some f) \<and> coded fec conv log xs f)
     \<and> (case fec of None \<Rightarrow> s_fecEncoder s = None | Some (c, d, p) \<Rightarrow> encodes c d p xs s)"

lemma writer_io_log: "writer_io fec L conv log xs s \<Longrightarrow> writer_io fec L conv (log @ ext) xs s"
  using carried_append coded_append [where ys = "[]"] unfolding writer_io_def payloads_of_def by fastforce

lemma writer_io_kcp: "writer_io fec L conv log xs (s\<lparr>us_kcp := k\<rparr>) = writer_io fec L conv log xs s"
  by (simp add: writer_io_def encodes_def split: option.splits)

text \<open>A packet KCP outputs is written with its parity packets.\<close>

lemma encode_coded:
  assumes "parts_ok s" "encodes c d p xs s" "s_headerSize s \<le> length buf" "length buf \<le> 1500"
    "length (s_conn s) < 2 ^ 31" "session_encode buf s = Some (b', ecc, s1)"
  defines "q \<equiv> drop (s_headerSize s) buf" and "room \<equiv> crypt_room (s_block s)"
  shows "0 < d" "\<forall>f \<in> insert b' (set ecc). sent_by c d p (xs @ [sized q]) (drop room f)"
    "\<exists>enc. s_fecEncoder s1 = Some enc \<and> enc_inv c d p enc (xs @ [sized q]) \<and> 2 ^ 31 + 256 \<le> unat (fe_paws enc)"
    "sent_count d p (length (xs @ [sized q])) = sent_count d p (length xs) + 1 + length ecc"
proof -
  from assms(2) obtain enc where
    e: "s_fecEncoder s = Some enc" "enc_inv c d p enc xs" "rs_laws d p c" "d + p \<le> 256"
      "2 ^ 31 + 256 \<le> unat (fe_paws enc)" "sent_count d p (length xs) \<le> length (s_conn s)" by (auto simp: encodes_def)
  show d: "0 < d" using e(2) by (simp add: enc_inv_def)
  have ho: "fe_headerOffset enc = room" "s_headerSize s = room + 8"
    using assms(1) e(1) by (simp_all add: parts_ok_def enc_fine_def room_def)
  let ?xs = "xs @ [sized q]" and ?n = "length xs"
  have "(?n div d + 1) * (d + p) \<le> sent_count d p ?n + (d + p)" by (simp add: sent_count_def)
  then have "(?n div d + 1) * (d + p) < unat (fe_paws enc)" using e(4-6) assms(5) by linarith
  from fec_encode_step [OF e(2,3) _ assms(4) this] ho assms(3) obtain enc' where
    f: "fec_encode buf enc = Some (take room buf @ fec_wire c d p ?xs (sent_count d p ?n), parity_wires c d p ?xs, enc')"
      "enc_inv c d p enc' ?xs" "fe_headerOffset enc' = room" "fe_paws enc' = fe_paws enc"
    by (auto simp: q_def sent_count_def)
  have b: "b' = take room buf @ fec_wire c d p ?xs (sent_count d p ?n)"
    "ecc = map (\<lambda>p. replicate room 0 @ p) (parity_wires c d p ?xs)" "s_fecEncoder s1 = Some enc'"
    using assms(6) e(1) f(1,3) by (auto simp: session_encode_def)
  have count: "sent_count d p (Suc ?n) = sent_count d p ?n + 1 + (if Suc ?n mod d = 0 then p else 0)"
    by (rule sent_count_Suc [OF d])
  then show "sent_count d p (length ?xs) = sent_count d p ?n + 1 + length ecc" by (simp add: b(2) parity_wires_def)
  have below: "sent_by c d p ?xs (fec_wire c d p ?xs i)" if "i < sent_count d p (Suc ?n)" for i
    using emitted_below [OF _ d, of i p ?xs] that by (auto simp: sent_by_def)
  have "drop room b' = fec_wire c d p ?xs (sent_count d p ?n)" using assms(3) ho(2) by (simp add: b(1))
  then have "sent_by c d p ?xs (drop room b')" using below [of "sent_count d p ?n"] count by simp
  moreover have "sent_by c d p ?xs (drop room f)" if "f \<in> set ecc" for f
  proof -
    from that obtain k where k: "k < p" "Suc ?n mod d = 0"
      "drop room f = fec_wire c d p ?xs ((Suc ?n div d - 1) * (d + p) + d + k)"
      by (auto simp: b(2) parity_wires_def split: if_splits)
    have "0 < Suc ?n div d" using k(2) d by (metis Suc_neq_Zero div_eq_0_iff mod_less not_gr_zero)
    then have "(Suc ?n div d - 1) * (d + p) + (d + p) = Suc ?n div d * (d + p)"
      by (metis Suc_pred' add.commute mult_Suc)
    then have "(Suc ?n div d - 1) * (d + p) + d + k < sent_count d p (Suc ?n)"
      using k(1,2) by (simp add: sent_count_def)
    then show ?thesis using below k(3) by simp
  qed
  ultimately show "\<forall>f \<in> insert b' (set ecc). sent_by c d p ?xs (drop room f)" by simp
  show "\<exists>enc. s_fecEncoder s1 = Some enc \<and> enc_inv c d p enc ?xs \<and> 2 ^ 31 + 256 \<le> unat (fe_paws enc)"
    using b(3) f(2,4) e(5) by simp
qed

text \<open>The same, within \<open>2^31\<close> packets written and for some payloads more than \<open>xs\<close>.\<close>

definition writes_io :: "fec_code \<Rightarrow> crypt_libs \<Rightarrow> u32 \<Rightarrow> segment list \<Rightarrow> bytes list \<Rightarrow> session \<Rightarrow> bool" where
  "writes_io fec L conv log xs s \<longleftrightarrow> (length (s_conn s) < 2 ^ 31 \<longrightarrow> (\<exists>ys. writer_io fec L conv log (xs @ ys) s))"

lemma writes_io_log: "writes_io fec L conv log xs s \<Longrightarrow> writes_io fec L conv (log @ ext) xs s"
  unfolding writes_io_def using writer_io_log by blast

lemma writes_io_kcp: "writes_io fec L conv log xs (s\<lparr>us_kcp := k\<rparr>) = writes_io fec L conv log xs s"
  by (simp add: writes_io_def writer_io_kcp)

lemma output_coded:
  assumes io: "io_ok io" and s: "parts_ok s" "writer_io fec (io_libs io) conv log xs s" "length (s_conn s) < 2 ^ 31"
    and buf: "s_headerSize s \<le> length buf" "length buf \<le> 1500" "carried conv log (drop (s_headerSize s) buf)"
    and out: "session_output io buf s w = Some (s', w')"
  shows "\<exists>ys. writer_io fec (io_libs io) conv log (xs @ ys) s'"
proof -
  let ?L = "io_libs io" and ?q = "drop (s_headerSize s) buf"
  from session_output_ok [OF io s(1) buf(1,2), of w] out obtain b' ecc s1 new where
    o: "session_encode buf s = Some (b', ecc, s1)" "io_only s s'" "s_fecEncoder s' = s_fecEncoder s1"
      "s_conn s' = s_conn s @ new" "0 \<le> s_dup s \<longrightarrow> 1 + length ecc \<le> length new"
      "\<forall>D \<in> set new. \<exists>f \<in> insert b' (set ecc). open_packet ?L (s_block s) D = Some (Some (drop (crypt_room (s_block s)) f))"
    by auto
  note same = io_onlyD(4,7) [OF o(2)]
  have W: "0 \<le> s_dup s" "payloads_of conv log xs"
    "\<forall>D \<in> set (s_conn s). \<exists>f. open_packet ?L (s_block s) D = Some (Some f) \<and> coded fec conv log xs f"
    using s(2) by (simp_all add: writer_io_def)
  show ?thesis
  proof (cases fec)
    case None
    then have none: "s_fecEncoder s = None" using s(2) by (simp add: writer_io_def)
    then have "s_headerSize s = crypt_room (s_block s)" using s(1) by (simp add: parts_ok_def)
    moreover have "b' = buf" "ecc = []" "s1 = s" using o(1) none by (simp_all add: session_encode_def)
    ultimately have "open_packet ?L (s_block s) D = Some (Some ?q)" if "D \<in> set new" for D using o(6) that by simp
    then have "writer_io fec ?L conv log xs s'"
      using W buf(3) None o(3,4) none \<open>s1 = s\<close> same by (auto simp: writer_io_def coded_def)
    then show ?thesis by (metis append_Nil2)
  next
    case (Some cdp)
    then obtain c d p where cdp: "fec = Some (c, d, p)" by (cases cdp) auto
    then have e: "encodes c d p xs s" using s(2) by (simp add: writer_io_def)
    note n = encode_coded [OF s(1) e buf(1,2) s(3) o(1)]
    have count: "sent_count d p (length xs) \<le> length (s_conn s)" "rs_laws d p c" "d + p \<le> 256"
      using e by (auto simp: encodes_def)
    have "encodes c d p (xs @ [sized ?q]) s'"
      using n(3,4) o(3,4,5) W(1) count by (auto simp: encodes_def)
    moreover have "payloads_of conv log (xs @ [sized ?q])" using W(2) buf(3) by (auto simp: payloads_of_def)
    moreover have "\<exists>f. open_packet ?L (s_block s') D = Some (Some f) \<and> coded fec conv log (xs @ [sized ?q]) f"
      if "D \<in> set (s_conn s')" for D
    proof (cases "D \<in> set (s_conn s)")
      case True
      with W(3) obtain f where "open_packet ?L (s_block s) D = Some (Some f)" "coded fec conv log xs f" by blast
      with coded_append [OF this(2), of "[]"] same(1) show ?thesis by auto
    next
      case False
      then have "D \<in> set new" using that o(4) by simp
      then obtain f where f: "f \<in> insert b' (set ecc)" "open_packet ?L (s_block s) D = Some (Some (drop (crypt_room (s_block s)) f))"
        using o(6) by blast
      have "sent_by c d p (xs @ [sized ?q]) (drop (crypt_room (s_block s)) f)" using n(2) f(1) by (rule bspec)
      then show ?thesis using f(2) n(1) same(1) by (simp add: coded_def cdp)
    qed
    ultimately have "writer_io fec ?L conv log (xs @ [sized ?q]) s'" using W(1) same(2) by (simp add: writer_io_def cdp)
    then show ?thesis by blast
  qed
qed

lemma output_callback_coded:
  assumes io: "io_ok io" and s: "parts_ok s" "reserved (us_kcp s) = s_headerSize s" "writes_io fec (io_libs io) conv log xs s"
    and p: "reserved (us_kcp s) + length p \<le> 1500" "carried conv log p"
  shows "\<exists>s' w'. output_callback io p s w = Some (s', w') \<and> parts_ok s' \<and> io_only s s' \<and> outs w' = outs w
     \<and> length (s_conn s) \<le> length (s_conn s') \<and> writes_io fec (io_libs io) conv log xs s'"
proof (cases "IKCP_OVERHEAD + s_headerSize s \<le> length (replicate (reserved (us_kcp s)) 0 @ p :: bytes)")
  case False
  then show ?thesis using s by (simp add: output_callback_def)
next
  case True
  let ?buf = "replicate (reserved (us_kcp s)) 0 @ p :: bytes"
  have len: "s_headerSize s \<le> length ?buf" "length ?buf \<le> 1500" using True p(1) by simp_all
  from session_output_ok [OF io s(1) len, of w] obtain s' w' new where
    o: "session_output io ?buf s w = Some (s', w')" "parts_ok s'" "io_only s s'" "outs w' = outs w" "s_conn s' = s_conn s @ new"
    by blast
  have q: "drop (s_headerSize s) ?buf = p" using s(2) by simp
  have "writes_io fec (io_libs io) conv log xs s'"
    unfolding writes_io_def
  proof
    assume short: "length (s_conn s') < 2 ^ 31"
    then have "length (s_conn s) < 2 ^ 31" using o(5) by simp
    moreover from this obtain ys where "writer_io fec (io_libs io) conv log (xs @ ys) s" using s(3) by (auto simp: writes_io_def)
    ultimately obtain zs where "writer_io fec (io_libs io) conv log ((xs @ ys) @ zs) s'"
      using output_coded [OF io s(1) _ _ len _ o(1), of fec conv log "xs @ ys"] p(2) unfolding q by blast
    then show "\<exists>ys. writer_io fec (io_libs io) conv log (xs @ ys) s'" by (metis append_assoc)
  qed
  then show ?thesis using o True by (simp add: output_callback_def)
qed

lemma output_all_coded:
  assumes "io_ok io" "parts_ok s" "reserved (us_kcp s) = s_headerSize s" "writes_io fec (io_libs io) conv log xs s"
    "\<forall>p \<in> set ps. reserved (us_kcp s) + length p \<le> 1500 \<and> carried conv log p"
  shows "\<exists>s' w'. output_all io ps s w = Some (s', w') \<and> parts_ok s' \<and> io_only s s' \<and> outs w' = outs w
     \<and> length (s_conn s) \<le> length (s_conn s') \<and> writes_io fec (io_libs io) conv log xs s'"
  using assms
proof (induction ps arbitrary: s w)
  case Nil
  then show ?case by simp
next
  case (Cons p ps)
  from output_callback_coded [OF Cons.prems(1-4), of p w] Cons.prems(5) obtain s1 w1 where
    s1: "output_callback io p s w = Some (s1, w1)" "parts_ok s1" "io_only s s1" "outs w1 = outs w"
      "length (s_conn s) \<le> length (s_conn s1)" "writes_io fec (io_libs io) conv log xs s1" by auto
  have k: "us_kcp s1 = us_kcp s" "s_headerSize s1 = s_headerSize s" using io_onlyD(1,6) [OF s1(3)] .
  from Cons.IH [OF Cons.prems(1) s1(2) _ s1(6), of w1] Cons.prems(3,5) k obtain s2 w2 where
    "output_all io ps s1 w1 = Some (s2, w2)" "parts_ok s2" "io_only s1 s2" "outs w2 = outs w1"
      "length (s_conn s1) \<le> length (s_conn s2)" "writes_io fec (io_libs io) conv log xs s2" by auto
  with s1 io_only_trans [OF s1(3)] show ?case by auto
qed

lemma kcp_call_coded:
  assumes "session_ok s" "io_ok io" "safe_call f (us_kcp s)" "writes_io fec (io_libs io) conv log xs s"
    "kcp_call io f s w = Some (r, s', w')" "f (us_kcp s) w = Some (r, k, w1)" "\<forall>p \<in> set (outs w1). carried conv log p"
  shows "us_kcp s' = k" "outs w' = outs w1" "length (s_conn s) \<le> length (s_conn s')"
    "writes_io fec (io_libs io) conv log xs s'" "session_ok s'" "io_only (s\<lparr>us_kcp := k\<rparr>) s'"
proof -
  from assms(3,6) obtain ps where
    f: "kcp_ok k" "same_config (us_kcp s) k" "outs w1 = outs w @ ps"
      "\<forall>p \<in> set ps. reserved (us_kcp s) + length p \<le> unat (mtu (us_kcp s))"
    unfolding safe_call_def by (elim allE [of _ w]) auto
  let ?s = "s\<lparr>us_kcp := k\<rparr>"
  have ok: "kcp_ok (us_kcp s)" "parts_ok ?s" "reserved (us_kcp ?s) = s_headerSize ?s"
    using assms(1) f(2) by (simp_all add: session_ok_def same_config_def)
  have "\<forall>p \<in> set ps. reserved (us_kcp ?s) + length p \<le> 1500 \<and> carried conv log p"
    using f(2-4) mtu_bound [OF ok(1)] assms(7) by (fastforce simp: same_config_def)
  from output_all_coded [OF assms(2) ok(2,3) _ this, of fec xs w1] assms(4) obtain s2 w2 where
    o: "output_all io ps ?s w1 = Some (s2, w2)" "io_only ?s s2" "outs w2 = outs w1"
      "length (s_conn ?s) \<le> length (s_conn s2)" "writes_io fec (io_libs io) conv log xs s2"
    by (auto simp: writes_io_kcp)
  have "s2 = s'" "w2 = w'" using assms(5,6) f(3) o(1) by (simp_all add: kcp_call_def)
  with o io_onlyD(1) [OF o(2)] show "us_kcp s' = k" "outs w' = outs w1" "length (s_conn s) \<le> length (s_conn s')"
    "writes_io fec (io_libs io) conv log xs s'" "io_only (s\<lparr>us_kcp := k\<rparr>) s'" by simp_all
  show "session_ok s'" using kcp_call_ok [OF assms(1-3), of w] assms(5) by auto
qed

subsection \<open>Handling a packet, step by step\<close>

text \<open>
  A statement about session and counters that every call of \<open>Input\<close> with an admissible packet keeps,
  and that counters, notifications and the decoder do not matter to, is kept by \<^const>\<open>kcpInput\<close>.
\<close>

lemma recovered_rule:
  assumes "input_recovered io clk rs (s, w, c) = Some (s', w', c')" "P s w"
    and "\<forall>r \<in> set rs. \<forall>p. recovered_payload r = Some p \<longrightarrow> Q p"
    and "\<And>p reg s w r s' w'. Q p \<Longrightarrow> P s w \<Longrightarrow> session_Input io clk p reg s w = Some (r, s', w') \<Longrightarrow> P s' w'"
  shows "P s' w'"
  using assms(1-3)
proof (induction rs arbitrary: s w c)
  case Nil
  then show ?case by simp
next
  case (Cons r rs)
  show ?case
  proof (cases "recovered_payload r")
    case None
    with Cons show ?thesis by simp
  next
    case (Some p)
    with Cons.prems(1) obtain ret s1 w1 c1 where
      s1: "session_Input io clk p False s w = Some (ret, s1, w1)" "input_recovered io clk rs (s1, w1, c1) = Some (s', w', c')"
      by (auto split: Option.bind_splits)
    have "Q p" using Cons.prems(3) Some by simp
    from assms(4) [OF this Cons.prems(2) s1(1)] Cons.IH [OF s1(2)] Cons.prems(3) show ?thesis by simp
  qed
qed

lemma events_rule:
  assumes "\<And>s w a b. P s w \<Longrightarrow> P (s\<lparr>s_chReadEvent := a, s_chWriteEvent := b\<rparr>) w" "P s w"
  shows "P (input_events n s) w"
proof -
  obtain a b where "input_events n s = s\<lparr>s_chReadEvent := a, s_chWriteEvent := b\<rparr>"
  proof
    show "input_events n s = s\<lparr>s_chReadEvent := s_chReadEvent s \<or> PeekSize (us_kcp s) > 0,
        s_chWriteEvent := s_chWriteEvent s \<or> WaitSnd (us_kcp s) < n\<rparr>"
      by (simp add: input_events_def notifyReadEvent_def notifyWriteEvent_def Let_def)
  qed
  then show ?thesis using assms by simp
qed

lemma kcpInput_rule:
  assumes k: "kcpInput io clk data s w = Some (s', w')" and P: "P s w"
    and step: "\<And>p reg s w r s' w'. Q p \<Longrightarrow> P s w \<Longrightarrow> session_Input io clk p reg s w = Some (r, s', w') \<Longrightarrow> P s' w'"
    and count: "\<And>s w f. P s w \<Longrightarrow> P s (Snmp.count f w)"
    and events: "\<And>s w a b. P s w \<Longrightarrow> P (s\<lparr>s_chReadEvent := a, s_chWriteEvent := b\<rparr>) w"
    and plain: "s_fecDecoder s = None \<Longrightarrow> Q data"
    and fec: "\<And>dec rs dec' short. s_fecDecoder s = Some dec \<Longrightarrow> fec_decode data dec = Some (rs, dec', short) \<Longrightarrow>
       (\<forall>w. P s w \<longrightarrow> P (s\<lparr>s_fecDecoder := Some dec'\<rparr>) w) \<and> (\<forall>r \<in> set rs. \<forall>p. recovered_payload r = Some p \<longrightarrow> Q p)"
    and payload: "s_fecDecoder s \<noteq> None \<Longrightarrow> fec_flag data = typeData \<Longrightarrow> 8 \<le> length data \<Longrightarrow> Q (drop 8 data)"
  shows "P s' w'"
proof -
  have input: "P s1 w1" if "input_plain io clk d (s0, w0, c0) = Some (s1, w1, c1)" "Q d" "P s0 w0" for d s0 w0 c0 s1 w1 c1
    using that step by (auto simp: input_plain_def split: Option.bind_splits)
  have told: "P (input_events n s0) w0" if "P s0 w0" for n s0 w0
    using events_rule [of P, OF events that] .
  show ?thesis
  proof (cases "s_fecDecoder s")
    case None
    with k obtain s1 w1 c1 f where i: "input_plain io clk data (s, w, in_counts0) = Some (s1, w1, c1)"
      "s' = input_events (WaitSnd (us_kcp s)) s1" "w' = Snmp.count f w1"
      by (auto simp: kcpInput_def Let_def split: Option.bind_splits)
    show ?thesis using told [OF count [OF input [OF i(1) plain [OF None] P]]] i(2,3) by simp
  next
    case (Some dec)
    show ?thesis
    proof (cases "length data > fecHeaderSize \<and> (fec_flag data = typeData \<or> fec_flag data = typeParity)")
      case False
      with k Some obtain f g where "s' = s" "w' = Snmp.count f (Snmp.count g w)" by (auto simp: kcpInput_def)
      then show ?thesis using count [OF count [OF P]] by simp
    next
      case True
      with k Some obtain s1 w1 c1 f where i: "input_fec io clk data dec (s, w, in_counts0) = Some (s1, w1, c1)"
        "s' = s1" "w' = Snmp.count f w1"
        by (auto simp: kcpInput_def split: Option.bind_splits)
      define c0 where "c0 = (if fec_flag data = typeParity then in_counts0\<lparr>in_fecParityShards := in_fecParityShards in_counts0 + 1\<rparr>
        else in_counts0)"
      have "\<exists>rs dec' short. fec_decode data dec = Some (rs, dec', short)"
        using i(1) by (cases "fec_decode data dec") (auto simp: input_fec_def)
      then obtain rs dec' short where dec: "fec_decode data dec = Some (rs, dec', short)" by blast
      define w0 where "w0 = (if short then Snmp.count (\<lambda>c. c\<lparr>FECShortShards := FECShortShards c + 1\<rparr>) w else w)"
      let ?s0 = "s\<lparr>s_fecDecoder := Some dec'\<rparr>"
      have "do { (s2, w2, c2) \<leftarrow> input_data io clk data (?s0, w0, c0); (s3, w3, c3) \<leftarrow> input_recovered io clk rs (s2, w2, c2);
           Some (input_events (WaitSnd (us_kcp ?s0)) s3, w3, c3) } = Some (s1, w1, c1)"
        using i(1) unfolding input_fec_def prod.case Let_def dec Option.bind.bind_lunit c0_def [symmetric] w0_def [symmetric] .
      then obtain s2 w2 c2 s3 w3 c3 where
        d: "input_data io clk data (?s0, w0, c0) = Some (s2, w2, c2)"
          "input_recovered io clk rs (s2, w2, c2) = Some (s3, w3, c3)"
          "s1 = input_events (WaitSnd (us_kcp s)) s3" "w1 = w3"
        by (auto split: Option.bind_splits)
      note F = fec [OF Some dec]
      have "P s w0" using P count by (simp add: w0_def)
      then have P0: "P (s\<lparr>s_fecDecoder := Some dec'\<rparr>) w0" using F by blast
      have "P s2 w2"
      proof (cases "fec_flag data = typeData")
        case True
        with d(1) have len: "8 \<le> length data"
          "input_plain io clk (drop 8 data) (s\<lparr>s_fecDecoder := Some dec'\<rparr>, w0, c0) = Some (s2, w2, c2)"
          by (auto simp: input_data_def sl_def fecHeaderSizePlus2_def split: Option.bind_splits if_splits)
        show ?thesis using input [OF len(2) payload [OF _ True len(1)] P0] Some by simp
      next
        case False
        with d(1) P0 show ?thesis by (simp add: input_data_def)
      qed
      moreover have "\<forall>r \<in> set rs. \<forall>p. recovered_payload r = Some p \<longrightarrow> Q p" using F by blast
      ultimately have "P s3 w3" using recovered_rule [of io clk rs s2 w2 c2 s3 w3 c3 P Q, OF d(2)] step by blast
      then show ?thesis using told [OF count] i(2,3) d(3,4) by simp
    qed
  qed
qed

subsection \<open>The writer\<close>

text \<open>\<open>bs\<close> is what was written, \<open>log\<close> the segments numbered so far; \<open>m\<close> packets at least were sent.\<close>

definition wrote :: "fec_code \<Rightarrow> crypt_libs \<Rightarrow> BlockCrypt option \<Rightarrow> nat \<Rightarrow> u32 \<Rightarrow> segment list \<Rightarrow> bytes \<Rightarrow> bytes list \<Rightarrow> session \<Rightarrow> world \<Rightarrow> bool" where
  "wrote fec L blk m conv log bs xs s w \<longleftrightarrow> session_ok s \<and> near_inv (us_kcp s) w log bs \<and> kconv (us_kcp s) = conv
     \<and> writes_io fec L conv log xs s \<and> s_block s = blk \<and> m \<le> length (s_conn s)"

lemma near_inv_outs: "near_inv k w log bs \<Longrightarrow> outs w' = outs w \<Longrightarrow> near_inv k w' log bs"
  by (simp add: near_inv_def)

lemma near_inv_count [simp]: "near_inv k (Snmp.count f w) log bs = near_inv k w log bs"
  by (simp add: near_inv_def)

lemma wroteD:
  assumes "wrote fec L blk m conv log bs xs s w"
  shows "session_ok s" "kcp_ok (us_kcp s)" "near_inv (us_kcp s) w log bs" "kconv (us_kcp s) = conv" "writes_io fec L conv log xs s"
    "s_block s = blk" "m \<le> length (s_conn s)"
  using assms by (auto simp: wrote_def session_ok_def)

lemma kcp_call_inner: "kcp_call io f s w = Some (r, s', w') \<Longrightarrow> \<exists>k w1. f (us_kcp s) w = Some (r, k, w1)"
  by (auto simp: kcp_call_def split: Option.bind_splits)

lemma writes_io_flags [simp]:
  "writes_io fec L conv log xs (s\<lparr>s_chReadEvent := a, s_chWriteEvent := b\<rparr>) = writes_io fec L conv log xs s"
  "writes_io fec L conv log xs (s\<lparr>s_fecDecoder := dec\<rparr>) = writes_io fec L conv log xs s"
  "writes_io fec L conv log xs (s\<lparr>us_kcp := k, s_bufptr := x\<rparr>) = writes_io fec L conv log xs s"
  "writes_io fec L conv log xs (s\<lparr>s_isClosed := c\<rparr>) = writes_io fec L conv log xs s"
  "writes_io fec L conv log xs (s\<lparr>s_chWriteEvent := b\<rparr>) = writes_io fec L conv log xs s"
  "writes_io fec L conv log xs (s\<lparr>s_chReadEvent := a\<rparr>) = writes_io fec L conv log xs s"
  by (simp_all add: writes_io_def writer_io_def encodes_def split: option.splits)

lemma call_frame:
  "length (s_conn s) \<le> length (s_conn s') \<Longrightarrow> io_only (s\<lparr>us_kcp := k\<rparr>) s' \<Longrightarrow> s_block s = blk \<Longrightarrow> m \<le> length (s_conn s) \<Longrightarrow>
     s_block s' = blk \<and> m \<le> length (s_conn s')"
  using io_onlyD(4) by fastforce

lemma wrote_Input:
  assumes "wrote fec (io_libs io) blk m conv log bs xs s w" "io_ok io" "length data \<le> 1500"
    "session_Input io clk data reg s w = Some (r, s', w')"
  shows "wrote fec (io_libs io) blk m conv log bs xs s' w'"
proof -
  note ok = wroteD [OF assms(1)]
  have call: "kcp_call io (Input clk data reg (us_ackNoDelay s)) s w = Some (r, s', w')"
    using assms(4) by (simp add: session_Input_def)
  from kcp_call_inner [OF this] obtain k w1 where f: "Input clk data reg (us_ackNoDelay s) (us_kcp s) w = Some (r, k, w1)" by blast
  from near_input_inv [OF ok(3) _ f] assms(3) have n: "near_inv k w1 log bs" "kconv k = conv" using ok(4) by simp_all
  then have "\<forall>p \<in> set (outs w1). carried conv log p" by (simp add: near_inv_def)
  note c = kcp_call_coded [OF ok(1) assms(2) safe_Input [OF ok(2) assms(3)] ok(5) call f this]
  show ?thesis unfolding wrote_def c(1) using c(4,5) n(2) near_inv_outs [OF n(1) c(2)] call_frame [OF c(3,6) ok(6,7)] by blast
qed

lemma wrote_flush:
  assumes "wrote fec (io_libs io) blk m conv log bs xs s w" "io_ok io" "kcp_call io (flush clk False) s w = Some (r, s', w')"
  shows "wrote fec (io_libs io) blk m conv (log @ drop (length (snd_buf (us_kcp s))) (snd_buf (us_kcp s'))) bs xs s' w'"
proof -
  note ok = wroteD [OF assms(1)]
  from kcp_call_inner [OF assms(3)] obtain k w1 where f: "flush clk False (us_kcp s) w = Some (r, k, w1)" by blast
  let ?log = "log @ drop (length (snd_buf (us_kcp s))) (snd_buf k)"
  from near_flush_inv [OF ok(3) f] have n: "near_inv k w1 ?log bs" "kconv k = conv" using ok(4) by simp_all
  then have "\<forall>p \<in> set (outs w1). carried conv ?log p" by (simp add: near_inv_def)
  note c = kcp_call_coded [OF ok(1) assms(2) safe_flush [OF ok(2)] writes_io_log [OF ok(5)] assms(3) f this]
  show ?thesis unfolding wrote_def c(1) using c(4,5) n(2) near_inv_outs [OF n(1) c(2)] call_frame [OF c(3,6) ok(6,7)] by blast
qed

lemma wrote_update:
  assumes "wrote fec (io_libs io) blk m conv log bs xs s w" "io_ok io" "session_update io clk s w = Some (itv, s', w')"
  shows "wrote fec (io_libs io) blk m conv (log @ drop (length (snd_buf (us_kcp s))) (snd_buf (us_kcp s'))) bs xs s' w'"
proof -
  from assms(3) obtain s1 where "kcp_call io (flush clk False) s w = Some (itv, s1, w')"
    "s' = s1 \<or> s' = s1\<lparr>s_chWriteEvent := True\<rparr>"
    by (auto simp: session_update_def notifyWriteEvent_def Let_def split: Option.bind_splits)
  with wrote_flush [OF assms(1,2), of clk itv s1 w'] show ?thesis by (auto simp: wrote_def)
qed

lemma wrote_Write:
  assumes "wrote fec (io_libs io) blk m conv log bs xs s w" "io_ok io" "Write_pass io clk v now s w = Some (r, s', w')"
  shows "wrote fec (io_libs io) blk m conv (log @ drop (length (snd_buf (us_kcp s))) (snd_buf (us_kcp s')))
     (bs @ (case r of Returns n \<Rightarrow> concat v | _ \<Rightarrow> [])) xs s' w'"
proof (cases "s_isClosed s \<or> \<not> WaitSnd (us_kcp s) < unat (snd_wnd (us_kcp s))")
  case True
  then have "s' = s \<and> w' = w \<and> (r = Waits \<or> (\<exists>e. r = Fails e))"
    using assms(3) by (auto simp: Write_pass_def split: if_splits)
  then show ?thesis using assms(1) by auto
next
  case False
  note ok = wroteD [OF assms(1)]
  from send_buffers_ok [OF ok(2)] obtain q where
    q: "send_buffers v (us_kcp s) = Some ((us_kcp s)\<lparr>snd_queue := q\<rparr>)" "kcp_ok ((us_kcp s)\<lparr>snd_queue := q\<rparr>)"
       "payload q = payload (snd_queue (us_kcp s)) @ concat v" by blast
  let ?s = "s\<lparr>us_kcp := (us_kcp s)\<lparr>snd_queue := q\<rparr>\<rparr>"
  have W: "wrote fec (io_libs io) blk m conv log (bs @ concat v) xs ?s w"
    using ok q session_ok_kcp [OF ok(1) q(2)]
    by (simp add: wrote_def writes_io_kcp same_config_def) (simp add: near_inv_def)
  from False assms(3) q(1) obtain w1 n where
    r: "r = Returns n" "w' = Snmp.count (\<lambda>c. c\<lparr>BytesSent := BytesSent c + of_nat n\<rparr>) w1"
       "s' = ?s \<and> w1 = w \<or> (\<exists>t. kcp_call io (flush clk False) ?s w = Some (t, s', w1))"
    by (auto simp: Write_pass_def Let_def split: Option.bind_splits if_splits)
  have "wrote fec (io_libs io) blk m conv (log @ drop (length (snd_buf (us_kcp ?s))) (snd_buf (us_kcp s'))) (bs @ concat v) xs s' w1"
    using r(3) W wrote_flush [OF W assms(2)] by auto
  then show ?thesis using r(1,2) by (simp add: wrote_def)
qed

lemma wrote_Read:
  assumes "wrote fec L blk m conv log bs xs s w" "Read_pass n now s w = Some (r, s', w')"
  shows "wrote fec L blk m conv log bs xs s' w'"
proof -
  note ok = wroteD [OF assms(1)]
  from Read_pass_ok [OF ok(1), of n now w] assms(2) have s': "session_ok s'" "\<exists>k b. s' = s\<lparr>us_kcp := k, s_bufptr := b\<rparr>"
    "same_config (us_kcp s) (us_kcp s')" by auto
  have "outs w' = outs w" using assms(2) by (auto simp: Read_pass_def Let_def split: if_splits Option.bind_splits)
  moreover have "near_inv (us_kcp s') w log bs"
    using ok(3) s'(1,3) Read_pass_send [OF ok(1) assms(2)]
    by (simp add: near_inv_def same_send_def same_config_def session_ok_def)
  moreover have "writes_io fec L conv log xs s'" "s_block s' = blk" "m \<le> length (s_conn s')" using ok(5-7) s'(2) by auto
  ultimately show ?thesis using ok(4) s'(1,3) near_inv_outs by (auto simp: wrote_def same_config_def)
qed

lemma wrote_kcpInput:
  assumes "wrote fec (io_libs io) blk m conv log bs xs s w" "io_ok io" "length data \<le> 1500" "s_fecDecoder s \<noteq> None \<longrightarrow> 8 \<le> length data"
    "kcpInput io clk data s w = Some (s', w')"
  shows "wrote fec (io_libs io) blk m conv log bs xs s' w'"
proof (rule kcpInput_rule [OF assms(5), where Q = "\<lambda>p. length p \<le> 1500" and P = "wrote fec (io_libs io) blk m conv log bs xs"])
  show "wrote fec (io_libs io) blk m conv log bs xs s w" by (rule assms(1))
  show "\<And>p reg s w r s' w'. length p \<le> 1500 \<Longrightarrow> wrote fec (io_libs io) blk m conv log bs xs s w \<Longrightarrow>
      session_Input io clk p reg s w = Some (r, s', w') \<Longrightarrow> wrote fec (io_libs io) blk m conv log bs xs s' w'"
    using wrote_Input [OF _ assms(2)] by blast
  show "\<And>s w f. wrote fec (io_libs io) blk m conv log bs xs s w \<Longrightarrow> wrote fec (io_libs io) blk m conv log bs xs s (Snmp.count f w)"
    by (simp add: wrote_def)
  show "\<And>s w a b. wrote fec (io_libs io) blk m conv log bs xs s w \<Longrightarrow>
      wrote fec (io_libs io) blk m conv log bs xs (s\<lparr>s_chReadEvent := a, s_chWriteEvent := b\<rparr>) w"
    by (simp add: wrote_def)
  fix dec rs dec' short
  assume d: "s_fecDecoder s = Some dec" "fec_decode data dec = Some (rs, dec', short)"
  note ok = wroteD(1) [OF assms(1)]
  then have "dec_fine dec" using d(1) by (simp add: session_ok_def)
  from fec_decode_fine [OF this, of data] assms(3,4) d have f: "dec_fine dec'" "\<forall>r \<in> set rs. length r \<le> 1494" by auto
  have "length p \<le> 1500" if "r \<in> set rs" "recovered_payload r = Some p" for r p
    using recovered_payload_length [OF that(2)] f(2) that(1) by fastforce
  then show "(\<forall>w. wrote fec (io_libs io) blk m conv log bs xs s w \<longrightarrow> wrote fec (io_libs io) blk m conv log bs xs (s\<lparr>s_fecDecoder := Some dec'\<rparr>) w)
      \<and> (\<forall>r \<in> set rs. \<forall>p. recovered_payload r = Some p \<longrightarrow> length p \<le> 1500)"
    using session_ok_decoder [OF ok d(1) f(1)] by (simp add: wrote_def)
qed (use assms(3) in simp_all)

lemma wrote_packetInput:
  assumes "wrote fec (io_libs io) blk m conv log bs xs s w" "io_ok io"
    "s_headerSize s + IKCP_OVERHEAD \<le> length D" "length D \<le> 1500" "session_packetInput io clk D s w = Some (s', w')"
  shows "wrote fec (io_libs io) blk m conv log bs xs s' w'"
proof -
  note ok = wroteD(1) [OF assms(1)]
  then have h: "s_headerSize s = crypt_room (s_block s) + (if s_fecEncoder s = None then 0 else 8)" "block_fine (s_block s)"
    "s_fecEncoder s = None \<longleftrightarrow> s_fecDecoder s = None"
    by (simp_all add: session_ok_def parts_ok_def)
  then have room: "crypt_room (s_block s) \<le> length D" using assms(3) by simp
  from open_packet_ok [OF assms(2) h(2) room] obtain r where
    r: "open_packet (io_libs io) (s_block s) D = Some r"
      "\<forall>body. r = Some body \<longrightarrow> length body = length D - crypt_room (s_block s)" by blast
  show ?thesis
  proof (cases r)
    case None
    then show ?thesis using r(1) assms(1,5) by (auto simp: session_packetInput_def wrote_def)
  next
    case (Some body)
    then have "length body \<le> 1500" "s_fecDecoder s \<noteq> None \<longrightarrow> 8 \<le> length body" using r(2) h(1,3) assms(3,4) by auto
    moreover have "kcpInput io clk body s w = Some (s', w')" using assms(5) r(1) Some by (simp add: session_packetInput_def)
    ultimately show ?thesis using wrote_kcpInput [OF assms(1,2)] by blast
  qed
qed

subsection \<open>The reader\<close>

text \<open>\<open>gs\<close> is what was read. The decoder holds packets of the writer's encoder only.\<close>

definition hears :: "fec_code \<Rightarrow> bytes list \<Rightarrow> fec_decoder option \<Rightarrow> bool" where
  "hears fec xs fd \<longleftrightarrow> (case fec of None \<Rightarrow> fd = None
     | Some (c, d, p) \<Rightarrow> 0 < d \<and> (\<exists>dec. fd = Some dec \<and> dec_inv c d p xs dec))"

definition has_read :: "fec_code \<Rightarrow> u32 \<Rightarrow> segment list \<Rightarrow> bytes list \<Rightarrow> bytes \<Rightarrow> session \<Rightarrow> bool" where
  "has_read fec conv log xs gs s \<longleftrightarrow> session_ok s \<and> far_inv (us_kcp s) conv log (gs @ s_bufptr s) \<and> hears fec xs (s_fecDecoder s)"

lemma has_read_append: "has_read fec conv log xs gs s \<Longrightarrow> has_read fec conv (log @ ext) (xs @ ys) gs s"
  unfolding has_read_def hears_def
  by (auto simp: dec_inv_def intro: far_inv_append sent_by_append split: option.splits)

lemma read_call:
  assumes "has_read fec conv log xs gs s" "io_ok io" "safe_call f (us_kcp s)" "kcp_call io f s w = Some (r, s', w')"
    "\<And>k w1. f (us_kcp s) w = Some (r, k, w1) \<Longrightarrow> far_inv k conv log (gs @ s_bufptr s)"
  shows "has_read fec conv log xs gs s'"
proof -
  have ok: "session_ok s" using assms(1) by (simp add: has_read_def)
  from kcp_call_inner [OF assms(4)] obtain k w1 where f: "f (us_kcp s) w = Some (r, k, w1)" by blast
  from kcp_call_ok [OF ok assms(2,3), of w] assms(4) f have
    s': "session_ok s'" "us_kcp s' = k" "io_only (s\<lparr>us_kcp := k\<rparr>) s'" by auto
  have "s_fecDecoder s' = s_fecDecoder s" "s_bufptr s' = s_bufptr s" using io_onlyD(5,8) [OF s'(3)] by simp_all
  then show ?thesis using s'(1,2) assms(1) assms(5) [OF f] by (simp add: has_read_def)
qed

lemma read_Input:
  assumes "has_read fec conv log xs gs s" "io_ok io" "length log < 2 ^ 31" "carried conv log data"
    "session_Input io clk data reg s w = Some (r, s', w')"
  shows "has_read fec conv log xs gs s'"
proof (rule read_call [OF assms(1,2)])
  show "kcp_call io (Input clk data reg (us_ackNoDelay s)) s w = Some (r, s', w')"
    using assms(5) by (simp add: session_Input_def)
  have "kcp_ok (us_kcp s)" using assms(1) by (simp add: has_read_def session_ok_def)
  moreover have "length data \<le> 1500" using assms(4) by (simp add: carried_def)
  ultimately show "safe_call (Input clk data reg (us_ackNoDelay s)) (us_kcp s)" by (rule safe_Input)
  fix k w1
  assume f: "Input clk data reg (us_ackNoDelay s) (us_kcp s) w = Some (r, k, w1)"
  have "far_inv (us_kcp s) conv log (gs @ s_bufptr s)" using assms(1) by (simp add: has_read_def)
  from far_input_inv [OF this assms(3,4) f] show "far_inv k conv log (gs @ s_bufptr s)" .
qed

lemma read_flush:
  assumes "has_read fec conv log xs gs s" "io_ok io" "kcp_call io (flush clk False) s w = Some (r, s', w')"
  shows "has_read fec conv log xs gs s'"
proof (rule read_call [OF assms(1,2) _ assms(3)])
  show "safe_call (flush clk False) (us_kcp s)"
    using assms(1) by (intro safe_flush) (simp add: has_read_def session_ok_def)
  show "flush clk False (us_kcp s) w = Some (r, k, w1) \<Longrightarrow> far_inv k conv log (gs @ s_bufptr s)" for k w1
    using far_flush_inv assms(1) by (auto simp: has_read_def)
qed

lemma has_read_flags [simp]:
  "has_read fec conv log xs gs (s\<lparr>s_chReadEvent := a\<rparr>) = has_read fec conv log xs gs s"
  "has_read fec conv log xs gs (s\<lparr>s_chWriteEvent := b\<rparr>) = has_read fec conv log xs gs s"
  "has_read fec conv log xs gs (s\<lparr>s_isClosed := c\<rparr>) = has_read fec conv log xs gs s"
  by (simp_all add: has_read_def)

lemma read_update:
  assumes "has_read fec conv log xs gs s" "io_ok io" "session_update io clk s w = Some (itv, s', w')"
  shows "has_read fec conv log xs gs s'"
proof -
  from assms(3) obtain s1 where "kcp_call io (flush clk False) s w = Some (itv, s1, w')"
    "s' = s1 \<or> s' = s1\<lparr>s_chWriteEvent := True\<rparr>"
    by (auto simp: session_update_def notifyWriteEvent_def Let_def split: Option.bind_splits)
  with read_flush [OF assms(1,2)] show ?thesis by auto
qed

text \<open>What it writes itself does not matter to what it reads.\<close>

lemma read_Write:
  assumes "has_read fec conv log xs gs s" "io_ok io" "Write_pass io clk v now s w = Some (r, s', w')"
  shows "has_read fec conv log xs gs s'"
proof (cases "s_isClosed s \<or> \<not> WaitSnd (us_kcp s) < unat (snd_wnd (us_kcp s))")
  case True
  then have "s' = s" using assms(3) by (auto simp: Write_pass_def split: if_splits)
  then show ?thesis using assms(1) by simp
next
  case False
  have ok: "session_ok s" "kcp_ok (us_kcp s)" using assms(1) by (simp_all add: has_read_def session_ok_def)
  from send_buffers_ok [OF ok(2)] obtain q where
    q: "send_buffers v (us_kcp s) = Some ((us_kcp s)\<lparr>snd_queue := q\<rparr>)" "kcp_ok ((us_kcp s)\<lparr>snd_queue := q\<rparr>)" by blast
  let ?s = "s\<lparr>us_kcp := (us_kcp s)\<lparr>snd_queue := q\<rparr>\<rparr>"
  have "session_ok ?s" using session_ok_kcp [OF ok(1) q(2)] by (simp add: same_config_def)
  moreover have "far_inv (us_kcp ?s) conv log (gs @ s_bufptr ?s)"
    using far_inv_frame [of "us_kcp s", OF _ q(2)] assms(1) by (simp add: has_read_def same_recv_def)
  ultimately have R: "has_read fec conv log xs gs ?s" using assms(1) by (simp add: has_read_def)
  from False assms(3) q(1) have "s' = ?s \<or> (\<exists>t w1. kcp_call io (flush clk False) ?s w = Some (t, s', w1))"
    by (auto simp: Write_pass_def Let_def split: Option.bind_splits if_splits)
  then show ?thesis using R read_flush [OF R assms(2)] by auto
qed

lemma read_Read:
  assumes "has_read fec conv log xs gs s" "length log < 2 ^ 31" "Read_pass n now s w = Some (r, s', w')"
  shows "has_read fec conv log xs (gs @ (case r of Returns b \<Rightarrow> b | _ \<Rightarrow> [])) s'"
proof -
  have ok: "session_ok s" and far: "far_inv (us_kcp s) conv log (gs @ s_bufptr s)"
    and dec: "hears fec xs (s_fecDecoder s)" using assms(1) by (simp_all add: has_read_def)
  from Read_pass_ok [OF ok, of n now w] assms(3) have s': "session_ok s'" "\<exists>k b. s' = s\<lparr>us_kcp := k, s_bufptr := b\<rparr>" by auto
  have "hears fec xs (s_fecDecoder s')" using dec s'(2) by auto
  moreover have "far_inv (us_kcp s') conv log (gs @ (case r of Returns b \<Rightarrow> b | _ \<Rightarrow> []) @ s_bufptr s')"
  proof (cases "length (s_bufptr s) > 0 \<or> s_isClosed s \<or> \<not> PeekSize (us_kcp s) > 0")
    case True
    have "take n xs @ drop (min (length xs) n) xs = xs" for xs :: bytes by (cases "n \<le> length xs") simp_all
    then show ?thesis using True assms(3) far by (auto simp: Read_pass_def Let_def split: if_splits)
  next
    case False
    then have pk: "0 < PeekSize (us_kcp s)" "s_bufptr s = []" "\<not> s_isClosed s" by auto
    let ?m = "nat (PeekSize (us_kcp s))"
    have kcp: "kcp_ok (us_kcp s)" using ok by (simp add: session_ok_def)
    have far': "far_inv (us_kcp s) conv log gs" using far pk(2) by simp
    have recv: "\<exists>buf k. Recv (replicate (max n ?m) 0) (us_kcp s) = Some (PeekSize (us_kcp s), buf, k)
        \<and> far_inv k conv log (gs @ take ?m buf) \<and> length buf = max n ?m"
    proof -
      from Recv_first [OF kcp pk(1), of "max n ?m"] obtain buf k where
        "Recv (replicate (max n ?m) 0) (us_kcp s) = Some (PeekSize (us_kcp s), buf, k)" "length buf = max n ?m" by auto
      with far_recv_inv [OF far' assms(2)] show ?thesis by blast
    qed
    then obtain buf k where r: "Recv (replicate (max n ?m) 0) (us_kcp s) = Some (PeekSize (us_kcp s), buf, k)"
      "far_inv k conv log (gs @ take ?m buf)" "length buf = max n ?m" by blast
    show ?thesis
    proof (cases "?m \<le> n")
      case True
      then have "r = Returns (take ?m buf)" "s' = s\<lparr>us_kcp := k\<rparr>"
        using assms(3) pk r(1) by (simp_all add: Read_pass_def Let_def max_def)
      then show ?thesis using r(2) pk(2) by simp
    next
      case False
      then have "r = Returns (take n buf)" "s' = s\<lparr>us_kcp := k, s_bufptr := drop (length (take n buf)) buf\<rparr>"
        "length buf = ?m"
        using assms(3) pk r(1,3) by (simp_all add: Read_pass_def Let_def max_def)
      moreover from this(3) False have "take n buf @ drop (length (take n buf)) buf = buf" "take ?m buf = buf" by simp_all
      ultimately show ?thesis using r(2) by simp
    qed
  qed
  ultimately show ?thesis using s'(1) by (simp add: has_read_def)
qed

subsection \<open>What arrives\<close>

lemma fec_data_payload:
  assumes "sent_by c d p xs f" "fec_flag f = typeData" "payloads_of conv log xs"
  shows "carried conv log (drop 8 f)"
proof -
  from assms(1) obtain q where q: "emitted d p xs q" "f = fec_wire c d p xs q" by (auto simp: sent_by_def)
  let ?g = "q div (d + p)" and ?r = "q mod (d + p)"
  have r: "?r < d" using assms(2) q(2) by (auto simp: typeData_def typeParity_def split: if_splits)
  then have n: "?g * d + ?r < length xs" using q(1) by (simp add: emitted_def)
  then have "fec_shard c d p xs q = xs ! (?g * d + ?r)" using r by (simp add: fec_shard_def fec_group_def)
  moreover obtain x where "xs ! (?g * d + ?r) = sized x" "carried conv log x"
    using bspec [OF assms(3) [unfolded payloads_of_def] nth_mem [OF n]] by blast
  ultimately show ?thesis by (simp add: q(2) fec_wire_def put_le32_def put_le16_def sized_def)
qed

lemma encodes_setting:
  assumes "encodes c d p xs s" "payloads_of conv log xs" "length (s_conn s) < 2 ^ 31"
  shows "fec_setting c d p xs"
proof -
  from assms(1) obtain enc where e: "enc_inv c d p enc xs" "rs_laws d p c" "d + p \<le> 256"
    "sent_count d p (length xs) \<le> length (s_conn s)" by (auto simp: encodes_def)
  have "(length xs div d + 1) * (d + p) \<le> sent_count d p (length xs) + (d + p)" by (simp add: sent_count_def)
  then have "(length xs div d + 1) * (d + p) \<le> 2 ^ 32" using e(3,4) assms(3) by simp
  moreover have "\<forall>x \<in> set xs. x \<noteq> []" using assms(2) by (auto simp: payloads_of_def sized_def put_le16_def)
  ultimately show ?thesis using e(1-3) by (simp add: fec_setting_def enc_inv_def)
qed

lemma recovered_carried:
  assumes "payloads_of conv log xs" "j < length xs" "r = xs ! j @ replicate n 0" "recovered_payload r = Some q"
  shows "carried conv log q"
proof -
  from bspec [OF assms(1) [unfolded payloads_of_def] nth_mem [OF assms(2)]] obtain x where x: "xs ! j = sized x" "carried conv log x"
    by blast
  then have "length x \<le> 65533" by (simp add: carried_def)
  with x assms(3,4) show ?thesis by (simp add: recovered_sized)
qed

lemma read_kcpInput:
  assumes R: "has_read fec conv log xs gs s" and io: "io_ok io" "length log < 2 ^ 31"
    and a: "writer_io fec L conv log xs a" "length (s_conn a) < 2 ^ 31"
    and f: "coded fec conv log xs f" "length f \<le> 1500" "kcpInput io clk f s w = Some (s', w')"
  shows "has_read fec conv log xs gs s'"
proof (rule kcpInput_rule [OF f(3), where Q = "carried conv log" and P = "\<lambda>s w. has_read fec conv log xs gs s"])
  show "has_read fec conv log xs gs s" by (rule R)
  show "\<And>p reg s w r s' w'. carried conv log p \<Longrightarrow> has_read fec conv log xs gs s \<Longrightarrow>
      session_Input io clk p reg s w = Some (r, s', w') \<Longrightarrow> has_read fec conv log xs gs s'"
    using read_Input [OF _ io] by blast
  show "s_fecDecoder s = None \<Longrightarrow> carried conv log f"
    using R f(1) by (auto simp: has_read_def hears_def coded_def split: option.splits)
  have W: "payloads_of conv log xs" using a(1) by (simp add: writer_io_def)
  show "carried conv log (drop 8 f)" if "s_fecDecoder s \<noteq> None" "fec_flag f = typeData"
  proof -
    have "\<exists>c d p. sent_by c d p xs f"
      using that(1) R f(1) by (auto simp: has_read_def hears_def coded_def split: option.splits)
    then show ?thesis using fec_data_payload [OF _ that(2) W] by blast
  qed
  fix dec rs dec' short
  assume d: "s_fecDecoder s = Some dec" "fec_decode f dec = Some (rs, dec', short)"
  then obtain c d p where cdp: "fec = Some (c, d, p)" "0 < d" "dec_inv c d p xs dec"
    using R by (auto simp: has_read_def hears_def split: option.splits)
  have set: "fec_setting c d p xs" using a W cdp(1) by (intro encodes_setting) (simp_all add: writer_io_def)
  have sent: "sent_by c d p xs f" using f(1) cdp(1) by (simp add: coded_def)
  from fec_decode_true [OF cdp(3) set sent f(2)] d(2) have
    t: "dec_inv c d p xs dec'" "\<forall>r \<in> set rs. \<exists>j < length xs. \<exists>n. r = xs ! j @ replicate n 0" by auto
  have "6 \<le> length f" using sent by (auto simp: sent_by_def fec_wire_def)
  moreover have "dec_fine dec" "session_ok s" using R d(1) by (simp_all add: has_read_def session_ok_def)
  ultimately have "session_ok (s\<lparr>s_fecDecoder := Some dec'\<rparr>)"
    using fec_decode_fine [of dec f] f(2) d session_ok_decoder [of s dec dec'] by auto
  then have "has_read fec conv log xs gs (s\<lparr>s_fecDecoder := Some dec'\<rparr>)"
    using R t(1) cdp(1,2) by (simp add: has_read_def hears_def)
  moreover have "\<forall>r \<in> set rs. \<forall>p. recovered_payload r = Some p \<longrightarrow> carried conv log p"
    using t(2) recovered_carried [OF W] by blast
  ultimately show "(\<forall>w. has_read fec conv log xs gs s \<longrightarrow> has_read fec conv log xs gs (s\<lparr>s_fecDecoder := Some dec'\<rparr>))
      \<and> (\<forall>r \<in> set rs. \<forall>p. recovered_payload r = Some p \<longrightarrow> carried conv log p)" by blast
qed simp_all

text \<open>A packet the writer sent, or one that decryption and checksum refuse.\<close>

definition from_network :: "crypt_libs \<Rightarrow> session \<Rightarrow> bytes \<Rightarrow> bool" where
  "from_network L a D \<longleftrightarrow> length D \<le> 1500 \<and> (D \<in> set (s_conn a) \<or> open_packet L (s_block a) D = Some None)"

lemma read_packetInput:
  assumes R: "has_read fec conv log xs gs s" and io: "io_ok io" "length log < 2 ^ 31" "io_libs io = L"
    and a: "writer_io fec L conv log xs a" "length (s_conn a) < 2 ^ 31"
    and D: "from_network L a D" "s_headerSize s \<le> length D" "s_block s = s_block a" "session_packetInput io clk D s w = Some (s', w')"
  shows "has_read fec conv log xs gs s'"
proof -
  have "session_ok s" using R by (simp add: has_read_def)
  then have h: "s_headerSize s = crypt_room (s_block s) + (if s_fecEncoder s = None then 0 else 8)" "block_fine (s_block s)"
    by (simp_all add: session_ok_def parts_ok_def)
  then have room: "crypt_room (s_block s) \<le> length D" using D(2) by simp
  from open_packet_ok [OF io(1) h(2) room] have
    len: "open_packet L (s_block a) D = Some (Some f) \<Longrightarrow> length f \<le> 1500" for f
    using D(1,3) io(3) by (auto simp: from_network_def)
  show ?thesis
  proof (cases "open_packet L (s_block a) D = Some None")
    case True
    then show ?thesis using D(3,4) R io(3) by (auto simp: session_packetInput_def)
  next
    case False
    with D(1) a(1) obtain f where f: "open_packet L (s_block a) D = Some (Some f)" "coded fec conv log xs f"
      by (auto simp: from_network_def writer_io_def)
    then have "kcpInput io clk f s w = Some (s', w')" using D(3,4) io(3) by (simp add: session_packetInput_def)
    from read_kcpInput [OF R io(1,2) a f(2) len [OF f(1)] this] show ?thesis .
  qed
qed

end
