(* ===== verification/ListenerFacts.thy ===== *)
theory ListenerFacts
  imports Listener SessionTransfer
begin

section \<open>A listener and its sessions\<close>

text \<open>
  Packets from anywhere, accepting, closing, reading, writing, settings and the update goroutine in any
  order: nothing panics, packets reach the session of their address and no other, sessions are
  accepted once each in the order they were made, and every open session is updated.
\<close>

subsection \<open>What every operation keeps of a session\<close>

definition stays :: "session \<Rightarrow> session \<Rightarrow> bool" where
  "stays s s' \<longleftrightarrow> session_ok s' \<and> s_isClosed s' = s_isClosed s \<and> s_client s' = s_client s \<and> s_block s' = s_block s
     \<and> (s_fecDecoder s' = None \<longleftrightarrow> s_fecDecoder s = None)"

lemma stays_trans: "stays a b \<Longrightarrow> stays b c \<Longrightarrow> stays a c"
  by (simp add: stays_def)

lemma carry_stays: "carry s s' \<Longrightarrow> session_ok s' \<Longrightarrow> stays s s'"
  by (simp add: stays_def carry_def)

lemma input_stays:
  assumes "session_ok s" "io_ok io" "s_fecDecoder s \<noteq> None \<longrightarrow> 8 \<le> length data" "length data \<le> 1500"
  shows "\<exists>s' w'. kcpInput io clk data s w = Some (s', w') \<and> stays s s'"
proof -
  from kcpInput_ok [OF assms, of clk w] obtain s' w' where
    k: "kcpInput io clk data s w = Some (s', w')" "session_ok s'"
      "s' = s \<or> (\<exists>s1. carry s s1 \<and> s' = input_events (WaitSnd (us_kcp s)) s1)" by blast
  moreover have "carry s s1 \<Longrightarrow> session_ok (input_events n s1) \<Longrightarrow> stays s (input_events n s1)" for s1 n
    by (simp add: stays_def carry_def input_events_def notifyReadEvent_def notifyWriteEvent_def Let_def)
  ultimately have "stays s s'" using assms(1) by (auto simp: stays_def)
  with k(1) show ?thesis by blast
qed

lemma read_stays:
  assumes "session_ok s"
  shows "\<exists>r s' w'. Read_pass n now s w = Some (r, s', w') \<and> stays s s'"
proof -
  from Read_pass_ok [OF assms, of n now w] obtain r s' w' k b where
    "Read_pass n now s w = Some (r, s', w')" "session_ok s'" "s' = s\<lparr>us_kcp := k, s_bufptr := b\<rparr>" by blast
  then show ?thesis by (auto simp: stays_def)
qed

lemma write_stays:
  assumes "session_ok s" "io_ok io"
  shows "\<exists>r s' w'. Write_pass io clk v now s w = Some (r, s', w') \<and> stays s s'"
  using Write_pass_ok [OF assms, of clk v now w] carry_stays by blast

text \<open>Settings, deadlines and the number of copies, as the server sets them on a session it has accepted or later.\<close>

definition tunes :: "session \<Rightarrow> session \<Rightarrow> bool" where
  "tunes s s' \<longleftrightarrow> setting s s' \<or> (\<exists>t n. s' \<in> {session_SetDeadline t s, session_SetReadDeadline t s,
     session_SetWriteDeadline t s, SetDUP n s})"

lemma tunes_stays:
  assumes "session_ok s" "tunes s s'"
  shows "stays s s'"
proof (cases "setting s s'")
  case True
  from setting_shape [OF this] setting_ok [OF this assms(1)] show ?thesis by (auto simp: stays_def)
next
  case False
  then show ?thesis using assms
    by (auto simp: tunes_def stays_def session_SetDeadline_def session_SetReadDeadline_def session_SetWriteDeadline_def
        SetDUP_def notifyReadEvent_def notifyWriteEvent_def)
qed

subsection \<open>The environment\<close>

text \<open>
  What the packages document: the ciphers and the Reed-Solomon code behave, the sources of
  randomness deliver what they are asked for, and AES takes keys of 16 bytes.
\<close>

definition env_ok :: "hub_env \<Rightarrow> bool" where
  "env_ok e \<longleftrightarrow> ciphers_ok (he_libs e) \<and> rs_sized (he_New e)
     \<and> (\<forall>i. io_ok (he_io e i) \<and> io_libs (he_io e i) = he_libs e \<and> length (he_key e i) = 16 \<and> length (he_seed e i) = 16)
     \<and> (\<forall>k. length k = 16 \<longrightarrow> aes_NewCipher (he_libs e) k \<noteq> None)"

lemma env_okD:
  assumes "env_ok e"
  shows "ciphers_ok (he_libs e)" "rs_sized (he_New e)" "io_ok (he_io e i)" "io_libs (he_io e i) = he_libs e"
    "length (he_key e i) = 16" "length (he_seed e i) = 16" "aes_NewCipher (he_libs e) (he_key e i) \<noteq> None"
  using assms by (auto simp: env_ok_def)

text \<open>A new session of the listener.\<close>

lemma new_session_total:
  assumes "env_ok e" "block_fine blk"
  shows "\<exists>s w'. new_session (he_libs e) (he_New e) (he_key e i) (he_seed e i) conv d p client blk w = Some (s, w')
     \<and> session_ok s \<and> s_client s = client \<and> s_block s = blk \<and> \<not> s_isClosed s
     \<and> s_fecDecoder s = newFECDecoder (he_New e) (3 * (d + p)) d p"
proof -
  have "\<exists>s w'. new_session (he_libs e) (he_New e) (he_key e i) (he_seed e i) conv d p client blk w = Some (s, w')"
    using env_okD(7) [OF assms(1), of i] by (auto simp: new_session_def nonceAES128_Init_def Let_def)
  then obtain s w' where
    new: "new_session (he_libs e) (he_New e) (he_key e i) (he_seed e i) conv d p client blk w = Some (s, w')" by blast
  with created_session_ok [OF new env_okD(1,6) [OF assms(1)] assms(2) env_okD(2) [OF assms(1)]] new_session_sel [OF new]
  show ?thesis by auto
qed

subsection \<open>Runs\<close>

text \<open>
  The sessions handed out by \<open>AcceptKCP\<close> are recorded, and whether a session was closed that was
  closed already.
\<close>

record hub_run =
  ru_h :: hub
  ru_accepted :: "nat list"
  ru_twice :: bool

inductive hub_step :: "hub_env \<Rightarrow> hub_run \<Rightarrow> hub_run \<Rightarrow> bool" for e where
  arrive: "\<not> l_connClosed (hb_l (ru_h r)) \<Longrightarrow> length data \<le> 1500 \<Longrightarrow> monitor_packet e data addr (ru_h r) = Some h \<Longrightarrow>
     hub_step e r (r\<lparr>ru_h := h\<rparr>)"
| accepts: "AcceptKCP c rd now (hb_l (ru_h r)) = Some (res, l) \<Longrightarrow>
     hub_step e r (r\<lparr>ru_h := (ru_h r)\<lparr>hb_l := l\<rparr>, ru_accepted := ru_accepted r @ (case res of Inr i \<Rightarrow> [i] | Inl _ \<Rightarrow> [])\<rparr>)"
| closes: "hub_pool (ru_h r) = Some (ss, w) \<Longrightarrow> i < length ss \<Longrightarrow> session_Close i (ru_h r) = Some (res, h) \<Longrightarrow>
     hub_step e r (r\<lparr>ru_h := h, ru_twice := ru_twice r \<or> s_isClosed (snd (ss ! i))\<rparr>)"
| reads: "hub_pool (ru_h r) = Some (ss, w) \<Longrightarrow> i < length ss \<Longrightarrow> Read_pass n now (snd (ss ! i)) w = Some (res, s, w') \<Longrightarrow>
     hub_step e r (r\<lparr>ru_h := set_pool (ss[i := (fst (ss ! i), s)], w') (ru_h r)\<rparr>)"
| writes: "hub_pool (ru_h r) = Some (ss, w) \<Longrightarrow> i < length ss \<Longrightarrow>
     Write_pass (he_io e i) (he_clk e) v now (snd (ss ! i)) w = Some (res, s, w') \<Longrightarrow>
     hub_step e r (r\<lparr>ru_h := set_pool (ss[i := (fst (ss ! i), s)], w') (ru_h r)\<rparr>)"
| tunes: "hub_pool (ru_h r) = Some (ss, w) \<Longrightarrow> i < length ss \<Longrightarrow> tunes (snd (ss ! i)) s \<Longrightarrow>
     hub_step e r (r\<lparr>ru_h := set_pool (ss[i := (fst (ss ! i), s)], w) (ru_h r)\<rparr>)"
| listener_closes: "Listener_Close (hb_l (ru_h r)) = Some l \<Longrightarrow> hub_step e r (r\<lparr>ru_h := (ru_h r)\<lparr>hb_l := l\<rparr>\<rparr>)"
| deadlines: "hub_step e r (r\<lparr>ru_h := (ru_h r)\<lparr>hb_l := Listener_SetDeadline t (hb_l (ru_h r))\<rparr>\<rparr>)"
| wait: "hub_step e r (r\<lparr>ru_h := (ru_h r)\<lparr>hb_sched := (hb_sched (ru_h r))\<lparr>sc_tick := sc_tick (hb_sched (ru_h r)) + 1\<rparr>\<rparr>\<rparr>)"
| woken: "st = hb_sched (ru_h r) \<Longrightarrow> chWakeUp (sc_heap st) \<Longrightarrow>
     hub_step e r (r\<lparr>ru_h := (ru_h r)\<lparr>hb_sched :=
       run_round (he_now e) (hub_update e) (st\<lparr>sc_heap := (sc_heap st)\<lparr>chWakeUp := False\<rparr>\<rparr>)\<rparr>\<rparr>)"
| fired: "st = hb_sched (ru_h r) \<Longrightarrow> sc_timer st = Some d \<Longrightarrow> d \<le> he_now e (sc_tick st) \<Longrightarrow>
     hub_step e r (r\<lparr>ru_h := (ru_h r)\<lparr>hb_sched := run_round (he_now e) (hub_update e) (st\<lparr>sc_timer := None\<rparr>)\<rparr>\<rparr>)"

definition hub_start :: "hub_env \<Rightarrow> BlockCrypt option \<Rightarrow> int \<Rightarrow> int \<Rightarrow> world \<Rightarrow> hub_run" where
  "hub_start e blk d p w = \<lparr>ru_h = \<lparr>hb_l = ServeConn (he_New e) blk d p, hb_sched = scheduler_start (he_now e) (Some ([], w))\<rparr>,
     ru_accepted = [], ru_twice = False\<rparr>"

inductive hub_reachable :: "hub_env \<Rightarrow> hub_run \<Rightarrow> hub_run \<Rightarrow> bool" for e r0 where
  start: "hub_reachable e r0 r0"
| step: "hub_reachable e r0 r \<Longrightarrow> hub_step e r r' \<Longrightarrow> hub_reachable e r0 r'"

subsection \<open>The invariant\<close>

definition entry_ok :: "listener \<Rightarrow> session \<Rightarrow> bool" where
  "entry_ok l s \<longleftrightarrow> session_ok s \<and> \<not> s_client s \<and> s_block s = l_block l
     \<and> (s_fecDecoder s = None \<longleftrightarrow> l_fecDecoder l = None)"

lemma stays_entry: "entry_ok l s \<Longrightarrow> stays s s' \<Longrightarrow> entry_ok l s'"
  by (simp add: entry_ok_def stays_def)

definition listener_ok :: "hub_env \<Rightarrow> listener \<Rightarrow> bool" where
  "listener_ok e l \<longleftrightarrow> block_fine (l_block l)
     \<and> l_headerSize l = crypt_room (l_block l) + (if l_fecDecoder l = None then 0 else 8)
     \<and> l_fecDecoder l = newFECDecoder (he_New e) (3 * (l_dataShards l + l_parityShards l)) (l_dataShards l) (l_parityShards l)
     \<and> (l_connClosed l \<longleftrightarrow> l_die l)"

text \<open>The sessions, the updater, and the listener's directory and queue.\<close>

definition pool_ok :: "listener \<Rightarrow> (string \<times> session) list \<Rightarrow> bool" where
  "pool_ok l ss \<longleftrightarrow> (\<forall>x \<in> set ss. entry_ok l (snd x))"

definition updater_ok :: "'w scheduler \<Rightarrow> (string \<times> session) list \<Rightarrow> bool" where
  "updater_ok st ss \<longleftrightarrow> sched_ok st \<and> sc_added st = {..<length ss}
     \<and> (\<forall>i < length ss. i \<in> dom (deadline (sc_heap st)) \<longleftrightarrow> \<not> s_isClosed (snd (ss ! i)))"

definition directory_ok :: "listener \<Rightarrow> (string \<times> session) list \<Rightarrow> bool" where
  "directory_ok l ss \<longleftrightarrow>
     (\<forall>a i. l_sessions l a = Some i \<longrightarrow> i < length ss \<and> fst (ss ! i) = a \<and> \<not> s_isClosed (snd (ss ! i)))"

definition routed :: "listener \<Rightarrow> (string \<times> session) list \<Rightarrow> bool" where
  "routed l ss \<longleftrightarrow> (\<forall>i < length ss. \<not> s_isClosed (snd (ss ! i)) \<longrightarrow> l_sessions l (fst (ss ! i)) = Some i)"

definition run_inv :: "hub_env \<Rightarrow> hub_run \<Rightarrow> bool" where
  "run_inv e r \<longleftrightarrow> (\<exists>ss w. hub_pool (ru_h r) = Some (ss, w) \<and> listener_ok e (hb_l (ru_h r)) \<and> pool_ok (hb_l (ru_h r)) ss
     \<and> updater_ok (hb_sched (ru_h r)) ss \<and> directory_ok (hb_l (ru_h r)) ss
     \<and> (\<not> ru_twice r \<longrightarrow> routed (hb_l (ru_h r)) ss)
     \<and> ru_accepted r @ l_chAccepts (hb_l (ru_h r)) = [0..<length ss] \<and> length (l_chAccepts (hb_l (ru_h r))) \<le> acceptBacklog)"

lemma pool_okD: "pool_ok l ss \<Longrightarrow> i < length ss \<Longrightarrow> entry_ok l (snd (ss ! i))"
  by (simp add: pool_ok_def)

text \<open>Sessions may move on without closing; then nothing of this is lost.\<close>

definition same_pool :: "(string \<times> session) list \<Rightarrow> (string \<times> session) list \<Rightarrow> bool" where
  "same_pool ss ss' \<longleftrightarrow> length ss' = length ss
     \<and> (\<forall>i < length ss. fst (ss' ! i) = fst (ss ! i) \<and> stays (snd (ss ! i)) (snd (ss' ! i)))"

lemma same_pool_refl: "pool_ok l ss \<Longrightarrow> same_pool ss ss"
  by (auto simp: same_pool_def pool_ok_def entry_ok_def stays_def)

lemma same_pool_trans: "same_pool a b \<Longrightarrow> same_pool b c \<Longrightarrow> same_pool a c"
  by (auto simp: same_pool_def intro: stays_trans)

lemma same_pool_update:
  assumes "pool_ok l ss" "i < length ss \<longrightarrow> stays (snd (ss ! i)) s"
  shows "same_pool ss (ss[i := (fst (ss ! i), s)])"
  using assms(2) same_pool_refl [OF assms(1)] by (cases "i < length ss") (auto simp: same_pool_def nth_list_update)

lemma same_pool_closed:
  "same_pool ss ss' \<Longrightarrow> i < length ss \<Longrightarrow> s_isClosed (snd (ss' ! i)) = s_isClosed (snd (ss ! i))"
  by (simp add: same_pool_def stays_def)

lemma same_pool_keeps:
  assumes "same_pool ss ss'"
  shows "pool_ok l ss \<Longrightarrow> pool_ok l ss'" "updater_ok st ss \<Longrightarrow> updater_ok st ss'"
    "directory_ok l ss \<Longrightarrow> directory_ok l ss'" "routed l ss \<Longrightarrow> routed l ss'"
proof -
  have len: "length ss' = length ss" and entry: "i < length ss \<Longrightarrow> fst (ss' ! i) = fst (ss ! i)"
    "i < length ss \<Longrightarrow> stays (snd (ss ! i)) (snd (ss' ! i))" for i
    using assms by (simp_all add: same_pool_def)
  note closed = same_pool_closed [OF assms]
  show "pool_ok l ss'" if "pool_ok l ss"
  proof -
    have "entry_ok l (snd (ss' ! i))" if "i < length ss" for i
      using stays_entry [OF _ entry(2) [OF that]] \<open>pool_ok l ss\<close> that by (simp add: pool_ok_def)
    then show ?thesis using len unfolding pool_ok_def by (metis in_set_conv_nth)
  qed
  show "updater_ok st ss \<Longrightarrow> updater_ok st ss'" using len closed by (simp add: updater_ok_def)
  show "directory_ok l ss \<Longrightarrow> directory_ok l ss'" using len closed entry(1) unfolding directory_ok_def by metis
  show "routed l ss \<Longrightarrow> routed l ss'" using len closed entry(1) by (simp add: routed_def)
qed

text \<open>The invariant looks at the scheduler through \<^const>\<open>updater_ok\<close> only, which ignores its environment.\<close>

lemma updater_ok_world [simp]: "updater_ok (st\<lparr>sc_world := x\<rparr>) ss = updater_ok st ss"
  by (simp add: updater_ok_def sched_ok_def armed_def)

lemma updater_ok_tick [simp]: "updater_ok (st\<lparr>sc_tick := t\<rparr>) ss = updater_ok st ss"
  by (simp add: updater_ok_def sched_ok_def armed_def)

lemma set_pool_sel [simp]:
  "hub_pool (set_pool p h) = Some p" "hb_l (set_pool p h) = hb_l h"
  "hb_sched (set_pool p h) = (hb_sched h)\<lparr>sc_world := Some p\<rparr>"
  by (simp_all add: hub_pool_def set_pool_def)

lemma inv_pool:
  assumes "run_inv e r" "hub_pool (ru_h r) = Some (ss, w)" "same_pool ss ss'"
  shows "run_inv e (r\<lparr>ru_h := set_pool (ss', w') (ru_h r)\<rparr>)"
  using assms(1,2) same_pool_keeps [OF assms(3)] assms(3) by (auto simp: run_inv_def same_pool_def)

subsection \<open>Packets\<close>

lemma conv_total:
  assumes "(if l_fecDecoder l = None then 0 else 8) + 24 \<le> length data"
  shows "packet_conv l data \<noteq> None"
proof -
  have "24 \<le> length data" using assms by (simp split: if_splits)
  moreover from this obtain a where "get_le32 data = Some a" using get_le32_None [of data] by fastforce
  moreover obtain b where "get_le16 (drop 4 data) = Some b" using get_le16_None [of "drop 4 data"] calculation(1) by fastforce
  moreover obtain c where "get_le32 (drop 8 data) = Some c" using get_le32_None [of "drop 8 data"] calculation(1) by fastforce
  ultimately show ?thesis by (simp add: packet_conv_def sl_def fecHeaderSizePlus2_def)
qed

lemma accept_ok:
  assumes "env_ok e" "hub_pool h = Some (ss, w)" "listener_ok e (hb_l h)"
    "(if l_fecDecoder (hb_l h) = None then 0 else 8) \<le> length data" "length data \<le> 1500"
  shows "\<exists>s w' h'. accept_new e conv data addr h = Some h' \<and> h' = set_pool (ss @ [(addr, s)], w')
      (h\<lparr>hb_sched := register (he_now e) (length ss) (hb_sched h),
         hb_l := (hb_l h)\<lparr>l_sessions := (l_sessions (hb_l h))(addr \<mapsto> length ss), l_chAccepts := l_chAccepts (hb_l h) @ [length ss]\<rparr>\<rparr>)
    \<and> entry_ok (hb_l h) s \<and> \<not> s_isClosed s"
proof -
  let ?l = "hb_l h"
  have blk: "block_fine (l_block ?l)" using assms(3) by (simp add: listener_ok_def)
  from new_session_total [OF assms(1) this] obtain s0 w0 where
    n: "new_session (he_libs e) (he_New e) (he_key e (length ss)) (he_seed e (length ss)) conv (l_dataShards ?l)
        (l_parityShards ?l) False (l_block ?l) w = Some (s0, w0)"
      "session_ok s0" "\<not> s_client s0" "s_block s0 = l_block ?l" "\<not> s_isClosed s0" "s_fecDecoder s0 = l_fecDecoder ?l"
    using assms(3) unfolding listener_ok_def by (metis (no_types, lifting))
  have "s_fecDecoder s0 \<noteq> None \<longrightarrow> 8 \<le> length data" using n(6) assms(4) by auto
  from input_stays [OF n(2) env_okD(3) [OF assms(1)] this assms(5), of "length ss" "he_clk e" w0] obtain s1 w1 where
    k: "kcpInput (he_io e (length ss)) (he_clk e) data s0 w0 = Some (s1, w1)" "stays s0 s1" by blast
  have "entry_ok ?l s1" "\<not> s_isClosed s1" using k(2) n by (auto simp: stays_def entry_ok_def)
  then show ?thesis using assms(2) n(1) k(1) by (auto simp: accept_new_def Let_def)
qed

text \<open>
  A session has consumed its first packet when it is accepted, but it has nothing to send yet, so the
  settings of the server apply to it as to a new one.
\<close>

definition unsent :: "session \<Rightarrow> bool" where
  "unsent s \<longleftrightarrow> session_ok s \<and> snd_buf (us_kcp s) = [] \<and> snd_queue (us_kcp s) = []"

lemma unsent_Input:
  assumes "unsent s" "io_ok io" "length data \<le> 1500" "session_Input io clk data reg s w = Some (r, s', w')"
  shows "unsent s'"
proof -
  have ok: "session_ok s" "kcp_ok (us_kcp s)" using assms(1) by (simp_all add: unsent_def session_ok_def)
  from kcp_call_ok [OF ok(1) assms(2) safe_Input [OF ok(2) assms(3)], of clk reg "us_ackNoDelay s" w] assms(4) obtain w1 where
    c: "session_ok s'" "Input clk data reg (us_ackNoDelay s) (us_kcp s) w = Some (r, us_kcp s', w1)"
    by (auto simp: session_Input_def)
  from Input_kcp_ok [OF ok(2), of data clk reg "us_ackNoDelay s" w] assms(3) c(2) have "input_send (us_kcp s) (us_kcp s')" by simp
  with assms(1) have "snd_queue (us_kcp s') = []" "acked_from [] (snd_buf (us_kcp s'))"
    by (simp_all add: input_send_def unsent_def)
  moreover from this(2) have "snd_buf (us_kcp s') = []"
    unfolding acked_from_def by (cases "snd_buf (us_kcp s')") auto
  ultimately show ?thesis using c(1) by (simp add: unsent_def)
qed

lemma unsent_kcpInput:
  assumes "unsent s" "io_ok io" "length data \<le> 1500" "s_fecDecoder s \<noteq> None \<longrightarrow> 8 \<le> length data"
    "kcpInput io clk data s w = Some (s', w')"
  shows "unsent s'"
proof (rule kcpInput_rule [OF assms(5), where Q = "\<lambda>p. length p \<le> 1500" and P = "\<lambda>s w. unsent s"])
  show "unsent s" by (rule assms(1))
  show "\<And>p reg s w r s' w'. length p \<le> 1500 \<Longrightarrow> unsent s \<Longrightarrow> session_Input io clk p reg s w = Some (r, s', w') \<Longrightarrow> unsent s'"
    using unsent_Input [OF _ assms(2)] by blast
  fix dec rs dec' short
  assume d: "s_fecDecoder s = Some dec" "fec_decode data dec = Some (rs, dec', short)"
  have ok: "session_ok s" using assms(1) by (simp add: unsent_def)
  then have "dec_fine dec" using d(1) by (simp add: session_ok_def)
  from fec_decode_fine [OF this, of data] assms(3,4) d have f: "dec_fine dec'" "\<forall>r \<in> set rs. length r \<le> 1494" by auto
  have "length p \<le> 1500" if "r \<in> set rs" "recovered_payload r = Some p" for r p
    using recovered_payload_length [OF that(2)] f(2) that(1) by fastforce
  then show "(\<forall>w. unsent s \<longrightarrow> unsent (s\<lparr>s_fecDecoder := Some dec'\<rparr>))
      \<and> (\<forall>r \<in> set rs. \<forall>p. recovered_payload r = Some p \<longrightarrow> length p \<le> 1500)"
    using session_ok_decoder [OF ok d(1) f(1)] by (simp add: unsent_def)
qed (use assms(3) in \<open>simp_all add: unsent_def\<close>)

lemma accepted_unsent:
  assumes "env_ok e" "hub_pool h = Some (ss, w)" "listener_ok e (hb_l h)"
    "(if l_fecDecoder (hb_l h) = None then 0 else 8) \<le> length data" "length data \<le> 1500"
    "accept_new e conv data addr h = Some h'"
  shows "\<exists>s w'. hub_pool h' = Some (ss @ [(addr, s)], w') \<and> unsent s"
proof -
  let ?l = "hb_l h"
  have blk: "block_fine (l_block ?l)" using assms(3) by (simp add: listener_ok_def)
  from assms(2,6) obtain s0 w0 s w' where
    n: "new_session (he_libs e) (he_New e) (he_key e (length ss)) (he_seed e (length ss)) conv (l_dataShards ?l)
        (l_parityShards ?l) False (l_block ?l) w = Some (s0, w0)"
      "kcpInput (he_io e (length ss)) (he_clk e) data s0 w0 = Some (s, w')" "hub_pool h' = Some (ss @ [(addr, s)], w')"
    by (auto simp: accept_new_def Let_def split: Option.bind_splits)
  note sel = new_session_sel [OF n(1)]
  have ok: "session_ok s0" using created_session_ok [OF n(1) env_okD(1,6) [OF assms(1)] blk env_okD(2) [OF assms(1)]] .
  have "s_headerSize s0 \<le> 28" unfolding sel(9) by (rule header_le)
  then have "unsent s0" using ok new_session_ok(3,4) [of "int (s_headerSize s0)" conv] by (simp add: unsent_def sel(1))
  moreover have "s_fecDecoder s0 = l_fecDecoder ?l" using sel(11) assms(3) by (simp add: listener_ok_def)
  ultimately have "unsent s"
    using unsent_kcpInput [OF _ env_okD(3) [OF assms(1)] assms(5) _ n(2)] assms(4) by (auto split: if_splits)
  with n(3) show ?thesis by blast
qed

lemma unsent_configured:
  assumes "unsent s"
    and "session_ready (int (s_headerSize s)) (ks_NoDelay c) (ks_Interval c) (ks_Resend c) (ks_NoCongestion c) (ks_SndWnd c) (ks_MTU c)"
  shows "configured (ks_NoDelay c) (ks_Interval c) (ks_Resend c) (ks_NoCongestion c) (ks_SndWnd c) (ks_MTU c)
      (us_kcp (with_settings (server_configure c) s))" "setting\<^sup>*\<^sup>* s (with_settings (server_configure c) s)"
proof -
  let ?u = "\<lparr>us_kcp = us_kcp s, us_ackNoDelay = us_ackNoDelay s, us_writeDelay = us_writeDelay s\<rparr>"
  have s: "kcp_ok (us_kcp s)" "snd_buf (us_kcp s) = []" "snd_queue (us_kcp s) = []" "reserved (us_kcp s) = s_headerSize s"
    using assms(1) by (simp_all add: unsent_def session_ok_def)
  show "configured (ks_NoDelay c) (ks_Interval c) (ks_Resend c) (ks_NoCongestion c) (ks_SndWnd c) (ks_MTU c)
      (us_kcp (with_settings (server_configure c) s))"
    using settings_configure(2) [of ?u "int (s_headerSize s)"] s assms(2) by (simp add: with_settings_def Let_def)
  show "setting\<^sup>*\<^sup>* s (with_settings (server_configure c) s)" by (rule server_settings [OF s(2-4) assms(2)])
qed

lemma set_pool_same: "hub_pool h = Some p \<Longrightarrow> set_pool p h = h"
  by (cases h; cases "hb_sched h") (simp add: hub_pool_def set_pool_def)

text \<open>
  A packet is dropped or goes to the session of its address, or it opens a new session at the end
  of the list, of the directory and of the queue.
\<close>

definition opens :: "hub_env \<Rightarrow> string \<Rightarrow> hub \<Rightarrow> hub \<Rightarrow> bool" where
  "opens e addr h h' \<longleftrightarrow> l_sessions (hb_l h) addr = None \<and> length (l_chAccepts (hb_l h)) < acceptBacklog
     \<and> (\<exists>ss w s w'. hub_pool h = Some (ss, w) \<and> entry_ok (hb_l h) s \<and> \<not> s_isClosed s \<and> h' = set_pool (ss @ [(addr, s)], w')
      (h\<lparr>hb_sched := register (he_now e) (length ss) (hb_sched h),
         hb_l := (hb_l h)\<lparr>l_sessions := (l_sessions (hb_l h))(addr \<mapsto> length ss), l_chAccepts := l_chAccepts (hb_l h) @ [length ss]\<rparr>\<rparr>))"

definition delivers :: "string \<Rightarrow> hub \<Rightarrow> hub \<Rightarrow> bool" where
  "delivers addr h h' \<longleftrightarrow> (\<exists>ss w ss' w'. hub_pool h = Some (ss, w) \<and> h' = set_pool (ss', w') h \<and> same_pool ss ss'
     \<and> (\<forall>j < length ss. l_sessions (hb_l h) addr \<noteq> Some j \<longrightarrow> ss' ! j = ss ! j))"

lemma delivers_same:
  assumes "hub_pool h = Some (ss, w)" "pool_ok (hb_l h) ss"
  shows "delivers addr h (set_pool (ss, w') h)"
  unfolding delivers_def
  by (intro exI [of _ ss] exI [of _ w] exI [of _ w'] conjI) (use assms same_pool_refl in auto)

lemma delivers_nothing: "hub_pool h = Some (ss, w) \<Longrightarrow> pool_ok (hb_l h) ss \<Longrightarrow> delivers addr h h"
  using delivers_same [of h ss w addr w] set_pool_same by simp

lemma delivers_one:
  assumes "hub_pool h = Some (ss, w)" "pool_ok (hb_l h) ss" "l_sessions (hb_l h) addr = Some i" "stays (snd (ss ! i)) s"
  shows "delivers addr h (set_pool (ss[i := (fst (ss ! i), s)], w') h)"
  unfolding delivers_def
  by (intro exI [of _ ss] exI [of _ w] exI [of _ "ss[i := (fst (ss ! i), s)]"] exI [of _ w'] conjI)
    (use assms same_pool_update in auto)

lemma input_ok:
  assumes "env_ok e" "listener_ok e (hb_l h)" "hub_pool h = Some (ss, w)" "pool_ok (hb_l h) ss" "directory_ok (hb_l h) ss"
    and len: "l_headerSize (hb_l h) + IKCP_OVERHEAD \<le> length data" "length data \<le> 1500"
  shows "\<exists>h'. Listener_packetInput e data addr h = Some h' \<and> (delivers addr h h' \<or> opens e addr h h')"
proof -
  let ?l = "hb_l h"
  have L: "block_fine (l_block ?l)" "l_headerSize ?l = crypt_room (l_block ?l) + (if l_fecDecoder ?l = None then 0 else 8)"
    using assms(2) by (simp_all add: listener_ok_def)
  then have "crypt_room (l_block ?l) \<le> length data" using len(1) by simp
  from open_packet_ok [OF env_okD(3) [OF assms(1)] L(1) this] obtain r where
    r: "open_packet (he_libs e) (l_block ?l) data = Some r"
      "\<forall>body. r = Some body \<longrightarrow> length body = length data - crypt_room (l_block ?l)"
    unfolding env_okD(4) [OF assms(1)] by blast
  show ?thesis
  proof (cases r)
    case None
    then show ?thesis using r(1) assms(3) delivers_same [OF assms(3,4)] by (simp add: Listener_packetInput_def)
  next
    case (Some body)
    have body: "(if l_fecDecoder ?l = None then 0 else 8) + 24 \<le> length body" "length body \<le> 1500"
      using r(2) Some L(2) len by simp_all
    show ?thesis
    proof (cases "l_sessions ?l addr")
      case (Some i)
      then have i: "i < length ss" "entry_ok ?l (snd (ss ! i))"
        using assms(4,5) by (auto simp: directory_ok_def pool_ok_def)
      then have "s_fecDecoder (snd (ss ! i)) \<noteq> None \<longrightarrow> 8 \<le> length body" "session_ok (snd (ss ! i))"
        using body(1) by (auto simp: entry_ok_def)
      from input_stays [OF this(2) env_okD(3) [OF assms(1)] this(1) body(2), of i "he_clk e" w] obtain s' w' where
        k: "kcpInput (he_io e i) (he_clk e) body (snd (ss ! i)) w = Some (s', w')" "stays (snd (ss ! i)) s'" by blast
      then show ?thesis using r(1) \<open>r = Some body\<close> Some assms(3) delivers_one [OF assms(3,4) Some k(2)]
        by (simp add: Listener_packetInput_def)
    next
      case None
      show ?thesis
      proof (cases "length (l_chAccepts ?l) < acceptBacklog")
        case False
        then show ?thesis using r(1) \<open>r = Some body\<close> None assms(3) delivers_nothing [OF assms(3,4)]
          by (simp add: Listener_packetInput_def)
      next
        case True
        obtain c where c: "packet_conv ?l body = Some c" using conv_total [OF body(1)] by blast
        show ?thesis
        proof (cases c)
          case None
          then show ?thesis using r(1) \<open>r = Some body\<close> \<open>l_sessions ?l addr = None\<close> True c assms(3) delivers_nothing [OF assms(3,4)]
            by (simp add: Listener_packetInput_def)
        next
          case (Some conv)
          have "(if l_fecDecoder ?l = None then 0 else 8) \<le> length body" using body(1) by simp
          from accept_ok [OF assms(1,3,2) this body(2), of conv addr] obtain h' where
            "accept_new e conv body addr h = Some h'" "opens e addr h h'"
            using True \<open>l_sessions ?l addr = None\<close> assms(3) unfolding opens_def by blast
          then show ?thesis using r(1) \<open>r = Some body\<close> \<open>l_sessions ?l addr = None\<close> True c Some assms(3)
            by (simp add: Listener_packetInput_def)
        qed
      qed
    qed
  qed
qed

lemma monitor_ok:
  assumes "env_ok e" "run_inv e r" "length data \<le> 1500"
  shows "\<exists>h'. monitor_packet e data addr (ru_h r) = Some h' \<and> (delivers addr (ru_h r) h' \<or> opens e addr (ru_h r) h')"
proof -
  from assms(2) obtain ss w where s: "hub_pool (ru_h r) = Some (ss, w)" "listener_ok e (hb_l (ru_h r))"
    "pool_ok (hb_l (ru_h r)) ss" "directory_ok (hb_l (ru_h r)) ss" by (auto simp: run_inv_def)
  show ?thesis
  proof (cases "l_headerSize (hb_l (ru_h r)) + IKCP_OVERHEAD \<le> length data")
    case True
    then show ?thesis using input_ok [OF assms(1) s(2,1,3,4) True assms(3), of addr] by (simp add: monitor_packet_def)
  next
    case False
    then show ?thesis using s(1) delivers_same [OF s(1,3)] by (simp add: monitor_packet_def)
  qed
qed

lemma updater_ok_register:
  assumes "updater_ok st ss" "\<not> s_isClosed s"
  shows "updater_ok (register now (length ss) st) (ss @ [(addr, s)])"
proof -
  have st: "sched_ok st" "sc_added st = {..<length ss}" using assms(1) by (simp_all add: updater_ok_def)
  then have new: "length ss \<notin> sc_added st" by simp
  have "sched_step now (\<lambda>_ w. (1, w)) st (register now (length ss) st)"
    unfolding register_def by (rule sched_step.add [OF new])
  from sched_step_ok [OF st(1) this] have ok: "sched_ok (register now (length ss) st)" by simp
  have "uh_ok (sc_heap st)" "length ss \<notin> dom (deadline (sc_heap st))" using st new by (auto simp: sched_ok_def)
  note d = addSession_ok(2) [OF this]
  have "i \<in> dom (deadline (sc_heap (register now (length ss) st))) \<longleftrightarrow> \<not> s_isClosed (snd ((ss @ [(addr, s)]) ! i))"
    if "i < length (ss @ [(addr, s)])" for i
    using that assms d by (auto simp: register_def updater_ok_def nth_append less_Suc_eq)
  with ok st(2) show ?thesis by (auto simp: updater_ok_def register_def)
qed

lemma opens_inv:
  assumes "run_inv e r" "opens e addr (ru_h r) h'"
  shows "run_inv e (r\<lparr>ru_h := h'\<rparr>)"
proof -
  let ?l = "hb_l (ru_h r)"
  from assms(1) obtain ss w where s: "hub_pool (ru_h r) = Some (ss, w)" "listener_ok e ?l" "pool_ok ?l ss"
    "updater_ok (hb_sched (ru_h r)) ss" "directory_ok ?l ss" "\<not> ru_twice r \<longrightarrow> routed ?l ss"
    "ru_accepted r @ l_chAccepts ?l = [0..<length ss]" by (auto simp: run_inv_def)
  from assms(2) s(1) obtain s0 w' where n: "l_sessions ?l addr = None" "length (l_chAccepts ?l) < acceptBacklog" "entry_ok ?l s0"
    "\<not> s_isClosed s0" and h': "h' = set_pool (ss @ [(addr, s0)], w')
      ((ru_h r)\<lparr>hb_sched := register (he_now e) (length ss) (hb_sched (ru_h r)),
         hb_l := ?l\<lparr>l_sessions := (l_sessions ?l)(addr \<mapsto> length ss), l_chAccepts := l_chAccepts ?l @ [length ss]\<rparr>\<rparr>)"
    by (auto simp: opens_def)
  let ?l' = "?l\<lparr>l_sessions := (l_sessions ?l)(addr \<mapsto> length ss), l_chAccepts := l_chAccepts ?l @ [length ss]\<rparr>"
  have "listener_ok e ?l'" using s(2) by (simp add: listener_ok_def)
  moreover have "pool_ok ?l' (ss @ [(addr, s0)])" using s(3) n(3) by (auto simp: pool_ok_def entry_ok_def)
  moreover have "directory_ok ?l' (ss @ [(addr, s0)])"
    using s(5) n(4) unfolding directory_ok_def by (auto simp: nth_append split: if_splits dest: less_SucI)
  moreover have "routed ?l' (ss @ [(addr, s0)])" if "routed ?l ss"
    using that n(1) by (auto simp: routed_def nth_append less_Suc_eq)
  moreover have "ru_accepted r @ l_chAccepts ?l' = [0..<length (ss @ [(addr, s0)])]" using s(7) by simp
  ultimately show ?thesis
    using updater_ok_register [OF s(4) n(4), of "he_now e" addr] s(6) n(2) by (simp add: run_inv_def h')
qed

subsection \<open>Closing\<close>

lemma close_ok:
  assumes "run_inv e r" "hub_pool (ru_h r) = Some (ss, w)" "i < length ss"
  shows "\<exists>up w'. session_Close i (ru_h r) = Some (if s_isClosed (snd (ss ! i)) then Inl errBrokenPipe else Inr False,
      set_pool (ss[i := (fst (ss ! i), (snd (ss ! i))\<lparr>s_isClosed := True\<rparr>)], w')
        ((ru_h r)\<lparr>hb_sched := (hb_sched (ru_h r))\<lparr>sc_heap := up\<rparr>,
           hb_l := (hb_l (ru_h r))\<lparr>l_sessions := (l_sessions (hb_l (ru_h r)))(fst (ss ! i) := None)\<rparr>\<rparr>))
    \<and> deadline up = (deadline (sc_heap (hb_sched (ru_h r))))(i := None)
    \<and> sched_ok ((hb_sched (ru_h r))\<lparr>sc_heap := up\<rparr>)"
proof -
  let ?st = "hb_sched (ru_h r)"
  obtain a s where x: "ss ! i = (a, s)" by fastforce
  from assms(1,2) have u: "sched_ok ?st" "sc_added ?st = {..<length ss}" "pool_ok (hb_l (ru_h r)) ss"
    by (auto simp: run_inv_def updater_ok_def)
  then have i: "i \<in> sc_added ?st" "\<not> s_client s" using pool_okD [OF u(3) assms(3)] u(2) assms(3) x by (auto simp: entry_ok_def)
  then have "uh_ok (sc_heap ?st)" "if i \<in> dom (deadline (sc_heap ?st)) then True else up_idx (sc_heap ?st) i = -1"
    using u(1) by (auto simp: sched_ok_def)
  from removeSession_ok [OF this] obtain up where
    up: "removeSession i (sc_heap ?st) = Some up" "deadline up = (deadline (sc_heap ?st))(i := None)" by blast
  have "sched_ok (?st\<lparr>sc_heap := up\<rparr>)"
    using sched_step_ok [OF u(1) sched_step.remove [OF i(1) up(1), where clk = "\<lambda>_. 0" and upd = "\<lambda>_ w. (1, w)"]] by simp
  moreover have "snd (closeSession a l) = l\<lparr>l_sessions := (l_sessions l)(a := None)\<rparr>" for l
    by (auto simp: closeSession_def fun_upd_idem split: option.splits)
  moreover have closed: "s_isClosed s \<Longrightarrow> s\<lparr>s_isClosed := True\<rparr> = s" by simp
  ultimately show ?thesis
    by (intro exI [of _ up] exI [of _ "if s_isClosed s then w else Snmp.count count_close w"])
      (use x up assms(2) i(2) in \<open>simp add: session_Close_def close_locked_def Let_def closed\<close>)
qed

lemma closes_inv:
  assumes "run_inv e r" "hub_pool (ru_h r) = Some (ss, w)" "i < length ss" "session_Close i (ru_h r) = Some (res, h)"
  shows "run_inv e (r\<lparr>ru_h := h, ru_twice := ru_twice r \<or> s_isClosed (snd (ss ! i))\<rparr>)"
proof -
  let ?l = "hb_l (ru_h r)" and ?st = "hb_sched (ru_h r)"
  obtain a s where x: "ss ! i = (a, s)" by fastforce
  from close_ok [OF assms(1-3)] assms(4) x obtain up w' where
    h: "h = set_pool (ss[i := (a, s\<lparr>s_isClosed := True\<rparr>)], w') ((ru_h r)\<lparr>hb_sched := ?st\<lparr>sc_heap := up\<rparr>,
           hb_l := ?l\<lparr>l_sessions := (l_sessions ?l)(a := None)\<rparr>\<rparr>)"
    and up: "deadline up = (deadline (sc_heap ?st))(i := None)" "sched_ok (?st\<lparr>sc_heap := up\<rparr>)" by auto
  let ?ss = "ss[i := (a, s\<lparr>s_isClosed := True\<rparr>)]" and ?l' = "?l\<lparr>l_sessions := (l_sessions ?l)(a := None)\<rparr>"
  from assms(1,2) have I: "listener_ok e ?l" "pool_ok ?l ss"
    "updater_ok ?st ss" "directory_ok ?l ss" "\<not> ru_twice r \<longrightarrow> routed ?l ss"
    "ru_accepted r @ l_chAccepts ?l = [0..<length ss]" "length (l_chAccepts ?l) \<le> acceptBacklog" by (auto simp: run_inv_def)
  have "listener_ok e ?l'" using I(1) by (simp add: listener_ok_def)
  moreover have "pool_ok ?l' ?ss"
  proof -
    have "entry_ok ?l s" using pool_okD [OF I(2) assms(3)] x by simp
    then show ?thesis using I(2) set_update_subset_insert [of ss i "(a, s\<lparr>s_isClosed := True\<rparr>)"]
      by (auto simp: pool_ok_def entry_ok_def)
  qed
  moreover have "updater_ok (?st\<lparr>sc_heap := up\<rparr>) ?ss"
  proof -
    have "j \<in> dom (deadline up) \<longleftrightarrow> \<not> s_isClosed (snd (?ss ! j))" if "j < length ss" for j
      using that I(3) up(1) by (cases "j = i") (auto simp: updater_ok_def domIff)
    then show ?thesis using I(3) up(2) by (simp add: updater_ok_def)
  qed
  moreover have "directory_ok ?l' ?ss"
  proof -
    have "j < length ss \<and> fst (?ss ! j) = b \<and> \<not> s_isClosed (snd (?ss ! j))"
      if "b \<noteq> a" "l_sessions ?l b = Some j" for b j
      using I(4) [unfolded directory_ok_def, rule_format, OF that(2)] that(1) x by (cases "j = i") auto
    then show ?thesis by (simp add: directory_ok_def)
  qed
  moreover have "routed ?l' ?ss" if "\<not> ru_twice r" "\<not> s_isClosed s"
  proof -
    have R: "routed ?l ss" using I(5) that(1) by simp
    then have at: "l_sessions ?l a = Some i" using that(2) x assms(3) by (auto simp: routed_def)
    have "l_sessions ?l' (fst (?ss ! j)) = Some j" if j: "j < length ss" "\<not> s_isClosed (snd (?ss ! j))" for j
    proof -
      have "j \<noteq> i" using j assms(3) by auto
      then have "l_sessions ?l (fst (ss ! j)) = Some j" using R j by (simp add: routed_def)
      moreover from this at \<open>j \<noteq> i\<close> have "fst (ss ! j) \<noteq> a" by auto
      ultimately show ?thesis using \<open>j \<noteq> i\<close> by simp
    qed
    then show ?thesis by (simp add: routed_def)
  qed
  ultimately show ?thesis using I(6,7) x by (simp add: run_inv_def h)
qed

subsection \<open>The update goroutine\<close>

lemma loop_world:
  assumes "update_loop clk (logging upd) i h t (log, w) = (h', t', log', w')" "uh_ok h" "i \<le> uh_Len h"
    and P: "P w" "\<And>s w. s \<in> dom (deadline h) \<Longrightarrow> P w \<Longrightarrow> P (snd (upd s w))"
  shows "P w'"
  using assms
proof (induction i arbitrary: h t log w)
  case 0
  then show ?case by simp
next
  case (Suc i)
  let ?s = "e_s (entries h ! 0)"
  have ne: "0 < uh_Len h" using Suc.prems(3) by simp
  show ?case
  proof (cases "e_ts (entries h ! 0) \<le> clk t")
    case False
    with Suc.prems(1,4) show ?thesis by (auto simp: update_loop_Suc simp del: update_loop.simps)
  next
    case True
    let ?d = "clk (t + 1) + fst (upd ?s w)"
    let ?h = "round_step h ?d"
    note r = round_step_ok [OF Suc.prems(2) ne, where t = ?d]
    have loop: "update_loop clk (logging upd) i ?h (t + 2) (log @ [?s], snd (upd ?s w)) = (h', t', log', w')"
      using Suc.prems(1) True by (simp add: update_loop_Suc Let_def del: update_loop.simps)
    have "?s \<in> dom (deadline h)" using ne by (simp add: dom_deadline uh_Len_def)
    moreover have "dom (deadline ?h) = dom (deadline h)" using r(6) by (simp add: dom_deadline)
    ultimately show ?thesis using Suc.IH [OF loop r(1)] Suc.prems(3-5) r(5) by simp
  qed
qed

lemma run_round_keeps:
  assumes "uh_ok (sc_heap st)"
  shows "dom (deadline (sc_heap (run_round clk upd st))) = dom (deadline (sc_heap st))"
    "P (sc_world st) \<Longrightarrow> (\<And>s w. s \<in> dom (deadline (sc_heap st)) \<Longrightarrow> P w \<Longrightarrow> P (snd (upd s w))) \<Longrightarrow>
       P (sc_world (run_round clk upd st))"
proof -
  obtain h t log w where
    r: "update_loop clk (logging upd) (uh_Len (sc_heap st)) (sc_heap st) (sc_tick st) (sc_log st, sc_world st) = (h, t, log, w)"
    by (metis prod.exhaust)
  then have eq: "sc_heap (run_round clk upd st) = h" "sc_world (run_round clk upd st) = w"
    by (simp_all add: run_round_def update_round_def)
  show "dom (deadline (sc_heap (run_round clk upd st))) = dom (deadline (sc_heap st))"
    using loop_keeps [OF r assms order_refl] eq by simp
  show "P (sc_world (run_round clk upd st))"
    if "P (sc_world st)" "\<And>s w. s \<in> dom (deadline (sc_heap st)) \<Longrightarrow> P w \<Longrightarrow> P (snd (upd s w))"
    using loop_world [OF r assms order_refl, of P] that eq by simp
qed

lemma hub_update_ok:
  assumes "env_ok e" "pool_ok l ss" "i < length ss"
  shows "\<exists>(itv :: u32) s w'. hub_update e i (Some (ss, w)) = (uint itv * 1000000, Some (ss[i := (fst (ss ! i), s)], w'))
     \<and> 0 < uint itv \<and> uint itv \<le> sint (interval (us_kcp (snd (ss ! i)))) \<and> same_pool ss (ss[i := (fst (ss ! i), s)])"
proof -
  have "session_ok (snd (ss ! i))" using assms(2,3) by (auto simp: pool_ok_def entry_ok_def)
  from session_update_ok [OF this env_okD(3) [OF assms(1)], of i "he_clk e" w] obtain itv s w' where
    u: "session_update (he_io e i) (he_clk e) (snd (ss ! i)) w = Some (itv, s, w')" "session_ok s" "carry (snd (ss ! i)) s"
      "0 < sint itv" "sint itv \<le> sint (interval (us_kcp (snd (ss ! i))))" by blast
  then have "uint itv = sint itv" by (simp add: sint_pos_uint)
  with u(4,5) have pos: "0 < uint itv" "uint itv \<le> sint (interval (us_kcp (snd (ss ! i))))" by simp_all
  show ?thesis
    by (intro exI [of _ itv] exI [of _ s] exI [of _ w'])
      (use u(1) pos same_pool_update [OF assms(2), of i s] carry_stays [OF u(3,2)] in \<open>simp add: hub_update_def\<close>)
qed

lemma round_inv:
  assumes "env_ok e" "run_inv e r" "hub_pool (ru_h r) = Some (ss, w)"
    and st: "sched_ok (st\<lparr>sc_heap := (sc_heap st)\<lparr>chWakeUp := True\<rparr>\<rparr>)" "sc_added st = sc_added (hb_sched (ru_h r))"
      "deadline (sc_heap st) = deadline (sc_heap (hb_sched (ru_h r)))" "sc_world st = sc_world (hb_sched (ru_h r))"
  shows "run_inv e (r\<lparr>ru_h := (ru_h r)\<lparr>hb_sched := run_round (he_now e) (hub_update e) st\<rparr>\<rparr>)"
proof -
  let ?st = "run_round (he_now e) (hub_update e) st"
  from assms(2,3) have I: "pool_ok (hb_l (ru_h r)) ss" "updater_ok (hb_sched (ru_h r)) ss" by (auto simp: run_inv_def)
  have uh: "uh_ok (sc_heap st)" using st(1) by (simp add: sched_ok_def uh_ok_def heap_ordered_def idx_ok_def uh_Len_def)
  define P where "P p \<longleftrightarrow> (\<exists>ss' w'. p = Some (ss', w') \<and> same_pool ss ss')" for p :: "pool option"
  have "P (sc_world ?st)"
  proof (rule run_round_keeps(2) [OF uh])
    show "P (sc_world st)" using st(4) assms(3) same_pool_refl [OF I(1)] by (simp add: P_def hub_pool_def)
    fix s p
    assume s: "s \<in> dom (deadline (sc_heap st))" and "P p"
    then obtain ss' w' where p: "p = Some (ss', w')" "same_pool ss ss'" by (auto simp: P_def)
    have "s < length ss" using s I(2) st(3) by (auto simp: updater_ok_def sched_ok_def)
    then have "s < length ss'" "pool_ok (hb_l (ru_h r)) ss'"
      using p(2) same_pool_keeps(1) [OF p(2) I(1)] by (simp_all add: same_pool_def)
    from hub_update_ok [OF assms(1) this(2,1), of w'] obtain itv :: u32 and ss2 w2 where
      "hub_update e s (Some (ss', w')) = (uint itv * 1000000, Some (ss2, w2))" "same_pool ss' ss2" by blast
    then have "snd (hub_update e s p) = Some (ss2, w2)" "same_pool ss ss2" using p same_pool_trans by simp_all
    then show "P (snd (hub_update e s p))" by (simp add: P_def)
  qed
  then obtain ss' w' where p: "sc_world ?st = Some (ss', w')" "same_pool ss ss'" by (auto simp: P_def)
  have "updater_ok ?st ss"
    using run_round_ok [OF st(1), of "he_now e" "hub_update e"] run_round_keeps(1) [OF uh] I(2) st(2,3)
    by (simp add: updater_ok_def)
  with p assms(2,3) same_pool_keeps [OF p(2)] show ?thesis
    by (auto simp: run_inv_def hub_pool_def same_pool_def)
qed

subsection \<open>Every step keeps the invariant\<close>

lemma delivers_inv:
  assumes "run_inv e r" "delivers addr (ru_h r) h"
  shows "run_inv e (r\<lparr>ru_h := h\<rparr>)"
  using assms inv_pool unfolding delivers_def by blast

lemma run_inv_sched:
  assumes "run_inv e r" "hub_pool (ru_h r) = Some (ss, w)"
  shows "sched_ok (hb_sched (ru_h r))" "sc_added (hb_sched (ru_h r)) = {..<length ss}" "pool_ok (hb_l (ru_h r)) ss"
  using assms by (auto simp: run_inv_def updater_ok_def)

lemma sched_ok_token:
  "sched_ok st \<Longrightarrow> sched_ok (st\<lparr>sc_heap := (sc_heap st)\<lparr>chWakeUp := True\<rparr>\<rparr>)"
  "sched_ok st \<Longrightarrow> sched_ok (st\<lparr>sc_timer := t, sc_heap := (sc_heap st)\<lparr>chWakeUp := True\<rparr>\<rparr>)"
  by (simp_all add: sched_ok_def uh_ok_def heap_ordered_def idx_ok_def uh_Len_def deadline_def)

text \<open>The invariant does not look at the rest of the listener.\<close>

lemma listener_fields [simp]:
  "pool_ok (l\<lparr>l_chAccepts := q\<rparr>) ss = pool_ok l ss" "pool_ok (l\<lparr>l_die := b\<rparr>) ss = pool_ok l ss"
  "pool_ok (l\<lparr>l_connClosed := c\<rparr>) ss = pool_ok l ss" "pool_ok (l\<lparr>l_rd := t\<rparr>) ss = pool_ok l ss"
  "pool_ok (l\<lparr>l_wd := t\<rparr>) ss = pool_ok l ss"
  "directory_ok (l\<lparr>l_chAccepts := q\<rparr>) ss = directory_ok l ss" "directory_ok (l\<lparr>l_die := b\<rparr>) ss = directory_ok l ss"
  "directory_ok (l\<lparr>l_connClosed := c\<rparr>) ss = directory_ok l ss" "directory_ok (l\<lparr>l_rd := t\<rparr>) ss = directory_ok l ss"
  "directory_ok (l\<lparr>l_wd := t\<rparr>) ss = directory_ok l ss"
  "routed (l\<lparr>l_chAccepts := q\<rparr>) ss = routed l ss" "routed (l\<lparr>l_die := b\<rparr>) ss = routed l ss"
  "routed (l\<lparr>l_connClosed := c\<rparr>) ss = routed l ss" "routed (l\<lparr>l_rd := t\<rparr>) ss = routed l ss"
  "routed (l\<lparr>l_wd := t\<rparr>) ss = routed l ss"
  "listener_ok e (l\<lparr>l_chAccepts := q\<rparr>) = listener_ok e l" "listener_ok e (l\<lparr>l_rd := t\<rparr>) = listener_ok e l"
  "listener_ok e (l\<lparr>l_wd := t\<rparr>) = listener_ok e l" "listener_ok e l \<Longrightarrow> listener_ok e (l\<lparr>l_die := b, l_connClosed := b\<rparr>)"
  by (simp_all add: pool_ok_def entry_ok_def directory_ok_def routed_def listener_ok_def)

lemma hub_pool_listener [simp]: "hub_pool (h\<lparr>hb_l := l\<rparr>) = hub_pool h"
  by (simp add: hub_pool_def)

lemma AcceptKCP_cases:
  assumes "AcceptKCP c rd now l = Some (res, l')"
  obtains x where "res = Inl x" "l' = l" | i js where "res = Inr i" "l_chAccepts l = i # js" "l' = l\<lparr>l_chAccepts := js\<rparr>"
proof (cases c)
  case AcceptTimeout
  then show ?thesis using assms by (intro that(1) [of errTimeout]) (simp_all add: AcceptKCP_def split: if_splits)
next
  case AcceptSession
  then show ?thesis using assms by (cases "l_chAccepts l") (auto simp: AcceptKCP_def intro: that(2))
next
  case AcceptDie
  then show ?thesis using assms by (intro that(1) [of errBrokenPipe]) (simp_all add: AcceptKCP_def split: if_splits)
qed

lemma hub_inv_step:
  assumes "hub_step e r r'" "run_inv e r" "env_ok e"
  shows "run_inv e r'"
  using assms
proof (cases rule: hub_step.cases)
  case (arrive data addr h)
  then show ?thesis using monitor_ok [OF assms(3,2) arrive(3), of addr] delivers_inv [OF assms(2)] opens_inv [OF assms(2)] by auto
next
  case (accepts c rd now res l)
  from accepts(2) show ?thesis
  proof (cases rule: AcceptKCP_cases)
    case 1
    then show ?thesis using assms(2) accepts(1) by simp
  next
    case (2 i js)
    then show ?thesis using assms(2) accepts(1) by (auto simp: run_inv_def)
  qed
next
  case (closes ss w i res h)
  then show ?thesis using closes_inv [OF assms(2)] by simp
next
  case (reads ss w i n now res s w')
  note pool = run_inv_sched(3) [OF assms(2) reads(2)]
  have "session_ok (snd (ss ! i))" using pool_okD [OF pool reads(3)] by (simp add: entry_ok_def)
  from read_stays [OF this, of n now w] reads(4) have "stays (snd (ss ! i)) s" by auto
  then show ?thesis unfolding reads(1) using inv_pool [OF assms(2) reads(2)] same_pool_update [OF pool] by blast
next
  case (writes ss w i v now res s w')
  note pool = run_inv_sched(3) [OF assms(2) writes(2)]
  have "session_ok (snd (ss ! i))" using pool_okD [OF pool writes(3)] by (simp add: entry_ok_def)
  from write_stays [OF this env_okD(3) [OF assms(3)], of i "he_clk e" v now w] writes(4) have "stays (snd (ss ! i)) s" by auto
  then show ?thesis unfolding writes(1) using inv_pool [OF assms(2) writes(2)] same_pool_update [OF pool] by blast
next
  case (tunes ss w i s)
  note pool = run_inv_sched(3) [OF assms(2) tunes(2)]
  have "session_ok (snd (ss ! i))" using pool_okD [OF pool tunes(3)] by (simp add: entry_ok_def)
  from tunes_stays [OF this tunes(4)] have "stays (snd (ss ! i)) s" .
  then show ?thesis unfolding tunes(1) using inv_pool [OF assms(2) tunes(2)] same_pool_update [OF pool] by blast
next
  case (listener_closes l)
  then have "l = (hb_l (ru_h r))\<lparr>l_die := True, l_connClosed := True\<rparr>" by (simp add: Listener_Close_def split: if_splits)
  then show ?thesis using assms(2) listener_closes(1) by (auto simp: run_inv_def)
next
  case (deadlines t)
  then show ?thesis using assms(2)
    by (simp add: Listener_SetDeadline_def Listener_SetReadDeadline_def Listener_SetWriteDeadline_def run_inv_def)
next
  case wait
  then show ?thesis using assms(2) by (simp add: run_inv_def hub_pool_def)
next
  case (woken st)
  from assms(2) obtain ss w where s: "hub_pool (ru_h r) = Some (ss, w)" by (auto simp: run_inv_def)
  show ?thesis unfolding woken(1)
    by (rule round_inv [OF assms(3,2) s])
      (use sched_ok_token(1) [OF run_inv_sched(1) [OF assms(2) s]] woken(2) in \<open>simp_all add: deadline_def\<close>)
next
  case (fired st d)
  from assms(2) obtain ss w where s: "hub_pool (ru_h r) = Some (ss, w)" by (auto simp: run_inv_def)
  show ?thesis unfolding fired(1)
    by (rule round_inv [OF assms(3,2) s])
      (use sched_ok_token(2) [OF run_inv_sched(1) [OF assms(2) s]] fired(2) in \<open>simp_all add: deadline_def\<close>)
qed

lemma hub_start_inv: "block_fine blk \<Longrightarrow> run_inv e (hub_start e blk d p w)"
  by (simp add: run_inv_def hub_start_def hub_pool_def scheduler_start_def ServeConn_def listener_ok_def pool_ok_def
      updater_ok_def directory_ok_def routed_def sched_ok_def uh_ok_def heap_ordered_def idx_ok_def uh_Len_def deadline_def
      crypt_room_def cryptHeaderSize_def fecHeaderSizePlus2_def rxFECMulti_def Let_def)

lemma reachable_run_inv:
  assumes "hub_reachable e (hub_start e blk d p w) r" "env_ok e" "block_fine blk"
  shows "run_inv e r"
  using assms(1)
proof induction
  case start
  then show ?case using hub_start_inv [OF assms(3)] .
next
  case (step r r')
  then show ?case using hub_inv_step assms(2) by blast
qed

subsection \<open>The directory\<close>

text \<open>
  What a listener is for its users: a table of the open session of each address, and the queue of
  those not accepted yet.
\<close>

record directory =
  d_open :: "string \<rightharpoonup> nat"
  d_queue :: "nat list"
  d_made :: nat

inductive dir_step :: "directory \<Rightarrow> directory \<Rightarrow> bool" where
  nothing: "dir_step d d"
| made: "d_open d a = None \<Longrightarrow> length (d_queue d) < acceptBacklog \<Longrightarrow>
     dir_step d (d\<lparr>d_open := (d_open d)(a \<mapsto> d_made d), d_queue := d_queue d @ [d_made d], d_made := d_made d + 1\<rparr>)"
| taken: "d_queue d = i # is \<Longrightarrow> dir_step d (d\<lparr>d_queue := is\<rparr>)"
| gone: "dir_step d (d\<lparr>d_open := (d_open d)(a := None)\<rparr>)"

definition directory_of :: "hub \<Rightarrow> directory" where
  "directory_of h = \<lparr>d_open = l_sessions (hb_l h), d_queue = l_chAccepts (hb_l h),
     d_made = (case hub_pool h of Some (ss, w) \<Rightarrow> length ss | None \<Rightarrow> 0)\<rparr>"

lemma opens_directory:
  assumes "opens e addr h h'"
  shows "dir_step (directory_of h) (directory_of h')"
proof -
  from assms have "directory_of h' = (directory_of h)\<lparr>d_open := (d_open (directory_of h))(addr \<mapsto> d_made (directory_of h)),
      d_queue := d_queue (directory_of h) @ [d_made (directory_of h)], d_made := d_made (directory_of h) + 1\<rparr>"
    "d_open (directory_of h) addr = None" "length (d_queue (directory_of h)) < acceptBacklog"
    by (auto simp: opens_def directory_of_def)
  then show ?thesis using dir_step.made by metis
qed

lemma delivers_directory: "delivers addr h h' \<Longrightarrow> directory_of h' = directory_of h"
  by (auto simp: delivers_def directory_of_def same_pool_def)

lemma round_directory:
  assumes "run_inv e (r\<lparr>ru_h := h\<rparr>)" "run_inv e r" "hb_l h = hb_l (ru_h r)"
  shows "directory_of h = directory_of (ru_h r)"
proof -
  from assms(1) obtain ss' w' where a: "hub_pool h = Some (ss', w')"
    "ru_accepted r @ l_chAccepts (hb_l h) = [0..<length ss']" by (auto simp: run_inv_def)
  from assms(2) obtain ss w where b: "hub_pool (ru_h r) = Some (ss, w)"
    "ru_accepted r @ l_chAccepts (hb_l (ru_h r)) = [0..<length ss]" by (auto simp: run_inv_def)
  have "length ss' = length ss" using a(2) b(2) assms(3) by (metis length_upt minus_nat.diff_0)
  then show ?thesis using a(1) b(1) assms(3) by (simp add: directory_of_def)
qed

lemma step_directory:
  assumes "hub_step e r r'" "run_inv e r" "env_ok e"
  shows "dir_step (directory_of (ru_h r)) (directory_of (ru_h r'))"
  using assms(1)
proof (cases rule: hub_step.cases)
  case (arrive data addr h)
  then show ?thesis using monitor_ok [OF assms(3,2) arrive(3), of addr] opens_directory delivers_directory
    by (auto intro: dir_step.nothing)
next
  case (accepts c rd now res l)
  from accepts(2) show ?thesis
  proof (cases rule: AcceptKCP_cases)
    case 1
    then show ?thesis using accepts(1) dir_step.nothing by simp
  next
    case (2 i js)
    have "directory_of ((ru_h r)\<lparr>hb_l := l\<rparr>) = (directory_of (ru_h r))\<lparr>d_queue := js\<rparr>"
      using 2 by (simp add: directory_of_def)
    then show ?thesis using accepts(1) 2 dir_step.taken [of "directory_of (ru_h r)" i js] by (simp add: directory_of_def)
  qed
next
  case (closes ss w i res h)
  from close_ok [OF assms(2) closes(2,3)] closes(4) have
    "directory_of h = (directory_of (ru_h r))\<lparr>d_open := (d_open (directory_of (ru_h r)))(fst (ss ! i) := None)\<rparr>"
    using closes(2) by (auto simp: directory_of_def hub_pool_def)
  then show ?thesis using closes(1) dir_step.gone by simp
next
  case (reads ss w i n now res s w')
  then show ?thesis using dir_step.nothing by (simp add: directory_of_def)
next
  case (writes ss w i v now res s w')
  then show ?thesis using dir_step.nothing by (simp add: directory_of_def)
next
  case (tunes ss w i s)
  then show ?thesis using dir_step.nothing by (simp add: directory_of_def)
next
  case (listener_closes l)
  then show ?thesis using dir_step.nothing by (auto simp: directory_of_def Listener_Close_def hub_pool_def split: if_splits)
next
  case (deadlines t)
  then show ?thesis using dir_step.nothing
    by (simp add: directory_of_def Listener_SetDeadline_def Listener_SetReadDeadline_def Listener_SetWriteDeadline_def hub_pool_def)
next
  case wait
  then show ?thesis using dir_step.nothing by (simp add: directory_of_def hub_pool_def)
next
  case (woken st)
  then show ?thesis using round_directory [OF _ assms(2)] hub_inv_step [OF assms] dir_step.nothing by auto
next
  case (fired st d)
  then show ?thesis using round_directory [OF _ assms(2)] hub_inv_step [OF assms] dir_step.nothing by auto
qed

subsection \<open>Properties\<close>


text \<open>C11. A listener with its sessions refines a directory of the open session of each address with a
  queue of at most 128: every event is a step of the directory, opening sessions under the next number, accepting
  them in order and forgetting an address when one of its sessions is closed; sessions are accepted
  exactly once in the order they were made; and a packet changes no session but the one registered
  for its address.\<close>

theorem listener_refines_directory:
  assumes "hub_reachable e (hub_start e blk d p w0) r" "env_ok e" "block_fine blk"
  shows "ru_accepted r @ d_queue (directory_of (ru_h r)) = [0..<d_made (directory_of (ru_h r))]
     \<and> length (d_queue (directory_of (ru_h r))) \<le> acceptBacklog
     \<and> (\<forall>r'. hub_step e r r' \<longrightarrow> dir_step (directory_of (ru_h r)) (directory_of (ru_h r')))
     \<and> (\<forall>data addr h' ss w ss' w'. length data \<le> 1500 \<and> monitor_packet e data addr (ru_h r) = Some h'
          \<and> hub_pool (ru_h r) = Some (ss, w) \<and> hub_pool h' = Some (ss', w') \<longrightarrow>
          (\<forall>j < length ss. d_open (directory_of (ru_h r)) addr \<noteq> Some j \<longrightarrow> ss' ! j = ss ! j))"
proof -
  have inv: "run_inv e r" using reachable_run_inv [OF assms] .
  have "ss' ! j = ss ! j" if "length data \<le> 1500" "monitor_packet e data addr (ru_h r) = Some h'"
    "hub_pool (ru_h r) = Some (ss, w)" "hub_pool h' = Some (ss', w')" "j < length ss"
    "d_open (directory_of (ru_h r)) addr \<noteq> Some j" for data addr h' ss w ss' w' j
    using monitor_ok [OF assms(2) inv that(1), of addr] that
    by (auto simp: delivers_def opens_def directory_of_def nth_append)
  then show ?thesis using inv step_directory [OF _ inv assms(2)] by (auto simp: run_inv_def directory_of_def)
qed


text \<open>C14. Closing a session again reports an error, but by then it has evicted whatever session its
  address has now: that session stays open and updated, and nothing from its address reaches it
  any more.\<close>

theorem second_close_evicts:
  assumes "hub_reachable e (hub_start e blk d p w0) r" "env_ok e" "block_fine blk"
    "hub_pool (ru_h r) = Some (ss, w)" "i < length ss" "s_isClosed (snd (ss ! i))"
    "l_sessions (hb_l (ru_h r)) (fst (ss ! i)) = Some j"
  shows "\<exists>h w'. session_Close i (ru_h r) = Some (Inl errBrokenPipe, h) \<and> hub_pool h = Some (ss, w')
     \<and> j < length ss \<and> fst (ss ! j) = fst (ss ! i) \<and> \<not> s_isClosed (snd (ss ! j)) \<and> deadline (sc_heap (hb_sched h)) j \<noteq> None
     \<and> l_sessions (hb_l h) (fst (ss ! i)) = None
     \<and> (\<forall>data h' ss' w''. length data \<le> 1500 \<and> monitor_packet e data (fst (ss ! i)) h = Some h'
          \<and> hub_pool h' = Some (ss', w'') \<longrightarrow> ss' ! j = ss ! j)"
proof -
  let ?s = "snd (ss ! i)"
  have inv: "run_inv e r" using reachable_run_inv [OF assms(1-3)] .
  from inv assms(4) have I: "directory_ok (hb_l (ru_h r)) ss" "updater_ok (hb_sched (ru_h r)) ss" by (auto simp: run_inv_def)
  from I(1) assms(7) have j: "j < length ss" "fst (ss ! j) = fst (ss ! i)" "\<not> s_isClosed (snd (ss ! j))"
    by (auto simp: directory_ok_def)
  then have "j \<noteq> i" using assms(6) by auto
  have "?s\<lparr>s_isClosed := True\<rparr> = ?s" using assms(6) by simp
  then have same: "ss[i := (fst (ss ! i), ?s\<lparr>s_isClosed := True\<rparr>)] = ss" by (metis list_update_id prod.collapse)
  from close_ok [OF inv assms(4,5)] assms(6) obtain up w' h where
    h: "session_Close i (ru_h r) = Some (Inl errBrokenPipe, h)"
      "h = set_pool (ss, w') ((ru_h r)\<lparr>hb_sched := (hb_sched (ru_h r))\<lparr>sc_heap := up\<rparr>,
         hb_l := (hb_l (ru_h r))\<lparr>l_sessions := (l_sessions (hb_l (ru_h r)))(fst (ss ! i) := None)\<rparr>\<rparr>)"
      "deadline up = (deadline (sc_heap (hb_sched (ru_h r))))(i := None)" unfolding same by auto
  have "run_inv e (r\<lparr>ru_h := h, ru_twice := ru_twice r \<or> s_isClosed ?s\<rparr>)" (is "run_inv e ?r")
    by (rule closes_inv [OF inv assms(4,5) h(1)])
  then have "ss' ! j = ss ! j" if "length data \<le> 1500" "monitor_packet e data (fst (ss ! i)) h = Some h'"
      "hub_pool h' = Some (ss', w'')" for data h' ss' w''
    using monitor_ok [OF assms(2), of ?r data "fst (ss ! i)"] that h(2) j(1)
    by (auto simp: delivers_def opens_def nth_append)
  moreover have "deadline up j \<noteq> None" using I(2) j h(3) \<open>j \<noteq> i\<close> by (auto simp: updater_ok_def)
  ultimately show ?thesis using h j by auto
qed

text \<open>C12. The update goroutine looks after every open session and no closed one: a session is
  registered with the updater exactly until it is closed, and as long as it is, either the goroutine
  has been woken or its timer is set for no later than the session is due; an update returns
  and asks for the next one after a positive time of at most the session's interval.\<close>

theorem open_sessions_updated:
  assumes "hub_reachable e (hub_start e blk d p w0) r" "env_ok e" "block_fine blk"
    "hub_pool (ru_h r) = Some (ss, w)" "i < length ss"
  shows "(deadline (sc_heap (hb_sched (ru_h r))) i \<noteq> None \<longleftrightarrow> \<not> s_isClosed (snd (ss ! i)))
     \<and> (\<forall>due. deadline (sc_heap (hb_sched (ru_h r))) i = Some due \<longrightarrow>
          chWakeUp (sc_heap (hb_sched (ru_h r))) \<or> (\<exists>t. sc_timer (hb_sched (ru_h r)) = Some t \<and> t \<le> due))
     \<and> (\<exists>ms ss' w'. hub_update e i (Some (ss, w)) = (ms * 1000000, Some (ss', w'))
          \<and> 0 < ms \<and> ms \<le> sint (interval (us_kcp (snd (ss ! i)))))"
proof -
  have inv: "run_inv e r" using reachable_run_inv [OF assms(1-3)] .
  with assms(4) have u: "updater_ok (hb_sched (ru_h r)) ss" "pool_ok (hb_l (ru_h r)) ss" by (auto simp: run_inv_def)
  have "deadline (sc_heap (hb_sched (ru_h r))) i \<noteq> None \<longleftrightarrow> \<not> s_isClosed (snd (ss ! i))"
    using u(1) assms(5) by (auto simp: updater_ok_def)
  moreover have "chWakeUp (sc_heap (hb_sched (ru_h r))) \<or> (\<exists>t. sc_timer (hb_sched (ru_h r)) = Some t \<and> t \<le> due)"
    if "deadline (sc_heap (hb_sched (ru_h r))) i = Some due" for due
    using u(1) that by (auto simp: updater_ok_def sched_ok_def armed_def)
  ultimately show ?thesis using hub_update_ok [OF assms(2) u(2) assms(5), of w] by blast
qed

subsection \<open>A run\<close>

text \<open>Without encryption and error correction: a client connects, its session is closed, it connects again.\<close>

definition demo_env :: hub_env where
  "demo_env = \<lparr>he_libs = sample_libs, he_New = xor_New, he_key = \<lambda>_. replicate 16 3, he_seed = \<lambda>_. replicate 16 5,
     he_io = \<lambda>_. demo_io, he_clk = \<lambda>_. 0, he_now = int\<rparr>"

lemma demo_env_ok: "env_ok demo_env"
  using sample_libs_ok(2) xor_sized demo_io_ok by (simp add: env_ok_def demo_env_def demo_io_def sample_libs_def)

lemma demo_opens:
  assumes "run_inv demo_env r" "l_block (hb_l (ru_h r)) = None" "l_fecDecoder (hb_l (ru_h r)) = None"
    "l_sessions (hb_l (ru_h r)) addr = None" "length (l_chAccepts (hb_l (ru_h r))) < acceptBacklog"
  shows "\<exists>h. monitor_packet demo_env (replicate 24 0) addr (ru_h r) = Some h \<and> opens demo_env addr (ru_h r) h"
proof -
  let ?data = "replicate 24 0 :: bytes"
  from assms(1) obtain ss w where s: "hub_pool (ru_h r) = Some (ss, w)" "listener_ok demo_env (hb_l (ru_h r))"
    by (auto simp: run_inv_def)
  have "packet_conv (hb_l (ru_h r)) ?data = Some (Some 0)"
    using assms(3) by (simp add: packet_conv_def eval_nat_numeral)
  moreover have "l_headerSize (hb_l (ru_h r)) = 0" using s(2) assms(2,3) by (simp add: listener_ok_def crypt_room_def)
  moreover have "open_packet (he_libs demo_env) (l_block (hb_l (ru_h r))) ?data = Some (Some ?data)"
    using assms(2) by (simp add: open_packet_def)
  moreover have "\<exists>h. accept_new demo_env 0 ?data addr (ru_h r) = Some h \<and> opens demo_env addr (ru_h r) h"
    using accept_ok [OF demo_env_ok s, of ?data 0 addr] assms(3-5) s(1) unfolding opens_def by auto
  ultimately show ?thesis using assms(4,5) s(1) by (auto simp: monitor_packet_def Listener_packetInput_def)
qed

lemma demo_hub:
  obtains r ss w where "hub_reachable demo_env (hub_start demo_env None 0 0 world0) r" "hub_pool (ru_h r) = Some (ss, w)"
    "length ss = 2" "fst (ss ! 0) = ''a''" "s_isClosed (snd (ss ! 0))" "\<not> s_isClosed (snd (ss ! 1))"
    "l_sessions (hb_l (ru_h r)) ''a'' = Some 1" "\<not> ru_twice r"
proof -
  let ?r0 = "hub_start demo_env None 0 0 world0"
  have len: "length (replicate 24 0 :: bytes) \<le> 1500" by simp
  have l0: "hub_pool (ru_h ?r0) = Some ([], world0)" "l_block (hb_l (ru_h ?r0)) = None" "l_fecDecoder (hb_l (ru_h ?r0)) = None"
    "l_sessions (hb_l (ru_h ?r0)) = Map.empty" "l_chAccepts (hb_l (ru_h ?r0)) = []" "\<not> l_connClosed (hb_l (ru_h ?r0))"
    "\<not> ru_twice ?r0"
    by (simp_all add: hub_start_def hub_pool_def scheduler_start_def ServeConn_def newFECDecoder_def Let_def)
  have i0: "run_inv demo_env ?r0" by (rule hub_start_inv) (simp add: block_fine_def)
  from demo_opens [OF i0 l0(2,3), of "''a''"] l0 obtain h1 where
    h1: "monitor_packet demo_env (replicate 24 0) ''a'' (ru_h ?r0) = Some h1" "opens demo_env ''a'' (ru_h ?r0) h1"
    by (auto simp: acceptBacklog_def)
  let ?r1 = "?r0\<lparr>ru_h := h1\<rparr>"
  have s1: "hub_step demo_env ?r0 ?r1" by (rule hub_step.arrive [OF l0(6) len h1(1)])
  have i1: "run_inv demo_env ?r1" by (rule opens_inv [OF i0 h1(2)])
  from h1(2) l0 obtain s w1 where l1: "hub_pool h1 = Some ([(''a'', s)], w1)" "\<not> s_isClosed s" "l_block (hb_l h1) = None"
    "l_fecDecoder (hb_l h1) = None" "l_chAccepts (hb_l h1) = [0]" "\<not> l_connClosed (hb_l h1)"
    by (auto simp: opens_def)
  from close_ok [OF i1, of "[(''a'', s)]" w1 0] l1 obtain h2 w2 where
    h2: "session_Close 0 h1 = Some (Inr False, h2)" "hub_pool h2 = Some ([(''a'', s\<lparr>s_isClosed := True\<rparr>)], w2)"
      "l_block (hb_l h2) = None" "l_fecDecoder (hb_l h2) = None" "l_chAccepts (hb_l h2) = [0]" "\<not> l_connClosed (hb_l h2)"
      "l_sessions (hb_l h2) ''a'' = None"
    by auto
  let ?r2 = "?r1\<lparr>ru_h := h2, ru_twice := ru_twice ?r1 \<or> s_isClosed (snd ([(''a'', s)] ! 0))\<rparr>"
  have s2: "hub_step demo_env ?r1 ?r2" by (rule hub_step.closes) (use l1(1) h2(1) in simp_all)
  have i2: "run_inv demo_env ?r2" by (rule hub_inv_step [OF s2 i1 demo_env_ok])
  from demo_opens [OF i2, of "''a''"] h2 obtain h3 where
    h3: "monitor_packet demo_env (replicate 24 0) ''a'' h2 = Some h3" "opens demo_env ''a'' h2 h3"
    by (auto simp: acceptBacklog_def)
  let ?r3 = "?r2\<lparr>ru_h := h3\<rparr>"
  have s3: "hub_step demo_env ?r2 ?r3" by (rule hub_step.arrive [OF _ len]) (use h2(6) h3(1) in simp_all)
  have "hub_reachable demo_env ?r0 ?r3"
    by (rule hub_reachable.step [OF hub_reachable.step [OF hub_reachable.step [OF hub_reachable.start s1] s2] s3])
  moreover from h3(2) h2 obtain s' w3 where "hub_pool h3 = Some ([(''a'', s\<lparr>s_isClosed := True\<rparr>), (''a'', s')], w3)"
    "\<not> s_isClosed s'" "l_sessions (hb_l h3) ''a'' = Some 1"
    by (auto simp: opens_def)
  ultimately show ?thesis using l0(7) l1(2) that by simp
qed

lemma no_block_fine: "block_fine None"
  by (simp add: block_fine_def)


theorem listener_refines_directory_witness:
  "\<exists>r :: hub_run. d_made (directory_of (ru_h r)) = 2 \<and> ru_accepted r @ d_queue (directory_of (ru_h r)) = [0, 1]"
proof -
  obtain r ss w where r: "hub_reachable demo_env (hub_start demo_env None 0 0 world0) r" "hub_pool (ru_h r) = Some (ss, w)"
    "length ss = 2" by (rule demo_hub)
  then have "d_made (directory_of (ru_h r)) = 2" by (simp add: directory_of_def)
  moreover from this listener_refines_directory [OF r(1) demo_env_ok no_block_fine]
  have "ru_accepted r @ d_queue (directory_of (ru_h r)) = [0, 1]" by (simp add: upt_rec)
  ultimately show ?thesis by blast
qed


theorem second_close_evicts_witness:
  "\<exists>(r :: hub_run) ss w (h :: hub). hub_pool (ru_h r) = Some (ss, w) \<and> session_Close 0 (ru_h r) = Some (Inl errBrokenPipe, h)
     \<and> l_sessions (hb_l (ru_h r)) ''a'' = Some 1 \<and> \<not> s_isClosed (snd (ss ! 1)) \<and> l_sessions (hb_l h) ''a'' = None"
proof -
  obtain r ss w where r: "hub_reachable demo_env (hub_start demo_env None 0 0 world0) r" "hub_pool (ru_h r) = Some (ss, w)"
    "length ss = 2" "fst (ss ! 0) = ''a''" "s_isClosed (snd (ss ! 0))" "l_sessions (hb_l (ru_h r)) ''a'' = Some 1"
    by (rule demo_hub)
  have "0 < length ss" using r(3) by simp
  moreover have "l_sessions (hb_l (ru_h r)) (fst (ss ! 0)) = Some 1" using r(4,6) by simp
  ultimately obtain h :: hub where h: "session_Close 0 (ru_h r) = Some (Inl errBrokenPipe, h)" "\<not> s_isClosed (snd (ss ! 1))"
    "l_sessions (hb_l h) ''a'' = None"
    using second_close_evicts [OF r(1) demo_env_ok no_block_fine r(2) _ r(5)] unfolding r(4) by blast
  show ?thesis
    by (rule exI [of _ r], rule exI [of _ ss], rule exI [of _ w], rule exI [of _ h]) (intro conjI r(2) h r(6))
qed

theorem open_sessions_updated_witness:
  "\<exists>r :: hub_run. deadline (sc_heap (hb_sched (ru_h r))) 0 = None \<and> deadline (sc_heap (hb_sched (ru_h r))) 1 \<noteq> None"
proof -
  obtain r ss w where r: "hub_reachable demo_env (hub_start demo_env None 0 0 world0) r" "hub_pool (ru_h r) = Some (ss, w)"
    "length ss = 2" "s_isClosed (snd (ss ! 0))" "\<not> s_isClosed (snd (ss ! 1))" by (rule demo_hub)
  note u = open_sessions_updated [OF r(1) demo_env_ok no_block_fine r(2), THEN conjunct1]
  have "deadline (sc_heap (hb_sched (ru_h r))) 0 = None" using u [of 0] r(3,4) by simp
  moreover have "deadline (sc_heap (hb_sched (ru_h r))) 1 \<noteq> None" using u [of 1] r(3,5) by simp
  ultimately show ?thesis by blast
qed

end
