(* ===== verification/SessionPair.thy ===== *)
theory SessionPair
  imports SessionTransfer
begin

section \<open>End to end: two sessions\<close>

text \<open>
  Two sessions made with the same key and error correction, each in use by a reader and a writer,
  over a network that does what it likes with the packets of the one and delivers anything to it:
  what the other reads is a prefix of what was written.
\<close>

subsection \<open>What does not concern the data\<close>

text \<open>Deadlines, wake-ups, errors of the connection, and closing.\<close>

definition tends :: "session \<Rightarrow> world \<Rightarrow> session \<Rightarrow> world \<Rightarrow> bool" where
  "tends s w s' w' \<longleftrightarrow>
     w' = w \<and> (\<exists>t. s' = session_SetDeadline t s \<or> s' = session_SetReadDeadline t s \<or> s' = session_SetWriteDeadline t s)
     \<or> w' = w \<and> (\<exists>ev e. Read_wake ev s = Some (s', e) \<or> Write_wake ev s = Some (s', e))
     \<or> w' = w \<and> s' = readLoop_error s
     \<or> (\<exists>r. close_locked s w = (r, s', w'))"

definition same_data :: "session \<Rightarrow> session \<Rightarrow> bool" where
  "same_data s s' \<longleftrightarrow> us_kcp s' = us_kcp s \<and> s_block s' = s_block s \<and> s_nonce s' = s_nonce s \<and> s_headerSize s' = s_headerSize s
     \<and> s_fecEncoder s' = s_fecEncoder s \<and> s_fecDecoder s' = s_fecDecoder s \<and> s_bufptr s' = s_bufptr s
     \<and> s_dup s' = s_dup s \<and> s_conn s' = s_conn s"

lemma wakes_same:
  "Read_wake ev s = Some (s', e) \<Longrightarrow> same_data s s'" "Write_wake ev s = Some (s', e) \<Longrightarrow> same_data s s'"
  by (cases ev; auto simp: Read_wake_def Write_wake_def same_data_def split: if_splits)+

lemma deadlines_same: "same_data s (session_SetDeadline t s)" "same_data s (session_SetReadDeadline t s)"
  "same_data s (session_SetWriteDeadline t s)" "same_data s (readLoop_error s)"
  by (simp_all add: same_data_def session_SetDeadline_def session_SetReadDeadline_def session_SetWriteDeadline_def
      notifyReadEvent_def notifyWriteEvent_def readLoop_error_def)

lemma close_same: "close_locked s w = (r, s', w') \<Longrightarrow> same_data s s' \<and> outs w' = outs w"
  by (auto simp: close_locked_def same_data_def split: if_splits)

lemma tends_same: "tends s w s' w' \<Longrightarrow> same_data s s' \<and> outs w' = outs w"
  unfolding tends_def using wakes_same deadlines_same close_same by blast

lemma same_session_ok: "same_data s s' \<Longrightarrow> session_ok s' = session_ok s"
  by (simp add: same_data_def session_ok_def parts_ok_def)

lemma same_has_read: "same_data s s' \<Longrightarrow> has_read fec conv log xs gs s' = has_read fec conv log xs gs s"
  by (simp add: has_read_def same_session_ok) (simp add: same_data_def)

lemma wrote_tends:
  assumes "wrote fec L blk m conv log bs xs s w" "tends s w s' w'"
  shows "wrote fec L blk m conv log bs xs s' w'"
proof -
  have t: "same_data s s'" "outs w' = outs w" using tends_same [OF assms(2)] by simp_all
  then have "writes_io fec L conv log xs s' = writes_io fec L conv log xs s"
    by (simp add: writes_io_def writer_io_def encodes_def same_data_def split: option.splits)
  then show ?thesis
    using assms(1) t near_inv_outs same_session_ok [OF t(1)] by (auto simp: wrote_def same_data_def)
qed

subsection \<open>A run\<close>

text \<open>
  \<open>w_s\<close> is the session whose writer is followed, \<open>r_s\<close> the one whose reader is. \<open>p_log\<close> lists the
  segments numbered so far, \<open>p_given\<close> what was written and \<open>p_got\<close> what was read.
\<close>

record session_pair =
  w_s :: session
  w_w :: world
  r_s :: session
  r_w :: world
  p_log :: "segment list"
  p_given :: bytes
  p_got :: bytes

definition returned :: "bytes io_result \<Rightarrow> bytes" where
  "returned r = (case r of Returns b \<Rightarrow> b | _ \<Rightarrow> [])"

inductive pair_step :: "session_io \<Rightarrow> session_io \<Rightarrow> session_pair \<Rightarrow> session_pair \<Rightarrow> bool"
  for ioW :: session_io and ioR :: session_io where
  w_writes: "Write_pass ioW clk v now (w_s P) (w_w P) = Some (r, s, w) \<Longrightarrow>
     pair_step ioW ioR P (P\<lparr>w_s := s, w_w := w, p_log := p_log P @ drop (length (snd_buf (us_kcp (w_s P)))) (snd_buf (us_kcp s)),
       p_given := p_given P @ (case r of Returns n \<Rightarrow> concat v | _ \<Rightarrow> [])\<rparr>)"
| w_updates: "session_update ioW clk (w_s P) (w_w P) = Some (itv, s, w) \<Longrightarrow>
     pair_step ioW ioR P (P\<lparr>w_s := s, w_w := w, p_log := p_log P @ drop (length (snd_buf (us_kcp (w_s P)))) (snd_buf (us_kcp s))\<rparr>)"
| w_hears: "length D \<le> 1500 \<Longrightarrow> s_headerSize (w_s P) + IKCP_OVERHEAD \<le> length D \<Longrightarrow>
     session_packetInput ioW clk D (w_s P) (w_w P) = Some (s, w) \<Longrightarrow> pair_step ioW ioR P (P\<lparr>w_s := s, w_w := w\<rparr>)"
| w_reads: "Read_pass n now (w_s P) (w_w P) = Some (r, s, w) \<Longrightarrow> pair_step ioW ioR P (P\<lparr>w_s := s, w_w := w\<rparr>)"
| w_tends: "tends (w_s P) (w_w P) s w \<Longrightarrow> pair_step ioW ioR P (P\<lparr>w_s := s, w_w := w\<rparr>)"
| r_hears: "from_network (io_libs ioR) (w_s P) D \<Longrightarrow> s_headerSize (r_s P) + IKCP_OVERHEAD \<le> length D \<Longrightarrow>
     session_packetInput ioR clk D (r_s P) (r_w P) = Some (s, w) \<Longrightarrow> pair_step ioW ioR P (P\<lparr>r_s := s, r_w := w\<rparr>)"
| r_reads: "Read_pass n now (r_s P) (r_w P) = Some (r, s, w) \<Longrightarrow>
     pair_step ioW ioR P (P\<lparr>r_s := s, r_w := w, p_got := p_got P @ returned r\<rparr>)"
| r_writes: "Write_pass ioR clk v now (r_s P) (r_w P) = Some (r, s, w) \<Longrightarrow> pair_step ioW ioR P (P\<lparr>r_s := s, r_w := w\<rparr>)"
| r_updates: "session_update ioR clk (r_s P) (r_w P) = Some (itv, s, w) \<Longrightarrow> pair_step ioW ioR P (P\<lparr>r_s := s, r_w := w\<rparr>)"
| r_tends: "tends (r_s P) (r_w P) s w \<Longrightarrow> pair_step ioW ioR P (P\<lparr>r_s := s, r_w := w\<rparr>)"

definition pair_start :: "session \<Rightarrow> world \<Rightarrow> session \<Rightarrow> world \<Rightarrow> session_pair" where
  "pair_start a aw b bw = \<lparr>w_s = a, w_w = aw, r_s = b, r_w = bw, p_log = [], p_given = [], p_got = []\<rparr>"

inductive pair_reachable :: "session_io \<Rightarrow> session_io \<Rightarrow> session_pair \<Rightarrow> session_pair \<Rightarrow> bool"
  for ioW :: session_io and ioR :: session_io and P0 :: session_pair where
  start: "pair_reachable ioW ioR P0 P0"
| step: "pair_reachable ioW ioR P0 P \<Longrightarrow> pair_step ioW ioR P P' \<Longrightarrow> pair_reachable ioW ioR P0 P'"

subsection \<open>The invariant\<close>

text \<open>The reader's part holds while fewer than \<open>2^31\<close> segments were numbered and packets sent.\<close>

definition within :: "session_pair \<Rightarrow> bool" where
  "within P \<longleftrightarrow> length (p_log P) < 2 ^ 31 \<and> length (s_conn (w_s P)) < 2 ^ 31"

definition pair_inv :: "fec_code \<Rightarrow> crypt_libs \<Rightarrow> BlockCrypt option \<Rightarrow> u32 \<Rightarrow> session_pair \<Rightarrow> bool" where
  "pair_inv fec L blk conv P \<longleftrightarrow> (\<exists>xs. wrote fec L blk 0 conv (p_log P) (p_given P) xs (w_s P) (w_w P)
     \<and> (within P \<longrightarrow> has_read fec conv (p_log P) xs (p_got P) (r_s P) \<and> s_block (r_s P) = blk))"

text \<open>Steps of the writer's side.\<close>

lemma pair_inv_writer:
  assumes "pair_inv fec L blk conv P"
    and "\<And>xs. wrote fec L blk (length (s_conn (w_s P))) conv (p_log P) (p_given P) xs (w_s P) (w_w P) \<Longrightarrow>
       wrote fec L blk (length (s_conn (w_s P))) conv (p_log P @ ext) gv xs s w"
  shows "pair_inv fec L blk conv (P\<lparr>w_s := s, w_w := w, p_log := p_log P @ ext, p_given := gv\<rparr>)"
proof -
  from assms(1) obtain xs where xs: "wrote fec L blk 0 conv (p_log P) (p_given P) xs (w_s P) (w_w P)"
    "within P \<longrightarrow> has_read fec conv (p_log P) xs (p_got P) (r_s P) \<and> s_block (r_s P) = blk"
    by (auto simp: pair_inv_def)
  then have "wrote fec L blk (length (s_conn (w_s P))) conv (p_log P) (p_given P) xs (w_s P) (w_w P)" by (simp add: wrote_def)
  from assms(2) [OF this] have w': "wrote fec L blk 0 conv (p_log P @ ext) gv xs s w" "length (s_conn (w_s P)) \<le> length (s_conn s)"
    by (simp_all add: wrote_def)
  let ?P = "P\<lparr>w_s := s, w_w := w, p_log := p_log P @ ext, p_given := gv\<rparr>"
  have "within ?P \<Longrightarrow> within P" using w'(2) by (simp add: within_def)
  then have "within ?P \<longrightarrow> has_read fec conv (p_log P @ ext) xs (p_got P) (r_s P) \<and> s_block (r_s P) = blk"
    using xs(2) has_read_append [where ys = "[]"] by fastforce
  with w'(1) show ?thesis by (auto simp: pair_inv_def)
qed

lemma pair_inv_writer0:
  assumes "pair_inv fec L blk conv P"
    and "\<And>xs. wrote fec L blk (length (s_conn (w_s P))) conv (p_log P) (p_given P) xs (w_s P) (w_w P) \<Longrightarrow>
       wrote fec L blk (length (s_conn (w_s P))) conv (p_log P) (p_given P) xs s w"
  shows "pair_inv fec L blk conv (P\<lparr>w_s := s, w_w := w\<rparr>)"
  using pair_inv_writer [OF assms(1), of "[]" "p_given P" s w] assms(2) by simp

text \<open>Steps of the reader's side: the payloads sent so far may be counted in.\<close>

lemma pair_inv_reader:
  assumes "pair_inv fec L blk conv P"
    and "\<And>xs. within P \<Longrightarrow> writer_io fec L conv (p_log P) xs (w_s P) \<Longrightarrow> s_block (w_s P) = blk \<Longrightarrow> s_block (r_s P) = blk \<Longrightarrow>
       has_read fec conv (p_log P) xs (p_got P) (r_s P) \<Longrightarrow>
       has_read fec conv (p_log P) xs gs s \<and> s_block s = s_block (r_s P)"
  shows "pair_inv fec L blk conv (P\<lparr>r_s := s, r_w := w, p_got := gs\<rparr>)"
proof -
  from assms(1) obtain xs where xs: "wrote fec L blk 0 conv (p_log P) (p_given P) xs (w_s P) (w_w P)"
    "within P \<longrightarrow> has_read fec conv (p_log P) xs (p_got P) (r_s P) \<and> s_block (r_s P) = blk"
    by (auto simp: pair_inv_def)
  note w = wroteD(5,6) [OF xs(1)]
  let ?P = "P\<lparr>r_s := s, r_w := w, p_got := gs\<rparr>"
  show ?thesis
  proof (cases "within P")
    case False
    then show ?thesis using xs(1) by (auto simp: pair_inv_def within_def)
  next
    case True
    with w(1) obtain ys where ys: "writer_io fec L conv (p_log P) (xs @ ys) (w_s P)"
      by (auto simp: writes_io_def within_def)
    have "has_read fec conv (p_log P) (xs @ ys) (p_got P) (r_s P)" "s_block (r_s P) = blk"
      using xs(2) True has_read_append [where ext = "[]"] by auto
    from assms(2) [OF True ys w(2) this(2,1)] this(2) have
      "has_read fec conv (p_log P) (xs @ ys) gs s" "s_block s = blk" by simp_all
    moreover have "writes_io fec L conv (p_log P) (xs @ ys) (w_s P)"
      using ys unfolding writes_io_def by (metis append_Nil2)
    then have "wrote fec L blk 0 conv (p_log P) (p_given P) (xs @ ys) (w_s P) (w_w P)" using xs(1) by (simp add: wrote_def)
    ultimately show ?thesis by (auto simp: pair_inv_def)
  qed
qed

lemma pair_inv_reader0:
  assumes "pair_inv fec L blk conv P"
    and "\<And>xs. within P \<Longrightarrow> writer_io fec L conv (p_log P) xs (w_s P) \<Longrightarrow> s_block (w_s P) = blk \<Longrightarrow> s_block (r_s P) = blk \<Longrightarrow>
       has_read fec conv (p_log P) xs (p_got P) (r_s P) \<Longrightarrow>
       has_read fec conv (p_log P) xs (p_got P) s \<and> s_block s = s_block (r_s P)"
  shows "pair_inv fec L blk conv (P\<lparr>r_s := s, r_w := w\<rparr>)"
  using pair_inv_reader [OF assms(1), of "p_got P" s w] assms(2) by simp

text \<open>Every operation keeps the cipher.\<close>

lemma block_kept:
  assumes "session_ok s" "io_ok io"
  shows "Write_pass io clk v now s w = Some (r, s', w') \<Longrightarrow> s_block s' = s_block s"
    "session_update io clk s w = Some (itv, s', w') \<Longrightarrow> s_block s' = s_block s"
    "Read_pass n now s w = Some (res, s', w') \<Longrightarrow> s_block s' = s_block s"
    "s_headerSize s + IKCP_OVERHEAD \<le> length D \<Longrightarrow> length D \<le> 1500 \<Longrightarrow>
       session_packetInput io clk D s w = Some (s', w') \<Longrightarrow> s_block s' = s_block s"
proof -
  show "Write_pass io clk v now s w = Some (r, s', w') \<Longrightarrow> s_block s' = s_block s"
    using Write_pass_ok [OF assms, of clk v now w] by (auto simp: carry_def)
  show "session_update io clk s w = Some (itv, s', w') \<Longrightarrow> s_block s' = s_block s"
    using session_update_ok [OF assms, of clk w] by (auto simp: carry_def)
  show "Read_pass n now s w = Some (res, s', w') \<Longrightarrow> s_block s' = s_block s"
    using Read_pass_ok [OF assms(1), of n now w] by auto
  assume p: "s_headerSize s + IKCP_OVERHEAD \<le> length D" "length D \<le> 1500" "session_packetInput io clk D s w = Some (s', w')"
  from packetInput_ok [OF assms p(1,2), of clk w] p(3) have
    "s' = s \<or> (\<exists>s1. carry s s1 \<and> s' = input_events (WaitSnd (us_kcp s)) s1)" by auto
  moreover have "s_block (input_events n s1) = s_block s1" for n s1
    by (simp add: input_events_def notifyReadEvent_def notifyWriteEvent_def Let_def)
  ultimately show "s_block s' = s_block s" unfolding carry_def by metis
qed

lemma has_read_ok: "has_read fec conv log xs gs s \<Longrightarrow> session_ok s"
  by (simp add: has_read_def)

lemma within_log: "within P \<Longrightarrow> length (p_log P) < 2 ^ 31"
  by (simp add: within_def)

lemma pair_step_inv:
  assumes "pair_step ioW ioR P P'" "pair_inv fec (io_libs ioW) blk conv P" "io_ok ioW" "io_ok ioR" "io_libs ioR = io_libs ioW"
  shows "pair_inv fec (io_libs ioW) blk conv P'"
  using assms(1)
proof cases
  case (w_writes clk v now r s w)
  show ?thesis unfolding w_writes(1) by (rule pair_inv_writer [OF assms(2)]) (rule wrote_Write [OF _ assms(3) w_writes(2)])
next
  case (w_updates clk itv s w)
  have "pair_inv fec (io_libs ioW) blk conv (P\<lparr>w_s := s, w_w := w,
      p_log := p_log P @ drop (length (snd_buf (us_kcp (w_s P)))) (snd_buf (us_kcp s)), p_given := p_given P\<rparr>)"
    by (rule pair_inv_writer [OF assms(2)]) (rule wrote_update [OF _ assms(3) w_updates(2)])
  then show ?thesis unfolding w_updates(1) by simp
next
  case (w_hears D clk s w)
  show ?thesis unfolding w_hears(1)
    by (rule pair_inv_writer0 [OF assms(2)]) (rule wrote_packetInput [OF _ assms(3) w_hears(3,2,4)])
next
  case (w_reads n now r s w)
  show ?thesis unfolding w_reads(1) by (rule pair_inv_writer0 [OF assms(2)]) (rule wrote_Read [OF _ w_reads(2)])
next
  case (w_tends s w)
  show ?thesis unfolding w_tends(1) by (rule pair_inv_writer0 [OF assms(2)]) (rule wrote_tends [OF _ w_tends(2)])
next
  case (r_hears D clk s w)
  have len: "length D \<le> 1500" "s_headerSize (r_s P) \<le> length D" using r_hears(2,3) by (simp_all add: from_network_def)
  show ?thesis unfolding r_hears(1)
  proof (rule pair_inv_reader0 [OF assms(2)])
    fix xs
    assume in_: "within P" "writer_io fec (io_libs ioW) conv (p_log P) xs (w_s P)" "s_block (w_s P) = blk" "s_block (r_s P) = blk"
      and R: "has_read fec conv (p_log P) xs (p_got P) (r_s P)"
    have "s_block (r_s P) = s_block (w_s P)" using in_(3,4) by simp
    from read_packetInput [OF R assms(4) within_log [OF in_(1)] assms(5) in_(2) _ _ len(2) this r_hears(4)] in_(1) r_hears(2) assms(5)
    have "has_read fec conv (p_log P) xs (p_got P) s" by (simp add: within_def)
    moreover have "s_block s = s_block (r_s P)"
      by (rule block_kept(4) [OF has_read_ok [OF R] assms(4) r_hears(3) len(1) r_hears(4)])
    ultimately show "has_read fec conv (p_log P) xs (p_got P) s \<and> s_block s = s_block (r_s P)" by blast
  qed
next
  case (r_reads n now r s w)
  show ?thesis unfolding r_reads(1)
  proof (rule pair_inv_reader [OF assms(2)])
    fix xs
    assume "within P" and R: "has_read fec conv (p_log P) xs (p_got P) (r_s P)"
    from read_Read [OF R within_log [OF this(1)] r_reads(2)] block_kept(3) [OF has_read_ok [OF R] assms(4) r_reads(2)]
    show "has_read fec conv (p_log P) xs (p_got P @ returned r) s \<and> s_block s = s_block (r_s P)" by (simp add: returned_def)
  qed
next
  case (r_writes clk v now r s w)
  show ?thesis unfolding r_writes(1)
    by (rule pair_inv_reader0 [OF assms(2)])
      (use read_Write [OF _ assms(4) r_writes(2)] block_kept(1) [OF has_read_ok assms(4) r_writes(2)] in blast)
next
  case (r_updates clk itv s w)
  show ?thesis unfolding r_updates(1)
    by (rule pair_inv_reader0 [OF assms(2)])
      (use read_update [OF _ assms(4) r_updates(2)] block_kept(2) [OF has_read_ok assms(4) r_updates(2)] in blast)
next
  case (r_tends s w)
  have t: "same_data (r_s P) s" using tends_same [OF r_tends(2)] by simp
  then have "s_block s = s_block (r_s P)" by (simp add: same_data_def)
  then show ?thesis unfolding r_tends(1)
    using same_has_read [OF t] by (intro pair_inv_reader0 [OF assms(2)]) blast
qed

lemma pair_reachable_inv:
  "pair_reachable ioW ioR P0 P \<Longrightarrow> pair_inv fec (io_libs ioW) blk conv P0 \<Longrightarrow> io_ok ioW \<Longrightarrow> io_ok ioR \<Longrightarrow>
     io_libs ioR = io_libs ioW \<Longrightarrow> pair_inv fec (io_libs ioW) blk conv P"
  by (induction rule: pair_reachable.induct) (use pair_step_inv in blast)+

subsection \<open>The start\<close>

lemma paws_large:
  assumes "0 < n" "n \<le> 256"
  shows "2 ^ 31 + 256 \<le> unat ((0xffffffff div word_of_int (int n) - 1) * word_of_int (int n) :: u32)"
proof -
  define m :: u32 where "m = word_of_int (int n)"
  have n: "unat m = n" using assms by (simp add: m_def unat_of_nat)
  let ?q = "0xffffffff div m"
  have q: "unat ?q = 0xffffffff div n" by (simp add: unat_div n)
  have lo: "0xffffffff < 0xffffffff div n * n + n"
    using div_mult_mod_eq [of "0xffffffff :: nat" n] mod_less_divisor [of n "0xffffffff"] assms(1) by linarith
  have hi: "0xffffffff div n * n \<le> 0xffffffff" by simp
  have pos: "1 \<le> 0xffffffff div n" using assms by (simp add: Suc_le_eq div_greater_zero_iff)
  then have q1: "unat (?q - 1) = 0xffffffff div n - 1" by (simp add: unat_sub_if' q)
  have "(0xffffffff div n - 1) * n = 0xffffffff div n * n - n" by (simp add: diff_mult_distrib)
  then have p: "(0xffffffff div n - 1) * n < 4294967296" "2147483904 \<le> (0xffffffff div n - 1) * n"
    using lo hi assms(2) by linarith+
  have "unat ((?q - 1) * m) = (0xffffffff div n - 1) * n"
    using p(1) by (simp add: unat_word_ariths q1 n)
  with p(2) show ?thesis by (simp add: m_def)
qed

text \<open>The code of a session.\<close>

definition fec_code_of :: "(int \<Rightarrow> int \<Rightarrow> rs_codec option) \<Rightarrow> int \<Rightarrow> int \<Rightarrow> fec_code" where
  "fec_code_of New d p = (if d \<le> 0 \<or> p \<le> 0 then None else map_option (\<lambda>c. (c, nat d, nat p)) (New d p))"

lemma new_encodes:
  assumes "newFECEncoder New d p ho = Some enc" "rs_library New" "s_fecEncoder s = Some enc"
  shows "\<exists>c. fec_code_of New d p = Some (c, nat d, nat p) \<and> encodes c (nat d) (nat p) [] s"
proof -
  from newFECEncoder_inv [OF assms(1)] obtain c where c: "New d p = Some c" "enc_inv c (nat d) (nat p) enc []"
    "fe_paws enc = (0xffffffff div word_of_int (d + p) - 1) * word_of_int (d + p)" by blast
  then have pos: "0 < d" "0 < p" by (simp_all add: enc_inv_def)
  with c(1) assms(2) have lib: "d + p \<le> 256" "rs_laws (nat d) (nat p) c" by (auto simp: rs_library_def)
  have n: "int (nat (d + p)) = d + p" "0 < nat (d + p)" "nat (d + p) \<le> 256" using pos lib(1) by simp_all
  have "2 ^ 31 + 256 \<le> unat (fe_paws enc)" using paws_large [OF n(2,3)] unfolding n(1) c(3) .
  moreover have "nat d + nat p \<le> 256" using pos lib(1) by linarith
  ultimately have "encodes c (nat d) (nat p) [] s" using assms(3) c(2) lib(2) by (auto simp: encodes_def sent_count_def)
  then show ?thesis using c(1) pos by (simp add: fec_code_of_def)
qed

lemma no_encoder: "newFECEncoder New d p ho = None \<Longrightarrow> fec_code_of New d p = None"
  by (auto simp: newFECEncoder_def fec_code_of_def Let_def split: option.splits if_splits)

lemma new_hears:
  "hears (fec_code_of New d p) [] (newFECDecoder New (3 * (d + p)) d p)"
proof (cases "newFECDecoder New (3 * (d + p)) d p")
  case None
  then have "newFECEncoder New d p 0 = None" using codecs_match by blast
  then show ?thesis using None no_encoder by (simp add: hears_def)
next
  case (Some dec)
  from newFECDecoder_inv [OF this] obtain c where
    "New d p = Some c" "0 < d" "0 < p" "dec_inv c (nat d) (nat p) [] dec" by blast
  then show ?thesis using Some by (simp add: hears_def fec_code_of_def)
qed

lemma new_kcp_empty:
  assumes "new_session L New key seed conv d p client blk w0 = Some (s0, w)"
  shows "kconv (us_kcp s0) = conv" "snd_nxt (us_kcp s0) = 0" "rcv_nxt (us_kcp s0) = 0" "snd_queue (us_kcp s0) = []"
    "snd_buf (us_kcp s0) = []" "rcv_queue (us_kcp s0) = []" "rcv_buf (us_kcp s0) = []" "s_dup s0 = 0"
proof -
  show "s_dup s0 = 0" using assms by (auto simp: new_session_def Let_def split: Option.bind_splits)
qed (simp_all add: new_session_sel(1) [OF assms] newUDPSession_def ReserveBytes_def NewKCP_def KCP0_def Let_def)

lemma pair_start_inv:
  assumes a: "new_session L New ka sa conv d p ca blk w1 = Some (a0, aw)" "tuned a0 a" "length sa = 16" "outs w1 = []"
    and b: "new_session L New kb sb conv d p cb blk w2 = Some (b0, bw)" "tuned b0 b" "length sb = 16"
    and lib: "ciphers_ok L" "block_fine blk" "rs_sized New" "rs_library New"
  shows "pair_inv (fec_code_of New d p) L blk conv (pair_start a aw b bw)"
proof -
  let ?fec = "fec_code_of New d p"
  note sa = new_session_sel [OF a(1)] and ea = new_kcp_empty [OF a(1)]
  note ta = tuned_sel [OF a(1,2) lib(1) a(3) lib(2,3)]
  have ka: "kcp_ok (us_kcp a)" using ta(1) by (simp add: session_ok_def)
  have pa: "s_conn a = []" "s_block a = blk" "s_dup a = 0" "s_fecEncoder a = newFECEncoder New d p (crypt_room blk)"
    using ta(3) sa(2,5,10) ea(8) by auto
  have "near_inv (us_kcp a) aw [] []"
    using ka ta(2) ea sa(7) a(4) by (simp add: near_inv_def untuned_def)
  moreover have "kconv (us_kcp a) = conv" using ta(2) ea(1) by (simp add: untuned_def)
  moreover have "case ?fec of None \<Rightarrow> s_fecEncoder a = None | Some (c, d, p) \<Rightarrow> encodes c d p [] a"
  proof (cases "newFECEncoder New d p (crypt_room blk)")
    case None
    then show ?thesis using no_encoder pa(4) by auto
  next
    case (Some enc)
    from new_encodes [OF this lib(4), of a] pa(4) Some show ?thesis by auto
  qed
  then have "writer_io ?fec L conv [] [] a" using pa(1,3) by (simp add: writer_io_def payloads_of_def)
  then have "writes_io ?fec L conv [] [] a" unfolding writes_io_def by (metis append_Nil2)
  ultimately have "wrote ?fec L blk 0 conv [] [] [] a aw" using ta(1) pa(2) by (simp add: wrote_def)
  moreover note sb = new_session_sel [OF b(1)] and eb = new_kcp_empty [OF b(1)]
  note tb = tuned_sel [OF b(1,2) lib(1) b(3) lib(2,3)]
  have pb: "s_block b = blk" "s_bufptr b = []" "s_fecDecoder b = newFECDecoder New (3 * (d + p)) d p"
    using tb(3) sb(2,3,11) by auto
  have "taken (us_kcp b) conv [] []" using tb(2) eb by (simp add: taken_def recv_inv_def untuned_def)
  then have "far_inv (us_kcp b) conv [] []" using tb(1,2) eb(1) by (simp add: far_inv_def untuned_def session_ok_def)
  then have "has_read ?fec conv [] [] [] b" using tb(1) pb new_hears by (simp add: has_read_def)
  ultimately show ?thesis using pb(1) by (auto simp: pair_inv_def pair_start_def)
qed

lemma pair_inv_prefix:
  assumes "pair_inv fec L blk conv P" "within P"
  shows "\<exists>rest. p_given P = p_got P @ rest"
proof -
  from assms obtain xs where "wrote fec L blk 0 conv (p_log P) (p_given P) xs (w_s P) (w_w P)"
    "has_read fec conv (p_log P) xs (p_got P) (r_s P)" by (auto simp: pair_inv_def)
  then have inv: "near_inv (us_kcp (w_s P)) (w_w P) (p_log P) (p_given P)"
    "taken (us_kcp (r_s P)) conv (p_log P) (p_got P @ s_bufptr (r_s P))"
    by (simp_all add: wrote_def has_read_def far_inv_def)
  from inv(2) obtain n where
    "p_got P @ s_bufptr (r_s P) @ payload (rcv_queue (us_kcp (r_s P))) = payload (take n (p_log P))"
    by (auto simp: taken_def)
  moreover have "p_given P = payload (take n (p_log P)) @ payload (drop n (p_log P)) @ payload (snd_queue (us_kcp (w_s P)))"
    using inv(1) by (simp add: near_inv_def flip: payload_simps(3) append_assoc)
  ultimately show ?thesis by (metis append_assoc)
qed

subsection \<open>What is guaranteed\<close>

text \<open>C1. End to end through two sessions, with encryption, checksum and error correction: over a network that
  loses, repeats, delays, reorders and garbles (detectably) the packets of the writer's session and delivers
  anything to it, and for any interleaving of writes, reads, updates, deadlines and closing on both
  sides, what was read is at every moment a prefix of what was written, as long as fewer than
  \<open>2^31\<close> segments were numbered and packets sent.\<close>

theorem session_prefix:
  assumes "new_session L New ka sa conv d p ca blk w1 = Some (a0, aw)" "tuned a0 a" "length sa = 16" "outs w1 = []"
    and "new_session L New kb sb conv d p cb blk w2 = Some (b0, bw)" "tuned b0 b" "length sb = 16"
    and "ciphers_ok L" "block_fine blk" "rs_sized New" "rs_library New"
    and "io_ok ioW" "io_ok ioR" "io_libs ioW = L" "io_libs ioR = L"
    and "pair_reachable ioW ioR (pair_start a aw b bw) P"
    and "length (p_log P) < 2 ^ 31" "length (s_conn (w_s P)) < 2 ^ 31"
  shows "\<exists>rest. p_given P = p_got P @ rest"
  using pair_inv_prefix [OF pair_reachable_inv [OF assms(16)
      pair_start_inv [OF assms(1-11), folded assms(14)] assms(12,13)]] assms(14,15,17,18)
  by (simp add: within_def)

subsection \<open>A run over sample libraries\<close>

definition demo_kcp :: KCP where "demo_kcp = snd (ReserveBytes 20 (NewKCP 7))"

lemmas flush_defs = demo_kcp_def ReserveBytes_def flush_def flush_seg_def probe_window_def flush_cmd_def flush_data_def flush_cwnd_def
      admit_def itimediff_def imin_def xmit_seg_def xmit_choose_def xmit_send_def currentMs_def
      makeSpace_def segment_encode_eq segment0_def ptr0_def Let_def remove_front_def go_copy_def
      NewKCP_def KCP0_def flush_resent_def flushBuffer_def emit_def wnd_unused_def
      wire_bytes_def header_bytes_def flush_congestion_def flush_count_def

abbreviation "demo_data \<equiv> segment0\<lparr>seg_data := [1, 2, 3]\<rparr>"

text \<open>Three bytes are queued; the first flush opens the congestion window, the second sends them.\<close>

lemma demo_flush0:
  "\<exists>r w'. flush (\<lambda>_. 0) False (demo_kcp\<lparr>snd_queue := [demo_data]\<rparr>) w
     = Some (r, demo_kcp\<lparr>snd_queue := [demo_data], cwnd := 1, incr := 1356\<rparr>, w') \<and> outs w' = outs w"
  by (simp add: flush_defs)

lemma demo_flush1:
  "\<exists>r k w'. flush (\<lambda>_. 0) False (demo_kcp\<lparr>snd_queue := [demo_data], cwnd := 1, incr := 1356\<rparr>) w = Some (r, k, w')
     \<and> outs w' = outs w @ [wire_bytes (segment0\<lparr>seg_conv := 7, seg_cmd := 81, seg_wnd := 32, seg_data := [1, 2, 3]\<rparr>)]
     \<and> length (snd_buf k) = 1 \<and> snd_queue k = []"
  by (simp add: flush_defs)

abbreviation "demo_seg \<equiv> segment0\<lparr>seg_conv := 7, seg_cmd := 81, seg_wnd := 32, seg_data := [1, 2, 3]\<rparr>"

lemma demo_input7:
  "\<exists>r k w'. Input (\<lambda>_. 0) (wire_bytes demo_seg) True False demo_kcp w = Some (r, k, w')
     \<and> map seg_data (rcv_queue k) = [[1, 2, 3]] \<and> map seg_frg (rcv_queue k) = [0] \<and> outs w' = outs w"
proof -
  have kd: "kconv demo_kcp = 7" by (simp add: demo_kcp_def ReserveBytes_def NewKCP_def KCP0_def Let_def)
  have "input_loop True (wire_bytes demo_seg) demo_kcp w v =
      map_option (\<lambda>(k, w, v). Fin k w v) (input_segs True [demo_seg] demo_kcp w v)" for v
    using input_loop_packet [of "[demo_seg]" demo_kcp True w v]
    by (simp add: KcpInputFacts.sendable_def segment0_def kd)
  then show ?thesis
    by (simp add: Input_def input_dispatch_def input_push_def seg_header_def segment0_def parse_una_def
        shrink_buf_def ack_push_def parse_data_def itimediff_def rcv_scan_def rcv_insert_def
        seq_insert_def move_ready_def Let_def demo_kcp_def ReserveBytes_def NewKCP_def KCP0_def input_rtt_def input_cwnd_def
        remove_front_def go_copy_def)
qed

text \<open>Without error correction a packet of KCP is one packet on the network.\<close>

lemma plain_call:
  assumes "io_ok io" "session_ok s" "s_fecEncoder s = None" "s_dup s = 0"
    and "f (us_kcp s) w = Some (r, k, w1)" "outs w1 = outs w @ [p]" "24 \<le> length p" "reserved k = s_headerSize s"
  shows "\<exists>s' w' D. kcp_call io f s w = Some (r, s', w') \<and> us_kcp s' = k \<and> s_conn s' = s_conn s @ [D]
     \<and> open_packet (io_libs io) (s_block s) D = Some (Some p) \<and> length D = s_headerSize s + length p"
proof -
  let ?s = "s\<lparr>us_kcp := k\<rparr>" and ?buf = "replicate (reserved k) 0 @ p :: bytes"
  have ok: "nonce_fine (s_nonce ?s)" "block_fine (s_block ?s)" "s_headerSize s = crypt_room (s_block s)"
    using assms(2,3) by (simp_all add: session_ok_def parts_ok_def)
  then have "crypt_room (s_block ?s) \<le> length ?buf" using assms(8) by simp
  from seal_packet_ok [OF assms(1) ok(1,2) this] obtain D s1 where
    D: "seal_packet io ?buf ?s = Some (D, s1)" "length D = length ?buf"
      "open_packet (io_libs io) (s_block s) D = Some (Some p)" "io_only ?s s1" "s_conn s1 = s_conn s"
    using ok(3) assms(8) by auto
  have s1: "us_kcp s1 = k" "s_dup s1 = 0" using io_onlyD(1,7) [OF D(4)] assms(4) by simp_all
  from write_all [of io s1 0 0 "[D]"] obtain s2 n m where
    s2: "foldl (\<lambda>st b. write_to io b st) (s1, 0, 0) [D] = (s2, n, m)" "s_conn s2 = s_conn s1 @ [D]" "io_only s1 s2"
    by blast
  have "us_kcp s2 = k" using io_onlyD(1) [OF s2(3)] s1(1) by simp
  moreover obtain w2 where o2: "output_all io [p] ?s w1 = Some (s2, w2)"
    using D(1) s1(2) s2(1) assms(3,7,8) by (simp add: output_callback_def session_output_def session_encode_def Let_def)
  have "kcp_call io f s w = Some (r, s2, w2)" using assms(5,6) o2 by (simp add: kcp_call_def del: output_all.simps)
  ultimately show ?thesis using D(2,3,5) s2(2) assms(8) by auto
qed


text \<open>Two sessions with encryption: one writes three bytes and is updated, the packet arrives, the other reads.\<close>

definition demo_plain :: "bool \<Rightarrow> session \<times> world" where
  "demo_plain client =
     the (new_session sample_libs xor_New (replicate 16 3) (replicate 16 5) 7 0 0 client (Some demo_block) world0)"

lemma demo_plain: "new_session sample_libs xor_New (replicate 16 3) (replicate 16 5) 7 0 0 client (Some demo_block) world0
     = Some (demo_plain client)"
  unfolding demo_plain_def by (simp add: new_session_def nonceAES128_Init_def sample_libs_def Let_def)

lemma demo_plain_sel:
  assumes "demo_plain client = (s, w)"
  shows "session_ok s" "us_kcp s = demo_kcp" "s_fecEncoder s = None" "s_fecDecoder s = None" "s_headerSize s = 20"
    "s_dup s = 0" "us_ackNoDelay s = False" "us_writeDelay s = False" "s_isClosed s = False" "s_bufptr s = []" "s_conn s = []"
proof -
  note new = demo_plain [of client, unfolded assms]
  have len: "length (replicate 16 5 :: bytes) = 16" by simp
  show "session_ok s" by (rule created_session_ok [OF new sample_libs_ok(2) len demo_block_fine xor_sized])
qed (use demo_plain [of client, unfolded assms] in
    \<open>auto simp: new_session_def newFECEncoder_def newFECDecoder_def demo_kcp_def cryptHeaderSize_def Let_def split: Option.bind_splits\<close>)

lemma demo_write:
  assumes "demo_plain True = (a, w)"
  shows "\<exists>s w'. Write_pass demo_io (\<lambda>_. 0) [[1, 2, 3]] 0 a w = Some (Returns 3, s, w')
     \<and> us_kcp s = demo_kcp\<lparr>snd_queue := [demo_data], cwnd := 1, incr := 1356\<rparr> \<and> same_data (a\<lparr>us_kcp := us_kcp s\<rparr>) s"
proof -
  note sel = demo_plain_sel [OF assms]
  have send: "send_buffers [[1, 2, 3]] demo_kcp = Some (demo_kcp\<lparr>snd_queue := [demo_data]\<rparr>)"
    by (simp add: send_pieces.simps demo_kcp_def ReserveBytes_def NewKCP_def KCP0_def Let_def Send_def send_fragments_def
        newSegment_def go_copy_def segment0_def)
  have room: "WaitSnd demo_kcp < unat (snd_wnd demo_kcp)"
    by (simp add: WaitSnd_def demo_kcp_def ReserveBytes_def NewKCP_def KCP0_def Let_def)
  from demo_flush0 [of w] obtain r w1 where f: "flush (\<lambda>_. 0) False (demo_kcp\<lparr>snd_queue := [demo_data]\<rparr>) w
     = Some (r, demo_kcp\<lparr>snd_queue := [demo_data], cwnd := 1, incr := 1356\<rparr>, w1)" "outs w1 = outs w" by blast
  then have "kcp_call demo_io (flush (\<lambda>_. 0) False) (a\<lparr>us_kcp := demo_kcp\<lparr>snd_queue := [demo_data]\<rparr>\<rparr>) w
     = Some (r, a\<lparr>us_kcp := demo_kcp\<lparr>snd_queue := [demo_data], cwnd := 1, incr := 1356\<rparr>\<rparr>, w1)"
    by (simp add: kcp_call_def)
  then show ?thesis using sel room send by (simp add: Write_pass_def Let_def same_data_def)
qed

lemma demo_updates:
  assumes "session_ok s" "us_kcp s = demo_kcp\<lparr>snd_queue := [demo_data], cwnd := 1, incr := 1356\<rparr>"
    "s_fecEncoder s = None" "s_dup s = 0" "s_conn s = []" "s_headerSize s = 20"
  shows "\<exists>r s' w' D. session_update demo_io (\<lambda>_. 0) s w = Some (r, s', w') \<and> length (snd_buf (us_kcp s')) = 1
     \<and> s_conn s' = [D] \<and> open_packet (io_libs demo_io) (s_block s) D = Some (Some (wire_bytes demo_seg)) \<and> length D = 47"
proof -
  from demo_flush1 [of w] obtain r k w1 where f: "flush (\<lambda>_. 0) False (us_kcp s) w = Some (r, k, w1)"
    "outs w1 = outs w @ [wire_bytes demo_seg]" "length (snd_buf k) = 1" unfolding assms(2) by blast
  have "reserved k = s_headerSize s"
    using f(1) assms(6) unfolding assms(2) by (auto simp: flush_defs)
  moreover have len: "length (wire_bytes demo_seg) = 27" by (simp add: wire_bytes_def header_bytes_def segment0_def)
  ultimately obtain s' w' D where "kcp_call demo_io (flush (\<lambda>_. 0) False) s w = Some (r, s', w')" "us_kcp s' = k" "s_conn s' = [D]"
     "open_packet (io_libs demo_io) (s_block s) D = Some (Some (wire_bytes demo_seg))" "length D = 47"
    using plain_call [where f = "flush (\<lambda>_. 0) False", OF demo_io_ok assms(1,3,4) f(1,2)] assms(5,6) by auto
  then show ?thesis using f(3) by (auto simp: session_update_def notifyWriteEvent_def Let_def)
qed

lemma demo_arrive:
  assumes "demo_plain False = (b, bw)" "open_packet (io_libs demo_io) (s_block b) D = Some (Some (wire_bytes demo_seg))"
  shows "\<exists>s w. session_packetInput demo_io (\<lambda>_. 0) D b bw = Some (s, w) \<and> map seg_data (rcv_queue (us_kcp s)) = [[1, 2, 3]]
     \<and> map seg_frg (rcv_queue (us_kcp s)) = [0] \<and> s_isClosed s = False \<and> s_bufptr s = []"
proof -
  note sel = demo_plain_sel [OF assms(1)]
  from demo_input7 [of bw] obtain r k w' where i: "Input (\<lambda>_. 0) (wire_bytes demo_seg) True False demo_kcp bw = Some (r, k, w')"
     "map seg_data (rcv_queue k) = [[1, 2, 3]]" "map seg_frg (rcv_queue k) = [0]" "outs w' = outs bw"
    by (elim exE conjE) (rule that)
  have "input_plain demo_io (\<lambda>_. 0) (wire_bytes demo_seg) (b, bw, in_counts0)
     = Some (b\<lparr>us_kcp := k\<rparr>, w', if r \<noteq> 0 then in_counts0\<lparr>in_kcpInErrors := in_kcpInErrors in_counts0 + 1\<rparr> else in_counts0)"
    using sel i(1,4) by (simp add: input_plain_def session_Input_def kcp_call_def)
  then show ?thesis using sel i(2,3) assms(2)
    by (auto simp: session_packetInput_def kcpInput_def input_events_def notifyReadEvent_def notifyWriteEvent_def Let_def)
qed

lemma demo_read:
  assumes "map seg_data (rcv_queue (us_kcp s)) = [[1, 2, 3]]" "map seg_frg (rcv_queue (us_kcp s)) = [0]"
    "s_isClosed s = False" "s_bufptr s = []"
  shows "\<exists>s' w'. Read_pass 5 0 s w = Some (Returns [1, 2, 3], s', w')"
proof -
  from assms(1,2) obtain t where t: "rcv_queue (us_kcp s) = [t]" "seg_data t = [1, 2, 3]" "seg_frg t = 0" by auto
  then have pre: "rcv_queue (us_kcp s) \<noteq> []" "0 \<le> PeekSize (us_kcp s)"
    "PeekSize (us_kcp s) \<le> int (length (replicate 5 0 :: bytes))" "PeekSize (us_kcp s) = 3"
    by (simp_all add: PeekSize_def)
  from Recv_ok [OF pre(1-3)] t obtain k where "Recv (replicate 5 0) (us_kcp s) = Some (3, [1, 2, 3, 0, 0], k)"
    by (auto simp: numeral_eq_Suc)
  then show ?thesis using pre(4) assms(3,4) by (simp add: Read_pass_def Let_def numeral_eq_Suc)
qed


lemma demo_run:
  assumes a: "demo_plain True = (a, aw)" and b: "demo_plain False = (b, bw)"
  shows "\<exists>P :: session_pair. pair_reachable demo_io demo_io (pair_start a aw b bw) P
     \<and> length (p_log P) = 1 \<and> length (s_conn (w_s P)) = 1 \<and> p_got P = [1, 2, 3]"
proof -
  note na = demo_plain [of True, unfolded a] and nb = demo_plain [of False, unfolded b]
  note sa = demo_plain_sel [OF a] and sb = demo_plain_sel [OF b]
  have blk: "s_block b = s_block a" using new_session_sel(2) [OF na] new_session_sel(2) [OF nb] by simp
  from demo_write [OF a] obtain a1 aw1 where
    a1: "Write_pass demo_io (\<lambda>_. 0) [[1, 2, 3]] 0 a aw = Some (Returns 3, a1, aw1)"
      "us_kcp a1 = demo_kcp\<lparr>snd_queue := [demo_data], cwnd := 1, incr := 1356\<rparr>" "same_data (a\<lparr>us_kcp := us_kcp a1\<rparr>) a1" by blast
  have "session_ok a1" using Write_pass_ok [OF sa(1) demo_io_ok, of "\<lambda>_. 0" "[[1, 2, 3]]" 0 aw] a1(1) by auto
  moreover have "s_fecEncoder a1 = None" "s_dup a1 = 0" "s_conn a1 = []" "s_headerSize a1 = 20" and blk1: "s_block a1 = s_block a"
    using a1(3) sa by (simp_all add: same_data_def)
  ultimately obtain r a2 aw2 D where
    a2: "session_update demo_io (\<lambda>_. 0) a1 aw1 = Some (r, a2, aw2)" "length (snd_buf (us_kcp a2)) = 1" "s_conn a2 = [D]"
      "open_packet (io_libs demo_io) (s_block a1) D = Some (Some (wire_bytes demo_seg))" "length D = 47"
    using demo_updates [OF _ a1(2), of aw1] by blast
  from demo_arrive [OF b, of D] a2(4) blk blk1 obtain b1 bw1 where
    b1: "session_packetInput demo_io (\<lambda>_. 0) D b bw = Some (b1, bw1)" "map seg_data (rcv_queue (us_kcp b1)) = [[1, 2, 3]]"
      "map seg_frg (rcv_queue (us_kcp b1)) = [0]" "s_isClosed b1 = False" "s_bufptr b1 = []" by auto
  from demo_read [OF b1(2-5), of bw1] obtain b2 bw2 where b2: "Read_pass 5 0 b1 bw1 = Some (Returns [1, 2, 3], b2, bw2)" by blast
  let ?P0 = "pair_start a aw b bw"
  have k: "snd_buf (us_kcp a) = []" "snd_buf (us_kcp a1) = []"
    using sa(2) a1(2) by (simp_all add: demo_kcp_def ReserveBytes_def NewKCP_def KCP0_def Let_def)
  note run = pair_reachable.step [where ioW = demo_io and ioR = demo_io and ?P0.0 = ?P0]
  define P1 where "P1 = ?P0\<lparr>w_s := a1, w_w := aw1, p_given := [1, 2, 3]\<rparr>"
  have "pair_step demo_io demo_io ?P0 P1"
    using pair_step.w_writes [of demo_io "\<lambda>_. 0" "[[1, 2, 3]]" 0 ?P0 "Returns 3" a1 aw1 demo_io] a1(1) k
    by (simp add: pair_start_def P1_def)
  from run [OF pair_reachable.start this] have r1: "pair_reachable demo_io demo_io ?P0 P1" .
  define P2 where "P2 = P1\<lparr>w_s := a2, w_w := aw2, p_log := snd_buf (us_kcp a2)\<rparr>"
  have "pair_step demo_io demo_io P1 P2"
    using pair_step.w_updates [of demo_io "\<lambda>_. 0" P1 r a2 aw2 demo_io] a2(1) k
    by (simp add: pair_start_def P1_def P2_def)
  from run [OF r1 this] have r2: "pair_reachable demo_io demo_io ?P0 P2" .
  define P3 where "P3 = P2\<lparr>r_s := b1, r_w := bw1\<rparr>"
  have "pair_step demo_io demo_io P2 P3"
    using pair_step.r_hears [of demo_io P2 D "\<lambda>_. 0" b1 bw1 demo_io] a2(3,5) b1(1) sb(5)
    by (simp add: pair_start_def P1_def P2_def P3_def from_network_def)
  from run [OF r2 this] have r3: "pair_reachable demo_io demo_io ?P0 P3" .
  define P4 where "P4 = P3\<lparr>r_s := b2, r_w := bw2, p_got := [1, 2, 3]\<rparr>"
  have "pair_step demo_io demo_io P3 P4"
    using pair_step.r_reads [of 5 0 P3 "Returns [1, 2, 3]" b2 bw2 demo_io demo_io] b2
    by (simp add: pair_start_def P1_def P2_def P3_def P4_def returned_def)
  from run [OF r3 this] have r4: "pair_reachable demo_io demo_io ?P0 P4" .
  have "length (p_log P4) = 1" "s_conn (w_s P4) = [D]" "p_got P4 = [1, 2, 3]"
    using a2(2,3) by (simp_all add: P4_def P3_def P2_def P1_def pair_start_def)
  with r4 show ?thesis by (intro exI [of _ P4]) simp
qed

theorem session_prefix_witness:
  "\<exists>P :: session_pair. p_got P = [1, 2, 3] \<and> length (s_conn (w_s P)) = 1 \<and> (\<exists>rest. p_given P = p_got P @ rest)"
proof -
  obtain a aw where a: "demo_plain True = (a, aw)" by fastforce
  obtain b bw where b: "demo_plain False = (b, bw)" by fastforce
  from demo_run [OF a b] obtain P :: session_pair where P: "pair_reachable demo_io demo_io (pair_start a aw b bw) P"
    "length (p_log P) = 1" "length (s_conn (w_s P)) = 1" "p_got P = [1, 2, 3]" by blast
  have len: "length (replicate 16 5 :: bytes) = 16" by simp
  have t: "tuned a a" "tuned b b" by (simp_all add: tuned_def)
  have libs: "io_libs demo_io = sample_libs" by (simp add: demo_io_def)
  from session_prefix [OF demo_plain [of True, unfolded a] t(1) len _ demo_plain [of False, unfolded b] t(2) len sample_libs_ok(2)
      demo_block_fine xor_sized xor_library demo_io_ok demo_io_ok libs libs P(1)] P(2-4)
  show ?thesis by (intro exI [of _ P]) (simp add: world0_def)
qed

end
