(* ===== verification/Spec2Isabelle.thy ===== *)
theory Spec2Isabelle
  imports Relay UdpCommandsFacts UpdaterFacts FecGuarantees ListenerFacts SessionPair
begin

text \<open>
  A verification library for kcptun: the ARQ protocol it runs over UDP, the sessions built on it with
  error correction and encryption, the datagram tunnel, the disguise of packets as TCP, and the four
  commands.

  \<^bold>\<open>The program.\<close> The stream tunnel (\<open>client/\<close>, \<open>server/\<close>) carries TCP connections over KCP
  sessions (\<open>third_party/kcp-go\<close>); the datagram tunnel (\<open>udptun/\<close>, \<open>udpclient/\<close>, \<open>udpserver/\<close>)
  carries the datagrams of a UDP relay without KCP; both encrypt with the ciphers of
  \<open>third_party/kcp-go/crypt\<close>, and both may run over UDP or over \<open>rawtcp/\<close>, which writes its packets
  as segments of a TCP connection. A Go operation that may panic returns an option, \<^const>\<open>None\<close>
  being the panic; an operation under a lock is one step. One step is also the registration of a session
  with the wake-up that follows it, and a datagram's way through \<open>localLoop\<close>, where a reap between finding the
  flow and sending is an event after the step.

  \<^bold>\<open>KCP\<close> (\<open>kcp.go\<close>, \<open>snmp.go\<close>). \<open>Prelude\<close> has bytes, words and Go's slices; \<open>Serial\<close> serial
  number arithmetic and queues ordered by it; \<open>Snmp\<close> the counters and the environment (clock readings,
  packets output); \<open>KcpWire\<close> the segment format; \<open>KcpState\<close> the \<open>KCP\<close> structure and its settings;
  \<open>KcpRecv\<close>, \<open>KcpSend\<close>, \<open>KcpAck\<close>, \<open>KcpInput\<close>, \<open>KcpFlush\<close> the functions of the same names. The
  invariant is \<open>kcp_ok\<close> (\<open>KcpProperties\<close>), kept by every operation; \<open>KcpFlushFacts\<close>,
  \<open>KcpInputFacts\<close>, \<open>KcpDelivery\<close> and \<open>KcpTiming\<close> give the functional behaviour; \<open>KcpTransfer\<close>
  runs two ends over a network that loses, duplicates and reorders packets and shows that what is
  read is a prefix of what was written.

  \<^bold>\<open>Encryption\<close> (\<open>crypt/crypt.go\<close>, \<open>crypt/entropy.go\<close>, \<open>udptun/cipher.go\<close>, the cipher switches of
  the two mains). \<open>Crypt\<close> has the unrolled CFB routines, \<open>CryptFacts\<close> their equivalence with the
  mode as textbooks define it, \<open>BlockCrypt\<close> the implementations, their constructors and the locale
  of what the tunnels rely on. The ciphers, the XOR routines, Salsa20, PBKDF2 and MD5 are fields
  of \<open>crypt_libs\<close>; \<open>libs_ok\<close> and \<open>ciphers_ok\<close> state what their packages document.

  \<^bold>\<open>Error correction\<close> (\<open>fec.go\<close>). \<open>Fec\<close> has the encoder and the decoder; the Reed-Solomon code is a
  parameter whose documented contract is \<open>rs_laws\<close>. \<open>FecFacts\<close> shows what the encoder puts on the
  wire for a list of payloads, \<open>FecDecode\<close> that the decoder recovers only such payloads,
  \<open>FecRecovery\<close> that a search finds exactly the packets of a group, \<open>FecProperties\<close> and
  \<open>FecGuarantees\<close> that a group is restored from any \<open>dataShards\<close> of its packets and that the decoder
  implements an abstract window of packet numbers. Encoder and decoder agree within one cycle of the
  packet numbers, which is the bound of these properties.

  \<^bold>\<open>The update scheduler\<close> (\<open>updater.go\<close>). \<open>GoHeap\<close> is \<open>container/heap\<close> over the interface the
  program gives it, \<open>Updater\<close> the heap of sessions with its index, registration, removal and the rounds
  of the update goroutine, \<open>UpdaterFacts\<close> the abstract table of deadlines it implements and that no
  registered session is forgotten.

  \<^bold>\<open>Sessions and listeners\<close> (\<open>sess.go\<close>, the read loops). \<open>Session\<close> follows a packet from KCP's callback
  through error correction, checksum and encryption to the packet connection, and back; reading,
  writing, waiting, deadlines and closing. \<open>Listener\<close> has the directory of sessions by address, the
  queue of accepted ones, the monitor, accepting, closing and dialling. \<open>SessionFacts\<close> and
  \<open>SessionSafe\<close> show that every packet sealed is opened again by the other side and that no operation
  panics, \<open>SessionUse\<close> the same for reading, writing and every setting, \<open>SessionLife\<close> that a session used by
  any number of readers and writers, whose settings change meanwhile, never panics, and which of those who wait are woken, \<open>ListenerFacts\<close>
  that a server with its listener, sessions and
  update goroutine implements a directory and a bounded queue. Settings are taken with a send window below \<open>2^31\<close>
  and an MTU that leaves room for the header and for what is queued; what others do is shown in \<open>KcpTiming\<close>. \<open>SessionTransfer\<close> gives the
  invariants of a session that writes and of one that hears it, and \<open>SessionPair\<close> runs two of them end to
  end: through error correction and encryption, over a network that loses, repeats, reorders and garbles, what
  is read is a prefix of what was written. Its bounds, \<open>2^31\<close> segments and packets, keep the sequence
  numbers of KCP and of the encoder from coming round; garbled packets are those decryption and checksum refuse.

  \<^bold>\<open>The datagram tunnel.\<close> \<open>Crc32\<close> computes the checksum bit by bit; \<open>Packet\<close> is \<open>packet.go\<close>;
  \<open>TunClient\<close> and \<open>TunServer\<close> are \<open>client.go\<close> and \<open>server.go\<close>, one handler per event of a
  goroutine, on a state whose pointers are indices into a heap of flows. \<open>TunClientFacts\<close> and
  \<open>TunServerFacts\<close> show that the handlers implement abstract tables (from addresses to ids, from
  client and id to socket); \<open>Relay\<close> follows a datagram and its reply through both. Flow ids run
  out only with \<open>2^32 - 1\<close> live flows, which the properties exclude explicitly, as the search for an
  id does not return then.

  \<^bold>\<open>The disguise\<close> (\<open>rawtcp/conn_linux.go\<close>). \<open>RawTcp\<close> has the flow table, the capture loop, \<open>ReadFrom\<close>,
  \<open>WriteTo\<close>, the cleaner, \<open>Dial\<close>, \<open>Listen\<close> with its accept loop, \<open>Close\<close> and \<open>Cleanup\<close>; what the system
  is asked to do is a list of effects. \<open>RawTcpFacts\<close> has the interface of flow tables, sequence
  numbers and exchanges between two ends; \<open>RawTcpLife\<close> the handshake, the events of a connection
  with its invariant \<open>raw_ok\<close>, orphans, the eviction of idle peers and what it leaves of a connection, and closing.

  \<^bold>\<open>The commands.\<close> \<open>Flags\<close> models flags, contexts and JSON decoding, with the locale of
  configuration tables; \<open>StreamConfig\<close>, \<open>StreamClient\<close>, \<open>StreamServer\<close> and \<open>UdpCommands\<close> follow the
  four mains; \<open>StreamConfigFacts\<close>, \<open>StreamClientFacts\<close> and \<open>UdpCommandsFacts\<close> show where settings
  come from, how connections are spread over sessions, how sessions retire, what a reset of the counters does to
  the number of open sessions in the log, and that commands started alike work together. The command-line parser, smux
  and snappy are parameters. A time is a mathematical integer of nanoseconds, so that durations
  of more than 292 years, which wrap in Go, are outside the model.

  \<^bold>\<open>Interfaces.\<close> \<open>field_codec\<close> (interpreted on the integer fields of a segment), \<open>seq_queue\<close> (on the
  receive buffer of KCP and the queue of the decoder), \<open>heap_interface\<close> (on the updater's heap),
  \<open>block_crypt\<close> (on every cipher), \<open>flow_table\<close> (on the flows of a raw connection), \<open>config_table\<close>
  (on the four configurations).

  \<^bold>\<open>Not modelled.\<close> Third-party libraries and the standard library beyond what the source uses of it;
  resolving addresses and opening sockets, whose outcomes are inputs; getters of addresses; log output other
  than that of a stream; profiling; the \<open>rawtcp\<close> stub of other systems, which only returns errors.
\<close>

end
